(* ===== verification/Prelude.thy ===== *)
theory Prelude
  imports Main "HOL-Library.Word"
begin

unbundle bit_operations_syntax

section \<open>Shared vocabulary of the development\<close>

text \<open>
  What every theory of the development uses: the names of the Go integer types, the values
  that stand for Go errors and panics, a parser over the bytes of a \<open>bytes.Reader\<close>, a writer
  that appends to a \<open>bytes.Buffer\<close>, and the automation the components share.

  \<^item> Go's \<open>uint8\<close>, \<open>uint16\<close>, \<open>uint32\<close>, \<open>uint64\<close> are words of that width, so that
    \<open>+\<close>, \<open>-\<close> and \<open>*\<close> wrap as they do in Go.
  \<^item> A function \<open>f(...) (T, error)\<close> returns \<open>go_error + T\<close>: \<open>Inl\<close> is the error that is
    returned, or a panic, \<open>Inr\<close> the value.
  \<^item> A \<open>bytes.Reader\<close> is the list of the bytes not read yet; a read consumes a prefix.
  \<^item> A write to a \<open>bytes.Buffer\<close> is the list of the bytes appended. Where a Go writer returns
    an error after some bytes were appended, the model drops those bytes: every caller that
    sees the error abandons the buffer.
\<close>

subsection \<open>Integer types\<close>

type_synonym u8 = "8 word"
type_synonym u16 = "16 word"
type_synonym u32 = "32 word"
type_synonym u64 = "64 word"

text \<open>The named integer types of \<open>internal/protocol/protocol.go\<close>.\<close>

type_synonym PacketNumber = u64
type_synonym PacketNumberLen = u8
type_synonym ConnectionID = u64
type_synonym StreamID = u32
type_synonym PathID = u8
type_synonym ByteCount = u64

text \<open>
  \<open>VersionNumber\<close> is Go's \<open>int\<close>; the code compares version numbers and converts them to
  \<open>uint32\<close>, it never computes with them, so an unbounded integer loses nothing.
\<close>

type_synonym VersionNumber = int

subsection \<open>Errors\<close>

text \<open>
  \<open>EOF\<close> and \<open>UnexpectedEOF\<close> are those of package \<open>io\<close>; \<open>GoErr\<close> is an error value made by
  \<open>errors.New\<close> or \<open>fmt.Errorf\<close>, named by its Go variable or, where it has none, by its text;
  \<open>QErr\<close> is a \<open>qerr.QuicError\<close>, named by its error code; \<open>Panic\<close> is a Go panic.
\<close>

datatype go_error =
    EOF
  | UnexpectedEOF
  | GoErr string
  | QErr string
  | Panic string

subsection \<open>Reading from a \<open>bytes.Reader\<close>\<close>

type_synonym 'a parser = "u8 list \<Rightarrow> go_error + ('a \<times> u8 list)"

definition pret :: "'a \<Rightarrow> 'a parser" where
  "pret x r = Inr (x, r)"

definition pfail :: "go_error \<Rightarrow> 'a parser" where
  "pfail e r = Inl e"

definition pbind :: "'a parser \<Rightarrow> ('a \<Rightarrow> 'b parser) \<Rightarrow> 'b parser" where
  "pbind p f r = (case p r of Inl e \<Rightarrow> Inl e | Inr (x, r') \<Rightarrow> f x r')"

text \<open>\<open>if cond { return nil, err }\<close> in the middle of a parser.\<close>

definition pguard :: "bool \<Rightarrow> go_error \<Rightarrow> unit parser" where
  "pguard ok e = (if ok then pret () else pfail e)"

text \<open>\<open>r.ReadByte()\<close>, \<open>r.Len()\<close> and \<open>io.ReadFull(r, make([]byte, n))\<close>.\<close>

fun readByte :: "u8 parser" where
  "readByte [] = Inl EOF"
| "readByte (b # r) = Inr (b, r)"

definition readerLen :: "nat parser" where
  "readerLen r = Inr (length r, r)"

definition readFull :: "nat \<Rightarrow> u8 list parser" where
  "readFull n r =
     (if n \<le> length r then Inr (take n r, drop n r)
      else if r = [] then Inl EOF else Inl UnexpectedEOF)"

subsection \<open>Writing to a \<open>bytes.Buffer\<close>\<close>

type_synonym writer = "go_error + u8 list"

definition wbytes :: "u8 list \<Rightarrow> writer" where
  "wbytes bs = Inr bs"

definition wbyte :: "u8 \<Rightarrow> writer" where
  "wbyte b = wbytes [b]"

text \<open>Statements that write, one after the other; the first error or panic ends the function.\<close>

fun wseq :: "writer list \<Rightarrow> writer" where
  "wseq [] = Inr []"
| "wseq (w # ws) =
     (case w of Inl e \<Rightarrow> Inl e
      | Inr bs \<Rightarrow> (case wseq ws of Inl e \<Rightarrow> Inl e | Inr cs \<Rightarrow> Inr (bs @ cs)))"

definition wguard :: "bool \<Rightarrow> go_error \<Rightarrow> writer" where
  "wguard ok e = (if ok then Inr [] else Inl e)"

subsection \<open>Casts between widths\<close>

lemma take_bit_64_id [simp]: "take_bit 64 (x :: u64) = x"
  by (rule bit_word_eqI) (simp add: bit_simps)

lemma ucast_8_64_8 [simp]: "(ucast (ucast (b :: u8) :: u64) :: u8) = b"
  by (rule bit_word_eqI) (auto simp: bit_simps)

lemma ucast_16_64_16 [simp]: "(ucast (ucast (b :: u16) :: u64) :: u16) = b"
  by (rule bit_word_eqI) (auto simp: bit_simps)

lemma ucast_32_64_32 [simp]: "(ucast (ucast (b :: u32) :: u64) :: u32) = b"
  by (rule bit_word_eqI) (auto simp: bit_simps)

lemma take_bit_8_ucast [simp]: "take_bit 8 (ucast (b :: u8) :: u64) = ucast b"
  by (rule bit_word_eqI) (auto simp: bit_simps dest: bit_imp_le_length)

lemma take_bit_16_ucast [simp]: "take_bit 16 (ucast (b :: u16) :: u64) = ucast b"
  by (rule bit_word_eqI) (auto simp: bit_simps dest: bit_imp_le_length)

lemma take_bit_32_ucast [simp]: "take_bit 32 (ucast (b :: u32) :: u64) = ucast b"
  by (rule bit_word_eqI) (auto simp: bit_simps dest: bit_imp_le_length)

lemma unat_pow2: "n < LENGTH('a) \<Longrightarrow> unat (2 ^ n :: 'a::len word) = 2 ^ n"
proof -
  assume "n < LENGTH('a)"
  then have "(2::nat) ^ n < 2 ^ LENGTH('a)" by (intro power_strict_increasing) auto
  then have "unat (of_nat (2 ^ n) :: 'a word) = 2 ^ n"
    by (simp only: unat_of_nat mod_less)
  then show ?thesis by simp
qed

lemma unat_ucast_mod: "unat (ucast (x :: 'a::len word) :: 'b::len word) = unat x mod 2 ^ LENGTH('b)"
  by (simp add: unsigned_ucast_eq take_bit_eq_mod)

lemma unat_bound: "unat (x :: 'a::len word) < 2 ^ LENGTH('a)"
  by (rule unsigned_less)

lemma unat_ucast_wide:
  assumes "LENGTH('a) \<le> LENGTH('b)"
  shows "unat (ucast (x :: 'a::len word) :: 'b::len word) = unat x"
proof -
  have "(2::nat) ^ LENGTH('a) \<le> 2 ^ LENGTH('b)" using assms by (intro power_increasing) auto
  then have "unat x < 2 ^ LENGTH('b)" using unat_bound [of x] by linarith
  then show ?thesis by (simp add: unat_ucast_mod)
qed

lemma unat_of_nat_u64: "n < 2 ^ 64 \<Longrightarrow> unat (of_nat n :: u64) = n"
  by (simp add: unsigned_of_nat take_bit_nat_eq_self)

lemma sint_small:
  assumes "unat (x :: u64) < 2 ^ 63"
  shows "sint x = int (unat x)"
proof -
  have "int (unat x) < int (2 ^ 63)" using assms by (simp only: of_nat_less_iff)
  then have "uint x < 2 ^ 63" by simp
  then have "signed_take_bit 63 (uint x) = uint x" by (intro signed_take_bit_int_eq_self order_trans [OF _ uint_ge_0]) simp_all
  moreover have "sint x = signed_take_bit 63 (uint x)" using sint_uint [of x] by simp
  ultimately show ?thesis by simp
qed

lemma unat_drop_bit_div: "unat (drop_bit n (x :: 'a::len word)) = unat x div 2 ^ n"
  by (simp only: unsigned_drop_bit_eq) (simp add: drop_bit_eq_div take_bit_nat_eq_self unat_bound)

lemma unat_eqI: "unat x = unat y \<Longrightarrow> x = (y :: 'a::len word)"
  by (rule unsigned_word_eqI)

lemma unat_take_bit: "unat (take_bit n (x :: 'a::len word)) = unat x mod 2 ^ n"
  by (simp only: unsigned_take_bit_eq) (simp only: take_bit_eq_mod)

lemma take_bit_lt: "n < LENGTH('a) \<Longrightarrow> take_bit n (x :: 'a::len word) < 2 ^ n"
  by (simp only: word_less_nat_alt unat_take_bit unat_pow2) simp

lemma take_bit_small: "x < 2 ^ n \<Longrightarrow> n < LENGTH('a) \<Longrightarrow> take_bit n (x :: 'a::len word) = x"
  by (rule unat_eqI) (simp only: word_less_nat_alt unat_take_bit unat_pow2 mod_less)

lemma ucast_ucast_take_bit:
  "ucast (ucast (x :: u64) :: u8) = take_bit 8 x"
  "ucast (ucast (x :: u64) :: u16) = take_bit 16 x"
  "ucast (ucast (x :: u64) :: u32) = take_bit 32 x"
  by (rule bit_word_eqI; auto simp: bit_simps)+

lemma unat_uminus_eq:
  assumes "x \<noteq> (0 :: 'a::len word)"
  shows "unat (- x) = 2 ^ LENGTH('a) - unat x"
proof -
  have "(unat (- x) + unat x) mod 2 ^ LENGTH('a) = 0"
    using unat_word_ariths(1) [of "- x" x] by simp
  then obtain q where q: "unat (- x) + unat x = 2 ^ LENGTH('a) * q" by (auto simp: mod_eq_0_iff_dvd)
  have pos: "0 < unat x" using assms by (simp add: unat_gt_0)
  have "2 ^ LENGTH('a) * q < 2 ^ LENGTH('a) * 2"
    using q unat_bound [of x] unat_bound [of "- x"] by linarith
  then have "q < 2" by simp
  moreover have "q \<noteq> 0" using q pos by (cases q) auto
  ultimately show ?thesis using q by (cases "q = 1") auto
qed

lemma two_le_power: "0 < n \<Longrightarrow> (2::nat) \<le> 2 ^ n"
  by (cases n) auto

subsection \<open>Durations\<close>

text \<open>
  A \<open>time.Duration\<close> is an \<open>int64\<close> of nanoseconds, modelled by an \<open>int\<close>; where the code can leave
  the range of \<open>int64\<close> the model wraps explicitly with \<open>wrap64\<close>. Go's division truncates towards
  zero, unlike \<open>div\<close>.
\<close>

type_synonym Duration = int

definition go_div :: "int \<Rightarrow> int \<Rightarrow> int" where
  "go_div a b = sgn a * sgn b * (\<bar>a\<bar> div \<bar>b\<bar>)"

definition wrap64 :: "int \<Rightarrow> int" where
  "wrap64 x = (x + 2 ^ 63) mod 2 ^ 64 - 2 ^ 63"

definition Microsecond :: Duration where "Microsecond = 1000"
definition Millisecond :: Duration where "Millisecond = 1000000"
definition Second :: Duration where "Second = 1000000000"

lemma wrap64_id: "- (2 ^ 63) \<le> x \<Longrightarrow> x < 2 ^ 63 \<Longrightarrow> wrap64 x = x"
  by (simp add: wrap64_def)

lemma go_div_nonneg: "0 \<le> a \<Longrightarrow> 0 < b \<Longrightarrow> go_div a b = a div b"
  by (cases "a = 0") (simp_all add: go_div_def)

subsection \<open>Automation\<close>

named_theorems parser_simps "evaluation of the parser and writer combinators"
named_theorems roundtrip_simps "reading back what was written"

lemma pbind_Inr [parser_simps]: "p r = Inr (x, r') \<Longrightarrow> pbind p f r = f x r'"
  by (simp add: pbind_def)

lemma pbind_Inl [parser_simps]: "p r = Inl e \<Longrightarrow> pbind p f r = Inl e"
  by (simp add: pbind_def)

lemma pbind_ok_iff:
  "pbind p f r = Inr (y, s) \<longleftrightarrow> (\<exists>x r'. p r = Inr (x, r') \<and> f x r' = Inr (y, s))"
  by (auto simp: pbind_def split: sum.splits)

lemma pguard_True [parser_simps]: "pguard True e r = Inr ((), r)"
  by (simp add: pguard_def pret_def)

lemma pguard_False [parser_simps]: "pguard False e r = Inl e"
  by (simp add: pguard_def pfail_def)

lemma pguard_ok_iff: "pguard ok e r = Inr (u, s) \<longleftrightarrow> ok \<and> s = r"
  by (auto simp: pguard_def pret_def pfail_def)

lemma pret_ok_iff: "pret x r = Inr (y, s) \<longleftrightarrow> y = x \<and> s = r"
  by (auto simp: pret_def)

lemma readByte_ok_iff: "readByte r = Inr (b, s) \<longleftrightarrow> r = b # s"
  by (cases r) auto

lemma readFull_append [roundtrip_simps]:
  "length bs = n \<Longrightarrow> readFull n (bs @ r) = Inr (bs, r)"
  by (simp add: readFull_def)

lemma readFull_ok_iff:
  "readFull n r = Inr (bs, s) \<longleftrightarrow> r = bs @ s \<and> length bs = n"
  by (auto simp: readFull_def)

lemmas parser_ok_iff =
  pbind_ok_iff pguard_ok_iff pret_ok_iff readByte_ok_iff readFull_ok_iff

text \<open>A parser never grows what is left to read; most take at least one byte.\<close>

definition consumes :: "nat \<Rightarrow> 'a parser \<Rightarrow> bool" where
  "consumes n p \<longleftrightarrow> (\<forall>bs x r. p bs = Inr (x, r) \<longrightarrow> length r + n \<le> length bs)"

named_theorems consumes_intros "how many bytes a parser takes at least"

lemma consumesD: "consumes n p \<Longrightarrow> p bs = Inr (x, r) \<Longrightarrow> length r + n \<le> length bs"
  by (auto simp: consumes_def)

lemma consumes_pret [consumes_intros]: "consumes 0 (pret x)"
  by (simp add: consumes_def pret_def)

lemma consumes_pfail [consumes_intros]: "consumes n (pfail e)"
  by (simp add: consumes_def pfail_def)

lemma consumes_pguard [consumes_intros]: "consumes 0 (pguard ok e)"
  by (simp add: consumes_def pguard_ok_iff)

lemma consumes_readByte: "consumes 1 readByte"
  by (auto simp: consumes_def readByte_ok_iff)

lemma consumes_readFull [consumes_intros]: "consumes 0 (readFull n)"
  by (auto simp: consumes_def readFull_ok_iff)

lemma consumes_readerLen [consumes_intros]: "consumes 0 readerLen"
  by (auto simp: consumes_def readerLen_def)

lemma consumes_pbind: "consumes m p \<Longrightarrow> (\<And>x. consumes n (f x)) \<Longrightarrow> consumes (m + n) (pbind p f)"
  unfolding consumes_def pbind_ok_iff by fastforce

lemma consumes_le: "consumes n p \<Longrightarrow> m \<le> n \<Longrightarrow> consumes m p"
  unfolding consumes_def by fastforce

lemma consumes_first: "consumes 1 p \<Longrightarrow> (\<And>x. consumes 0 (f x)) \<Longrightarrow> consumes 1 (pbind p f)"
  using consumes_pbind [of 1 p 0 f] by simp

lemma consumes_next [consumes_intros]:
  "consumes 0 p \<Longrightarrow> (\<And>x. consumes 0 (f x)) \<Longrightarrow> consumes 0 (pbind p f)"
  using consumes_pbind [of 0 p 0 f] by simp

lemma consumes_if [consumes_intros]: "consumes n p \<Longrightarrow> consumes n q \<Longrightarrow> consumes n (if b then p else q)"
  by simp

lemma consumes_readByte_0 [consumes_intros]: "consumes 0 readByte"
  using consumes_readByte by (rule consumes_le) simp

lemma consumes_Let [consumes_intros]: "(\<And>x. consumes n (f x)) \<Longrightarrow> consumes n (Let v f)"
  by (simp add: Let_def)

lemma wseq_append:
  "wseq (xs @ ys) =
     (case wseq xs of Inl e \<Rightarrow> Inl e
      | Inr bs \<Rightarrow> (case wseq ys of Inl e \<Rightarrow> Inl e | Inr cs \<Rightarrow> Inr (bs @ cs)))"
  by (induction xs) (auto split: sum.splits)

lemma wseq_map_Inr: "wseq (map Inr bss) = Inr (concat bss)"
  by (induction bss) auto

lemma wseq_ok_Cons [simp]:
  "wseq (w # ws) = Inr bs \<longleftrightarrow> (\<exists>as cs. w = Inr as \<and> wseq ws = Inr cs \<and> bs = as @ cs)"
  by (auto split: sum.splits)

lemma wguard_ok_iff [simp]: "wguard ok e = Inr bs \<longleftrightarrow> ok \<and> bs = []"
  by (auto simp: wguard_def)

lemma wbyte_ok_iff [simp]: "wbyte b = Inr bs \<longleftrightarrow> bs = [b]"
  by (auto simp: wbyte_def wbytes_def)

lemma wbytes_ok_iff [simp]: "wbytes cs = Inr bs \<longleftrightarrow> bs = cs"
  by (auto simp: wbytes_def)

end
