(* ===== verification/Protocol.thy ===== *)
theory Protocol
  imports Prelude
begin

section \<open>Protocol numbers: \<open>internal/protocol\<close> and \<open>internal/utils/minmax.go\<close>\<close>

text \<open>
  Packet number truncation and its inverse (\<open>packet_number.go\<close>), version numbers and their wire
  tags (\<open>version.go\<close>), the constants the other theories use, and the minimum and maximum
  functions of \<open>minmax.go\<close>. The main lemma is that \<open>InferPacketNumber\<close> recovers a packet number
  from its low bytes when it is less than half an epoch away from the one expected next.
\<close>

subsection \<open>Constants\<close>

definition PacketNumberLen1 :: PacketNumberLen where "PacketNumberLen1 = 1"
definition PacketNumberLen2 :: PacketNumberLen where "PacketNumberLen2 = 2"
definition PacketNumberLen4 :: PacketNumberLen where "PacketNumberLen4 = 4"
definition PacketNumberLen6 :: PacketNumberLen where "PacketNumberLen6 = 6"
definition DefaultMaxCongestionWindow :: PacketNumber where "DefaultMaxCongestionWindow = 2500"

lemmas PacketNumberLen_defs =
  PacketNumberLen1_def PacketNumberLen2_def PacketNumberLen4_def PacketNumberLen6_def

definition MaxByteCount :: ByteCount where "MaxByteCount = 0xFFFFFFFFFFFFFFFF"

datatype Perspective = PerspectiveServer | PerspectiveClient

subsection \<open>\<open>minmax.go\<close>\<close>

definition MinUint64 :: "u64 \<Rightarrow> u64 \<Rightarrow> u64" where
  "MinUint64 a b = (if a < b then a else b)"

definition MaxUint64 :: "u64 \<Rightarrow> u64 \<Rightarrow> u64" where
  "MaxUint64 a b = (if a < b then b else a)"

definition MinByteCount :: "ByteCount \<Rightarrow> ByteCount \<Rightarrow> ByteCount" where
  "MinByteCount a b = (if a < b then a else b)"

definition MaxOfByteCount :: "ByteCount \<Rightarrow> ByteCount \<Rightarrow> ByteCount" where
  "MaxOfByteCount a b = (if a > b then a else b)"

definition MinUint32 :: "u32 \<Rightarrow> u32 \<Rightarrow> u32" where
  "MinUint32 a b = (if a < b then a else b)"

definition MaxUint32 :: "u32 \<Rightarrow> u32 \<Rightarrow> u32" where
  "MaxUint32 a b = (if a < b then b else a)"

definition MaxDuration :: "Duration \<Rightarrow> Duration \<Rightarrow> Duration" where
  "MaxDuration a b = (if a > b then a else b)"

definition MinDuration :: "Duration \<Rightarrow> Duration \<Rightarrow> Duration" where
  "MinDuration a b = (if a > b then b else a)"

definition AbsDuration :: "Duration \<Rightarrow> Duration" where
  "AbsDuration d = (if d \<ge> 0 then d else - d)"

definition MaxPacketNumber :: "PacketNumber \<Rightarrow> PacketNumber \<Rightarrow> PacketNumber" where
  "MaxPacketNumber a b = (if a > b then a else b)"

definition MinPacketNumber :: "PacketNumber \<Rightarrow> PacketNumber \<Rightarrow> PacketNumber" where
  "MinPacketNumber a b = (if a < b then a else b)"

lemma minmax_eqs [simp]:
  "MinUint64 a b = min a b" "MaxUint64 a b = max a b"
  "MinByteCount a b = min a b" "MaxOfByteCount a b = max a b"
  "MinUint32 c d = min c d" "MaxUint32 c d = max c d"
  "MinPacketNumber a b = min a b" "MaxPacketNumber a b = max a b"
  "MinDuration x y = min x y" "MaxDuration x y = max x y" "AbsDuration x = \<bar>x\<bar>"
  by (auto simp: MinUint64_def MaxUint64_def MinByteCount_def MaxOfByteCount_def MinUint32_def MaxUint32_def
      MinPacketNumber_def MaxPacketNumber_def MinDuration_def MaxDuration_def AbsDuration_def min_def max_def)

subsection \<open>\<open>packet_number.go\<close>\<close>

definition delta :: "PacketNumber \<Rightarrow> PacketNumber \<Rightarrow> PacketNumber" where
  "delta a b = (if a < b then b - a else a - b)"

definition closestTo :: "PacketNumber \<Rightarrow> PacketNumber \<Rightarrow> PacketNumber \<Rightarrow> PacketNumber" where
  "closestTo target a b = (if delta target a < delta target b then a else b)"

definition InferPacketNumber ::
    "PacketNumberLen \<Rightarrow> PacketNumber \<Rightarrow> PacketNumber \<Rightarrow> PacketNumber" where
  "InferPacketNumber packetNumberLength lastPacketNumber wirePacketNumber =
     (let epochDelta = push_bit (unat (packetNumberLength * 8)) 1;
          epoch = lastPacketNumber AND NOT (epochDelta - 1);
          prevEpochBegin = epoch - epochDelta;
          nextEpochBegin = epoch + epochDelta
      in closestTo (lastPacketNumber + 1) (epoch + wirePacketNumber)
           (closestTo (lastPacketNumber + 1) (prevEpochBegin + wirePacketNumber)
             (nextEpochBegin + wirePacketNumber)))"

definition GetPacketNumberLengthForPublicHeader ::
    "PacketNumber \<Rightarrow> PacketNumber \<Rightarrow> PacketNumberLen" where
  "GetPacketNumberLengthForPublicHeader packetNumber leastUnacked =
     (let diff = packetNumber - leastUnacked
      in if diff < push_bit (unat (PacketNumberLen2 * 8 - 2)) 2 then PacketNumberLen2
         else if diff < push_bit (unat (PacketNumberLen4 * 8 - 2)) 2 then PacketNumberLen4
         else PacketNumberLen6)"

definition GetPacketNumberLength :: "PacketNumber \<Rightarrow> PacketNumberLen" where
  "GetPacketNumberLength packetNumber =
     (if packetNumber < push_bit (unat (PacketNumberLen1 * 8)) 1 then PacketNumberLen1
      else if packetNumber < push_bit (unat (PacketNumberLen2 * 8)) 1 then PacketNumberLen2
      else if packetNumber < push_bit (unat (PacketNumberLen4 * 8)) 1 then PacketNumberLen4
      else PacketNumberLen6)"

text \<open>The distance between two packet numbers, over the natural numbers.\<close>

definition dist :: "nat \<Rightarrow> nat \<Rightarrow> nat" where
  "dist a b = (a - b) + (b - a)"

lemma unat_delta: "unat (delta a b) = dist (unat a) (unat b)"
  by (auto simp: delta_def dist_def unat_sub word_less_nat_alt word_le_nat_alt)

lemma closestTo_first: "dist (unat t) (unat a) < dist (unat t) (unat b) \<Longrightarrow> closestTo t a b = a"
  by (simp add: closestTo_def word_less_nat_alt unat_delta)

lemma closestTo_second: "dist (unat t) (unat b) \<le> dist (unat t) (unat a) \<Longrightarrow> closestTo t a b = b"
  by (simp add: closestTo_def word_less_nat_alt unat_delta)

lemma closestTo_cases: "closestTo t a b = a \<or> closestTo t a b = b"
  by (simp add: closestTo_def)

lemma unat_epoch:
  assumes "n < 64"
  shows "unat (x AND NOT (push_bit n 1 - 1) :: u64) = unat x div 2 ^ n * 2 ^ n"
proof -
  have "x AND NOT (push_bit n 1 - 1) = push_bit n (drop_bit n x)"
    by (rule bit_word_eqI) (auto simp: bit_simps mask_eq_exp_minus_1 [symmetric] push_bit_of_1)
  moreover have "unat x div 2 ^ n * 2 ^ n < 2 ^ 64"
    using unat_bound [of x] le_less_trans [OF div_times_less_eq_dividend [of "unat x" "2 ^ n"]] by simp
  ultimately show ?thesis
    using assms by (simp add: push_bit_eq_mult unat_word_ariths(2) unat_pow2 unat_drop_bit_div)
qed

text \<open>
  Of the candidates in the three epochs around the last packet number, the one less than half
  an epoch from the expected number is chosen.
\<close>

lemma candidate_epochs:
  fixes D :: nat
  assumes D: "D = 2 * H" "0 < H"
    and close: "P < L + 1 + H" "L + 1 < P + H"
  obtains "P = L div D * D + P mod D" | "P = L div D * D + D + P mod D"
    | "P + D = L div D * D + P mod D"
proof -
  define e p r where "e = L div D" and "p = P div D" and "r = P mod D"
  have L: "e * D \<le> L" "L < e * D + D"
    using D div_times_less_eq_dividend [of L D] dividend_less_div_times [of D L]
    by (simp_all add: e_def)
  have P: "P = p * D + r" "r < D"
    using D by (simp_all only: p_def r_def div_mult_mod_eq) simp
  have "p < e + 2"
  proof (rule ccontr)
    assume "\<not> p < e + 2"
    then have "(e + 2) * D \<le> p * D" by (intro mult_right_mono) auto
    then have "e * D + 2 * D \<le> p * D" by (simp only: add_mult_distrib)
    then show False using L P D close by linarith
  qed
  moreover have "e < p + 2"
  proof (rule ccontr)
    assume "\<not> e < p + 2"
    then have "(p + 2) * D \<le> e * D" by (intro mult_right_mono) auto
    then have "p * D + 2 * D \<le> e * D" by (simp only: add_mult_distrib)
    then show False using L P D close by linarith
  qed
  ultimately consider "p = e" | "p = e + 1" | "e = p + 1" by linarith
  then show thesis
  proof cases
    case 1
    then have "P = e * D + r" using P(1) by (simp only:)
    then show thesis using that(1) by (simp only: e_def r_def)
  next
    case 2
    then have "P = e * D + D + r" using P(1) by (simp only: add_mult_distrib mult_1)
    then show thesis using that(2) by (simp only: e_def r_def)
  next
    case 3
    then have "P + D = e * D + r" using P(1) by (simp only: add_mult_distrib mult_1)
    then show thesis using that(3) by (simp only: e_def r_def)
  qed
qed

lemma InferPacketNumber_eq:
  fixes last pn :: PacketNumber
  assumes len: "1 \<le> unat len" "unat len \<le> 6"
    and small: "unat last < 2 ^ 62" "unat pn < 2 ^ 62"
    and close: "unat pn < unat last + 1 + 2 ^ (8 * unat len - 1)"
      "unat last + 1 < unat pn + 2 ^ (8 * unat len - 1)"
  shows "InferPacketNumber len last (take_bit (8 * unat len) pn) = pn"
proof -
  define n where "n = 8 * unat len"
  define D H :: nat where "D = 2 ^ n" and "H = 2 ^ (n - 1)"
  define E w where "E = unat last div D * D" and "w = unat pn mod D"
  have n: "n < 64" "unat (len * 8) = n" "0 < n"
    using len by (simp_all add: n_def unat_word_ariths)
  have DH: "D = 2 * H" "0 < H" using n by (cases n; simp add: D_def H_def)+
  have "(2::nat) ^ n \<le> 2 ^ 48" using len by (intro power_increasing) (simp_all add: n_def)
  then have D: "D \<le> 2 ^ 48" by (simp add: D_def)
  have EL: "E \<le> unat last" by (simp add: E_def)
  have wD: "w < D" using DH by (simp add: w_def)
  define epoch where "epoch = last AND NOT (push_bit n 1 - 1)"
  have uE: "unat epoch = E" using unat_epoch [OF n(1), of last] by (simp add: epoch_def E_def D_def)
  have uD: "unat (push_bit n 1 :: u64) = D" using n by (simp add: D_def push_bit_of_1 unat_pow2)
  have uw: "unat (take_bit n pn) = w"
    by (simp only: w_def D_def unsigned_take_bit_eq) (simp add: take_bit_eq_mod)
  have uT: "unat (last + 1) = unat last + 1" using small by (simp add: unat_word_ariths)
  define c0 cp cn where "c0 = epoch + take_bit n pn"
    and "cp = epoch - push_bit n 1 + take_bit n pn" and "cn = epoch + push_bit n 1 + take_bit n pn"
  have u0: "unat c0 = E + w"
    using uE uw EL wD small D by (simp add: c0_def unat_word_ariths)
  have un: "unat cn = E + D + w"
    using uE uw uD EL wD small D by (simp add: cn_def unat_word_ariths)
  have E0: "E = 0 \<or> D \<le> E" unfolding E_def using DH by (cases "unat last div D") auto
  have up: "unat cp = (if D \<le> E then E - D + w else 2 ^ 64 - D + w)"
  proof (cases "D \<le> E")
    case True
    then have "unat (epoch - push_bit n 1) = E - D" using uE uD by (simp add: unat_sub word_le_nat_alt)
    with True show ?thesis using uw EL wD small by (simp add: cp_def unat_word_ariths)
  next
    case False
    then have "E = 0" using E0 by simp
    then have "epoch = 0" using uE by (simp add: unat_eq_zero)
    then have cp: "cp = - push_bit n 1 + take_bit n pn" by (simp add: cp_def)
    have "unat (- push_bit n 1 :: u64) = 2 ^ 64 - D"
      using unat_uminus_eq [of "push_bit n 1 :: u64"] uD DH by (auto simp: unat_eq_zero [symmetric])
    then show ?thesis
      using False uw wD D unat_word_ariths(1) [of "- push_bit n 1" "take_bit n pn"]
      by (simp only: cp) simp
  qed
  have res: "InferPacketNumber len last (take_bit n pn) = closestTo (last + 1) c0 (closestTo (last + 1) cp cn)"
    by (simp add: InferPacketNumber_def Let_def n(2) c0_def cp_def cn_def epoch_def)
  have close': "unat pn < unat last + 1 + H" "unat last + 1 < unat pn + H"
    using close by (simp_all add: H_def n_def)
  have "closestTo (last + 1) c0 (closestTo (last + 1) cp cn) = pn"
  proof (rule candidate_epochs [OF DH close'], goal_cases)
    case 1
    then have P: "unat pn = E + w" by (simp only: E_def w_def)
    then have "pn = c0" using u0 by (intro unat_eqI) simp
    moreover have "dist (unat last + 1) (E + w) < dist (unat last + 1) (unat c)"
      if "c = cp \<or> c = cn" for c
      using that up un P close' DH EL small D E0 by (auto simp: dist_def)
    ultimately show ?case
      using closestTo_cases [of "last + 1" cp cn] by (auto intro!: closestTo_first simp: uT u0)
  next
    case 2
    then have P: "unat pn = E + D + w" by (simp only: E_def w_def)
    then have "pn = cn" using un by (intro unat_eqI) simp
    moreover have "dist (unat last + 1) (unat cn) \<le> dist (unat last + 1) (unat c)"
      if "c = cp \<or> c = c0" for c
      using that up un u0 P close' DH EL small D E0 by (auto simp: dist_def)
    ultimately show ?case
      by (simp add: closestTo_second uT)
  next
    case 3
    then have P: "unat pn + D = E + w" by (simp only: E_def w_def)
    have "D \<le> E" using P wD E0 by auto
    then have "pn = cp" using P up by (intro unat_eqI) simp
    moreover have "dist (unat last + 1) (unat cp) < dist (unat last + 1) (unat cn)"
      "dist (unat last + 1) (unat cp) \<le> dist (unat last + 1) (unat c0)"
      using \<open>D \<le> E\<close> up un u0 P close' DH EL by (auto simp: dist_def)
    ultimately show ?case
      by (simp add: closestTo_second closestTo_first uT)
  qed
  then show ?thesis using res by (simp add: n_def)
qed

text \<open>The lengths the sender chooses.\<close>

lemma unat_len_values [simp]:
  "unat PacketNumberLen1 = 1" "unat PacketNumberLen2 = 2"
  "unat PacketNumberLen4 = 4" "unat PacketNumberLen6 = 6"
  by (simp_all add: PacketNumberLen_defs)

lemma GetPacketNumberLengthForPublicHeader_set:
  "GetPacketNumberLengthForPublicHeader pn lu \<in>
     {PacketNumberLen2, PacketNumberLen4, PacketNumberLen6}"
  by (simp add: GetPacketNumberLengthForPublicHeader_def Let_def)

lemma GetPacketNumberLengthForPublicHeader_half:
  assumes "unat (pn - lu) < 2 ^ 47"
  shows "unat (pn - lu) < 2 ^ (8 * unat (GetPacketNumberLengthForPublicHeader pn lu) - 1)"
  using assms
  by (auto simp: GetPacketNumberLengthForPublicHeader_def Let_def PacketNumberLen_defs
      word_less_nat_alt push_bit_eq_mult)

lemma GetPacketNumberLength_set:
  "GetPacketNumberLength pn \<in> {PacketNumberLen1, PacketNumberLen2, PacketNumberLen4, PacketNumberLen6}"
  by (simp add: GetPacketNumberLength_def)

lemma GetPacketNumberLength_fits:
  assumes "pn < 2 ^ 48"
  shows "pn < 2 ^ (8 * unat (GetPacketNumberLength pn))"
  using assms
  by (auto simp: GetPacketNumberLength_def PacketNumberLen_defs push_bit_eq_mult)

subsection \<open>\<open>version.go\<close>\<close>

definition Version37 :: VersionNumber where "Version37 = 37"
definition Version38 :: VersionNumber where "Version38 = 38"
definition Version39 :: VersionNumber where "Version39 = 39"
definition VersionTLS :: VersionNumber where "VersionTLS = 101"
definition VersionWhatever :: VersionNumber where "VersionWhatever = 0"
definition VersionUnsupported :: VersionNumber where "VersionUnsupported = -1"
definition VersionUnknown :: VersionNumber where "VersionUnknown = -2"
definition VersionMP :: VersionNumber where "VersionMP = 512"

lemmas Version_defs = Version37_def Version38_def Version39_def VersionTLS_def VersionWhatever_def
  VersionUnsupported_def VersionUnknown_def VersionMP_def

definition SupportedVersions :: "VersionNumber list" where
  "SupportedVersions = [VersionMP, Version39, Version38, Version37]"

text \<open>\<open>'Q'\<close> is 81 and \<open>'0'\<close> is 48; \<open><<\<close> binds tighter than \<open>+\<close> in Go.\<close>

definition VersionNumberToTag :: "VersionNumber \<Rightarrow> u32" where
  "VersionNumberToTag vn =
     (let v = word_of_int vn :: u32
      in 81 + push_bit 8 ((v div 100) mod 10 + 48) + push_bit 16 ((v div 10) mod 10 + 48)
           + push_bit 24 (v mod 10 + 48))"

definition VersionTagToNumber :: "u32 \<Rightarrow> VersionNumber" where
  "VersionTagToNumber v =
     uint (((drop_bit 8 v AND 0xff) - 48) * 100 + ((drop_bit 16 v AND 0xff) - 48) * 10
           + ((drop_bit 24 v AND 0xff) - 48))"

fun IsSupportedVersion :: "VersionNumber list \<Rightarrow> VersionNumber \<Rightarrow> bool" where
  "IsSupportedVersion [] v = False"
| "IsSupportedVersion (t # supported) v = (if t = v then True else IsSupportedVersion supported v)"

fun ChooseSupportedVersion :: "VersionNumber list \<Rightarrow> VersionNumber list \<Rightarrow> VersionNumber" where
  "ChooseSupportedVersion [] theirs = VersionUnsupported"
| "ChooseSupportedVersion (ourVer # ours) theirs =
     (if ourVer \<in> set theirs then ourVer else ChooseSupportedVersion ours theirs)"

lemma IsSupportedVersion_iff: "IsSupportedVersion vs v \<longleftrightarrow> v \<in> set vs"
  by (induction vs) auto

lemma three_digits:
  assumes "(N::nat) < 1000"
  shows "N div 100 mod 10 * 100 + N div 10 mod 10 * 10 + N mod 10 = N"
proof -
  define M where "M = N div 10"
  have M: "N div 100 = M div 10" using div_mult2_eq [of N 10 10] by (simp add: M_def)
  have "M div 10 < 10" using assms by (simp add: M_def less_mult_imp_div_less)
  then have "N div 100 mod 10 = M div 10" by (simp add: M)
  moreover have "M div 10 * 10 + M mod 10 = M" "M * 10 + N mod 10 = N"
    by (rule div_mult_mod_eq) (simp add: M_def)
  ultimately show ?thesis unfolding M_def [symmetric] by linarith
qed

lemma VersionNumberToTag_roundtrip:
  assumes "0 \<le> vn" "vn < 1000"
  shows "VersionTagToNumber (VersionNumberToTag vn) = vn"
proof -
  define v where "v = (word_of_int vn :: u32)"
  have v: "uint v = vn" using assms by (simp add: v_def uint_word_of_int)
  define a b c where "a = (v div 100) mod 10" and "b = (v div 10) mod 10" and "c = v mod 10"
  have dig: "a < 10" "b < 10" "c < 10"
    by (auto simp: a_def b_def c_def word_less_nat_alt unat_mod)
  define t where "t = VersionNumberToTag vn"
  have ua: "unat a < 10" "unat b < 10" "unat c < 10" using dig by (simp_all add: word_less_nat_alt)
  have t: "unat t = 81 + 2 ^ 8 * (unat a + 48) + 2 ^ 16 * (unat b + 48) + 2 ^ 24 * (unat c + 48)"
    using ua by (simp add: t_def VersionNumberToTag_def Let_def v_def [symmetric] a_def [symmetric]
        b_def [symmetric] c_def [symmetric] push_bit_eq_mult unat_word_ariths)
  have byte: "unat (drop_bit n t AND 0xff) = unat t div 2 ^ n mod 256" for n
  proof -
    have "drop_bit n t AND 0xff = take_bit 8 (drop_bit n t)"
      by (simp add: take_bit_eq_mask mask_eq_exp_minus_1)
    then show ?thesis
      by (simp only: unsigned_take_bit_eq unat_drop_bit_div) (simp only: take_bit_eq_mod, simp)
  qed
  define A B C where "A = unat a + 48" and "B = unat b + 48" and "C = unat c + 48"
  have lt: "A < 256" "B < 256" "C < 256" using ua by (simp_all add: A_def B_def C_def)
  have h: "unat t = 81 + 256 * (A + 256 * (B + 256 * C))" by (simp add: t A_def B_def C_def)
  have "unat t div 256 = A + 256 * (B + 256 * C)" unfolding h by simp
  moreover have "(A + 256 * (B + 256 * C)) div 256 = B + 256 * C" "(B + 256 * C) div 256 = C"
    using lt by simp_all
  moreover have "(A + 256 * (B + 256 * C)) mod 256 = A" "(B + 256 * C) mod 256 = B"
    using lt by (simp_all only: mod_mult_self2 mod_less)
  ultimately have "unat t div 2 ^ 8 mod 256 = A" "unat t div 2 ^ 16 mod 256 = B" "unat t div 2 ^ 24 mod 256 = C"
    using lt div_mult2_eq [of "unat t" 256 256] div_mult2_eq [of "unat t" 256 "256 * 256"]
      div_mult2_eq [of "A + 256 * (B + 256 * C)" 256 256] by simp_all
  then have "drop_bit 8 t AND 0xff = a + 48" "drop_bit 16 t AND 0xff = b + 48" "drop_bit 24 t AND 0xff = c + 48"
    using ua by (intro unat_eqI; simp only: byte; simp add: unat_word_ariths A_def B_def C_def)+
  then have "VersionTagToNumber t = uint (a * 100 + b * 10 + c)" by (simp add: VersionTagToNumber_def)
  also have "\<dots> = int (unat (a * 100 + b * 10 + c))" by simp
  also have "unat (a * 100 + b * 10 + c) = unat v"
  proof -
    have "unat v < 1000" using v assms by (simp add: unat_eq_nat_uint)
    moreover have "unat a = unat v div 100 mod 10" "unat b = unat v div 10 mod 10" "unat c = unat v mod 10"
      by (simp_all add: a_def b_def c_def unat_mod unat_div)
    moreover have "unat (a * 100 + b * 10 + c) = unat a * 100 + unat b * 10 + unat c"
      using ua by (simp add: unat_word_ariths)
    ultimately show ?thesis using three_digits [of "unat v"] by (simp only:)
  qed
  finally show ?thesis using v by (simp add: t_def)
qed

subsection \<open>Properties\<close>

text \<open>
  C28. Packet number truncation loses nothing: the sender chooses a length from the packet number
  and its least unacked packet and sends that many low bytes; a receiver whose last packet number is not
  below the least unacked one less one, and not more than 32767 ahead, infers the packet number that was sent.
\<close>
theorem InferPacketNumber_sent:
  fixes last pn leastUnacked :: PacketNumber
  assumes "unat last < 2 ^ 62" "unat pn < 2 ^ 62"
    and "unat leastUnacked \<le> unat pn" "unat pn < unat leastUnacked + 2 ^ 47"
    and "unat leastUnacked \<le> unat last + 1" "unat last + 1 < unat pn + 2 ^ 15"
  shows "let len = GetPacketNumberLengthForPublicHeader pn leastUnacked
    in InferPacketNumber len last (take_bit (8 * unat len) pn) = pn"
  unfolding Let_def
proof (rule InferPacketNumber_eq)
  let ?len = "GetPacketNumberLengthForPublicHeader pn leastUnacked"
  have d: "unat (pn - leastUnacked) = unat pn - unat leastUnacked"
    using assms(3) by (simp add: unat_sub word_le_nat_alt)
  have half: "unat (pn - leastUnacked) < 2 ^ (8 * unat ?len - 1)"
    using assms(3,4) d by (intro GetPacketNumberLengthForPublicHeader_half) simp
  then show "unat pn < unat last + 1 + 2 ^ (8 * unat ?len - 1)" using assms(3,5) d by linarith
  have len: "unat ?len = 2 \<or> unat ?len = 4 \<or> unat ?len = 6"
    using GetPacketNumberLengthForPublicHeader_set [of pn leastUnacked] by auto
  then show "unat last + 1 < unat pn + 2 ^ (8 * unat ?len - 1)" using assms(6) by auto
  show "1 \<le> unat ?len" and "unat ?len \<le> 6" using len by auto
qed (use assms in auto)

lemma InferPacketNumber_sent_witness:
  "InferPacketNumber (GetPacketNumberLengthForPublicHeader 70000 69990) 69995
     (take_bit (8 * unat (GetPacketNumberLengthForPublicHeader 70000 69990)) 70000) = 70000"
  using InferPacketNumber_sent [of 69995 70000 69990] by (simp add: Let_def)

text \<open>
  Version negotiation: every version number below 1000 survives the four-byte wire tag, and the
  version chosen from two lists is the first of ours that the peer offers, or
  \<open>VersionUnsupported\<close> when there is none.
\<close>
theorem version_negotiation:
  assumes "0 \<le> vn" "vn < 1000"
  shows "VersionTagToNumber (VersionNumberToTag vn) = vn \<and>
    (case List.find (IsSupportedVersion theirs) ours of
       Some v \<Rightarrow> ChooseSupportedVersion ours theirs = v
     | None \<Rightarrow> ChooseSupportedVersion ours theirs = VersionUnsupported)"
proof -
  have "case List.find (IsSupportedVersion theirs) ours of
       Some v \<Rightarrow> ChooseSupportedVersion ours theirs = v
     | None \<Rightarrow> ChooseSupportedVersion ours theirs = VersionUnsupported"
    by (induction ours) (auto simp: IsSupportedVersion_iff split: option.splits)
  then show ?thesis using VersionNumberToTag_roundtrip [OF assms] by simp
qed

lemma version_negotiation_witness:
  "VersionTagToNumber (VersionNumberToTag 512) = 512 \<and>
   ChooseSupportedVersion SupportedVersions [37, 39] = 39"
  using version_negotiation [of 512 "[37, 39]" SupportedVersions]
  by (simp add: SupportedVersions_def Version_defs IsSupportedVersion_iff)

end
