(* ===== verification/Byte_Order.thy ===== *)
theory Byte_Order
  imports Protocol
begin

section \<open>Byte orders: \<open>internal/utils/byteorder*.go\<close>\<close>

text \<open>
  The two implementations of the interface \<open>utils.ByteOrder\<close>, big endian and little endian,
  operation by operation, and the dispatch of \<open>GetByteOrder\<close>. What the frames rely on is the
  locale \<open>byte_order\<close> at the end: reading back what was written gives the value, and a reader
  with too few bytes reports \<open>EOF\<close>.
\<close>

subsection \<open>\<open>byteorder_big_endian.go\<close>\<close>

text \<open>
  The loop of \<open>ReadUintN\<close>: \<open>i\<close> counts in a \<open>uint8\<close>, as does the shift amount
  \<open>(length - 1 - i) * 8\<close>.
\<close>

fun be_ReadUintN_loop :: "u8 \<Rightarrow> u8 \<Rightarrow> u64 \<Rightarrow> u64 parser" where
  "be_ReadUintN_loop len i res [] = (if i < len then Inl EOF else Inr (res, []))"
| "be_ReadUintN_loop len i res (bt # r) =
     (if i < len
      then be_ReadUintN_loop len (i + 1) (res XOR push_bit (unat ((len - 1 - i) * 8)) (ucast bt)) r
      else Inr (res, bt # r))"

definition be_ReadUintN :: "u8 \<Rightarrow> u64 parser" where
  "be_ReadUintN len = be_ReadUintN_loop len 0 0"

definition be_ReadUint64 :: "u64 parser" where
  "be_ReadUint64 =
     pbind readByte (\<lambda>b8. pbind readByte (\<lambda>b7. pbind readByte (\<lambda>b6. pbind readByte (\<lambda>b5.
     pbind readByte (\<lambda>b4. pbind readByte (\<lambda>b3. pbind readByte (\<lambda>b2. pbind readByte (\<lambda>b1.
     pret (ucast b1 + push_bit 8 (ucast b2) + push_bit 16 (ucast b3) + push_bit 24 (ucast b4)
       + push_bit 32 (ucast b5) + push_bit 40 (ucast b6) + push_bit 48 (ucast b7)
       + push_bit 56 (ucast b8))))))))))"

definition be_ReadUint32 :: "u32 parser" where
  "be_ReadUint32 =
     pbind readByte (\<lambda>b4. pbind readByte (\<lambda>b3. pbind readByte (\<lambda>b2. pbind readByte (\<lambda>b1.
     pret (ucast b1 + push_bit 8 (ucast b2) + push_bit 16 (ucast b3) + push_bit 24 (ucast b4))))))"

definition be_ReadUint16 :: "u16 parser" where
  "be_ReadUint16 =
     pbind readByte (\<lambda>b2. pbind readByte (\<lambda>b1. pret (ucast b1 + push_bit 8 (ucast b2))))"

definition be_WriteUint64 :: "u64 \<Rightarrow> writer" where
  "be_WriteUint64 i = wbytes
     [ucast (drop_bit 56 i), ucast (drop_bit 48 i), ucast (drop_bit 40 i), ucast (drop_bit 32 i),
      ucast (drop_bit 24 i), ucast (drop_bit 16 i), ucast (drop_bit 8 i), ucast i]"

definition be_WriteUint56 :: "u64 \<Rightarrow> writer" where
  "be_WriteUint56 i =
     (if i \<ge> push_bit 56 1 then Inl (Panic ''doesn't fit into 56 bits'')
      else wbytes
        [ucast (drop_bit 48 i), ucast (drop_bit 40 i), ucast (drop_bit 32 i),
         ucast (drop_bit 24 i), ucast (drop_bit 16 i), ucast (drop_bit 8 i), ucast i])"

definition be_WriteUint48 :: "u64 \<Rightarrow> writer" where
  "be_WriteUint48 i =
     (if i \<ge> push_bit 48 1 then Inl (Panic ''doesn't fit into 48 bits'')
      else wbytes
        [ucast (drop_bit 40 i), ucast (drop_bit 32 i),
         ucast (drop_bit 24 i), ucast (drop_bit 16 i), ucast (drop_bit 8 i), ucast i])"

definition be_WriteUint40 :: "u64 \<Rightarrow> writer" where
  "be_WriteUint40 i =
     (if i \<ge> push_bit 40 1 then Inl (Panic ''doesn't fit into 40 bits'')
      else wbytes
        [ucast (drop_bit 32 i),
         ucast (drop_bit 24 i), ucast (drop_bit 16 i), ucast (drop_bit 8 i), ucast i])"

definition be_WriteUint32 :: "u32 \<Rightarrow> writer" where
  "be_WriteUint32 i = wbytes
     [ucast (drop_bit 24 i), ucast (drop_bit 16 i), ucast (drop_bit 8 i), ucast i]"

definition be_WriteUint24 :: "u32 \<Rightarrow> writer" where
  "be_WriteUint24 i =
     (if i \<ge> push_bit 24 1 then Inl (Panic ''doesn't fit into 24 bits'')
      else wbytes [ucast (drop_bit 16 i), ucast (drop_bit 8 i), ucast i])"

definition be_WriteUint16 :: "u16 \<Rightarrow> writer" where
  "be_WriteUint16 i = wbytes [ucast (drop_bit 8 i), ucast i]"

subsection \<open>\<open>byteorder_little_endian.go\<close>\<close>

fun le_ReadUintN_loop :: "u8 \<Rightarrow> u8 \<Rightarrow> u64 \<Rightarrow> u64 parser" where
  "le_ReadUintN_loop len i res [] = (if i < len then Inl EOF else Inr (res, []))"
| "le_ReadUintN_loop len i res (bt # r) =
     (if i < len
      then le_ReadUintN_loop len (i + 1) (res XOR push_bit (unat (i * 8)) (ucast bt)) r
      else Inr (res, bt # r))"

definition le_ReadUintN :: "u8 \<Rightarrow> u64 parser" where
  "le_ReadUintN len = le_ReadUintN_loop len 0 0"

definition le_ReadUint64 :: "u64 parser" where
  "le_ReadUint64 =
     pbind readByte (\<lambda>b1. pbind readByte (\<lambda>b2. pbind readByte (\<lambda>b3. pbind readByte (\<lambda>b4.
     pbind readByte (\<lambda>b5. pbind readByte (\<lambda>b6. pbind readByte (\<lambda>b7. pbind readByte (\<lambda>b8.
     pret (ucast b1 + push_bit 8 (ucast b2) + push_bit 16 (ucast b3) + push_bit 24 (ucast b4)
       + push_bit 32 (ucast b5) + push_bit 40 (ucast b6) + push_bit 48 (ucast b7)
       + push_bit 56 (ucast b8))))))))))"

definition le_ReadUint32 :: "u32 parser" where
  "le_ReadUint32 =
     pbind readByte (\<lambda>b1. pbind readByte (\<lambda>b2. pbind readByte (\<lambda>b3. pbind readByte (\<lambda>b4.
     pret (ucast b1 + push_bit 8 (ucast b2) + push_bit 16 (ucast b3) + push_bit 24 (ucast b4))))))"

definition le_ReadUint16 :: "u16 parser" where
  "le_ReadUint16 =
     pbind readByte (\<lambda>b1. pbind readByte (\<lambda>b2. pret (ucast b1 + push_bit 8 (ucast b2))))"

definition le_WriteUint64 :: "u64 \<Rightarrow> writer" where
  "le_WriteUint64 i = wbytes
     [ucast i, ucast (drop_bit 8 i), ucast (drop_bit 16 i), ucast (drop_bit 24 i),
      ucast (drop_bit 32 i), ucast (drop_bit 40 i), ucast (drop_bit 48 i), ucast (drop_bit 56 i)]"

definition le_WriteUint56 :: "u64 \<Rightarrow> writer" where
  "le_WriteUint56 i =
     (if i \<ge> push_bit 56 1 then Inl (Panic ''doesn't fit into 56 bits'')
      else wbytes
        [ucast i, ucast (drop_bit 8 i), ucast (drop_bit 16 i), ucast (drop_bit 24 i),
         ucast (drop_bit 32 i), ucast (drop_bit 40 i), ucast (drop_bit 48 i)])"

definition le_WriteUint48 :: "u64 \<Rightarrow> writer" where
  "le_WriteUint48 i =
     (if i \<ge> push_bit 48 1 then Inl (Panic ''doesn't fit into 48 bits'')
      else wbytes
        [ucast i, ucast (drop_bit 8 i), ucast (drop_bit 16 i), ucast (drop_bit 24 i),
         ucast (drop_bit 32 i), ucast (drop_bit 40 i)])"

definition le_WriteUint40 :: "u64 \<Rightarrow> writer" where
  "le_WriteUint40 i =
     (if i \<ge> push_bit 40 1 then Inl (Panic ''doesn't fit into 40 bits'')
      else wbytes
        [ucast i, ucast (drop_bit 8 i), ucast (drop_bit 16 i),
         ucast (drop_bit 24 i), ucast (drop_bit 32 i)])"

definition le_WriteUint32 :: "u32 \<Rightarrow> writer" where
  "le_WriteUint32 i = wbytes
     [ucast i, ucast (drop_bit 8 i), ucast (drop_bit 16 i), ucast (drop_bit 24 i)]"

definition le_WriteUint24 :: "u32 \<Rightarrow> writer" where
  "le_WriteUint24 i =
     (if i \<ge> push_bit 24 1 then Inl (Panic ''doesn't fit into 24 bits'')
      else wbytes [ucast i, ucast (drop_bit 8 i), ucast (drop_bit 16 i)])"

definition le_WriteUint16 :: "u16 \<Rightarrow> writer" where
  "le_WriteUint16 i = wbytes [ucast i, ucast (drop_bit 8 i)]"

subsection \<open>\<open>GetByteOrder\<close> and the interface methods\<close>

datatype ByteOrder = LittleEndian | BigEndian

definition GetByteOrder :: "VersionNumber \<Rightarrow> ByteOrder" where
  "GetByteOrder v = (if v < Version39 then LittleEndian else BigEndian)"

text \<open>A call through the interface selects the method of the implementation.\<close>

definition ReadUintN :: "ByteOrder \<Rightarrow> u8 \<Rightarrow> u64 parser" where
  "ReadUintN bo = (case bo of LittleEndian \<Rightarrow> le_ReadUintN | BigEndian \<Rightarrow> be_ReadUintN)"

definition ReadUint64 :: "ByteOrder \<Rightarrow> u64 parser" where
  "ReadUint64 bo = (case bo of LittleEndian \<Rightarrow> le_ReadUint64 | BigEndian \<Rightarrow> be_ReadUint64)"

definition ReadUint32 :: "ByteOrder \<Rightarrow> u32 parser" where
  "ReadUint32 bo = (case bo of LittleEndian \<Rightarrow> le_ReadUint32 | BigEndian \<Rightarrow> be_ReadUint32)"

definition ReadUint16 :: "ByteOrder \<Rightarrow> u16 parser" where
  "ReadUint16 bo = (case bo of LittleEndian \<Rightarrow> le_ReadUint16 | BigEndian \<Rightarrow> be_ReadUint16)"

definition WriteUint64 :: "ByteOrder \<Rightarrow> u64 \<Rightarrow> writer" where
  "WriteUint64 bo = (case bo of LittleEndian \<Rightarrow> le_WriteUint64 | BigEndian \<Rightarrow> be_WriteUint64)"

definition WriteUint56 :: "ByteOrder \<Rightarrow> u64 \<Rightarrow> writer" where
  "WriteUint56 bo = (case bo of LittleEndian \<Rightarrow> le_WriteUint56 | BigEndian \<Rightarrow> be_WriteUint56)"

definition WriteUint48 :: "ByteOrder \<Rightarrow> u64 \<Rightarrow> writer" where
  "WriteUint48 bo = (case bo of LittleEndian \<Rightarrow> le_WriteUint48 | BigEndian \<Rightarrow> be_WriteUint48)"

definition WriteUint40 :: "ByteOrder \<Rightarrow> u64 \<Rightarrow> writer" where
  "WriteUint40 bo = (case bo of LittleEndian \<Rightarrow> le_WriteUint40 | BigEndian \<Rightarrow> be_WriteUint40)"

definition WriteUint32 :: "ByteOrder \<Rightarrow> u32 \<Rightarrow> writer" where
  "WriteUint32 bo = (case bo of LittleEndian \<Rightarrow> le_WriteUint32 | BigEndian \<Rightarrow> be_WriteUint32)"

definition WriteUint24 :: "ByteOrder \<Rightarrow> u32 \<Rightarrow> writer" where
  "WriteUint24 bo = (case bo of LittleEndian \<Rightarrow> le_WriteUint24 | BigEndian \<Rightarrow> be_WriteUint24)"

definition WriteUint16 :: "ByteOrder \<Rightarrow> u16 \<Rightarrow> writer" where
  "WriteUint16 bo = (case bo of LittleEndian \<Rightarrow> le_WriteUint16 | BigEndian \<Rightarrow> be_WriteUint16)"

subsection \<open>The value of a byte string\<close>

text \<open>
  Both byte orders are explained by one pair of functions: the value of a string of bytes with
  the least significant byte first, and the bytes of a value in that order.
\<close>

fun le_val :: "u8 list \<Rightarrow> 'a::len word" where
  "le_val [] = 0"
| "le_val (b # bs) = ucast b + push_bit 8 (le_val bs)"

fun le_bytes :: "nat \<Rightarrow> 'a::len word \<Rightarrow> u8 list" where
  "le_bytes 0 x = []"
| "le_bytes (Suc n) x = ucast x # le_bytes n (drop_bit 8 x)"

lemma length_le_bytes [simp]: "length (le_bytes n x) = n"
  by (induction n arbitrary: x) auto

lemma byte_plus_xor: "ucast (b::u8) + push_bit 8 w = ucast b XOR push_bit 8 (w :: 'a::len word)"
proof -
  have "ucast b + push_bit 8 w = ucast b OR push_bit 8 w"
    by (rule disjunctive_add) (auto simp: bit_simps dest: bit_imp_le_length)
  also have "\<dots> = ucast b XOR push_bit 8 w"
    by (rule bit_word_eqI) (auto simp: bit_simps dest: bit_imp_le_length)
  finally show ?thesis .
qed

lemma byte_split: "ucast (ucast x :: u8) XOR push_bit 8 (take_bit k (drop_bit 8 x)) =
    take_bit (8 + k) (x :: 'a::len word)"
  by (rule bit_word_eqI) (auto simp: bit_simps)

lemma le_val_le_bytes: "le_val (le_bytes n x) = take_bit (8 * n) (x :: 'a::len word)"
proof (induction n arbitrary: x)
  case 0
  then show ?case by simp
next
  case (Suc n)
  then show ?case by (simp add: byte_plus_xor byte_split)
qed

lemma le_val_append:
  "le_val (xs @ ys) = le_val xs XOR push_bit (8 * length xs) (le_val ys :: 'a::len word)"
proof (induction xs)
  case Nil
  then show ?case by simp
next
  case (Cons x xs)
  have "le_val ((x # xs) @ ys) = ucast x XOR push_bit 8 (le_val (xs @ ys) :: 'a word)"
    by (simp add: byte_plus_xor)
  also have "\<dots> = ucast x XOR push_bit 8 (le_val xs) XOR push_bit (8 * Suc (length xs)) (le_val ys)"
    by (simp only: Cons.IH push_bit_xor push_bit_push_bit) (simp add: ac_simps)
  finally show ?case by (simp add: byte_plus_xor ac_simps)
qed

lemma le_loop:
  assumes "unat i + length bs = unat len" "unat len \<le> 8"
  shows "le_ReadUintN_loop len i res (bs @ r) =
    Inr (res XOR push_bit (8 * unat i) (le_val bs), r)"
  using assms
proof (induction bs arbitrary: i res)
  case Nil
  then have "\<not> i < len" by (simp add: word_less_nat_alt)
  with Nil show ?case by (cases r) auto
next
  case (Cons b bs)
  from Cons.prems have lt: "i < len" by (simp add: word_less_nat_alt)
  have i1: "unat (i + 1) = unat i + 1" and sh: "unat (i * 8) = 8 * unat i"
    using Cons.prems by (simp_all add: unat_word_ariths)
  from Cons.IH [of "i + 1" "res XOR push_bit (unat (i * 8)) (ucast b)"] Cons.prems i1 lt sh
  show ?case by (simp add: byte_plus_xor push_bit_xor ac_simps)
qed

lemma be_loop:
  assumes "unat i + length bs = unat len" "unat len \<le> 8"
  shows "be_ReadUintN_loop len i res (bs @ r) = Inr (res XOR le_val (rev bs), r)"
  using assms
proof (induction bs arbitrary: i res)
  case Nil
  then have "\<not> i < len" by (simp add: word_less_nat_alt)
  with Nil show ?case by (cases r) auto
next
  case (Cons b bs)
  from Cons.prems have lt: "i < len" by (simp add: word_less_nat_alt)
  have i1: "unat (i + 1) = unat i + 1"
    using Cons.prems by (simp add: unat_word_ariths)
  have "1 + i \<le> len" using Cons.prems i1 by (simp add: word_le_nat_alt ac_simps)
  then have "unat (len - (1 + i)) = length bs"
    using Cons.prems i1 by (simp add: unat_sub ac_simps)
  then have "unat (len - 1 - i) = length bs" by (simp add: diff_diff_add)
  then have sh: "unat ((len - 1 - i) * 8) = 8 * length bs"
    using Cons.prems unat_word_ariths(2) [of "len - 1 - i" 8] by simp
  from Cons.IH [of "i + 1" "res XOR push_bit (unat ((len - 1 - i) * 8)) (ucast b)"]
    Cons.prems i1 lt sh
  show ?case by (simp add: le_val_append ac_simps)
qed

text \<open>The reads and writes of both byte orders in these terms.\<close>

lemma le_ReadUintN_bytes:
  "length bs = unat len \<Longrightarrow> unat len \<le> 8 \<Longrightarrow> le_ReadUintN len (bs @ r) = Inr (le_val bs, r)"
  by (simp add: le_ReadUintN_def le_loop)

lemma be_ReadUintN_bytes:
  "length bs = unat len \<Longrightarrow> unat len \<le> 8 \<Longrightarrow> be_ReadUintN len (bs @ r) = Inr (le_val (rev bs), r)"
  by (simp add: be_ReadUintN_def be_loop)

lemma le_read_bytes:
  "le_ReadUint16 ([a, b] @ r) = Inr (le_val [a, b], r)"
  "le_ReadUint32 ([a, b, c, d] @ r) = Inr (le_val [a, b, c, d], r)"
  "le_ReadUint64 ([a, b, c, d, e, f, g, h] @ r) = Inr (le_val [a, b, c, d, e, f, g, h], r)"
  by (simp_all add: le_ReadUint16_def le_ReadUint32_def le_ReadUint64_def pbind_def pret_def
      push_bit_add ac_simps)

lemma be_read_bytes:
  "be_ReadUint16 ([a, b] @ r) = Inr (le_val [b, a], r)"
  "be_ReadUint32 ([a, b, c, d] @ r) = Inr (le_val [d, c, b, a], r)"
  "be_ReadUint64 ([a, b, c, d, e, f, g, h] @ r) = Inr (le_val [h, g, f, e, d, c, b, a], r)"
  by (simp_all add: be_ReadUint16_def be_ReadUint32_def be_ReadUint64_def pbind_def pret_def
      push_bit_add ac_simps)

lemma length_list_split:
  "length bs = Suc n \<longleftrightarrow> (\<exists>x xs. bs = x # xs \<and> length xs = n)"
  by (cases bs) auto

lemma le_read_bytes':
  "length bs = 2 \<Longrightarrow> le_ReadUint16 (bs @ r) = Inr (le_val bs, r)"
  "length bs = 4 \<Longrightarrow> le_ReadUint32 (bs @ r) = Inr (le_val bs, r)"
  "length bs = 8 \<Longrightarrow> le_ReadUint64 (bs @ r) = Inr (le_val bs, r)"
  using le_read_bytes by (auto simp: eval_nat_numeral length_list_split)

lemma be_read_bytes':
  "length bs = 2 \<Longrightarrow> be_ReadUint16 (bs @ r) = Inr (le_val (rev bs), r)"
  "length bs = 4 \<Longrightarrow> be_ReadUint32 (bs @ r) = Inr (le_val (rev bs), r)"
  "length bs = 8 \<Longrightarrow> be_ReadUint64 (bs @ r) = Inr (le_val (rev bs), r)"
  using be_read_bytes by (auto simp: eval_nat_numeral length_list_split)

lemma le_write_bytes:
  "le_WriteUint16 i = Inr (le_bytes 2 i)"
  "le_WriteUint32 j = Inr (le_bytes 4 j)"
  "le_WriteUint64 k = Inr (le_bytes 8 k)"
  "j < 2 ^ 24 \<Longrightarrow> le_WriteUint24 j = Inr (le_bytes 3 j)"
  "k < 2 ^ 40 \<Longrightarrow> le_WriteUint40 k = Inr (le_bytes 5 k)"
  "k < 2 ^ 48 \<Longrightarrow> le_WriteUint48 k = Inr (le_bytes 6 k)"
  "k < 2 ^ 56 \<Longrightarrow> le_WriteUint56 k = Inr (le_bytes 7 k)"
  by (simp_all add: le_WriteUint16_def le_WriteUint32_def le_WriteUint64_def le_WriteUint24_def
      le_WriteUint40_def le_WriteUint48_def le_WriteUint56_def wbytes_def eval_nat_numeral
      not_le push_bit_eq_mult)

lemma be_write_bytes:
  "be_WriteUint16 i = Inr (rev (le_bytes 2 i))"
  "be_WriteUint32 j = Inr (rev (le_bytes 4 j))"
  "be_WriteUint64 k = Inr (rev (le_bytes 8 k))"
  "j < 2 ^ 24 \<Longrightarrow> be_WriteUint24 j = Inr (rev (le_bytes 3 j))"
  "k < 2 ^ 40 \<Longrightarrow> be_WriteUint40 k = Inr (rev (le_bytes 5 k))"
  "k < 2 ^ 48 \<Longrightarrow> be_WriteUint48 k = Inr (rev (le_bytes 6 k))"
  "k < 2 ^ 56 \<Longrightarrow> be_WriteUint56 k = Inr (rev (le_bytes 7 k))"
  by (simp_all add: be_WriteUint16_def be_WriteUint32_def be_WriteUint64_def be_WriteUint24_def
      be_WriteUint40_def be_WriteUint48_def be_WriteUint56_def wbytes_def eval_nat_numeral
      not_le push_bit_eq_mult)

subsection \<open>What the frames rely on\<close>

text \<open>
  The contract of the interface \<open>utils.ByteOrder\<close>, over an encoding \<open>enc n x\<close> of the low \<open>n\<close>
  bytes of \<open>x\<close> and the value \<open>dec bs\<close> of a string of bytes: the two are inverse, every read
  takes exactly its bytes or reports \<open>EOF\<close>, and every write appends the encoding, or panics
  when the value has too many bits.
\<close>

locale byte_order =
  fixes enc :: "nat \<Rightarrow> u64 \<Rightarrow> u8 list"
    and dec :: "u8 list \<Rightarrow> u64"
    and readN :: "u8 \<Rightarrow> u64 parser"
    and read64 :: "u64 parser"
    and read32 :: "u32 parser"
    and read16 :: "u16 parser"
    and write64 :: "u64 \<Rightarrow> writer"
    and write56 :: "u64 \<Rightarrow> writer"
    and write48 :: "u64 \<Rightarrow> writer"
    and write40 :: "u64 \<Rightarrow> writer"
    and write32 :: "u32 \<Rightarrow> writer"
    and write24 :: "u32 \<Rightarrow> writer"
    and write16 :: "u16 \<Rightarrow> writer"
  assumes length_enc: "length (enc n x) = n"
    and enc_one: "enc 1 x = [ucast x]"
    and dec_enc: "dec (enc n x) = take_bit (8 * n) x"
    and enc_dec: "length bs \<le> 8 \<Longrightarrow> enc (length bs) (dec bs) = bs"
    and readN_eq: "unat len \<le> 8 \<Longrightarrow> readN len bs =
      (if length bs < unat len then Inl EOF else Inr (dec (take (unat len) bs), drop (unat len) bs))"
    and read64_eq: "read64 bs =
      (if length bs < 8 then Inl EOF else Inr (dec (take 8 bs), drop 8 bs))"
    and read32_eq: "read32 bs =
      (if length bs < 4 then Inl EOF else Inr (ucast (dec (take 4 bs)), drop 4 bs))"
    and read16_eq: "read16 bs =
      (if length bs < 2 then Inl EOF else Inr (ucast (dec (take 2 bs)), drop 2 bs))"
    and write64_eq: "write64 k = Inr (enc 8 k)"
    and write56_eq: "k < 2 ^ 56 \<Longrightarrow> write56 k = Inr (enc 7 k)"
    and write48_eq: "k < 2 ^ 48 \<Longrightarrow> write48 k = Inr (enc 6 k)"
    and write40_eq: "k < 2 ^ 40 \<Longrightarrow> write40 k = Inr (enc 5 k)"
    and write32_eq: "write32 j = Inr (enc 4 (ucast j))"
    and write24_eq: "j < 2 ^ 24 \<Longrightarrow> write24 j = Inr (enc 3 (ucast j))"
    and write16_eq: "write16 i = Inr (enc 2 (ucast i))"
    and write56_panic: "\<not> k < 2 ^ 56 \<Longrightarrow> \<exists>m. write56 k = Inl (Panic m)"
    and write48_panic: "\<not> k < 2 ^ 48 \<Longrightarrow> \<exists>m. write48 k = Inl (Panic m)"
    and write40_panic: "\<not> k < 2 ^ 40 \<Longrightarrow> \<exists>m. write40 k = Inl (Panic m)"
    and write24_panic: "\<not> j < 2 ^ 24 \<Longrightarrow> \<exists>m. write24 j = Inl (Panic m)"
begin

lemmas write_eqs =
  write64_eq write56_eq write48_eq write40_eq write32_eq write24_eq write16_eq

text \<open>Reading what \<open>enc\<close> produced, followed by anything.\<close>

lemma readN_enc:
  "unat len = k \<Longrightarrow> k \<le> 8 \<Longrightarrow> readN len (enc k x @ r) = Inr (take_bit (8 * k) x, r)"
  by (simp add: readN_eq length_enc dec_enc)

lemma readN_byte: "readN 1 (b # r) = Inr (ucast b, r)"
  using readN_enc [of 1 1 "ucast b" r] enc_one [of "ucast b"] by (simp add: One_nat_def)

lemma readN_zero: "readN 0 r = Inr (0, r)"
  using readN_enc [of 0 0 0 r] length_enc [of 0 0] by simp

lemma read64_enc: "read64 (enc 8 x @ r) = Inr (x, r)"
  by (simp add: read64_eq length_enc dec_enc)

lemma read32_enc: "read32 (enc 4 x @ r) = Inr (ucast x, r)"
  by (simp add: read32_eq length_enc dec_enc) (rule bit_word_eqI, auto simp: bit_simps)

lemma read16_enc: "read16 (enc 2 x @ r) = Inr (ucast x, r)"
  by (simp add: read16_eq length_enc dec_enc) (rule bit_word_eqI, auto simp: bit_simps)

lemmas read_encs = readN_enc readN_byte readN_zero read64_enc read32_enc read16_enc

text \<open>A successful read consumed the encoding of its result and nothing else.\<close>

lemma readN_consumes:
  assumes "readN n bs = Inr (x, r)" "unat n \<le> 8"
  shows "bs = enc (unat n) x @ r \<and> take_bit (8 * unat n) x = x"
proof -
  have len: "\<not> length bs < unat n" and x: "x = dec (take (unat n) bs)" and r: "r = drop (unat n) bs"
    using assms by (auto simp: readN_eq split: if_splits)
  have "enc (unat n) x = take (unat n) bs"
    using enc_dec [of "take (unat n) bs"] len x assms(2) by simp
  then show ?thesis using r dec_enc [of "unat n" x] x by simp
qed

lemma readN_short: "length bs < unat n \<Longrightarrow> unat n \<le> 8 \<Longrightarrow> readN n bs = Inl EOF"
  by (simp add: readN_eq)

lemma readN_error: "unat n \<le> 8 \<Longrightarrow> readN n bs = Inl e \<Longrightarrow> e = EOF"
  by (simp add: readN_eq split: if_splits)

lemma enc_take_bit: "n \<le> 8 \<Longrightarrow> enc n (take_bit (8 * n) x) = enc n x"
  using enc_dec [of "enc n x"] by (simp add: length_enc dec_enc)

end

definition enc_bytes :: "ByteOrder \<Rightarrow> nat \<Rightarrow> u64 \<Rightarrow> u8 list" where
  "enc_bytes bo n x = (case bo of LittleEndian \<Rightarrow> le_bytes n x | BigEndian \<Rightarrow> rev (le_bytes n x))"

definition dec_bytes :: "ByteOrder \<Rightarrow> u8 list \<Rightarrow> u64" where
  "dec_bytes bo bs = (case bo of LittleEndian \<Rightarrow> le_val bs | BigEndian \<Rightarrow> le_val (rev bs))"

lemma drop_bit_ucast32: "drop_bit n (ucast (x::u32) :: u64) = ucast (drop_bit n x)"
  by (rule bit_word_eqI) (auto simp: bit_simps dest: bit_imp_le_length)

lemma drop_bit_ucast16: "drop_bit n (ucast (x::u16) :: u64) = ucast (drop_bit n x)"
  by (rule bit_word_eqI) (auto simp: bit_simps dest: bit_imp_le_length)

lemma ucast_ucast8: "(ucast (ucast (x::u32) :: u64) :: u8) = ucast x"
  "(ucast (ucast (y::u16) :: u64) :: u8) = ucast y"
  by (rule bit_word_eqI, auto simp: bit_simps)+

lemma le_bytes_ucast32: "le_bytes n (ucast (x::u32) :: u64) = le_bytes n x"
  by (induction n arbitrary: x) (simp_all add: drop_bit_ucast32 ucast_ucast8)

lemma le_bytes_ucast16: "le_bytes n (ucast (x::u16) :: u64) = le_bytes n x"
  by (induction n arbitrary: x) (simp_all add: drop_bit_ucast16 ucast_ucast8)

lemma drop_bit_byte_plus: "drop_bit 8 (ucast (b::u8) + push_bit 8 w :: 'a::len word) =
    take_bit (LENGTH('a) - 8) w"
  by (rule bit_word_eqI)
    (auto simp: byte_plus_xor bit_simps dest: bit_imp_le_length)

lemma ucast_byte_plus: "8 \<le> LENGTH('a) \<Longrightarrow> ucast (ucast (b::u8) + push_bit 8 (w :: 'a::len word)) = b"
  by (rule bit_word_eqI)
    (auto simp: byte_plus_xor bit_simps dest: bit_imp_le_length)

lemma le_bytes_take_bit:
  "8 * n \<le> m \<Longrightarrow> le_bytes n (take_bit m (w :: 'a::len word)) = le_bytes n w"
proof (induction n arbitrary: m w)
  case 0
  then show ?case by simp
next
  case (Suc n)
  have "(ucast (take_bit m w) :: u8) = ucast w"
    using Suc.prems by (intro bit_word_eqI) (auto simp: bit_simps)
  then show ?case using Suc.IH [of "m - 8"] Suc.prems by (simp add: drop_bit_take_bit)
qed

lemma le_bytes_le_val:
  "8 * length bs \<le> LENGTH('a) \<Longrightarrow> le_bytes (length bs) (le_val bs :: 'a::len word) = bs"
  by (induction bs) (simp_all add: drop_bit_byte_plus ucast_byte_plus le_bytes_take_bit)

lemma le_loop_eof:
  "unat i + length bs < unat len \<Longrightarrow> unat len \<le> 8 \<Longrightarrow> le_ReadUintN_loop len i res bs = Inl EOF"
  by (induction bs arbitrary: i res) (simp_all add: word_less_nat_alt unat_word_ariths)

lemma be_loop_eof:
  "unat i + length bs < unat len \<Longrightarrow> unat len \<le> 8 \<Longrightarrow> be_ReadUintN_loop len i res bs = Inl EOF"
  by (induction bs arbitrary: i res) (simp_all add: word_less_nat_alt unat_word_ariths)

lemma ReadUintN_eq:
  assumes "unat len \<le> 8"
  shows "ReadUintN bo len bs =
    (if length bs < unat len then Inl EOF
     else Inr (dec_bytes bo (take (unat len) bs), drop (unat len) bs))"
proof (cases "length bs < unat len")
  case True
  with assms show ?thesis
    by (cases bo) (simp_all add: ReadUintN_def le_ReadUintN_def be_ReadUintN_def
        le_loop_eof be_loop_eof)
next
  case False
  then have *: "bs = take (unat len) bs @ drop (unat len) bs"
    and l: "length (take (unat len) bs) = unat len" by auto
  show ?thesis
    using le_ReadUintN_bytes [OF l assms, of "drop (unat len) bs"]
      be_ReadUintN_bytes [OF l assms, of "drop (unat len) bs"] False
    by (cases bo) (simp_all add: ReadUintN_def dec_bytes_def)
qed

lemma readByte_chain_short:
  "length bs < 2 \<Longrightarrow> ReadUint16 bo bs = Inl EOF"
  "length bs < 4 \<Longrightarrow> ReadUint32 bo bs = Inl EOF"
  "length bs < 8 \<Longrightarrow> ReadUint64 bo bs = Inl EOF"
  by (cases bo; auto simp: ReadUint16_def ReadUint32_def ReadUint64_def le_ReadUint16_def
      be_ReadUint16_def le_ReadUint32_def be_ReadUint32_def le_ReadUint64_def be_ReadUint64_def
      pbind_def length_Suc_conv less_Suc_eq numeral_eq_Suc)+

lemma ucast_le_val: "LENGTH('b) \<le> LENGTH('a) \<Longrightarrow>
    ucast (le_val bs :: 'a::len word) = (le_val bs :: 'b::len word)"
proof (induction bs)
  case Nil
  then show ?case by simp
next
  case (Cons b bs)
  then have "le_val bs = (ucast (le_val bs :: 'a word) :: 'b word)" by simp
  with Cons.prems show ?case
    by (simp add: byte_plus_xor) (rule bit_word_eqI, auto simp: bit_simps)
qed

lemma Write_eq:
  "WriteUint64 bo k = Inr (enc_bytes bo 8 k)"
  "k < 2 ^ 56 \<Longrightarrow> WriteUint56 bo k = Inr (enc_bytes bo 7 k)"
  "k < 2 ^ 48 \<Longrightarrow> WriteUint48 bo k = Inr (enc_bytes bo 6 k)"
  "k < 2 ^ 40 \<Longrightarrow> WriteUint40 bo k = Inr (enc_bytes bo 5 k)"
  "WriteUint32 bo j = Inr (enc_bytes bo 4 (ucast j))"
  "j < 2 ^ 24 \<Longrightarrow> WriteUint24 bo j = Inr (enc_bytes bo 3 (ucast j))"
  "WriteUint16 bo i = Inr (enc_bytes bo 2 (ucast i))"
  by (cases bo; simp add: WriteUint64_def WriteUint56_def WriteUint48_def WriteUint40_def
      WriteUint32_def WriteUint24_def WriteUint16_def enc_bytes_def le_write_bytes be_write_bytes
      le_bytes_ucast32 le_bytes_ucast16)+

lemma Write_panic:
  "\<not> k < 2 ^ 56 \<Longrightarrow> WriteUint56 bo k = Inl (Panic ''doesn't fit into 56 bits'')"
  "\<not> k < 2 ^ 48 \<Longrightarrow> WriteUint48 bo k = Inl (Panic ''doesn't fit into 48 bits'')"
  "\<not> k < 2 ^ 40 \<Longrightarrow> WriteUint40 bo k = Inl (Panic ''doesn't fit into 40 bits'')"
  "\<not> j < 2 ^ 24 \<Longrightarrow> WriteUint24 bo j = Inl (Panic ''doesn't fit into 24 bits'')"
  by (simp_all add: WriteUint56_def WriteUint48_def WriteUint40_def WriteUint24_def
      le_WriteUint56_def be_WriteUint56_def le_WriteUint48_def be_WriteUint48_def
      le_WriteUint40_def be_WriteUint40_def le_WriteUint24_def be_WriteUint24_def
      push_bit_of_1 not_less split: ByteOrder.split)

lemma Read16_append:
  assumes "length bs = 2"
  shows "ReadUint16 bo (bs @ r) = Inr (ucast (dec_bytes bo bs), r)"
  using le_read_bytes'(1) [OF assms] be_read_bytes'(1) [OF assms]
  by (cases bo) (simp_all add: ReadUint16_def dec_bytes_def ucast_le_val)

lemma Read32_append:
  assumes "length bs = 4"
  shows "ReadUint32 bo (bs @ r) = Inr (ucast (dec_bytes bo bs), r)"
  using le_read_bytes'(2) [OF assms] be_read_bytes'(2) [OF assms]
  by (cases bo) (simp_all add: ReadUint32_def dec_bytes_def ucast_le_val)

lemma Read64_append:
  assumes "length bs = 8"
  shows "ReadUint64 bo (bs @ r) = Inr (dec_bytes bo bs, r)"
  using le_read_bytes'(3) [OF assms] be_read_bytes'(3) [OF assms]
  by (cases bo) (simp_all add: ReadUint64_def dec_bytes_def)

lemma Read_eq:
  "ReadUint16 bo bs =
     (if length bs < 2 then Inl EOF else Inr (ucast (dec_bytes bo (take 2 bs)), drop 2 bs))"
  "ReadUint32 bo bs =
     (if length bs < 4 then Inl EOF else Inr (ucast (dec_bytes bo (take 4 bs)), drop 4 bs))"
  "ReadUint64 bo bs =
     (if length bs < 8 then Inl EOF else Inr (dec_bytes bo (take 8 bs), drop 8 bs))"
  using Read16_append [of "take 2 bs" bo "drop 2 bs"] Read32_append [of "take 4 bs" bo "drop 4 bs"]
    Read64_append [of "take 8 bs" bo "drop 8 bs"]
  by (simp_all add: readByte_chain_short)

lemma dec_bytes_enc_bytes: "dec_bytes bo (enc_bytes bo n x) = take_bit (8 * n) x"
  by (simp add: enc_bytes_def dec_bytes_def le_val_le_bytes split: ByteOrder.splits)

lemma enc_bytes_dec_bytes: "length bs \<le> 8 \<Longrightarrow> enc_bytes bo (length bs) (dec_bytes bo bs) = bs"
  using le_bytes_le_val [where 'a = 64, of bs] le_bytes_le_val [where 'a = 64, of "rev bs"]
  by (simp add: enc_bytes_def dec_bytes_def split: ByteOrder.splits)

interpretation bo: byte_order "enc_bytes bo" "dec_bytes bo" "ReadUintN bo" "ReadUint64 bo"
    "ReadUint32 bo" "ReadUint16 bo" "WriteUint64 bo" "WriteUint56 bo" "WriteUint48 bo"
    "WriteUint40 bo" "WriteUint32 bo" "WriteUint24 bo" "WriteUint16 bo"
  for bo :: ByteOrder
proof (unfold_locales, goal_cases)
  case 1 show ?case by (simp add: enc_bytes_def split: ByteOrder.splits)
next
  case 2 show ?case by (simp add: enc_bytes_def split: ByteOrder.splits)
next
  case 3 show ?case by (rule dec_bytes_enc_bytes)
next
  case 4 then show ?case by (rule enc_bytes_dec_bytes)
next
  case 5 then show ?case by (rule ReadUintN_eq)
qed (simp_all add: Read_eq Write_eq Write_panic)

subsection \<open>Consumption\<close>

lemma consumes_le_loop: "consumes 0 (le_ReadUintN_loop n i res)"
  unfolding consumes_def
proof (intro allI impI)
  fix bs x r
  show "le_ReadUintN_loop n i res bs = Inr (x, r) \<Longrightarrow> length r + 0 \<le> length bs"
    by (induction n i res bs rule: le_ReadUintN_loop.induct) (auto split: if_splits)
qed

lemma consumes_be_loop: "consumes 0 (be_ReadUintN_loop n i res)"
  unfolding consumes_def
proof (intro allI impI)
  fix bs x r
  show "be_ReadUintN_loop n i res bs = Inr (x, r) \<Longrightarrow> length r + 0 \<le> length bs"
    by (induction n i res bs rule: be_ReadUintN_loop.induct) (auto split: if_splits)
qed

lemma consumes_reads [consumes_intros]:
  "consumes 0 (ReadUintN bo n)" "consumes 0 (ReadUint64 bo)" "consumes 0 (ReadUint32 bo)"
  "consumes 0 (ReadUint16 bo)"
proof -
  show "consumes 0 (ReadUintN bo n)"
    by (simp add: ReadUintN_def le_ReadUintN_def be_ReadUintN_def consumes_le_loop consumes_be_loop
        split: ByteOrder.split)
qed (auto simp: consumes_def Read_eq split: if_splits)

end
