(* ===== verification/Float16.thy ===== *)
theory Float16
  imports Byte_Order
begin

section \<open>The 16-bit float of ACK delays: \<open>internal/utils/float16.go\<close>\<close>

text \<open>
  QUIC's unsigned 16-bit float has a 5-bit exponent and an 11-bit mantissa with a hidden bit.
  \<open>ufloat16_decode\<close> and \<open>ufloat16_encode\<close> are the computations of \<open>readUfloat16\<close> and
  \<open>writeUfloat16\<close> around the two bytes on the wire. The lemmas show that decoding is inverted
  by encoding on all 65536 words, and that encoding keeps the twelve leading bits of a value
  below the largest one and clamps the rest.
\<close>

definition uFloat16MaxValue :: u64 where
  "uFloat16MaxValue = push_bit 30 (push_bit 12 1 - 1)"

definition ufloat16_decode :: "u16 \<Rightarrow> u64" where
  "ufloat16_decode val =
     (let res = ucast val :: u64
      in if res < push_bit 12 1 then res
         else let exponent = drop_bit 11 val - 1;
                  res = res - push_bit 11 (ucast exponent)
              in push_bit (unat exponent) res)"

definition readUfloat16 :: "ByteOrder \<Rightarrow> u64 parser" where
  "readUfloat16 bo = pbind (ReadUint16 bo) (\<lambda>val. pret (ufloat16_decode val))"

text \<open>The binary search \<open>for offset := 16; offset > 0; offset /= 2\<close>.\<close>

function ufloat16_norm :: "u16 \<Rightarrow> u16 \<Rightarrow> u64 \<Rightarrow> u16 \<times> u64" where
  "ufloat16_norm offset exponent value =
     (if offset > 0
      then if value \<ge> push_bit (unat (11 + offset)) 1
           then ufloat16_norm (offset div 2) (exponent + offset) (drop_bit (unat offset) value)
           else ufloat16_norm (offset div 2) exponent value
      else (exponent, value))"
  by pat_completeness auto
termination
  by (relation "measure (\<lambda>(offset, _, _). unat offset)")
    (auto simp: unat_div word_greater_zero_iff unat_gt_0)

declare ufloat16_norm.simps [simp del]

definition ufloat16_encode :: "u64 \<Rightarrow> u16" where
  "ufloat16_encode value =
     (if value < push_bit 12 1 then ucast value
      else if value \<ge> uFloat16MaxValue then 0xFFFF
      else case ufloat16_norm 16 0 value of
        (exponent, value) \<Rightarrow> ucast value + push_bit 11 exponent)"

definition writeUfloat16 :: "ByteOrder \<Rightarrow> u64 \<Rightarrow> writer" where
  "writeUfloat16 bo value = WriteUint16 bo (ufloat16_encode value)"

subsection \<open>Normalisation\<close>

lemma unat_push_bit_one: "n < 64 \<Longrightarrow> unat (push_bit n (1 :: u64)) = 2 ^ n"
  by (simp add: push_bit_of_1 unat_pow2)

text \<open>
  With \<open>offset = 2 ^ k\<close>, a value below \<open>2 ^ (11 + 2 * offset)\<close> is shifted until its highest
  bit is bit 11, and the exponent counts the shifts.
\<close>

lemma ufloat16_norm_zero: "ufloat16_norm 0 e v = (e, v)"
  by (simp add: ufloat16_norm.simps)

lemma ufloat16_norm_pow2:
  assumes "k \<le> 4" "2 ^ 11 \<le> unat v" "unat v < 2 ^ (11 + 2 * 2 ^ k)" "unat e + 2 * 2 ^ k \<le> 64"
  obtains s where "ufloat16_norm (2 ^ k) e v = (e + of_nat s, drop_bit s v)"
    "s < 2 * 2 ^ k" "2 ^ 11 \<le> unat v div 2 ^ s" "unat v div 2 ^ s < 2 ^ 12"
proof -
  have "\<exists>s. ufloat16_norm (2 ^ k) e v = (e + of_nat s, drop_bit s v) \<and>
    s < 2 * 2 ^ k \<and> 2 ^ 11 \<le> unat v div 2 ^ s \<and> unat v div 2 ^ s < 2 ^ 12"
    using assms
  proof (induction k arbitrary: e v)
    case 0
    have p: "unat (push_bit 12 1 :: u64) = 2 ^ 12" by (rule unat_push_bit_one) simp
    show ?case
    proof (cases "push_bit 12 1 \<le> v")
      case True
      then have "2 ^ 12 \<le> unat v" using p by (simp add: word_le_nat_alt)
      with True 0 show ?thesis
        by (intro exI [of _ 1])
          (auto simp: ufloat16_norm.simps [of 1] ufloat16_norm_zero)
    next
      case False
      then have "unat v < 2 ^ 12" using p by (simp add: word_le_nat_alt)
      with False 0 show ?thesis
        by (intro exI [of _ 0])
          (auto simp: ufloat16_norm.simps [of 1] ufloat16_norm_zero)
    qed
  next
    case (Suc k)
    define w :: u16 where "w = 2 ^ Suc k"
    define n :: nat where "n = 2 ^ Suc k"
    have n2: "n = 2 * 2 ^ k" by (simp add: n_def)
    have small: "n \<le> 16" using Suc.prems(1) power_increasing [of "Suc k" 4 "2::nat"]
      by (simp add: n_def)
    have uw: "unat w = n" unfolding w_def n_def using Suc.prems(1) by (intro unat_pow2) simp
    have u11: "unat (11 + w) = 11 + n"
      using small uw by (simp add: unat_word_ariths)
    have "unat (w div 2) = unat (2 ^ k :: u16)"
      using Suc.prems(1) by (simp add: unat_div uw unat_pow2 n2)
    then have half: "w div 2 = 2 ^ k" by (rule unat_eqI)
    have pos: "0 < w" using uw n2 by (simp add: word_less_nat_alt)
    have p: "unat (push_bit (11 + n) 1 :: u64) = 2 ^ (11 + n)"
      using small by (intro unat_push_bit_one) simp
    have step: "ufloat16_norm w e v =
        (if push_bit (11 + n) 1 \<le> v then ufloat16_norm (2 ^ k) (e + w) (drop_bit n v)
         else ufloat16_norm (2 ^ k) e v)"
      by (subst ufloat16_norm.simps) (simp only: pos u11 half uw if_True)
    have hi: "unat v < 2 ^ (11 + 2 * n)" using Suc.prems(3) by (simp add: n_def)
    have "\<exists>s. ufloat16_norm w e v = (e + of_nat s, drop_bit s v) \<and>
      s < 2 * n \<and> 2 ^ 11 \<le> unat v div 2 ^ s \<and> unat v div 2 ^ s < 2 ^ 12"
    proof (cases "push_bit (11 + n) 1 \<le> v")
      case True
      have uv: "unat (drop_bit n v) = unat v div 2 ^ n"
        by (rule unat_drop_bit_div)
      have ge: "2 ^ (11 + n) \<le> unat v" using True p by (simp add: word_le_nat_alt)
      have 1: "2 ^ 11 \<le> unat (drop_bit n v)"
        using div_le_mono [OF ge, of "2 ^ n"] by (simp add: uv power_add)
      have 2: "unat (drop_bit n v) < 2 ^ (11 + 2 * 2 ^ k)"
        unfolding uv n2 [symmetric]
      proof (rule less_mult_imp_div_less)
        have "(2::nat) ^ (11 + n) * 2 ^ n = 2 ^ (11 + 2 * n)"
          by (simp only: power_add [symmetric] mult_2 add.assoc)
        then show "unat v < 2 ^ (11 + n) * 2 ^ n" using hi by simp
      qed
      have eo: "unat (e + w) = unat e + n"
        using Suc.prems(4) uw small by (simp add: unat_word_ariths n_def)
      obtain s where s: "ufloat16_norm (2 ^ k) (e + w) (drop_bit n v) =
          (e + w + of_nat s, drop_bit s (drop_bit n v))" "s < 2 * 2 ^ k"
          "2 ^ 11 \<le> unat (drop_bit n v) div 2 ^ s" "unat (drop_bit n v) div 2 ^ s < 2 ^ 12"
        using Suc.IH [OF _ 1 2, of "e + w"] Suc.prems(1,4) eo n2 by auto
      have sum: "e + w + of_nat s = e + of_nat (n + s)"
        by (simp add: uw [symmetric] ac_simps)
      have dd: "drop_bit s (drop_bit n v) = drop_bit (n + s) v"
        by (simp add: add.commute)
      have dv: "unat (drop_bit n v) div 2 ^ s = unat v div 2 ^ (n + s)"
        by (simp only: uv div_mult2_eq power_add)
      have nrm: "ufloat16_norm w e v = (e + of_nat (n + s), drop_bit (n + s) v)"
        using True by (simp only: step s(1) sum dd if_True)
      have "n + s < 2 * n" using s(2) n2 by simp
      then show ?thesis
        using nrm s(3,4) unfolding dv by blast
    next
      case False
      then have "unat v < 2 ^ (11 + 2 * 2 ^ k)" using p by (simp add: word_le_nat_alt n2)
      from Suc.IH [OF _ Suc.prems(2) this, of e] Suc.prems(1,4) obtain s where s:
          "ufloat16_norm (2 ^ k) e v = (e + of_nat s, drop_bit s v)" "s < 2 * 2 ^ k"
          "2 ^ 11 \<le> unat v div 2 ^ s" "unat v div 2 ^ s < 2 ^ 12" by auto
      with False show ?thesis by (intro exI [of _ s]) (auto simp: step n2)
    qed
    then show ?case by (simp only: w_def n_def)
  qed
  with that show thesis by blast
qed

subsection \<open>Decoding and encoding in terms of exponent and mantissa\<close>

lemma unat_uFloat16MaxValue: "unat uFloat16MaxValue = (2 ^ 12 - 1) * 2 ^ 30"
  by (simp add: uFloat16MaxValue_def push_bit_eq_mult)

lemma ufloat16_decode_small: "unat val < 2 ^ 12 \<Longrightarrow> unat (ufloat16_decode val) = unat val"
  by (simp add: ufloat16_decode_def Let_def push_bit_of_1 word_less_nat_alt unat_ucast_wide)

lemma ufloat16_decode_large:
  assumes val: "unat val = m + s * 2 ^ 11" and m: "2 ^ 11 \<le> m" "m < 2 ^ 12"
    and s: "1 \<le> s" "s \<le> 30"
  shows "unat (ufloat16_decode val) = m * 2 ^ s"
proof -
  have big: "\<not> (ucast val :: u64) < push_bit 12 1"
    using val m s by (simp add: push_bit_of_1 word_less_nat_alt unat_ucast_wide)
  have d: "unat (drop_bit 11 val) = s + 1"
    using val m by (simp add: unat_drop_bit_div)
  then have e: "unat (drop_bit 11 val - 1) = s"
    by (subst unat_minus_one) (auto simp: unat_eq_zero [symmetric])
  have p: "unat (push_bit 11 (ucast (drop_bit 11 val - 1)) :: u64) = s * 2 ^ 11"
    using e s by (simp add: push_bit_eq_mult unat_word_ariths unat_ucast_wide)
  have le: "push_bit 11 (ucast (drop_bit 11 val - 1)) \<le> (ucast val :: u64)"
    using p val by (simp add: word_le_nat_alt unat_ucast_wide)
  have r: "unat (ucast val - push_bit 11 (ucast (drop_bit 11 val - 1)) :: u64) = m"
    using unat_sub [OF le] p val by (simp add: unat_ucast_wide)
  have "m * 2 ^ s < 2 ^ 12 * 2 ^ 30"
    using m s by (intro mult_less_le_imp_less power_increasing) auto
  then have "m * 2 ^ s < 2 ^ 64" by simp
  then have "unat (push_bit s (ucast val - push_bit 11 (ucast (drop_bit 11 val - 1)) :: u64)) = m * 2 ^ s"
    using r s by (simp add: push_bit_eq_mult unat_word_ariths(2) unat_pow2)
  then show ?thesis using big e by (simp add: ufloat16_decode_def Let_def)
qed

lemma ufloat16_parts:
  assumes "2 ^ 12 \<le> unat (val :: u16)"
  obtains m s where "unat val = m + s * 2 ^ 11" "2 ^ 11 \<le> m" "m < 2 ^ 12" "1 \<le> s" "s \<le> 30"
proof
  let ?s = "unat val div 2 ^ 11 - 1" and ?m = "unat val mod 2 ^ 11 + 2 ^ 11"
  have d: "2 \<le> unat val div 2 ^ 11" using div_le_mono [OF assms, of "2 ^ 11"] by simp
  have lt: "unat val < 2 ^ 16" using unat_bound [of val] by simp
  show "unat val = ?m + ?s * 2 ^ 11" using d by (simp add: diff_mult_distrib)
  show "1 \<le> ?s" "?s \<le> 30" using d lt by (simp_all add: less_mult_imp_div_less)
qed auto

lemma ufloat16_encode_mid:
  assumes "2 ^ 12 \<le> unat v" "unat v < (2 ^ 12 - 1) * 2 ^ 30"
  obtains s where "unat (ufloat16_encode v) = unat v div 2 ^ s + s * 2 ^ 11"
    "2 ^ 11 \<le> unat v div 2 ^ s" "unat v div 2 ^ s < 2 ^ 12" "1 \<le> s" "s \<le> 30"
proof -
  have "unat v < 2 ^ (11 + 2 * 2 ^ 4)" using assms(2) by simp
  then obtain s where s: "ufloat16_norm (2 ^ 4) 0 v = (0 + of_nat s, drop_bit s v)" "s < 2 * 2 ^ 4"
      "2 ^ 11 \<le> unat v div 2 ^ s" "unat v div 2 ^ s < 2 ^ 12"
    using ufloat16_norm_pow2 [of 4 v 0] assms(1) by auto
  have s30: "s \<le> 30"
  proof (rule ccontr)
    assume "\<not> s \<le> 30"
    then have "(2::nat) ^ 31 \<le> 2 ^ s" by (intro power_increasing) auto
    then have "unat v div 2 ^ s \<le> unat v div 2 ^ 31" by (intro div_le_mono2) auto
    then show False using s(3) assms(2) by (simp add: less_mult_imp_div_less)
  qed
  have s1: "1 \<le> s" using s(4) assms(1) by (cases s) auto
  have "unat (push_bit 11 (of_nat s) :: u16) = s * 2 ^ 11"
    using s30 by (simp add: push_bit_eq_mult unat_word_ariths unat_of_nat)
  moreover have "unat (ucast (drop_bit s v) :: u16) = unat v div 2 ^ s"
    using s(4) by (simp add: unat_ucast_mod unat_drop_bit_div)
  ultimately have "unat (ucast (drop_bit s v) + push_bit 11 (of_nat s) :: u16) =
      unat v div 2 ^ s + s * 2 ^ 11"
    using s(4) s30 by (simp add: unat_word_ariths(1))
  moreover have "\<not> v < push_bit 12 1" "\<not> uFloat16MaxValue \<le> v"
    using assms unat_uFloat16MaxValue by (auto simp: push_bit_of_1 word_less_nat_alt word_le_nat_alt)
  ultimately have "unat (ufloat16_encode v) = unat v div 2 ^ s + s * 2 ^ 11"
    using s(1) by (simp add: ufloat16_encode_def)
  with that s s30 s1 show thesis by blast
qed

lemma ufloat16_encode_small: "unat v < 2 ^ 12 \<Longrightarrow> unat (ufloat16_encode v) = unat v"
  by (simp add: ufloat16_encode_def push_bit_of_1 word_less_nat_alt unat_ucast_mod)

lemma ufloat16_encode_clamped: "(2 ^ 12 - 1) * 2 ^ 30 \<le> unat v \<Longrightarrow> ufloat16_encode v = 0xFFFF"
  using unat_uFloat16MaxValue
  by (simp add: ufloat16_encode_def push_bit_of_1 word_less_nat_alt word_le_nat_alt)

lemma mantissa_unique:
  assumes "m * 2 ^ s div 2 ^ t < (2::nat) ^ 12" "2 ^ 11 \<le> m * 2 ^ s div 2 ^ t"
    and "2 ^ 11 \<le> m" "m < 2 ^ 12"
  shows "t = s"
proof (rule ccontr)
  assume "t \<noteq> s"
  then consider "t < s" | "s < t" by linarith
  then show False
  proof cases
    case 1
    then have "m * 2 ^ s div 2 ^ t = m * 2 ^ (s - t)"
      by (metis div_mult_self_is_m le_add_diff_inverse2 less_imp_le mult.assoc power_add zero_less_numeral zero_less_power)
    moreover have "2 ^ 12 \<le> m * 2 ^ (s - t)"
      using 1 mult_le_mono [OF assms(3) two_le_power [of "s - t"]] by simp
    ultimately show False using assms by simp
  next
    case 2
    then have "m * 2 ^ s div 2 ^ t = m div 2 ^ (t - s)"
      by (metis add_diff_inverse_nat div_mult_mult2 less_imp_le_nat mult.commute not_less power_add power_eq_0_iff zero_neq_numeral)
    moreover have "m div 2 ^ (t - s) \<le> m div 2" using 2 two_le_power [of "t - s"]
      by (intro div_le_mono2) auto
    ultimately show False using assms by simp
  qed
qed

subsection \<open>Round trips\<close>

text \<open>Every word on the wire is the encoding of the value it stands for.\<close>

lemma ufloat16_encode_decode_eq: "ufloat16_encode (ufloat16_decode u) = u"
proof (cases "unat u < 2 ^ 12")
  case True
  then show ?thesis
    using ufloat16_decode_small [OF True] ufloat16_encode_small [of "ufloat16_decode u"]
    by (intro unat_eqI) simp
next
  case False
  then obtain m s where u: "unat u = m + s * 2 ^ 11" "2 ^ 11 \<le> m" "m < 2 ^ 12" "1 \<le> s" "s \<le> 30"
    using ufloat16_parts [of u] by (auto simp: not_less)
  have d: "unat (ufloat16_decode u) = m * 2 ^ s" by (rule ufloat16_decode_large [OF u])
  show ?thesis
  proof (cases "m * 2 ^ s < (2 ^ 12 - 1) * 2 ^ 30")
    case True
    have "2 ^ 12 \<le> m * 2 ^ s"
      using u(4) mult_le_mono [OF u(2) two_le_power [of s]] by simp
    then obtain t where t: "unat (ufloat16_encode (ufloat16_decode u)) = m * 2 ^ s div 2 ^ t + t * 2 ^ 11"
        "2 ^ 11 \<le> m * 2 ^ s div 2 ^ t" "m * 2 ^ s div 2 ^ t < 2 ^ 12"
      using ufloat16_encode_mid [of "ufloat16_decode u"] True d by metis
    then have "t = s" using mantissa_unique u(2,3) by blast
    then show ?thesis using t(1) u(1) by (intro unat_eqI) simp
  next
    case False
    have "s = 30"
    proof (rule ccontr)
      assume "s \<noteq> 30"
      then have "(2::nat) ^ s \<le> 2 ^ 29" using u(5) by (intro power_increasing) auto
      then have "m * 2 ^ s < 2 ^ 12 * 2 ^ 29" using u(3) by (intro mult_less_le_imp_less) auto
      then show False using False by simp
    qed
    then have "unat u = 0xFFFF" using False u by simp
    then have "u = 0xFFFF" by (intro unat_eqI) simp
    moreover have "ufloat16_encode (ufloat16_decode u) = 0xFFFF"
      using False d by (intro ufloat16_encode_clamped) simp
    ultimately show ?thesis by simp
  qed
qed

text \<open>A value that was encoded comes back with its twelve leading bits.\<close>

lemma ufloat16_decode_encode_bounds:
  assumes "unat v < (2 ^ 12 - 1) * 2 ^ 30"
  shows "unat (ufloat16_decode (ufloat16_encode v)) \<le> unat v \<and>
    (unat v - unat (ufloat16_decode (ufloat16_encode v))) * 2 ^ 11 \<le> unat v"
proof (cases "unat v < 2 ^ 12")
  case True
  then show ?thesis
    using ufloat16_encode_small [OF True] ufloat16_decode_small [of "ufloat16_encode v"] by simp
next
  case False
  then obtain s where s: "unat (ufloat16_encode v) = unat v div 2 ^ s + s * 2 ^ 11"
      "2 ^ 11 \<le> unat v div 2 ^ s" "unat v div 2 ^ s < 2 ^ 12" "1 \<le> s" "s \<le> 30"
    using ufloat16_encode_mid [of v] assms by (metis not_less)
  have d: "unat (ufloat16_decode (ufloat16_encode v)) = unat v div 2 ^ s * 2 ^ s"
    by (rule ufloat16_decode_large [OF s])
  have "unat v - unat v div 2 ^ s * 2 ^ s = unat v mod 2 ^ s" by (simp add: minus_div_mult_eq_mod)
  also have "\<dots> * 2 ^ 11 \<le> 2 ^ s * 2 ^ 11" by (intro mult_right_mono) (auto intro: less_imp_le)
  also have "\<dots> \<le> unat v div 2 ^ s * 2 ^ s" using s(2) by (simp add: mult.commute)
  also have "\<dots> \<le> unat v" by (simp add: div_times_less_eq_dividend)
  finally show ?thesis by (simp add: d div_times_less_eq_dividend)
qed

lemma ufloat16_decode_encode_small: "unat v < 2 ^ 12 \<Longrightarrow> ufloat16_decode (ufloat16_encode v) = v"
  using ufloat16_encode_small [of v] ufloat16_decode_small [of "ufloat16_encode v"]
  by (intro unat_eqI) simp

lemma ufloat16_decode_encode_max:
  "(2 ^ 12 - 1) * 2 ^ 30 \<le> unat v \<Longrightarrow> ufloat16_decode (ufloat16_encode v) = uFloat16MaxValue"
  by (simp add: ufloat16_encode_clamped)
    (simp add: ufloat16_decode_def uFloat16MaxValue_def Let_def push_bit_eq_mult)

lemma write_read_ufloat16 [roundtrip_simps]:
  "writeUfloat16 bo v = Inr bs \<Longrightarrow> readUfloat16 bo (bs @ r) = Inr (ufloat16_decode (ufloat16_encode v), r)"
  by (auto simp: writeUfloat16_def readUfloat16_def bo.write16_eq pbind_def pret_def bo.read16_enc)

subsection \<open>Properties\<close>

text \<open>
  Writing an ACK delay as a 16-bit float takes two bytes; reading them back gives a value
  that is at most the one written and less than it by at most one part in 2048, or the largest
  representable value when the one written is not below it; writing the value that was read
  gives the same two bytes again.
\<close>
theorem ufloat16_roundtrip:
  "\<exists>bs v'. writeUfloat16 bo v = Inr bs \<and> length bs = 2 \<and>
     readUfloat16 bo (bs @ r) = Inr (v', r) \<and> writeUfloat16 bo v' = Inr bs \<and>
     (if v < uFloat16MaxValue
      then v' \<le> v \<and> (unat v - unat v') * 2 ^ 11 \<le> unat v
      else v' = uFloat16MaxValue)"
proof -
  define v' where "v' = ufloat16_decode (ufloat16_encode v)"
  have w: "writeUfloat16 bo v = Inr (enc_bytes bo 2 (ucast (ufloat16_encode v)))"
    by (simp add: writeUfloat16_def bo.write16_eq)
  have "writeUfloat16 bo v' = writeUfloat16 bo v"
    by (simp add: writeUfloat16_def v'_def ufloat16_encode_decode_eq)
  moreover have "if v < uFloat16MaxValue
      then v' \<le> v \<and> (unat v - unat v') * 2 ^ 11 \<le> unat v else v' = uFloat16MaxValue"
    using ufloat16_decode_encode_bounds [of v] ufloat16_decode_encode_max [of v] unat_uFloat16MaxValue
    by (simp add: v'_def word_less_nat_alt word_le_nat_alt)
  ultimately show ?thesis
    using w write_read_ufloat16 [OF w] by (simp add: bo.length_enc v'_def [symmetric])
qed

end
