(* ===== verification/Wire_Basic.thy ===== *)
theory Wire_Basic
  imports Float16
begin

section \<open>The small frames: \<open>internal/wire\<close>\<close>

text \<open>
  The frames whose fields are of fixed size or a single string: RST_STREAM, BLOCKED,
  WINDOW_UPDATE, PING, GOAWAY, CONNECTION_CLOSE, STOP_WAITING, ADD_ADDRESS and PATHS, each with its
  \<open>Write\<close>, \<open>MinLength\<close> and \<open>Parse\<close> function. The locale \<open>wire_frame\<close> states what the packer and
  the unpacker rely on for every frame, and is interpreted for each of them.
\<close>

subsection \<open>The contract of a frame\<close>

text \<open>
  For a frame \<open>f\<close> that is well formed, \<open>wr\<close> succeeds, \<open>parse\<close> takes exactly the written bytes
  and yields what the receiver sees of \<open>f\<close>, and \<open>minLength\<close> is the number of bytes.
\<close>

locale wire_frame =
  fixes wf :: "'f \<Rightarrow> bool"
    and wr :: "'f \<Rightarrow> writer"
    and parse :: "'f parser"
    and minLength :: "'f \<Rightarrow> go_error + ByteCount"
    and seen :: "'f \<Rightarrow> 'f"
  assumes write_ok: "wf f \<Longrightarrow> \<exists>bs. wr f = Inr bs"
    and parse_write: "wf f \<Longrightarrow> wr f = Inr bs \<Longrightarrow> parse (bs @ r) = Inr (seen f, r)"
    and minLength_write: "wf f \<Longrightarrow> wr f = Inr bs \<Longrightarrow> \<exists>n. minLength f = Inr n \<and> unat n = length bs"
begin

lemma write_determines_seen:
  assumes "wf f" "wf g" "wr f = Inr bs" "wr g = Inr (bs @ cs)"
  shows "seen f = seen g \<and> cs = []"
  using parse_write [OF assms(1,3), of cs] parse_write [OF assms(2,4), of "[]"] by simp

lemma roundtrip:
  assumes "wf f"
  shows "\<exists>bs. wr f = Inr bs \<and> parse (bs @ r) = Inr (seen f, r) \<and>
    (\<exists>n. minLength f = Inr n \<and> unat n = length bs)"
  using write_ok [OF assms] parse_write [OF assms] minLength_write [OF assms] by blast

end

text \<open>What the proofs of the frames share.\<close>

lemmas frame_simps =
  wbyte_def wbytes_def bo.write64_eq bo.write32_eq bo.write16_eq bo.length_enc
  pbind_def pret_def pguard_def pfail_def wguard_def bo.read64_enc bo.read32_enc bo.read16_enc

definition MaxPacketSize :: ByteCount where "MaxPacketSize = 1350"

subsection \<open>\<open>rst_stream_frame.go\<close>\<close>

record RstStreamFrame =
  rst_StreamID :: StreamID
  rst_ErrorCode :: u32
  rst_ByteOffset :: ByteCount

definition RstStreamFrame_Write :: "VersionNumber \<Rightarrow> RstStreamFrame \<Rightarrow> writer" where
  "RstStreamFrame_Write version f = wseq
     [wbyte 0x01,
      WriteUint32 (GetByteOrder version) (rst_StreamID f),
      WriteUint64 (GetByteOrder version) (rst_ByteOffset f),
      WriteUint32 (GetByteOrder version) (rst_ErrorCode f)]"

definition RstStreamFrame_MinLength :: "RstStreamFrame \<Rightarrow> go_error + ByteCount" where
  "RstStreamFrame_MinLength f = Inr (1 + 4 + 8 + 4)"

definition ParseRstStreamFrame :: "VersionNumber \<Rightarrow> RstStreamFrame parser" where
  "ParseRstStreamFrame version =
     pbind readByte (\<lambda>_.
     pbind (ReadUint32 (GetByteOrder version)) (\<lambda>sid.
     pbind (ReadUint64 (GetByteOrder version)) (\<lambda>byteOffset.
     pbind (ReadUint32 (GetByteOrder version)) (\<lambda>errorCode.
     pret \<lparr> rst_StreamID = sid, rst_ErrorCode = errorCode, rst_ByteOffset = byteOffset \<rparr>))))"

interpretation rst: wire_frame "\<lambda>_. True" "RstStreamFrame_Write v" "ParseRstStreamFrame v"
    RstStreamFrame_MinLength "\<lambda>f. f" for v
  by unfold_locales
    (auto simp: RstStreamFrame_Write_def ParseRstStreamFrame_def RstStreamFrame_MinLength_def
      frame_simps)

subsection \<open>\<open>blocked_frame.go\<close>\<close>

record BlockedFrame =
  blocked_StreamID :: StreamID

definition BlockedFrame_Write :: "VersionNumber \<Rightarrow> BlockedFrame \<Rightarrow> writer" where
  "BlockedFrame_Write version f = wseq
     [wbyte 0x05, WriteUint32 (GetByteOrder version) (blocked_StreamID f)]"

definition BlockedFrame_MinLength :: "BlockedFrame \<Rightarrow> go_error + ByteCount" where
  "BlockedFrame_MinLength f = Inr (1 + 4)"

definition ParseBlockedFrame :: "VersionNumber \<Rightarrow> BlockedFrame parser" where
  "ParseBlockedFrame version =
     pbind readByte (\<lambda>_.
     pbind (ReadUint32 (GetByteOrder version)) (\<lambda>sid.
     pret \<lparr> blocked_StreamID = sid \<rparr>))"

interpretation blocked: wire_frame "\<lambda>_. True" "BlockedFrame_Write v" "ParseBlockedFrame v"
    BlockedFrame_MinLength "\<lambda>f. f" for v
  by unfold_locales
    (auto simp: BlockedFrame_Write_def ParseBlockedFrame_def BlockedFrame_MinLength_def frame_simps)

subsection \<open>\<open>window_update_frame.go\<close>\<close>

record WindowUpdateFrame =
  wu_StreamID :: StreamID
  wu_ByteOffset :: ByteCount

definition WindowUpdateFrame_Write :: "VersionNumber \<Rightarrow> WindowUpdateFrame \<Rightarrow> writer" where
  "WindowUpdateFrame_Write version f = wseq
     [wbyte 0x4,
      WriteUint32 (GetByteOrder version) (wu_StreamID f),
      WriteUint64 (GetByteOrder version) (wu_ByteOffset f)]"

definition WindowUpdateFrame_MinLength :: "WindowUpdateFrame \<Rightarrow> go_error + ByteCount" where
  "WindowUpdateFrame_MinLength f = Inr (1 + 4 + 8)"

definition ParseWindowUpdateFrame :: "VersionNumber \<Rightarrow> WindowUpdateFrame parser" where
  "ParseWindowUpdateFrame version =
     pbind readByte (\<lambda>_.
     pbind (ReadUint32 (GetByteOrder version)) (\<lambda>sid.
     pbind (ReadUint64 (GetByteOrder version)) (\<lambda>byteOffset.
     pret \<lparr> wu_StreamID = sid, wu_ByteOffset = byteOffset \<rparr>)))"

interpretation wu: wire_frame "\<lambda>_. True" "WindowUpdateFrame_Write v" "ParseWindowUpdateFrame v"
    WindowUpdateFrame_MinLength "\<lambda>f. f" for v
  by unfold_locales
    (auto simp: WindowUpdateFrame_Write_def ParseWindowUpdateFrame_def
      WindowUpdateFrame_MinLength_def frame_simps)

subsection \<open>\<open>ping_frame.go\<close>\<close>

datatype PingFrame = PingFrame

definition ParsePingFrame :: "VersionNumber \<Rightarrow> PingFrame parser" where
  "ParsePingFrame version = pbind readByte (\<lambda>_. pret PingFrame)"

definition PingFrame_Write :: "VersionNumber \<Rightarrow> PingFrame \<Rightarrow> writer" where
  "PingFrame_Write version f = wbyte 0x07"

definition PingFrame_MinLength :: "PingFrame \<Rightarrow> go_error + ByteCount" where
  "PingFrame_MinLength f = Inr 1"

interpretation ping: wire_frame "\<lambda>_. True" "PingFrame_Write v" "ParsePingFrame v"
    PingFrame_MinLength "\<lambda>f. f" for v
proof (unfold_locales, goal_cases)
  case (2 f bs r)
  then show ?case by (cases f) (auto simp: PingFrame_Write_def ParsePingFrame_def frame_simps)
qed (auto simp: PingFrame_Write_def PingFrame_MinLength_def)

subsection \<open>\<open>goaway_frame.go\<close>\<close>

text \<open>A Go string is a sequence of bytes; \<open>qerr.ErrorCode\<close> is a \<open>uint32\<close>.\<close>

record GoawayFrame =
  goaway_ErrorCode :: u32
  goaway_LastGoodStream :: StreamID
  goaway_ReasonPhrase :: "u8 list"

definition ParseGoawayFrame :: "VersionNumber \<Rightarrow> GoawayFrame parser" where
  "ParseGoawayFrame version =
     pbind readByte (\<lambda>_.
     pbind (ReadUint32 (GetByteOrder version)) (\<lambda>errorCode.
     pbind (ReadUint32 (GetByteOrder version)) (\<lambda>lastGoodStream.
     pbind (ReadUint16 (GetByteOrder version)) (\<lambda>reasonPhraseLen.
     pbind (pguard (\<not> reasonPhraseLen > ucast MaxPacketSize) (QErr ''InvalidGoawayData'')) (\<lambda>_.
     pbind (readFull (unat reasonPhraseLen)) (\<lambda>reasonPhrase.
     pret \<lparr> goaway_ErrorCode = errorCode, goaway_LastGoodStream = lastGoodStream,
            goaway_ReasonPhrase = reasonPhrase \<rparr>))))))"

definition GoawayFrame_Write :: "VersionNumber \<Rightarrow> GoawayFrame \<Rightarrow> writer" where
  "GoawayFrame_Write version f = wseq
     [wbyte 0x03,
      WriteUint32 (GetByteOrder version) (goaway_ErrorCode f),
      WriteUint32 (GetByteOrder version) (goaway_LastGoodStream f),
      WriteUint16 (GetByteOrder version) (of_nat (length (goaway_ReasonPhrase f))),
      wbytes (goaway_ReasonPhrase f)]"

definition GoawayFrame_MinLength :: "GoawayFrame \<Rightarrow> go_error + ByteCount" where
  "GoawayFrame_MinLength f = Inr (1 + 4 + 4 + 2 + of_nat (length (goaway_ReasonPhrase f)))"

lemma unat_ucast_MaxPacketSize: "unat (ucast MaxPacketSize :: u16) = 1350"
  by (simp add: MaxPacketSize_def)

lemma reason_len:
  assumes "n \<le> 1350"
  shows "\<not> (ucast MaxPacketSize :: u16) < of_nat n" "unat (of_nat n :: u16) = n"
  using assms unat_ucast_MaxPacketSize by (auto simp: word_less_nat_alt unat_of_nat)

text \<open>The reader accepts reasons of at most \<open>MaxPacketSize\<close> bytes.\<close>

interpretation goaway: wire_frame "\<lambda>f. length (goaway_ReasonPhrase f) \<le> 1350"
    "GoawayFrame_Write v" "ParseGoawayFrame v" GoawayFrame_MinLength "\<lambda>f. f" for v
  by unfold_locales
    (auto simp: GoawayFrame_Write_def ParseGoawayFrame_def GoawayFrame_MinLength_def frame_simps
      reason_len readFull_append unat_word_ariths unat_of_nat)

subsection \<open>\<open>connection_close_frame.go\<close>\<close>

record ConnectionCloseFrame =
  cc_ErrorCode :: u32
  cc_ReasonPhrase :: "u8 list"

definition ParseConnectionCloseFrame :: "VersionNumber \<Rightarrow> ConnectionCloseFrame parser" where
  "ParseConnectionCloseFrame version =
     pbind readByte (\<lambda>_.
     pbind (ReadUint32 (GetByteOrder version)) (\<lambda>errorCode.
     pbind (ReadUint16 (GetByteOrder version)) (\<lambda>reasonPhraseLen.
     pbind (pguard (\<not> reasonPhraseLen > ucast MaxPacketSize) (QErr ''InvalidConnectionCloseData'')) (\<lambda>_.
     pbind (readFull (unat reasonPhraseLen)) (\<lambda>reasonPhrase.
     pret \<lparr> cc_ErrorCode = errorCode, cc_ReasonPhrase = reasonPhrase \<rparr>)))))"

definition ConnectionCloseFrame_MinLength :: "ConnectionCloseFrame \<Rightarrow> go_error + ByteCount" where
  "ConnectionCloseFrame_MinLength f = Inr (1 + 4 + 2 + of_nat (length (cc_ReasonPhrase f)))"

definition ConnectionCloseFrame_Write :: "VersionNumber \<Rightarrow> ConnectionCloseFrame \<Rightarrow> writer" where
  "ConnectionCloseFrame_Write version f = wseq
     [wbyte 0x02,
      WriteUint32 (GetByteOrder version) (cc_ErrorCode f),
      wguard (\<not> length (cc_ReasonPhrase f) > 65535)
        (GoErr ''ConnectionFrame: ReasonPhrase too long''),
      WriteUint16 (GetByteOrder version) (of_nat (length (cc_ReasonPhrase f))),
      wbytes (cc_ReasonPhrase f)]"

interpretation cc: wire_frame "\<lambda>f. length (cc_ReasonPhrase f) \<le> 1350"
    "ConnectionCloseFrame_Write v" "ParseConnectionCloseFrame v" ConnectionCloseFrame_MinLength
    "\<lambda>f. f" for v
  by unfold_locales
    (auto simp: ConnectionCloseFrame_Write_def ParseConnectionCloseFrame_def
      ConnectionCloseFrame_MinLength_def frame_simps reason_len readFull_append
      unat_word_ariths unat_of_nat)

subsection \<open>\<open>stop_waiting_frame.go\<close>\<close>

record StopWaitingFrame =
  sw_LeastUnacked :: PacketNumber
  sw_PacketNumberLen :: PacketNumberLen
  sw_PacketNumber :: PacketNumber

definition StopWaitingFrame_Write :: "VersionNumber \<Rightarrow> StopWaitingFrame \<Rightarrow> writer" where
  "StopWaitingFrame_Write version f =
     (if sw_PacketNumber f = 0 then Inl (GoErr ''errPacketNumberNotSet'')
      else if sw_LeastUnacked f > sw_PacketNumber f
      then Inl (GoErr ''errLeastUnackedHigherThanPacketNumber'')
      else let leastUnackedDelta = sw_PacketNumber f - sw_LeastUnacked f
        in wseq
          [wbyte 0x06,
           if sw_PacketNumberLen f = PacketNumberLen1 then wbyte (ucast leastUnackedDelta)
           else if sw_PacketNumberLen f = PacketNumberLen2
           then WriteUint16 (GetByteOrder version) (ucast leastUnackedDelta)
           else if sw_PacketNumberLen f = PacketNumberLen4
           then WriteUint32 (GetByteOrder version) (ucast leastUnackedDelta)
           else if sw_PacketNumberLen f = PacketNumberLen6
           then WriteUint48 (GetByteOrder version) (leastUnackedDelta AND (push_bit 48 1 - 1))
           else Inl (GoErr ''errPacketNumberLenNotSet'')])"

definition StopWaitingFrame_MinLength :: "StopWaitingFrame \<Rightarrow> go_error + ByteCount" where
  "StopWaitingFrame_MinLength f =
     (if sw_PacketNumberLen f = 0 then Inl (GoErr ''errPacketNumberLenNotSet'')
      else Inr (1 + ucast (sw_PacketNumberLen f)))"

definition ParseStopWaitingFrame ::
    "PacketNumber \<Rightarrow> PacketNumberLen \<Rightarrow> VersionNumber \<Rightarrow> StopWaitingFrame parser" where
  "ParseStopWaitingFrame packetNumber packetNumberLen version =
     pbind readByte (\<lambda>_.
     pbind (ReadUintN (GetByteOrder version) packetNumberLen) (\<lambda>leastUnackedDelta.
     pbind (pguard (\<not> leastUnackedDelta \<ge> packetNumber) (QErr ''InvalidStopWaitingData'')) (\<lambda>_.
     pret \<lparr> sw_LeastUnacked = packetNumber - leastUnackedDelta,
            sw_PacketNumberLen = 0, sw_PacketNumber = 0 \<rparr>)))"

text \<open>
  A STOP_WAITING frame is understood by a receiver that knows the number and the number length of the
  packet that carries it, when the distance fits into that length.
\<close>

definition StopWaitingFrame_wf :: "PacketNumber \<Rightarrow> PacketNumberLen \<Rightarrow> StopWaitingFrame \<Rightarrow> bool" where
  "StopWaitingFrame_wf pn len f \<longleftrightarrow>
     sw_PacketNumber f = pn \<and> sw_PacketNumberLen f = len \<and>
     len \<in> {PacketNumberLen1, PacketNumberLen2, PacketNumberLen4, PacketNumberLen6} \<and>
     0 < sw_LeastUnacked f \<and> sw_LeastUnacked f \<le> pn \<and>
     pn - sw_LeastUnacked f < 2 ^ (8 * unat len)"

text \<open>Writing the low bytes of a packet number in the chosen length, and reading them back.\<close>

definition pn_bytes :: "ByteOrder \<Rightarrow> PacketNumberLen \<Rightarrow> u64 \<Rightarrow> u8 list" where
  "pn_bytes bo len x = enc_bytes bo (unat len) x"

lemma mask48: "x AND (push_bit 48 1 - 1) = take_bit 48 (x :: u64)"
  by (simp add: take_bit_eq_mask mask_eq_exp_minus_1)

lemmas masks48 = mask48 mask48 [simplified]

lemma enc_ucasts:
  "enc_bytes bo 2 (ucast (ucast (x::u64) :: u16)) = enc_bytes bo 2 x"
  "enc_bytes bo 4 (ucast (ucast (x::u64) :: u32)) = enc_bytes bo 4 x"
  "[ucast x] = enc_bytes bo 1 x"
  using bo.enc_take_bit [of 2 bo x] bo.enc_take_bit [of 4 bo x] bo.enc_one [of bo x]
  by (simp_all add: ucast_ucast_take_bit One_nat_def)

lemma write_pn_bytes:
  "(if len = PacketNumberLen1 then wbyte (ucast x)
    else if len = PacketNumberLen2 then WriteUint16 bo (ucast x)
    else if len = PacketNumberLen4 then WriteUint32 bo (ucast x)
    else if len = PacketNumberLen6 then WriteUint48 bo (x AND (push_bit 48 1 - 1))
    else Inl e) =
   (if len \<in> {PacketNumberLen1, PacketNumberLen2, PacketNumberLen4, PacketNumberLen6}
    then Inr (pn_bytes bo len x) else Inl e)"
proof -
  have "WriteUint48 bo (take_bit 48 x) = Inr (enc_bytes bo 6 (take_bit 48 x))"
    by (rule bo.write48_eq) (rule take_bit_lt, simp)
  then have "WriteUint48 bo (take_bit 48 x) = Inr (enc_bytes bo 6 x)"
    using bo.enc_take_bit [of 6 bo x] by simp
  then show ?thesis
    by (auto simp: pn_bytes_def wbyte_def wbytes_def bo.write16_eq bo.write32_eq masks48
        enc_ucasts(1,2) enc_ucasts(3) [of x bo] PacketNumberLen_defs)
qed

lemma read_pn_bytes:
  "unat len \<le> 8 \<Longrightarrow> ReadUintN bo len (pn_bytes bo len x @ r) = Inr (take_bit (8 * unat len) x, r)"
  by (simp add: pn_bytes_def bo.readN_enc)

lemma StopWaitingFrame_Write_eq:
  assumes "StopWaitingFrame_wf pn len f"
  shows "StopWaitingFrame_Write v f =
    Inr (0x06 # pn_bytes (GetByteOrder v) len (pn - sw_LeastUnacked f))"
proof -
  have m: "sw_PacketNumberLen f \<in> {PacketNumberLen1, PacketNumberLen2, PacketNumberLen4, PacketNumberLen6}"
    and "sw_PacketNumber f \<noteq> 0" "\<not> sw_PacketNumber f < sw_LeastUnacked f"
    "sw_PacketNumberLen f = len" "sw_PacketNumber f = pn"
    using assms by (auto simp: StopWaitingFrame_wf_def)
  then show ?thesis
    unfolding StopWaitingFrame_Write_def Let_def write_pn_bytes if_P [OF m]
    by (simp add: wbyte_def wbytes_def)
qed

lemma ParseStopWaitingFrame_written:
  assumes "StopWaitingFrame_wf pn len f"
  shows "ParseStopWaitingFrame pn len v
    (t # pn_bytes (GetByteOrder v) len (pn - sw_LeastUnacked f) @ r) =
    Inr (f\<lparr>sw_PacketNumberLen := 0, sw_PacketNumber := 0\<rparr>, r)"
proof -
  define d where "d = pn - sw_LeastUnacked f"
  have len: "unat len \<le> 6" using assms by (auto simp: StopWaitingFrame_wf_def)
  have wf: "0 < sw_LeastUnacked f" "sw_LeastUnacked f \<le> pn" "d < 2 ^ (8 * unat len)"
    using assms by (auto simp: StopWaitingFrame_wf_def d_def)
  have tb: "take_bit (8 * unat len) d = d"
    using wf(3) len by (intro take_bit_small) simp_all
  have "d < pn"
    using wf(1,2) by (simp add: d_def word_less_nat_alt unat_sub word_le_nat_alt)
  then have lt: "\<not> pn \<le> d" by simp
  have "pn - d = sw_LeastUnacked f" by (simp add: d_def)
  then show ?thesis
    using len tb lt
    by (simp add: ParseStopWaitingFrame_def frame_simps read_pn_bytes d_def [symmetric])
qed

interpretation sw: wire_frame "StopWaitingFrame_wf pn len" "StopWaitingFrame_Write v"
    "ParseStopWaitingFrame pn len v" StopWaitingFrame_MinLength
    "\<lambda>f. f\<lparr>sw_PacketNumberLen := 0, sw_PacketNumber := 0\<rparr>" for v pn len
proof (unfold_locales, goal_cases)
  case (1 f) then show ?case by (simp add: StopWaitingFrame_Write_eq)
next
  case (2 f bs r)
  then show ?case by (auto simp: StopWaitingFrame_Write_eq ParseStopWaitingFrame_written)
next
  case (3 f bs)
  then have "bs = 0x06 # pn_bytes (GetByteOrder v) len (pn - sw_LeastUnacked f)"
    by (simp add: StopWaitingFrame_Write_eq)
  moreover have "sw_PacketNumberLen f = len" "len \<in> {1, 2, 4, 6}"
    using 3(1) by (auto simp: StopWaitingFrame_wf_def PacketNumberLen_defs)
  ultimately show ?case
    by (auto simp: StopWaitingFrame_MinLength_def pn_bytes_def bo.length_enc)
qed

subsection \<open>\<open>add_address_frame.go\<close>\<close>

text \<open>
  A \<open>net.IP\<close> is a byte slice; the functions of package \<open>net\<close> the code calls are those of the Go
  standard library. Of a \<open>net.UDPAddr\<close> the frame uses the address and the port, an \<open>int\<close>.
\<close>

definition net_IPv4 :: "u8 \<Rightarrow> u8 \<Rightarrow> u8 \<Rightarrow> u8 \<Rightarrow> u8 list" where
  "net_IPv4 a b c d = replicate 10 0 @ [0xff, 0xff, a, b, c, d]"

definition To4 :: "u8 list \<Rightarrow> u8 list option" where
  "To4 ip =
     (if length ip = 4 then Some ip
      else if length ip = 16 \<and> take 12 ip = replicate 10 0 @ [0xff, 0xff] then Some (drop 12 ip)
      else None)"

definition To16 :: "u8 list \<Rightarrow> u8 list option" where
  "To16 ip =
     (if length ip = 4 then Some (net_IPv4 (ip ! 0) (ip ! 1) (ip ! 2) (ip ! 3))
      else if length ip = 16 then Some ip else None)"

record AddAddressFrame =
  aa_IPVersion :: u8
  aa_IP :: "u8 list"
  aa_Port :: int

definition AddAddressFrame_Write :: "VersionNumber \<Rightarrow> AddAddressFrame \<Rightarrow> writer" where
  "AddAddressFrame_Write version f = wseq
     [wbyte 0x10,
      wbyte (aa_IPVersion f),
      if aa_IPVersion f = 4 then
        (case To4 (aa_IP f) of
           None \<Rightarrow> Inl (GoErr ''errInconsistentAddrIPVersion'')
         | Some ip \<Rightarrow> wbytes (map (\<lambda>i. ip ! i) [0..<4]))
      else if aa_IPVersion f = 6 then
        (case To16 (aa_IP f) of
           None \<Rightarrow> Inl (GoErr ''errInconsistentAddrIPVersion'')
         | Some ip \<Rightarrow> wbytes (map (\<lambda>i. ip ! i) [0..<16]))
      else Inl (GoErr ''ErrUnknownIPVersion''),
      WriteUint16 (GetByteOrder version) (word_of_int (aa_Port f))]"

text \<open>\<open>for i := 0; i < net.IPv6len; i++\<close>: reading single bytes, the first error ends the loop.\<close>

fun readBytes :: "nat \<Rightarrow> u8 list parser" where
  "readBytes 0 = pret []"
| "readBytes (Suc n) = pbind readByte (\<lambda>b. pbind (readBytes n) (\<lambda>bs. pret (b # bs)))"

definition ParseAddAddressFrame :: "VersionNumber \<Rightarrow> AddAddressFrame parser" where
  "ParseAddAddressFrame version =
     pbind readByte (\<lambda>_.
     pbind readByte (\<lambda>ipv.
     pbind (if ipv = 4
            then pbind readByte (\<lambda>a. pbind readByte (\<lambda>b. pbind readByte (\<lambda>c. pbind readByte (\<lambda>d.
                 pret (net_IPv4 a b c d)))))
            else if ipv = 6 then readBytes 16
            else pfail (GoErr ''ErrUnknownIPVersion'')) (\<lambda>ip.
     pbind (ReadUint16 (GetByteOrder version)) (\<lambda>port.
     pret \<lparr> aa_IPVersion = ipv, aa_IP = ip, aa_Port = uint port \<rparr>))))"

definition AddAddressFrame_MinLength :: "AddAddressFrame \<Rightarrow> go_error + ByteCount" where
  "AddAddressFrame_MinLength f =
     (if aa_IPVersion f = 4 then Inr (1 + 1 + 4 + 2)
      else if aa_IPVersion f = 6 then Inr (1 + 1 + 16 + 2)
      else Inl (GoErr ''ErrUnknownIPVersion''))"

definition AddAddressFrame_wf :: "AddAddressFrame \<Rightarrow> bool" where
  "AddAddressFrame_wf f \<longleftrightarrow> 0 \<le> aa_Port f \<and> aa_Port f < 65536 \<and>
     (aa_IPVersion f = 4 \<and> To4 (aa_IP f) \<noteq> None \<or> aa_IPVersion f = 6 \<and> length (aa_IP f) \<in> {4, 16})"

text \<open>The receiver always holds the address in its sixteen-byte form.\<close>

definition AddAddressFrame_seen :: "AddAddressFrame \<Rightarrow> AddAddressFrame" where
  "AddAddressFrame_seen f = f\<lparr>aa_IP := the (To16 (aa_IP f))\<rparr>"

lemma readBytes_append: "readBytes (length bs) (bs @ r) = Inr (bs, r)"
  by (induction bs) (simp_all add: pbind_def pret_def)

lemma map_nth_all: "length xs = n \<Longrightarrow> map (\<lambda>i. xs ! i) [0..<n] = xs"
  using map_nth [of xs] by simp

lemma length_four: "length xs = 4 \<Longrightarrow> \<exists>a b c d. xs = [a, b, c, d]"
  by (auto simp: length_Suc_conv eval_nat_numeral)

lemma To4_To16:
  assumes "To4 ip = Some ip4"
  obtains a b c d where "ip4 = [a, b, c, d]" "To16 ip = Some (net_IPv4 a b c d)"
proof (cases "length ip = 4")
  case True
  then obtain a b c d where "ip = [a, b, c, d]" using length_four by blast
  then show thesis using that [of a b c d] assms by (simp add: To4_def To16_def)
next
  case False
  then have l: "length ip = 16" "take 12 ip = replicate 10 0 @ [0xff, 0xff]" "ip4 = drop 12 ip"
    using assms by (auto simp: To4_def split: if_splits)
  then have "length (drop 12 ip) = 4" by simp
  then obtain a b c d where d: "drop 12 ip = [a, b, c, d]" using length_four by blast
  then have "ip = net_IPv4 a b c d"
    using append_take_drop_id [of 12 ip] l(2) by (simp add: net_IPv4_def)
  then show thesis using that [of a b c d] d l by (simp add: To16_def)
qed

text \<open>The bytes of the address on the wire.\<close>

definition aa_wire_IP :: "AddAddressFrame \<Rightarrow> u8 list" where
  "aa_wire_IP f = the (if aa_IPVersion f = 4 then To4 (aa_IP f) else To16 (aa_IP f))"

lemma length_To16: "length ip \<in> {4, 16} \<Longrightarrow> \<exists>ip'. To16 ip = Some ip' \<and> length ip' = 16"
  by (auto simp: To16_def net_IPv4_def)

lemma length_To4: "To4 ip = Some ip4 \<Longrightarrow> length ip4 = 4"
  by (auto simp: To4_def split: if_splits)

lemma AddAddressFrame_Write_eq:
  assumes "AddAddressFrame_wf f"
  shows "AddAddressFrame_Write v f = Inr (0x10 # aa_IPVersion f # aa_wire_IP f @
      enc_bytes (GetByteOrder v) 2 (ucast (word_of_int (aa_Port f) :: u16)))"
    "length (aa_wire_IP f) = (if aa_IPVersion f = 4 then 4 else 16)"
  using assms length_To16 [of "aa_IP f"] length_To4 [of "aa_IP f"]
  by (auto simp: AddAddressFrame_wf_def AddAddressFrame_Write_def aa_wire_IP_def frame_simps
      map_nth_all simp del: upt_rec_numeral)

lemma ParseAddAddressFrame_written:
  assumes "AddAddressFrame_wf f"
  shows "ParseAddAddressFrame v (0x10 # aa_IPVersion f # aa_wire_IP f @
      enc_bytes (GetByteOrder v) 2 (ucast (word_of_int (aa_Port f) :: u16)) @ r) =
    Inr (AddAddressFrame_seen f, r)"
proof -
  have port: "uint (word_of_int (aa_Port f) :: u16) = aa_Port f"
    using assms by (simp add: AddAddressFrame_wf_def uint_word_of_int)
  show ?thesis
  proof (cases "aa_IPVersion f = 4")
    case True
    then obtain ip4 where "To4 (aa_IP f) = Some ip4" using assms by (auto simp: AddAddressFrame_wf_def)
    moreover from this obtain a b c d where "ip4 = [a, b, c, d]"
      "To16 (aa_IP f) = Some (net_IPv4 a b c d)" by (rule To4_To16)
    ultimately show ?thesis
      using True port by (simp add: ParseAddAddressFrame_def aa_wire_IP_def frame_simps
          AddAddressFrame_seen_def)
  next
    case False
    then have v6: "aa_IPVersion f = 6" "length (aa_IP f) \<in> {4, 16}"
      using assms by (auto simp: AddAddressFrame_wf_def)
    then obtain ip where ip: "To16 (aa_IP f) = Some ip" "length ip = 16" using length_To16 by blast
    have "readBytes 16 (ip @ s) = Inr (ip, s)" for s using readBytes_append [of ip s] ip by simp
    with v6 ip port show ?thesis
      by (simp add: ParseAddAddressFrame_def aa_wire_IP_def frame_simps AddAddressFrame_seen_def)
  qed
qed

interpretation aa: wire_frame AddAddressFrame_wf "AddAddressFrame_Write v" "ParseAddAddressFrame v"
    AddAddressFrame_MinLength AddAddressFrame_seen for v
proof (unfold_locales, goal_cases)
  case (1 f) then show ?case by (simp add: AddAddressFrame_Write_eq)
next
  case (2 f bs r)
  then show ?case by (auto simp: AddAddressFrame_Write_eq ParseAddAddressFrame_written)
next
  case (3 f bs)
  then show ?case
    using AddAddressFrame_Write_eq(1) [OF 3(1), of v] AddAddressFrame_Write_eq(2) [OF 3(1)]
    by (auto simp: AddAddressFrame_MinLength_def AddAddressFrame_wf_def bo.length_enc)
qed

subsection \<open>\<open>paths_frame.go\<close>\<close>

record PathsFrame =
  pf_MaxNumPaths :: u8
  pf_NumPaths :: u8
  pf_PathIDs :: "PathID list"
  pf_RemoteRTTs :: "Duration list"

definition PathsFrame_Write :: "VersionNumber \<Rightarrow> PathsFrame \<Rightarrow> writer" where
  "PathsFrame_Write version f = wseq
     ([wbyte 0x12, wbyte (pf_MaxNumPaths f), wbyte (pf_NumPaths f),
       wguard (\<not> unat (pf_NumPaths f) \<noteq> length (pf_PathIDs f)) (GoErr ''ErrPathsNumber''),
       wguard (\<not> length (pf_PathIDs f) \<noteq> length (pf_RemoteRTTs f)) (GoErr ''ErrMissingRTT'')] @
      map (\<lambda>(pathID, rtt). wseq
             [wbyte pathID,
              writeUfloat16 (GetByteOrder version) (word_of_int (go_div rtt Microsecond))])
        (zip (pf_PathIDs f) (pf_RemoteRTTs f)))"

text \<open>The loop of \<open>ParsePathsFrame\<close>, for the paths that are left.\<close>

fun ParsePaths_loop :: "VersionNumber \<Rightarrow> nat \<Rightarrow> PathsFrame \<Rightarrow> PathsFrame parser" where
  "ParsePaths_loop version 0 frame = pret frame"
| "ParsePaths_loop version (Suc n) frame =
     pbind readByte (\<lambda>pathID.
     pbind (readUfloat16 (GetByteOrder version)) (\<lambda>remoteRTT.
     ParsePaths_loop version n
       (frame\<lparr>pf_PathIDs := pf_PathIDs frame @ [pathID],
              pf_RemoteRTTs := pf_RemoteRTTs frame @ [wrap64 (sint remoteRTT * Microsecond)]\<rparr>)))"

definition ParsePathsFrame :: "VersionNumber \<Rightarrow> PathsFrame parser" where
  "ParsePathsFrame version =
     pbind readByte (\<lambda>_.
     pbind readByte (\<lambda>maxNum.
     pbind readByte (\<lambda>num.
     pbind (pguard (\<not> num > maxNum) (GoErr ''ErrTooManyPaths'')) (\<lambda>_.
     ParsePaths_loop version (unat num)
       \<lparr> pf_MaxNumPaths = maxNum, pf_NumPaths = num, pf_PathIDs = [], pf_RemoteRTTs = [] \<rparr>))))"

text \<open>The length is computed in \<open>uint8\<close>.\<close>

definition PathsFrame_MinLength :: "PathsFrame \<Rightarrow> go_error + ByteCount" where
  "PathsFrame_MinLength f = Inr (ucast (1 + 1 + 1 + (3 * pf_NumPaths f)))"

text \<open>The value of a round-trip time after its trip through microseconds and the 16-bit float.\<close>

definition rtt_seen :: "Duration \<Rightarrow> Duration" where
  "rtt_seen d =
     wrap64 (sint (ufloat16_decode (ufloat16_encode (word_of_int (go_div d Microsecond)))) * Microsecond)"

definition PathsFrame_wf :: "PathsFrame \<Rightarrow> bool" where
  "PathsFrame_wf f \<longleftrightarrow> length (pf_PathIDs f) = unat (pf_NumPaths f) \<and>
     length (pf_RemoteRTTs f) = unat (pf_NumPaths f) \<and> pf_NumPaths f \<le> pf_MaxNumPaths f \<and>
     pf_NumPaths f < 85"

definition PathsFrame_seen :: "PathsFrame \<Rightarrow> PathsFrame" where
  "PathsFrame_seen f = f\<lparr>pf_RemoteRTTs := map rtt_seen (pf_RemoteRTTs f)\<rparr>"

text \<open>The bytes of one entry of the frame.\<close>

definition path_entry :: "VersionNumber \<Rightarrow> PathID \<times> Duration \<Rightarrow> u8 list" where
  "path_entry v = (\<lambda>(pathID, rtt). pathID # enc_bytes (GetByteOrder v) 2
     (ucast (ufloat16_encode (word_of_int (go_div rtt Microsecond)))))"

lemma length_path_entry [simp]: "length (path_entry v p) = 3"
  by (cases p) (simp add: path_entry_def bo.length_enc)

lemma ParsePaths_loop_written:
  assumes "length ids = length rtts"
  shows "ParsePaths_loop v (length ids) frame (concat (map (path_entry v) (zip ids rtts)) @ r) =
    Inr (frame\<lparr>pf_PathIDs := pf_PathIDs frame @ ids,
               pf_RemoteRTTs := pf_RemoteRTTs frame @ map rtt_seen rtts\<rparr>, r)"
  using assms
proof (induction ids rtts arbitrary: frame rule: list_induct2)
  case Nil
  then show ?case by (simp add: pret_def)
next
  case (Cons i ids d rtts)
  then show ?case
    by (simp add: path_entry_def frame_simps readUfloat16_def rtt_seen_def)
qed

lemma PathsFrame_Write_bytes:
  assumes "length (pf_PathIDs f) = unat (pf_NumPaths f)" "length (pf_RemoteRTTs f) = unat (pf_NumPaths f)"
  shows "PathsFrame_Write v f = Inr (0x12 # pf_MaxNumPaths f # pf_NumPaths f #
    concat (map (path_entry v) (zip (pf_PathIDs f) (pf_RemoteRTTs f))))"
proof -
  have e: "(\<lambda>(pathID, rtt). wseq [wbyte pathID,
      writeUfloat16 (GetByteOrder v) (word_of_int (go_div rtt Microsecond))]) = (\<lambda>p. Inr (path_entry v p))"
    by (auto simp: path_entry_def writeUfloat16_def frame_simps)
  have "wseq (map (\<lambda>p. Inr (path_entry v p)) ps) = Inr (concat (map (path_entry v) ps))" for ps
    using wseq_map_Inr [of "map (path_entry v) ps"] by (simp add: comp_def)
  then show ?thesis
    using assms unfolding PathsFrame_Write_def e
    by (simp add: frame_simps)
qed

lemma PathsFrame_Write_eq:
  assumes "PathsFrame_wf f"
  shows "PathsFrame_Write v f = Inr (0x12 # pf_MaxNumPaths f # pf_NumPaths f #
    concat (map (path_entry v) (zip (pf_PathIDs f) (pf_RemoteRTTs f))))"
  using assms by (intro PathsFrame_Write_bytes) (auto simp: PathsFrame_wf_def)

interpretation pf: wire_frame PathsFrame_wf "PathsFrame_Write v" "ParsePathsFrame v"
    PathsFrame_MinLength PathsFrame_seen for v
proof (unfold_locales, goal_cases)
  case (1 f) then show ?case by (simp add: PathsFrame_Write_eq)
next
  case (2 f bs r)
  then have wf: "length (pf_PathIDs f) = unat (pf_NumPaths f)" "length (pf_PathIDs f) = length (pf_RemoteRTTs f)"
    "\<not> pf_MaxNumPaths f < pf_NumPaths f" by (auto simp: PathsFrame_wf_def)
  have bs: "bs = 0x12 # pf_MaxNumPaths f # pf_NumPaths f #
    concat (map (path_entry v) (zip (pf_PathIDs f) (pf_RemoteRTTs f)))"
    using 2 by (simp add: PathsFrame_Write_eq)
  show ?case
    using wf ParsePaths_loop_written [OF wf(2), of v _ r]
    by (simp add: bs ParsePathsFrame_def frame_simps PathsFrame_seen_def)
next
  case (3 f bs)
  then have "length bs = 3 + 3 * unat (pf_NumPaths f)"
    by (auto simp: PathsFrame_Write_eq PathsFrame_wf_def length_concat comp_def sum_list_triv)
  moreover have "unat (pf_NumPaths f) < 85" using 3(1) by (simp add: PathsFrame_wf_def word_less_nat_alt)
  ultimately show ?case
    by (simp add: PathsFrame_MinLength_def unat_ucast_wide unat_word_ariths)
qed

subsection \<open>Every frame takes its type byte\<close>

lemma consumes_readUfloat16 [consumes_intros]: "consumes 0 (readUfloat16 bo)"
  unfolding readUfloat16_def by (intro consumes_intros)

lemma consumes_readBytes [consumes_intros]: "consumes 0 (readBytes n)"
  by (induction n) (auto intro!: consumes_intros)

lemma consumes_ParsePaths_loop [consumes_intros]: "consumes 0 (ParsePaths_loop v n f)"
  by (induction n arbitrary: f) (auto intro!: consumes_intros)

lemma consumes_small_frames:
  "consumes 1 (ParseRstStreamFrame v)" "consumes 1 (ParseBlockedFrame v)"
  "consumes 1 (ParseWindowUpdateFrame v)" "consumes 1 (ParsePingFrame v)"
  "consumes 1 (ParseGoawayFrame v)" "consumes 1 (ParseConnectionCloseFrame v)"
  "consumes 1 (ParseStopWaitingFrame pn len v)" "consumes 1 (ParseAddAddressFrame v)"
  "consumes 1 (ParsePathsFrame v)"
  unfolding ParseRstStreamFrame_def ParseBlockedFrame_def ParseWindowUpdateFrame_def
    ParsePingFrame_def ParseGoawayFrame_def ParseConnectionCloseFrame_def ParseStopWaitingFrame_def
    ParseAddAddressFrame_def ParsePathsFrame_def
  by (intro consumes_first consumes_readByte; intro consumes_intros)+

subsection \<open>Properties of the control frames\<close>

text \<open>
  RST_STREAM, BLOCKED and WINDOW_UPDATE frames round trip for all values of their fields, and
  their \<open>MinLength\<close> is the number of bytes written.
\<close>
theorem control_frames_roundtrip:
  "(\<exists>bs. RstStreamFrame_Write v f = Inr bs \<and> ParseRstStreamFrame v (bs @ r) = Inr (f, r) \<and>
      (\<exists>n. RstStreamFrame_MinLength f = Inr n \<and> unat n = length bs)) \<and>
   (\<exists>bs. BlockedFrame_Write v g = Inr bs \<and> ParseBlockedFrame v (bs @ r) = Inr (g, r) \<and>
      (\<exists>n. BlockedFrame_MinLength g = Inr n \<and> unat n = length bs)) \<and>
   (\<exists>bs. WindowUpdateFrame_Write v h = Inr bs \<and> ParseWindowUpdateFrame v (bs @ r) = Inr (h, r) \<and>
      (\<exists>n. WindowUpdateFrame_MinLength h = Inr n \<and> unat n = length bs))"
  by (intro conjI rst.roundtrip blocked.roundtrip wu.roundtrip TrueI)

text \<open>
  A STOP_WAITING frame tells the receiver the least unacknowledged packet number. When the frame
  carries the number and the number length of its packet, and the distance from the least
  unacknowledged packet fits into that length, the receiver, who knows both from the packet's
  header, recovers the number, and \<open>MinLength\<close> is the number of bytes written.
\<close>
theorem StopWaitingFrame_roundtrip:
  assumes "sw_PacketNumberLen f \<in> {PacketNumberLen1, PacketNumberLen2, PacketNumberLen4, PacketNumberLen6}"
    and "0 < sw_LeastUnacked f" "sw_LeastUnacked f \<le> sw_PacketNumber f"
    and "sw_PacketNumber f - sw_LeastUnacked f < 2 ^ (8 * unat (sw_PacketNumberLen f))"
  shows "\<exists>bs. StopWaitingFrame_Write v f = Inr bs \<and>
    ParseStopWaitingFrame (sw_PacketNumber f) (sw_PacketNumberLen f) v (bs @ r) =
      Inr (f\<lparr>sw_PacketNumberLen := 0, sw_PacketNumber := 0\<rparr>, r) \<and>
    (\<exists>n. StopWaitingFrame_MinLength f = Inr n \<and> unat n = length bs)"
  using assms by (intro sw.roundtrip) (simp add: StopWaitingFrame_wf_def)

lemma StopWaitingFrame_roundtrip_witness:
  "\<exists>bs. StopWaitingFrame_Write 39 \<lparr>sw_LeastUnacked = 900, sw_PacketNumberLen = 2, sw_PacketNumber = 5000\<rparr> = Inr bs \<and>
    ParseStopWaitingFrame 5000 2 39 (bs @ [7]) =
      Inr (\<lparr>sw_LeastUnacked = 900, sw_PacketNumberLen = 0, sw_PacketNumber = 0\<rparr>, [7])"
proof -
  let ?f = "\<lparr>sw_LeastUnacked = 900, sw_PacketNumberLen = 2, sw_PacketNumber = 5000\<rparr>"
  have "\<exists>bs. StopWaitingFrame_Write 39 ?f = Inr bs \<and>
    ParseStopWaitingFrame (sw_PacketNumber ?f) (sw_PacketNumberLen ?f) 39 (bs @ [7]) =
      Inr (?f\<lparr>sw_PacketNumberLen := 0, sw_PacketNumber := 0\<rparr>, [7]) \<and>
    (\<exists>n. StopWaitingFrame_MinLength ?f = Inr n \<and> unat n = length bs)"
    by (rule StopWaitingFrame_roundtrip) (simp_all add: PacketNumberLen_defs)
  then show ?thesis by auto
qed

text \<open>
  \<open>MinLength\<close> of a PATHS frame is computed in \<open>uint8\<close>. It is the number of bytes written for
  fewer than 85 paths and too small for every frame with 85 paths or more, although such frames
  are written and read back like the others.
\<close>
theorem PathsFrame_MinLength_wraps:
  assumes "length (pf_PathIDs f) = unat (pf_NumPaths f)" "length (pf_RemoteRTTs f) = unat (pf_NumPaths f)"
  shows "\<exists>bs n. PathsFrame_Write v f = Inr bs \<and> PathsFrame_MinLength f = Inr n \<and>
    (if pf_NumPaths f < 85 then unat n = length bs else unat n < length bs)"
proof -
  have w: "PathsFrame_Write v f = Inr (0x12 # pf_MaxNumPaths f # pf_NumPaths f #
      concat (map (path_entry v) (zip (pf_PathIDs f) (pf_RemoteRTTs f))))" (is "_ = Inr ?bs")
    using assms by (rule PathsFrame_Write_bytes)
  have "length ?bs = 3 + 3 * unat (pf_NumPaths f)"
    using assms by (simp add: length_concat comp_def sum_list_triv)
  moreover have "unat (ucast (1 + 1 + 1 + 3 * pf_NumPaths f) :: u64) = (3 + 3 * unat (pf_NumPaths f)) mod 256"
    by (simp add: unat_ucast_wide unat_word_ariths mod_simps)
  ultimately show ?thesis
    using w unat_bound [of "pf_NumPaths f"]
    by (auto simp: PathsFrame_MinLength_def word_less_nat_alt)
qed

lemma PathsFrame_MinLength_wraps_witness:
  "\<exists>bs n. PathsFrame_Write 39 \<lparr>pf_MaxNumPaths = 255, pf_NumPaths = 100, pf_PathIDs = replicate 100 1,
      pf_RemoteRTTs = replicate 100 1000\<rparr> = Inr bs \<and>
    PathsFrame_MinLength \<lparr>pf_MaxNumPaths = 255, pf_NumPaths = 100, pf_PathIDs = replicate 100 1,
      pf_RemoteRTTs = replicate 100 1000\<rparr> = Inr n \<and> unat n < length bs"
  using PathsFrame_MinLength_wraps [of "\<lparr>pf_MaxNumPaths = 255, pf_NumPaths = 100,
    pf_PathIDs = replicate 100 1, pf_RemoteRTTs = replicate 100 1000\<rparr>" 39] by simp

end
