(* ===== verification/Wire_Stream.thy ===== *)
theory Wire_Stream
  imports Wire_Basic
begin

section \<open>STREAM frames: \<open>internal/wire/stream_frame.go\<close>\<close>

text \<open>
  Stream frames carry the stream identifier and the offset in as few bytes as they need, whose
  numbers are packed into the type byte; this fork adds a loss count, a path identifier and a
  timestamp for the detection of shared bottlenecks. The lemmas show that the type byte loses
  nothing, and the round trip for frames with and without an explicit length.
\<close>

record StreamFrame =
  sf_StreamID :: StreamID
  sf_FinBit :: bool
  sf_DataLenPresent :: bool
  sf_Offset :: ByteCount
  sf_LossCount :: u8
  sf_PathID :: PathID
  sf_TimeStamp :: u64
  sf_Data :: "u8 list"

definition StreamFrame_DataLen :: "StreamFrame \<Rightarrow> ByteCount" where
  "StreamFrame_DataLen f = of_nat (length (sf_Data f))"

definition calculateStreamIDLength :: "StreamFrame \<Rightarrow> u8" where
  "calculateStreamIDLength f =
     (if sf_StreamID f < push_bit 8 1 then 1
      else if sf_StreamID f < push_bit 16 1 then 2
      else if sf_StreamID f < push_bit 24 1 then 3
      else 4)"

definition getOffsetLength :: "StreamFrame \<Rightarrow> ByteCount" where
  "getOffsetLength f =
     (if sf_Offset f = 0 then 0
      else if sf_Offset f < push_bit 16 1 then 2
      else if sf_Offset f < push_bit 24 1 then 3
      else if sf_Offset f < push_bit 32 1 then 4
      else if sf_Offset f < push_bit 40 1 then 5
      else if sf_Offset f < push_bit 48 1 then 6
      else if sf_Offset f < push_bit 56 1 then 7
      else 8)"

definition StreamFrame_MinLength :: "StreamFrame \<Rightarrow> go_error + ByteCount" where
  "StreamFrame_MinLength f =
     (let len = (1 + 1 + 1) + ucast (calculateStreamIDLength f) + getOffsetLength f + 8
      in Inr (if sf_DataLenPresent f then len + 2 else len))"

text \<open>The second half of \<open>ParseStreamFrame\<close>: the data length, the data and the checks, for a frame
  whose other fields have been read.\<close>

definition parse_stream_data :: "ByteOrder \<Rightarrow> StreamFrame \<Rightarrow> StreamFrame parser" where
  "parse_stream_data bo f =
     pbind (if sf_DataLenPresent f then ReadUint16 bo else pret 0) (\<lambda>dataLen0.
     pbind (pguard (\<not> dataLen0 > ucast MaxPacketSize) (QErr ''InvalidStreamData'')) (\<lambda>_.
     pbind readerLen (\<lambda>rlen.
     let dataLen = (if \<not> sf_DataLenPresent f then of_nat rlen else dataLen0) in
     pbind (if dataLen \<noteq> 0 then readFull (unat dataLen) else pret []) (\<lambda>data.
     let frame = f\<lparr>sf_Data := data\<rparr> in
     pbind (pguard (\<not> sf_Offset frame + StreamFrame_DataLen frame < sf_Offset frame)
              (QErr ''InvalidStreamData'')) (\<lambda>_.
     pbind (pguard (\<not> (\<not> sf_FinBit frame \<and> StreamFrame_DataLen frame = 0))
              (QErr ''EmptyStreamFrameNoFin'')) (\<lambda>_.
     pret frame))))))"

definition ParseStreamFrame :: "VersionNumber \<Rightarrow> StreamFrame parser" where
  "ParseStreamFrame version =
     pbind readByte (\<lambda>typeByte.
     let finBit = (typeByte AND 0x40) > 0;
         dataLenPresent = (typeByte AND 0x20) > 0;
         offsetLen0 = drop_bit 2 (typeByte AND 0x1c);
         offsetLen = (if offsetLen0 \<noteq> 0 then offsetLen0 + 1 else offsetLen0);
         streamIDLen = (typeByte AND 0x3) + 1 in
     pbind (ReadUintN (GetByteOrder version) streamIDLen) (\<lambda>sid.
     pbind (ReadUintN (GetByteOrder version) offsetLen) (\<lambda>offset.
     pbind readByte (\<lambda>losses.
     pbind readByte (\<lambda>pathid.
     pbind (ReadUint64 (GetByteOrder version)) (\<lambda>timestamp.
     parse_stream_data (GetByteOrder version)
       \<lparr> sf_StreamID = ucast sid, sf_FinBit = finBit, sf_DataLenPresent = dataLenPresent,
         sf_Offset = offset, sf_LossCount = losses, sf_PathID = pathid,
         sf_TimeStamp = timestamp, sf_Data = [] \<rparr>))))))"

definition StreamFrame_typeByte :: "StreamFrame \<Rightarrow> u8" where
  "StreamFrame_typeByte f =
     (let t0 = 0x80;
          t1 = (if sf_FinBit f then t0 XOR 0x40 else t0);
          t2 = (if sf_DataLenPresent f then t1 XOR 0x20 else t1);
          t3 = (if getOffsetLength f > 0 then t2 XOR push_bit 2 (ucast (getOffsetLength f) - 1)
                else t2)
      in t3 XOR (calculateStreamIDLength f - 1))"

definition StreamFrame_Write :: "VersionNumber \<Rightarrow> StreamFrame \<Rightarrow> writer" where
  "StreamFrame_Write version f =
     (if length (sf_Data f) = 0 \<and> \<not> sf_FinBit f
      then Inl (GoErr ''StreamFrame: attempting to write empty frame without FIN'')
      else
        let bo = GetByteOrder version;
            streamIDLen = calculateStreamIDLength f;
            offsetLength = getOffsetLength f
        in wseq
          [wbyte (StreamFrame_typeByte f),
           if streamIDLen = 1 then wbyte (ucast (sf_StreamID f))
           else if streamIDLen = 2 then WriteUint16 bo (ucast (sf_StreamID f))
           else if streamIDLen = 3 then WriteUint24 bo (sf_StreamID f)
           else if streamIDLen = 4 then WriteUint32 bo (sf_StreamID f)
           else Inl (GoErr ''errInvalidStreamIDLen''),
           if offsetLength = 0 then Inr []
           else if offsetLength = 2 then WriteUint16 bo (ucast (sf_Offset f))
           else if offsetLength = 3 then WriteUint24 bo (ucast (sf_Offset f))
           else if offsetLength = 4 then WriteUint32 bo (ucast (sf_Offset f))
           else if offsetLength = 5 then WriteUint40 bo (sf_Offset f)
           else if offsetLength = 6 then WriteUint48 bo (sf_Offset f)
           else if offsetLength = 7 then WriteUint56 bo (sf_Offset f)
           else if offsetLength = 8 then WriteUint64 bo (sf_Offset f)
           else Inl (GoErr ''errInvalidOffsetLen''),
           wbyte (sf_LossCount f),
           wbyte (sf_PathID f),
           WriteUint64 bo (sf_TimeStamp f),
           if sf_DataLenPresent f then WriteUint16 bo (of_nat (length (sf_Data f))) else Inr [],
           wbytes (sf_Data f)])"

subsection \<open>Lengths and the type byte\<close>

lemma calculateStreamIDLength_cases:
  obtains "calculateStreamIDLength f = 1" "sf_StreamID f < 2 ^ 8"
  | "calculateStreamIDLength f = 2" "sf_StreamID f < 2 ^ 16"
  | "calculateStreamIDLength f = 3" "sf_StreamID f < 2 ^ 24"
  | "calculateStreamIDLength f = 4"
  by (cases "sf_StreamID f < 2 ^ 8"; cases "sf_StreamID f < 2 ^ 16"; cases "sf_StreamID f < 2 ^ 24";
      simp add: calculateStreamIDLength_def push_bit_of_1)

lemma getOffsetLength_cases:
  obtains "getOffsetLength f = 0" "sf_Offset f = 0"
  | "getOffsetLength f = 2" "sf_Offset f < 2 ^ 16"
  | "getOffsetLength f = 3" "sf_Offset f < 2 ^ 24"
  | "getOffsetLength f = 4" "sf_Offset f < 2 ^ 32"
  | "getOffsetLength f = 5" "sf_Offset f < 2 ^ 40"
  | "getOffsetLength f = 6" "sf_Offset f < 2 ^ 48"
  | "getOffsetLength f = 7" "sf_Offset f < 2 ^ 56"
  | "getOffsetLength f = 8"
proof -
  have "getOffsetLength f = 0 \<and> sf_Offset f = 0 \<or> getOffsetLength f = 2 \<and> sf_Offset f < 2 ^ 16 \<or>
    getOffsetLength f = 3 \<and> sf_Offset f < 2 ^ 24 \<or> getOffsetLength f = 4 \<and> sf_Offset f < 2 ^ 32 \<or>
    getOffsetLength f = 5 \<and> sf_Offset f < 2 ^ 40 \<or> getOffsetLength f = 6 \<and> sf_Offset f < 2 ^ 48 \<or>
    getOffsetLength f = 7 \<and> sf_Offset f < 2 ^ 56 \<or> getOffsetLength f = 8"
    unfolding getOffsetLength_def push_bit_of_1 by simp
  then show thesis using that by blast
qed

text \<open>The type byte, from the two flags and the two lengths.\<close>

definition offset_bits :: "u8 \<Rightarrow> u8" where
  "offset_bits ol = (if ol > 0 then push_bit 2 (ol - 1) else 0)"

definition type_byte :: "bool \<Rightarrow> bool \<Rightarrow> u8 \<Rightarrow> u8 \<Rightarrow> u8" where
  "type_byte fin dl ol sl =
     ((((0x80 XOR (if fin then 0x40 else 0)) XOR (if dl then 0x20 else 0)) XOR offset_bits ol) XOR
      (sl - 1))"

lemma offset_bits_values:
  "offset_bits 0 = 0" "offset_bits 2 = 4" "offset_bits 3 = 8" "offset_bits 4 = 12"
  "offset_bits 5 = 16" "offset_bits 6 = 20" "offset_bits 7 = 24" "offset_bits 8 = 28"
  by (simp_all add: offset_bits_def)

lemma offset_bits_fields:
  assumes "ol \<in> {0, 2, 3, 4, 5, 6, 7, 8}"
  shows "offset_bits ol AND 0x80 = 0" "offset_bits ol AND 0x40 = 0" "offset_bits ol AND 0x20 = 0"
    "offset_bits ol AND 0x3 = 0" "offset_bits ol AND 0x1c = offset_bits ol"
    "(if drop_bit 2 (offset_bits ol) \<noteq> 0 then drop_bit 2 (offset_bits ol) + 1
      else drop_bit 2 (offset_bits ol)) = ol"
  using assms unfolding insert_iff empty_iff
  by (elim disjE FalseE; hypsubst; simp add: offset_bits_values)+

lemma id_bits_fields:
  assumes "sl \<in> {1, 2, 3, 4 :: u8}"
  shows "(sl - 1) AND 0x80 = 0" "(sl - 1) AND 0x40 = 0" "(sl - 1) AND 0x20 = 0"
    "(sl - 1) AND 0x3 = sl - 1" "(sl - 1) AND 0x1c = 0"
  using assms unfolding insert_iff empty_iff
  by (elim disjE FalseE; hypsubst; simp)+

lemma type_byte_masks:
  assumes "ol \<in> {0, 2, 3, 4, 5, 6, 7, 8}" "sl \<in> {1, 2, 3, 4}"
  shows "type_byte fin dl ol sl AND 0x40 = (if fin then 0x40 else 0)"
    "type_byte fin dl ol sl AND 0x20 = (if dl then 0x20 else 0)"
    "type_byte fin dl ol sl AND 0x3 = sl - 1"
    "type_byte fin dl ol sl AND 0x1c = offset_bits ol"
    "type_byte fin dl ol sl AND 0x80 = 0x80"
  unfolding type_byte_def bit.conj_xor_distrib2
    offset_bits_fields(1-5) [OF assms(1)] id_bits_fields [OF assms(2)]
  by (cases fin; cases dl; simp)+

lemma type_byte_fields:
  assumes "ol \<in> {0, 2, 3, 4, 5, 6, 7, 8}" "sl \<in> {1, 2, 3, 4}"
  shows "(type_byte fin dl ol sl AND 0x40 > 0) = fin"
    "(type_byte fin dl ol sl AND 0x20 > 0) = dl"
    "(type_byte fin dl ol sl AND 0x3) + 1 = sl"
    "(if drop_bit 2 (type_byte fin dl ol sl AND 0x1c) \<noteq> 0
      then drop_bit 2 (type_byte fin dl ol sl AND 0x1c) + 1
      else drop_bit 2 (type_byte fin dl ol sl AND 0x1c)) = ol"
    "type_byte fin dl ol sl AND 0x80 = 0x80"
proof -
  show "(if drop_bit 2 (type_byte fin dl ol sl AND 0x1c) \<noteq> 0
      then drop_bit 2 (type_byte fin dl ol sl AND 0x1c) + 1
      else drop_bit 2 (type_byte fin dl ol sl AND 0x1c)) = ol"
    unfolding type_byte_masks [OF assms] by (rule offset_bits_fields(6) [OF assms(1)])
qed (simp_all only: type_byte_masks [OF assms], simp_all)

lemma getOffsetLength_values: "ucast (getOffsetLength f) \<in> {0, 2, 3, 4, 5, 6, 7, 8 :: u8}"
  by (rule getOffsetLength_cases [of f]) simp_all

lemma calculateStreamIDLength_values: "calculateStreamIDLength f \<in> {1, 2, 3, 4}"
  by (rule calculateStreamIDLength_cases [of f]) simp_all

lemma StreamFrame_typeByte_eq:
  "StreamFrame_typeByte f = type_byte (sf_FinBit f) (sf_DataLenPresent f)
     (ucast (getOffsetLength f)) (calculateStreamIDLength f)"
  by (rule getOffsetLength_cases [of f])
    (simp_all add: StreamFrame_typeByte_def type_byte_def offset_bits_def Let_def)

lemma StreamFrame_typeByte_fields:
  "(StreamFrame_typeByte f AND 0x40 > 0) = sf_FinBit f"
  "(StreamFrame_typeByte f AND 0x20 > 0) = sf_DataLenPresent f"
  "(StreamFrame_typeByte f AND 0x3) + 1 = calculateStreamIDLength f"
  "(if drop_bit 2 (StreamFrame_typeByte f AND 0x1c) \<noteq> 0
    then drop_bit 2 (StreamFrame_typeByte f AND 0x1c) + 1
    else drop_bit 2 (StreamFrame_typeByte f AND 0x1c)) = ucast (getOffsetLength f)"
  "StreamFrame_typeByte f AND 0x80 = 0x80"
  unfolding StreamFrame_typeByte_eq
  by (rule type_byte_fields [OF getOffsetLength_values calculateStreamIDLength_values])+

subsection \<open>The written bytes\<close>

lemma ucast_32_cases:
  "(ucast (ucast (x :: u32) :: u16) :: u64) = take_bit 16 (ucast x)"
  "(ucast (ucast x :: u64) :: u8) = ucast x"
  by (rule bit_word_eqI; auto simp: bit_simps)+

lemma write_stream_id:
  "(if calculateStreamIDLength f = 1 then wbyte (ucast (sf_StreamID f))
    else if calculateStreamIDLength f = 2 then WriteUint16 bo (ucast (sf_StreamID f))
    else if calculateStreamIDLength f = 3 then WriteUint24 bo (sf_StreamID f)
    else if calculateStreamIDLength f = 4 then WriteUint32 bo (sf_StreamID f)
    else Inl e) =
   Inr (enc_bytes bo (unat (calculateStreamIDLength f)) (ucast (sf_StreamID f)))"
proof (rule calculateStreamIDLength_cases [of f])
  assume "calculateStreamIDLength f = 1"
  then show ?thesis using bo.enc_one [of bo "ucast (sf_StreamID f)"]
    by (simp add: wbyte_def wbytes_def ucast_32_cases)
next
  assume "calculateStreamIDLength f = 2"
  then show ?thesis using bo.enc_take_bit [of 2 bo "ucast (sf_StreamID f)"]
    by (simp add: bo.write16_eq ucast_32_cases)
next
  assume "calculateStreamIDLength f = 3" "sf_StreamID f < 2 ^ 24"
  then show ?thesis using bo.write24_eq [of "sf_StreamID f" bo] by simp
qed (simp add: bo.write32_eq)

lemma write_offset:
  "(if getOffsetLength f = 0 then Inr []
    else if getOffsetLength f = 2 then WriteUint16 bo (ucast (sf_Offset f))
    else if getOffsetLength f = 3 then WriteUint24 bo (ucast (sf_Offset f))
    else if getOffsetLength f = 4 then WriteUint32 bo (ucast (sf_Offset f))
    else if getOffsetLength f = 5 then WriteUint40 bo (sf_Offset f)
    else if getOffsetLength f = 6 then WriteUint48 bo (sf_Offset f)
    else if getOffsetLength f = 7 then WriteUint56 bo (sf_Offset f)
    else if getOffsetLength f = 8 then WriteUint64 bo (sf_Offset f)
    else Inl e) =
   Inr (enc_bytes bo (unat (getOffsetLength f)) (sf_Offset f))"
proof (rule getOffsetLength_cases [of f])
  assume "getOffsetLength f = 0"
  then show ?thesis using bo.length_enc [of bo 0 "sf_Offset f"] by simp
next
  assume "getOffsetLength f = 2"
  then show ?thesis by (simp add: bo.write16_eq enc_ucasts)
next
  assume *: "getOffsetLength f = 3" "sf_Offset f < 2 ^ 24"
  then have "(ucast (sf_Offset f) :: u32) < 2 ^ 24"
    by (simp add: word_less_nat_alt unat_ucast_mod)
  moreover have "(ucast (ucast (sf_Offset f) :: u32) :: u64) = sf_Offset f"
    using *(2) take_bit_small [of "sf_Offset f" 32]
    by (simp add: ucast_ucast_take_bit word_less_nat_alt)
  ultimately show ?thesis using * bo.write24_eq [of "ucast (sf_Offset f)" bo] by simp
next
  assume "getOffsetLength f = 4"
  then show ?thesis by (simp add: bo.write32_eq enc_ucasts)
next
  assume "getOffsetLength f = 5" "sf_Offset f < 2 ^ 40"
  then show ?thesis using bo.write40_eq [of "sf_Offset f" bo] by simp
next
  assume "getOffsetLength f = 6" "sf_Offset f < 2 ^ 48"
  then show ?thesis using bo.write48_eq [of "sf_Offset f" bo] by simp
next
  assume "getOffsetLength f = 7" "sf_Offset f < 2 ^ 56"
  then show ?thesis using bo.write56_eq [of "sf_Offset f" bo] by simp
qed (simp add: bo.write64_eq)

text \<open>The header up to the timestamp, and the whole frame.\<close>

definition stream_header :: "ByteOrder \<Rightarrow> StreamFrame \<Rightarrow> u8 list" where
  "stream_header bo f =
     enc_bytes bo (unat (calculateStreamIDLength f)) (ucast (sf_StreamID f)) @
     enc_bytes bo (unat (getOffsetLength f)) (sf_Offset f) @
     [sf_LossCount f, sf_PathID f] @ enc_bytes bo 8 (sf_TimeStamp f)"

lemma StreamFrame_Write_eq:
  assumes "sf_Data f \<noteq> [] \<or> sf_FinBit f"
  shows "StreamFrame_Write v f = Inr (StreamFrame_typeByte f # stream_header (GetByteOrder v) f @
    (if sf_DataLenPresent f
     then enc_bytes (GetByteOrder v) 2 (ucast (of_nat (length (sf_Data f)) :: u16)) else []) @
    sf_Data f)"
  using assms unfolding StreamFrame_Write_def Let_def write_stream_id write_offset
  by (auto simp: stream_header_def frame_simps)

subsection \<open>Reading the header back\<close>

lemma unat_calculateStreamIDLength: "unat (calculateStreamIDLength f) \<in> {1, 2, 3, 4}"
  by (rule calculateStreamIDLength_cases [of f]) simp_all

lemma unat_getOffsetLength: "unat (getOffsetLength f) \<in> {0, 2, 3, 4, 5, 6, 7, 8}"
  by (rule getOffsetLength_cases [of f]) simp_all

lemma take_bit_StreamID:
  "ucast (take_bit (8 * unat (calculateStreamIDLength f)) (ucast (sf_StreamID f)) :: u64) = sf_StreamID f"
proof (rule calculateStreamIDLength_cases [of f])
  assume "calculateStreamIDLength f = 1" "sf_StreamID f < 2 ^ 8"
  then show ?thesis by (intro unat_eqI) (simp add: unat_ucast_mod unat_take_bit word_less_nat_alt)
next
  assume "calculateStreamIDLength f = 2" "sf_StreamID f < 2 ^ 16"
  then show ?thesis by (intro unat_eqI) (simp add: unat_ucast_mod unat_take_bit word_less_nat_alt)
next
  assume "calculateStreamIDLength f = 3" "sf_StreamID f < 2 ^ 24"
  then show ?thesis by (intro unat_eqI) (simp add: unat_ucast_mod unat_take_bit word_less_nat_alt)
qed simp

lemma take_bit_Offset: "take_bit (8 * unat (getOffsetLength f)) (sf_Offset f) = sf_Offset f"
  by (rule getOffsetLength_cases [of f])
    (simp_all add: take_bit_small [of "sf_Offset f", symmetric] take_bit_small)

lemma unat_ucast_getOffsetLength: "unat (ucast (getOffsetLength f) :: u8) = unat (getOffsetLength f)"
  using unat_getOffsetLength [of f] by (auto simp: unat_ucast_mod)

lemma StreamFrame_upd_Data:
  "f\<lparr>sf_Data := d\<rparr> =
   \<lparr> sf_StreamID = sf_StreamID f, sf_FinBit = sf_FinBit f, sf_DataLenPresent = sf_DataLenPresent f,
     sf_Offset = sf_Offset f, sf_LossCount = sf_LossCount f, sf_PathID = sf_PathID f,
     sf_TimeStamp = sf_TimeStamp f, sf_Data = d \<rparr>"
  by (cases f) simp

lemma parse_stream_data_upd: "parse_stream_data bo (f\<lparr>sf_Data := d\<rparr>) = parse_stream_data bo f"
  by (simp add: parse_stream_data_def)

lemma ParseStreamFrame_header:
  "ParseStreamFrame v (StreamFrame_typeByte f # stream_header (GetByteOrder v) f @ s) =
   parse_stream_data (GetByteOrder v) f s"
proof -
  let ?bo = "GetByteOrder v"
  have sid: "ReadUintN ?bo (calculateStreamIDLength f)
      (enc_bytes ?bo (unat (calculateStreamIDLength f)) (ucast (sf_StreamID f)) @ t) =
      Inr (take_bit (8 * unat (calculateStreamIDLength f)) (ucast (sf_StreamID f)), t)" for t
    using unat_calculateStreamIDLength [of f] by (intro bo.readN_enc) auto
  have off: "ReadUintN ?bo (ucast (getOffsetLength f))
      (enc_bytes ?bo (unat (getOffsetLength f)) (sf_Offset f) @ t) = Inr (sf_Offset f, t)" for t
  proof -
    have "unat (getOffsetLength f) \<le> 8" using unat_getOffsetLength [of f] by auto
    then show ?thesis
      by (simp only: bo.readN_enc [OF unat_ucast_getOffsetLength] take_bit_Offset)
  qed
  show ?thesis
    unfolding ParseStreamFrame_def Let_def stream_header_def append_assoc
    by (simp only: pbind_def readByte.simps sum.case prod.case StreamFrame_typeByte_fields sid off
        append_Cons append_Nil bo.read64_enc take_bit_StreamID)
      (simp only: StreamFrame_upd_Data [symmetric] parse_stream_data_upd)
qed

lemma offset_no_overflow:
  "unat off + n < 2 ^ 64 \<Longrightarrow> \<not> off + of_nat n < (off :: u64)"
  by (simp add: word_less_nat_alt unat_word_ariths unat_of_nat)

lemma parse_stream_data_written:
  assumes "sf_Data f \<noteq> [] \<or> sf_FinBit f" "length (sf_Data f) \<le> 1350"
    and "unat (sf_Offset f) + length (sf_Data f) < 2 ^ 64"
    and "sf_DataLenPresent f \<or> r = []"
  shows "parse_stream_data bo f
    ((if sf_DataLenPresent f then enc_bytes bo 2 (ucast (of_nat (length (sf_Data f)) :: u16)) else []) @
     sf_Data f @ r) = Inr (f, r)"
proof -
  have n: "unat (of_nat (length (sf_Data f)) :: u16) = length (sf_Data f)"
    "\<not> (ucast MaxPacketSize :: u16) < of_nat (length (sf_Data f))"
    using reason_len [OF assms(2)] by auto
  have z: "(of_nat (length (sf_Data f)) :: u16) = 0 \<longleftrightarrow> sf_Data f = []"
    using n(1) by (metis length_0_conv of_nat_0 unat_0 unat_eq_zero)
  have d: "StreamFrame_DataLen f = 0 \<longleftrightarrow> sf_Data f = []"
    using assms(2) by (simp add: StreamFrame_DataLen_def unat_eq_zero [symmetric] unat_of_nat)
  have upd: "f\<lparr>sf_Data := sf_Data f\<rparr> = f" by (cases f) simp
  have ovf: "\<not> sf_Offset f + StreamFrame_DataLen f < sf_Offset f"
    using offset_no_overflow [OF assms(3)] by (simp add: StreamFrame_DataLen_def)
  have get: "(if (of_nat (length (sf_Data f)) :: u16) \<noteq> 0
      then readFull (unat (of_nat (length (sf_Data f)) :: u16)) else pret []) (sf_Data f @ r) =
      Inr (sf_Data f, r)"
    using n(1) by (auto simp: z readFull_append pret_def)
  show ?thesis
  proof (cases "sf_DataLenPresent f")
    case True
    then show ?thesis
      using get n(2) ovf d assms(1) upd
      by (auto simp: parse_stream_data_def pbind_def pguard_def pret_def readerLen_def
          bo.read16_enc)
  next
    case False
    then have "r = []" using assms(4) by simp
    with False show ?thesis
      using get ovf d assms(1) upd
      by (auto simp: parse_stream_data_def Let_def pbind_def pguard_def pret_def readerLen_def)
  qed
qed

subsection \<open>The contract\<close>

text \<open>The frames the code sends: not empty, at most a packet long, and below the last offset.\<close>

definition StreamFrame_wf :: "StreamFrame \<Rightarrow> bool" where
  "StreamFrame_wf f \<longleftrightarrow> (sf_Data f \<noteq> [] \<or> sf_FinBit f) \<and> length (sf_Data f) \<le> 1350 \<and>
     unat (sf_Offset f) + length (sf_Data f) < 2 ^ 64"

text \<open>The comment at \<open>MinLength\<close>: the length of the frame is \<open>MinLength + DataLen\<close>.\<close>

definition StreamFrame_Length :: "StreamFrame \<Rightarrow> go_error + ByteCount" where
  "StreamFrame_Length f = map_sum (\<lambda>e. e) (\<lambda>n. n + StreamFrame_DataLen f) (StreamFrame_MinLength f)"

lemma ParseStreamFrame_written:
  assumes "StreamFrame_wf f" "StreamFrame_Write v f = Inr bs" "sf_DataLenPresent f \<or> r = []"
  shows "ParseStreamFrame v (bs @ r) = Inr (f, r)"
proof -
  let ?d = "(if sf_DataLenPresent f
     then enc_bytes (GetByteOrder v) 2 (ucast (of_nat (length (sf_Data f)) :: u16)) else []) @ sf_Data f"
  have "bs = StreamFrame_typeByte f # stream_header (GetByteOrder v) f @ ?d"
    using assms(1,2) by (auto simp: StreamFrame_wf_def StreamFrame_Write_eq)
  then have "bs @ r = StreamFrame_typeByte f # stream_header (GetByteOrder v) f @ (?d @ r)" by simp
  then have "ParseStreamFrame v (bs @ r) = parse_stream_data (GetByteOrder v) f (?d @ r)"
    by (simp only: ParseStreamFrame_header)
  also have "\<dots> = Inr (f, r)"
    using parse_stream_data_written [of f r "GetByteOrder v"] assms(1,3)
    by (simp only: StreamFrame_wf_def append_assoc)
  finally show ?thesis .
qed

lemma len_bounds: "unat (calculateStreamIDLength f) \<le> 4" "unat (getOffsetLength f) \<le> 8"
  using unat_calculateStreamIDLength [of f] unat_getOffsetLength [of f] by auto

lemma StreamFrame_Length_written:
  assumes "StreamFrame_wf f" "StreamFrame_Write v f = Inr bs"
  shows "\<exists>n. StreamFrame_Length f = Inr n \<and> unat n = length bs"
proof -
  have "length bs = 11 + unat (calculateStreamIDLength f) + unat (getOffsetLength f) +
      (if sf_DataLenPresent f then 2 else 0) + length (sf_Data f)"
    using assms by (auto simp: StreamFrame_wf_def StreamFrame_Write_eq stream_header_def bo.length_enc)
  moreover have "unat (ucast (calculateStreamIDLength f) :: u64) = unat (calculateStreamIDLength f)"
    by (simp add: unat_ucast_wide)
  moreover have "unat (of_nat (length (sf_Data f)) :: u64) = length (sf_Data f)"
    using assms(1) by (simp add: StreamFrame_wf_def unat_of_nat)
  ultimately show ?thesis
    using len_bounds [of f] assms(1)
    by (simp add: StreamFrame_Length_def StreamFrame_MinLength_def Let_def StreamFrame_DataLen_def
        StreamFrame_wf_def unat_word_ariths)
qed

interpretation stream: wire_frame "\<lambda>f. StreamFrame_wf f \<and> sf_DataLenPresent f"
    "StreamFrame_Write v" "ParseStreamFrame v" StreamFrame_Length "\<lambda>f. f" for v
  by unfold_locales
    (auto simp: StreamFrame_wf_def StreamFrame_Write_eq
      intro: ParseStreamFrame_written [unfolded StreamFrame_wf_def]
        StreamFrame_Length_written [unfolded StreamFrame_wf_def])

text \<open>What the reader guarantees of any frame it accepts.\<close>

lemma parse_stream_data_sound:
  assumes "parse_stream_data bo f0 s = Inr (f, r)"
  shows "\<not> sf_Offset f + StreamFrame_DataLen f < sf_Offset f"
    and "sf_FinBit f \<or> StreamFrame_DataLen f \<noteq> 0"
    and "sf_DataLenPresent f \<Longrightarrow> length (sf_Data f) \<le> 1350"
proof -
  obtain dataLen0 data s1 s2 where
    l: "\<not> (ucast MaxPacketSize :: u16) < dataLen0" and
    d: "(if (if \<not> sf_DataLenPresent f0 then of_nat (length s1) else dataLen0) \<noteq> 0
         then readFull (unat (if \<not> sf_DataLenPresent f0 then of_nat (length s1) else dataLen0))
         else pret []) s1 = Inr (data, s2)" and
    f: "f = f0\<lparr>sf_Data := data\<rparr>" and
    g: "\<not> sf_Offset f + StreamFrame_DataLen f < sf_Offset f"
       "sf_FinBit f \<or> StreamFrame_DataLen f \<noteq> 0"
    using assms unfolding parse_stream_data_def Let_def pbind_ok_iff pguard_ok_iff pret_ok_iff readerLen_def
    by (elim exE conjE) (simp only: sum.inject prod.inject, blast)
  show "\<not> sf_Offset f + StreamFrame_DataLen f < sf_Offset f"
    "sf_FinBit f \<or> StreamFrame_DataLen f \<noteq> 0" by (fact g)+
  assume "sf_DataLenPresent f"
  then have "length data = unat dataLen0" using d f by (auto simp: readFull_ok_iff pret_ok_iff split: if_splits)
  then show "length (sf_Data f) \<le> 1350"
    using l f unat_ucast_MaxPacketSize by (simp add: word_less_nat_alt)
qed

lemma ParseStreamFrame_sound:
  assumes "ParseStreamFrame v bs = Inr (f, r)"
  shows "(sf_Data f \<noteq> [] \<or> sf_FinBit f) \<and>
    (sf_DataLenPresent f \<longrightarrow> length (sf_Data f) \<le> 1350) \<and>
    \<not> sf_Offset f + of_nat (length (sf_Data f)) < sf_Offset f"
proof -
  obtain f0 s where "parse_stream_data (GetByteOrder v) f0 s = Inr (f, r)"
    using assms by (auto simp: ParseStreamFrame_def Let_def pbind_ok_iff)
  from parse_stream_data_sound [OF this] show ?thesis
    by (auto simp: StreamFrame_DataLen_def)
qed

lemma consumes_parse_stream_data [consumes_intros]: "consumes 0 (parse_stream_data bo f)"
  unfolding parse_stream_data_def by (intro consumes_intros)

lemma consumes_ParseStreamFrame: "consumes 1 (ParseStreamFrame v)"
  unfolding ParseStreamFrame_def
  by (intro consumes_first consumes_readByte; intro consumes_intros)

text \<open>
  C29. STREAM frames round trip. A frame that carries data or the end of the stream, at most a packet
  long and below the last offset, is written; the reader returns exactly this frame and what
  follows it, whenever the frame states its length or is the last one; and \<open>MinLength\<close> plus the
  length of the data is the number of bytes written.
\<close>
theorem StreamFrame_roundtrip:
  assumes "sf_Data f \<noteq> [] \<or> sf_FinBit f" "length (sf_Data f) \<le> 1350"
    and "unat (sf_Offset f) + length (sf_Data f) < 2 ^ 64" "sf_DataLenPresent f \<or> r = []"
  shows "\<exists>bs n. StreamFrame_Write v f = Inr bs \<and> ParseStreamFrame v (bs @ r) = Inr (f, r) \<and>
    StreamFrame_MinLength f = Inr n \<and> unat (n + StreamFrame_DataLen f) = length bs"
proof -
  have wf: "StreamFrame_wf f" using assms by (simp add: StreamFrame_wf_def)
  obtain bs where bs: "StreamFrame_Write v f = Inr bs" using assms(1) by (simp add: StreamFrame_Write_eq)
  from ParseStreamFrame_written [OF wf bs assms(4)] StreamFrame_Length_written [OF wf bs] bs
  show ?thesis by (auto simp: StreamFrame_Length_def split: sum.splits) (cases "StreamFrame_MinLength f", auto)
qed

lemma StreamFrame_roundtrip_witness:
  "\<exists>bs n. StreamFrame_Write 39 \<lparr>sf_StreamID = 5, sf_FinBit = False, sf_DataLenPresent = False,
      sf_Offset = 0x10000, sf_LossCount = 1, sf_PathID = 3, sf_TimeStamp = 9, sf_Data = [1, 2]\<rparr> = Inr bs \<and>
    ParseStreamFrame 39 (bs @ []) = Inr (\<lparr>sf_StreamID = 5, sf_FinBit = False, sf_DataLenPresent = False,
      sf_Offset = 0x10000, sf_LossCount = 1, sf_PathID = 3, sf_TimeStamp = 9, sf_Data = [1, 2]\<rparr>, []) \<and>
    StreamFrame_MinLength \<lparr>sf_StreamID = 5, sf_FinBit = False, sf_DataLenPresent = False,
      sf_Offset = 0x10000, sf_LossCount = 1, sf_PathID = 3, sf_TimeStamp = 9, sf_Data = [1, 2]\<rparr> = Inr n \<and>
    unat (n + StreamFrame_DataLen \<lparr>sf_StreamID = 5, sf_FinBit = False, sf_DataLenPresent = False,
      sf_Offset = 0x10000, sf_LossCount = 1, sf_PathID = 3, sf_TimeStamp = 9, sf_Data = [1, 2]\<rparr>) = length bs"
  by (rule StreamFrame_roundtrip) simp_all

end
