(* ===== verification/Ack_Ranges.thy ===== *)
theory Ack_Ranges
  imports Wire_Basic
begin

section \<open>ACK ranges and their blocks: shared by \<open>ack_frame.go\<close> and \<open>close_path_frame.go\<close>\<close>

text \<open>
  ACK and CLOSE_PATH frames describe a set of packet numbers by ranges, the highest first. On the wire a
  range is a gap of one byte and a length; a gap above 255 is split into blocks of length zero. The
  code of the two files is the same up to the cut48 before \<open>WriteUint48\<close>, which is the parameter
  \<open>cut48\<close> here. The lemmas relate the loops that write and parse the blocks, show how a frame with
  too many blocks is truncated, and give the meaning of \<open>validateAckRanges\<close>.
\<close>

record AckRange =
  ar_First :: PacketNumber
  ar_Last :: PacketNumber

definition mkRange :: "PacketNumber \<Rightarrow> PacketNumber \<Rightarrow> AckRange" where
  "mkRange a b = \<lparr> ar_First = a, ar_Last = b \<rparr>"

lemma mkRange_sel [simp]: "ar_First (mkRange a b) = a" "ar_Last (mkRange a b) = b"
  by (simp_all add: mkRange_def)

lemma mkRange_eta [simp]: "mkRange (ar_First r) (ar_Last r) = r"
  by (simp add: mkRange_def)

subsection \<open>Checks and sizes\<close>

text \<open>The second loop of \<open>validateAckRanges\<close>: every range against the one before it.\<close>

fun validateAckRanges_loop :: "AckRange list \<Rightarrow> bool" where
  "validateAckRanges_loop (lastAckRange # ackRange # rs) =
     (if ar_First lastAckRange \<le> ar_First ackRange then False
      else if ar_First lastAckRange \<le> ar_Last ackRange + 1 then False
      else validateAckRanges_loop (ackRange # rs))"
| "validateAckRanges_loop rs = True"

definition validateAckRanges :: "PacketNumber \<Rightarrow> AckRange list \<Rightarrow> bool" where
  "validateAckRanges largestAcked rs =
     (if length rs = 0 then True
      else if length rs = 1 then False
      else if ar_Last (rs ! 0) \<noteq> largestAcked then False
      else if list_ex (\<lambda>ackRange. ar_First ackRange > ar_Last ackRange) rs then False
      else validateAckRanges_loop rs)"

text \<open>The number of blocks of a gap, \<open>gap/0xFF + 1\<close>, less one when it is divisible.\<close>

definition gap_blocks :: "u64 \<Rightarrow> u64" where
  "gap_blocks gap = (if gap mod 0xFF = 0 then gap div 0xFF + 1 - 1 else gap div 0xFF + 1)"

definition range_gap :: "AckRange \<Rightarrow> AckRange \<Rightarrow> u64" where
  "range_gap lastAckRange ackRange = ar_First lastAckRange - ar_Last ackRange - 1"

definition range_length :: "AckRange \<Rightarrow> u64" where
  "range_length ackRange = ar_Last ackRange - ar_First ackRange + 1"

fun numWritableNackRanges_loop :: "u64 \<Rightarrow> AckRange list \<Rightarrow> u64" where
  "numWritableNackRanges_loop numRanges (lastAckRange # ackRange # rs) =
     (let rangeLength = gap_blocks (range_gap lastAckRange ackRange)
      in if numRanges + rangeLength < 0xFF
         then numWritableNackRanges_loop (numRanges + rangeLength) (ackRange # rs)
         else numRanges)"
| "numWritableNackRanges_loop numRanges rs = numRanges"

definition numWritableNackRanges :: "AckRange list \<Rightarrow> u64" where
  "numWritableNackRanges rs =
     (if length rs = 0 then 0 else numWritableNackRanges_loop 0 rs + 1)"

definition getMissingSequenceNumberDeltaLen ::
    "PacketNumber \<Rightarrow> PacketNumber \<Rightarrow> AckRange list \<Rightarrow> PacketNumberLen" where
  "getMissingSequenceNumberDeltaLen largestAcked lowestAcked rs =
     (let maxRangeLength =
        (if length rs > 0
         then foldl (\<lambda>mx ackRange. if range_length ackRange > mx then range_length ackRange else mx) 0 rs
         else largestAcked - lowestAcked + 1)
      in if maxRangeLength \<le> 0xFF then PacketNumberLen1
         else if maxRangeLength \<le> 0xFFFF then PacketNumberLen2
         else if maxRangeLength \<le> 0xFFFFFFFF then PacketNumberLen4
         else PacketNumberLen6)"

definition acksPacket :: "PacketNumber \<Rightarrow> PacketNumber \<Rightarrow> AckRange list \<Rightarrow> PacketNumber \<Rightarrow> bool" where
  "acksPacket lowestAcked largestAcked rs p =
     (if p < lowestAcked \<or> p > largestAcked then False
      else if length rs > 0
      then list_ex (\<lambda>ackRange. p \<ge> ar_First ackRange \<and> p \<le> ar_Last ackRange) rs
      else p \<ge> lowestAcked \<and> p \<le> largestAcked)"

subsection \<open>Writing\<close>

text \<open>
  The switch over a packet number length. \<open>cut48\<close> is \<open>& (1<<48-1)\<close> in ACK frames and nothing in
  CLOSE_PATH frames.
\<close>

definition writeSized :: "(u64 \<Rightarrow> u64) \<Rightarrow> ByteOrder \<Rightarrow> PacketNumberLen \<Rightarrow> u64 \<Rightarrow> writer" where
  "writeSized cut48 bo len x =
     (if len = PacketNumberLen1 then wbyte (ucast x)
      else if len = PacketNumberLen2 then WriteUint16 bo (ucast x)
      else if len = PacketNumberLen4 then WriteUint32 bo (ucast x)
      else if len = PacketNumberLen6 then WriteUint48 bo (cut48 x)
      else Inr [])"

text \<open>The blocks of one range; the first case is the one without a long gap.\<close>

definition writeRange ::
    "(u64 \<Rightarrow> u64) \<Rightarrow> ByteOrder \<Rightarrow> PacketNumberLen \<Rightarrow> u64 \<Rightarrow> u64 \<Rightarrow> writer" where
  "writeRange cut48 bo mlen gap len =
     (let num = gap_blocks gap
      in if num = 1 then wseq [wbyte (ucast gap), writeSized cut48 bo mlen len]
         else wseq (map (\<lambda>i.
           (let (lengthWritten, gapWritten) =
              (if i = unat num - 1 then (len, ucast (1 + ((gap - 1) mod 255))) else (0, 0xFF))
            in wseq [wbyte gapWritten, writeSized cut48 bo mlen lengthWritten])) [0..<unat num]))"

fun writeRanges_loop ::
    "(u64 \<Rightarrow> u64) \<Rightarrow> ByteOrder \<Rightarrow> PacketNumberLen \<Rightarrow> u64 \<Rightarrow> u64 \<Rightarrow> AckRange list \<Rightarrow>
     go_error + (u8 list \<times> u64)" where
  "writeRanges_loop cut48 bo mlen numRanges numRangesWritten (lastAckRange # ackRange # rs) =
     (let gap = range_gap lastAckRange ackRange in
      case writeRange cut48 bo mlen gap (range_length ackRange) of Inl e \<Rightarrow> Inl e
      | Inr bs \<Rightarrow>
          (let written = numRangesWritten + gap_blocks gap in
           if written \<ge> numRanges then Inr (bs, written)
           else case writeRanges_loop cut48 bo mlen numRanges written (ackRange # rs) of
                Inl e \<Rightarrow> Inl e
              | Inr (cs, written') \<Rightarrow> Inr (bs @ cs, written')))"
| "writeRanges_loop cut48 bo mlen numRanges numRangesWritten rs = Inr ([], numRangesWritten)"

text \<open>
  The blocks of the frame with the checks around the loop, up to the comparison of the numbers of ranges.
\<close>

definition writeAckBlocks ::
    "(u64 \<Rightarrow> u64) \<Rightarrow> ByteOrder \<Rightarrow> PacketNumberLen \<Rightarrow> u64 \<Rightarrow> PacketNumber \<Rightarrow> PacketNumber \<Rightarrow>
     AckRange list \<Rightarrow> string \<Rightarrow> writer" where
  "writeAckBlocks cut48 bo mlen numRanges largestAcked lowestAcked rs bug =
     (let has = (length rs > 0) in wseq
       [wguard (\<not> (has \<and> largestAcked \<noteq> ar_Last (rs ! 0))) (GoErr ''errInconsistentAckLargestAcked''),
        wguard (\<not> (has \<and> lowestAcked \<noteq> ar_First (rs ! (length rs - 1)))) (GoErr ''errInconsistentAckLowestAcked''),
        writeSized cut48 bo mlen
          (if \<not> has then largestAcked - lowestAcked + 1 else largestAcked - ar_First (rs ! 0) + 1),
        (case writeRanges_loop cut48 bo mlen numRanges (if has then 1 else 0) rs of
           Inl e \<Rightarrow> Inl e
         | Inr (bs, numRangesWritten) \<Rightarrow>
             if numRanges \<noteq> numRangesWritten
             then Inl (GoErr bug) else Inr bs)])"

text \<open>The lengths as the writer codes them: \<open>len / 2\<close>, nothing for a single byte.\<close>

definition code_len :: "PacketNumberLen \<Rightarrow> u8" where
  "code_len len = (if len \<noteq> PacketNumberLen1 then len div 2 else 0)"

subsection \<open>Parsing\<close>

text \<open>
  The state of the parsing loop: the ranges so far, whether the last one is still open because a
  block of length zero came, and whether it is complete. The body of the loop, after its reads:
\<close>

type_synonym block_state = "AckRange list \<times> bool \<times> bool"

definition block_step :: "u8 \<Rightarrow> u64 \<Rightarrow> block_state \<Rightarrow> block_state" where
  "block_step gap ackBlockLength = (\<lambda>(rs, inLongBlock, lastRangeComplete).
     (let len = ackBlockLength;
          (rs', complete) =
            (if inLongBlock
             then (butlast rs @ [mkRange (ar_First (last rs) - (ucast gap + len))
                                         (ar_Last (last rs) - ucast gap)],
                   lastRangeComplete)
             else (let lst = ar_First (last rs) - ucast gap - 1
                   in (rs @ [mkRange (lst - len + 1) lst], False)))
      in (rs', ackBlockLength = 0, if len > 0 then True else complete)))"

fun parseBlocks_loop :: "ByteOrder \<Rightarrow> u8 \<Rightarrow> nat \<Rightarrow> block_state \<Rightarrow> block_state parser" where
  "parseBlocks_loop bo mlen 0 st = pret st"
| "parseBlocks_loop bo mlen (Suc n) st =
     pbind readByte (\<lambda>gap.
     pbind (ReadUintN bo mlen) (\<lambda>ackBlockLength.
     parseBlocks_loop bo mlen n (block_step gap ackBlockLength st)))"

text \<open>The ranges of a frame with missing ranges, from the first block and those that follow.\<close>

definition parseRanges ::
    "ByteOrder \<Rightarrow> u8 \<Rightarrow> u8 \<Rightarrow> u64 \<Rightarrow> u64 \<Rightarrow> AckRange list parser" where
  "parseRanges bo mlen numAckBlocks largestAcked ackBlockLength =
     pbind (parseBlocks_loop bo mlen (unat numAckBlocks)
              ([mkRange (largestAcked - ackBlockLength + 1) largestAcked], False, False))
       (\<lambda>(rs, inLongBlock, lastRangeComplete).
          pret (if \<not> lastRangeComplete then butlast rs else rs))"

text \<open>The lengths coded in two bits: \<open>2 * bits\<close>, or 1 when that is zero.\<close>

definition decode_len :: "u8 \<Rightarrow> u8" where
  "decode_len bits = (if 2 * bits = 0 then 1 else 2 * bits)"

subsection \<open>The blocks of a range\<close>

definition pn_lens :: "PacketNumberLen set" where
  "pn_lens = {PacketNumberLen1, PacketNumberLen2, PacketNumberLen4, PacketNumberLen6}"

definition nblocks :: "nat \<Rightarrow> nat" where
  "nblocks g = (g + 254) div 255"

definition blocks_of :: "nat \<Rightarrow> u64 \<Rightarrow> (u8 \<times> u64) list" where
  "blocks_of g len = replicate (nblocks g - 1) (0xFF, 0) @ [(of_nat (1 + (g - 1) mod 255), len)]"

definition block_bytes :: "ByteOrder \<Rightarrow> PacketNumberLen \<Rightarrow> u8 \<times> u64 \<Rightarrow> u8 list" where
  "block_bytes bo mlen = (\<lambda>(gap, len). gap # pn_bytes bo mlen len)"

text \<open>Both masks are the identity on what fits into 48 bits.\<close>

definition cut48_ok :: "(u64 \<Rightarrow> u64) \<Rightarrow> bool" where
  "cut48_ok cut48 \<longleftrightarrow> (\<forall>x. x < 2 ^ 48 \<longrightarrow> cut48 x = x)"

lemma nblocks_pos: "0 < g \<Longrightarrow> 0 < nblocks g"
  by (simp add: nblocks_def div_greater_zero_iff)

lemma nblocks_split:
  assumes "0 < g"
  shows "g = 255 * (nblocks g - 1) + (1 + (g - 1) mod 255)"
proof -
  have "nblocks g = (g - 1) div 255 + 1"
    using assms div_add_self2 [of 255 "g - 1"] by (simp add: nblocks_def)
  then show ?thesis using assms mult_div_mod_eq [of 255 "g - 1"] by simp
qed

lemma length_blocks_of: "0 < g \<Longrightarrow> length (blocks_of g len) = nblocks g"
  using nblocks_pos [of g] by (simp add: blocks_of_def)

lemma unat_gap_blocks:
  assumes "0 < unat gap"
  shows "unat (gap_blocks gap) = nblocks (unat gap)"
proof -
  define g where "g = unat gap"
  have "g < 2 ^ 64" using unat_bound [of gap] by (simp add: g_def)
  then have "g div 255 + 1 < 2 ^ 64" by simp
  moreover have "unat (gap div 0xFF) = g div 255" "unat (gap mod 0xFF) = g mod 255"
    by (simp_all add: g_def unat_div unat_mod)
  ultimately have "unat (gap_blocks gap) = (if g mod 255 = 0 then g div 255 else g div 255 + 1)"
    by (simp add: gap_blocks_def unat_word_ariths unat_eq_zero [symmetric])
  also have "\<dots> = nblocks g"
  proof (cases "g mod 255 = 0")
    case True
    then obtain k where "g = 255 * k" by (auto simp: mod_eq_0_iff_dvd)
    then show ?thesis by (simp add: nblocks_def)
  next
    case False
    define k r where "k = g div 255" and "r = g mod 255"
    have "g = 255 * k + r" "0 < r" "r < 255" using False by (simp_all add: k_def r_def)
    moreover from this have "(r + 254) div 255 = 1" by (simp add: div_nat_eqI)
    ultimately show ?thesis using False
      by (simp add: nblocks_def add.assoc k_def [symmetric])
  qed
  finally show ?thesis by (simp add: g_def)
qed

lemma writeSized_eq:
  assumes "cut48_ok cut48" "len \<in> pn_lens" "x < 2 ^ (8 * unat len)"
  shows "writeSized cut48 bo len x = Inr (pn_bytes bo len x)"
proof -
  have "len = 1 \<or> len = 2 \<or> len = 4 \<or> len = 6"
    using assms(2) by (simp add: pn_lens_def PacketNumberLen_defs)
  moreover have "cut48 x = x" "WriteUint48 bo x = Inr (enc_bytes bo 6 x)" if "len = 6"
    using that assms(1,3) bo.write48_eq [of x bo] by (simp_all add: cut48_ok_def)
  ultimately show ?thesis
    by (auto simp: writeSized_def PacketNumberLen_defs pn_bytes_def wbyte_def wbytes_def
        bo.write16_eq bo.write32_eq enc_ucasts(1,2) enc_ucasts(3) [of x bo])
qed

lemma gap_byte: "0 < unat gap \<Longrightarrow> (ucast (1 + ((gap - 1) mod 255) :: u64) :: u8) =
    of_nat (1 + (unat gap - 1) mod 255)"
proof -
  assume g: "0 < unat gap"
  then have "unat (gap - 1) = unat gap - 1" by (simp add: unat_gt_0 unat_minus_one)
  then have "unat ((gap - 1) mod 255) = (unat gap - 1) mod 255" by (simp add: unat_mod)
  moreover have "(unat gap - 1) mod 255 < 255" by simp
  ultimately show ?thesis by (intro unat_eqI) (simp add: unat_ucast_mod unat_word_ariths unat_of_nat)
qed

lemma writeRange_eq:
  assumes c: "cut48_ok cut48" and m: "mlen \<in> pn_lens" and x: "len < 2 ^ (8 * unat mlen)"
    and g: "0 < unat gap"
  shows "writeRange cut48 bo mlen gap len =
    Inr (concat (map (block_bytes bo mlen) (blocks_of (unat gap) len)))"
proof -
  let ?n = "nblocks (unat gap)"
  have n: "unat (gap_blocks gap) = ?n" by (rule unat_gap_blocks [OF g])
  have w: "writeSized cut48 bo mlen len = Inr (pn_bytes bo mlen len)"
    "writeSized cut48 bo mlen 0 = Inr (pn_bytes bo mlen 0)"
    using writeSized_eq [OF c m] x le_less_trans [OF word_zero_le x] by auto
  have one: "gap_blocks gap = 1 \<longleftrightarrow> ?n = 1"
    using n by (metis unat_1 unat_eqI)
  show ?thesis
  proof (cases "?n = 1")
    case True
    then have "unat gap = 1 + (unat gap - 1) mod 255" using nblocks_split [OF g] by simp
    then have "(ucast gap :: u8) = of_nat (1 + (unat gap - 1) mod 255)"
      by (intro unat_eqI) (simp add: unat_ucast_mod unat_of_nat)
    then show ?thesis
      using True one w by (simp add: writeRange_def blocks_of_def block_bytes_def frame_simps)
  next
    case False
    then obtain k where k: "?n = Suc k" using nblocks_pos [OF g] by (cases ?n) auto
    define f where "f = (\<lambda>i. (let (lengthWritten, gapWritten) =
              (if i = unat (gap_blocks gap) - 1 then (len, ucast (1 + ((gap - 1) mod 255)) :: u8) else (0, 0xFF))
            in wseq [wbyte gapWritten, writeSized cut48 bo mlen lengthWritten]))"
    have f: "f i = Inr (block_bytes bo mlen (if i = k then (of_nat (1 + (unat gap - 1) mod 255), len) else (0xFF, 0)))" for i
      using n k w gap_byte [OF g] by (simp add: f_def block_bytes_def frame_simps)
    have "map f [0..<Suc k] = map Inr (map (block_bytes bo mlen) (blocks_of (unat gap) len))"
    proof -
      have "map f [0..<k] = replicate k (Inr (block_bytes bo mlen (0xFF, 0)))"
        by (rule nth_equalityI) (simp_all add: f)
      then show ?thesis using k by (simp add: blocks_of_def f)
    qed
    then have "wseq (map f [0..<unat (gap_blocks gap)]) =
        Inr (concat (map (block_bytes bo mlen) (blocks_of (unat gap) len)))"
      using wseq_map_Inr [of "map (block_bytes bo mlen) (blocks_of (unat gap) len)"] n k
      by (simp add: comp_def)
    then show ?thesis using False one by (simp add: writeRange_def f_def Let_def)
  qed
qed

subsection \<open>Reading the blocks of a range\<close>

lemma parseBlocks_loop_bytes:
  assumes "\<forall>b\<in>set bl. snd b < 2 ^ (8 * unat mlen)" "unat mlen \<le> 6"
  shows "parseBlocks_loop bo mlen (length bl) st (concat (map (block_bytes bo mlen) bl) @ r) =
    Inr (fold (\<lambda>(g, l). block_step g l) bl st, r)"
  using assms(1)
proof (induction bl arbitrary: st)
  case Nil
  then show ?case by (simp add: pret_def)
next
  case (Cons b bl)
  obtain g l where b: "b = (g, l)" by (cases b)
  have "take_bit (8 * unat mlen) l = l"
    using Cons.prems assms(2) b by (intro take_bit_small) simp_all
  then show ?case
    using Cons assms(2) b by (simp add: block_bytes_def pbind_def read_pn_bytes)
qed

text \<open>A run of blocks of length zero in an open range moves it down by 255 each.\<close>

lemma long_block_step:
  "block_step 0xFF 0 (rs @ [q], True, c) = (rs @ [mkRange (ar_First q - 255) (ar_Last q - 255)], True, c)"
  by (simp add: block_step_def Let_def)

lemma fold_long_blocks:
  "fold (\<lambda>(g, l). block_step g l) (replicate k (0xFF, 0)) (rs @ [q], True, c) =
   (rs @ [mkRange (ar_First q - of_nat (255 * k)) (ar_Last q - of_nat (255 * k))], True, c)"
proof (induction k arbitrary: q)
  case 0
  then show ?case by simp
next
  case (Suc k)
  have down: "x - 255 - of_nat (255 * k) = x - (of_nat (255 * Suc k) :: u64)" for x
    by (simp only: mult_Suc_right of_nat_add diff_diff_add of_nat_numeral)
  show ?case
    using Suc [of "mkRange (ar_First q - 255) (ar_Last q - 255)"]
    by (simp only: replicate_Suc fold_Cons comp_def prod.case long_block_step mkRange_sel down)
qed

lemma ucast_small_nat: "n < 256 \<Longrightarrow> (ucast (of_nat n :: u8) :: u64) = of_nat n"
  by (rule unat_eqI) (simp add: unat_ucast_wide unat_of_nat)

lemma fold_blocks_of:
  assumes g: "0 < unat (range_gap prev r)" and len: "range_length r \<noteq> 0"
  shows "fold (\<lambda>(g, l). block_step g l) (blocks_of (unat (range_gap prev r)) (range_length r))
      (rs @ [prev], False, c) = (rs @ [prev, r], False, True)"
proof -
  define G where "G = unat (range_gap prev r)"
  define g' where "g' = 1 + (G - 1) mod 255"
  have g': "g' < 256" by (simp add: g'_def less_Suc_eq_le)
  have bl: "blocks_of G l = replicate (nblocks G - 1) (0xFF, 0) @ [(of_nat g', l)]" for l
    by (simp only: blocks_of_def g'_def)
  have G: "G = 255 * (nblocks G - 1) + g'" using nblocks_split [of G] g by (simp add: G_def g'_def)
  have gap: "ar_Last r = ar_First prev - of_nat G - 1"
    by (simp add: G_def range_gap_def)
  have lpos: "0 < range_length r" using len by (simp add: word_neq_0_conv)
  have first: "ar_First r = ar_Last r - range_length r + 1" by (simp add: range_length_def)
  have uc: "(ucast (of_nat g' :: u8) :: u64) = of_nat g'" by (rule ucast_small_nat [OF g'])
  show ?thesis
  proof (cases "nblocks G - 1")
    case 0
    then have "G = g'" using G by simp
    have "block_step (of_nat g') (range_length r) (rs @ [prev], False, c) =
        (rs @ [prev, mkRange (ar_Last r - range_length r + 1) (ar_Last r)], False, True)"
      using lpos len by (simp add: block_step_def Let_def uc gap \<open>G = g'\<close>)
    then show ?thesis using 0 by (simp add: bl G_def [symmetric] first [symmetric])
  next
    case (Suc k)
    have Gk: "of_nat G = (255 + of_nat (255 * k) + of_nat g' :: u64)"
      using G Suc by simp
    define q where "q = mkRange (ar_First prev - 255) (ar_First prev - 255 - 1)"
    have "block_step 0xFF 0 (rs @ [prev], False, c) = ((rs @ [prev]) @ [q], True, False)"
      by (simp add: block_step_def Let_def q_def)
    moreover have "block_step (of_nat g') (range_length r)
        ((rs @ [prev]) @ [mkRange (ar_First q - of_nat (255 * k)) (ar_Last q - of_nat (255 * k))], True, False) =
        (rs @ [prev, r], False, True)"
    proof -
      have "ar_First q - of_nat (255 * k) - (of_nat g' + range_length r) = ar_First r"
        "ar_Last q - of_nat (255 * k) - of_nat g' = ar_Last r"
        unfolding first gap Gk q_def mkRange_sel by (simp_all add: algebra_simps)
      then show ?thesis using lpos len
        by (simp add: block_step_def Let_def uc butlast_append del: of_nat_mult of_nat_add)
    qed
    ultimately show ?thesis
      using Suc fold_long_blocks [of k "rs @ [prev]" q False]
      by (simp only: bl G_def [symmetric] replicate_Suc append_Cons fold_Cons fold_append comp_def
          prod.case fold_Nil id_apply)
  qed
qed

subsection \<open>Valid ranges\<close>

text \<open>
  What the code means by valid: every range is not empty, and the ranges descend with at least one
  missing packet between them, over the natural numbers.
\<close>

definition range_above :: "AckRange \<Rightarrow> AckRange \<Rightarrow> bool" where
  "range_above p r \<longleftrightarrow> unat (ar_Last r) + 1 < unat (ar_First p)"

definition ranges_ok :: "AckRange list \<Rightarrow> bool" where
  "ranges_ok rs \<longleftrightarrow> (\<forall>r\<in>set rs. ar_First r \<le> ar_Last r) \<and> sorted_wrt range_above rs"

lemma ranges_ok_Cons2:
  "ranges_ok (p # r # rs) \<longleftrightarrow> ar_First p \<le> ar_Last p \<and> range_above p r \<and> ranges_ok (r # rs)"
  by (fastforce simp: ranges_ok_def range_above_def word_le_nat_alt)

lemma validateAckRanges_loop_iff:
  assumes "\<forall>r\<in>set rs. ar_First r \<le> ar_Last r \<and> unat (ar_Last r) < 2 ^ 64 - 1"
  shows "validateAckRanges_loop rs \<longleftrightarrow> ranges_ok rs"
  using assms
proof (induction rs rule: validateAckRanges_loop.induct)
  case (1 p r rs)
  have "unat (ar_Last r + 1) = unat (ar_Last r) + 1"
    using "1.prems" by (auto simp: unat_word_ariths)
  then show ?case
    using 1 by (auto simp: ranges_ok_Cons2 range_above_def word_le_nat_alt)
qed (auto simp: ranges_ok_def)

lemma validateAckRanges_iff:
  assumes "\<forall>r\<in>set rs. unat (ar_Last r) < 2 ^ 64 - 1"
  shows "validateAckRanges largest rs \<longleftrightarrow>
    rs = [] \<or> (2 \<le> length rs \<and> ar_Last (hd rs) = largest \<and> ranges_ok rs)"
proof (cases "\<forall>r\<in>set rs. ar_First r \<le> ar_Last r")
  case True
  then show ?thesis
    using validateAckRanges_loop_iff [of rs] assms
    by (cases rs; cases "tl rs") (auto simp: validateAckRanges_def list_ex_iff not_le)
next
  case False
  then have "list_ex (\<lambda>ackRange. ar_First ackRange > ar_Last ackRange) rs"
    by (auto simp: list_ex_iff not_le)
  then show ?thesis using False
    by (auto simp: validateAckRanges_def ranges_ok_def)
qed

lemma unat_range_gap:
  "range_above p r \<Longrightarrow> unat (range_gap p r) = unat (ar_First p) - unat (ar_Last r) - 1"
proof -
  assume a: "range_above p r"
  then have "ar_Last r \<le> ar_First p" by (simp add: range_above_def word_le_nat_alt)
  then have u: "unat (ar_First p - ar_Last r) = unat (ar_First p) - unat (ar_Last r)"
    by (simp add: unat_sub)
  then have "1 \<le> ar_First p - ar_Last r"
    using a by (simp add: range_above_def word_le_nat_alt)
  then show ?thesis using u by (simp add: range_gap_def unat_sub)
qed

lemma range_gap_pos: "range_above p r \<Longrightarrow> 0 < unat (range_gap p r)"
  by (simp add: unat_range_gap) (simp add: range_above_def)

lemma unat_range_length:
  assumes "ar_First r \<le> ar_Last r" "0 < ar_First r"
  shows "unat (range_length r) = unat (ar_Last r) - unat (ar_First r) + 1"
proof -
  have "unat (ar_Last r - ar_First r) = unat (ar_Last r) - unat (ar_First r)"
    using assms(1) by (simp add: unat_sub)
  moreover have "0 < unat (ar_First r)" using assms(2) by (simp add: word_less_nat_alt)
  ultimately show ?thesis
    using unat_bound [of "ar_Last r"] assms(1) unfolding range_length_def
    by (simp add: unat_word_ariths(1) word_le_nat_alt)
qed

subsection \<open>Truncation to 255 blocks\<close>

text \<open>
  The ranges after the first that a frame can carry when \<open>n\<close> blocks are taken: the frame stops
  before the range that would make it 255 or more.
\<close>

fun writable :: "nat \<Rightarrow> AckRange list \<Rightarrow> AckRange list" where
  "writable n (p # r # rs) =
     (let k = nblocks (unat (range_gap p r))
      in if n + k < 255 then r # writable (n + k) (r # rs) else [])"
| "writable n rs = []"

fun blocks_between :: "AckRange list \<Rightarrow> (u8 \<times> u64) list" where
  "blocks_between (p # r # rs) =
     blocks_of (unat (range_gap p r)) (range_length r) @ blocks_between (r # rs)"
| "blocks_between rs = []"

lemma writable_prefix: "\<exists>zs. tl rs = writable n rs @ zs"
  by (induction n rs rule: writable.induct) (auto simp: Let_def)

lemma ranges_ok_append: "ranges_ok (xs @ ys) \<Longrightarrow> ranges_ok xs \<and> ranges_ok ys"
  by (auto simp: ranges_ok_def sorted_wrt_append)

lemma ranges_ok_written:
  assumes "ranges_ok (p # rs)"
  shows "ranges_ok (p # writable n (p # rs))"
proof -
  obtain zs where "rs = writable n (p # rs) @ zs" using writable_prefix [of "p # rs" n] by auto
  then show ?thesis using assms ranges_ok_append [of "p # writable n (p # rs)" zs] by simp
qed

lemma gap_blocks_bound: "unat (gap_blocks gap) < 2 ^ 60"
proof -
  have "nblocks (unat gap) < 2 ^ 60" if "0 < unat gap"
    using unat_bound [of gap] by (simp add: nblocks_def less_mult_imp_div_less)
  moreover have "gap_blocks gap = 0" if "unat gap = 0"
    using that by (simp add: gap_blocks_def unat_eq_zero)
  ultimately show ?thesis using unat_gap_blocks [of gap] by (cases "unat gap = 0") auto
qed

lemma numWritableNackRanges_loop_eq:
  assumes "ranges_ok rs" "unat n < 255"
  shows "unat (numWritableNackRanges_loop n rs) =
    unat n + length (blocks_between (hd rs # writable (unat n) rs)) \<and>
    unat (numWritableNackRanges_loop n rs) < 255"
  using assms
proof (induction n rs rule: numWritableNackRanges_loop.induct)
  case (1 n p r rs)
  let ?k = "gap_blocks (range_gap p r)"
  have above: "range_above p r" and ok: "ranges_ok (r # rs)" using "1.prems" by (auto simp: ranges_ok_Cons2)
  have k: "unat ?k = nblocks (unat (range_gap p r))"
    by (rule unat_gap_blocks) (rule range_gap_pos [OF above])
  have nk: "unat (n + ?k) = unat n + unat ?k"
    using gap_blocks_bound [of "range_gap p r"] "1.prems"(2) by (simp add: unat_word_ariths)
  have lt: "n + ?k < 0xFF \<longleftrightarrow> unat n + unat ?k < 255" by (simp add: word_less_nat_alt nk)
  show ?case
  proof (cases "n + ?k < 0xFF")
    case True
    then have "unat (n + ?k) < 255" by (simp add: word_less_nat_alt)
    then show ?thesis
      using "1.IH" [OF refl True ok] True lt k nk range_gap_pos [OF above]
      by (simp add: length_blocks_of)
  next
    case False
    then show ?thesis using lt k "1.prems"(2) by (simp add: Let_def)
  qed
qed simp_all

lemma hd_writable: "writable n (p # rs) = r # ws \<Longrightarrow> \<exists>rs'. rs = r # rs'"
  using writable_prefix [of "p # rs" n] by auto

lemma blocks_between_pos:
  assumes "ranges_ok (p # rs)" "writable n (p # rs) \<noteq> []"
  shows "0 < length (blocks_between (p # writable n (p # rs)))"
proof -
  obtain r ws where w: "writable n (p # rs) = r # ws" using assms(2) by (cases "writable n (p # rs)") auto
  then obtain rs' where "rs = r # rs'" using hd_writable by blast
  then have "range_above p r" using assms(1) by (simp add: ranges_ok_Cons2)
  from range_gap_pos [OF this] show ?thesis using w nblocks_pos by (simp add: length_blocks_of)
qed

lemma writeRanges_loop_eq:
  assumes c: "cut48_ok cut48" and m: "mlen \<in> pn_lens"
    and "\<forall>r\<in>set rs. range_length r < 2 ^ (8 * unat mlen)" "ranges_ok (p # rs)"
    and "writable w0 (p # rs) \<noteq> []" "unat written = w0 + 1"
    and "unat numRanges = w0 + 1 + length (blocks_between (p # writable w0 (p # rs)))"
  shows "writeRanges_loop cut48 bo mlen numRanges written (p # rs) =
    Inr (concat (map (block_bytes bo mlen) (blocks_between (p # writable w0 (p # rs)))), numRanges)"
  using assms(3-)
proof (induction rs arbitrary: p w0 written)
  case Nil
  then show ?case by simp
next
  case (Cons r rs)
  let ?g = "range_gap p r"
  have above: "range_above p r" and ok: "ranges_ok (r # rs)"
    using Cons.prems(2) by (auto simp: ranges_ok_Cons2)
  have g: "0 < unat ?g" by (rule range_gap_pos [OF above])
  define k where "k = nblocks (unat ?g)"
  have k: "unat (gap_blocks ?g) = k" by (simp add: k_def unat_gap_blocks [OF g])
  define ws where "ws = writable (w0 + k) (r # rs)"
  have w: "writable w0 (p # r # rs) = r # ws" "w0 + k < 255"
    using Cons.prems(3) by (auto simp: ws_def k_def Let_def split: if_splits)
  have wr: "writeRange cut48 bo mlen ?g (range_length r) =
      Inr (concat (map (block_bytes bo mlen) (blocks_of (unat ?g) (range_length r))))"
    using Cons.prems(1) by (intro writeRange_eq [OF c m _ g]) simp
  have wk: "unat (written + gap_blocks ?g) = (w0 + k) + 1"
    using Cons.prems(4) k w(2) by (simp add: unat_word_ariths)
  have total: "unat numRanges = (w0 + k) + 1 + length (blocks_between (r # ws))"
    using Cons.prems(5) w g by (simp add: length_blocks_of k_def)
  show ?case
  proof (cases "ws = []")
    case True
    then have "written + gap_blocks ?g = numRanges" using wk total by (intro unat_eqI) simp
    then show ?thesis using True w wr by simp
  next
    case False
    then have "0 < length (blocks_between (r # ws))"
      using blocks_between_pos [OF ok, of "w0 + k"] by (simp add: ws_def)
    then have "\<not> numRanges \<le> written + gap_blocks ?g" using wk total by (simp add: word_le_nat_alt)
    moreover have "writeRanges_loop cut48 bo mlen numRanges (written + gap_blocks ?g) (r # rs) =
        Inr (concat (map (block_bytes bo mlen) (blocks_between (r # ws))), numRanges)"
      unfolding ws_def using Cons.prems(1) ok False wk total
      by (intro Cons.IH) (simp_all add: ws_def)
    ultimately show ?thesis using w wr by (simp add: Let_def)
  qed
qed

text \<open>When even the first gap takes 255 blocks or more, it is written nevertheless.\<close>

lemma writeRanges_loop_overrun:
  assumes c: "cut48_ok cut48" and m: "mlen \<in> pn_lens"
    and "range_length r < 2 ^ (8 * unat mlen)" "range_above p r"
    and "255 \<le> nblocks (unat (range_gap p r))"
  shows "\<exists>bs written. writeRanges_loop cut48 bo mlen 1 1 (p # r # rs) = Inr (bs, written) \<and> written \<noteq> 1"
proof -
  have g: "0 < unat (range_gap p r)" by (rule range_gap_pos [OF assms(4)])
  have k: "255 \<le> unat (gap_blocks (range_gap p r))" using assms(5) by (simp add: unat_gap_blocks [OF g])
  then have u: "unat (1 + gap_blocks (range_gap p r)) = 1 + unat (gap_blocks (range_gap p r))"
    using gap_blocks_bound [of "range_gap p r"] by (simp add: unat_word_ariths)
  then have "1 \<le> 1 + gap_blocks (range_gap p r)" "1 + gap_blocks (range_gap p r) \<noteq> 1"
    using k by (auto simp: word_le_nat_alt unat_eq_zero [symmetric])
  then show ?thesis
    using writeRange_eq [OF c m assms(3) g] by (simp add: Let_def)
qed

subsection \<open>The length of the block lengths\<close>

lemma foldl_max_ge:
  "x \<le> foldl (\<lambda>mx r. if range_length r > mx then range_length r else mx) x rs \<and>
   (\<forall>r\<in>set rs. range_length r \<le> foldl (\<lambda>mx r. if range_length r > mx then range_length r else mx) x rs)"
proof (induction rs arbitrary: x)
  case Nil
  then show ?case by simp
next
  case (Cons r rs)
  let ?y = "if range_length r > x then range_length r else x"
  have "x \<le> ?y" "range_length r \<le> ?y" by auto
  with Cons [of ?y] show ?case by (auto intro: order_trans)
qed

lemma foldl_max_lt:
  "x < b \<Longrightarrow> \<forall>r\<in>set rs. range_length r < b \<Longrightarrow>
   foldl (\<lambda>mx r. if range_length r > mx then range_length r else mx) x rs < b"
  by (induction rs arbitrary: x) auto

lemma deltaLen_fits:
  assumes "x \<le> mx" "mx < 2 ^ 48"
    and "len = (if mx \<le> 0xFF then PacketNumberLen1 else if mx \<le> 0xFFFF then PacketNumberLen2
      else if mx \<le> 0xFFFFFFFF then PacketNumberLen4 else PacketNumberLen6)"
  shows "len \<in> pn_lens \<and> (x :: u64) < 2 ^ (8 * unat len)"
  using assms by (auto simp: pn_lens_def word_less_nat_alt word_le_nat_alt)

lemma getMissingSequenceNumberDeltaLen_ranges:
  assumes "\<forall>r\<in>set rs. range_length r < 2 ^ 48" "r \<in> set rs"
  shows "getMissingSequenceNumberDeltaLen largest lowest rs \<in> pn_lens \<and>
    range_length r < 2 ^ (8 * unat (getMissingSequenceNumberDeltaLen largest lowest rs))"
proof -
  let ?mx = "foldl (\<lambda>mx r. if range_length r > mx then range_length r else mx) 0 rs"
  have "range_length r \<le> ?mx" using foldl_max_ge [of 0 rs] assms(2) by blast
  moreover have "?mx < 2 ^ 48" by (rule foldl_max_lt) (use assms(1) in simp_all)
  moreover have "rs \<noteq> []" using assms(2) by auto
  ultimately show ?thesis
    by (intro deltaLen_fits) (simp_all add: getMissingSequenceNumberDeltaLen_def Let_def)
qed

lemma getMissingSequenceNumberDeltaLen_single:
  assumes "largest - lowest + 1 < 2 ^ 48"
  shows "getMissingSequenceNumberDeltaLen largest lowest [] \<in> pn_lens \<and>
    largest - lowest + 1 < 2 ^ (8 * unat (getMissingSequenceNumberDeltaLen largest lowest []))"
  by (rule deltaLen_fits [OF order_refl assms])
    (simp add: getMissingSequenceNumberDeltaLen_def Let_def)

subsection \<open>Parsing what was written\<close>

lemma range_length_nonzero:
  assumes "ar_First r \<le> ar_Last r" "0 < ar_First r"
  shows "range_length r \<noteq> 0"
  using unat_range_length [OF assms] by auto

lemma ranges_ok_first_pos:
  assumes "ranges_ok (p # rs)" "\<forall>r\<in>set (p # rs). 0 < ar_First r" "r \<in> set (p # rs)"
  shows "range_length r \<noteq> 0" "unat (range_length r) \<le> unat (ar_Last r)"
proof -
  have r: "ar_First r \<le> ar_Last r" "0 < ar_First r" using assms by (auto simp: ranges_ok_def)
  then have "0 < unat (ar_First r)" "unat (ar_First r) \<le> unat (ar_Last r)"
    by (simp_all add: word_less_nat_alt word_le_nat_alt)
  then show "range_length r \<noteq> 0" "unat (range_length r) \<le> unat (ar_Last r)"
    using unat_range_length [OF r] range_length_nonzero [OF r] by simp_all
qed

lemma fold_blocks_between:
  assumes "ranges_ok (p # ws)" "\<forall>r\<in>set ws. range_length r \<noteq> 0"
  shows "fold (\<lambda>(g, l). block_step g l) (blocks_between (p # ws)) (xs @ [p], False, c) =
    (xs @ p # ws, False, if ws = [] then c else True)"
  using assms
proof (induction ws arbitrary: p xs c)
  case Nil
  then show ?case by simp
next
  case (Cons r ws)
  have "range_above p r" "ranges_ok (r # ws)" using Cons.prems(1) by (auto simp: ranges_ok_Cons2)
  then show ?case
    using Cons.IH [of r "xs @ [p]" True] Cons.prems(2) fold_blocks_of [of p r xs c]
    by (simp add: range_gap_pos)
qed

lemma parseRanges_written:
  assumes ok: "ranges_ok (p # ws)" "\<forall>r\<in>set (p # ws). 0 < ar_First r" and ne: "ws \<noteq> []"
    and len: "\<forall>r\<in>set ws. range_length r < 2 ^ (8 * unat mlen)" "unat mlen \<le> 6"
    and n: "unat n = length (blocks_between (p # ws))"
  shows "parseRanges bo mlen n (ar_Last p) (range_length p)
      (concat (map (block_bytes bo mlen) (blocks_between (p # ws))) @ r) = Inr (p # ws, r)"
proof -
  have small: "\<forall>b\<in>set (blocks_between xs). snd b < 2 ^ (8 * unat mlen)"
    if "\<forall>r\<in>set (tl xs). range_length r < 2 ^ (8 * unat mlen)" for xs
    using that
  proof (induction xs rule: blocks_between.induct)
    case (1 p r rs)
    then have "range_length r < 2 ^ (8 * unat mlen)" by simp
    moreover from this have "0 < (2 :: u64) ^ (8 * unat mlen)" by (rule le_less_trans [OF word_zero_le])
    ultimately show ?case using 1 by (auto simp: blocks_of_def)
  qed simp_all
  have "mkRange (ar_Last p - range_length p + 1) (ar_Last p) = p"
    by (simp add: range_length_def mkRange_def)
  moreover have "\<forall>r\<in>set ws. range_length r \<noteq> 0" using ranges_ok_first_pos(1) [OF ok] by simp
  ultimately show ?thesis
    using parseBlocks_loop_bytes [OF small [of "p # ws"] len(2), of bo "([p], False, False)" r]
      fold_blocks_between [OF ok(1), of "[]" False] len(1) ne n
    by (simp add: parseRanges_def pbind_def pret_def)
qed

subsection \<open>What the parser accepts\<close>

text \<open>
  A range that was parsed is not empty and never covers \<open>2 ^ 48\<close> packets or more, so
  \<open>validateAckRanges\<close> is not fooled by a wrapped packet number.
\<close>

definition block_inv :: "block_state \<Rightarrow> bool" where
  "block_inv = (\<lambda>(rs, inLong, complete). rs \<noteq> [] \<and> (\<forall>r\<in>set rs. range_length r < 2 ^ 48) \<and>
     (\<forall>r\<in>set (butlast rs). range_length r \<noteq> 0) \<and>
     (if inLong then range_length (last rs) = 0 \<and> \<not> complete else range_length (last rs) \<noteq> 0))"

lemma block_step_inv:
  assumes "block_inv st" "len < 2 ^ 48"
  shows "block_inv (block_step gap len st)"
proof -
  obtain rs il c where st: "st = (rs, il, c)" by (cases st)
  then obtain xs q where rs: "rs = xs @ [q]"
    using assms(1) by (cases rs rule: rev_cases) (auto simp: block_inv_def)
  show ?thesis
  proof (cases il)
    case True
    then have "range_length q = 0" using assms(1) st rs by (simp add: block_inv_def)
    then have "range_length (mkRange (ar_First q - (ucast gap + len)) (ar_Last q - ucast gap)) = len"
      by (simp add: range_length_def algebra_simps)
    then show ?thesis
      using True assms st rs by (auto simp: block_inv_def block_step_def Let_def word_neq_0_conv)
  next
    case False
    define lst where "lst = ar_First q - ucast gap - 1"
    have "range_length (mkRange (lst - len + 1) lst) = len" by (simp add: range_length_def)
    moreover have "block_step gap len st =
        ((xs @ [q]) @ [mkRange (lst - len + 1) lst], len = 0, if len > 0 then True else False)"
      using False st rs by (simp add: block_step_def lst_def [symmetric])
    ultimately show ?thesis
      using False assms st rs by (auto simp: block_inv_def butlast_append)
  qed
qed

lemma parseBlocks_loop_inv:
  assumes "block_inv st" "unat mlen \<le> 6" "parseBlocks_loop bo mlen n st bs = Inr (st', r)"
  shows "block_inv st'"
  using assms(1,3)
proof (induction n arbitrary: st bs)
  case 0
  then show ?case by (simp add: pret_def)
next
  case (Suc n)
  from Suc.prems(2) obtain gap len s1 s2 where
    "readByte bs = Inr (gap, s1)" "ReadUintN bo mlen s1 = Inr (len, s2)"
    "parseBlocks_loop bo mlen n (block_step gap len st) s2 = Inr (st', r)"
    by (auto simp: pbind_ok_iff)
  moreover from this(2) have "len < 2 ^ 48"
  proof -
    have "take_bit (8 * unat mlen) len = len"
      using bo.readN_consumes [OF \<open>ReadUintN bo mlen s1 = Inr (len, s2)\<close>] assms(2) by simp
    then have "len < 2 ^ (8 * unat mlen)" using take_bit_lt [of "8 * unat mlen" len] assms(2) by simp
    moreover have "(2 :: u64) ^ (8 * unat mlen) \<le> 2 ^ 48"
    proof -
      have "(2 :: nat) ^ (8 * unat mlen) \<le> 2 ^ 48" using assms(2) by (intro power_increasing) auto
      moreover have "unat ((2 :: u64) ^ (8 * unat mlen)) = 2 ^ (8 * unat mlen)"
        using assms(2) by (intro unat_pow2) simp
      ultimately show ?thesis by (simp add: word_le_nat_alt)
    qed
    ultimately show ?thesis by (rule less_le_trans)
  qed
  ultimately show ?case using Suc.IH block_step_inv [OF Suc.prems(1)] by blast
qed

lemma parseRanges_sound:
  assumes "parseRanges bo mlen n largest abl bs = Inr (rs, r)"
    and "unat mlen \<le> 6" "abl \<noteq> 0" "abl < 2 ^ 48"
  shows "\<forall>q\<in>set rs. range_length q \<noteq> 0 \<and> range_length q < 2 ^ 48"
proof -
  have init: "block_inv ([mkRange (largest - abl + 1) largest], False, False)"
    using assms(3,4) by (simp add: block_inv_def range_length_def)
  obtain rs' il c where p: "parseBlocks_loop bo mlen (unat n)
        ([mkRange (largest - abl + 1) largest], False, False) bs = Inr ((rs', il, c), r)"
      "rs = (if \<not> c then butlast rs' else rs')"
    using assms(1) by (auto simp: parseRanges_def pbind_ok_iff pret_ok_iff)
  have inv: "block_inv (rs', il, c)" by (rule parseBlocks_loop_inv [OF init assms(2) p(1)])
  then obtain xs q where "rs' = xs @ [q]"
    by (cases rs' rule: rev_cases) (auto simp: block_inv_def)
  then show ?thesis using inv p(2) by (auto simp: block_inv_def split: if_splits)
qed

lemma validateAckRanges_loop_First:
  "validateAckRanges_loop (p # rs) \<Longrightarrow> r \<in> set rs \<Longrightarrow> ar_First r < ar_First p"
proof (induction rs arbitrary: p)
  case (Cons q rs)
  then have "ar_First q < ar_First p" "validateAckRanges_loop (q # rs)" by (auto split: if_splits)
  with Cons show ?case by (auto dest: less_trans)
qed simp

lemma validateAckRanges_sound:
  assumes v: "validateAckRanges largest rs" and l: "largest < 2 ^ 48"
    and rl: "\<forall>q\<in>set rs. range_length q \<noteq> 0 \<and> range_length q < 2 ^ 48"
  shows "rs = [] \<or> (2 \<le> length rs \<and> ar_Last (hd rs) = largest \<and> ranges_ok rs)"
proof (cases rs)
  case Nil
  then show ?thesis by simp
next
  case (Cons p ps)
  with v have ok: "\<forall>q\<in>set rs. ar_First q \<le> ar_Last q" "validateAckRanges_loop rs" "ar_Last p = largest"
    by (auto simp: validateAckRanges_def list_ex_iff not_le split: if_splits)
  have pf: "unat (ar_First p) < 2 ^ 48"
  proof -
    have "unat (ar_First p) \<le> unat largest" using ok Cons by (auto simp: word_le_nat_alt)
    then show ?thesis using l by (simp add: word_less_nat_alt)
  qed
  have "unat (ar_Last q) < 2 ^ 64 - 1" if q: "q \<in> set rs" for q
  proof -
    have f: "unat (ar_First q) \<le> unat (ar_First p)"
    proof (cases "q = p")
      case False
      then have "q \<in> set ps" using q Cons by auto
      then have "ar_First q < ar_First p" using validateAckRanges_loop_First ok(2) Cons by blast
      then show ?thesis by (simp add: word_less_nat_alt)
    qed simp
    have "ar_First q \<le> ar_Last q" using ok(1) q by blast
    then have d: "unat (ar_Last q - ar_First q) = unat (ar_Last q) - unat (ar_First q)"
      by (simp add: unat_sub)
    have r: "0 < unat (range_length q)" "unat (range_length q) < 2 ^ 48"
      using rl q by (auto simp: word_less_nat_alt unat_gt_0)
    have "unat (ar_Last q - ar_First q) = unat (range_length q) - 1"
      using unat_minus_one [of "range_length q"] r(1) by (auto simp: range_length_def unat_gt_0)
    then show ?thesis using d r f pf by simp
  qed
  then show ?thesis using v validateAckRanges_iff [of rs largest] by blast
qed

lemma validateAckRanges_zero: "validateAckRanges 0 rs \<Longrightarrow> rs = []"
proof (rule ccontr)
  assume v: "validateAckRanges 0 rs" and "rs \<noteq> []"
  moreover from this have "length rs \<noteq> 1" by (auto simp: validateAckRanges_def)
  ultimately obtain p q qs where "rs = p # q # qs" by (cases rs; cases "tl rs") auto
  with v have "ar_First p \<le> 0" "ar_First q < ar_First p"
    by (auto simp: validateAckRanges_def not_less split: if_splits)
  then show False by simp
qed

text \<open>The parser never leaves the list of ranges empty, so its last element can be taken.\<close>

lemma parseBlocks_loop_length:
  "parseBlocks_loop bo mlen n (rs, il, c) bs = Inr ((rs', il', c'), r) \<Longrightarrow> rs \<noteq> [] \<Longrightarrow> length rs \<le> length rs'"
proof (induction n arbitrary: rs il c bs)
  case 0
  then show ?case by (simp add: pret_def)
next
  case (Suc n)
  from Suc.prems(1) obtain gap len s where
    "parseBlocks_loop bo mlen n (block_step gap len (rs, il, c)) s = Inr ((rs', il', c'), r)"
    by (auto simp: pbind_ok_iff)
  moreover obtain rs1 il1 c1 where st: "block_step gap len (rs, il, c) = (rs1, il1, c1)"
    by (cases "block_step gap len (rs, il, c)")
  moreover have "rs1 \<noteq> []" "length rs \<le> length rs1"
    using st Suc.prems(2) by (auto simp: block_step_def Let_def split: if_splits)
  ultimately show ?case using Suc.IH [of rs1 il1 c1 s] by simp
qed

lemma parseRanges_nonempty:
  assumes "parseRanges bo mlen n largest abl bs = Inr (rs, r)" "n \<noteq> 0"
  shows "rs \<noteq> []"
proof -
  obtain rs' il c where p: "parseBlocks_loop bo mlen (unat n)
        ([mkRange (largest - abl + 1) largest], False, False) bs = Inr ((rs', il, c), r)"
      "rs = (if \<not> c then butlast rs' else rs')"
    using assms(1) by (auto simp: parseRanges_def pbind_ok_iff pret_ok_iff)
  obtain k where "unat n = Suc k" using assms(2) by (cases "unat n") (auto simp: unat_eq_zero)
  then obtain gap len s where *: "parseBlocks_loop bo mlen k
      (block_step gap len ([mkRange (largest - abl + 1) largest], False, False)) s = Inr ((rs', il, c), r)"
    using p(1) by (auto simp: pbind_ok_iff)
  obtain rs1 il1 c1 where st: "block_step gap len ([mkRange (largest - abl + 1) largest], False, False) = (rs1, il1, c1)"
    by (cases "block_step gap len ([mkRange (largest - abl + 1) largest], False, False)")
  then have "length rs1 = 2" by (auto simp: block_step_def Let_def)
  then have "2 \<le> length rs'" using parseBlocks_loop_length [OF * [unfolded st]] by (cases rs1) auto
  then show ?thesis using p(2) by (cases rs') auto
qed

subsection \<open>The set of acknowledged packets\<close>

definition range_set :: "AckRange \<Rightarrow> PacketNumber set" where
  "range_set r = {ar_First r .. ar_Last r}"

definition ranges_set :: "AckRange list \<Rightarrow> PacketNumber set" where
  "ranges_set rs = (\<Union>r\<in>set rs. range_set r)"

lemma ranges_ok_last: "ranges_ok rs \<Longrightarrow> r \<in> set rs \<Longrightarrow> ar_First (last rs) \<le> ar_First r"
proof (induction rs)
  case (Cons p rs)
  show ?case
  proof (cases "rs = []")
    case False
    then have "range_above p (last rs)" "ar_First (last rs) \<le> ar_Last (last rs)"
      using Cons.prems(1) by (auto simp: ranges_ok_def)
    then have "ar_First (last rs) \<le> ar_First p" by (auto simp: range_above_def word_le_nat_alt)
    then show ?thesis using Cons False by (auto simp: ranges_ok_def)
  qed (use Cons in auto)
qed simp

lemma ranges_ok_hd: "ranges_ok rs \<Longrightarrow> r \<in> set rs \<Longrightarrow> ar_Last r \<le> ar_Last (hd rs)"
  by (cases rs) (fastforce simp: ranges_ok_def range_above_def word_le_nat_alt)+

lemma acksPacket_iff:
  assumes "ranges_ok rs" "rs \<noteq> []" "ar_Last (hd rs) = largest" "ar_First (last rs) = lowest"
  shows "acksPacket lowest largest rs p \<longleftrightarrow> p \<in> ranges_set rs"
proof -
  have "lowest \<le> p \<and> p \<le> largest" if "r \<in> set rs" "ar_First r \<le> p" "p \<le> ar_Last r" for r
    using ranges_ok_last [OF assms(1) that(1)] ranges_ok_hd [OF assms(1) that(1)] that(2,3) assms(3,4)
    by auto
  then have "lowest \<le> p \<and> p \<le> largest" if "p \<in> ranges_set rs"
    using that by (auto simp: ranges_set_def range_set_def)
  moreover have "list_ex (\<lambda>r. ar_First r \<le> p \<and> p \<le> ar_Last r) rs \<longleftrightarrow> p \<in> ranges_set rs"
    by (auto simp: ranges_set_def range_set_def list_ex_iff)
  ultimately show ?thesis using assms(2) by (auto simp: acksPacket_def)
qed

lemma acksPacket_single: "acksPacket lowest largest [] p \<longleftrightarrow> p \<in> {lowest .. largest}"
  by (auto simp: acksPacket_def not_less)

lemma ranges_set_written:
  fixes n :: nat
  assumes "ranges_ok (p # rs)"
  defines "ws \<equiv> p # writable n (p # rs)"
  shows "ranges_set ws = ranges_set (p # rs) \<inter> {ar_First (last ws) ..}"
proof -
  obtain zs where zs: "rs = writable n (p # rs) @ zs" using writable_prefix [of "p # rs" n] by auto
  have ok: "ranges_ok (ws @ zs)" using assms zs by (metis append_Cons)
  have "x < ar_First (last ws)" if "z \<in> set zs" "x \<in> range_set z" for x z
  proof -
    have "range_above (last ws) z" using ok that(1) last_in_set [of ws]
      by (auto simp: ranges_ok_def sorted_wrt_append ws_def)
    then show ?thesis using that(2)
      by (auto simp: range_above_def range_set_def word_less_nat_alt word_le_nat_alt)
  qed
  moreover have "ar_First (last ws) \<le> x" if "w \<in> set ws" "x \<in> range_set w" for x w
    using ranges_ok_last [of ws w] ranges_ok_append [OF ok] that by (auto simp: range_set_def)
  moreover have "set (p # rs) = set ws \<union> set zs"
    using arg_cong [OF zs, of set] by (simp add: ws_def)
  then have "ranges_set (p # rs) = ranges_set ws \<union> ranges_set zs"
    by (auto simp: ranges_set_def)
  ultimately show ?thesis by (force simp: ranges_set_def not_le)
qed

subsection \<open>The blocks of a whole frame\<close>

text \<open>
  The packets the code acknowledges with a frame: \<open>rs\<close> is empty when there are no gaps. The last
  condition is that the first gap alone does not take 255 blocks; otherwise the writer fails.
\<close>

definition ack_wf :: "PacketNumber \<Rightarrow> PacketNumber \<Rightarrow> AckRange list \<Rightarrow> bool" where
  "ack_wf largest lowest rs \<longleftrightarrow> 0 < lowest \<and> lowest \<le> largest \<and> largest < 2 ^ 48 \<and>
     (rs = [] \<or> 2 \<le> length rs \<and> ranges_ok rs \<and> ar_Last (hd rs) = largest \<and>
        ar_First (last rs) = lowest \<and> writable 0 rs \<noteq> [])"

definition seen_ranges :: "AckRange list \<Rightarrow> AckRange list" where
  "seen_ranges rs = (if rs = [] then [] else hd rs # writable 0 rs)"

definition seen_lowest :: "PacketNumber \<Rightarrow> AckRange list \<Rightarrow> PacketNumber" where
  "seen_lowest lowest rs = (if rs = [] then lowest else ar_First (last (seen_ranges rs)))"

definition first_block_length :: "PacketNumber \<Rightarrow> PacketNumber \<Rightarrow> AckRange list \<Rightarrow> u64" where
  "first_block_length largest lowest rs =
     (if rs = [] then largest - lowest + 1 else range_length (hd rs))"

definition ack_block_bytes ::
    "ByteOrder \<Rightarrow> PacketNumberLen \<Rightarrow> PacketNumber \<Rightarrow> PacketNumber \<Rightarrow> AckRange list \<Rightarrow> u8 list" where
  "ack_block_bytes bo mlen largest lowest rs =
     pn_bytes bo mlen (first_block_length largest lowest rs) @
     concat (map (block_bytes bo mlen) (blocks_between (seen_ranges rs)))"

lemma decode_code_len: "len \<in> pn_lens \<Longrightarrow> decode_len (code_len len) = len"
  by (auto simp: pn_lens_def PacketNumberLen_defs decode_len_def code_len_def)

lemma code_len_values: "len \<in> pn_lens \<Longrightarrow> code_len len \<in> {0, 1, 2, 3}"
  by (auto simp: pn_lens_def PacketNumberLen_defs code_len_def)

lemma pn_lens_le: "len \<in> pn_lens \<Longrightarrow> unat len \<le> 6"
  by (auto simp: pn_lens_def)

lemma wf_First:
  assumes wf: "ack_wf largest lowest rs" and r: "r \<in> set rs"
  shows "0 < ar_First r"
proof -
  from r have "rs \<noteq> []" by auto
  then have "0 < ar_First (last rs)" "ranges_ok rs" using wf by (auto simp: ack_wf_def)
  then show ?thesis using ranges_ok_last [OF _ r] by (metis less_le_trans)
qed

lemma wf_range_length:
  assumes wf: "ack_wf largest lowest rs" and r: "r \<in> set rs"
  shows "range_length r \<noteq> 0" "range_length r \<le> largest" "range_length r < 2 ^ 48"
proof -
  from r have "rs \<noteq> []" by auto
  then have ok: "ranges_ok rs" "ar_Last (hd rs) = largest" "largest < 2 ^ 48"
    using wf by (auto simp: ack_wf_def)
  then obtain p ps where rs: "rs = p # ps" using \<open>rs \<noteq> []\<close> by (cases rs) auto
  have pos: "\<forall>r\<in>set (p # ps). 0 < ar_First r" using wf_First [OF wf] rs by simp
  show "range_length r \<noteq> 0" using ranges_ok_first_pos(1) [OF _ pos, of r] ok(1) r rs by simp
  have "unat (range_length r) \<le> unat (ar_Last r)"
    using ranges_ok_first_pos(2) [OF _ pos, of r] ok(1) r rs by simp
  also have "ar_Last r \<le> largest" using ranges_ok_hd [OF ok(1) r] ok(2) by simp
  finally show "range_length r \<le> largest" by (simp add: word_le_nat_alt)
  then show "range_length r < 2 ^ 48" using ok(3) by (rule le_less_trans)
qed

lemma wf_mlen:
  assumes wf: "ack_wf largest lowest rs"
    and mlen: "mlen = getMissingSequenceNumberDeltaLen largest lowest rs"
  shows "first_block_length largest lowest rs \<noteq> 0" "first_block_length largest lowest rs \<le> largest"
    "first_block_length largest lowest rs < 2 ^ (8 * unat mlen)" "mlen \<in> pn_lens"
    "\<forall>r\<in>set rs. range_length r < 2 ^ (8 * unat mlen)"
proof -
  let ?r = "mkRange lowest largest"
  have single: "range_length ?r \<noteq> 0" "range_length ?r \<le> largest"
    using range_length_nonzero [of ?r] ranges_ok_first_pos(2) [of ?r "[]" ?r] wf
    by (auto simp: ack_wf_def ranges_ok_def word_le_nat_alt)
  have e: "first_block_length largest lowest rs = (if rs = [] then range_length ?r else range_length (hd rs))"
    by (simp add: first_block_length_def range_length_def)
  show "first_block_length largest lowest rs \<noteq> 0" "first_block_length largest lowest rs \<le> largest"
    using e single wf_range_length [OF wf, of "hd rs"] by (auto simp: hd_in_set)
  have "range_length ?r < 2 ^ 48" using single(2) wf by (auto simp: ack_wf_def intro: le_less_trans)
  then have s: "largest - lowest + 1 < 2 ^ 48" by (simp add: range_length_def)
  show "mlen \<in> pn_lens" "first_block_length largest lowest rs < 2 ^ (8 * unat mlen)"
    using getMissingSequenceNumberDeltaLen_single [OF s]
      getMissingSequenceNumberDeltaLen_ranges [of rs "hd rs"] wf_range_length(3) [OF wf]
    by (cases "rs = []"; auto simp: mlen first_block_length_def hd_in_set)+
  show "\<forall>r\<in>set rs. range_length r < 2 ^ (8 * unat mlen)"
    using getMissingSequenceNumberDeltaLen_ranges [of rs] wf_range_length(3) [OF wf] mlen by blast
qed

text \<open>The number of blocks announced, and the ranges that are written.\<close>

lemma wf_seen:
  assumes wf: "ack_wf largest lowest rs" and ne: "rs \<noteq> []"
  shows "ranges_ok (seen_ranges rs)" "2 \<le> length (seen_ranges rs)" "set (seen_ranges rs) \<subseteq> set rs"
    "hd (seen_ranges rs) = hd rs"
    "unat (numWritableNackRanges rs) = 1 + length (blocks_between (seen_ranges rs))"
    "length (blocks_between (seen_ranges rs)) < 255"
    "0 < length (blocks_between (seen_ranges rs))"
proof -
  obtain p ps where rs: "rs = p # ps" using ne by (cases rs) auto
  have ok: "ranges_ok (p # ps)" and w: "writable 0 (p # ps) \<noteq> []"
    using wf rs by (auto simp: ack_wf_def)
  have sr: "seen_ranges rs = p # writable 0 (p # ps)" by (simp add: seen_ranges_def rs)
  show "ranges_ok (seen_ranges rs)" unfolding sr by (rule ranges_ok_written [OF ok])
  show "2 \<le> length (seen_ranges rs)" using w by (cases "writable 0 (p # ps)") (auto simp: sr)
  show "set (seen_ranges rs) \<subseteq> set rs"
  proof -
    obtain zs where "ps = writable 0 (p # ps) @ zs" using writable_prefix [of "p # ps" 0] by auto
    then have "set ps = set (writable 0 (p # ps)) \<union> set zs" using set_append by metis
    then show ?thesis by (auto simp: sr rs [symmetric]) (simp add: rs)+
  qed
  show "hd (seen_ranges rs) = hd rs" unfolding sr by (simp add: rs)
  have n: "unat (numWritableNackRanges_loop 0 rs) = length (blocks_between (seen_ranges rs))"
    "unat (numWritableNackRanges_loop 0 rs) < 255"
    using numWritableNackRanges_loop_eq [of rs 0] ok unfolding sr by (simp_all add: rs)
  show "unat (numWritableNackRanges rs) = 1 + length (blocks_between (seen_ranges rs))"
    using n ne by (simp add: numWritableNackRanges_def unat_word_ariths)
  show "length (blocks_between (seen_ranges rs)) < 255" using n by simp
  show "0 < length (blocks_between (seen_ranges rs))"
    using blocks_between_pos [OF ok w] by (simp add: sr)
qed

lemma wf_seen_subset:
  assumes wf: "ack_wf largest lowest rs" and ne: "rs \<noteq> []"
  shows "\<forall>r\<in>set (tl (seen_ranges rs)). range_length r < 2 ^ (8 * unat
      (getMissingSequenceNumberDeltaLen largest lowest rs))"
    "\<forall>r\<in>set (seen_ranges rs). 0 < ar_First r"
proof -
  have sub: "set (seen_ranges rs) \<subseteq> set rs" by (rule wf_seen(3) [OF wf ne])
  have "set (tl (seen_ranges rs)) \<subseteq> set rs" using sub by (cases "seen_ranges rs") auto
  then show "\<forall>r\<in>set (tl (seen_ranges rs)). range_length r < 2 ^ (8 * unat
      (getMissingSequenceNumberDeltaLen largest lowest rs))"
    using wf_mlen(5) [OF wf refl] by blast
  show "\<forall>r\<in>set (seen_ranges rs). 0 < ar_First r" using sub wf_First [OF wf] by blast
qed

lemma writeAckBlocks_wf:
  assumes wf: "ack_wf largest lowest rs" and c: "cut48_ok cut48"
    and mlen: "mlen = getMissingSequenceNumberDeltaLen largest lowest rs"
  shows "writeAckBlocks cut48 bo mlen (numWritableNackRanges rs) largest lowest rs bug =
    Inr (ack_block_bytes bo mlen largest lowest rs)"
proof (cases rs)
  case Nil
  then show ?thesis
    using writeSized_eq [OF c wf_mlen(4) [OF wf mlen] wf_mlen(3) [OF wf mlen]]
    by (simp add: writeAckBlocks_def numWritableNackRanges_def frame_simps ack_block_bytes_def
        seen_ranges_def first_block_length_def)
next
  case (Cons p ps)
  have ok: "ranges_ok (p # ps)" "ar_Last p = largest" "ar_First (last rs) = lowest" "writable 0 (p # ps) \<noteq> []"
    using wf Cons by (auto simp: ack_wf_def)
  have n: "unat (numWritableNackRanges rs) = 0 + 1 + length (blocks_between (p # writable 0 (p # ps)))"
    using wf_seen(5) [OF wf] Cons by (simp add: seen_ranges_def)
  have ln: "\<forall>r\<in>set ps. range_length r < 2 ^ (8 * unat mlen)" using wf_mlen(5) [OF wf mlen] Cons by simp
  have loop: "writeRanges_loop cut48 bo mlen (numWritableNackRanges rs) 1 (p # ps) =
      Inr (concat (map (block_bytes bo mlen) (blocks_between (p # writable 0 (p # ps)))), numWritableNackRanges rs)"
    by (rule writeRanges_loop_eq [OF c wf_mlen(4) [OF wf mlen] ln ok(1,4) _ n]) simp
  have "rs ! (length rs - 1) = last rs" using Cons by (simp add: last_conv_nth)
  moreover have "largest - ar_First p + 1 = range_length p" using ok(2) by (simp add: range_length_def)
  moreover have "writeSized cut48 bo mlen (range_length p) = Inr (pn_bytes bo mlen (range_length p))"
    using wf_mlen(3) [OF wf mlen] Cons
    by (intro writeSized_eq [OF c wf_mlen(4) [OF wf mlen]]) (simp add: first_block_length_def)
  ultimately show ?thesis
    using loop ok Cons
    by (simp add: writeAckBlocks_def wguard_def ack_block_bytes_def first_block_length_def
        seen_ranges_def)
qed

text \<open>Reading them back, where \<open>n\<close> is the number of blocks announced.\<close>

lemma read_first_block:
  assumes wf: "ack_wf largest lowest rs"
    and mlen: "mlen = getMissingSequenceNumberDeltaLen largest lowest rs"
  shows "ReadUintN bo mlen (ack_block_bytes bo mlen largest lowest rs @ r) =
    Inr (first_block_length largest lowest rs,
         concat (map (block_bytes bo mlen) (blocks_between (seen_ranges rs))) @ r)"
proof -
  have m: "unat mlen \<le> 6" by (rule pn_lens_le [OF wf_mlen(4) [OF wf mlen]])
  have "take_bit (8 * unat mlen) (first_block_length largest lowest rs) = first_block_length largest lowest rs"
    using wf_mlen(3) [OF wf mlen] m by (intro take_bit_small) simp_all
  then show ?thesis using m by (simp add: ack_block_bytes_def read_pn_bytes)
qed

lemma read_ranges:
  assumes wf: "ack_wf largest lowest rs" and ne: "rs \<noteq> []"
    and mlen: "mlen = getMissingSequenceNumberDeltaLen largest lowest rs"
    and n: "n = ucast (numWritableNackRanges rs - 1)"
  shows "parseRanges bo mlen n largest (first_block_length largest lowest rs)
      (concat (map (block_bytes bo mlen) (blocks_between (seen_ranges rs))) @ r) = Inr (seen_ranges rs, r)"
proof -
  obtain ws where ws: "seen_ranges rs = hd rs # ws" using ne by (simp add: seen_ranges_def)
  note seen = wf_seen [OF wf ne, unfolded ws] and sub = wf_seen_subset [OF wf ne, unfolded ws, folded mlen]
  have L: "ar_Last (hd rs) = largest" using wf ne by (simp add: ack_wf_def)
  have "unat (numWritableNackRanges rs - 1) = length (blocks_between (hd rs # ws))"
    using seen(5) by (subst unat_minus_one) (auto simp: unat_eq_zero [symmetric])
  then have un: "unat n = length (blocks_between (hd rs # ws))"
    using n seen(6) by (simp add: unat_ucast_mod)
  have "ws \<noteq> []" using seen(2) by auto
  then show ?thesis
    using parseRanges_written [OF seen(1) sub(2) _ _ pn_lens_le [OF wf_mlen(4) [OF wf mlen]] un, of bo r]
      sub(1) ne L by (simp add: ws first_block_length_def)
qed

lemma validate_seen:
  assumes wf: "ack_wf largest lowest rs"
  shows "validateAckRanges largest (seen_ranges rs)"
proof (cases "rs = []")
  case True
  then show ?thesis by (simp add: seen_ranges_def validateAckRanges_def)
next
  case False
  note seen = wf_seen [OF wf False]
  have L: "ar_Last (hd rs) = largest" "largest < 2 ^ 48" using wf False by (auto simp: ack_wf_def)
  have "unat (ar_Last q) < 2 ^ 64 - 1" if "q \<in> set (seen_ranges rs)" for q
    using ranges_ok_hd [OF seen(1) that] seen(4) L
    by (auto simp: word_le_nat_alt word_less_nat_alt)
  then show ?thesis
    using validateAckRanges_iff [of "seen_ranges rs" largest] seen(1,2,4) L(1) by auto
qed

lemma numWritable_le: "ack_wf largest lowest rs \<Longrightarrow> rs \<noteq> [] \<Longrightarrow>
    \<not> numWritableNackRanges rs > 0xFF \<and> (ucast (numWritableNackRanges rs - 1) :: u8) \<noteq> 0"
proof -
  assume wf: "ack_wf largest lowest rs" and ne: "rs \<noteq> []"
  note seen = wf_seen [OF wf ne]
  have "unat (numWritableNackRanges rs - 1) = length (blocks_between (seen_ranges rs))"
    using seen(5) by (subst unat_minus_one) (auto simp: unat_eq_zero [symmetric])
  then have "unat (ucast (numWritableNackRanges rs - 1) :: u8) = length (blocks_between (seen_ranges rs))"
    using seen(6) by (simp add: unat_ucast_mod)
  then show ?thesis using seen(5,6,7) by (auto simp: word_less_nat_alt)
qed

lemma first_range_single:
  "rs = [] \<Longrightarrow> largest + 1 - first_block_length largest lowest rs = lowest"
  by (simp add: first_block_length_def)

lemma length_ack_block_bytes:
  "length (ack_block_bytes bo mlen largest lowest rs) =
   unat mlen + length (blocks_between (seen_ranges rs)) * (1 + unat mlen)"
  by (simp add: ack_block_bytes_def pn_bytes_def bo.length_enc length_concat comp_def block_bytes_def
      case_prod_unfold sum_list_triv)

text \<open>The set that is acknowledged before and after the trip.\<close>

lemma acksPacket_seen:
  assumes wf: "ack_wf largest lowest rs"
  shows "acksPacket (seen_lowest lowest rs) largest (seen_ranges rs) p \<longleftrightarrow>
    acksPacket lowest largest rs p \<and> seen_lowest lowest rs \<le> p"
proof (cases rs)
  case Nil
  then show ?thesis by (auto simp: seen_ranges_def seen_lowest_def acksPacket_single)
next
  case (Cons q qs)
  have ne: "rs \<noteq> []" using Cons by simp
  note seen = wf_seen [OF wf ne]
  have ok: "ranges_ok (q # qs)" "ar_Last q = largest" "ar_First (last rs) = lowest"
    using wf Cons by (auto simp: ack_wf_def)
  have "acksPacket (seen_lowest lowest rs) largest (seen_ranges rs) p \<longleftrightarrow> p \<in> ranges_set (seen_ranges rs)"
    using seen(2,4) ok Cons by (intro acksPacket_iff [OF seen(1)]) (auto simp: seen_lowest_def)
  also have "\<dots> \<longleftrightarrow> p \<in> ranges_set (q # qs) \<and> seen_lowest lowest rs \<le> p"
    using ranges_set_written [OF ok(1), of 0] Cons by (simp add: seen_ranges_def seen_lowest_def)
  also have "p \<in> ranges_set (q # qs) \<longleftrightarrow> acksPacket lowest largest rs p"
    using acksPacket_iff [OF ok(1), of largest lowest p] ok Cons by simp
  finally show ?thesis .
qed

lemma seen_lowest_ge:
  assumes wf: "ack_wf largest lowest rs"
  shows "lowest \<le> seen_lowest lowest rs"
proof (cases "rs = []")
  case False
  note seen = wf_seen [OF wf False]
  have "last (seen_ranges rs) \<in> set rs" using seen(2,3) last_in_set [of "seen_ranges rs"] by fastforce
  then show ?thesis using ranges_ok_last [of rs] wf False by (auto simp: seen_lowest_def ack_wf_def)
qed (simp add: seen_lowest_def)

subsection \<open>Consumption\<close>

lemma consumes_parseBlocks_loop [consumes_intros]: "consumes 0 (parseBlocks_loop bo mlen n st)"
proof (induction n arbitrary: st)
  case (Suc n)
  show ?case by (simp only: parseBlocks_loop.simps) (intro consumes_intros Suc)
qed (simp add: consumes_pret)

lemma consumes_parseRanges [consumes_intros]: "consumes 0 (parseRanges bo mlen n largest abl)"
  unfolding parseRanges_def by (intro consumes_next) (auto intro!: consumes_intros)

end
