(* ===== verification/Wire_Ack.thy ===== *)
theory Wire_Ack
  imports Ack_Ranges
begin

section \<open>ACK frames: \<open>internal/wire/ack_frame.go\<close>\<close>

text \<open>
  The frame, its writer (which stamps the delay), its parser and its length. The main lemmas: a
  frame that the receiver's history produces is written, and parsed as the same frame with its lowest
  ranges dropped when it needs more than 255 blocks; the length promised is the length written; any
  frame the parser accepts describes disjoint descending ranges, so \<open>AcksPacket\<close> is membership in
  them.
\<close>

record AckFrame =
  ack_PathID :: PathID
  ack_LargestAcked :: PacketNumber
  ack_LowestAcked :: PacketNumber
  ack_AckRanges :: "AckRange list"
  ack_PacketReceivedTime :: int
  ack_DelayTime :: Duration
  ack_Groups :: u8
  ack_Epoch :: u16

definition AckFrame_HasMissingRanges :: "AckFrame \<Rightarrow> bool" where
  "AckFrame_HasMissingRanges f \<longleftrightarrow> length (ack_AckRanges f) > 0"

definition AckFrame_validateAckRanges :: "AckFrame \<Rightarrow> bool" where
  "AckFrame_validateAckRanges f = validateAckRanges (ack_LargestAcked f) (ack_AckRanges f)"

definition AckFrame_AcksPacket :: "AckFrame \<Rightarrow> PacketNumber \<Rightarrow> bool" where
  "AckFrame_AcksPacket f p = acksPacket (ack_LowestAcked f) (ack_LargestAcked f) (ack_AckRanges f) p"

definition AckFrame_deltaLen :: "AckFrame \<Rightarrow> PacketNumberLen" where
  "AckFrame_deltaLen f =
     getMissingSequenceNumberDeltaLen (ack_LargestAcked f) (ack_LowestAcked f) (ack_AckRanges f)"

subsection \<open>Parsing\<close>

fun skipTimestamps :: "ByteOrder \<Rightarrow> nat \<Rightarrow> unit parser" where
  "skipTimestamps bo 0 = pret ()"
| "skipTimestamps bo (Suc n) =
     pbind readByte (\<lambda>_. pbind (ReadUint16 bo) (\<lambda>_. skipTimestamps bo n))"

definition parseTimestamps :: "ByteOrder \<Rightarrow> unit parser" where
  "parseTimestamps bo =
     pbind readByte (\<lambda>numTimestamp.
     if numTimestamp > 0
     then pbind readByte (\<lambda>_. pbind (ReadUint32 bo) (\<lambda>_. skipTimestamps bo (unat numTimestamp - 1)))
     else pret ())"

text \<open>The second half of \<open>ParseAckFrame\<close>: the blocks, their checks and what follows them.\<close>

definition parse_ack_blocks :: "ByteOrder \<Rightarrow> bool \<Rightarrow> u8 \<Rightarrow> AckFrame \<Rightarrow> AckFrame parser" where
  "parse_ack_blocks bo hasMissingRanges missingLen frame =
     (let largestAcked = ack_LargestAcked frame in
     pbind (if hasMissingRanges then readByte else pret 0) (\<lambda>numAckBlocks.
     pbind (pguard (\<not> (hasMissingRanges \<and> numAckBlocks = 0)) (GoErr ''ErrInvalidAckRanges'')) (\<lambda>_.
     pbind (ReadUintN bo missingLen) (\<lambda>ackBlockLength.
     pbind (pguard (\<not> (largestAcked > 0 \<and> ackBlockLength < 1)) (GoErr ''ErrInvalidFirstAckRange'')) (\<lambda>_.
     pbind (pguard (\<not> ackBlockLength > largestAcked) (GoErr ''ErrInvalidAckRanges'')) (\<lambda>_.
     pbind (if hasMissingRanges then parseRanges bo missingLen numAckBlocks largestAcked ackBlockLength
            else pret []) (\<lambda>ranges.
     let frame' = frame\<lparr>ack_AckRanges := ranges,
           ack_LowestAcked :=
             (if hasMissingRanges then ar_First (last ranges)
              else if largestAcked = 0 then 0 else largestAcked + 1 - ackBlockLength)\<rparr> in
     pbind (pguard (AckFrame_validateAckRanges frame') (GoErr ''ErrInvalidAckRanges'')) (\<lambda>_.
     pbind (parseTimestamps bo) (\<lambda>_.
     pbind readByte (\<lambda>groups.
     pbind (ReadUint16 bo) (\<lambda>epoch.
     pret (frame'\<lparr>ack_Groups := groups, ack_Epoch := epoch\<rparr>))))))))))))"

definition ParseAckFrame :: "VersionNumber \<Rightarrow> AckFrame parser" where
  "ParseAckFrame version =
     pbind readByte (\<lambda>typeByte.
     let hasMissingRanges = (typeByte AND 0x20 = 0x20);
         largestAckedLen = decode_len (drop_bit 2 (typeByte AND 0x0C));
         missingLen = decode_len (typeByte AND 0x03) in
     pbind (if typeByte AND 0x10 = 0x10 then readByte else pret 0) (\<lambda>pathID.
     pbind (ReadUintN (GetByteOrder version) largestAckedLen) (\<lambda>largestAcked.
     pbind (readUfloat16 (GetByteOrder version)) (\<lambda>delay.
     parse_ack_blocks (GetByteOrder version) hasMissingRanges missingLen
       \<lparr> ack_PathID = pathID, ack_LargestAcked = largestAcked, ack_LowestAcked = 0,
         ack_AckRanges = [], ack_PacketReceivedTime = 0,
         ack_DelayTime = wrap64 (sint delay * Microsecond), ack_Groups = 0, ack_Epoch = 0 \<rparr>))))"

subsection \<open>Writing\<close>

definition cut48_ack :: "u64 \<Rightarrow> u64" where
  "cut48_ack x = x AND (push_bit 48 1 - 1)"

definition AckFrame_typeByte :: "AckFrame \<Rightarrow> u8" where
  "AckFrame_typeByte f =
     (let t0 = 0x40;
          t1 = t0 XOR push_bit 2 (code_len (GetPacketNumberLength (ack_LargestAcked f)));
          t2 = t1 XOR code_len (AckFrame_deltaLen f);
          t3 = (if AckFrame_HasMissingRanges f then t2 OR 0x20 else t2)
      in if ack_PathID f \<noteq> 0 then t3 OR 0x10 else t3)"

definition AckFrame_Write :: "VersionNumber \<Rightarrow> int \<Rightarrow> AckFrame \<Rightarrow> AckFrame \<times> writer" where
  "AckFrame_Write version now frame =
     (let f = frame\<lparr>ack_DelayTime := now - ack_PacketReceivedTime frame\<rparr>;
          bo = GetByteOrder version;
          largestAckedLen = GetPacketNumberLength (ack_LargestAcked f);
          missingLen = AckFrame_deltaLen f;
          numRanges = numWritableNackRanges (ack_AckRanges f)
      in (f, wseq
        [wbyte (AckFrame_typeByte f),
         if ack_PathID f \<noteq> 0 then wbyte (ack_PathID f) else Inr [],
         writeSized cut48_ack bo largestAckedLen (ack_LargestAcked f),
         writeUfloat16 bo (word_of_int (go_div (ack_DelayTime f) Microsecond)),
         if AckFrame_HasMissingRanges f
         then if numRanges > 0xFF then Inl (Panic ''AckFrame: Too many ACK ranges'')
              else wbyte (ucast (numRanges - 1))
         else Inr [],
         writeAckBlocks cut48_ack bo missingLen numRanges
           (ack_LargestAcked f) (ack_LowestAcked f) (ack_AckRanges f)
           ''BUG: Inconsistent number of ACK ranges written'',
         wbyte 0,
         wbyte (ack_Groups f),
         WriteUint16 bo (ack_Epoch f)]))"

definition AckFrame_MinLength :: "AckFrame \<Rightarrow> go_error + ByteCount" where
  "AckFrame_MinLength f =
     (let len0 = (1 + 2 + 1 + 1 + 2) + ucast (GetPacketNumberLength (ack_LargestAcked f));
          missingLen = ucast (AckFrame_deltaLen f);
          len1 = (if AckFrame_HasMissingRanges f
                  then len0 + (1 + missingLen) * numWritableNackRanges (ack_AckRanges f)
                  else len0 + missingLen)
      in Inr (if ack_PathID f \<noteq> 0 then len1 + 1 else len1))"

subsection \<open>The type byte\<close>

definition ack_type :: "bool \<Rightarrow> bool \<Rightarrow> u8 \<Rightarrow> u8 \<Rightarrow> u8" where
  "ack_type has path l m =
     ((((0x40 XOR push_bit 2 l) XOR m) OR (if has then 0x20 else 0)) OR (if path then 0x10 else 0))"

lemma ack_type_l:
  assumes "l \<in> {0, 1, 2, 3 :: u8}"
  shows "push_bit 2 l AND 0x40 = 0" "push_bit 2 l AND 0x80 = 0" "push_bit 2 l AND 0x20 = 0"
    "push_bit 2 l AND 0x10 = 0" "push_bit 2 l AND 0x0C = push_bit 2 l" "push_bit 2 l AND 0x03 = 0"
    "drop_bit 2 (push_bit 2 l) = l"
  using assms unfolding insert_iff empty_iff by (elim disjE FalseE; hypsubst; simp)+

lemma ack_type_m:
  assumes "m \<in> {0, 1, 2, 3 :: u8}"
  shows "m AND 0x40 = 0" "m AND 0x80 = 0" "m AND 0x20 = 0" "m AND 0x10 = 0" "m AND 0x0C = 0"
    "m AND 0x03 = m"
  using assms unfolding insert_iff empty_iff by (elim disjE FalseE; hypsubst; simp)+

lemma ack_type_fields:
  assumes "l \<in> {0, 1, 2, 3}" "m \<in> {0, 1, 2, 3}"
  shows "(ack_type has path l m AND 0x20 = 0x20) = has"
    "(ack_type has path l m AND 0x10 = 0x10) = path"
    "drop_bit 2 (ack_type has path l m AND 0x0C) = l"
    "ack_type has path l m AND 0x03 = m"
    "ack_type has path l m AND 0x40 = 0x40" "ack_type has path l m AND 0x80 = 0"
proof -
  note d = ack_type_def bit.conj_xor_distrib2 bit.conj_disj_distrib2
  show "(ack_type has path l m AND 0x20 = 0x20) = has" "(ack_type has path l m AND 0x10 = 0x10) = path"
    "ack_type has path l m AND 0x40 = 0x40" "ack_type has path l m AND 0x80 = 0"
    unfolding d ack_type_l(1-6) [OF assms(1)] ack_type_m [OF assms(2)] by (cases has; cases path; simp)+
  have "ack_type has path l m AND 0x0C = push_bit 2 l" "ack_type has path l m AND 0x03 = m"
    unfolding d ack_type_l(1-6) [OF assms(1)] ack_type_m [OF assms(2)] by (cases has; cases path; simp)+
  then show "drop_bit 2 (ack_type has path l m AND 0x0C) = l" "ack_type has path l m AND 0x03 = m"
    by (simp_all only: ack_type_l(7) [OF assms(1)])
qed

lemma AckFrame_typeByte_eq:
  "AckFrame_typeByte f = ack_type (AckFrame_HasMissingRanges f) (ack_PathID f \<noteq> 0)
     (code_len (GetPacketNumberLength (ack_LargestAcked f))) (code_len (AckFrame_deltaLen f))"
  by (simp add: AckFrame_typeByte_def ack_type_def Let_def)

subsection \<open>Round trip\<close>

definition AckFrame_wf :: "AckFrame \<Rightarrow> bool" where
  "AckFrame_wf f \<longleftrightarrow> ack_wf (ack_LargestAcked f) (ack_LowestAcked f) (ack_AckRanges f)"

text \<open>What the peer sees: the lowest ranges may be missing, the delay is rounded.\<close>

definition AckFrame_seen :: "int \<Rightarrow> AckFrame \<Rightarrow> AckFrame" where
  "AckFrame_seen now f = f\<lparr>ack_LowestAcked := seen_lowest (ack_LowestAcked f) (ack_AckRanges f),
     ack_AckRanges := seen_ranges (ack_AckRanges f), ack_PacketReceivedTime := 0,
     ack_DelayTime := rtt_seen (now - ack_PacketReceivedTime f)\<rparr>"

lemma cut48_ack_ok: "cut48_ok cut48_ack"
  by (simp add: cut48_ok_def cut48_ack_def masks48 take_bit_small)

lemma largest_len:
  assumes "AckFrame_wf f"
  defines "l \<equiv> GetPacketNumberLength (ack_LargestAcked f)"
  shows "l \<in> pn_lens" "ack_LargestAcked f < 2 ^ (8 * unat l)"
    "take_bit (8 * unat l) (ack_LargestAcked f) = ack_LargestAcked f"
proof -
  show l: "l \<in> pn_lens" using GetPacketNumberLength_set by (simp add: l_def pn_lens_def)
  show lt: "ack_LargestAcked f < 2 ^ (8 * unat l)"
    using assms(1) GetPacketNumberLength_fits by (simp add: l_def AckFrame_wf_def ack_wf_def)
  show "take_bit (8 * unat l) (ack_LargestAcked f) = ack_LargestAcked f"
    using lt pn_lens_le [OF l] by (intro take_bit_small) simp_all
qed

text \<open>The bytes after the delay.\<close>

definition ack_tail_bytes :: "ByteOrder \<Rightarrow> AckFrame \<Rightarrow> u8 list" where
  "ack_tail_bytes bo f =
     (if AckFrame_HasMissingRanges f then [ucast (numWritableNackRanges (ack_AckRanges f) - 1)] else []) @
     ack_block_bytes bo (AckFrame_deltaLen f) (ack_LargestAcked f) (ack_LowestAcked f) (ack_AckRanges f) @
     [0, ack_Groups f] @ enc_bytes bo 2 (ucast (ack_Epoch f))"

definition ack_bytes :: "VersionNumber \<Rightarrow> int \<Rightarrow> AckFrame \<Rightarrow> u8 list" where
  "ack_bytes v now f =
     (let bo = GetByteOrder v; d = now - ack_PacketReceivedTime f
      in AckFrame_typeByte f # (if ack_PathID f \<noteq> 0 then [ack_PathID f] else []) @
         pn_bytes bo (GetPacketNumberLength (ack_LargestAcked f)) (ack_LargestAcked f) @
         enc_bytes bo 2 (ucast (ufloat16_encode (word_of_int (go_div d Microsecond)))) @
         ack_tail_bytes bo f)"

lemma AckFrame_Write_eq:
  assumes "AckFrame_wf f"
  shows "AckFrame_Write v now f =
    (f\<lparr>ack_DelayTime := now - ack_PacketReceivedTime f\<rparr>, Inr (ack_bytes v now f))"
proof -
  let ?bo = "GetByteOrder v" and ?L = "ack_LargestAcked f"
  have wf: "ack_wf ?L (ack_LowestAcked f) (ack_AckRanges f)" using assms by (simp add: AckFrame_wf_def)
  have largest: "writeSized cut48_ack ?bo (GetPacketNumberLength ?L) ?L = Inr (pn_bytes ?bo (GetPacketNumberLength ?L) ?L)"
    by (rule writeSized_eq [OF cut48_ack_ok largest_len(1,2) [OF assms]])
  have blocks: "writeAckBlocks cut48_ack ?bo (AckFrame_deltaLen f) (numWritableNackRanges (ack_AckRanges f))
      ?L (ack_LowestAcked f) (ack_AckRanges f) bug =
      Inr (ack_block_bytes ?bo (AckFrame_deltaLen f) ?L (ack_LowestAcked f) (ack_AckRanges f))" for bug
    by (rule writeAckBlocks_wf [OF wf cut48_ack_ok AckFrame_deltaLen_def])
  have upd: "AckFrame_typeByte (f\<lparr>ack_DelayTime := d\<rparr>) = AckFrame_typeByte f"
    "AckFrame_deltaLen (f\<lparr>ack_DelayTime := d\<rparr>) = AckFrame_deltaLen f"
    "AckFrame_HasMissingRanges (f\<lparr>ack_DelayTime := d\<rparr>) = AckFrame_HasMissingRanges f" for d
    by (simp_all add: AckFrame_typeByte_eq AckFrame_deltaLen_def AckFrame_HasMissingRanges_def)
  have num: "AckFrame_HasMissingRanges f \<Longrightarrow> \<not> numWritableNackRanges (ack_AckRanges f) > 0xFF"
    using numWritable_le [OF wf] by (auto simp: AckFrame_HasMissingRanges_def)
  then show ?thesis
    using largest blocks
    by (auto simp: AckFrame_Write_def Let_def upd writeUfloat16_def frame_simps ack_bytes_def
        ack_tail_bytes_def)
qed

lemma parse_ack_blocks_written:
  assumes "AckFrame_wf f"
  shows "parse_ack_blocks bo (AckFrame_HasMissingRanges f) (AckFrame_deltaLen f)
      (f\<lparr>ack_LowestAcked := a, ack_AckRanges := b, ack_Groups := c, ack_Epoch := e\<rparr>)
      (ack_tail_bytes bo f @ r) =
    Inr (f\<lparr>ack_LowestAcked := seen_lowest (ack_LowestAcked f) (ack_AckRanges f),
           ack_AckRanges := seen_ranges (ack_AckRanges f)\<rparr>, r)"
proof -
  let ?L = "ack_LargestAcked f" and ?rs = "ack_AckRanges f" and ?m = "AckFrame_deltaLen f"
  let ?fl = "first_block_length ?L (ack_LowestAcked f) ?rs"
  have wf: "ack_wf ?L (ack_LowestAcked f) ?rs" using assms by (simp add: AckFrame_wf_def)
  note first = read_first_block [OF wf AckFrame_deltaLen_def, of bo]
  have fl: "\<not> ?fl < 1" "\<not> ?fl > ?L" "?L \<noteq> 0"
    using wf_mlen(1,2) [OF wf AckFrame_deltaLen_def] wf by (auto simp: ack_wf_def)
  have ts: "parseTimestamps bo (0 # s) = Inr ((), s)" for s
    by (simp add: parseTimestamps_def pbind_def pret_def)
  show ?thesis
  proof (cases "?rs = []")
    case True
    have seen: "seen_ranges [] = []" "seen_lowest x [] = x" for x
      by (simp_all add: seen_ranges_def seen_lowest_def)
    note first = first [unfolded True]
    show ?thesis
      using True fl first_range_single [OF refl] validate_seen [OF wf]
      by (simp add: parse_ack_blocks_def Let_def AckFrame_HasMissingRanges_def ack_tail_bytes_def
          pbind_def pguard_def pret_def first seen ts bo.read16_enc AckFrame_validateAckRanges_def)
  next
    case False
    note ranges = read_ranges [OF wf False AckFrame_deltaLen_def refl, of bo]
    have num: "(ucast (numWritableNackRanges ?rs - 1) :: u8) \<noteq> 0"
      using numWritable_le [OF wf False] by simp
    show ?thesis
      using False fl num validate_seen [OF wf]
      by (simp add: parse_ack_blocks_def Let_def AckFrame_HasMissingRanges_def ack_tail_bytes_def
          pbind_def pguard_def pret_def first ranges ts bo.read16_enc AckFrame_validateAckRanges_def
          seen_lowest_def)
  qed
qed

lemma ParseAckFrame_written:
  assumes "AckFrame_wf f"
  shows "ParseAckFrame v (ack_bytes v now f @ r) = Inr (AckFrame_seen now f, r)"
proof -
  let ?bo = "GetByteOrder v" and ?L = "ack_LargestAcked f"
  let ?l = "GetPacketNumberLength ?L" and ?m = "AckFrame_deltaLen f"
  have wf: "ack_wf ?L (ack_LowestAcked f) (ack_AckRanges f)" using assms by (simp add: AckFrame_wf_def)
  have lens: "?l \<in> pn_lens" "?m \<in> pn_lens"
    using largest_len(1) [OF assms] wf_mlen(4) [OF wf AckFrame_deltaLen_def] by auto
  note fields = ack_type_fields [OF code_len_values [OF lens(1)] code_len_values [OF lens(2)]]
  have dec: "decode_len (code_len ?l) = ?l" "decode_len (code_len ?m) = ?m"
    using decode_code_len lens by auto
  have rl: "ReadUintN ?bo ?l (pn_bytes ?bo ?l ?L @ s) = Inr (?L, s)" for s
    using read_pn_bytes [of ?l] pn_lens_le [OF lens(1)] largest_len(3) [OF assms] by simp
  have path: "(if ack_PathID f \<noteq> 0 then readByte else pret 0)
      ((if ack_PathID f \<noteq> 0 then [ack_PathID f] else []) @ s) = Inr (ack_PathID f, s)" for s
    by (simp add: pret_def)
  define d where "d = now - ack_PacketReceivedTime f"
  define g where "g = f\<lparr>ack_PacketReceivedTime := 0, ack_DelayTime := rtt_seen d\<rparr>"
  have g: "AckFrame_wf g" "AckFrame_HasMissingRanges g = AckFrame_HasMissingRanges f"
    "AckFrame_deltaLen g = ?m" "ack_tail_bytes ?bo g = ack_tail_bytes ?bo f"
    using assms by (simp_all add: g_def AckFrame_wf_def AckFrame_HasMissingRanges_def
        AckFrame_deltaLen_def ack_tail_bytes_def)
  have rec: "\<lparr> ack_PathID = ack_PathID f, ack_LargestAcked = ?L, ack_LowestAcked = 0,
         ack_AckRanges = [], ack_PacketReceivedTime = 0,
         ack_DelayTime = rtt_seen d, ack_Groups = 0, ack_Epoch = 0 \<rparr> =
      g\<lparr>ack_LowestAcked := 0, ack_AckRanges := [], ack_Groups := 0, ack_Epoch := 0\<rparr>"
    by (cases f) (simp add: g_def)
  have "ParseAckFrame v (ack_bytes v now f @ r) =
      parse_ack_blocks ?bo (AckFrame_HasMissingRanges f) ?m
       \<lparr> ack_PathID = ack_PathID f, ack_LargestAcked = ?L, ack_LowestAcked = 0,
         ack_AckRanges = [], ack_PacketReceivedTime = 0,
         ack_DelayTime = rtt_seen d, ack_Groups = 0, ack_Epoch = 0 \<rparr> (ack_tail_bytes ?bo f @ r)"
    unfolding ParseAckFrame_def ack_bytes_def Let_def AckFrame_typeByte_eq append_Cons append_assoc d_def [symmetric]
    by (simp only: pbind_def readByte.simps sum.case prod.case fields dec path rl
        readUfloat16_def bo.read16_enc pret_def rtt_seen_def ucast_16_64_16)
  also have "\<dots> = Inr (g\<lparr>ack_LowestAcked := seen_lowest (ack_LowestAcked f) (ack_AckRanges f),
           ack_AckRanges := seen_ranges (ack_AckRanges f)\<rparr>, r)"
    using parse_ack_blocks_written [OF g(1), where bo = ?bo and a = 0 and b = "[]" and c = 0 and e = 0 and r = r] unfolding rec g by (simp add: g_def)
  finally show ?thesis by (simp add: g_def d_def AckFrame_seen_def)
qed

subsection \<open>The length\<close>

lemma blocks_count:
  assumes wf: "ack_wf largest lowest rs"
  shows "length (blocks_between (seen_ranges rs)) < 255"
    "rs \<noteq> [] \<Longrightarrow> unat (numWritableNackRanges rs) = 1 + length (blocks_between (seen_ranges rs))"
  using wf_seen [OF wf] by (cases "rs = []"; simp add: seen_ranges_def)+

lemma block_size_bounds: "n \<le> 254 \<Longrightarrow> m \<le> 6 \<Longrightarrow> n * m \<le> (1524 :: nat)"
  using mult_le_mono [of n 254 m 6] by simp

lemma AckFrame_MinLength_written:
  assumes "AckFrame_wf f"
  shows "\<exists>n. AckFrame_MinLength f = Inr n \<and> unat n = length (ack_bytes v now f)"
proof -
  let ?L = "ack_LargestAcked f" and ?rs = "ack_AckRanges f"
  have wf: "ack_wf ?L (ack_LowestAcked f) ?rs" using assms by (simp add: AckFrame_wf_def)
  define l m n where "l = unat (GetPacketNumberLength ?L)" and "m = unat (AckFrame_deltaLen f)"
    and "n = length (blocks_between (seen_ranges ?rs))"
  have lm: "l \<le> 6" "m \<le> 6"
    using pn_lens_le [OF largest_len(1) [OF assms]] pn_lens_le [OF wf_mlen(4) [OF wf AckFrame_deltaLen_def]]
    by (simp_all add: l_def m_def)
  have n: "n \<le> 254" "n * m \<le> 1524"
    using blocks_count(1) [OF wf] block_size_bounds [of n m] lm(2) by (simp_all add: n_def)
  have c: "unat (ucast (GetPacketNumberLength ?L) :: u64) = l" "unat (ucast (AckFrame_deltaLen f) :: u64) = m"
    by (simp_all add: l_def m_def unat_ucast_wide)
  have bytes: "length (ack_bytes v now f) = 7 + (if ack_PathID f \<noteq> 0 then 1 else 0) + l +
      (if ?rs \<noteq> [] then 1 else 0) + m + n * (1 + m)"
    by (simp add: ack_bytes_def Let_def ack_tail_bytes_def bo.length_enc pn_bytes_def
        length_ack_block_bytes AckFrame_HasMissingRanges_def l_def m_def n_def)
  show ?thesis
  proof (cases "?rs = []")
    case True
    then have "n = 0" by (simp add: n_def seen_ranges_def)
    with True lm c bytes show ?thesis
      by (simp add: AckFrame_MinLength_def Let_def AckFrame_HasMissingRanges_def unat_word_ariths)
  next
    case False
    define A where "A = (1 + ucast (AckFrame_deltaLen f)) * numWritableNackRanges ?rs"
    have p: "(1 + m) * (1 + n) = 1 + m + n + n * m" "n * (1 + m) = n + n * m" by (simp_all add: algebra_simps)
    have a: "unat (1 + ucast (AckFrame_deltaLen f) :: u64) = 1 + m" using c lm by (simp add: unat_word_ariths)
    have b: "unat (numWritableNackRanges ?rs) = 1 + n" using blocks_count(2) [OF wf False] by (simp add: n_def)
    have "1 + m + n + n * m < 2 ^ 64" using lm n by simp
    then have A: "unat A = 1 + m + n + n * m"
      unfolding A_def unat_word_ariths(2) a b p(1) by (simp only: len_of_numeral_defs mod_less) simp
    have "AckFrame_MinLength f = Inr (if ack_PathID f \<noteq> 0 then 7 + ucast (GetPacketNumberLength ?L) + A + 1
        else 7 + ucast (GetPacketNumberLength ?L) + A)"
      using False by (simp add: AckFrame_MinLength_def Let_def AckFrame_HasMissingRanges_def A_def)
    then show ?thesis using False lm n c A bytes p(2) by (simp add: unat_word_ariths(1))
  qed
qed

interpretation ack: wire_frame AckFrame_wf "\<lambda>f. snd (AckFrame_Write v now f)" "ParseAckFrame v"
    AckFrame_MinLength "AckFrame_seen now" for v now
proof (unfold_locales, goal_cases)
  case (1 f) then show ?case by (simp add: AckFrame_Write_eq)
next
  case (2 f bs r) then show ?case by (auto simp: AckFrame_Write_eq ParseAckFrame_written)
next
  case (3 f bs) then show ?case using AckFrame_MinLength_written by (auto simp: AckFrame_Write_eq)
qed

subsection \<open>Frames of the peer\<close>

text \<open>What holds of any frame the parser returns, whatever the bytes.\<close>

definition AckFrame_valid :: "AckFrame \<Rightarrow> bool" where
  "AckFrame_valid f \<longleftrightarrow> ack_LowestAcked f \<le> ack_LargestAcked f \<and> ack_LargestAcked f < 2 ^ 48 \<and>
     (ack_AckRanges f = [] \<or>
      2 \<le> length (ack_AckRanges f) \<and> ranges_ok (ack_AckRanges f) \<and>
      ar_Last (hd (ack_AckRanges f)) = ack_LargestAcked f \<and>
      ar_First (last (ack_AckRanges f)) = ack_LowestAcked f)"

definition AckFrame_set :: "AckFrame \<Rightarrow> PacketNumber set" where
  "AckFrame_set f = (if ack_AckRanges f = [] then {ack_LowestAcked f .. ack_LargestAcked f}
     else ranges_set (ack_AckRanges f))"

lemma AckFrame_AcksPacket_iff: "AckFrame_valid f \<Longrightarrow> AckFrame_AcksPacket f p \<longleftrightarrow> p \<in> AckFrame_set f"
  using acksPacket_iff [of "ack_AckRanges f"]
  by (auto simp: AckFrame_valid_def AckFrame_AcksPacket_def AckFrame_set_def acksPacket_single)

lemma readN_lt48:
  assumes "ReadUintN bo len bs = Inr (x, r)" "unat len \<le> 6"
  shows "x < 2 ^ 48"
proof -
  have "take_bit (8 * unat len) x = x"
    using bo.readN_consumes [OF assms(1)] assms(2) by simp
  then have "unat x mod 2 ^ (8 * unat len) = unat x" using unat_take_bit [of "8 * unat len" x] by simp
  moreover have "unat x mod 2 ^ (8 * unat len) < 2 ^ (8 * unat len)" by simp
  ultimately have "unat x < 2 ^ (8 * unat len)" by simp
  also have "\<dots> \<le> 2 ^ 48" using assms(2) by (intro power_increasing) auto
  finally show ?thesis by (simp add: word_less_nat_alt)
qed

lemma decode_len_le: "bits \<in> {0, 1, 2, 3} \<Longrightarrow> unat (decode_len bits) \<le> 6"
  by (auto simp: decode_len_def)

lemma two_bits:
  "(t :: u8) AND 0x03 \<in> {0, 1, 2, 3}" "drop_bit 2 (t AND 0x0C) \<in> {0, 1, 2, 3}"
proof -
  have u: "x \<in> {0, 1, 2, 3}" if "unat x < 4" for x :: u8
  proof -
    have "unat x = 0 \<or> unat x = 1 \<or> unat x = 2 \<or> unat x = 3" using that by linarith
    then have "x = 0 \<or> x = 1 \<or> x = 2 \<or> x = 3"
      using unat_eqI [of x 0] unat_eqI [of x 1] unat_eqI [of x 2] unat_eqI [of x 3] by auto
    then show ?thesis by simp
  qed
  have "t AND 0x03 = take_bit 2 t" by (simp add: take_bit_eq_mask mask_eq_exp_minus_1)
  then have "unat (t AND 0x03) < 4" by (simp only: unat_take_bit) simp
  then show "t AND 0x03 \<in> {0, 1, 2, 3}" by (rule u)
  have "drop_bit 2 (t AND 0x0C) = take_bit 2 (drop_bit 2 t)"
    by (simp add: drop_bit_and take_bit_eq_mask mask_eq_exp_minus_1)
  then have "unat (drop_bit 2 (t AND 0x0C)) < 4" by (simp only: unat_take_bit) simp
  then show "drop_bit 2 (t AND 0x0C) \<in> {0, 1, 2, 3}" by (rule u)
qed

lemma parse_ack_blocks_sound:
  assumes "parse_ack_blocks bo has m frame bs = Inr (f, r)"
    and m: "unat m \<le> 6" and l: "ack_LargestAcked frame < 2 ^ 48"
  shows "AckFrame_valid f"
proof -
  let ?L = "ack_LargestAcked frame"
  obtain num abl ranges s1 s2 s3 s4 where
    num: "\<not> (has \<and> num = 0)" and
    abl: "ReadUintN bo m s1 = Inr (abl, s2)" "\<not> (?L > 0 \<and> abl < 1)" "\<not> abl > ?L" and
    rs: "(if has then parseRanges bo m num ?L abl else pret []) s3 = Inr (ranges, s4)" and
    v: "validateAckRanges ?L ranges" and
    f: "ack_LargestAcked f = ?L" "ack_AckRanges f = ranges"
      "ack_LowestAcked f = (if has then ar_First (last ranges) else if ?L = 0 then 0 else ?L + 1 - abl)"
    using assms(1)
    unfolding parse_ack_blocks_def Let_def pbind_ok_iff pguard_ok_iff AckFrame_validateAckRanges_def
    by (elim exE conjE) (auto simp: pret_ok_iff)
  have abl48: "abl < 2 ^ 48" by (rule readN_lt48 [OF abl(1) m])
  have abl0: "abl \<noteq> 0" if "?L \<noteq> 0" using that abl(2) by (auto simp: word_neq_0_conv)
  show ?thesis
  proof (cases has)
    case False
    have "?L + 1 - abl \<le> ?L" if "?L \<noteq> 0"
    proof -
      have u: "unat (abl - 1) = unat abl - 1" using abl0 [OF that] by (rule unat_minus_one)
      have "unat abl \<le> unat ?L" using abl(3) by (simp add: word_less_nat_alt)
      then have "abl - 1 \<le> ?L" by (simp add: word_le_nat_alt u)
      then have "unat (?L - (abl - 1)) \<le> unat ?L" by (simp add: unat_sub)
      moreover have "?L + 1 - abl = ?L - (abl - 1)" by simp
      ultimately show ?thesis by (simp only: word_le_nat_alt)
    qed
    then show ?thesis using rs False f l by (simp add: AckFrame_valid_def pret_def)
  next
    case True
    then have ne: "ranges \<noteq> []" using rs num parseRanges_nonempty [of bo m num ?L abl s3 ranges s4] by simp
    then have L0: "?L \<noteq> 0" using v validateAckRanges_zero [of ranges] by auto
    have "\<forall>q\<in>set ranges. range_length q \<noteq> 0 \<and> range_length q < 2 ^ 48"
      using rs True parseRanges_sound [OF _ m abl0 [OF L0] abl48] by simp
    from validateAckRanges_sound [OF v l this] ne
    have ok: "2 \<le> length ranges" "ar_Last (hd ranges) = ?L" "ranges_ok ranges" by auto
    then have "ar_First (last ranges) \<le> ar_Last (last ranges)" "ar_Last (last ranges) \<le> ?L"
      using ranges_ok_hd [OF ok(3), of "last ranges"] ne by (auto simp: ranges_ok_def)
    then show ?thesis using True f l ok by (simp add: AckFrame_valid_def)
  qed
qed

lemma ParseAckFrame_sound:
  assumes "ParseAckFrame v bs = Inr (f, r)"
  shows "AckFrame_valid f"
proof -
  obtain t largest frame s0 s1 s2 where
    l: "ReadUintN (GetByteOrder v) (decode_len (drop_bit 2 (t AND 0x0C))) s0 = Inr (largest, s1)" and
    p: "parse_ack_blocks (GetByteOrder v) (t AND 0x20 = 0x20) (decode_len (t AND 0x03)) frame s2 = Inr (f, r)" and
    fr: "ack_LargestAcked frame = largest"
    using assms unfolding ParseAckFrame_def Let_def pbind_ok_iff by (elim exE conjE) auto
  show ?thesis
    using parse_ack_blocks_sound [OF p decode_len_le [OF two_bits(1)]]
      readN_lt48 [OF l decode_len_le [OF two_bits(2)]] fr by simp
qed

lemma consumes_skipTimestamps [consumes_intros]: "consumes 0 (skipTimestamps bo n)"
  by (induction n) (auto intro!: consumes_intros)

lemma consumes_parseTimestamps [consumes_intros]: "consumes 0 (parseTimestamps bo)"
  unfolding parseTimestamps_def by (intro consumes_intros)

lemma consumes_parse_ack_blocks [consumes_intros]: "consumes 0 (parse_ack_blocks bo has m f)"
  unfolding parse_ack_blocks_def by (intro consumes_intros)

lemma consumes_ParseAckFrame: "consumes 1 (ParseAckFrame v)"
  unfolding ParseAckFrame_def by (intro consumes_first consumes_readByte; intro consumes_intros)

subsection \<open>A first gap that is too long\<close>

lemma AckFrame_Write_overrun:
  assumes f: "ack_AckRanges f = p # r # rs" "ranges_ok (p # r # rs)" "\<forall>q\<in>set (p # r # rs). 0 < ar_First q"
    and l: "ack_LargestAcked f = ar_Last p" "ack_LargestAcked f < 2 ^ 48"
    and low: "ack_LowestAcked f = ar_First (last (r # rs))"
    and gap: "255 \<le> nblocks (unat (range_gap p r))"
  shows "snd (AckFrame_Write v now f) = Inl (GoErr ''BUG: Inconsistent number of ACK ranges written'')"
proof -
  let ?L = "ack_LargestAcked f" and ?m = "AckFrame_deltaLen f"
  have above: "range_above p r" using f(2) by (simp add: ranges_ok_Cons2)
  have rl: "range_length q < 2 ^ 48" if q: "q \<in> set (p # r # rs)" for q
  proof -
    have "unat (range_length q) \<le> unat (ar_Last q)" by (rule ranges_ok_first_pos(2) [OF f(2,3) q])
    also have "ar_Last q \<le> ?L" using ranges_ok_hd [OF f(2) q] l(1) by simp
    finally show ?thesis using l(2) by (auto simp: word_le_nat_alt word_less_nat_alt)
  qed
  have dl: "\<And>q. q \<in> set (p # r # rs) \<Longrightarrow> ?m \<in> pn_lens \<and> range_length q < 2 ^ (8 * unat ?m)"
    using getMissingSequenceNumberDeltaLen_ranges [of "p # r # rs"] rl by (simp add: AckFrame_deltaLen_def f(1))
  have m: "?m \<in> pn_lens" and lens: "range_length p < 2 ^ (8 * unat ?m)" "range_length r < 2 ^ (8 * unat ?m)"
    using dl [of p] dl [of r] by simp_all
  have g: "\<not> 0 + gap_blocks (range_gap p r) < 0xFF"
    using gap unat_gap_blocks [OF range_gap_pos [OF above]] by (simp add: word_less_nat_alt)
  then have num: "numWritableNackRanges (p # r # rs) = 1" by (simp add: numWritableNackRanges_def Let_def)
  have L: "writeSized cut48_ack bo (GetPacketNumberLength ?L) ?L = Inr (pn_bytes bo (GetPacketNumberLength ?L) ?L)" for bo
    using GetPacketNumberLength_set GetPacketNumberLength_fits [OF l(2)]
    by (intro writeSized_eq [OF cut48_ack_ok]) (simp_all add: pn_lens_def)
  have first: "writeSized cut48_ack bo ?m (ar_Last p - ar_First p + 1) = Inr (pn_bytes bo ?m (range_length p))" for bo
    using writeSized_eq [OF cut48_ack_ok m lens(1)] by (simp add: range_length_def)
  have blocks: "writeAckBlocks cut48_ack bo ?m 1 ?L (ack_LowestAcked f) (p # r # rs) bug = Inl (GoErr bug)" for bo bug
  proof -
    obtain bs w where "writeRanges_loop cut48_ack bo ?m 1 1 (p # r # rs) = Inr (bs, w)" "w \<noteq> 1"
      using writeRanges_loop_overrun [OF cut48_ack_ok m lens(2) above gap] by blast
    moreover have "(p # r # rs) ! (length (p # r # rs) - 1) = last (r # rs)"
      by (subst last_conv_nth [symmetric]) simp_all
    ultimately show ?thesis
      using l(1) low first by (simp add: writeAckBlocks_def wguard_def del: writeRanges_loop.simps)
  qed
  have upd: "AckFrame_deltaLen (f\<lparr>ack_DelayTime := d\<rparr>) = ?m"
    "AckFrame_HasMissingRanges (f\<lparr>ack_DelayTime := d\<rparr>)" for d
    by (simp_all add: AckFrame_deltaLen_def AckFrame_HasMissingRanges_def f(1))
  show ?thesis
    using blocks L by (simp add: AckFrame_Write_def Let_def upd num f(1) frame_simps writeUfloat16_def)
qed

subsection \<open>Properties\<close>

text \<open>
  C4. An ACK frame of ranges that descend without touching, whose first gap takes fewer than 255
  blocks, is written with the number of bytes \<open>MinLength\<close> promises; the peer reads exactly these
  bytes and gets a frame that acknowledges the same packets, those below its own \<open>LowestAcked\<close>
  left out when more than 255 blocks were needed.
\<close>
theorem AckFrame_roundtrip:
  assumes "AckFrame_wf f"
  shows "\<exists>bs n. AckFrame_Write v now f = (f\<lparr>ack_DelayTime := now - ack_PacketReceivedTime f\<rparr>, Inr bs) \<and>
    AckFrame_MinLength f = Inr n \<and> unat n = length bs \<and>
    ParseAckFrame v (bs @ r) = Inr (AckFrame_seen now f, r) \<and>
    ack_LowestAcked f \<le> ack_LowestAcked (AckFrame_seen now f) \<and>
    (\<forall>p. AckFrame_AcksPacket (AckFrame_seen now f) p \<longleftrightarrow>
      AckFrame_AcksPacket f p \<and> ack_LowestAcked (AckFrame_seen now f) \<le> p)"
proof -
  have wf: "ack_wf (ack_LargestAcked f) (ack_LowestAcked f) (ack_AckRanges f)"
    using assms by (simp add: AckFrame_wf_def)
  show ?thesis
    using AckFrame_Write_eq [OF assms, of v now] ParseAckFrame_written [OF assms, of v now r]
      AckFrame_MinLength_written [OF assms, of v now] acksPacket_seen [OF wf] seen_lowest_ge [OF wf]
    by (auto simp: AckFrame_AcksPacket_def AckFrame_seen_def)
qed

definition ack_example :: AckFrame where
  "ack_example = \<lparr> ack_PathID = 3, ack_LargestAcked = 3005, ack_LowestAcked = 10,
     ack_AckRanges = [mkRange 3000 3005, mkRange 10 20], ack_PacketReceivedTime = 0,
     ack_DelayTime = 0, ack_Groups = 1, ack_Epoch = 7 \<rparr>"

lemma AckFrame_roundtrip_witness:
  "\<exists>bs. snd (AckFrame_Write 39 5000000 ack_example) = Inr bs \<and>
     ParseAckFrame 39 (bs @ [1, 2]) = Inr (AckFrame_seen 5000000 ack_example, [1, 2])"
proof -
  have "writable 0 [mkRange 3000 3005, mkRange 10 20] \<noteq> []"
    by (simp add: nblocks_def range_gap_def)
  then have "AckFrame_wf ack_example"
    by (simp add: AckFrame_wf_def ack_wf_def ack_example_def ranges_ok_def range_above_def)
  from AckFrame_roundtrip [OF this, of 39 5000000 "[1, 2]"] show ?thesis by auto
qed

text \<open>
  C11. Whatever bytes a peer sends, an ACK frame that the parser accepts has ranges that are not empty,
  descend and do not touch, between its lowest and its largest packet number, and
  \<open>AcksPacket\<close> is membership in them.
\<close>
theorem ParseAckFrame_accepts_valid:
  assumes "ParseAckFrame v bs = Inr (f, r)"
  shows "AckFrame_valid f \<and> (\<forall>p. AckFrame_AcksPacket f p \<longleftrightarrow> p \<in> AckFrame_set f) \<and> length r < length bs"
  using ParseAckFrame_sound [OF assms] AckFrame_AcksPacket_iff
    consumesD [OF consumes_ParseAckFrame assms] by auto

lemma ParseAckFrame_accepts_valid_witness:
  "AckFrame_AcksPacket (AckFrame_seen 5000000 ack_example) 15 \<longleftrightarrow>
   15 \<in> AckFrame_set (AckFrame_seen 5000000 ack_example)"
proof -
  have "writable 0 [mkRange 3000 3005, mkRange 10 20] \<noteq> []"
    by (simp add: nblocks_def range_gap_def)
  then have "AckFrame_wf ack_example"
    by (simp add: AckFrame_wf_def ack_wf_def ack_example_def ranges_ok_def range_above_def)
  from ParseAckFrame_accepts_valid [OF ParseAckFrame_written [OF this, of 39 5000000 "[]"]]
  show ?thesis by blast
qed

text \<open>
  When the gap below the highest range alone takes 255 blocks or more (more than 64770
  missing packets), the truncation of \<open>numWritableNackRanges\<close> leaves no room for that range but the
  writing loop writes it, so the frame cannot be sent: \<open>Write\<close> returns its \<open>BUG\<close> error.
\<close>
theorem AckFrame_Write_long_first_gap:
  assumes "ack_AckRanges f = p # r # rs" "ranges_ok (p # r # rs)" "\<forall>q\<in>set (p # r # rs). 0 < ar_First q"
    and "ack_LargestAcked f = ar_Last p" "ack_LargestAcked f < 2 ^ 48"
    and "ack_LowestAcked f = ar_First (last (r # rs))"
    and "64770 < unat (ar_First p) - unat (ar_Last r) - 1"
  shows "snd (AckFrame_Write v now f) = Inl (GoErr ''BUG: Inconsistent number of ACK ranges written'')"
proof (rule AckFrame_Write_overrun [OF assms(1-6)])
  have "range_above p r" using assms(2) by (simp add: ranges_ok_Cons2)
  then have "64771 \<le> unat (range_gap p r)" using assms(7) by (simp add: unat_range_gap)
  then have "(64771 + 254) div 255 \<le> nblocks (unat (range_gap p r))"
    unfolding nblocks_def by (intro div_le_mono) simp
  then show "255 \<le> nblocks (unat (range_gap p r))" by simp
qed

lemma AckFrame_Write_long_first_gap_witness:
  "snd (AckFrame_Write 39 0 \<lparr> ack_PathID = 0, ack_LargestAcked = 70000, ack_LowestAcked = 1,
     ack_AckRanges = [mkRange 70000 70000, mkRange 1 1], ack_PacketReceivedTime = 0,
     ack_DelayTime = 0, ack_Groups = 0, ack_Epoch = 0 \<rparr>) =
   Inl (GoErr ''BUG: Inconsistent number of ACK ranges written'')"
  by (rule AckFrame_Write_long_first_gap [where p = "mkRange 70000 70000" and r = "mkRange 1 1" and rs = "[]"])
    (simp_all add: ranges_ok_def range_above_def)

end
