(* ===== verification/Wire_ClosePath.thy ===== *)
theory Wire_ClosePath
  imports Wire_Ack
begin

section \<open>CLOSE_PATH frames: \<open>internal/wire/close_path_frame.go\<close>\<close>

text \<open>
  A CLOSE_PATH frame carries the state of the packets of a path when it is closed. Its ranges are written
  and parsed by the loops of ACK frames, with the fields in another order, a flags byte of its own,
  and \<open>WriteUint48\<close> without a mask, which panics on packet numbers of 49 bits and more.
\<close>

record ClosePathFrame =
  cp_PathID :: PathID
  cp_LargestAcked :: PacketNumber
  cp_LowestAcked :: PacketNumber
  cp_AckRanges :: "AckRange list"

definition ClosePathFrame_HasMissingRanges :: "ClosePathFrame \<Rightarrow> bool" where
  "ClosePathFrame_HasMissingRanges f \<longleftrightarrow> length (cp_AckRanges f) > 0"

definition ClosePathFrame_validateAckRanges :: "ClosePathFrame \<Rightarrow> bool" where
  "ClosePathFrame_validateAckRanges f = validateAckRanges (cp_LargestAcked f) (cp_AckRanges f)"

definition ClosePathFrame_AcksPacket :: "ClosePathFrame \<Rightarrow> PacketNumber \<Rightarrow> bool" where
  "ClosePathFrame_AcksPacket f p = acksPacket (cp_LowestAcked f) (cp_LargestAcked f) (cp_AckRanges f) p"

definition ClosePathFrame_deltaLen :: "ClosePathFrame \<Rightarrow> PacketNumberLen" where
  "ClosePathFrame_deltaLen f =
     getMissingSequenceNumberDeltaLen (cp_LargestAcked f) (cp_LowestAcked f) (cp_AckRanges f)"

definition ClosePathFrame_flags :: "ClosePathFrame \<Rightarrow> u8" where
  "ClosePathFrame_flags f =
     (let f0 = (if ClosePathFrame_HasMissingRanges f then 0x00 OR 0x10 else 0x00);
          f1 = f0 XOR push_bit 2 (code_len (GetPacketNumberLength (cp_LargestAcked f)))
      in f1 XOR code_len (ClosePathFrame_deltaLen f))"

definition ClosePathFrame_Write :: "VersionNumber \<Rightarrow> ClosePathFrame \<Rightarrow> writer" where
  "ClosePathFrame_Write version f =
     (let bo = GetByteOrder version;
          largestAckedLen = GetPacketNumberLength (cp_LargestAcked f);
          missingLen = ClosePathFrame_deltaLen f;
          numRanges = numWritableNackRanges (cp_AckRanges f)
      in wseq
        [wbyte 0x11,
         wbyte (cp_PathID f),
         wbyte (ClosePathFrame_flags f),
         if ClosePathFrame_HasMissingRanges f
         then if numRanges > 0xFF then Inl (Panic ''ClosePathFrame: Too many ACK ranges'')
              else wbyte (ucast (numRanges - 1))
         else Inr [],
         writeSized (\<lambda>x. x) bo largestAckedLen (cp_LargestAcked f),
         writeAckBlocks (\<lambda>x. x) bo missingLen numRanges
           (cp_LargestAcked f) (cp_LowestAcked f) (cp_AckRanges f)
           ''BUG: Inconsistent number of ACK ranges written in ClosePath''])"

definition parse_close_path_blocks ::
    "ByteOrder \<Rightarrow> bool \<Rightarrow> u8 \<Rightarrow> u8 \<Rightarrow> ClosePathFrame \<Rightarrow> ClosePathFrame parser" where
  "parse_close_path_blocks bo hasMissingRanges missingLen numAckBlocks frame =
     (let largestAcked = cp_LargestAcked frame in
     pbind (ReadUintN bo missingLen) (\<lambda>ackBlockLength.
     pbind (pguard (\<not> (largestAcked > 0 \<and> ackBlockLength < 1)) (GoErr ''ErrInvalidFirstAckRange'')) (\<lambda>_.
     pbind (pguard (\<not> ackBlockLength > largestAcked) (GoErr ''ErrInvalidAckRanges'')) (\<lambda>_.
     pbind (if hasMissingRanges then parseRanges bo missingLen numAckBlocks largestAcked ackBlockLength
            else pret []) (\<lambda>ranges.
     let frame' = frame\<lparr>cp_AckRanges := ranges,
           cp_LowestAcked :=
             (if hasMissingRanges then ar_First (last ranges)
              else if largestAcked = 0 then 0 else largestAcked + 1 - ackBlockLength)\<rparr> in
     pbind (pguard (ClosePathFrame_validateAckRanges frame') (GoErr ''ErrInvalidAckRanges'')) (\<lambda>_.
     pret frame'))))))"

definition ParseClosePathFrame :: "VersionNumber \<Rightarrow> ClosePathFrame parser" where
  "ParseClosePathFrame version =
     pbind readByte (\<lambda>_.
     pbind readByte (\<lambda>pathID.
     pbind readByte (\<lambda>flags.
     let hasMissingRanges = (flags AND 0x10 = 0x10);
         largestAckedLen = decode_len (drop_bit 2 (flags AND 0x0C));
         missingLen = decode_len (flags AND 0x03) in
     pbind (if hasMissingRanges then readByte else pret 0) (\<lambda>numAckBlocks.
     pbind (pguard (\<not> (hasMissingRanges \<and> numAckBlocks = 0)) (GoErr ''ErrInvalidAckRanges'')) (\<lambda>_.
     pbind (ReadUintN (GetByteOrder version) largestAckedLen) (\<lambda>largestAcked.
     parse_close_path_blocks (GetByteOrder version) hasMissingRanges missingLen numAckBlocks
       \<lparr> cp_PathID = pathID, cp_LargestAcked = largestAcked, cp_LowestAcked = 0,
         cp_AckRanges = [] \<rparr>))))))"

definition ClosePathFrame_MinLength :: "ClosePathFrame \<Rightarrow> go_error + ByteCount" where
  "ClosePathFrame_MinLength f =
     (let len0 = (1 + 1 + 1) + ucast (GetPacketNumberLength (cp_LargestAcked f));
          missingLen = ucast (ClosePathFrame_deltaLen f)
      in Inr (if ClosePathFrame_HasMissingRanges f
              then len0 + (1 + missingLen) * numWritableNackRanges (cp_AckRanges f)
              else len0 + missingLen))"

subsection \<open>Round trip\<close>

definition ClosePathFrame_wf :: "ClosePathFrame \<Rightarrow> bool" where
  "ClosePathFrame_wf f \<longleftrightarrow> ack_wf (cp_LargestAcked f) (cp_LowestAcked f) (cp_AckRanges f)"

definition ClosePathFrame_seen :: "ClosePathFrame \<Rightarrow> ClosePathFrame" where
  "ClosePathFrame_seen f = f\<lparr>cp_LowestAcked := seen_lowest (cp_LowestAcked f) (cp_AckRanges f),
     cp_AckRanges := seen_ranges (cp_AckRanges f)\<rparr>"

definition close_path_flags :: "bool \<Rightarrow> u8 \<Rightarrow> u8 \<Rightarrow> u8" where
  "close_path_flags has l m = (((if has then 0x10 else 0) XOR push_bit 2 l) XOR m)"

lemma close_path_flags_fields:
  assumes "l \<in> {0, 1, 2, 3}" "m \<in> {0, 1, 2, 3}"
  shows "(close_path_flags has l m AND 0x10 = 0x10) = has"
    "drop_bit 2 (close_path_flags has l m AND 0x0C) = l"
    "close_path_flags has l m AND 0x03 = m"
proof -
  note d = close_path_flags_def bit.conj_xor_distrib2
  have *: "close_path_flags has l m AND 0x10 = (if has then 0x10 else 0)"
    "close_path_flags has l m AND 0x0C = push_bit 2 l" "close_path_flags has l m AND 0x03 = m"
    unfolding d ack_type_l(1-6) [OF assms(1)] ack_type_m [OF assms(2)] by (cases has; simp)+
  show "(close_path_flags has l m AND 0x10 = 0x10) = has" unfolding *(1) by simp
  show "drop_bit 2 (close_path_flags has l m AND 0x0C) = l" "close_path_flags has l m AND 0x03 = m"
    by (simp_all only: *(2,3) ack_type_l(7) [OF assms(1)])
qed

lemma ClosePathFrame_flags_eq:
  "ClosePathFrame_flags f = close_path_flags (ClosePathFrame_HasMissingRanges f)
     (code_len (GetPacketNumberLength (cp_LargestAcked f))) (code_len (ClosePathFrame_deltaLen f))"
  by (simp add: ClosePathFrame_flags_def close_path_flags_def Let_def)

lemma cut48_id_ok: "cut48_ok (\<lambda>x. x)"
  by (simp add: cut48_ok_def)

lemma cp_largest_len:
  assumes "ClosePathFrame_wf f"
  defines "l \<equiv> GetPacketNumberLength (cp_LargestAcked f)"
  shows "l \<in> pn_lens" "cp_LargestAcked f < 2 ^ (8 * unat l)"
    "take_bit (8 * unat l) (cp_LargestAcked f) = cp_LargestAcked f"
proof -
  show l: "l \<in> pn_lens" using GetPacketNumberLength_set by (simp add: l_def pn_lens_def)
  show lt: "cp_LargestAcked f < 2 ^ (8 * unat l)"
    using assms(1) GetPacketNumberLength_fits by (simp add: l_def ClosePathFrame_wf_def ack_wf_def)
  show "take_bit (8 * unat l) (cp_LargestAcked f) = cp_LargestAcked f"
    using lt pn_lens_le [OF l] by (intro take_bit_small) simp_all
qed

definition close_path_bytes :: "VersionNumber \<Rightarrow> ClosePathFrame \<Rightarrow> u8 list" where
  "close_path_bytes v f =
     (let bo = GetByteOrder v
      in 0x11 # cp_PathID f # ClosePathFrame_flags f #
         (if ClosePathFrame_HasMissingRanges f then [ucast (numWritableNackRanges (cp_AckRanges f) - 1)] else []) @
         pn_bytes bo (GetPacketNumberLength (cp_LargestAcked f)) (cp_LargestAcked f) @
         ack_block_bytes bo (ClosePathFrame_deltaLen f) (cp_LargestAcked f) (cp_LowestAcked f) (cp_AckRanges f))"

lemma ClosePathFrame_Write_eq:
  assumes "ClosePathFrame_wf f"
  shows "ClosePathFrame_Write v f = Inr (close_path_bytes v f)"
proof -
  let ?bo = "GetByteOrder v" and ?L = "cp_LargestAcked f"
  have wf: "ack_wf ?L (cp_LowestAcked f) (cp_AckRanges f)" using assms by (simp add: ClosePathFrame_wf_def)
  have largest: "writeSized (\<lambda>x. x) ?bo (GetPacketNumberLength ?L) ?L = Inr (pn_bytes ?bo (GetPacketNumberLength ?L) ?L)"
    by (rule writeSized_eq [OF cut48_id_ok cp_largest_len(1,2) [OF assms]])
  have blocks: "writeAckBlocks (\<lambda>x. x) ?bo (ClosePathFrame_deltaLen f) (numWritableNackRanges (cp_AckRanges f))
      ?L (cp_LowestAcked f) (cp_AckRanges f) bug =
      Inr (ack_block_bytes ?bo (ClosePathFrame_deltaLen f) ?L (cp_LowestAcked f) (cp_AckRanges f))" for bug
    by (rule writeAckBlocks_wf [OF wf cut48_id_ok ClosePathFrame_deltaLen_def])
  have num: "ClosePathFrame_HasMissingRanges f \<Longrightarrow> \<not> numWritableNackRanges (cp_AckRanges f) > 0xFF"
    using numWritable_le [OF wf] by (auto simp: ClosePathFrame_HasMissingRanges_def)
  then show ?thesis
    using largest blocks
    by (auto simp: ClosePathFrame_Write_def Let_def frame_simps close_path_bytes_def)
qed

lemma ParseClosePathFrame_written:
  assumes "ClosePathFrame_wf f"
  shows "ParseClosePathFrame v (close_path_bytes v f @ r) = Inr (ClosePathFrame_seen f, r)"
proof -
  let ?bo = "GetByteOrder v" and ?L = "cp_LargestAcked f" and ?rs = "cp_AckRanges f"
  let ?l = "GetPacketNumberLength ?L" and ?m = "ClosePathFrame_deltaLen f"
  let ?fl = "first_block_length ?L (cp_LowestAcked f) ?rs"
  have wf: "ack_wf ?L (cp_LowestAcked f) ?rs" using assms by (simp add: ClosePathFrame_wf_def)
  have lens: "?l \<in> pn_lens" "?m \<in> pn_lens"
    using cp_largest_len(1) [OF assms] wf_mlen(4) [OF wf ClosePathFrame_deltaLen_def] by auto
  note fields = close_path_flags_fields [OF code_len_values [OF lens(1)] code_len_values [OF lens(2)]]
  have dec: "decode_len (code_len ?l) = ?l" "decode_len (code_len ?m) = ?m"
    using decode_code_len lens by auto
  have rl: "ReadUintN ?bo ?l (pn_bytes ?bo ?l ?L @ s) = Inr (?L, s)" for s
    using read_pn_bytes [of ?l] pn_lens_le [OF lens(1)] cp_largest_len(3) [OF assms] by simp
  note first = read_first_block [OF wf ClosePathFrame_deltaLen_def, of ?bo]
  have fl: "\<not> ?fl < 1" "\<not> ?fl > ?L" "?L \<noteq> 0"
    using wf_mlen(1,2) [OF wf ClosePathFrame_deltaLen_def] wf by (auto simp: ack_wf_def)
  define n where "n = (if ClosePathFrame_HasMissingRanges f then ucast (numWritableNackRanges ?rs - 1) else 0 :: u8)"
  have num: "(if ClosePathFrame_HasMissingRanges f then readByte else pret 0)
      ((if ClosePathFrame_HasMissingRanges f then [ucast (numWritableNackRanges ?rs - 1)] else []) @ s) =
      Inr (n, s)" for s
    by (simp add: n_def pret_def)
  have guard: "pguard (\<not> (ClosePathFrame_HasMissingRanges f \<and> n = 0)) e s = Inr ((), s)" for e s
    using numWritable_le [OF wf] by (auto simp: pguard_def pret_def n_def ClosePathFrame_HasMissingRanges_def)
  have "ParseClosePathFrame v (close_path_bytes v f @ r) =
      parse_close_path_blocks ?bo (ClosePathFrame_HasMissingRanges f) ?m n
        \<lparr> cp_PathID = cp_PathID f, cp_LargestAcked = ?L, cp_LowestAcked = 0, cp_AckRanges = [] \<rparr>
        (ack_block_bytes ?bo ?m ?L (cp_LowestAcked f) ?rs @ r)"
    unfolding ParseClosePathFrame_def close_path_bytes_def Let_def ClosePathFrame_flags_eq append_Cons append_assoc
    by (simp only: pbind_def readByte.simps sum.case prod.case fields dec num guard rl)
  also have rec: "\<lparr> cp_PathID = cp_PathID f, cp_LargestAcked = ?L, cp_LowestAcked = 0, cp_AckRanges = [] \<rparr> =
      f\<lparr>cp_LowestAcked := 0, cp_AckRanges := []\<rparr>"
    by (cases f) simp
  also have "parse_close_path_blocks ?bo (ClosePathFrame_HasMissingRanges f) ?m n
      (f\<lparr>cp_LowestAcked := 0, cp_AckRanges := []\<rparr>) (ack_block_bytes ?bo ?m ?L (cp_LowestAcked f) ?rs @ r) =
      Inr (ClosePathFrame_seen f, r)"
  proof (cases "?rs = []")
    case True
    have seen: "seen_ranges [] = []" "seen_lowest x [] = x" for x
      by (simp_all add: seen_ranges_def seen_lowest_def)
    note first = first [unfolded True]
    show ?thesis
      using True fl first_range_single [OF refl] validate_seen [OF wf]
      by (simp add: parse_close_path_blocks_def Let_def ClosePathFrame_HasMissingRanges_def
          pbind_def pguard_def pret_def first seen ClosePathFrame_validateAckRanges_def ClosePathFrame_seen_def)
  next
    case False
    have nn: "n = ucast (numWritableNackRanges ?rs - 1)" using False by (simp add: n_def ClosePathFrame_HasMissingRanges_def)
    note ranges = read_ranges [OF wf False ClosePathFrame_deltaLen_def nn, of ?bo]
    show ?thesis
      using False fl validate_seen [OF wf]
      by (simp add: parse_close_path_blocks_def Let_def ClosePathFrame_HasMissingRanges_def
          pbind_def pguard_def pret_def first ranges ClosePathFrame_validateAckRanges_def
          ClosePathFrame_seen_def seen_lowest_def)
  qed
  finally show ?thesis .
qed

lemma ClosePathFrame_MinLength_written:
  assumes "ClosePathFrame_wf f"
  shows "\<exists>n. ClosePathFrame_MinLength f = Inr n \<and> unat n = length (close_path_bytes v f)"
proof -
  let ?L = "cp_LargestAcked f" and ?rs = "cp_AckRanges f"
  have wf: "ack_wf ?L (cp_LowestAcked f) ?rs" using assms by (simp add: ClosePathFrame_wf_def)
  define l m n where "l = unat (GetPacketNumberLength ?L)" and "m = unat (ClosePathFrame_deltaLen f)"
    and "n = length (blocks_between (seen_ranges ?rs))"
  have lm: "l \<le> 6" "m \<le> 6"
    using pn_lens_le [OF cp_largest_len(1) [OF assms]] pn_lens_le [OF wf_mlen(4) [OF wf ClosePathFrame_deltaLen_def]]
    by (simp_all add: l_def m_def)
  have n: "n \<le> 254" "n * m \<le> 1524"
    using blocks_count(1) [OF wf] block_size_bounds [of n m] lm(2) by (simp_all add: n_def)
  have c: "unat (ucast (GetPacketNumberLength ?L) :: u64) = l" "unat (ucast (ClosePathFrame_deltaLen f) :: u64) = m"
    by (simp_all add: l_def m_def unat_ucast_wide)
  have bytes: "length (close_path_bytes v f) = 3 + l + (if ?rs \<noteq> [] then 1 else 0) + m + n * (1 + m)"
    by (simp add: close_path_bytes_def Let_def bo.length_enc pn_bytes_def
        length_ack_block_bytes ClosePathFrame_HasMissingRanges_def l_def m_def n_def)
  show ?thesis
  proof (cases "?rs = []")
    case True
    then have "n = 0" by (simp add: n_def seen_ranges_def)
    with True lm c bytes show ?thesis
      by (simp add: ClosePathFrame_MinLength_def Let_def ClosePathFrame_HasMissingRanges_def unat_word_ariths)
  next
    case False
    define A where "A = (1 + ucast (ClosePathFrame_deltaLen f)) * numWritableNackRanges ?rs"
    have p: "(1 + m) * (1 + n) = 1 + m + n + n * m" "n * (1 + m) = n + n * m" by (simp_all add: algebra_simps)
    have a: "unat (1 + ucast (ClosePathFrame_deltaLen f) :: u64) = 1 + m" using c lm by (simp add: unat_word_ariths)
    have b: "unat (numWritableNackRanges ?rs) = 1 + n" using blocks_count(2) [OF wf False] by (simp add: n_def)
    have "1 + m + n + n * m < 2 ^ 64" using lm n by simp
    then have A: "unat A = 1 + m + n + n * m"
      unfolding A_def unat_word_ariths(2) a b p(1) by (simp only: len_of_numeral_defs mod_less) simp
    have "ClosePathFrame_MinLength f = Inr (3 + ucast (GetPacketNumberLength ?L) + A)"
      using False by (simp add: ClosePathFrame_MinLength_def Let_def ClosePathFrame_HasMissingRanges_def A_def)
    then show ?thesis using False lm n c A bytes p(2) by (simp add: unat_word_ariths(1))
  qed
qed

interpretation cp: wire_frame ClosePathFrame_wf "ClosePathFrame_Write v" "ParseClosePathFrame v"
    ClosePathFrame_MinLength ClosePathFrame_seen for v
proof (unfold_locales, goal_cases)
  case (1 f) then show ?case by (simp add: ClosePathFrame_Write_eq)
next
  case (2 f bs r) then show ?case by (auto simp: ClosePathFrame_Write_eq ParseClosePathFrame_written)
next
  case (3 f bs) then show ?case using ClosePathFrame_MinLength_written by (auto simp: ClosePathFrame_Write_eq)
qed

lemma consumes_parse_close_path_blocks [consumes_intros]:
  "consumes 0 (parse_close_path_blocks bo has m n f)"
  unfolding parse_close_path_blocks_def by (intro consumes_intros)

lemma consumes_ParseClosePathFrame: "consumes 1 (ParseClosePathFrame v)"
  unfolding ParseClosePathFrame_def by (intro consumes_first consumes_readByte; intro consumes_intros)

subsection \<open>Properties\<close>

text \<open>
  C31. A CLOSE_PATH frame round trips like an ACK frame, and the receiver marks as received exactly
  the packets the sender listed, but for those below the lowest range that fits.
\<close>
theorem ClosePathFrame_roundtrip:
  assumes "ClosePathFrame_wf f"
  shows "\<exists>bs n. ClosePathFrame_Write v f = Inr bs \<and> ClosePathFrame_MinLength f = Inr n \<and> unat n = length bs \<and>
    ParseClosePathFrame v (bs @ r) = Inr (ClosePathFrame_seen f, r) \<and>
    (\<forall>p. ClosePathFrame_AcksPacket (ClosePathFrame_seen f) p \<longleftrightarrow>
      ClosePathFrame_AcksPacket f p \<and> cp_LowestAcked (ClosePathFrame_seen f) \<le> p)"
proof -
  have wf: "ack_wf (cp_LargestAcked f) (cp_LowestAcked f) (cp_AckRanges f)"
    using assms by (simp add: ClosePathFrame_wf_def)
  show ?thesis
    using ClosePathFrame_Write_eq [OF assms, of v] ParseClosePathFrame_written [OF assms, of v r]
      ClosePathFrame_MinLength_written [OF assms, of v] acksPacket_seen [OF wf]
    by (auto simp: ClosePathFrame_AcksPacket_def ClosePathFrame_seen_def)
qed

lemma ClosePathFrame_roundtrip_witness:
  "\<exists>bs. ClosePathFrame_Write 39 \<lparr> cp_PathID = 1, cp_LargestAcked = 900, cp_LowestAcked = 2,
       cp_AckRanges = [mkRange 900 900, mkRange 2 7] \<rparr> = Inr bs \<and> length bs = 15"
proof -
  let ?f = "\<lparr> cp_PathID = 1, cp_LargestAcked = 900, cp_LowestAcked = 2,
       cp_AckRanges = [mkRange 900 900, mkRange 2 7] \<rparr>"
  have "writable 0 [mkRange 900 900, mkRange 2 7] \<noteq> []" by (simp add: nblocks_def range_gap_def)
  then have wf: "ClosePathFrame_wf ?f"
    by (simp add: ClosePathFrame_wf_def ack_wf_def ranges_ok_def range_above_def)
  have "ClosePathFrame_MinLength ?f = Inr 15"
    by (simp add: ClosePathFrame_MinLength_def ClosePathFrame_HasMissingRanges_def ClosePathFrame_deltaLen_def
        numWritableNackRanges_def getMissingSequenceNumberDeltaLen_def gap_blocks_def range_gap_def
        range_length_def GetPacketNumberLength_def PacketNumberLen_defs Let_def)
  then show ?thesis using ClosePathFrame_roundtrip [OF wf, of 39 "[]"] by auto
qed

end
