(* ===== verification/Wire_Header.thy ===== *)
theory Wire_Header
  imports Wire_Ack
begin

section \<open>Public headers: \<open>internal/wire/public_header.go\<close>, \<open>version_negotiation.go\<close>\<close>

text \<open>
  The header of every QUIC packet, with the path identifier this fork adds, and the version negotiation packet
  of the server. A header that either side writes is read back by the other, with the packet number cut
  to its length, and \<open>GetLength\<close> is its number of bytes.
\<close>

record PublicHeader =
  ph_Raw :: "u8 list"
  ph_ConnectionID :: ConnectionID
  ph_PathID :: PathID
  ph_VersionFlag :: bool
  ph_ResetFlag :: bool
  ph_TruncateConnectionID :: bool
  ph_MultipathFlag :: bool
  ph_PacketNumberLen :: PacketNumberLen
  ph_PacketNumber :: PacketNumber
  ph_VersionNumber :: VersionNumber
  ph_SupportedVersions :: "VersionNumber list"
  ph_DiversificationNonce :: "u8 list"

definition empty_header :: PublicHeader where
  "empty_header = \<lparr> ph_Raw = [], ph_ConnectionID = 0, ph_PathID = 0, ph_VersionFlag = False,
     ph_ResetFlag = False, ph_TruncateConnectionID = False, ph_MultipathFlag = False,
     ph_PacketNumberLen = 0, ph_PacketNumber = 0, ph_VersionNumber = 0, ph_SupportedVersions = [],
     ph_DiversificationNonce = [] \<rparr>"

definition hasPacketNumber :: "PublicHeader \<Rightarrow> Perspective \<Rightarrow> bool" where
  "hasPacketNumber h packetSentBy =
     (if ph_ResetFlag h then False
      else if ph_VersionFlag h \<and> packetSentBy = PerspectiveServer then False
      else True)"

definition pn_flag :: "PacketNumberLen \<Rightarrow> u8" where
  "pn_flag len =
     (if len = PacketNumberLen1 then 0x00 else if len = PacketNumberLen2 then 0x10
      else if len = PacketNumberLen4 then 0x20 else if len = PacketNumberLen6 then 0x30 else 0x00)"

definition PublicHeader_flags :: "PublicHeader \<Rightarrow> Perspective \<Rightarrow> u8" where
  "PublicHeader_flags h pers =
     (let b0 = 0x00;
          b1 = (if ph_VersionFlag h then b0 OR 0x01 else b0);
          b2 = (if ph_ResetFlag h then b1 OR 0x02 else b1);
          b3 = (if \<not> ph_TruncateConnectionID h then b2 OR 0x08 else b2);
          b4 = (if length (ph_DiversificationNonce h) > 0 then b3 OR 0x04 else b3);
          b5 = (if hasPacketNumber h pers then b4 OR pn_flag (ph_PacketNumberLen h) else b4)
      in if ph_MultipathFlag h then b5 OR 0x40 else b5)"

definition PublicHeader_Write :: "PublicHeader \<Rightarrow> VersionNumber \<Rightarrow> Perspective \<Rightarrow> writer" where
  "PublicHeader_Write h version pers = wseq
     [wguard (\<not> (ph_VersionFlag h \<and> ph_ResetFlag h)) (GoErr ''errResetAndVersionFlagSet''),
      wguard (\<not> (length (ph_DiversificationNonce h) > 0 \<and> length (ph_DiversificationNonce h) \<noteq> 32))
        (GoErr ''invalid diversification nonce length''),
      wbyte (PublicHeader_flags h pers),
      if \<not> ph_TruncateConnectionID h then WriteUint64 LittleEndian (ph_ConnectionID h) else Inr [],
      if ph_VersionFlag h \<and> pers = PerspectiveClient
      then WriteUint32 LittleEndian (VersionNumberToTag (ph_VersionNumber h)) else Inr [],
      if length (ph_DiversificationNonce h) > 0 then wbytes (ph_DiversificationNonce h) else Inr [],
      if ph_MultipathFlag h then wbyte (ph_PathID h) else Inr [],
      if \<not> hasPacketNumber h pers then Inr []
      else if ph_PacketNumberLen h = PacketNumberLen1 then wbyte (ucast (ph_PacketNumber h))
      else if ph_PacketNumberLen h = PacketNumberLen2
      then WriteUint16 (GetByteOrder version) (ucast (ph_PacketNumber h))
      else if ph_PacketNumberLen h = PacketNumberLen4
      then WriteUint32 (GetByteOrder version) (ucast (ph_PacketNumber h))
      else if ph_PacketNumberLen h = PacketNumberLen6
      then WriteUint48 (GetByteOrder version) (ph_PacketNumber h AND (push_bit 48 1 - 1))
      else Inl (GoErr ''PublicHeader: PacketNumberLen not set'')]"

text \<open>The reader is restored, so the result is the connection ID alone.\<close>

definition PeekConnectionID :: "Perspective \<Rightarrow> u8 list \<Rightarrow> go_error + ConnectionID" where
  "PeekConnectionID packetSentBy bs = map_sum (\<lambda>e. e) fst
     (pbind readByte (\<lambda>publicFlagByte.
      let truncateConnectionID = (publicFlagByte AND 0x08 = 0) in
      pbind (pguard (\<not> (truncateConnectionID \<and> packetSentBy = PerspectiveClient))
               (QErr ''InvalidPacketHeader'')) (\<lambda>_.
      if \<not> truncateConnectionID then ReadUint64 LittleEndian else pret 0)) bs)"

text \<open>
  The versions of a version negotiation packet, until \<open>ReadUint32\<close> fails. A read that fails has taken
  the bytes that were left.
\<close>

function readVersions :: "u8 list \<Rightarrow> VersionNumber list" where
  "readVersions bs =
     (case ReadUint32 LittleEndian bs of Inl _ \<Rightarrow> []
      | Inr (versionTag, r) \<Rightarrow> VersionTagToNumber versionTag # readVersions r)"
  by auto
termination
  by (relation "measure length") (auto simp: Read_eq split: if_splits)

declare readVersions.simps [simp del]

text \<open>From the path identifier on.\<close>

definition parse_header_end :: "Perspective \<Rightarrow> VersionNumber \<Rightarrow> PublicHeader \<Rightarrow> PublicHeader parser" where
  "parse_header_end packetSentBy version header =
     pbind (if ph_MultipathFlag header then readByte else pret 0) (\<lambda>pathID.
     pbind (if hasPacketNumber header packetSentBy
            then ReadUintN (GetByteOrder version) (ph_PacketNumberLen header) else pret 0) (\<lambda>packetNumber.
     pret (header\<lparr>ph_PathID := pathID, ph_PacketNumber := packetNumber\<rparr>)))"

text \<open>From the diversification nonce on.\<close>

definition parse_header_version ::
    "Perspective \<Rightarrow> VersionNumber \<Rightarrow> u8 \<Rightarrow> PublicHeader \<Rightarrow> PublicHeader parser" where
  "parse_header_version packetSentBy version publicFlagByte header =
     pbind (if packetSentBy = PerspectiveServer \<and> publicFlagByte AND 0x04 > 0 \<and>
               \<not> ph_VersionFlag header \<and> \<not> ph_ResetFlag header
            then readFull 32 else pret []) (\<lambda>nonce.
     let header = header\<lparr>ph_DiversificationNonce := nonce\<rparr> in
     if \<not> ph_ResetFlag header \<and> ph_VersionFlag header
     then if packetSentBy = PerspectiveServer
       then pbind readerLen (\<lambda>n.
         if n mod 4 \<noteq> 0 then pfail (QErr ''InvalidVersionNegotiationPacket'')
         else (\<lambda>r. Inr (header\<lparr>ph_SupportedVersions := readVersions r\<rparr>, [])))
       else pbind (ReadUint32 LittleEndian) (\<lambda>versionTag.
         let header = header\<lparr>ph_VersionNumber := VersionTagToNumber versionTag\<rparr>
         in parse_header_end packetSentBy (ph_VersionNumber header) header)
     else parse_header_end packetSentBy version header)"

definition flag_pn_len :: "u8 \<Rightarrow> PacketNumberLen" where
  "flag_pn_len publicFlagByte =
     (let f = publicFlagByte AND 0x30
      in if f = 0x30 then PacketNumberLen6 else if f = 0x20 then PacketNumberLen4
         else if f = 0x10 then PacketNumberLen2 else if f = 0x00 then PacketNumberLen1 else 0)"

definition ParsePublicHeader :: "Perspective \<Rightarrow> VersionNumber \<Rightarrow> PublicHeader parser" where
  "ParsePublicHeader packetSentBy version =
     pbind readByte (\<lambda>publicFlagByte.
     let h1 = empty_header\<lparr>ph_ResetFlag := (publicFlagByte AND 0x02 > 0),
                           ph_VersionFlag := (publicFlagByte AND 0x01 > 0)\<rparr> in
     pbind (pguard (\<not> (version = VersionUnknown \<and> \<not> (ph_VersionFlag h1 \<or> ph_ResetFlag h1)))
              (GoErr ''ErrPacketWithUnknownVersion'')) (\<lambda>_.
     let h2 = h1\<lparr>ph_TruncateConnectionID := (publicFlagByte AND 0x08 = 0)\<rparr> in
     pbind (pguard (\<not> (ph_TruncateConnectionID h2 \<and> packetSentBy = PerspectiveClient))
              (QErr ''InvalidPacketHeader'')) (\<lambda>_.
     let h3 = (if hasPacketNumber h2 packetSentBy
               then h2\<lparr>ph_PacketNumberLen := flag_pn_len publicFlagByte\<rparr> else h2);
         h4 = h3\<lparr>ph_MultipathFlag := (publicFlagByte AND 0x40 > 0)\<rparr> in
     pbind (if \<not> ph_TruncateConnectionID h4
            then pbind (ReadUint64 LittleEndian) (\<lambda>connID.
              pbind (pguard (\<not> connID = 0) (QErr ''InvalidPacketHeader'')) (\<lambda>_. pret connID))
            else pret 0) (\<lambda>connID.
     parse_header_version packetSentBy version publicFlagByte (h4\<lparr>ph_ConnectionID := connID\<rparr>)))))"

definition PublicHeader_GetLength :: "PublicHeader \<Rightarrow> Perspective \<Rightarrow> go_error + ByteCount" where
  "PublicHeader_GetLength h pers =
     (if ph_VersionFlag h \<and> ph_ResetFlag h then Inl (GoErr ''errResetAndVersionFlagSet'')
      else if ph_VersionFlag h \<and> pers = PerspectiveServer
      then Inl (GoErr ''errGetLengthNotForVersionNegotiation'')
      else if hasPacketNumber h pers \<and> ph_PacketNumberLen h \<noteq> PacketNumberLen1 \<and>
        ph_PacketNumberLen h \<noteq> PacketNumberLen2 \<and> ph_PacketNumberLen h \<noteq> PacketNumberLen4 \<and>
        ph_PacketNumberLen h \<noteq> PacketNumberLen6
      then Inl (GoErr ''errPacketNumberLenNotSet'')
      else
        let l1 = (if hasPacketNumber h pers then 1 + ucast (ph_PacketNumberLen h) else 1);
            l2 = (if \<not> ph_TruncateConnectionID h then l1 + 8 else l1);
            l3 = (if ph_VersionFlag h then l2 + 4 else l2);
            l4 = l3 + of_nat (length (ph_DiversificationNonce h))
        in Inr (if ph_MultipathFlag h then l4 + 1 else l4))"

text \<open>
  \<open>ComposeVersionNegotiation\<close> only logs an error of \<open>Write\<close>; the buffer then has whatever was
  written, here nothing.
\<close>

definition ComposeVersionNegotiation :: "ConnectionID \<Rightarrow> VersionNumber list \<Rightarrow> writer" where
  "ComposeVersionNegotiation connectionID versions =
     (let header = empty_header\<lparr>ph_ConnectionID := connectionID, ph_PacketNumber := 1,
                                ph_VersionFlag := True\<rparr>
      in wseq ((case PublicHeader_Write header VersionWhatever PerspectiveServer of
                  Inl e \<Rightarrow> Inr [] | Inr bs \<Rightarrow> Inr bs) #
               map (\<lambda>v. WriteUint32 LittleEndian (VersionNumberToTag v)) versions))"

subsection \<open>The flags byte\<close>

definition header_flags :: "bool \<Rightarrow> bool \<Rightarrow> bool \<Rightarrow> bool \<Rightarrow> u8 \<Rightarrow> bool \<Rightarrow> u8" where
  "header_flags ver rst conn nonce pn mp =
     (((((if ver then 0x01 else 0) OR (if rst then 0x02 else 0)) OR (if conn then 0x08 else 0)) OR
       (if nonce then 0x04 else 0)) OR pn) OR (if mp then 0x40 else 0)"

lemma and_if: "(if b then x else y) AND m = (if b then x AND m else (y AND m :: u8))"
  by simp

lemma pn_flag_fields:
  assumes "pn \<in> {0, 0x10, 0x20, 0x30 :: u8}"
  shows "pn AND 0x01 = 0" "pn AND 0x02 = 0" "pn AND 0x04 = 0" "pn AND 0x08 = 0" "pn AND 0x30 = pn"
    "pn AND 0x40 = 0"
  using assms unfolding insert_iff empty_iff by (elim disjE FalseE; hypsubst; simp)+

lemma header_flags_fields:
  assumes "pn \<in> {0, 0x10, 0x20, 0x30 :: u8}"
  shows "(header_flags ver rst conn nonce pn mp AND 0x01 > 0) = ver"
    "(header_flags ver rst conn nonce pn mp AND 0x02 > 0) = rst"
    "(header_flags ver rst conn nonce pn mp AND 0x04 > 0) = nonce"
    "(header_flags ver rst conn nonce pn mp AND 0x08 = 0) = (\<not> conn)"
    "header_flags ver rst conn nonce pn mp AND 0x30 = pn"
    "(header_flags ver rst conn nonce pn mp AND 0x40 > 0) = mp"
  unfolding header_flags_def bit.conj_disj_distrib2 pn_flag_fields [OF assms] and_if by simp_all

lemma pn_flag_values: "pn_flag len \<in> {0, 0x10, 0x20, 0x30}"
  by (simp add: pn_flag_def)

lemma flag_pn_len:
  "len \<in> pn_lens \<Longrightarrow> fl AND 0x30 = pn_flag len \<Longrightarrow> flag_pn_len fl = len"
  by (auto simp: pn_lens_def PacketNumberLen_defs flag_pn_len_def pn_flag_def)

lemma PublicHeader_flags_eq:
  "PublicHeader_flags h pers = header_flags (ph_VersionFlag h) (ph_ResetFlag h)
     (\<not> ph_TruncateConnectionID h) (ph_DiversificationNonce h \<noteq> [])
     (if hasPacketNumber h pers then pn_flag (ph_PacketNumberLen h) else 0) (ph_MultipathFlag h)"
  by (simp add: PublicHeader_flags_def header_flags_def Let_def)

subsection \<open>Round trip\<close>

text \<open>The headers the session writes, except for version negotiation.\<close>

definition PublicHeader_wf :: "PublicHeader \<Rightarrow> VersionNumber \<Rightarrow> Perspective \<Rightarrow> bool" where
  "PublicHeader_wf h version pers \<longleftrightarrow>
     \<not> (ph_VersionFlag h \<and> ph_ResetFlag h) \<and> \<not> (ph_VersionFlag h \<and> pers = PerspectiveServer) \<and>
     (ph_ResetFlag h \<or> ph_PacketNumberLen h \<in> pn_lens) \<and>
     (ph_TruncateConnectionID h \<longrightarrow> pers = PerspectiveServer) \<and>
     (\<not> ph_TruncateConnectionID h \<longrightarrow> ph_ConnectionID h \<noteq> 0) \<and>
     (ph_DiversificationNonce h \<noteq> [] \<longrightarrow>
        length (ph_DiversificationNonce h) = 32 \<and> pers = PerspectiveServer \<and> \<not> ph_ResetFlag h) \<and>
     (ph_VersionFlag h \<longrightarrow> ph_VersionNumber h = version \<and> 0 \<le> version \<and> version < 1000) \<and>
     (version = VersionUnknown \<longrightarrow> ph_ResetFlag h)"

definition PublicHeader_seen :: "PublicHeader \<Rightarrow> PublicHeader" where
  "PublicHeader_seen h = h\<lparr>ph_Raw := [],
     ph_ConnectionID := (if ph_TruncateConnectionID h then 0 else ph_ConnectionID h),
     ph_PathID := (if ph_MultipathFlag h then ph_PathID h else 0),
     ph_PacketNumberLen := (if ph_ResetFlag h then 0 else ph_PacketNumberLen h),
     ph_PacketNumber := (if ph_ResetFlag h then 0
       else take_bit (8 * unat (ph_PacketNumberLen h)) (ph_PacketNumber h)),
     ph_VersionNumber := (if ph_VersionFlag h then ph_VersionNumber h else 0),
     ph_SupportedVersions := []\<rparr>"

definition header_bytes :: "PublicHeader \<Rightarrow> VersionNumber \<Rightarrow> Perspective \<Rightarrow> u8 list" where
  "header_bytes h version pers =
     PublicHeader_flags h pers #
     (if \<not> ph_TruncateConnectionID h then enc_bytes LittleEndian 8 (ph_ConnectionID h) else []) @
     (if ph_VersionFlag h \<and> pers = PerspectiveClient
      then enc_bytes LittleEndian 4 (ucast (VersionNumberToTag (ph_VersionNumber h))) else []) @
     ph_DiversificationNonce h @
     (if ph_MultipathFlag h then [ph_PathID h] else []) @
     (if hasPacketNumber h pers
      then pn_bytes (GetByteOrder version) (ph_PacketNumberLen h) (ph_PacketNumber h) else [])"

lemma PublicHeader_Write_eq:
  assumes "PublicHeader_wf h version pers"
  shows "PublicHeader_Write h version pers = Inr (header_bytes h version pers)"
proof -
  have m: "hasPacketNumber h pers \<Longrightarrow>
      ph_PacketNumberLen h \<in> {PacketNumberLen1, PacketNumberLen2, PacketNumberLen4, PacketNumberLen6}"
    using assms by (auto simp: PublicHeader_wf_def hasPacketNumber_def pn_lens_def)
  show ?thesis
    using assms unfolding PublicHeader_Write_def write_pn_bytes header_bytes_def
    by (cases "hasPacketNumber h pers")
      (use m in \<open>auto simp: PublicHeader_wf_def frame_simps\<close>)
qed

lemma parse_header_end_written:
  assumes "PublicHeader_wf h version pers"
    and "ph_MultipathFlag g = ph_MultipathFlag h" "hasPacketNumber g pers = hasPacketNumber h pers"
    and "hasPacketNumber h pers \<Longrightarrow> ph_PacketNumberLen g = ph_PacketNumberLen h"
  shows "parse_header_end pers version g
     ((if ph_MultipathFlag h then [ph_PathID h] else []) @
      (if hasPacketNumber h pers
       then pn_bytes (GetByteOrder version) (ph_PacketNumberLen h) (ph_PacketNumber h) else []) @ r) =
    Inr (g\<lparr>ph_PathID := (if ph_MultipathFlag h then ph_PathID h else 0),
           ph_PacketNumber := (if hasPacketNumber h pers
             then take_bit (8 * unat (ph_PacketNumberLen h)) (ph_PacketNumber h) else 0)\<rparr>, r)"
proof -
  have "unat (ph_PacketNumberLen h) \<le> 8" if "hasPacketNumber h pers"
  proof -
    have "ph_PacketNumberLen h \<in> pn_lens"
      using that assms(1) by (simp add: PublicHeader_wf_def hasPacketNumber_def split: if_splits)
    from pn_lens_le [OF this] show ?thesis by simp
  qed
  then show ?thesis
    using assms(2-4) by (auto simp: parse_header_end_def pbind_def pret_def read_pn_bytes)
qed

lemma parse_header_version_written:
  assumes wf: "PublicHeader_wf h version pers"
    and fl: "(fl AND 0x04 > 0) = (ph_DiversificationNonce h \<noteq> [])"
    and g: "ph_MultipathFlag g = ph_MultipathFlag h" "ph_ResetFlag g = ph_ResetFlag h"
      "ph_VersionFlag g = ph_VersionFlag h"
      "hasPacketNumber h pers \<Longrightarrow> ph_PacketNumberLen g = ph_PacketNumberLen h"
  shows "parse_header_version pers version fl g
     ((if ph_VersionFlag h \<and> pers = PerspectiveClient
       then enc_bytes LittleEndian 4 (ucast (VersionNumberToTag (ph_VersionNumber h))) else []) @
      ph_DiversificationNonce h @
      (if ph_MultipathFlag h then [ph_PathID h] else []) @
      (if hasPacketNumber h pers
       then pn_bytes (GetByteOrder version) (ph_PacketNumberLen h) (ph_PacketNumber h) else []) @ r) =
    Inr (g\<lparr>ph_DiversificationNonce := ph_DiversificationNonce h,
           ph_VersionNumber := (if ph_VersionFlag h then ph_VersionNumber h else ph_VersionNumber g),
           ph_PathID := (if ph_MultipathFlag h then ph_PathID h else 0),
           ph_PacketNumber := (if hasPacketNumber h pers
             then take_bit (8 * unat (ph_PacketNumberLen h)) (ph_PacketNumber h) else 0)\<rparr>, r)"
proof -
  have hp: "hasPacketNumber (g\<lparr>ph_DiversificationNonce := x, ph_VersionNumber := y\<rparr>) pers = hasPacketNumber h pers"
    "hasPacketNumber (g\<lparr>ph_DiversificationNonce := x\<rparr>) pers = hasPacketNumber h pers" for x y
    using g by (simp_all add: hasPacketNumber_def)
  show ?thesis
  proof (cases "ph_VersionFlag h")
    case True
    then have c: "\<not> ph_ResetFlag h" "pers = PerspectiveClient" "ph_DiversificationNonce h = []"
      "ph_VersionNumber h = version" "0 \<le> version" "version < 1000"
      using wf by (cases pers; auto simp: PublicHeader_wf_def)+
    then show ?thesis
      using True g hp VersionNumberToTag_roundtrip [of version]
        parse_header_end_written [OF wf, of "g\<lparr>ph_DiversificationNonce := [], ph_VersionNumber := version\<rparr>" r]
      by (simp add: parse_header_version_def Let_def pbind_def pret_def bo.read32_enc)
  next
    case False
    let ?rest = "(if ph_MultipathFlag h then [ph_PathID h] else []) @
      (if hasPacketNumber h pers
       then pn_bytes (GetByteOrder version) (ph_PacketNumberLen h) (ph_PacketNumber h) else []) @ r"
    have "(if pers = PerspectiveServer \<and> fl AND 0x04 > 0 \<and> \<not> ph_VersionFlag g \<and> \<not> ph_ResetFlag g
          then readFull 32 else pret []) (ph_DiversificationNonce h @ s) =
        Inr (ph_DiversificationNonce h, s)" for s
      using wf False fl g by (auto simp: PublicHeader_wf_def readFull_append pret_def)
    then show ?thesis
      using False g hp parse_header_end_written [OF wf, of "g\<lparr>ph_DiversificationNonce := ph_DiversificationNonce h\<rparr>" r]
      by (simp add: parse_header_version_def Let_def pbind_def)
  qed
qed

lemma ParsePublicHeader_written:
  assumes wf: "PublicHeader_wf h version pers"
  shows "ParsePublicHeader pers version (header_bytes h version pers @ r) = Inr (PublicHeader_seen h, r)"
proof -
  define pn where "pn = (if hasPacketNumber h pers then pn_flag (ph_PacketNumberLen h) else 0)"
  define fl where "fl = PublicHeader_flags h pers"
  have pn: "pn \<in> {0, 0x10, 0x20, 0x30}" using pn_flag_values by (simp add: pn_def)
  have flags: "(fl AND 0x01 > 0) = ph_VersionFlag h" "(fl AND 0x02 > 0) = ph_ResetFlag h"
    "(fl AND 0x04 > 0) = (ph_DiversificationNonce h \<noteq> [])"
    "(fl AND 0x08 = 0) = ph_TruncateConnectionID h" "fl AND 0x30 = pn" "(fl AND 0x40 > 0) = ph_MultipathFlag h"
    unfolding fl_def PublicHeader_flags_eq pn_def [symmetric] header_flags_fields [OF pn] by simp_all
  have npl: "flag_pn_len fl = ph_PacketNumberLen h" if "hasPacketNumber h pers"
  proof (rule flag_pn_len)
    show "ph_PacketNumberLen h \<in> pn_lens"
      using that wf by (simp add: PublicHeader_wf_def hasPacketNumber_def split: if_splits)
    show "fl AND 0x30 = pn_flag (ph_PacketNumberLen h)" using flags(5) that by (simp add: pn_def)
  qed
  have hp: "hasPacketNumber h pers \<longleftrightarrow> \<not> ph_ResetFlag h"
    using wf by (auto simp: PublicHeader_wf_def hasPacketNumber_def)
  define h4 where "h4 = empty_header\<lparr>ph_ResetFlag := ph_ResetFlag h, ph_VersionFlag := ph_VersionFlag h,
     ph_TruncateConnectionID := ph_TruncateConnectionID h,
     ph_PacketNumberLen := (if hasPacketNumber h pers then ph_PacketNumberLen h else 0),
     ph_MultipathFlag := ph_MultipathFlag h\<rparr>"
  define cid where "cid = (if ph_TruncateConnectionID h then 0 else ph_ConnectionID h)"
  define rest where "rest = (if ph_VersionFlag h \<and> pers = PerspectiveClient
       then enc_bytes LittleEndian 4 (ucast (VersionNumberToTag (ph_VersionNumber h))) else []) @
      ph_DiversificationNonce h @ (if ph_MultipathFlag h then [ph_PathID h] else []) @
      (if hasPacketNumber h pers
       then pn_bytes (GetByteOrder version) (ph_PacketNumberLen h) (ph_PacketNumber h) else []) @ r"
  have conn: "(if \<not> ph_TruncateConnectionID h
      then pbind (ReadUint64 LittleEndian) (\<lambda>connID.
        pbind (pguard (\<not> connID = 0) (QErr ''InvalidPacketHeader'')) (\<lambda>_. pret connID))
      else pret 0) ((if \<not> ph_TruncateConnectionID h then enc_bytes LittleEndian 8 (ph_ConnectionID h) else []) @ s) =
      Inr (cid, s)" for s
    using wf by (auto simp: PublicHeader_wf_def pbind_def pret_def pguard_def bo.read64_enc cid_def)
  have "ParsePublicHeader pers version (header_bytes h version pers @ r) =
      parse_header_version pers version fl (h4\<lparr>ph_ConnectionID := cid\<rparr>) rest"
  proof -
    have g1: "\<not> (version = VersionUnknown \<and> \<not> (ph_VersionFlag h \<or> ph_ResetFlag h))"
      and g2: "\<not> (ph_TruncateConnectionID h \<and> pers = PerspectiveClient)"
      using wf by (auto simp: PublicHeader_wf_def)
    have h2: "hasPacketNumber (empty_header\<lparr>ph_ResetFlag := ph_ResetFlag h, ph_VersionFlag := ph_VersionFlag h,
        ph_TruncateConnectionID := t\<rparr>) pers = hasPacketNumber h pers" for t
      by (simp add: hasPacketNumber_def)
    have h3: "(if hasPacketNumber h pers then
          empty_header\<lparr>ph_ResetFlag := ph_ResetFlag h, ph_VersionFlag := ph_VersionFlag h,
            ph_TruncateConnectionID := ph_TruncateConnectionID h, ph_PacketNumberLen := flag_pn_len fl\<rparr>
        else empty_header\<lparr>ph_ResetFlag := ph_ResetFlag h, ph_VersionFlag := ph_VersionFlag h,
            ph_TruncateConnectionID := ph_TruncateConnectionID h\<rparr>)\<lparr>ph_MultipathFlag := ph_MultipathFlag h\<rparr> = h4"
      using npl by (simp add: h4_def empty_header_def)
    have t: "ph_TruncateConnectionID h4 = ph_TruncateConnectionID h" by (simp add: h4_def)
    show ?thesis
      unfolding header_bytes_def fl_def [symmetric] append_assoc append_Cons ParsePublicHeader_def Let_def
        rest_def [symmetric]
      by (simp only: pbind_def [of readByte] readByte.simps sum.case prod.case flags)
        (use g1 g2 conn in \<open>simp add: pbind_def pguard_def pret_def h2 h3 t\<close>)
  qed
  also have "\<dots> = Inr (PublicHeader_seen h, r)"
    unfolding rest_def
    by (subst parse_header_version_written [OF wf flags(3)])
      (use hp in \<open>auto simp: h4_def PublicHeader_seen_def cid_def empty_header_def\<close>)
  finally show ?thesis .
qed

lemma PublicHeader_GetLength_written:
  assumes "PublicHeader_wf h version pers"
  shows "\<exists>n. PublicHeader_GetLength h pers = Inr n \<and> unat n = length (header_bytes h version pers)"
proof -
  define l where "l = unat (ph_PacketNumberLen h)"
  have l: "\<not> ph_ResetFlag h \<Longrightarrow> l \<le> 6 \<and> ph_PacketNumberLen h \<in> pn_lens"
    using assms pn_lens_le [of "ph_PacketNumberLen h"] by (auto simp: PublicHeader_wf_def l_def)
  have c: "unat (ucast (ph_PacketNumberLen h) :: u64) = l" by (simp add: l_def unat_ucast_wide)
  have hp: "hasPacketNumber h pers \<longleftrightarrow> \<not> ph_ResetFlag h"
    using assms by (auto simp: PublicHeader_wf_def hasPacketNumber_def)
  have n: "length (ph_DiversificationNonce h) = 0 \<or> length (ph_DiversificationNonce h) = 32"
    using assms by (auto simp: PublicHeader_wf_def)
  have v: "ph_VersionFlag h \<Longrightarrow> pers = PerspectiveClient"
    using assms by (cases pers) (auto simp: PublicHeader_wf_def)
  have bytes: "length (header_bytes h version pers) = 1 +
      (if ph_TruncateConnectionID h then 0 else 8) + (if ph_VersionFlag h then 4 else 0) +
      length (ph_DiversificationNonce h) + (if ph_MultipathFlag h then 1 else 0) + (if ph_ResetFlag h then 0 else l)"
    using v by (auto simp: header_bytes_def bo.length_enc pn_bytes_def hp l_def)
  define l1 :: u64 where "l1 = (if hasPacketNumber h pers then 1 + ucast (ph_PacketNumberLen h) else 1)"
  define l2 where "l2 = (if \<not> ph_TruncateConnectionID h then l1 + 8 else l1)"
  define l3 where "l3 = (if ph_VersionFlag h then l2 + 4 else l2)"
  define l4 where "l4 = l3 + of_nat (length (ph_DiversificationNonce h))"
  define l5 where "l5 = (if ph_MultipathFlag h then l4 + 1 else l4)"
  have len: "PublicHeader_GetLength h pers = Inr l5"
  proof -
    have g: "\<not> (ph_VersionFlag h \<and> ph_ResetFlag h)" "\<not> (ph_VersionFlag h \<and> pers = PerspectiveServer)"
      "\<not> (hasPacketNumber h pers \<and> ph_PacketNumberLen h \<noteq> PacketNumberLen1 \<and>
        ph_PacketNumberLen h \<noteq> PacketNumberLen2 \<and> ph_PacketNumberLen h \<noteq> PacketNumberLen4 \<and>
        ph_PacketNumberLen h \<noteq> PacketNumberLen6)"
      using assms l hp by (auto simp: PublicHeader_wf_def pn_lens_def)
    show ?thesis
      unfolding PublicHeader_GetLength_def if_not_P [OF g(1)] if_not_P [OF g(2)] if_not_P [OF g(3)]
        Let_def l1_def l2_def l3_def l4_def l5_def ..
  qed
  have u1: "unat l1 = 1 + (if ph_ResetFlag h then 0 else l)"
    using l c by (cases "ph_ResetFlag h") (simp_all add: l1_def hp unat_word_ariths)
  have b1: "unat l1 \<le> 7" using u1 l by (cases "ph_ResetFlag h") simp_all
  then have u2: "unat l2 = unat l1 + (if ph_TruncateConnectionID h then 0 else 8)"
    by (simp add: l2_def unat_word_ariths)
  then have u3: "unat l3 = unat l2 + (if ph_VersionFlag h then 4 else 0)"
    using b1 by (simp add: l3_def unat_word_ariths)
  have "unat l3 < 100" using b1 u2 u3 by simp
  then have u4: "unat l4 = unat l3 + length (ph_DiversificationNonce h)"
    using n by (auto simp: l4_def unat_word_ariths)
  then have "unat l5 = unat l4 + (if ph_MultipathFlag h then 1 else 0)"
    using n \<open>unat l3 < 100\<close> by (auto simp: l5_def unat_word_ariths)
  then show ?thesis using len u1 u2 u3 u4 bytes by simp
qed

interpretation ph: wire_frame "\<lambda>h. PublicHeader_wf h v pers" "\<lambda>h. PublicHeader_Write h v pers"
    "ParsePublicHeader pers v" "\<lambda>h. PublicHeader_GetLength h pers" PublicHeader_seen for v pers
proof (unfold_locales, goal_cases)
  case (1 h) then show ?case by (simp add: PublicHeader_Write_eq)
next
  case (2 h bs r) then show ?case by (auto simp: PublicHeader_Write_eq ParsePublicHeader_written)
next
  case (3 h bs)
  then show ?case using PublicHeader_GetLength_written by (auto simp: PublicHeader_Write_eq)
qed

subsection \<open>Version negotiation\<close>

definition version_bytes :: "VersionNumber list \<Rightarrow> u8 list" where
  "version_bytes vs = concat (map (\<lambda>v. enc_bytes LittleEndian 4 (ucast (VersionNumberToTag v))) vs)"

lemma length_version_bytes: "length (version_bytes vs) = 4 * length vs"
  by (induction vs) (simp_all add: version_bytes_def bo.length_enc)

lemma readVersions_bytes: "\<forall>v\<in>set vs. 0 \<le> v \<and> v < 1000 \<Longrightarrow> readVersions (version_bytes vs) = vs"
proof (induction vs)
  case Nil
  then show ?case by (subst readVersions.simps) (simp add: version_bytes_def Read_eq)
next
  case (Cons v vs)
  then show ?case
    by (subst readVersions.simps)
      (simp add: version_bytes_def bo.read32_enc VersionNumberToTag_roundtrip)
qed

lemma ComposeVersionNegotiation_eq:
  "ComposeVersionNegotiation cid vs =
   Inr (0x09 # enc_bytes LittleEndian 8 cid @ version_bytes vs)"
proof -
  have "wseq (map (\<lambda>v. WriteUint32 LittleEndian (VersionNumberToTag v)) vs) = Inr (version_bytes vs)"
    by (induction vs) (simp_all add: version_bytes_def bo.write32_eq)
  moreover have "PublicHeader_Write (empty_header\<lparr>ph_ConnectionID := cid, ph_PacketNumber := 1,
        ph_VersionFlag := True\<rparr>) VersionWhatever PerspectiveServer = Inr (0x09 # enc_bytes LittleEndian 8 cid)"
    by (simp add: PublicHeader_Write_def PublicHeader_flags_def hasPacketNumber_def empty_header_def frame_simps)
  ultimately show ?thesis by (simp add: ComposeVersionNegotiation_def Let_def)
qed

lemma ParsePublicHeader_version_negotiation:
  assumes "cid \<noteq> 0" "\<forall>v\<in>set vs. 0 \<le> v \<and> v < 1000"
  shows "ParsePublicHeader PerspectiveServer v (0x09 # enc_bytes LittleEndian 8 cid @ version_bytes vs) =
    Inr (empty_header\<lparr>ph_ConnectionID := cid, ph_VersionFlag := True, ph_SupportedVersions := vs\<rparr>, [])"
proof -
  have "length (version_bytes vs) mod 4 = 0" by (simp add: length_version_bytes)
  then show ?thesis
    using assms readVersions_bytes [OF assms(2)]
    by (simp add: ParsePublicHeader_def Let_def pbind_def pguard_def pret_def empty_header_def
        hasPacketNumber_def bo.read64_enc parse_header_version_def readerLen_def)
qed

subsection \<open>Properties\<close>

text \<open>
  C30. A public header that either side writes is read back by the other side as the same header, its
  packet number reduced to the bytes that were sent, and \<open>GetLength\<close> is the number of bytes.
\<close>
theorem PublicHeader_roundtrip:
  assumes "PublicHeader_wf h version pers"
  shows "\<exists>bs n. PublicHeader_Write h version pers = Inr bs \<and>
    ParsePublicHeader pers version (bs @ r) = Inr (PublicHeader_seen h, r) \<and>
    PublicHeader_GetLength h pers = Inr n \<and> unat n = length bs"
  using ph.roundtrip [OF assms, of r] by blast

lemma PublicHeader_roundtrip_witness:
  "\<exists>bs. PublicHeader_Write (empty_header\<lparr>ph_ConnectionID := 77, ph_MultipathFlag := True, ph_PathID := 3,
       ph_PacketNumberLen := 2, ph_PacketNumber := 70000\<rparr>) 512 PerspectiveClient = Inr bs \<and> length bs = 12"
proof -
  let ?h = "empty_header\<lparr>ph_ConnectionID := 77, ph_MultipathFlag := True, ph_PathID := 3,
       ph_PacketNumberLen := 2, ph_PacketNumber := 70000\<rparr>"
  have wf: "PublicHeader_wf ?h 512 PerspectiveClient"
    by (simp add: PublicHeader_wf_def empty_header_def pn_lens_def PacketNumberLen_defs VersionUnknown_def)
  have "PublicHeader_GetLength ?h PerspectiveClient = Inr 12"
    by (simp add: PublicHeader_GetLength_def empty_header_def hasPacketNumber_def PacketNumberLen_defs Let_def)
  then show ?thesis using PublicHeader_roundtrip [OF wf, of "[]"] by auto
qed

text \<open>
  A client that does not know the version yet reads from a version negotiation packet the connection ID
  and the list of versions the server put into it, in order.
\<close>
theorem version_negotiation_packet_roundtrip:
  assumes "cid \<noteq> 0" "\<forall>v\<in>set vs. 0 \<le> v \<and> v < 1000"
  shows "\<exists>bs h. ComposeVersionNegotiation cid vs = Inr bs \<and>
    ParsePublicHeader PerspectiveServer VersionUnknown bs = Inr (h, []) \<and>
    ph_ConnectionID h = cid \<and> ph_SupportedVersions h = vs \<and> ph_VersionFlag h"
  using ComposeVersionNegotiation_eq ParsePublicHeader_version_negotiation [OF assms]
  by (auto simp: empty_header_def)

lemma version_negotiation_packet_roundtrip_witness:
  "\<exists>bs h. ComposeVersionNegotiation 5 SupportedVersions = Inr bs \<and>
    ParsePublicHeader PerspectiveServer VersionUnknown bs = Inr (h, []) \<and>
    ph_ConnectionID h = 5 \<and> ph_SupportedVersions h = SupportedVersions \<and> ph_VersionFlag h"
  by (rule version_negotiation_packet_roundtrip) (simp_all add: SupportedVersions_def Version_defs)

end
