(* ===== verification/Packet_Unpacker.thy ===== *)
theory Packet_Unpacker
  imports Wire_Stream Wire_ClosePath Wire_Header
begin

section \<open>Frames of a packet: \<open>internal/wire/frame.go\<close> and \<open>packet_unpacker.go\<close>\<close>

text \<open>
  The interface \<open>wire.Frame\<close> as the sum of its implementations, and the loop of \<open>Unpack\<close> that
  reads all frames of a decrypted payload. Opening the packet is the interface \<open>quicAEAD\<close>, a
  parameter here. The main result: a payload made of well formed frames, with padding anywhere
  between them, is unpacked to these frames.
\<close>

datatype EncryptionLevel =
  EncryptionUnspecified | EncryptionUnencrypted | EncryptionSecure | EncryptionForwardSecure

text \<open>Encryption levels are ordered by their numbers in \<open>encryption_level.go\<close>.\<close>

fun level_number :: "EncryptionLevel \<Rightarrow> nat" where
  "level_number EncryptionUnspecified = 0"
| "level_number EncryptionUnencrypted = 1"
| "level_number EncryptionSecure = 2"
| "level_number EncryptionForwardSecure = 3"

lemma level_number_inject [simp]: "level_number a = level_number b \<longleftrightarrow> a = b"
  by (cases a; cases b) auto

instantiation EncryptionLevel :: linorder
begin

definition less_eq_EncryptionLevel :: "EncryptionLevel \<Rightarrow> EncryptionLevel \<Rightarrow> bool" where
  "a \<le> b \<longleftrightarrow> level_number a \<le> level_number b"

definition less_EncryptionLevel :: "EncryptionLevel \<Rightarrow> EncryptionLevel \<Rightarrow> bool" where
  "a < b \<longleftrightarrow> level_number a < level_number b"

instance
  by standard (auto simp: less_eq_EncryptionLevel_def less_EncryptionLevel_def)

end

datatype Frame =
    StreamF StreamFrame
  | AckF AckFrame
  | RstStreamF RstStreamFrame
  | ConnectionCloseF ConnectionCloseFrame
  | GoawayF GoawayFrame
  | WindowUpdateF WindowUpdateFrame
  | BlockedF BlockedFrame
  | StopWaitingF StopWaitingFrame
  | PingF PingFrame
  | AddAddressF AddAddressFrame
  | ClosePathF ClosePathFrame
  | PathsF PathsFrame

text \<open>A call of \<open>Write\<close> and \<open>MinLength\<close> through the interface.\<close>

fun Frame_Write :: "VersionNumber \<Rightarrow> int \<Rightarrow> Frame \<Rightarrow> writer" where
  "Frame_Write v now (StreamF f) = StreamFrame_Write v f"
| "Frame_Write v now (AckF f) = snd (AckFrame_Write v now f)"
| "Frame_Write v now (RstStreamF f) = RstStreamFrame_Write v f"
| "Frame_Write v now (ConnectionCloseF f) = ConnectionCloseFrame_Write v f"
| "Frame_Write v now (GoawayF f) = GoawayFrame_Write v f"
| "Frame_Write v now (WindowUpdateF f) = WindowUpdateFrame_Write v f"
| "Frame_Write v now (BlockedF f) = BlockedFrame_Write v f"
| "Frame_Write v now (StopWaitingF f) = StopWaitingFrame_Write v f"
| "Frame_Write v now (PingF f) = PingFrame_Write v f"
| "Frame_Write v now (AddAddressF f) = AddAddressFrame_Write v f"
| "Frame_Write v now (ClosePathF f) = ClosePathFrame_Write v f"
| "Frame_Write v now (PathsF f) = PathsFrame_Write v f"

fun Frame_MinLength :: "Frame \<Rightarrow> go_error + ByteCount" where
  "Frame_MinLength (StreamF f) = StreamFrame_MinLength f"
| "Frame_MinLength (AckF f) = AckFrame_MinLength f"
| "Frame_MinLength (RstStreamF f) = RstStreamFrame_MinLength f"
| "Frame_MinLength (ConnectionCloseF f) = ConnectionCloseFrame_MinLength f"
| "Frame_MinLength (GoawayF f) = GoawayFrame_MinLength f"
| "Frame_MinLength (WindowUpdateF f) = WindowUpdateFrame_MinLength f"
| "Frame_MinLength (BlockedF f) = BlockedFrame_MinLength f"
| "Frame_MinLength (StopWaitingF f) = StopWaitingFrame_MinLength f"
| "Frame_MinLength (PingF f) = PingFrame_MinLength f"
| "Frame_MinLength (AddAddressF f) = AddAddressFrame_MinLength f"
| "Frame_MinLength (ClosePathF f) = ClosePathFrame_MinLength f"
| "Frame_MinLength (PathsF f) = PathsFrame_MinLength f"

text \<open>Wrapping the error of a parser, and the frame it returns.\<close>

definition wrap_frame :: "string \<Rightarrow> ('a \<Rightarrow> Frame) \<Rightarrow> 'a parser \<Rightarrow> Frame parser" where
  "wrap_frame code mk p r = (case p r of Inl e \<Rightarrow> Inl (QErr code) | Inr (f, r') \<Rightarrow> Inr (mk f, r'))"

definition plain_frame :: "('a \<Rightarrow> Frame) \<Rightarrow> 'a parser \<Rightarrow> Frame parser" where
  "plain_frame mk p r = (case p r of Inl e \<Rightarrow> Inl e | Inr (f, r') \<Rightarrow> Inr (mk f, r'))"

definition checkStream :: "EncryptionLevel \<Rightarrow> Frame \<Rightarrow> Frame parser" where
  "checkStream encryptionLevel frame =
     (case frame of
        StreamF f \<Rightarrow>
          if sf_StreamID f \<noteq> 1 \<and> encryptionLevel \<le> EncryptionUnencrypted
          then pfail (QErr ''UnencryptedStreamData'') else pret frame
      | _ \<Rightarrow> pret frame)"

text \<open>One frame, from its type byte, which has been put back.\<close>

definition unpackFrame ::
    "VersionNumber \<Rightarrow> PacketNumber \<Rightarrow> PacketNumberLen \<Rightarrow> EncryptionLevel \<Rightarrow> u8 \<Rightarrow> Frame parser" where
  "unpackFrame version packetNumber packetNumberLen encryptionLevel typeByte =
     (if typeByte AND 0x80 = 0x80
      then pbind (wrap_frame ''InvalidStreamData'' StreamF (ParseStreamFrame version)) (checkStream encryptionLevel)
      else if typeByte AND 0xc0 = 0x40
      then wrap_frame ''InvalidAckData'' AckF (ParseAckFrame version)
      else if typeByte AND 0xe0 = 0x20
      then pfail (GoErr ''unimplemented: CONGESTION_FEEDBACK'')
      else if typeByte = 0x01
      then wrap_frame ''InvalidRstStreamData'' RstStreamF (ParseRstStreamFrame version)
      else if typeByte = 0x02
      then wrap_frame ''InvalidConnectionCloseData'' ConnectionCloseF (ParseConnectionCloseFrame version)
      else if typeByte = 0x03
      then wrap_frame ''InvalidGoawayData'' GoawayF (ParseGoawayFrame version)
      else if typeByte = 0x04
      then wrap_frame ''InvalidWindowUpdateData'' WindowUpdateF (ParseWindowUpdateFrame version)
      else if typeByte = 0x05
      then wrap_frame ''InvalidBlockedData'' BlockedF (ParseBlockedFrame version)
      else if typeByte = 0x06
      then wrap_frame ''InvalidStopWaitingData'' StopWaitingF
             (ParseStopWaitingFrame packetNumber packetNumberLen version)
      else if typeByte = 0x07 then plain_frame PingF (ParsePingFrame version)
      else if typeByte = 0x10 then plain_frame AddAddressF (ParseAddAddressFrame version)
      else if typeByte = 0x11 then plain_frame ClosePathF (ParseClosePathFrame version)
      else if typeByte = 0x12 then plain_frame PathsF (ParsePathsFrame version)
      else pfail (QErr ''InvalidFrameData''))"

lemma consumes_wrap_frame: "consumes n p \<Longrightarrow> consumes n (wrap_frame c mk p)"
  by (auto simp: consumes_def wrap_frame_def split: sum.splits)

lemma consumes_plain_frame: "consumes n p \<Longrightarrow> consumes n (plain_frame mk p)"
  by (auto simp: consumes_def plain_frame_def split: sum.splits)

lemma consumes_unpackFrame: "consumes 1 (unpackFrame v pn len enc t)"
proof -
  have s: "consumes 1 (pbind (wrap_frame c StreamF (ParseStreamFrame v)) (checkStream enc))" for c
    by (intro consumes_first consumes_wrap_frame consumes_ParseStreamFrame)
      (auto simp: checkStream_def intro!: consumes_intros split: Frame.splits)
  show ?thesis
    unfolding unpackFrame_def
    by (intro consumes_if s consumes_wrap_frame consumes_plain_frame consumes_pfail
        consumes_small_frames consumes_ParseAckFrame consumes_ParseClosePathFrame)
qed

text \<open>The loop of \<open>Unpack\<close>: it ends because every frame takes its type byte.\<close>

function unpackFrames ::
    "VersionNumber \<Rightarrow> PacketNumber \<Rightarrow> PacketNumberLen \<Rightarrow> EncryptionLevel \<Rightarrow> u8 list \<Rightarrow> go_error + Frame list" where
  "unpackFrames v pn len enc [] = Inr []"
| "unpackFrames v pn len enc (typeByte # r) =
     (if typeByte = 0x0 then unpackFrames v pn len enc r
      else case unpackFrame v pn len enc typeByte (typeByte # r) of
        Inl e \<Rightarrow> Inl e
      | Inr (frame, r') \<Rightarrow>
          (case unpackFrames v pn len enc r' of Inl e \<Rightarrow> Inl e | Inr fs \<Rightarrow> Inr (frame # fs)))"
  by pat_completeness auto
termination
  by (relation "measure (\<lambda>(_, _, _, _, bs). length bs)")
    (auto dest: consumesD [OF consumes_unpackFrame])

declare unpackFrames.simps(2) [simp del]

type_synonym aead_open =
  "u8 list \<Rightarrow> PacketNumber \<Rightarrow> u8 list \<Rightarrow> go_error + (u8 list \<times> EncryptionLevel)"

definition Unpack ::
    "aead_open \<Rightarrow> VersionNumber \<Rightarrow> u8 list \<Rightarrow> PublicHeader \<Rightarrow> u8 list \<Rightarrow>
     go_error + (EncryptionLevel \<times> Frame list)" where
  "Unpack open version publicHeaderBinary hdr data =
     (case open data (ph_PacketNumber hdr) publicHeaderBinary of
        Inl e \<Rightarrow> Inl (QErr ''DecryptionFailure'')
      | Inr (decrypted, encryptionLevel) \<Rightarrow>
          if length decrypted = 0 then Inl (QErr ''MissingPayload'')
          else case unpackFrames version (ph_PacketNumber hdr) (ph_PacketNumberLen hdr)
                      encryptionLevel decrypted of
                 Inl e \<Rightarrow> Inl e
               | Inr fs \<Rightarrow> Inr (encryptionLevel, fs))"

subsection \<open>Unpacking what was packed\<close>

text \<open>
  The frames a packet may carry. Only the last frame of a payload without padding may be a STREAM
  frame without a length.
\<close>

fun frame_wf :: "PacketNumber \<Rightarrow> PacketNumberLen \<Rightarrow> bool \<Rightarrow> Frame \<Rightarrow> bool" where
  "frame_wf pn len atEnd (StreamF f) = (StreamFrame_wf f \<and> (sf_DataLenPresent f \<or> atEnd))"
| "frame_wf pn len atEnd (AckF f) = AckFrame_wf f"
| "frame_wf pn len atEnd (ConnectionCloseF f) = (length (cc_ReasonPhrase f) \<le> 1350)"
| "frame_wf pn len atEnd (GoawayF f) = (length (goaway_ReasonPhrase f) \<le> 1350)"
| "frame_wf pn len atEnd (StopWaitingF f) = StopWaitingFrame_wf pn len f"
| "frame_wf pn len atEnd (AddAddressF f) = AddAddressFrame_wf f"
| "frame_wf pn len atEnd (ClosePathF f) = ClosePathFrame_wf f"
| "frame_wf pn len atEnd (PathsF f) = PathsFrame_wf f"
| "frame_wf pn len atEnd f = True"

fun frame_seen :: "int \<Rightarrow> Frame \<Rightarrow> Frame" where
  "frame_seen now (AckF f) = AckF (AckFrame_seen now f)"
| "frame_seen now (StopWaitingF f) = StopWaitingF (f\<lparr>sw_PacketNumberLen := 0, sw_PacketNumber := 0\<rparr>)"
| "frame_seen now (AddAddressF f) = AddAddressF (AddAddressFrame_seen f)"
| "frame_seen now (ClosePathF f) = ClosePathF (ClosePathFrame_seen f)"
| "frame_seen now (PathsF f) = PathsF (PathsFrame_seen f)"
| "frame_seen now f = f"

text \<open>Data of streams other than the crypto stream travels encrypted only.\<close>

fun stream_allowed :: "EncryptionLevel \<Rightarrow> Frame \<Rightarrow> bool" where
  "stream_allowed enc (StreamF f) = (sf_StreamID f = 1 \<or> \<not> enc \<le> EncryptionUnencrypted)"
| "stream_allowed enc f = True"

lemma ack_type_mask_c0:
  assumes "l \<in> {0, 1, 2, 3}" "m \<in> {0, 1, 2, 3}"
  shows "ack_type has path l m AND 0xc0 = 0x40"
proof -
  have "ack_type has path l m AND (0x40 OR 0x80) = 0x40"
    unfolding bit.conj_disj_distrib ack_type_fields(5,6) [OF assms] by simp
  then show ?thesis by simp
qed

lemma first_byte_stream:
  assumes "StreamFrame_wf f" "StreamFrame_Write v f = Inr bs"
  obtains t cs where "bs = t # cs" "t AND 0x80 = 0x80"
  using assms StreamFrame_typeByte_fields(5) by (auto simp: StreamFrame_wf_def StreamFrame_Write_eq)

lemma first_byte_ack:
  assumes "AckFrame_wf f"
  obtains cs where "ack_bytes v now f = AckFrame_typeByte f # cs"
    "AckFrame_typeByte f AND 0x80 = 0" "AckFrame_typeByte f AND 0xc0 = 0x40"
proof -
  have lens: "GetPacketNumberLength (ack_LargestAcked f) \<in> pn_lens" "AckFrame_deltaLen f \<in> pn_lens"
    using largest_len(1) [OF assms] wf_mlen(4) [OF _ AckFrame_deltaLen_def] assms
    by (auto simp: AckFrame_wf_def)
  show thesis
    using that ack_type_fields(6) [OF code_len_values [OF lens(1)] code_len_values [OF lens(2)]]
      ack_type_mask_c0 [OF code_len_values [OF lens(1)] code_len_values [OF lens(2)]]
    by (simp add: ack_bytes_def Let_def AckFrame_typeByte_eq)
qed

text \<open>The other frames start with their type.\<close>

lemma wseq_Cons_byte: "wseq (wbyte t # ws) = Inr bs \<Longrightarrow> \<exists>cs. bs = t # cs"
  by (auto simp: wbyte_def wbytes_def split: sum.splits)

lemma first_byte_small:
  "RstStreamFrame_Write v f1 = Inr bs \<Longrightarrow> \<exists>cs. bs = 0x01 # cs"
  "ConnectionCloseFrame_Write v f2 = Inr bs \<Longrightarrow> \<exists>cs. bs = 0x02 # cs"
  "GoawayFrame_Write v f3 = Inr bs \<Longrightarrow> \<exists>cs. bs = 0x03 # cs"
  "WindowUpdateFrame_Write v f4 = Inr bs \<Longrightarrow> \<exists>cs. bs = 0x04 # cs"
  "BlockedFrame_Write v f5 = Inr bs \<Longrightarrow> \<exists>cs. bs = 0x05 # cs"
  "StopWaitingFrame_Write v f6 = Inr bs \<Longrightarrow> \<exists>cs. bs = 0x06 # cs"
  "PingFrame_Write v f7 = Inr bs \<Longrightarrow> \<exists>cs. bs = 0x07 # cs"
  "AddAddressFrame_Write v f8 = Inr bs \<Longrightarrow> \<exists>cs. bs = 0x10 # cs"
  "ClosePathFrame_Write v f9 = Inr bs \<Longrightarrow> \<exists>cs. bs = 0x11 # cs"
  "PathsFrame_Write v f10 = Inr bs \<Longrightarrow> \<exists>cs. bs = 0x12 # cs"
  by (auto simp: RstStreamFrame_Write_def ConnectionCloseFrame_Write_def GoawayFrame_Write_def
      WindowUpdateFrame_Write_def BlockedFrame_Write_def StopWaitingFrame_Write_def PingFrame_Write_def
      AddAddressFrame_Write_def ClosePathFrame_Write_def PathsFrame_Write_def Let_def
      simp del: wseq_ok_Cons wseq.simps dest!: wseq_Cons_byte split: if_splits)

lemma unpackFrame_written:
  assumes "frame_wf pn len atEnd f" "Frame_Write v now f = Inr bs" "stream_allowed enc f"
    and "atEnd \<Longrightarrow> r = []"
  shows "\<exists>t cs. bs = t # cs \<and> t \<noteq> 0 \<and> unpackFrame v pn len enc t (bs @ r) = Inr (frame_seen now f, r)"
proof (cases f)
  case (StreamF g)
  then obtain t cs where t: "bs = t # cs" "t AND 0x80 = 0x80"
    using assms first_byte_stream [of g v bs] by auto
  have "ParseStreamFrame v (bs @ r) = Inr (g, r)"
    using ParseStreamFrame_written [of g v bs r] assms StreamF by auto
  then show ?thesis
    using t assms(3) StreamF by (auto simp: unpackFrame_def pbind_def wrap_frame_def checkStream_def pret_def)
next
  case (AckF g)
  then have wf: "AckFrame_wf g" and bs: "bs = ack_bytes v now g"
    using assms AckFrame_Write_eq by auto
  obtain cs where "ack_bytes v now g = AckFrame_typeByte g # cs"
    "AckFrame_typeByte g AND 0x80 = 0" "AckFrame_typeByte g AND 0xc0 = 0x40"
    by (rule first_byte_ack [OF wf])
  then show ?thesis
    using ParseAckFrame_written [OF wf, of v now r] bs AckF by (auto simp: unpackFrame_def wrap_frame_def)
next
  case (RstStreamF g)
  then show ?thesis using assms rst.parse_write [where f = g and v = v and bs = bs and r = r] first_byte_small(1) [of v g bs]
    by (auto simp: unpackFrame_def wrap_frame_def)
next
  case (ConnectionCloseF g)
  then show ?thesis using assms cc.parse_write [where f = g and v = v and bs = bs and r = r] first_byte_small(2) [of v g bs]
    by (auto simp: unpackFrame_def wrap_frame_def)
next
  case (GoawayF g)
  then show ?thesis using assms goaway.parse_write [where f = g and v = v and bs = bs and r = r] first_byte_small(3) [of v g bs]
    by (auto simp: unpackFrame_def wrap_frame_def)
next
  case (WindowUpdateF g)
  then show ?thesis using assms wu.parse_write [where f = g and v = v and bs = bs and r = r] first_byte_small(4) [of v g bs]
    by (auto simp: unpackFrame_def wrap_frame_def)
next
  case (BlockedF g)
  then show ?thesis using assms blocked.parse_write [where f = g and v = v and bs = bs and r = r] first_byte_small(5) [of v g bs]
    by (auto simp: unpackFrame_def wrap_frame_def)
next
  case (StopWaitingF g)
  then show ?thesis using assms sw.parse_write [where f = g and v = v and bs = bs and r = r] first_byte_small(6) [of v g bs]
    by (auto simp: unpackFrame_def wrap_frame_def)
next
  case (PingF g)
  then show ?thesis using assms ping.parse_write [where f = g and v = v and bs = bs and r = r] first_byte_small(7) [of v g bs]
    by (auto simp: unpackFrame_def plain_frame_def)
next
  case (AddAddressF g)
  then show ?thesis using assms aa.parse_write [where f = g and v = v and bs = bs and r = r] first_byte_small(8) [of v g bs]
    by (auto simp: unpackFrame_def plain_frame_def)
next
  case (ClosePathF g)
  then show ?thesis using assms cp.parse_write [where f = g and v = v and bs = bs and r = r] first_byte_small(9) [of v g bs]
    by (auto simp: unpackFrame_def plain_frame_def)
next
  case (PathsF g)
  then have wf: "PathsFrame_wf g" and w: "PathsFrame_Write v g = Inr bs" using assms by auto
  obtain cs where cs: "bs = 0x12 # cs" using first_byte_small(10) [OF w] by blast
  have "ParsePathsFrame v (0x12 # cs @ r) = Inr (PathsFrame_seen g, r)"
    using pf.parse_write [OF wf w, of r] cs by simp
  then show ?thesis unfolding PathsF cs by (simp add: unpackFrame_def plain_frame_def)
qed

lemma unpackFrames_zeros [simp]: "unpackFrames v pn len enc (replicate k 0 @ r) = unpackFrames v pn len enc r"
  by (induction k) (simp_all add: unpackFrames.simps(2))

text \<open>
  A payload: every frame preceded by some padding, and padding at the end. The last frame may
  leave its length out only if no padding follows it.
\<close>

fun payload_wf :: "PacketNumber \<Rightarrow> PacketNumberLen \<Rightarrow> EncryptionLevel \<Rightarrow> (nat \<times> Frame) list \<Rightarrow> nat \<Rightarrow> bool" where
  "payload_wf pn len enc [] k = True"
| "payload_wf pn len enc ((j, f) # fs) k =
     (frame_wf pn len (fs = [] \<and> k = 0) f \<and> stream_allowed enc f \<and> payload_wf pn len enc fs k)"

fun payload_Write :: "VersionNumber \<Rightarrow> int \<Rightarrow> (nat \<times> Frame) list \<Rightarrow> nat \<Rightarrow> writer" where
  "payload_Write v now [] k = wbytes (replicate k 0)"
| "payload_Write v now ((j, f) # fs) k =
     wseq [wbytes (replicate j 0), Frame_Write v now f, payload_Write v now fs k]"

lemma unpackFrames_payload:
  assumes "payload_wf pn len enc fs k" "payload_Write v now fs k = Inr bs"
  shows "unpackFrames v pn len enc bs = Inr (map (\<lambda>(j, f). frame_seen now f) fs)"
  using assms
proof (induction fs arbitrary: bs)
  case Nil
  then show ?case using unpackFrames_zeros [of v pn len enc k "[]"] by (simp add: wbytes_def)
next
  case (Cons p fs)
  obtain j f where p: "p = (j, f)" by (cases p)
  obtain as cs where w: "Frame_Write v now f = Inr as" "payload_Write v now fs k = Inr cs"
    and bs: "bs = replicate j 0 @ as @ cs"
    using Cons.prems(2) unfolding p by (auto simp: wbytes_def split: sum.splits)
  have wf: "frame_wf pn len (fs = [] \<and> k = 0) f" "stream_allowed enc f" "payload_wf pn len enc fs k"
    using Cons.prems(1) unfolding p by auto
  have "cs = []" if "fs = [] \<and> k = 0" using w(2) that by (simp add: wbytes_def)
  then obtain t ds where t: "as = t # ds" "t \<noteq> 0"
    "unpackFrame v pn len enc t (as @ cs) = Inr (frame_seen now f, cs)"
    using unpackFrame_written [OF wf(1) w(1) wf(2), of cs] by blast
  show ?case
    using t Cons.IH [OF wf(3) w(2)] unfolding bs p by (simp add: unpackFrames.simps(2))
qed

lemma Frame_Write_ok:
  assumes "frame_wf pn len atEnd f"
  shows "\<exists>bs. Frame_Write v now f = Inr bs"
  using assms rst.write_ok [where v = v] cc.write_ok [where v = v] goaway.write_ok [where v = v] wu.write_ok [where v = v]
    blocked.write_ok [where v = v] sw.write_ok [where v = v and pn = pn and len = len] ping.write_ok [where v = v] aa.write_ok [where v = v]
    cp.write_ok [where v = v] pf.write_ok [where v = v] ack.write_ok [where v = v and now = now]
  by (cases f) (auto simp: StreamFrame_wf_def StreamFrame_Write_eq)

lemma payload_Write_ok:
  assumes "payload_wf pn len enc fs k"
  shows "\<exists>bs. payload_Write v now fs k = Inr bs"
  using assms
proof (induction fs)
  case Nil
  then show ?case by (simp add: wbytes_def)
next
  case (Cons p fs)
  then obtain j f where p: "p = (j, f)" and wf: "frame_wf pn len (fs = [] \<and> k = 0) f"
    and rest: "\<exists>bs. payload_Write v now fs k = Inr bs" by (cases p) auto
  then show ?case using Frame_Write_ok [OF wf, of v now] by (auto simp: wbytes_def)
qed

subsection \<open>What the unpacker accepts\<close>

fun frame_sound :: "EncryptionLevel \<Rightarrow> Frame \<Rightarrow> bool" where
  "frame_sound enc (StreamF f) =
     ((sf_StreamID f = 1 \<or> EncryptionUnencrypted < enc) \<and> (sf_Data f \<noteq> [] \<or> sf_FinBit f) \<and>
      (sf_DataLenPresent f \<longrightarrow> length (sf_Data f) \<le> 1350) \<and>
      \<not> sf_Offset f + of_nat (length (sf_Data f)) < sf_Offset f)"
| "frame_sound enc (AckF f) = AckFrame_valid f"
| "frame_sound enc _ = True"

lemma wrap_frame_ok_iff: "wrap_frame c mk p r = Inr (f, r') \<longleftrightarrow> (\<exists>g. p r = Inr (g, r') \<and> f = mk g)"
  by (auto simp: wrap_frame_def split: sum.splits)

lemma plain_frame_ok_iff: "plain_frame mk p r = Inr (f, r') \<longleftrightarrow> (\<exists>g. p r = Inr (g, r') \<and> f = mk g)"
  by (auto simp: plain_frame_def split: sum.splits)

lemma unpackFrame_sound:
  assumes "unpackFrame v pn len enc t bs = Inr (f, r)"
  shows "frame_sound enc f"
proof (cases "t AND 0x80 = 0x80")
  case True
  then obtain g r' where g: "ParseStreamFrame v bs = Inr (g, r')" "checkStream enc (StreamF g) r' = Inr (f, r)"
    using assms by (auto simp: unpackFrame_def pbind_ok_iff wrap_frame_ok_iff)
  then have "f = StreamF g" "sf_StreamID g = 1 \<or> EncryptionUnencrypted < enc"
    by (auto simp: checkStream_def pfail_def pret_def split: if_splits)
  then show ?thesis using ParseStreamFrame_sound [OF g(1)] by simp
next
  case False
  show ?thesis
  proof (cases "t AND 0xc0 = 0x40")
    case True
    then show ?thesis
      using assms False ParseAckFrame_sound by (auto simp: unpackFrame_def wrap_frame_ok_iff)
  next
    case not_ack: False
    show ?thesis
      using assms unfolding unpackFrame_def if_not_P [OF False] if_not_P [OF not_ack]
      by (auto simp: wrap_frame_ok_iff plain_frame_ok_iff pfail_def split: if_splits)
  qed
qed

lemma unpackFrames_sound:
  assumes "unpackFrames v pn len enc bs = Inr fs"
  shows "list_all (frame_sound enc) fs \<and> length fs \<le> length bs"
  using assms
proof (induction v pn len enc bs arbitrary: fs rule: unpackFrames.induct)
  case (1 v pn len enc)
  then show ?case by simp
next
  case (2 v pn len enc t r)
  show ?case
  proof (cases "t = 0")
    case True
    then show ?thesis using 2 by (fastforce simp: unpackFrames.simps(2))
  next
    case False
    then obtain f r' gs where u: "unpackFrame v pn len enc t (t # r) = Inr (f, r')"
      "unpackFrames v pn len enc r' = Inr gs" "fs = f # gs"
      using 2(3) by (auto simp: unpackFrames.simps(2) split: sum.splits)
    then show ?thesis
      using 2(2) [OF False u(1) refl u(2)] unpackFrame_sound [OF u(1)]
        consumesD [OF consumes_unpackFrame u(1)] by auto
  qed
qed

text \<open>
  C7. A packet is unpacked to the frames that were packed into it. Whatever well formed frames are
  written one after the other, with padding before each of them and at the end, their writing
  succeeds, and when the AEAD opens the packet to these bytes at an encryption level that allows
  the STREAM frames, \<open>Unpack\<close> returns the level and the frames in their order, as the receiver
  sees them (the ACK delay rounded to the 16-bit float, the fields that are not sent reset).
\<close>
theorem Unpack_packed:
  assumes "payload_wf (ph_PacketNumber hdr) (ph_PacketNumberLen hdr) enc fs k" "fs \<noteq> [] \<or> 0 < k"
    and "\<And>bs. payload_Write v now fs k = Inr bs \<Longrightarrow>
      open data (ph_PacketNumber hdr) publicHeader = Inr (bs, enc)"
  shows "Unpack open v publicHeader hdr data = Inr (enc, map (\<lambda>(j, f). frame_seen now f) fs)"
proof -
  obtain bs where bs: "payload_Write v now fs k = Inr bs" using payload_Write_ok [OF assms(1)] by blast
  have u: "unpackFrames v (ph_PacketNumber hdr) (ph_PacketNumberLen hdr) enc bs =
      Inr (map (\<lambda>(j, f). frame_seen now f) fs)"
    by (rule unpackFrames_payload [OF assms(1) bs])
  have "bs \<noteq> []"
  proof
    assume "bs = []"
    then have "fs = []" using u by simp
    then show False using assms(2) bs \<open>bs = []\<close> by (simp add: wbytes_def)
  qed
  then show ?thesis unfolding Unpack_def assms(3) [OF bs] by (simp add: u)
qed

definition packed_frames :: "(nat \<times> Frame) list" where
  "packed_frames =
     [(2, StreamF \<lparr>sf_StreamID = 5, sf_FinBit = True, sf_DataLenPresent = True, sf_Offset = 7,
           sf_LossCount = 0, sf_PathID = 3, sf_TimeStamp = 9, sf_Data = [1, 2, 3]\<rparr>),
      (0, BlockedF \<lparr>blocked_StreamID = 9\<rparr>), (1, PingF PingFrame)]"

definition plain_open :: aead_open where
  "plain_open data packetNumber associatedData = Inr (data, EncryptionForwardSecure)"

lemma Unpack_packed_witness:
  "Unpack plain_open 39 [] empty_header (projr (payload_Write 39 0 packed_frames 4)) =
     Inr (EncryptionForwardSecure, map snd packed_frames)"
proof -
  have "payload_wf (ph_PacketNumber empty_header) (ph_PacketNumberLen empty_header)
      EncryptionForwardSecure packed_frames 4"
    by (simp add: packed_frames_def StreamFrame_wf_def less_eq_EncryptionLevel_def)
  from Unpack_packed [OF this, of 39 0 plain_open "projr (payload_Write 39 0 packed_frames 4)" "[]"]
  show ?thesis by (simp add: plain_open_def packed_frames_def)
qed

text \<open>
  C8. Whatever bytes the AEAD returns, every frame that \<open>Unpack\<close> accepts is sound: an ACK frame has
  valid ranges, a STREAM frame carries data or the end of the stream, stays below the maximal
  packet size when its length is given and does not overflow its offset, and data of a stream
  other than the crypto stream (1) is accepted above the unencrypted level only. At least one byte
  was decrypted, and there are no more frames than decrypted bytes.
\<close>
theorem Unpack_sound:
  assumes "Unpack open v publicHeader hdr data = Inr (enc, fs)"
  shows "list_all (frame_sound enc) fs \<and>
    (\<exists>bs. open data (ph_PacketNumber hdr) publicHeader = Inr (bs, enc) \<and> bs \<noteq> [] \<and> length fs \<le> length bs)"
proof -
  obtain bs where "open data (ph_PacketNumber hdr) publicHeader = Inr (bs, enc)" "bs \<noteq> []"
    "unpackFrames v (ph_PacketNumber hdr) (ph_PacketNumberLen hdr) enc bs = Inr fs"
    using assms by (auto simp: Unpack_def split: sum.splits if_splits)
  then show ?thesis using unpackFrames_sound by blast
qed

lemma Unpack_sound_witness:
  "list_all (frame_sound EncryptionForwardSecure) (map snd packed_frames)"
proof -
  have "payload_wf (ph_PacketNumber empty_header) (ph_PacketNumberLen empty_header)
      EncryptionForwardSecure packed_frames 4"
    by (simp add: packed_frames_def StreamFrame_wf_def less_eq_EncryptionLevel_def)
  then obtain bs where "payload_Write 39 0 packed_frames 4 = Inr bs" "unpackFrames 39
      (ph_PacketNumber empty_header) (ph_PacketNumberLen empty_header) EncryptionForwardSecure bs =
      Inr (map snd packed_frames)"
    using payload_Write_ok [of _ _ _ packed_frames 4 39 0]
      unpackFrames_payload [of _ _ _ packed_frames 4 39 0] by (fastforce simp: packed_frames_def)
  moreover from this have "bs \<noteq> []" by (auto simp: packed_frames_def)
  ultimately have "Unpack plain_open 39 [] empty_header bs =
      Inr (EncryptionForwardSecure, map snd packed_frames)"
    by (simp add: Unpack_def plain_open_def)
  from Unpack_sound [OF this] show ?thesis by simp
qed

end
