(* ===== verification/Recv_History.thy ===== *)
theory Recv_History
  imports Ack_Ranges
begin

section \<open>Received packets: \<open>ackhandler/received_packet_history.go\<close>\<close>

text \<open>
  The history keeps the packet numbers received as a linked list of intervals (package
  \<open>utils\<close>, generated), front first and ascending; here a list in the same order. The loop of
  \<open>ReceivedPacket\<close> walks from the back, so its recursion is over the reversed list, where the
  tail of an element holds its \<open>Prev()\<close>.
\<close>

definition MaxTrackedReceivedAckRanges :: nat where "MaxTrackedReceivedAckRanges = 2500"

record PacketInterval =
  iv_Start :: PacketNumber
  iv_End :: PacketNumber

record receivedPacketHistory =
  rh_ranges :: "PacketInterval list"
  rh_lowestInReceivedPacketNumbers :: PacketNumber

definition newReceivedPacketHistory :: receivedPacketHistory where
  "newReceivedPacketHistory = \<lparr> rh_ranges = [], rh_lowestInReceivedPacketNumbers = 0 \<rparr>"

definition single :: "PacketNumber \<Rightarrow> PacketInterval" where
  "single p = \<lparr> iv_Start = p, iv_End = p \<rparr>"

text \<open>After a range was extended: maybe merge it with the one before.\<close>

definition merge_prev :: "PacketInterval \<Rightarrow> PacketInterval list \<Rightarrow> PacketInterval list" where
  "merge_prev el before =
     (case before of
        [] \<Rightarrow> [el]
      | prev # rest \<Rightarrow>
          if iv_End prev + 1 = iv_Start el then prev\<lparr>iv_End := iv_End el\<rparr> # rest else el # before)"

fun history_loop :: "PacketNumber \<Rightarrow> PacketInterval list \<Rightarrow> PacketInterval list" where
  "history_loop p [] = [single p]"
| "history_loop p (el # before) =
     (if p \<ge> iv_Start el \<and> p \<le> iv_End el then el # before
      else if iv_End el = p - 1 then merge_prev (el\<lparr>iv_End := p\<rparr>) before
      else if iv_Start el = p + 1 then merge_prev (el\<lparr>iv_Start := p\<rparr>) before
      else if p > iv_End el then single p # el # before
      else el # history_loop p before)"

definition history_ReceivedPacket ::
    "PacketNumber \<Rightarrow> receivedPacketHistory \<Rightarrow> go_error + receivedPacketHistory" where
  "history_ReceivedPacket p h =
     (if length (rh_ranges h) \<ge> MaxTrackedReceivedAckRanges
      then Inl (QErr ''TooManyOutstandingReceivedPackets'')
      else if length (rh_ranges h) = 0 then Inr (h\<lparr>rh_ranges := [single p]\<rparr>)
      else Inr (h\<lparr>rh_ranges := rev (history_loop p (rev (rh_ranges h)))\<rparr>))"

fun delete_loop :: "PacketNumber \<Rightarrow> PacketInterval list \<Rightarrow> PacketInterval list" where
  "delete_loop p [] = []"
| "delete_loop p (el # after) =
     (if p \<ge> iv_Start el \<and> p < iv_End el then el\<lparr>iv_Start := p + 1\<rparr> # delete_loop p after
      else if iv_End el \<le> p then delete_loop p after
      else el # after)"

definition history_DeleteUpTo :: "PacketNumber \<Rightarrow> receivedPacketHistory \<Rightarrow> receivedPacketHistory" where
  "history_DeleteUpTo p h =
     h\<lparr>rh_lowestInReceivedPacketNumbers := MaxUint64 (rh_lowestInReceivedPacketNumbers h) (p + 1),
       rh_ranges := delete_loop p (rh_ranges h)\<rparr>"

definition to_range :: "PacketInterval \<Rightarrow> AckRange" where
  "to_range el = mkRange (iv_Start el) (iv_End el)"

definition GetAckRanges :: "receivedPacketHistory \<Rightarrow> AckRange list" where
  "GetAckRanges h =
     (if length (rh_ranges h) = 0 then [] else map to_range (rev (rh_ranges h)))"

definition GetHighestAckRange :: "receivedPacketHistory \<Rightarrow> AckRange" where
  "GetHighestAckRange h =
     (if length (rh_ranges h) > 0
      then mkRange (iv_Start (last (rh_ranges h))) (iv_End (last (rh_ranges h)))
      else mkRange 0 0)"

subsection \<open>The intervals as a set\<close>

definition iv_set :: "PacketInterval list \<Rightarrow> PacketNumber set" where
  "iv_set l = (\<Union>el\<in>set l. {iv_Start el .. iv_End el})"

text \<open>Back first: no interval is empty or holds 0, and there is a number missing between any two.\<close>

fun iv_ok :: "PacketInterval list \<Rightarrow> bool" where
  "iv_ok [] = True"
| "iv_ok (el # l) = (0 < iv_Start el \<and> iv_Start el \<le> iv_End el \<and>
     (\<forall>x\<in>iv_set l. unat x + 1 < unat (iv_Start el)) \<and> iv_ok l)"

lemma iv_set_simps [simp]:
  "iv_set [] = {}" "iv_set (el # l) = {iv_Start el .. iv_End el} \<union> iv_set l"
  "iv_set (l @ m) = iv_set l \<union> iv_set m" "iv_set (rev l) = iv_set l"
  by (auto simp: iv_set_def)

lemma single_sel [simp]: "iv_Start (single p) = p" "iv_End (single p) = p"
  by (simp_all add: single_def)

lemma iv_ok_append:
  "iv_ok (l @ m) \<longleftrightarrow> iv_ok l \<and> iv_ok m \<and> (\<forall>el\<in>set l. \<forall>x\<in>iv_set m. unat x + 1 < unat (iv_Start el))"
  by (induction l) (auto simp: ball_Un)

lemma iv_ok_mem: "iv_ok l \<Longrightarrow> el \<in> set l \<Longrightarrow> iv_Start el \<le> iv_End el \<and> iv_Start el \<in> iv_set l"
  by (induction l) auto

lemma interval_snoc:
  fixes a b p :: u64
  assumes "unat p = unat b + 1" "a \<le> b"
  shows "{a..p} = insert p {a..b}"
  using assms by (auto simp: word_le_nat_alt word_unat_eq_iff)

lemma interval_cons:
  fixes a b p :: u64
  assumes "unat a = unat p + 1" "a \<le> b"
  shows "{p..b} = insert p {a..b}"
  using assms by (auto simp: word_le_nat_alt word_unat_eq_iff)

lemma interval_join:
  fixes a b p c :: u64
  assumes "unat p = unat b + 1" "a \<le> b" "p \<le> c"
  shows "{a..c} = {a..b} \<union> {p..c}"
  using assms by (auto simp: word_le_nat_alt)

lemma unat_succ: "p + 1 \<noteq> 0 \<Longrightarrow> unat (p + 1) = unat (p :: u64) + 1"
  using unatSuc [of p] by (simp add: add.commute)

lemma unat_pred: "0 < p \<Longrightarrow> unat (p - 1) = unat (p :: u64) - 1"
  by (simp add: unat_gt_0 unat_minus_one)

lemma merge_prev_end:
  assumes "iv_ok (el # l)" "unat p = unat (iv_End el) + 1"
  shows "merge_prev (el\<lparr>iv_End := p\<rparr>) l = el\<lparr>iv_End := p\<rparr> # l"
proof (cases l)
  case (Cons prev m)
  then have "iv_End prev \<in> iv_set l" using assms(1) by auto
  then have "unat (iv_End prev) + 1 < unat (iv_Start el)" using assms(1) by auto
  then have "iv_End prev + 1 \<noteq> iv_Start el" using unat_succ [of "iv_End prev"] by force
  then show ?thesis using Cons by (simp add: merge_prev_def)
qed (simp add: merge_prev_def)

lemma merge_prev_start:
  assumes ok: "iv_ok (el # l)" and p: "unat (iv_Start el) = unat p + 1" "0 < p"
  shows "iv_ok (merge_prev (el\<lparr>iv_Start := p\<rparr>) l) \<and>
    iv_set (merge_prev (el\<lparr>iv_Start := p\<rparr>) l) = insert p (iv_set (el # l))"
proof (cases l)
  case Nil
  have "{p..iv_End el} = insert p {iv_Start el..iv_End el}"
    using ok p by (intro interval_cons) auto
  moreover have "p \<le> iv_End el" using ok p by (simp add: word_le_nat_alt)
  ultimately show ?thesis using Nil p by (simp add: merge_prev_def)
next
  case (Cons prev m)
  have le: "p \<le> iv_End el" using ok p by (simp add: word_le_nat_alt)
  have c: "{p..iv_End el} = insert p {iv_Start el..iv_End el}"
    using ok p by (intro interval_cons) auto
  have below: "\<forall>x\<in>iv_set l. unat x < unat p" using ok p by fastforce
  have prev: "0 < iv_Start prev" "iv_Start prev \<le> iv_End prev" "iv_ok m"
    "\<forall>x\<in>iv_set m. unat x + 1 < unat (iv_Start prev)" "unat (iv_End prev) < unat p"
    using ok below Cons by auto
  have succ: "unat (iv_End prev + 1) = unat (iv_End prev) + 1"
    using prev(5) unat_bound [of p] by (simp add: unat_word_ariths)
  show ?thesis
  proof (cases "iv_End prev + 1 = p")
    case True
    then have "{iv_Start prev..iv_End el} = {iv_Start prev..iv_End prev} \<union> {p..iv_End el}"
      using succ prev(2) le by (intro interval_join) auto
    then show ?thesis using Cons True prev le c by (auto simp: merge_prev_def word_le_nat_alt)
  next
    case False
    then have "unat (iv_End prev) + 1 \<noteq> unat p" using succ by (metis unat_eqI)
    then have far: "unat (iv_End prev) + 1 < unat p" using prev(5) by simp
    have "unat x + 1 < unat p" if "x \<in> iv_set l" for x
    proof (cases "x \<in> iv_set m")
      case True
      then have "unat x + 1 < unat (iv_Start prev)" using prev(4) by blast
      then show ?thesis using far prev(2) by (simp add: word_le_nat_alt)
    next
      case False
      then have "x \<le> iv_End prev" using that Cons by auto
      then show ?thesis using far by (simp add: word_le_nat_alt)
    qed
    then show ?thesis using Cons False ok p le prev c by (simp add: merge_prev_def)
  qed
qed

lemma history_loop_correct:
  assumes "iv_ok l" "0 < p"
  shows "iv_ok (history_loop p l) \<and> iv_set (history_loop p l) = insert p (iv_set l)"
  using assms
proof (induction l)
  case Nil
  then show ?case by simp
next
  case (Cons el l)
  let ?S = "iv_Start el" and ?E = "iv_End el"
  have el: "0 < ?S" "?S \<le> ?E" "\<forall>x\<in>iv_set l. unat x + 1 < unat ?S" "iv_ok l"
    using Cons.prems(1) by auto
  have pred: "unat (p - 1) = unat p - 1" "0 < unat p"
    using unat_pred [OF Cons.prems(2)] Cons.prems(2) by (simp_all add: unat_gt_0)
  show ?case
  proof (cases "p \<ge> ?S \<and> p \<le> ?E")
    case True
    then show ?thesis using Cons.prems(1) by auto
  next
    case out: False
    show ?thesis
    proof (cases "?E = p - 1")
      case True
      then have e: "unat p = unat ?E + 1" using pred by simp
      have "history_loop p (el # l) = el\<lparr>iv_End := p\<rparr> # l"
        unfolding history_loop.simps if_not_P [OF out] if_P [OF True]
        by (rule merge_prev_end [OF Cons.prems(1) e])
      moreover have "{?S..p} = insert p {?S..?E}" using e el(2) by (rule interval_snoc)
      moreover have "?S \<le> p" using e el(2) by (simp add: word_le_nat_alt)
      ultimately show ?thesis using el by simp
    next
      case not_end: False
      show ?thesis
      proof (cases "?S = p + 1")
        case True
        then have s: "unat ?S = unat p + 1" using el(1) unat_succ by simp
        have "history_loop p (el # l) = merge_prev (el\<lparr>iv_Start := p\<rparr>) l"
          unfolding history_loop.simps if_not_P [OF out] if_not_P [OF not_end] if_P [OF True] ..
        then show ?thesis using merge_prev_start [OF Cons.prems(1) s Cons.prems(2)] by simp
      next
        case not_start: False
        show ?thesis
        proof (cases "p > ?E")
          case True
          have "unat ?E \<noteq> unat p - 1" using not_end pred by (metis unat_eqI)
          then have far: "unat ?E + 1 < unat p" using True pred by (simp add: word_less_nat_alt)
          moreover have "unat x \<le> unat ?E" if "x \<in> iv_set (el # l)" for x
            using that el(2,3) by (fastforce simp: word_le_nat_alt)
          ultimately have "\<forall>x\<in>iv_set (el # l). unat x + 1 < unat p" by fastforce
          then show ?thesis using out not_end not_start True Cons.prems by auto
        next
          case False
          then have lt: "unat p < unat ?S" using out by (auto simp: word_less_nat_alt word_le_nat_alt)
          then have "unat (p + 1) = unat p + 1" using unat_bound [of "?S"] by (simp add: unat_word_ariths)
          then have "unat p + 1 < unat ?S" using lt not_start by (metis unat_eqI nat_less_le Suc_eq_plus1 Suc_leI)
          then show ?thesis using out not_end not_start False Cons el by auto
        qed
      qed
    qed
  qed
qed

lemma delete_loop_correct:
  assumes "iv_ok (rev l)"
  shows "iv_ok (rev (delete_loop p l)) \<and> iv_set (delete_loop p l) = {x \<in> iv_set l. p < x} \<and>
    length (delete_loop p l) \<le> length l"
  using assms
proof (induction l)
  case Nil
  then show ?case by simp
next
  case (Cons el l)
  let ?S = "iv_Start el" and ?E = "iv_End el"
  have el: "0 < ?S" "?S \<le> ?E" "iv_ok (rev l)"
    and above: "\<forall>i\<in>set l. \<forall>x\<in>{?S..?E}. unat x + 1 < unat (iv_Start i)"
    using Cons.prems by (auto simp: iv_ok_append)
  have IH: "iv_ok (rev (delete_loop p l))" "iv_set (delete_loop p l) = {x \<in> iv_set l. p < x}"
    "length (delete_loop p l) \<le> length l" using Cons.IH [OF el(3)] by auto
  have far: "unat ?E + 1 < unat x" if x: "x \<in> iv_set l" for x
  proof -
    obtain i where i: "i \<in> set l" "iv_Start i \<le> x" using x by (auto simp: iv_set_def)
    then have "unat ?E + 1 < unat (iv_Start i)" using above el(2) by simp
    then show ?thesis using i(2) by (simp add: word_le_nat_alt)
  qed
  show ?case
  proof (cases "p \<ge> ?S \<and> p < ?E")
    case True
    have succ: "unat (p + 1) = unat p + 1"
      using True unat_bound [of "?E"] by (simp add: word_less_nat_alt unat_word_ariths)
    have all: "{x \<in> iv_set l. p < x} = iv_set l"
      using far True by (fastforce simp: word_less_nat_alt word_le_nat_alt)
    have "unat x + 1 < unat (iv_Start i)" if "i \<in> set (delete_loop p l)" "x \<le> ?E" for i x
    proof -
      have "iv_Start i \<in> iv_set (delete_loop p l)" using iv_ok_mem [OF IH(1)] that(1) by simp
      then have "unat ?E + 1 < unat (iv_Start i)" using IH(2) far by auto
      then show ?thesis using that(2) by (simp add: word_le_nat_alt)
    qed
    moreover have "0 < p + 1" "p + 1 \<le> ?E" using succ True by (simp_all add: word_less_nat_alt word_le_nat_alt)
    moreover have "{p + 1..?E} = {x \<in> {?S..?E}. p < x}"
      using succ True by (auto simp: word_less_nat_alt word_le_nat_alt)
    ultimately show ?thesis using True IH by (auto simp: iv_ok_append)
  next
    case not_in: False
    show ?thesis
    proof (cases "?E \<le> p")
      case True
      then have "\<not> p < x" if "x \<in> {?S..?E}" for x using that by auto
      then have "{x \<in> iv_set (el # l). p < x} = {x \<in> iv_set l. p < x}" by auto
      moreover have "delete_loop p (el # l) = delete_loop p l"
        unfolding delete_loop.simps if_not_P [OF not_in] if_P [OF True] ..
      ultimately show ?thesis using IH by simp
    next
      case False
      then have lt: "p < ?S" using not_in el(2) by (simp add: not_le)
      have "p < x" if "x \<in> iv_set (el # l)" for x
      proof (cases "x \<in> iv_set l")
        case True
        then show ?thesis using far [OF True] lt el(2) by (simp add: word_less_nat_alt word_le_nat_alt)
      next
        case False
        then show ?thesis using that lt by (simp add: less_le_trans)
      qed
      then have "iv_set (el # l) = {x \<in> iv_set (el # l). p < x}" by blast
      moreover have "delete_loop p (el # l) = el # l" using False lt by (simp add: not_le [symmetric])
      ultimately show ?thesis using Cons.prems by simp
    qed
  qed
qed

subsection \<open>The contract of a packet history\<close>

text \<open>
  What the received packet handler relies on: the history is a set of packet numbers, and its ACK
  ranges describe this set.
\<close>

locale packet_history =
  fixes inv :: "'h \<Rightarrow> bool"
    and packets :: "'h \<Rightarrow> PacketNumber set"
    and received :: "PacketNumber \<Rightarrow> 'h \<Rightarrow> go_error + 'h"
    and deleteUpTo :: "PacketNumber \<Rightarrow> 'h \<Rightarrow> 'h"
    and ackRanges :: "'h \<Rightarrow> AckRange list"
    and highest :: "'h \<Rightarrow> AckRange"
  assumes received_inv: "inv h \<Longrightarrow> 0 < p \<Longrightarrow> received p h = Inr h' \<Longrightarrow>
      inv h' \<and> packets h' = insert p (packets h)"
    and delete_inv: "inv h \<Longrightarrow>
      inv (deleteUpTo p h) \<and> packets (deleteUpTo p h) = {x \<in> packets h. p < x}"
    and ackRanges_packets: "inv h \<Longrightarrow> ranges_ok (ackRanges h) \<and> ranges_set (ackRanges h) = packets h"
    and highest_range: "inv h \<Longrightarrow> packets h \<noteq> {} \<Longrightarrow> highest h = hd (ackRanges h)"
begin

lemma ackRanges_nonempty: "inv h \<Longrightarrow> ackRanges h = [] \<longleftrightarrow> packets h = {}"
  using ackRanges_packets [of h]
  by (cases "ackRanges h") (auto simp: ranges_set_def range_set_def ranges_ok_def)

lemma highest_is_greatest:
  assumes "inv h" "packets h \<noteq> {}"
  shows "ar_Last (highest h) \<in> packets h" "x \<in> packets h \<Longrightarrow> x \<le> ar_Last (highest h)"
    "ar_First (highest h) \<in> packets h"
proof -
  have ok: "ranges_ok (ackRanges h)" "ranges_set (ackRanges h) = packets h" "ackRanges h \<noteq> []"
    and hd: "highest h = hd (ackRanges h)"
    using ackRanges_packets [OF assms(1)] ackRanges_nonempty [OF assms(1)] highest_range [OF assms] assms(2)
    by auto
  then have m: "hd (ackRanges h) \<in> set (ackRanges h)" by simp
  then have le: "ar_First (highest h) \<le> ar_Last (highest h)" using ok(1) hd by (simp add: ranges_ok_def)
  have "range_set (highest h) \<subseteq> packets h" using m hd ok(2) by (auto simp: ranges_set_def)
  then show "ar_Last (highest h) \<in> packets h" "ar_First (highest h) \<in> packets h"
    using le by (auto simp: range_set_def)
  show "x \<in> packets h \<Longrightarrow> x \<le> ar_Last (highest h)"
    using ranges_ok_hd [OF ok(1)] hd unfolding ok(2) [symmetric] ranges_set_def range_set_def
    by (auto intro: order_trans)
qed

lemma lowest_is_least:
  assumes "inv h" "packets h \<noteq> {}"
  shows "ar_First (last (ackRanges h)) \<in> packets h" "x \<in> packets h \<Longrightarrow> ar_First (last (ackRanges h)) \<le> x"
proof -
  have ok: "ranges_ok (ackRanges h)" "ranges_set (ackRanges h) = packets h" "ackRanges h \<noteq> []"
    using ackRanges_packets [OF assms(1)] ackRanges_nonempty [OF assms(1)] assms(2) by auto
  then have m: "last (ackRanges h) \<in> set (ackRanges h)" by simp
  then have "ar_First (last (ackRanges h)) \<le> ar_Last (last (ackRanges h))"
    using ok(1) by (simp add: ranges_ok_def)
  then show "ar_First (last (ackRanges h)) \<in> packets h"
    using m ok(2) by (auto simp: ranges_set_def range_set_def)
  show "x \<in> packets h \<Longrightarrow> ar_First (last (ackRanges h)) \<le> x"
    using ranges_ok_last [OF ok(1)] unfolding ok(2) [symmetric] ranges_set_def range_set_def
    by (auto intro: order_trans)
qed

end

definition history_inv :: "receivedPacketHistory \<Rightarrow> bool" where
  "history_inv h \<longleftrightarrow> iv_ok (rev (rh_ranges h)) \<and> length (rh_ranges h) \<le> MaxTrackedReceivedAckRanges"

definition history_packets :: "receivedPacketHistory \<Rightarrow> PacketNumber set" where
  "history_packets h = iv_set (rh_ranges h)"

lemma length_history_loop: "length (history_loop p l) \<le> length l + 1"
  by (induction l) (auto simp: merge_prev_def split: list.splits)

lemma history_ReceivedPacket_correct:
  assumes "history_inv h" "0 < p" "history_ReceivedPacket p h = Inr h'"
  shows "history_inv h' \<and> history_packets h' = insert p (history_packets h)"
proof (cases "rh_ranges h = []")
  case True
  then show ?thesis using assms
    by (auto simp: history_ReceivedPacket_def history_inv_def history_packets_def
        MaxTrackedReceivedAckRanges_def split: if_splits)
next
  case False
  then have h': "length (rh_ranges h) < MaxTrackedReceivedAckRanges"
    "h' = h\<lparr>rh_ranges := rev (history_loop p (rev (rh_ranges h)))\<rparr>"
    using assms(3) by (auto simp: history_ReceivedPacket_def split: if_splits)
  have "iv_ok (rev (rh_ranges h))" using assms(1) by (simp add: history_inv_def)
  from history_loop_correct [OF this assms(2)] length_history_loop [of p "rev (rh_ranges h)"]
  show ?thesis using h' by (auto simp: history_inv_def history_packets_def)
qed

lemma ranges_ok_to_range: "iv_ok l \<Longrightarrow> ranges_ok (map to_range l)"
proof (induction l)
  case (Cons el l)
  have "unat (iv_End i) + 1 < unat (iv_Start el)" if "i \<in> set l" for i
  proof -
    have "iv_End i \<in> iv_set l" using that iv_ok_mem [of l i] Cons.prems by (auto simp: iv_set_def)
    then show ?thesis using Cons.prems by auto
  qed
  then show ?case using Cons by (auto simp: ranges_ok_def range_above_def to_range_def)
qed (simp add: ranges_ok_def)

lemma ranges_set_to_range: "ranges_set (map to_range l) = iv_set l"
  by (simp add: ranges_set_def range_set_def iv_set_def to_range_def)

lemma GetAckRanges_eq: "GetAckRanges h = map to_range (rev (rh_ranges h))"
  by (simp add: GetAckRanges_def)

interpretation hist: packet_history history_inv history_packets history_ReceivedPacket
    history_DeleteUpTo GetAckRanges GetHighestAckRange
proof (unfold_locales, goal_cases)
  case (1 h p h') then show ?case by (rule history_ReceivedPacket_correct)
next
  case (2 h p)
  then show ?case using delete_loop_correct [of "rh_ranges h" p]
    by (auto simp: history_inv_def history_packets_def history_DeleteUpTo_def)
next
  case (3 h)
  then show ?case
    using ranges_ok_to_range [of "rev (rh_ranges h)"] ranges_set_to_range [of "rev (rh_ranges h)"]
    by (simp add: GetAckRanges_eq history_inv_def history_packets_def)
next
  case (4 h)
  then have "rh_ranges h \<noteq> []" by (auto simp: history_packets_def)
  then show ?case by (simp add: GetHighestAckRange_def GetAckRanges_eq hd_map hd_rev to_range_def)
qed

subsection \<open>Sequences of operations\<close>

datatype history_op = Received PacketNumber | DeletedUpTo PacketNumber

fun run_history :: "history_op list \<Rightarrow> receivedPacketHistory \<Rightarrow> go_error + receivedPacketHistory" where
  "run_history [] h = Inr h"
| "run_history (Received p # ops) h =
     (case history_ReceivedPacket p h of Inl e \<Rightarrow> Inl e | Inr h' \<Rightarrow> run_history ops h')"
| "run_history (DeletedUpTo p # ops) h = run_history ops (history_DeleteUpTo p h)"

text \<open>The set of packets such a sequence leaves.\<close>

fun spec_history :: "history_op list \<Rightarrow> PacketNumber set \<Rightarrow> PacketNumber set" where
  "spec_history [] s = s"
| "spec_history (Received p # ops) s = spec_history ops (insert p s)"
| "spec_history (DeletedUpTo p # ops) s = spec_history ops {x \<in> s. p < x}"

lemma run_history_refines:
  assumes "history_inv h" "\<forall>p. Received p \<in> set ops \<longrightarrow> 0 < p" "run_history ops h = Inr h'"
  shows "history_inv h' \<and> history_packets h' = spec_history ops (history_packets h)"
  using assms
proof (induction ops arbitrary: h)
  case Nil
  then show ?case by simp
next
  case (Cons op ops)
  show ?case
  proof (cases op)
    case (Received p)
    then obtain h1 where "history_ReceivedPacket p h = Inr h1" "run_history ops h1 = Inr h'" "0 < p"
      using Cons.prems by (auto split: sum.splits)
    then show ?thesis using Cons.IH [of h1] hist.received_inv [of h p h1] Cons.prems Received by auto
  next
    case (DeletedUpTo p)
    then show ?thesis
      using Cons.IH [of "history_DeleteUpTo p h"] hist.delete_inv [of h p] Cons.prems by auto
  qed
qed

text \<open>
  C6. The history of received packets is exact. Whatever packets are received and deleted, in any
  order, as long as no call fails, the ACK ranges of the history descend and do not touch, a
  packet number is in one of them if and only if it was received and not deleted since, at most
  2500 ranges are kept, and the highest range is the first of them.
\<close>
theorem history_exact:
  assumes "\<forall>p. Received p \<in> set ops \<longrightarrow> 0 < p" "run_history ops newReceivedPacketHistory = Inr h"
  shows "ranges_ok (GetAckRanges h) \<and> ranges_set (GetAckRanges h) = spec_history ops {} \<and>
    length (GetAckRanges h) \<le> 2500 \<and>
    (GetAckRanges h \<noteq> [] \<longrightarrow> GetHighestAckRange h = hd (GetAckRanges h))"
proof -
  have "history_inv newReceivedPacketHistory" "history_packets newReceivedPacketHistory = {}"
    by (simp_all add: history_inv_def history_packets_def newReceivedPacketHistory_def)
  from run_history_refines [OF this(1) assms] this(2)
  have r: "history_inv h" "history_packets h = spec_history ops {}" by auto
  show ?thesis
    using hist.ackRanges_packets [OF r(1)] hist.ackRanges_nonempty [OF r(1)] hist.highest_range [OF r(1)] r
    by (auto simp: history_inv_def GetAckRanges_eq MaxTrackedReceivedAckRanges_def)
qed

lemma history_exact_witness:
  "\<exists>h. run_history [Received 4, Received 7, Received 6, Received 1, Received 3, Received 2, DeletedUpTo 2,
      Received 9, Received 8] newReceivedPacketHistory = Inr h \<and>
    GetAckRanges h = [mkRange 6 9, mkRange 3 4] \<and>
    ranges_set (GetAckRanges h) = spec_history [Received 4, Received 7, Received 6, Received 1,
      Received 3, Received 2, DeletedUpTo 2, Received 9, Received 8] {}"
proof -
  let ?ops = "[Received 4, Received 7, Received 6, Received 1, Received 3, Received 2, DeletedUpTo 2,
      Received 9, Received 8]"
  obtain h where h: "run_history ?ops newReceivedPacketHistory = Inr h"
    "GetAckRanges h = [mkRange 6 9, mkRange 3 4]"
    by (simp add: history_ReceivedPacket_def history_DeleteUpTo_def newReceivedPacketHistory_def
        MaxTrackedReceivedAckRanges_def merge_prev_def single_def GetAckRanges_def to_range_def)
  then show ?thesis using history_exact [OF _ h(1)] by simp
qed

end
