(* ===== verification/Recv_Handler.thy ===== *)
theory Recv_Handler
  imports Recv_History Wire_Ack Wire_ClosePath
begin

section \<open>Acknowledging: \<open>ackhandler/received_packet_handler.go\<close>\<close>

text \<open>
  The state of the receiver of one path and its operations. Times are in nanoseconds; a
  \<open>time.Time\<close> that may be zero is \<open>None\<close> then. The clock is an argument of every operation that reads
  it; where an operation reads it twice, both reads give the same time. The frame's
  \<open>PacketReceivedTime\<close> is 0 before the first packet.
\<close>

definition AckSendDelay :: Duration where "AckSendDelay = 25 * Millisecond"

definition MaxPacketsReceivedBeforeAckSend :: int where "MaxPacketsReceivedBeforeAckSend = 20"

definition RetransmittablePacketsBeforeAck :: int where "RetransmittablePacketsBeforeAck = 2"

record receivedPacketHandler =
  rp_largestObserved :: PacketNumber
  rp_lowerLimit :: PacketNumber
  rp_largestObservedReceivedTime :: int
  rp_packetHistory :: receivedPacketHistory
  rp_ackSendDelay :: Duration
  rp_packetsReceivedSinceLastAck :: int
  rp_retransmittablePacketsReceivedSinceLastAck :: int
  rp_ackQueued :: bool
  rp_ackAlarm :: "int option"
  rp_lastAck :: "AckFrame option"
  rp_version :: VersionNumber
  rp_packets :: u64

definition NewReceivedPacketHandler :: "VersionNumber \<Rightarrow> receivedPacketHandler" where
  "NewReceivedPacketHandler version =
     \<lparr> rp_largestObserved = 0, rp_lowerLimit = 0, rp_largestObservedReceivedTime = 0,
       rp_packetHistory = newReceivedPacketHistory, rp_ackSendDelay = AckSendDelay,
       rp_packetsReceivedSinceLastAck = 0, rp_retransmittablePacketsReceivedSinceLastAck = 0,
       rp_ackQueued = False, rp_ackAlarm = None, rp_lastAck = None, rp_version = version,
       rp_packets = 0 \<rparr>"

definition rp_GetStatistics :: "receivedPacketHandler \<Rightarrow> u64" where
  "rp_GetStatistics h = rp_packets h"

text \<open>The reasons to send an ACK at once.\<close>

definition ack_reasons :: "PacketNumber \<Rightarrow> receivedPacketHandler \<Rightarrow> bool" where
  "ack_reasons packetNumber h =
     (rp_ackQueued h \<or>
      rp_lastAck h = None \<or>
      (rp_version h < Version39 \<and> rp_packetsReceivedSinceLastAck h \<ge> MaxPacketsReceivedBeforeAckSend) \<or>
      (case rp_lastAck h of None \<Rightarrow> False | Some a \<Rightarrow> packetNumber < ack_LargestAcked a) \<or>
      (case rp_lastAck h of None \<Rightarrow> False
       | Some a \<Rightarrow> ar_First (GetHighestAckRange (rp_packetHistory h)) > ack_LargestAcked a))"

definition maybeQueueAck ::
    "int \<Rightarrow> PacketNumber \<Rightarrow> bool \<Rightarrow> receivedPacketHandler \<Rightarrow> receivedPacketHandler" where
  "maybeQueueAck now packetNumber shouldInstigateAck h0 =
     (let h1 = h0\<lparr>rp_packetsReceivedSinceLastAck := rp_packetsReceivedSinceLastAck h0 + 1\<rparr>;
          h2 = (if shouldInstigateAck
                then h1\<lparr>rp_retransmittablePacketsReceivedSinceLastAck :=
                          rp_retransmittablePacketsReceivedSinceLastAck h1 + 1\<rparr>
                else h1);
          h3 = (if ack_reasons packetNumber h2 then h2\<lparr>rp_ackQueued := True\<rparr> else h2);
          h4 = (if \<not> rp_ackQueued h3 \<and> shouldInstigateAck
                then if rp_retransmittablePacketsReceivedSinceLastAck h3 \<ge> RetransmittablePacketsBeforeAck
                     then h3\<lparr>rp_ackQueued := True\<rparr>
                     else if rp_ackAlarm h3 = None
                     then h3\<lparr>rp_ackAlarm := Some (now + rp_ackSendDelay h3)\<rparr>
                     else h3
                else h3)
      in if rp_ackQueued h4 then h4\<lparr>rp_ackAlarm := None\<rparr> else h4)"

definition rp_ReceivedPacket ::
    "int \<Rightarrow> PacketNumber \<Rightarrow> bool \<Rightarrow> receivedPacketHandler \<Rightarrow> go_error option \<times> receivedPacketHandler" where
  "rp_ReceivedPacket now packetNumber shouldInstigateAck h0 =
     (if packetNumber = 0 then (Some (GoErr ''errInvalidPacketNumber''), h0)
      else let h1 = h0\<lparr>rp_packets := rp_packets h0 + 1\<rparr>;
               h2 = (if packetNumber > rp_largestObserved h1
                     then h1\<lparr>rp_largestObserved := packetNumber, rp_largestObservedReceivedTime := now\<rparr>
                     else h1)
        in if packetNumber \<le> rp_lowerLimit h2 then (None, h2)
           else case history_ReceivedPacket packetNumber (rp_packetHistory h2) of
                  Inl e \<Rightarrow> (Some e, h2)
                | Inr history \<Rightarrow>
                    (None, maybeQueueAck now packetNumber shouldInstigateAck
                             (h2\<lparr>rp_packetHistory := history\<rparr>)))"

definition SetLowerLimit :: "PacketNumber \<Rightarrow> receivedPacketHandler \<Rightarrow> receivedPacketHandler" where
  "SetLowerLimit p h =
     h\<lparr>rp_lowerLimit := p, rp_packetHistory := history_DeleteUpTo p (rp_packetHistory h)\<rparr>"

text \<open>
  \<open>ackRanges[len(ackRanges)-1]\<close> panics when there are no ranges. A frame that is not sent is \<open>None\<close>.
\<close>

definition GetAckFrame ::
    "int \<Rightarrow> u8 \<Rightarrow> u16 \<Rightarrow> receivedPacketHandler \<Rightarrow> go_error + (AckFrame option \<times> receivedPacketHandler)" where
  "GetAckFrame now groups epoch h =
     (if \<not> rp_ackQueued h \<and> (case rp_ackAlarm h of None \<Rightarrow> True | Some t \<Rightarrow> t > now) then Inr (None, h)
      else let ackRanges = GetAckRanges (rp_packetHistory h) in
        if length ackRanges = 0 then Inl (Panic ''index out of range'')
        else let ack = \<lparr> ack_PathID = 0, ack_LargestAcked = rp_largestObserved h,
                   ack_LowestAcked = ar_First (ackRanges ! (length ackRanges - 1)),
                   ack_AckRanges = (if length ackRanges > 1 then ackRanges else []),
                   ack_PacketReceivedTime = rp_largestObservedReceivedTime h,
                   ack_DelayTime = 0, ack_Groups = groups, ack_Epoch = epoch \<rparr>
          in Inr (Some ack, h\<lparr>rp_lastAck := Some ack, rp_ackAlarm := None, rp_ackQueued := False,
                   rp_packetsReceivedSinceLastAck := 0,
                   rp_retransmittablePacketsReceivedSinceLastAck := 0\<rparr>))"

definition rp_GetClosePathFrame :: "receivedPacketHandler \<Rightarrow> go_error + ClosePathFrame" where
  "rp_GetClosePathFrame h =
     (let ackRanges = GetAckRanges (rp_packetHistory h) in
        if length ackRanges = 0 then Inl (Panic ''index out of range'')
        else Inr \<lparr> cp_PathID = 0, cp_LargestAcked = rp_largestObserved h,
                   cp_LowestAcked = ar_First (ackRanges ! (length ackRanges - 1)),
                   cp_AckRanges = (if length ackRanges > 1 then ackRanges else []) \<rparr>)"

definition rp_GetAlarmTimeout :: "receivedPacketHandler \<Rightarrow> int option" where
  "rp_GetAlarmTimeout h = rp_ackAlarm h"

definition GetLargestObservedPacket :: "receivedPacketHandler \<Rightarrow> PacketNumber" where
  "GetLargestObservedPacket h = rp_largestObserved h"

subsection \<open>Runs of the handler\<close>

text \<open>
  \<open>rp_reach t S h\<close>: the handler of a new path may be in state \<open>h\<close> at time \<open>t\<close>, having received the
  packets \<open>S\<close> that it may still acknowledge. The session closes the connection when
  \<open>ReceivedPacket\<close> fails, so runs continue only after calls that succeed; and the limit of a
  STOP_WAITING frame is below the number of the packet that carries the frame.
\<close>

inductive rp_reach :: "int \<Rightarrow> PacketNumber set \<Rightarrow> receivedPacketHandler \<Rightarrow> bool" where
  start: "rp_reach t {} (NewReceivedPacketHandler version)"
| receive: "\<lbrakk> rp_reach t S h; t \<le> now; rp_ReceivedPacket now pn instigate h = (None, h') \<rbrakk> \<Longrightarrow>
    rp_reach now (if pn \<le> rp_lowerLimit h then S else insert pn S) h'"
| limit: "\<lbrakk> rp_reach t S h; p < rp_largestObserved h \<rbrakk> \<Longrightarrow>
    rp_reach t {x \<in> S. p < x} (SetLowerLimit p h)"
| acknowledge: "\<lbrakk> rp_reach t S h; t \<le> now; GetAckFrame now groups epoch h = Inr (a, h') \<rbrakk> \<Longrightarrow>
    rp_reach now S h'"

definition rp_inv :: "int \<Rightarrow> PacketNumber set \<Rightarrow> receivedPacketHandler \<Rightarrow> bool" where
  "rp_inv t S h \<longleftrightarrow> history_inv (rp_packetHistory h) \<and> history_packets (rp_packetHistory h) = S \<and>
     (\<forall>x\<in>S. rp_lowerLimit h < x \<and> x \<le> rp_largestObserved h) \<and>
     (if rp_largestObserved h = 0 then rp_lowerLimit h = 0
      else rp_lowerLimit h < rp_largestObserved h \<and> rp_largestObserved h \<in> S) \<and>
     (rp_ackQueued h \<or> rp_ackAlarm h \<noteq> None \<longrightarrow> S \<noteq> {}) \<and>
     (\<forall>a. rp_ackAlarm h = Some a \<longrightarrow> a \<le> t + AckSendDelay) \<and>
     rp_ackSendDelay h = AckSendDelay"

lemma maybeQueueAck_frame [simp]:
  "rp_packetHistory (maybeQueueAck now pn i h) = rp_packetHistory h"
  "rp_largestObserved (maybeQueueAck now pn i h) = rp_largestObserved h"
  "rp_lowerLimit (maybeQueueAck now pn i h) = rp_lowerLimit h"
  "rp_ackSendDelay (maybeQueueAck now pn i h) = rp_ackSendDelay h"
  "rp_largestObservedReceivedTime (maybeQueueAck now pn i h) = rp_largestObservedReceivedTime h"
  by (simp_all add: maybeQueueAck_def Let_def)

lemma maybeQueueAck_alarm:
  assumes "rp_ackAlarm (maybeQueueAck now pn i h) = Some a"
  shows "rp_ackAlarm h = Some a \<or> a = now + rp_ackSendDelay h"
  using assms by (auto simp: maybeQueueAck_def Let_def split: if_splits)

text \<open>A packet that instigates an ACK leaves an ACK queued or the alarm set.\<close>

lemma maybeQueueAck_instigates:
  "rp_ackQueued (maybeQueueAck now pn True h) \<or> rp_ackAlarm (maybeQueueAck now pn True h) \<noteq> None"
  by (simp add: maybeQueueAck_def Let_def)

lemma rp_inv_start: "rp_inv t {} (NewReceivedPacketHandler version)"
  by (simp add: rp_inv_def NewReceivedPacketHandler_def history_inv_def history_packets_def
      newReceivedPacketHistory_def)

lemma rp_inv_receive:
  assumes inv: "rp_inv t S h" and now: "t \<le> now" and r: "rp_ReceivedPacket now pn i h = (None, h')"
  shows "rp_inv now (if pn \<le> rp_lowerLimit h then S else insert pn S) h'"
proof -
  define h2 where "h2 = (if pn > rp_largestObserved h
     then h\<lparr>rp_packets := rp_packets h + 1, rp_largestObserved := pn, rp_largestObservedReceivedTime := now\<rparr>
     else h\<lparr>rp_packets := rp_packets h + 1\<rparr>)"
  have pn: "0 < pn" using r by (auto simp: rp_ReceivedPacket_def word_gt_0 split: if_splits)
  have same: "rp_lowerLimit h2 = rp_lowerLimit h" "rp_packetHistory h2 = rp_packetHistory h"
    "rp_ackQueued h2 = rp_ackQueued h" "rp_ackAlarm h2 = rp_ackAlarm h" "rp_ackSendDelay h2 = rp_ackSendDelay h"
    "rp_largestObserved h2 = max pn (rp_largestObserved h)"
    by (auto simp: h2_def max_def)
  have step: "rp_ReceivedPacket now pn i h = (if pn \<le> rp_lowerLimit h then (None, h2)
      else case history_ReceivedPacket pn (rp_packetHistory h) of Inl e \<Rightarrow> (Some e, h2)
        | Inr history \<Rightarrow> (None, maybeQueueAck now pn i (h2\<lparr>rp_packetHistory := history\<rparr>)))"
    using pn by (auto simp: rp_ReceivedPacket_def h2_def Let_def split: sum.splits)
  show ?thesis
  proof (cases "pn \<le> rp_lowerLimit h")
    case True
    then have h': "h' = h2" using r step by simp
    have "rp_largestObserved h \<noteq> 0" using inv True pn by (auto simp: rp_inv_def)
    then have "rp_lowerLimit h < rp_largestObserved h" using inv by (simp add: rp_inv_def)
    then have "max pn (rp_largestObserved h) = rp_largestObserved h" using True by simp
    then show ?thesis using inv True now unfolding h' rp_inv_def same by force
  next
    case False
    then obtain hist where hist: "history_ReceivedPacket pn (rp_packetHistory h) = Inr hist"
      and h': "h' = maybeQueueAck now pn i (h2\<lparr>rp_packetHistory := hist\<rparr>)"
      using r step by (auto split: sum.splits)
    have hi: "history_inv hist" "history_packets hist = insert pn S"
      using hist.received_inv [OF _ pn hist] inv by (auto simp: rp_inv_def)
    have alarm: "a \<le> now + AckSendDelay" if "rp_ackAlarm h' = Some a" for a
      using maybeQueueAck_alarm [of now pn i _ a] that inv now h' same
      by (fastforce simp: rp_inv_def)
    have m: "max pn (rp_largestObserved h) \<noteq> 0" "max pn (rp_largestObserved h) \<in> insert pn S"
      "rp_lowerLimit h < max pn (rp_largestObserved h)"
      using inv pn False by (auto simp: rp_inv_def max_def split: if_splits)
    show ?thesis
      using inv False hi m alarm unfolding rp_inv_def h' by (auto simp: same intro: le_max_iff_disj [THEN iffD2])
  qed
qed

lemma rp_inv_limit:
  assumes inv: "rp_inv t S h" and p: "p < rp_largestObserved h"
  shows "rp_inv t {x \<in> S. p < x} (SetLowerLimit p h)"
proof -
  have "rp_largestObserved h \<noteq> 0" using p by auto
  then have largest: "rp_largestObserved h \<in> {x \<in> S. p < x}" using inv p by (simp add: rp_inv_def)
  have d: "history_inv (history_DeleteUpTo p (rp_packetHistory h))"
    "history_packets (history_DeleteUpTo p (rp_packetHistory h)) = {x \<in> S. p < x}"
    using hist.delete_inv [of "rp_packetHistory h" p] inv by (simp_all add: rp_inv_def)
  have a: "\<forall>a. rp_ackAlarm h = Some a \<longrightarrow> a \<le> t + AckSendDelay" "rp_ackSendDelay h = AckSendDelay"
    "\<forall>x\<in>S. x \<le> rp_largestObserved h" using inv by (simp_all add: rp_inv_def)
  show ?thesis
    using largest d a p \<open>rp_largestObserved h \<noteq> 0\<close> by (auto simp: rp_inv_def SetLowerLimit_def)
qed

lemma GetAckFrame_history:
  assumes "GetAckFrame now g e h = Inr (a, h')"
  shows "rp_packetHistory h' = rp_packetHistory h" "rp_largestObserved h' = rp_largestObserved h"
    "rp_lowerLimit h' = rp_lowerLimit h" "rp_ackSendDelay h' = rp_ackSendDelay h"
    "rp_ackQueued h' \<longrightarrow> rp_ackQueued h" "rp_ackAlarm h' = rp_ackAlarm h \<or> rp_ackAlarm h' = None"
  using assms by (auto simp: GetAckFrame_def Let_def split: if_splits)

lemma rp_inv_acknowledge:
  assumes inv: "rp_inv t S h" and now: "t \<le> now" and g: "GetAckFrame now g e h = Inr (a, h')"
  shows "rp_inv now S h'"
proof -
  note same = GetAckFrame_history [OF g]
  have "rp_ackQueued h' \<or> rp_ackAlarm h' \<noteq> None \<longrightarrow> S \<noteq> {}"
    using inv same(5,6) unfolding rp_inv_def by metis
  moreover have "x \<le> now + AckSendDelay" if x: "rp_ackAlarm h' = Some x" for x
  proof -
    have "rp_ackAlarm h = Some x" using x same(6) by auto
    then have "x \<le> t + AckSendDelay" using inv by (simp add: rp_inv_def)
    then show ?thesis using now by simp
  qed
  ultimately show ?thesis using inv unfolding rp_inv_def same(1-4) by blast
qed

lemma rp_reach_inv: "rp_reach t S h \<Longrightarrow> rp_inv t S h"
  by (induction rule: rp_reach.induct)
    (blast intro: rp_inv_start rp_inv_receive rp_inv_limit rp_inv_acknowledge)+

subsection \<open>The ACK frames of a run\<close>

definition ack_of :: "u8 \<Rightarrow> u16 \<Rightarrow> receivedPacketHandler \<Rightarrow> AckFrame" where
  "ack_of groups epoch h =
     (let rs = GetAckRanges (rp_packetHistory h) in
      \<lparr> ack_PathID = 0, ack_LargestAcked = rp_largestObserved h, ack_LowestAcked = ar_First (last rs),
        ack_AckRanges = (if length rs > 1 then rs else []),
        ack_PacketReceivedTime = rp_largestObservedReceivedTime h, ack_DelayTime = 0,
        ack_Groups = groups, ack_Epoch = epoch \<rparr>)"

text \<open>The ranges of the history end at the largest packet observed.\<close>

lemma rp_inv_ranges:
  assumes inv: "rp_inv t S h" and ne: "S \<noteq> {}"
  defines "rs \<equiv> GetAckRanges (rp_packetHistory h)"
  shows "rs \<noteq> []" "ranges_ok rs" "ranges_set rs = S" "ar_Last (hd rs) = rp_largestObserved h"
    "ar_First (last rs) \<in> S" "x \<in> S \<Longrightarrow> ar_First (last rs) \<le> x" "rp_largestObserved h \<in> S"
proof -
  have h: "history_inv (rp_packetHistory h)" "history_packets (rp_packetHistory h) = S"
    using inv by (simp_all add: rp_inv_def)
  then have ne': "history_packets (rp_packetHistory h) \<noteq> {}" using ne by simp
  obtain y where "y \<in> S" using ne by blast
  then have "rp_lowerLimit h < y" "y \<le> rp_largestObserved h" using inv by (auto simp: rp_inv_def)
  then have "rp_largestObserved h \<noteq> 0" by (metis word_le_0_iff word_not_simps(1))
  then show m: "rp_largestObserved h \<in> S" using inv by (simp add: rp_inv_def)
  show "rs \<noteq> []" using hist.ackRanges_nonempty [OF h(1)] ne' by (simp add: rs_def)
  show "ranges_ok rs" "ranges_set rs = S" using hist.ackRanges_packets [OF h(1)] h(2) by (simp_all add: rs_def)
  have "GetHighestAckRange (rp_packetHistory h) = hd rs" using hist.highest_range [OF h(1) ne'] by (simp add: rs_def)
  then have "ar_Last (hd rs) \<in> S" "rp_largestObserved h \<le> ar_Last (hd rs)"
    using hist.highest_is_greatest [OF h(1) ne'] h(2) m by auto
  then show "ar_Last (hd rs) = rp_largestObserved h" using inv by (auto simp: rp_inv_def intro: antisym)
  show "ar_First (last rs) \<in> S" "x \<in> S \<Longrightarrow> ar_First (last rs) \<le> x"
    using hist.lowest_is_least [OF h(1) ne'] h(2) by (auto simp: rs_def)
qed

lemma ack_of_acks:
  assumes inv: "rp_inv t S h" and ne: "S \<noteq> {}"
  shows "AckFrame_AcksPacket (ack_of g e h) p \<longleftrightarrow> p \<in> S"
proof -
  note r = rp_inv_ranges [OF inv ne]
  let ?rs = "GetAckRanges (rp_packetHistory h)"
  show ?thesis
  proof (cases "length ?rs > 1")
    case True
    then show ?thesis
      using acksPacket_iff [OF r(2,1,4) refl] r(3) by (simp add: AckFrame_AcksPacket_def ack_of_def Let_def)
  next
    case False
    then obtain x where x: "?rs = [x]" using r(1) by (cases ?rs) auto
    then have "S = {ar_First x .. rp_largestObserved h}"
      using r(3,4) by (simp add: ranges_set_def range_set_def)
    then show ?thesis
      using False x acksPacket_single by (simp add: AckFrame_AcksPacket_def ack_of_def Let_def)
  qed
qed

lemma ack_of_valid:
  assumes "rp_inv t S h" "S \<noteq> {}" "rp_largestObserved h < 2 ^ 48"
  shows "AckFrame_valid (ack_of g e h)"
  using rp_inv_ranges [OF assms(1,2)] assms(3) by (auto simp: AckFrame_valid_def ack_of_def Let_def)

lemma GetAckFrame_inv:
  assumes "rp_inv t S h"
  shows "GetAckFrame now g e h = Inr (if rp_ackQueued h \<or> (\<exists>a. rp_ackAlarm h = Some a \<and> a \<le> now)
    then (Some (ack_of g e h), h\<lparr>rp_lastAck := Some (ack_of g e h), rp_ackAlarm := None, rp_ackQueued := False,
        rp_packetsReceivedSinceLastAck := 0, rp_retransmittablePacketsReceivedSinceLastAck := 0\<rparr>)
    else (None, h))"
proof (cases "rp_ackQueued h \<or> (\<exists>a. rp_ackAlarm h = Some a \<and> a \<le> now)")
  case True
  then have "S \<noteq> {}" using assms by (auto simp: rp_inv_def)
  from rp_inv_ranges(1) [OF assms this] True show ?thesis
    by (auto simp: GetAckFrame_def ack_of_def Let_def last_conv_nth split: option.splits)
next
  case False
  then show ?thesis by (auto simp: GetAckFrame_def split: option.splits)
qed

text \<open>
  C14. The ACK frames of a path are exact. After any run, \<open>GetAckFrame\<close> does not panic; a frame it
  returns acknowledges a packet number if and only if the packet was received above the lower limit
  and not deleted by a limit since, its largest packet number is the largest of them, and while that is below
  2^48 the frame is one that \<open>validateAckRanges\<close> of the peer accepts.
\<close>
theorem recv_ack_exact:
  assumes "rp_reach t S h"
  shows "\<exists>a h'. GetAckFrame now g e h = Inr (a, h') \<and>
    (\<forall>f. a = Some f \<longrightarrow> (\<forall>p. AckFrame_AcksPacket f p \<longleftrightarrow> p \<in> S) \<and>
       ack_LargestAcked f \<in> S \<and> (\<forall>p\<in>S. p \<le> ack_LargestAcked f) \<and>
       (ack_LargestAcked f < 2 ^ 48 \<longrightarrow> AckFrame_valid f))"
proof (cases "rp_ackQueued h \<or> (\<exists>a. rp_ackAlarm h = Some a \<and> a \<le> now)")
  case True
  note inv = rp_reach_inv [OF assms]
  have ne: "S \<noteq> {}" using True inv by (auto simp: rp_inv_def)
  have "ack_LargestAcked (ack_of g e h) = rp_largestObserved h" by (simp add: ack_of_def Let_def)
  moreover have "\<forall>p\<in>S. p \<le> rp_largestObserved h" using inv by (simp add: rp_inv_def)
  ultimately show ?thesis
    using GetAckFrame_inv [OF inv, of now g e] True ack_of_acks [OF inv ne] ack_of_valid [OF inv ne]
      rp_inv_ranges(7) [OF inv ne] by auto
next
  case False
  then show ?thesis using GetAckFrame_inv [OF rp_reach_inv [OF assms], of now g e] by auto
qed

definition example_handler :: receivedPacketHandler where
  "example_handler = snd (rp_ReceivedPacket 20 3 True
     (snd (rp_ReceivedPacket 10 1 True (NewReceivedPacketHandler 39))))"

lemmas receive_simps =
  rp_ReceivedPacket_def NewReceivedPacketHandler_def newReceivedPacketHistory_def
  history_ReceivedPacket_def MaxTrackedReceivedAckRanges_def single_def Let_def

lemma example_reach: "rp_reach 20 {3, 1} example_handler"
proof -
  define h1 where "h1 = snd (rp_ReceivedPacket 10 1 True (NewReceivedPacketHandler 39))"
  have 1: "rp_ReceivedPacket 10 1 True (NewReceivedPacketHandler 39) = (None, h1)"
    by (simp add: h1_def receive_simps)
  have l: "rp_lowerLimit (NewReceivedPacketHandler 39) = 0" "rp_lowerLimit h1 = 0"
    by (simp_all add: h1_def receive_simps)
  have 2: "rp_ReceivedPacket 20 3 True h1 = (None, example_handler)"
    by (simp add: h1_def example_handler_def receive_simps)
  show ?thesis
    using rp_reach.receive [OF rp_reach.receive [OF rp_reach.start [of 0] _ 1] _ 2] l by simp
qed

lemma recv_ack_exact_witness:
  "\<exists>f h'. GetAckFrame 30 1 7 example_handler = Inr (Some f, h') \<and> AckFrame_AcksPacket f 3 \<and>
    \<not> AckFrame_AcksPacket f 2 \<and> AckFrame_AcksPacket f 1"
proof -
  have "rp_ackQueued example_handler" by (simp add: example_handler_def receive_simps maybeQueueAck_def ack_reasons_def)
  then have "\<exists>f h'. GetAckFrame 30 1 7 example_handler = Inr (Some f, h')"
    using GetAckFrame_inv [OF rp_reach_inv [OF example_reach], of 30 1 7] by simp
  then obtain f h' where f: "GetAckFrame 30 1 7 example_handler = Inr (Some f, h')" by blast
  from recv_ack_exact [OF example_reach, of 30 1 7]
  have "\<forall>p. AckFrame_AcksPacket f p \<longleftrightarrow> p \<in> {3, 1}" unfolding f by auto
  then show ?thesis using f by auto
qed

subsection \<open>How long an ACK can wait\<close>

text \<open>
  \<open>rp_wait t S h t' S' h'\<close>: the handler gets from \<open>h\<close> to \<open>h'\<close> without sending an ACK: it receives further
  packets, gets limits, and \<open>GetAckFrame\<close> returns nothing.
\<close>

inductive rp_wait :: "int \<Rightarrow> PacketNumber set \<Rightarrow> receivedPacketHandler \<Rightarrow>
    int \<Rightarrow> PacketNumber set \<Rightarrow> receivedPacketHandler \<Rightarrow> bool" where
  here: "rp_wait t S h t S h"
| receive: "\<lbrakk> rp_wait t S h t' S' h'; t' \<le> now; rp_ReceivedPacket now pn instigate h' = (None, h'') \<rbrakk> \<Longrightarrow>
    rp_wait t S h now (if pn \<le> rp_lowerLimit h' then S' else insert pn S') h''"
| limit: "\<lbrakk> rp_wait t S h t' S' h'; p < rp_largestObserved h' \<rbrakk> \<Longrightarrow>
    rp_wait t S h t' {x \<in> S'. p < x} (SetLowerLimit p h')"
| idle: "\<lbrakk> rp_wait t S h t' S' h'; t' \<le> now; GetAckFrame now groups epoch h' = Inr (None, h'') \<rbrakk> \<Longrightarrow>
    rp_wait t S h now S' h''"

lemma rp_wait_reach: "rp_wait t S h t' S' h' \<Longrightarrow> rp_reach t S h \<Longrightarrow> rp_reach t' S' h'"
proof (induction rule: rp_wait.induct)
  case (receive t S h t' S' h' now pn instigate h'')
  then show ?case using rp_reach.receive by blast
qed (blast intro: rp_reach.intros)+

text \<open>An ACK is queued, or the alarm is set and due at \<open>due\<close> at the latest.\<close>

definition ack_due :: "int \<Rightarrow> receivedPacketHandler \<Rightarrow> bool" where
  "ack_due due h \<longleftrightarrow> rp_ackQueued h \<or> (\<exists>a. rp_ackAlarm h = Some a \<and> a \<le> due)"

lemma ack_due_maybeQueueAck:
  "ack_due due h \<Longrightarrow> ack_due due (maybeQueueAck now pn i h)"
  "now + rp_ackSendDelay h \<le> due \<Longrightarrow> (\<And>a. rp_ackAlarm h = Some a \<Longrightarrow> a \<le> due) \<Longrightarrow>
    ack_due due (maybeQueueAck now pn True h)"
  by (auto simp: ack_due_def maybeQueueAck_def ack_reasons_def Let_def)

lemma ack_due_receive:
  assumes "ack_due due h" "rp_ReceivedPacket now pn i h = (None, h')"
  shows "ack_due due h'"
  using assms
  by (auto simp: rp_ReceivedPacket_def Let_def split: if_splits sum.splits intro!: ack_due_maybeQueueAck(1))
    (auto simp: ack_due_def)

lemma ack_due_wait: "rp_wait t S h t' S' h' \<Longrightarrow> ack_due due h \<Longrightarrow> ack_due due h'"
proof (induction rule: rp_wait.induct)
  case (receive t S h t' S' h' now pn instigate h'')
  then show ?case using ack_due_receive by blast
next
  case (idle t S h t' S' h' now groups epoch h'')
  then have "h'' = h'" by (auto simp: GetAckFrame_def Let_def split: if_splits)
  then show ?case using idle by simp
qed (auto simp: ack_due_def SetLowerLimit_def)

text \<open>
  C15. ACKs are sent in time. When a packet above the lower limit that needs an ACK was received in
  any state a run reaches, then, whatever packets and limits follow, as long as no ACK was sent and no
  limit has deleted the packet, a call of \<open>GetAckFrame\<close> 25 ms after the packet, or at any later time,
  returns a frame that acknowledges it.
\<close>
theorem recv_ack_in_time:
  assumes "rp_reach t S h" "t \<le> now" "rp_ReceivedPacket now pn True h = (None, h1)" "rp_lowerLimit h < pn"
    and "rp_wait now (insert pn S) h1 t' S' h'" "pn \<in> S'" "now + AckSendDelay \<le> later"
  shows "\<exists>f h''. GetAckFrame later g e h' = Inr (Some f, h'') \<and> AckFrame_AcksPacket f pn"
proof -
  have reach: "rp_reach now (insert pn S) h1"
    using rp_reach.receive [OF assms(1-3)] assms(4) by (simp add: not_le [symmetric])
  have inv: "rp_inv t' S' h'" using rp_reach_inv [OF rp_wait_reach [OF assms(5) reach]] .
  have "rp_ackSendDelay h = AckSendDelay" "\<And>a. rp_ackAlarm h = Some a \<Longrightarrow> a \<le> t + AckSendDelay"
    using rp_reach_inv [OF assms(1)] by (simp_all add: rp_inv_def)
  then have "ack_due (now + AckSendDelay) h1"
    using assms(2-4)
    by (fastforce simp: rp_ReceivedPacket_def Let_def split: if_splits sum.splits intro!: ack_due_maybeQueueAck(2))
  then have "ack_due (now + AckSendDelay) h'" using ack_due_wait [OF assms(5)] by blast
  then have "rp_ackQueued h' \<or> (\<exists>a. rp_ackAlarm h' = Some a \<and> a \<le> later)"
    using assms(7) by (auto simp: ack_due_def)
  then show ?thesis using GetAckFrame_inv [OF inv, of later g e] ack_of_acks [OF inv, of g e pn] assms(6) by auto
qed

lemma recv_ack_in_time_witness:
  "\<exists>f h''. GetAckFrame 25000040 1 7 (SetLowerLimit 1 (snd (rp_ReceivedPacket 40 2 True example_handler)))
      = Inr (Some f, h'') \<and> AckFrame_AcksPacket f 2"
proof -
  have l: "rp_lowerLimit example_handler = 0" by (simp add: example_handler_def receive_simps)
  define h1 where "h1 = snd (rp_ReceivedPacket 40 2 True example_handler)"
  have r: "rp_ReceivedPacket 40 2 True example_handler = (None, h1)"
    by (simp add: example_handler_def receive_simps h1_def)
  have "1 < rp_largestObserved h1" by (simp add: h1_def example_handler_def receive_simps)
  from rp_wait.limit [OF rp_wait.here [of 40 "insert 2 {3, 1}" h1] this]
  have w: "rp_wait 40 (insert 2 {3, 1}) h1 40 {x \<in> insert 2 {3, 1}. 1 < x} (SetLowerLimit 1 h1)" .
  from recv_ack_in_time [OF example_reach _ r _ w, of 25000040 1 7] l
  show ?thesis by (simp add: AckSendDelay_def Millisecond_def h1_def)
qed

end
