(* ===== verification/Frame_Sorter.thy ===== *)
theory Frame_Sorter
  imports Wire_Stream
begin

section \<open>Reassembly of stream data: \<open>stream_frame_sorter.go\<close>\<close>

text \<open>
  The sorter of a stream queues frames by their offset and keeps the gaps between them. The linked list of
  gaps is a list, front first; the elements \<open>gap\<close> and \<open>endGap\<close> that the code points to are a split of
  that list. \<open>Push\<close> changes the frame it is given, here a copy of it. After an error other than
  \<open>errDuplicateStreamData\<close> the session is closed, so the state is not given then; with a
  duplicate nothing has been changed.
\<close>

definition MaxStreamFrameSorterGaps :: nat where "MaxStreamFrameSorterGaps = 2500"

record ByteInterval =
  bi_Start :: ByteCount
  bi_End :: ByteCount

record streamFrameSorter =
  fs_queuedFrames :: "ByteCount \<Rightarrow> StreamFrame option"
  fs_readPosition :: ByteCount
  fs_gaps :: "ByteInterval list"

definition newStreamFrameSorter :: streamFrameSorter where
  "newStreamFrameSorter =
     \<lparr> fs_queuedFrames = (\<lambda>_. None), fs_readPosition = 0,
       fs_gaps = [\<lparr> bi_Start = 0, bi_End = MaxByteCount \<rparr>] \<rparr>"

definition errDuplicateStreamData :: go_error where
  "errDuplicateStreamData = GoErr ''errDuplicateStreamData''"

text \<open>Skip all gaps that are before the frame.\<close>

fun skip_gaps ::
    "ByteCount \<Rightarrow> ByteCount \<Rightarrow> ByteInterval list \<Rightarrow> ByteInterval list \<Rightarrow>
     go_error + (ByteInterval list \<times> ByteInterval \<times> ByteInterval list)" where
  "skip_gaps start end pre [] = Inl (GoErr ''StreamFrameSorter BUG: no gap found'')"
| "skip_gaps start end pre (gap # gaps) =
     (if end \<le> bi_Start gap then Inl errDuplicateStreamData
      else if end > bi_Start gap \<and> start \<le> bi_End gap then Inr (pre, gap, gaps)
      else skip_gaps start end (pre @ [gap]) gaps)"

text \<open>
  Where \<open>endGap\<close> is after the second loop: it is \<open>gap\<close> itself, another element of the list, or an
  element that was removed from it.
\<close>

datatype end_gap = SameGap | LaterGap ByteInterval | RemovedGap ByteInterval

fun gap_at :: "ByteInterval \<Rightarrow> end_gap \<Rightarrow> ByteInterval" where
  "gap_at gap SameGap = gap"
| "gap_at gap (LaterGap g) = g"
| "gap_at gap (RemovedGap g) = g"

text \<open>The loop from \<open>endGap\<close> on, with the elements after it; \<open>same\<close>: \<open>endGap == gap\<close>.\<close>

fun find_end ::
    "ByteCount \<Rightarrow> bool \<Rightarrow> ByteInterval \<Rightarrow> ByteInterval list \<Rightarrow> (ByteCount \<Rightarrow> StreamFrame option) \<Rightarrow>
     go_error + (end_gap \<times> ByteInterval list \<times> (ByteCount \<Rightarrow> StreamFrame option))" where
  "find_end end same endGap [] q =
     (if end \<ge> bi_End endGap then Inl (GoErr ''StreamFrameSorter BUG: no end gap found'')
      else Inr (if same then SameGap else LaterGap endGap, [], q))"
| "find_end end same endGap (nextEndGap # after) q =
     (if end \<ge> bi_End endGap
      then if end \<le> bi_Start nextEndGap
           then Inr (if same then SameGap else RemovedGap endGap, nextEndGap # after, q)
           else find_end end False nextEndGap after (q(bi_End endGap := None))
      else Inr (if same then SameGap else LaterGap endGap, nextEndGap # after, q))"

text \<open>The gaps once the bytes from \<open>start\<close> to \<open>end\<close> are there.\<close>

definition later_gap :: "end_gap \<Rightarrow> ByteInterval list" where
  "later_gap eg = (case eg of LaterGap g \<Rightarrow> [g] | _ \<Rightarrow> [])"

definition update_gaps ::
    "ByteCount \<Rightarrow> ByteCount \<Rightarrow> ByteInterval list \<Rightarrow> ByteInterval \<Rightarrow> end_gap \<Rightarrow> ByteInterval list \<Rightarrow>
     ByteInterval list" where
  "update_gaps start end pre gap eg after =
     (let endGap = gap_at gap eg in
      if start = bi_Start gap
      then let gaps1 = (if end \<ge> bi_End gap then [] else [gap])
        in if end < bi_End endGap
           then (case eg of
                   SameGap \<Rightarrow> pre @ map (\<lambda>g. g\<lparr>bi_Start := end\<rparr>) gaps1 @ after
                 | LaterGap g \<Rightarrow> pre @ gaps1 @ [g\<lparr>bi_Start := end\<rparr>] @ after
                 | RemovedGap g \<Rightarrow> pre @ gaps1 @ after)
           else pre @ gaps1 @ later_gap eg @ after
      else if end = bi_End endGap
      then pre @ [gap\<lparr>bi_End := start\<rparr>] @ later_gap eg @ after
      else (case eg of
              SameGap \<Rightarrow>
                pre @ [gap\<lparr>bi_End := start\<rparr>, \<lparr> bi_Start = end, bi_End = bi_End gap \<rparr>] @ after
            | LaterGap g \<Rightarrow> pre @ [gap\<lparr>bi_End := start\<rparr>, g\<lparr>bi_Start := end\<rparr>] @ after
            | RemovedGap g \<Rightarrow> pre @ [gap\<lparr>bi_End := start\<rparr>] @ after))"

definition drop_front :: "ByteCount \<Rightarrow> StreamFrame \<Rightarrow> StreamFrame" where
  "drop_front n f = f\<lparr>sf_Data := drop (unat n) (sf_Data f), sf_Offset := sf_Offset f + n\<rparr>"

definition push_frame :: "StreamFrame \<Rightarrow> streamFrameSorter \<Rightarrow> go_error + streamFrameSorter" where
  "push_frame frame s =
     (let start = sf_Offset frame; end = sf_Offset frame + StreamFrame_DataLen frame in
      case skip_gaps start end [] (fs_gaps s) of Inl e \<Rightarrow> Inl e
      | Inr (pre, gap, after) \<Rightarrow>
        let (start1, frame1) =
              (if start < bi_Start gap
               then let add = bi_Start gap - start in (start + add, drop_front add frame)
               else (start, frame))
        in case find_end end True gap after (fs_queuedFrames s) of Inl e \<Rightarrow> Inl e
           | Inr (eg, after', q) \<Rightarrow>
             let endGap = gap_at gap eg;
                 (end1, frame2) =
                   (if end > bi_End endGap
                    then let cutLen = end - bi_End endGap; len = StreamFrame_DataLen frame1 - cutLen
                      in (end - cutLen, frame1\<lparr>sf_Data := take (unat len) (sf_Data frame1)\<rparr>)
                    else (end, frame1));
                 gaps = update_gaps start1 end1 pre gap eg after'
             in if length gaps > MaxStreamFrameSorterGaps
                then Inl (GoErr ''errTooManyGapsInReceivedStreamData'')
                else Inr (s\<lparr>fs_gaps := gaps, fs_queuedFrames := q(sf_Offset frame2 \<mapsto> frame2)\<rparr>))"

definition Push :: "StreamFrame \<Rightarrow> streamFrameSorter \<Rightarrow> go_error + streamFrameSorter" where
  "Push frame s =
     (if StreamFrame_DataLen frame = 0
      then if sf_FinBit frame
           then Inr (s\<lparr>fs_queuedFrames := (fs_queuedFrames s)(sf_Offset frame \<mapsto> frame)\<rparr>)
           else Inl (GoErr ''errEmptyStreamData'')
      else case fs_queuedFrames s (sf_Offset frame) of
             None \<Rightarrow> push_frame frame s
           | Some oldFrame \<Rightarrow>
               if StreamFrame_DataLen frame \<le> StreamFrame_DataLen oldFrame
               then Inl errDuplicateStreamData
               else push_frame (drop_front (StreamFrame_DataLen oldFrame) frame) s)"

definition Head :: "streamFrameSorter \<Rightarrow> StreamFrame option" where
  "Head s = fs_queuedFrames s (fs_readPosition s)"

definition Pop :: "streamFrameSorter \<Rightarrow> StreamFrame option \<times> streamFrameSorter" where
  "Pop s =
     (case Head s of
        None \<Rightarrow> (None, s)
      | Some frame \<Rightarrow>
          (Some frame, s\<lparr>fs_readPosition := fs_readPosition s + StreamFrame_DataLen frame,
                         fs_queuedFrames := (fs_queuedFrames s)(sf_Offset frame := None)\<rparr>))"

subsection \<open>Gaps\<close>

definition gap_set :: "ByteInterval list \<Rightarrow> u64 set" where
  "gap_set gs = (\<Union>g\<in>set gs. {bi_Start g ..< bi_End g})"

fun gaps_ok :: "ByteInterval list \<Rightarrow> bool" where
  "gaps_ok [] = True"
| "gaps_ok (g # gs) = (bi_Start g < bi_End g \<and> (\<forall>h\<in>set gs. bi_End g < bi_Start h) \<and> gaps_ok gs)"

lemma gap_set_simps [simp]:
  "gap_set [] = {}" "gap_set (g # gs) = {bi_Start g ..< bi_End g} \<union> gap_set gs"
  "gap_set (gs @ hs) = gap_set gs \<union> gap_set hs"
  by (auto simp: gap_set_def)

lemma gaps_ok_append:
  "gaps_ok (gs @ hs) \<longleftrightarrow> gaps_ok gs \<and> gaps_ok hs \<and> (\<forall>g\<in>set gs. \<forall>h\<in>set hs. bi_End g < bi_Start h)"
  by (induction gs) auto

lemma gaps_ok_mem: "gaps_ok gs \<Longrightarrow> g \<in> set gs \<Longrightarrow> bi_Start g < bi_End g"
  by (induction gs) auto

lemma gap_set_less: "(\<And>g. g \<in> set gs \<Longrightarrow> bi_End g \<le> b) \<Longrightarrow> x \<in> gap_set gs \<Longrightarrow> x < b"
  by (fastforce simp: gap_set_def)

lemma gap_set_ge: "(\<And>g. g \<in> set gs \<Longrightarrow> b \<le> bi_Start g) \<Longrightarrow> x \<in> gap_set gs \<Longrightarrow> b \<le> x"
  by (fastforce simp: gap_set_def)

lemma skip_gaps_Inr:
  assumes "skip_gaps st en pre gs = Inr (pre', gap, after)"
  shows "\<exists>mid. pre' = pre @ mid \<and> gs = mid @ gap # after \<and> bi_Start gap < en \<and> st \<le> bi_End gap \<and>
    (\<forall>g\<in>set mid. bi_End g < st)"
  using assms
proof (induction gs arbitrary: pre)
  case (Cons g gs)
  show ?case
  proof (cases "st \<le> bi_End g \<or> en \<le> bi_Start g")
    case True
    then show ?thesis using Cons.prems by (auto split: if_splits)
  next
    case False
    then have "skip_gaps st en (pre @ [g]) gs = Inr (pre', gap, after)" using Cons.prems by auto
    from Cons.IH [OF this] obtain mid where "pre' = (pre @ [g]) @ mid" "gs = mid @ gap # after"
      "bi_Start gap < en" "st \<le> bi_End gap" "\<forall>g\<in>set mid. bi_End g < st" by blast
    then show ?thesis using False by (intro exI [of _ "g # mid"]) auto
  qed
qed simp

lemma skip_gaps_Inl:
  assumes "skip_gaps st en pre gs = Inl e" "gaps_ok gs"
  shows "(e = errDuplicateStreamData \<and> {st..<en} \<inter> gap_set gs = {}) \<or> (\<forall>g\<in>set gs. bi_End g < st)"
  using assms
proof (induction gs arbitrary: pre)
  case (Cons g gs)
  show ?case
  proof (cases "en \<le> bi_Start g")
    case True
    then have "e = errDuplicateStreamData" using Cons.prems(1) by simp
    moreover have "en \<le> x" if "x \<in> gap_set (g # gs)" for x
      using that True Cons.prems(2) by (intro gap_set_ge [OF _ that]) fastforce
    ultimately show ?thesis by fastforce
  next
    case False
    then have "skip_gaps st en (pre @ [g]) gs = Inl e" "bi_End g < st" using Cons.prems(1) by (auto split: if_splits)
    then show ?thesis using Cons.IH [of "pre @ [g]"] Cons.prems(2) by fastforce
  qed
qed simp

definition delete_ends :: "ByteInterval list \<Rightarrow> (ByteCount \<Rightarrow> StreamFrame option) \<Rightarrow> ByteCount \<Rightarrow> StreamFrame option" where
  "delete_ends gs q = (\<lambda>k. if k \<in> bi_End ` set gs then None else q k)"

lemma delete_ends_Nil [simp]: "delete_ends [] q = q"
  by (simp add: delete_ends_def)

lemma delete_ends_Cons: "delete_ends gs (q(bi_End g := None)) = delete_ends (g # gs) q"
  by (auto simp: delete_ends_def)

text \<open>
  The end gap \<open>h\<close>: the gaps before it, from \<open>gap\<close> on, are covered by the frame, and the frame ends
  in \<open>h\<close> or before the next gap.
\<close>

lemma find_end_Inr:
  assumes "find_end en same gap after q = Inr (eg, after', q')" "bi_Start gap < en"
  shows "\<exists>mid h. gap # after = mid @ h # after' \<and> bi_Start h < en \<and>
    (en < bi_End h \<or> bi_End h \<le> en \<and> (\<exists>n rest. after' = n # rest \<and> en \<le> bi_Start n)) \<and>
    q' = delete_ends mid q \<and>
    eg = (if same \<and> mid = [] then SameGap else if en < bi_End h then LaterGap h else RemovedGap h)"
  using assms
proof (induction en same gap after q rule: find_end.induct)
  case (1 en same gap q)
  then show ?case by (intro exI [of _ "[]"] exI [of _ gap]) (auto split: if_splits)
next
  case (2 en same gap n after q)
  show ?case
  proof (cases "en < bi_End gap \<or> en \<le> bi_Start n")
    case True
    then show ?thesis using 2(2,3)
      by (intro exI [of _ "[]"] exI [of _ gap]) (auto split: if_splits)
  next
    case False
    then have lt: "bi_Start n < en" "bi_End gap \<le> en" "\<not> en \<le> bi_Start n" by auto
    then have "find_end en False n after (q(bi_End gap := None)) = Inr (eg, after', q')"
      using 2(2) by simp
    note lt = this lt
    from 2(1) [OF lt(3,4,1,2), unfolded delete_ends_Cons simp_thms if_False] obtain mid h where "n # after = mid @ h # after'" "bi_Start h < en"
      "en < bi_End h \<or> bi_End h \<le> en \<and> (\<exists>n rest. after' = n # rest \<and> en \<le> bi_Start n)"
      "q' = delete_ends (gap # mid) q"
      "eg = (if en < bi_End h then LaterGap h else RemovedGap h)" by blast
    then show ?thesis
      by (intro exI [of _ "gap # mid"] exI [of _ h]) auto
  qed
qed

lemma find_end_Inl:
  assumes "find_end en same gap after q = Inl e"
  shows "bi_End (last (gap # after)) \<le> en"
  using assms
  by (induction en same gap after q rule: find_end.induct) (auto split: if_splits)

text \<open>The gaps after the update: what is left of the first and of the last gap.\<close>

definition cut_gaps :: "u64 \<Rightarrow> u64 \<Rightarrow> ByteInterval \<Rightarrow> ByteInterval \<Rightarrow> ByteInterval list" where
  "cut_gaps st en g h =
     (if bi_Start g < st then [\<lparr> bi_Start = bi_Start g, bi_End = st \<rparr>] else []) @
     (if en < bi_End h then [\<lparr> bi_Start = en, bi_End = bi_End h \<rparr>] else [])"

lemma bi_update: "g\<lparr>bi_Start := a\<rparr> = \<lparr> bi_Start = a, bi_End = bi_End g \<rparr>"
  "g\<lparr>bi_End := a\<rparr> = \<lparr> bi_Start = bi_Start g, bi_End = a \<rparr>"
  by simp_all

lemma update_gaps_eq:
  assumes ok: "gaps_ok (pre @ gap # after)" and split: "gap # after = mid @ h # after'"
    and eg: "eg = (if mid = [] then SameGap else if en < bi_End h then LaterGap h else RemovedGap h)"
    and st: "bi_Start gap \<le> st" "st < bi_End gap" and en: "bi_Start h < en"
  defines "en' \<equiv> min en (bi_End h)"
  shows "update_gaps st en' pre gap eg after' = pre @ cut_gaps st en' gap h @ after'"
proof (cases mid)
  case Nil
  then have "h = gap" "eg = SameGap" using split eg by auto
  then show ?thesis
    using st en by (auto simp: update_gaps_def cut_gaps_def later_gap_def en'_def bi_update min_def not_less)
next
  case (Cons m mid')
  then have "m = gap" "h \<in> set after" using split by auto
  then have lt: "bi_End gap < bi_Start h" using ok by (simp add: gaps_ok_append)
  have h: "bi_Start h < bi_End h" using ok \<open>h \<in> set after\<close> gaps_ok_mem [of after h]
    by (simp add: gaps_ok_append)
  then have gt: "bi_End gap < en'" "st < en'" using lt en st by (auto simp: en'_def)
  show ?thesis
  proof (cases "en < bi_End h")
    case True
    then have "eg = LaterGap h" "en' = en" using Cons eg by (auto simp: en'_def)
    then show ?thesis using True st gt by (auto simp: update_gaps_def cut_gaps_def bi_update not_less)
  next
    case False
    then have "eg = RemovedGap h" "en' = bi_End h" using Cons eg by (auto simp: en'_def)
    then show ?thesis using st gt by (auto simp: update_gaps_def cut_gaps_def later_gap_def bi_update not_less)
  qed
qed

text \<open>The new gaps are the old ones without the bytes of the frame.\<close>

lemma cut_gaps_correct:
  assumes ok: "gaps_ok (pre @ mid @ h # after)" and g: "g = hd (mid @ [h])"
    and st: "bi_Start g \<le> st" "st < bi_End g" and en: "bi_Start h < en" "en \<le> bi_End h" "st < en"
    and nxt: "en < bi_End h \<or> (\<forall>n\<in>set after. en \<le> bi_Start n)"
  defines "gs \<equiv> pre @ cut_gaps st en g h @ after"
  shows "gaps_ok gs" "gap_set gs = gap_set (pre @ mid @ h # after) - {st..<en}"
    "bi_End ` set gs \<subseteq> insert st (bi_End ` set (pre @ mid @ h # after) \<inter> ({..<st} \<union> {en<..}))"
proof -
  have gmem: "g \<in> set (mid @ [h])" using g by (cases mid) auto
  have pre_lt: "bi_End x < bi_Start g" if "x \<in> set pre" for x
    using ok that gmem by (auto simp: gaps_ok_append)
  have after_gt: "bi_End h < bi_Start x" "bi_Start x < bi_End x" if "x \<in> set after" for x
    using ok that gaps_ok_mem [of after x] by (auto simp: gaps_ok_append)
  have after_st: "st < bi_Start x" "en < bi_Start x" if "x \<in> set after" for x
    using after_gt(1) [OF that] st en by auto
  show "gaps_ok gs"
    using ok st en pre_lt after_gt after_st by (auto simp: gs_def cut_gaps_def gaps_ok_append)
  have mid_eq: "gap_set (mid @ [h]) - {st..<en} = {bi_Start g..<st} \<union> {en..<bi_End h}"
  proof (cases mid)
    case Nil
    then show ?thesis using g st en by auto
  next
    case (Cons m ms)
    then have m: "m = g" using g by simp
    have h: "bi_End g < bi_Start h" using ok Cons m by (auto simp: gaps_ok_append)
    have ms: "bi_End g < bi_Start x" "bi_End x < bi_Start h" if "x \<in> set ms" for x
      using ok Cons m that by (auto simp: gaps_ok_append)
    have "x \<in> {st..<en}" if "x \<in> gap_set ms" for x
      using that ms st en by (fastforce simp: gap_set_def)
    then show ?thesis using Cons m st en h by auto
  qed
  have "x < st" if "x \<in> gap_set pre" for x
    using pre_lt st gap_set_less [of pre "bi_Start g" x] that by fastforce
  moreover have "en \<le> x" if "x \<in> gap_set after" for x
    using after_gt en gap_set_ge [of after "bi_End h" x] that by fastforce
  ultimately have "gap_set (pre @ mid @ h # after) - {st..<en} =
      gap_set pre \<union> (gap_set (mid @ [h]) - {st..<en}) \<union> gap_set after"
    by fastforce
  then show "gap_set gs = gap_set (pre @ mid @ h # after) - {st..<en}"
    unfolding mid_eq gs_def cut_gaps_def using st en by auto
  show "bi_End ` set gs \<subseteq> insert st (bi_End ` set (pre @ mid @ h # after) \<inter> ({..<st} \<union> {en<..}))"
    using pre_lt after_gt st en by (fastforce simp: gs_def cut_gaps_def)
qed

subsection \<open>Frames of a byte stream\<close>

text \<open>\<open>B\<close> gives the bytes of the stream; \<open>frame_of B f\<close>: the data of \<open>f\<close> are the bytes at its offset.\<close>

definition frame_of :: "(nat \<Rightarrow> u8) \<Rightarrow> StreamFrame \<Rightarrow> bool" where
  "frame_of B f \<longleftrightarrow> unat (sf_Offset f) + length (sf_Data f) < 2 ^ 64 \<and>
     (\<forall>i<length (sf_Data f). sf_Data f ! i = B (unat (sf_Offset f) + i))"

definition frame_end :: "StreamFrame \<Rightarrow> u64" where
  "frame_end f = sf_Offset f + StreamFrame_DataLen f"

definition frame_range :: "StreamFrame \<Rightarrow> u64 set" where
  "frame_range f = {sf_Offset f ..< frame_end f}"

lemma unat_DataLen: "frame_of B f \<Longrightarrow> unat (StreamFrame_DataLen f) = length (sf_Data f)"
  by (simp add: frame_of_def StreamFrame_DataLen_def unat_of_nat)

lemma unat_frame_end: "frame_of B f \<Longrightarrow> unat (frame_end f) = unat (sf_Offset f) + length (sf_Data f)"
  using unat_DataLen [of B f] by (simp add: frame_end_def frame_of_def unat_word_ariths)

lemma frame_end_gt: "frame_of B f \<Longrightarrow> sf_Data f \<noteq> [] \<Longrightarrow> sf_Offset f < frame_end f"
  using unat_frame_end [of B f] by (simp add: word_less_nat_alt)

lemma DataLen_0: "frame_of B f \<Longrightarrow> StreamFrame_DataLen f = 0 \<longleftrightarrow> sf_Data f = []"
  using unat_DataLen [of B f] by (metis length_0_conv unat_0 unat_eqI)

lemma unat_add_le: "unat a + unat b < 2 ^ 64 \<Longrightarrow> unat (a + b) = unat a + unat (b :: u64)"
  by (simp add: unat_word_ariths)

lemma drop_front_frame:
  assumes "frame_of B f" "unat n \<le> length (sf_Data f)"
  shows "frame_of B (drop_front n f)" "frame_end (drop_front n f) = frame_end f"
    "sf_Offset (drop_front n f) = sf_Offset f + n"
    "length (sf_Data (drop_front n f)) = length (sf_Data f) - unat n"
proof -
  have o: "unat (sf_Offset f + n) = unat (sf_Offset f) + unat n"
    using assms by (intro unat_add_le) (simp add: frame_of_def)
  then show f: "frame_of B (drop_front n f)"
    using assms by (simp add: frame_of_def drop_front_def add.assoc)
  show "sf_Offset (drop_front n f) = sf_Offset f + n"
    "length (sf_Data (drop_front n f)) = length (sf_Data f) - unat n"
    by (simp_all add: drop_front_def)
  show "frame_end (drop_front n f) = frame_end f"
    using unat_frame_end [OF f] unat_frame_end [OF assms(1)] o assms(2)
    by (intro unat_eqI) (simp add: drop_front_def)
qed

lemma take_frame:
  assumes "frame_of B f" "unat n \<le> length (sf_Data f)"
  defines "f' \<equiv> f\<lparr>sf_Data := take (unat n) (sf_Data f)\<rparr>"
  shows "frame_of B f'" "frame_end f' = sf_Offset f + n" "sf_Offset f' = sf_Offset f"
proof -
  show f: "frame_of B f'" using assms by (simp add: frame_of_def f'_def)
  show "sf_Offset f' = sf_Offset f" by (simp add: f'_def)
  have "StreamFrame_DataLen f' = n" using assms by (simp add: StreamFrame_DataLen_def f'_def min_def)
  then show "frame_end f' = sf_Offset f + n" by (simp add: frame_end_def f'_def)
qed

subsection \<open>The invariant\<close>

text \<open>
  The positions a reader can get to: its own position, the end of every gap but the last, and the
  end of every frame queued at such a position. Frames that a longer frame has made superfluous
  may stay in the queue; the reader never gets to them.
\<close>

inductive live :: "u64 \<Rightarrow> ByteInterval list \<Rightarrow> (u64 \<Rightarrow> StreamFrame option) \<Rightarrow> u64 \<Rightarrow> bool"
  for rp gs q where
  read: "live rp gs q rp"
| gap: "g \<in> set gs \<Longrightarrow> bi_End g \<noteq> MaxByteCount \<Longrightarrow> live rp gs q (bi_End g)"
| frame: "live rp gs q p \<Longrightarrow> q p = Some f \<Longrightarrow> sf_Data f \<noteq> [] \<Longrightarrow> live rp gs q (frame_end f)"

definition queue_ok :: "(nat \<Rightarrow> u8) \<Rightarrow> nat \<Rightarrow> ByteInterval list \<Rightarrow> (u64 \<Rightarrow> StreamFrame option) \<Rightarrow> bool" where
  "queue_ok B F gs q \<longleftrightarrow> (\<forall>k f. q k = Some f \<longrightarrow> sf_Offset f = k \<and> frame_of B f \<and>
     unat (frame_end f) \<le> F \<and> (sf_Data f = [] \<longrightarrow> unat k = F) \<and> frame_range f \<inter> gap_set gs = {})"

definition bounds_ok :: "u64 \<Rightarrow> ByteInterval list \<Rightarrow> (u64 \<Rightarrow> StreamFrame option) \<Rightarrow> bool" where
  "bounds_ok rp gs q \<longleftrightarrow>
     (\<forall>p. live rp gs q p \<longrightarrow> p \<in> gap_set gs \<or> (\<exists>f. q p = Some f \<and> sf_Data f \<noteq> []))"

definition sorter_inv :: "(nat \<Rightarrow> u8) \<Rightarrow> nat \<Rightarrow> streamFrameSorter \<Rightarrow> bool" where
  "sorter_inv B F s \<longleftrightarrow> (let gs = fs_gaps s; q = fs_queuedFrames s; rp = fs_readPosition s in
     gaps_ok gs \<and> gs \<noteq> [] \<and> bi_End (last gs) = MaxByteCount \<and> queue_ok B F gs q \<and>
     bounds_ok rp gs q \<and> (\<forall>x\<in>gap_set gs. rp \<le> x))"

lemma sorter_inv_new: "sorter_inv B F newStreamFrameSorter"
proof -
  have "p = 0" if "live 0 [\<lparr>bi_Start = 0, bi_End = MaxByteCount\<rparr>] (\<lambda>_. None) p" for p
    using that by (induction rule: live.induct) auto
  then have "bounds_ok 0 [\<lparr>bi_Start = 0, bi_End = MaxByteCount\<rparr>] (\<lambda>_. None)"
    unfolding bounds_ok_def by (force simp: MaxByteCount_def)
  then show ?thesis
    by (simp add: sorter_inv_def newStreamFrameSorter_def queue_ok_def) (simp add: MaxByteCount_def)
qed

lemma queue_okD:
  assumes "queue_ok B F gs q" "q k = Some f"
  shows "sf_Offset f = k" "frame_of B f" "unat (frame_end f) \<le> F" "sf_Data f = [] \<Longrightarrow> unat k = F"
    "frame_range f \<inter> gap_set gs = {}" "sf_Data f \<noteq> [] \<Longrightarrow> k < frame_end f" "sf_Data f \<noteq> [] \<Longrightarrow> k \<notin> gap_set gs"
proof -
  have a: "sf_Offset f = k \<and> frame_of B f \<and> unat (frame_end f) \<le> F \<and> (sf_Data f = [] \<longrightarrow> unat k = F) \<and>
      frame_range f \<inter> gap_set gs = {}"
    using assms by (simp add: queue_ok_def)
  then show "sf_Offset f = k" "frame_of B f" "unat (frame_end f) \<le> F" "sf_Data f = [] \<Longrightarrow> unat k = F"
    "frame_range f \<inter> gap_set gs = {}" by auto
  show "sf_Data f \<noteq> [] \<Longrightarrow> k < frame_end f" using a frame_end_gt by auto
  then show "sf_Data f \<noteq> [] \<Longrightarrow> k \<notin> gap_set gs" using a by (auto simp: frame_range_def)
qed

text \<open>A frame that fills bytes of a gap, from a byte of it on, keeps the invariant.\<close>

definition push_step ::
    "(nat \<Rightarrow> u8) \<Rightarrow> nat \<Rightarrow> u64 \<Rightarrow> ByteInterval list \<Rightarrow> (u64 \<Rightarrow> StreamFrame option) \<Rightarrow> StreamFrame \<Rightarrow>
     ByteInterval list \<Rightarrow> (u64 \<Rightarrow> StreamFrame option) \<Rightarrow> bool" where
  "push_step B F rp gs q f gs' q' \<longleftrightarrow>
     queue_ok B F gs q \<and> bounds_ok rp gs q \<and> (\<forall>x\<in>gap_set gs. rp \<le> x) \<and>
     frame_of B f \<and> unat (frame_end f) \<le> F \<and> sf_Data f \<noteq> [] \<and> sf_Offset f \<in> gap_set gs \<and>
     gap_set gs' = gap_set gs - frame_range f \<and>
     bi_End ` set gs' \<subseteq> insert (sf_Offset f)
       (bi_End ` set gs \<inter> ({..<sf_Offset f} \<union> {frame_end f<..})) \<and>
     (\<exists>mid. q' = (delete_ends mid q)(sf_Offset f \<mapsto> f) \<and>
        (\<forall>g\<in>set mid. sf_Offset f < bi_End g \<and> bi_End g < frame_end f)) \<and>
     (frame_end f \<in> gap_set gs \<or> (\<exists>g\<in>set gs. bi_End g = frame_end f \<and> bi_End g \<noteq> MaxByteCount))"

lemma push_stepD:
  assumes "push_step B F rp gs q f gs' q'"
  shows "queue_ok B F gs q" "bounds_ok rp gs q" "\<forall>x\<in>gap_set gs. rp \<le> x"
    "frame_of B f" "unat (frame_end f) \<le> F" "sf_Data f \<noteq> []" "sf_Offset f \<in> gap_set gs"
    "gap_set gs' = gap_set gs - frame_range f"
    "bi_End ` set gs' \<subseteq> insert (sf_Offset f)
      (bi_End ` set gs \<inter> ({..<sf_Offset f} \<union> {frame_end f<..}))"
    "\<exists>mid. q' = (delete_ends mid q)(sf_Offset f \<mapsto> f) \<and>
      (\<forall>g\<in>set mid. sf_Offset f < bi_End g \<and> bi_End g < frame_end f)"
    "frame_end f \<in> gap_set gs \<or> (\<exists>g\<in>set gs. bi_End g = frame_end f \<and> bi_End g \<noteq> MaxByteCount)"
  using assms unfolding push_step_def by auto

lemma push_step_cases:
  assumes "push_step B F rp gs q f gs' q'"
  shows "q' k = Some g \<Longrightarrow> k = sf_Offset f \<and> g = f \<or> k \<noteq> sf_Offset f \<and> q k = Some g"
  using push_stepD(10) [OF assms] by (auto simp: delete_ends_def split: if_splits)

lemma push_step_kept:
  assumes "push_step B F rp gs q f gs' q'"
  shows "q k = Some g \<Longrightarrow> k < sf_Offset f \<or> frame_end f \<le> k \<Longrightarrow> q' k = Some g"
  using push_stepD(10) [OF assms] frame_end_gt [OF push_stepD(4,6) [OF assms]]
  by (fastforce simp: delete_ends_def)

lemma push_step_head:
  assumes ps: "push_step B F rp gs q f gs' q'" and g: "q rp = Some g" "sf_Data g \<noteq> []"
  shows "q' rp = Some g"
proof -
  have "rp \<notin> gap_set gs" using queue_okD(7) [OF push_stepD(1) [OF ps] g] .
  then have "rp < sf_Offset f" using push_stepD(3,7) [OF ps] by (metis le_neq_trans)
  then show ?thesis using push_step_kept [OF ps g(1)] by blast
qed

lemma push_step_queue:
  assumes "push_step B F rp gs q f gs' q'"
  shows "queue_ok B F gs' q'"
  unfolding queue_ok_def
proof (intro allI impI)
  fix k g assume "q' k = Some g"
  from push_step_cases [OF assms this]
  show "sf_Offset g = k \<and> frame_of B g \<and> unat (frame_end g) \<le> F \<and> (sf_Data g = [] \<longrightarrow> unat k = F) \<and>
      frame_range g \<inter> gap_set gs' = {}"
    using push_stepD [OF assms] queue_okD(1-5) [OF push_stepD(1) [OF assms], of k g] by auto
qed

lemma push_step_live:
  assumes ps: "push_step B F rp gs q f gs' q'" and "live rp gs' q' p"
  shows "p = sf_Offset f \<or> p = frame_end f \<or> live rp gs q p \<and> (p < sf_Offset f \<or> frame_end f < p)"
  using assms(2)
proof (induction rule: live.induct)
  case read
  have "rp \<le> sf_Offset f" using push_stepD(3,7) [OF ps] by auto
  then show ?case using live.read [of rp gs q] by auto
next
  case (gap g)
  then have "bi_End g = sf_Offset f \<or> bi_End g \<in> bi_End ` set gs \<and> (bi_End g < sf_Offset f \<or> frame_end f < bi_End g)"
    using push_stepD(9) [OF ps] by blast
  then show ?case using gap(2) live.gap [of _ gs rp q] by fastforce
next
  case (frame p g)
  show ?case
  proof (cases "p = sf_Offset f")
    case True
    then show ?thesis using push_step_cases [OF ps frame(2)] by auto
  next
    case not_f: False
    then have g: "q p = Some g" using push_step_cases [OF ps frame(2)] by auto
    note gd = queue_okD [OF push_stepD(1) [OF ps] g]
    have end_gt: "p < frame_end g" using gd(6) frame(3) by simp
    have lp: "live rp gs q p"
    proof (cases "p = frame_end f")
      case True
      then have "frame_end f \<notin> gap_set gs" using gd(7) frame(3) by simp
      then show ?thesis using push_stepD(11) [OF ps] True live.gap by metis
    next
      case False
      then show ?thesis using frame.IH not_f by auto
    qed
    then have "live rp gs q (frame_end g)" using g frame(3) by (rule live.frame)
    moreover have "frame_end g < sf_Offset f \<or> frame_end g = sf_Offset f \<or> frame_end f < frame_end g"
    proof (cases "p < sf_Offset f")
      case True
      have "sf_Offset f \<notin> frame_range g" using gd(5) push_stepD(7) [OF ps] by blast
      then have "\<not> sf_Offset f < frame_end g" using gd(1) True by (auto simp: frame_range_def)
      then show ?thesis by auto
    next
      case False
      then show ?thesis using frame.IH not_f end_gt by auto
    qed
    ultimately show ?thesis by auto
  qed
qed

lemma push_step_bounds:
  assumes ps: "push_step B F rp gs q f gs' q'"
  shows "bounds_ok rp gs' q'"
  unfolding bounds_ok_def
proof (intro allI impI)
  fix p assume "live rp gs' q' p"
  then consider "p = sf_Offset f" | "p = frame_end f" | "live rp gs q p" "p < sf_Offset f \<or> frame_end f < p"
    using push_step_live [OF ps] by blast
  then show "p \<in> gap_set gs' \<or> (\<exists>g. q' p = Some g \<and> sf_Data g \<noteq> [])"
  proof cases
    case 1
    then show ?thesis using push_stepD(6,10) [OF ps] by auto
  next
    case 2
    show ?thesis
    proof (cases "p \<in> gap_set gs")
      case True
      then show ?thesis using 2 push_stepD(8) [OF ps] by (auto simp: frame_range_def)
    next
      case False
      then have "live rp gs q p" using push_stepD(11) [OF ps] 2 live.gap by metis
      then show ?thesis using push_stepD(2) [OF ps] False 2 push_step_kept [OF ps] by (fastforce simp: bounds_ok_def)
    qed
  next
    case 3
    then have "p \<in> gap_set gs \<or> (\<exists>g. q p = Some g \<and> sf_Data g \<noteq> [])" using push_stepD(2) [OF ps] by (simp add: bounds_ok_def)
    then show ?thesis using 3(2) push_stepD(8) [OF ps] push_step_kept [OF ps] by (fastforce simp: frame_range_def)
  qed
qed

subsection \<open>\<open>Push\<close> and \<open>Pop\<close>\<close>

lemma sorter_invD:
  assumes "sorter_inv B F s"
  shows "gaps_ok (fs_gaps s)" "fs_gaps s \<noteq> []" "bi_End (last (fs_gaps s)) = MaxByteCount"
    "queue_ok B F (fs_gaps s) (fs_queuedFrames s)"
    "bounds_ok (fs_readPosition s) (fs_gaps s) (fs_queuedFrames s)"
    "\<forall>x\<in>gap_set (fs_gaps s). fs_readPosition s \<le> x"
  using assms by (simp_all add: sorter_inv_def Let_def)

lemma gap_end_notin: "gaps_ok gs \<Longrightarrow> g \<in> set gs \<Longrightarrow> bi_End g \<notin> gap_set gs"
proof (induction gs)
  case (Cons h gs)
  have "bi_End h < bi_Start x" "bi_Start x < bi_End x" if "x \<in> set gs" for x
    using Cons.prems(1) gaps_ok_mem [of gs x] that by auto
  then show ?case using Cons by (fastforce simp: gap_set_def)
qed simp

lemma le_MaxByteCount: "x \<le> MaxByteCount"
  using unat_bound [of x] by (simp add: word_le_nat_alt MaxByteCount_def)

lemma gap_in: "gaps_ok gs \<Longrightarrow> g \<in> set gs \<Longrightarrow> bi_Start g \<le> x \<Longrightarrow> x < bi_End g \<Longrightarrow> x \<in> gap_set gs"
  by (auto simp: gap_set_def)

text \<open>A frame with data that is next to be read stays next to be read.\<close>

definition keeps_head :: "streamFrameSorter \<Rightarrow> streamFrameSorter \<Rightarrow> bool" where
  "keeps_head s s' \<longleftrightarrow> (\<forall>g. Head s = Some g \<and> sf_Data g \<noteq> [] \<longrightarrow> Head s' = Some g)"

text \<open>The part of a frame that goes into the queue, and the gaps after it.\<close>

lemma push_frame_Inr:
  assumes inv: "sorter_inv B F s" and f: "frame_of B f" "unat (frame_end f) \<le> F" "sf_Data f \<noteq> []"
    and start: "\<forall>g\<in>set (fs_gaps s). bi_End g = sf_Offset f \<longrightarrow> bi_End g = MaxByteCount"
    and push: "push_frame f s = Inr s'"
  shows "sorter_inv B F s' \<and> gap_set (fs_gaps s') = gap_set (fs_gaps s) - frame_range f \<and>
    fs_readPosition s' = fs_readPosition s \<and> keeps_head s s'"
proof -
  note i = sorter_invD [OF inv]
  let ?q = "fs_queuedFrames s" and ?en = "frame_end f"
  obtain pre gap after where skip: "skip_gaps (sf_Offset f) ?en [] (fs_gaps s) = Inr (pre, gap, after)"
    using push by (auto simp: push_frame_def Let_def frame_end_def split: sum.splits)
  have gs: "fs_gaps s = pre @ gap # after" "bi_Start gap < ?en" "sf_Offset f \<le> bi_End gap"
    "\<forall>g\<in>set pre. bi_End g < sf_Offset f"
    using skip_gaps_Inr [OF skip] by auto
  have ok: "gaps_ok (gap # after)" using i(1) gs(1) by (simp add: gaps_ok_append)
  have "sf_Offset f < ?en" by (rule frame_end_gt [OF f(1,3)])
  then have "sf_Offset f \<noteq> MaxByteCount" using le_MaxByteCount [of ?en] by auto
  then have lt: "sf_Offset f < bi_End gap" using start gs(1,3) by auto
  define f1 where "f1 = (if sf_Offset f < bi_Start gap then drop_front (bi_Start gap - sf_Offset f) f else f)"
  define st where "st = max (sf_Offset f) (bi_Start gap)"
  have f1: "frame_of B f1 \<and> frame_end f1 = ?en \<and> sf_Offset f1 = st"
  proof (cases "sf_Offset f < bi_Start gap")
    case True
    then have "unat (bi_Start gap - sf_Offset f) = unat (bi_Start gap) - unat (sf_Offset f)"
      by (simp add: unat_sub)
    moreover have "unat (bi_Start gap) < unat (sf_Offset f) + length (sf_Data f)"
      using gs(2) unat_frame_end [OF f(1)] by (simp add: word_less_nat_alt)
    ultimately show ?thesis
      using True drop_front_frame [OF f(1), of "bi_Start gap - sf_Offset f"] by (simp add: f1_def st_def)
  next
    case False
    then show ?thesis using f(1) by (simp add: f1_def st_def max_def)
  qed
  obtain eg after' q where fe: "find_end ?en True gap after ?q = Inr (eg, after', q)"
    using push skip by (auto simp: push_frame_def Let_def frame_end_def split: sum.splits if_splits)
  obtain mid h where h: "gap # after = mid @ h # after'" "bi_Start h < ?en"
    "?en < bi_End h \<or> bi_End h \<le> ?en \<and> (\<exists>n rest. after' = n # rest \<and> ?en \<le> bi_Start n)"
    "q = delete_ends mid ?q"
    "eg = (if mid = [] then SameGap else if ?en < bi_End h then LaterGap h else RemovedGap h)"
    using find_end_Inr [OF fe gs(2)] by auto
  have g: "gap = hd (mid @ [h])" using h(1) by (cases mid) auto
  have at: "gap_at gap eg = h" using h(1,5) by (cases mid) auto
  define en' where "en' = min ?en (bi_End h)"
  define f2 where "f2 = (if ?en > bi_End h
    then f1\<lparr>sf_Data := take (unat (StreamFrame_DataLen f1 - (?en - bi_End h))) (sf_Data f1)\<rparr> else f1)"
  define gaps' where "gaps' = update_gaps st en' pre gap eg after'"
  have 1: "(if sf_Offset f < bi_Start gap
       then let add = bi_Start gap - sf_Offset f in (sf_Offset f + add, drop_front add f)
       else (sf_Offset f, f)) = (st, f1)"
    by (auto simp: st_def f1_def Let_def max_def)
  have 2: "(if ?en > bi_End h
       then let cutLen = ?en - bi_End h; len = StreamFrame_DataLen f1 - cutLen
         in (?en - cutLen, f1\<lparr>sf_Data := take (unat len) (sf_Data f1)\<rparr>)
       else (?en, f1)) = (en', f2)"
    by (auto simp: en'_def f2_def Let_def min_def)
  have "push_frame f s = (if length gaps' > MaxStreamFrameSorterGaps
      then Inl (GoErr ''errTooManyGapsInReceivedStreamData'')
      else Inr (s\<lparr>fs_gaps := gaps', fs_queuedFrames := q(sf_Offset f2 \<mapsto> f2)\<rparr>))"
    unfolding push_frame_def frame_end_def [symmetric] Let_def skip sum.case prod.case
      1 [unfolded Let_def] fe at 2 [unfolded Let_def] gaps'_def ..
  then have s': "s' = s\<lparr>fs_gaps := gaps', fs_queuedFrames := q(sf_Offset f2 \<mapsto> f2)\<rparr>"
    using push by (simp split: if_splits)
  have st: "bi_Start gap \<le> st" "st < bi_End gap" "st < ?en" "sf_Offset f \<le> st"
    using lt gs(2) \<open>sf_Offset f < ?en\<close> gaps_ok_mem [OF ok, of gap] by (auto simp: st_def)
  have hm: "h \<in> set (gap # after)" "set mid \<subseteq> set (gap # after)" "set after' \<subseteq> set (gap # after)"
    unfolding h(1) by auto
  have ok': "gaps_ok (mid @ h # after')" using ok h(1) by simp
  have order: "(\<forall>m\<in>set mid. bi_End m < bi_Start h) \<and> (\<forall>n\<in>set after'. bi_End h < bi_Start n)"
    "\<forall>n\<in>set after'. bi_Start n < bi_End n"
    using ok' gaps_ok_mem [of after'] by (auto simp: gaps_ok_append)
  have after_gt: "?en \<le> bi_Start n" if "n \<in> set after'" for n
    using h(3)
  proof
    assume "?en < bi_End h"
    then show ?thesis using order(1) that by fastforce
  next
    assume "bi_End h \<le> ?en \<and> (\<exists>n rest. after' = n # rest \<and> ?en \<le> bi_Start n)"
    then obtain n0 rest where n0: "after' = n0 # rest" "?en \<le> bi_Start n0" by blast
    moreover have "bi_End n0 < bi_Start n" if "n \<in> set rest" using ok' n0 that by (auto simp: gaps_ok_append)
    ultimately show ?thesis using that order(2) by force
  qed
  have h_le: "bi_End gap \<le> bi_End h" "\<forall>m\<in>set mid. bi_End gap \<le> bi_End m"
  proof -
    have "bi_End gap \<le> bi_End m" if "m \<in> set (gap # after)" for m
      using that ok gaps_ok_mem [OF ok that] by fastforce
    then show "bi_End gap \<le> bi_End h" "\<forall>m\<in>set mid. bi_End gap \<le> bi_End m" using hm by blast+
  qed
  have en': "st < en'" "bi_Start h < en'" "en' \<le> bi_End h" "en' \<le> ?en"
    using st(2,3) h_le(1) h(2) gaps_ok_mem [OF ok hm(1)] by (auto simp: en'_def)
  have f2: "frame_of B f2 \<and> frame_end f2 = en' \<and> sf_Offset f2 = st"
  proof (cases "bi_End h < ?en")
    case True
    let ?n = "StreamFrame_DataLen f1 - (?en - bi_End h)"
    have "?en = st + StreamFrame_DataLen f1" using f1 by (metis frame_end_def)
    then have "StreamFrame_DataLen f1 = ?en - st" by simp
    then have n: "?n = bi_End h - st" by simp
    have "st < bi_End h" using en'(1,3) by simp
    then have "unat ?n = unat (bi_End h) - unat st" unfolding n by (simp add: unat_sub)
    moreover have "unat ?en = unat st + length (sf_Data f1)" using f1 unat_frame_end [of B f1] by auto
    ultimately have "unat ?n \<le> length (sf_Data f1)" using True by (simp add: word_less_nat_alt)
    note take = take_frame [OF _ this, of B]
    have "f2 = f1\<lparr>sf_Data := take (unat ?n) (sf_Data f1)\<rparr>" using True by (simp add: f2_def)
    moreover have "en' = st + ?n" using True unfolding n by (simp add: en'_def)
    ultimately show ?thesis using take f1 by metis
  next
    case False
    then show ?thesis using f1 by (simp add: f2_def en'_def min_def not_less)
  qed
  then have "sf_Data f2 \<noteq> []" using en'(1) by (auto simp: frame_end_def StreamFrame_DataLen_def)
  have gaps': "gaps' = pre @ cut_gaps st en' gap h @ after'"
    unfolding gaps'_def en'_def
    by (rule update_gaps_eq [OF i(1) [unfolded gs(1)] h(1,5) st(1,2) h(2)])
  have nxt: "en' < bi_End h \<or> (\<forall>n\<in>set after'. en' \<le> bi_Start n)"
    using en'(4) after_gt by fastforce
  note cut = cut_gaps_correct [OF i(1) [unfolded gs(1) h(1)] g st(1,2) en'(2,3,1) nxt, folded h(1) gs(1) gaps']
  have "st \<le> x \<and> x < en'" if x: "x \<in> gap_set (fs_gaps s)" "sf_Offset f \<le> x" "x < ?en" for x
  proof -
    have "x \<notin> gap_set pre" using gap_set_less [of pre "sf_Offset f" x] gs(4) x(2) by fastforce
    moreover have "x \<notin> gap_set after'" using gap_set_ge [of after' ?en x] after_gt x(3) by fastforce
    ultimately have m: "x \<in> gap_set (mid @ [h])" using x(1) gs(1) h(1) by auto
    have "bi_Start gap \<le> bi_Start m" if "m \<in> set (gap # after)" for m
      using that ok gaps_ok_mem [OF ok, of gap] by fastforce
    then have "bi_Start gap \<le> x" using gap_set_ge [of "mid @ [h]" "bi_Start gap" x] m hm by fastforce
    moreover have "x < bi_End h" using gap_set_less [of "mid @ [h]" "bi_End h" x] m order(1)
        gaps_ok_mem [OF ok hm(1)] by fastforce
    ultimately show ?thesis using x by (simp add: st_def en'_def)
  qed
  then have same: "gap_set (fs_gaps s) - {st..<en'} = gap_set (fs_gaps s) - frame_range f"
    using st(4) en'(4) by (auto simp: frame_range_def)
  have "push_step B F (fs_readPosition s) (fs_gaps s) ?q f2 gaps' (q(sf_Offset f2 \<mapsto> f2))"
    unfolding push_step_def
  proof (intro conjI)
    show "unat (frame_end f2) \<le> F" using f2 f(2) en'(4) by (simp add: word_le_nat_alt)
    show "sf_Offset f2 \<in> gap_set (fs_gaps s)" using f2 st(1,2) by (simp add: gs(1))
    show "gap_set gaps' = gap_set (fs_gaps s) - frame_range f2" using cut(2) f2 by (simp add: frame_range_def)
    show "\<exists>mid. q(sf_Offset f2 \<mapsto> f2) = (delete_ends mid ?q)(sf_Offset f2 \<mapsto> f2) \<and>
        (\<forall>g\<in>set mid. sf_Offset f2 < bi_End g \<and> bi_End g < frame_end f2)"
      using h(4) f2 h_le(2) order(1) en'(2) st(2) by (intro exI [of _ mid]) fastforce
    show "frame_end f2 \<in> gap_set (fs_gaps s) \<or>
        (\<exists>g\<in>set (fs_gaps s). bi_End g = frame_end f2 \<and> bi_End g \<noteq> MaxByteCount)"
    proof (cases "en' < bi_End h")
      case True
      then show ?thesis using f2 en'(2) by (simp add: gs(1) h(1) less_imp_le)
    next
      case False
      then obtain n rest where "after' = n # rest" "en' = bi_End h" using h(3) en'(3) by (auto simp: en'_def)
      then have "bi_End h \<noteq> MaxByteCount" using order(1) le_MaxByteCount [of "bi_Start n"] by fastforce
      then show ?thesis using f2 \<open>en' = bi_End h\<close> by (auto simp: gs(1) h(1))
    qed
  qed (use i f2 \<open>sf_Data f2 \<noteq> []\<close> cut(3) in auto)
  note step = push_step_queue [OF this] push_step_bounds [OF this] push_step_head [OF this]
  have "bi_End (last (h # after')) = MaxByteCount" using i(3) by (simp add: gs(1) h(1))
  moreover have "after' = [] \<longrightarrow> en' < bi_End h" using h(3) by (auto simp: en'_def)
  ultimately have "gaps' \<noteq> [] \<and> bi_End (last gaps') = MaxByteCount"
    by (cases "after' = []") (simp_all add: gaps' cut_gaps_def)
  moreover have "\<forall>x\<in>gap_set gaps'. fs_readPosition s \<le> x" using i(6) cut(2) by simp
  ultimately show ?thesis
    using step cut(1,2) same by (simp add: sorter_inv_def s' keeps_head_def Head_def)
qed

lemma push_frame_Inl:
  assumes inv: "sorter_inv B F s" and f: "frame_of B f" "sf_Data f \<noteq> []"
    and push: "push_frame f s = Inl e"
  shows "e = errDuplicateStreamData \<and> frame_range f \<inter> gap_set (fs_gaps s) = {} \<or>
    e = GoErr ''errTooManyGapsInReceivedStreamData'' \<or> frame_end f = MaxByteCount"
proof -
  note i = sorter_invD [OF inv]
  let ?en = "frame_end f"
  show ?thesis
  proof (cases "skip_gaps (sf_Offset f) ?en [] (fs_gaps s)")
    case (Inl e')
    then have "e = e'" using push by (simp add: push_frame_def Let_def frame_end_def)
    moreover have "\<not> (\<forall>g\<in>set (fs_gaps s). bi_End g < sf_Offset f)"
      using i(2,3) le_MaxByteCount [of "sf_Offset f"] by (metis last_in_set not_less)
    ultimately show ?thesis using skip_gaps_Inl [OF Inl i(1)] unfolding frame_range_def by blast
  next
    case (Inr r)
    obtain pre gap after where r: "r = (pre, gap, after)" by (cases r)
    have gs: "fs_gaps s = pre @ gap # after" using skip_gaps_Inr [OF Inr [unfolded r]] by auto
    show ?thesis
    proof (cases "find_end ?en True gap after (fs_queuedFrames s)")
      case Inl2: (Inl e')
      have "bi_End (last (gap # after)) = MaxByteCount" using i(3) by (simp add: gs)
      then have "frame_end f = MaxByteCount"
        using find_end_Inl [OF Inl2] le_MaxByteCount [of ?en] by simp
      then show ?thesis by simp
    next
      case Inr2: (Inr r2)
      then show ?thesis
        using push Inr r by (auto simp: push_frame_def Let_def frame_end_def split: prod.splits if_splits)
    qed
  qed
qed

text \<open>A frame of the stream with final size \<open>F\<close>; an empty frame marks the end.\<close>

definition stream_frame :: "(nat \<Rightarrow> u8) \<Rightarrow> nat \<Rightarrow> StreamFrame \<Rightarrow> bool" where
  "stream_frame B F f \<longleftrightarrow> frame_of B f \<and> unat (frame_end f) \<le> F \<and> frame_end f < MaxByteCount \<and>
     (sf_Data f = [] \<longrightarrow> sf_FinBit f \<and> unat (sf_Offset f) = F)"

lemma push_empty:
  assumes inv: "sorter_inv B F s" and f: "stream_frame B F f" "sf_Data f = []"
  shows "\<exists>s'. Push f s = Inr s' \<and> sorter_inv B F s' \<and> fs_gaps s' = fs_gaps s \<and>
    fs_readPosition s' = fs_readPosition s \<and> keeps_head s s'"
proof -
  note i = sorter_invD [OF inv]
  let ?q = "fs_queuedFrames s" and ?q' = "(fs_queuedFrames s)(sf_Offset f \<mapsto> f)"
  have fo: "frame_of B f" "unat (sf_Offset f) = F" "sf_FinBit f" "frame_end f = sf_Offset f"
    using f by (auto simp: stream_frame_def frame_end_def StreamFrame_DataLen_def)
  have empty: "sf_Data g = []" if "?q (sf_Offset f) = Some g" for g
    using queue_okD [OF i(4) that] fo(2) by (metis not_less word_less_nat_alt)
  have kept: "?q' p = Some g \<Longrightarrow> sf_Data g \<noteq> [] \<Longrightarrow> ?q p = Some g"
    "?q p = Some g \<Longrightarrow> sf_Data g \<noteq> [] \<Longrightarrow> ?q' p = Some g" for p g
    using f(2) empty by (auto split: if_splits)
  have "live rp (fs_gaps s) ?q p" if "live rp (fs_gaps s) ?q' p" for rp p
    using that by (induction rule: live.induct) (use kept(1) in \<open>blast intro: live.intros\<close>)+
  then have b: "bounds_ok (fs_readPosition s) (fs_gaps s) ?q'"
    using i(5) kept(2) unfolding bounds_ok_def by blast
  have "queue_ok B F (fs_gaps s) ?q'"
    using i(4) fo f(2) f(1) by (auto simp: queue_ok_def frame_range_def stream_frame_def)
  then have "sorter_inv B F (s\<lparr>fs_queuedFrames := ?q'\<rparr>)" using i b by (simp add: sorter_inv_def)
  moreover have "Push f s = Inr (s\<lparr>fs_queuedFrames := ?q'\<rparr>)"
    using f(2) fo(3) by (simp add: Push_def StreamFrame_DataLen_def)
  moreover have "keeps_head s (s\<lparr>fs_queuedFrames := ?q'\<rparr>)" using kept(2) by (simp add: keeps_head_def Head_def)
  ultimately show ?thesis by simp
qed

text \<open>What \<open>Push\<close> does with a frame of the stream.\<close>

lemma push_correct:
  assumes inv: "sorter_inv B F s" and f: "stream_frame B F f"
  shows "(\<exists>s'. Push f s = Inr s' \<and> sorter_inv B F s' \<and>
      gap_set (fs_gaps s') = gap_set (fs_gaps s) - frame_range f \<and> fs_readPosition s' = fs_readPosition s \<and>
      keeps_head s s') \<or>
    (Push f s = Inl errDuplicateStreamData \<and> frame_range f \<inter> gap_set (fs_gaps s) = {}) \<or>
    Push f s = Inl (GoErr ''errTooManyGapsInReceivedStreamData'')"
proof (cases "sf_Data f = []")
  case True
  then have "frame_range f = {}" by (simp add: frame_range_def frame_end_def StreamFrame_DataLen_def)
  then show ?thesis using push_empty [OF inv f True] by auto
next
  case False
  note i = sorter_invD [OF inv]
  have fo: "frame_of B f" "unat (frame_end f) \<le> F" "frame_end f < MaxByteCount"
    using f by (simp_all add: stream_frame_def)
  have "StreamFrame_DataLen f \<noteq> 0" using False DataLen_0 [OF fo(1)] by simp
  show ?thesis
  proof (cases "fs_queuedFrames s (sf_Offset f)")
    case None
    have push: "Push f s = push_frame f s"
      using None \<open>StreamFrame_DataLen f \<noteq> 0\<close> by (simp add: Push_def)
    have "bi_End g = MaxByteCount" if "g \<in> set (fs_gaps s)" "bi_End g = sf_Offset f" for g
    proof (rule ccontr)
      assume "bi_End g \<noteq> MaxByteCount"
      then have "live (fs_readPosition s) (fs_gaps s) (fs_queuedFrames s) (bi_End g)"
        using that(1) by (rule live.gap [rotated])
      then show False using i(5) None that gap_end_notin [OF i(1) that(1)] unfolding bounds_ok_def by fastforce
    qed
    then have "push_frame f s = Inl e \<Longrightarrow> ?thesis" "push_frame f s = Inr s' \<Longrightarrow> ?thesis" for e s'
      using push_frame_Inl [OF inv fo(1) False] push_frame_Inr [OF inv fo(1,2) False] fo(3) push by auto
    then show ?thesis by (cases "push_frame f s") blast+
  next
    case (Some old)
    note old = queue_okD [OF i(4) Some]
    show ?thesis
    proof (cases "StreamFrame_DataLen f \<le> StreamFrame_DataLen old")
      case True
      then have "length (sf_Data f) \<le> length (sf_Data old)"
        using unat_DataLen [OF fo(1)] unat_DataLen [OF old(2)] by (simp add: word_le_nat_alt)
      then have "frame_end f \<le> frame_end old"
        using unat_frame_end [OF fo(1)] unat_frame_end [OF old(2)] old(1) by (simp add: word_le_nat_alt)
      then have "frame_range f \<subseteq> frame_range old" using old(1) by (auto simp: frame_range_def)
      then show ?thesis using True Some old(5) \<open>StreamFrame_DataLen f \<noteq> 0\<close> by (auto simp: Push_def)
    next
      case longer: False
      define f' where "f' = drop_front (StreamFrame_DataLen old) f"
      have len: "length (sf_Data old) < length (sf_Data f)"
        using longer unat_DataLen [OF fo(1)] unat_DataLen [OF old(2)] by (simp add: word_le_nat_alt)
      have "sf_Data old \<noteq> []"
      proof
        assume "sf_Data old = []"
        then have "unat (sf_Offset f) = F" using old(4) by simp
        then show False using frame_end_gt [OF fo(1) False] fo(2) by (simp add: word_less_nat_alt)
      qed
      note oldne = old(6) [OF this]
      have "unat (StreamFrame_DataLen old) \<le> length (sf_Data f)" using len unat_DataLen [OF old(2)] by simp
      note d = drop_front_frame [OF fo(1) this, folded f'_def]
      have o: "sf_Offset f' = frame_end old" using d(3) old(1) by (simp add: frame_end_def)
      have ne: "sf_Data f' \<noteq> []" using d(4) len unat_DataLen [OF old(2)] by auto
      have range: "frame_range f = frame_range old \<union> frame_range f'"
        using o d(2) old(1) oldne frame_end_gt [OF d(1) ne] by (auto simp: frame_range_def)
      have "bi_End g = MaxByteCount" if "g \<in> set (fs_gaps s)" "bi_End g = sf_Offset f'" for g
      proof -
        have "max (sf_Offset old) (bi_Start g) \<in> frame_range old \<inter> gap_set (fs_gaps s)"
          using that o oldne old(1) gaps_ok_mem [OF i(1) that(1)] gap_in [OF i(1) that(1)]
          by (auto simp: frame_range_def max_def)
        then show ?thesis using old(5) by auto
      qed
      then have "push_frame f' s = Inl e \<Longrightarrow> ?thesis" "push_frame f' s = Inr s' \<Longrightarrow> ?thesis" for e s'
        using push_frame_Inl [OF inv d(1) ne] push_frame_Inr [OF inv d(1) _ ne] fo(2,3) d(2)
          Some longer \<open>StreamFrame_DataLen f \<noteq> 0\<close> range old(5)
        by (auto simp: Push_def f'_def [symmetric])
      then show ?thesis by (cases "push_frame f' s") blast+
    qed
  qed
qed

lemma head_iff:
  assumes "sorter_inv B F s"
  shows "(\<exists>f. Head s = Some f \<and> sf_Data f \<noteq> []) \<longleftrightarrow> fs_readPosition s \<notin> gap_set (fs_gaps s)"
proof -
  note i = sorter_invD [OF assms]
  have "live (fs_readPosition s) (fs_gaps s) (fs_queuedFrames s) (fs_readPosition s)" by (rule live.read)
  then show ?thesis using i(5) queue_okD(7) [OF i(4)] unfolding bounds_ok_def Head_def by blast
qed

lemma pop_live:
  assumes inv: "sorter_inv B F s" and f: "fs_queuedFrames s (fs_readPosition s) = Some f" "sf_Data f \<noteq> []"
    and "live (frame_end f) (fs_gaps s) ((fs_queuedFrames s)(fs_readPosition s := None)) p"
  shows "live (fs_readPosition s) (fs_gaps s) (fs_queuedFrames s) p \<and> fs_readPosition s < p"
  using assms(4)
proof (induction rule: live.induct)
  case read
  have "live (fs_readPosition s) (fs_gaps s) (fs_queuedFrames s) (fs_readPosition s)" by (rule live.read)
  from live.frame [OF this f] show ?case using queue_okD(6) [OF sorter_invD(4) [OF inv] f(1)] f(2) by simp
next
  case (gap g)
  have "bi_Start g < bi_End g" "bi_Start g \<in> gap_set (fs_gaps s)"
    using gaps_ok_mem [OF sorter_invD(1) [OF inv] gap(1)] gap(1) by (auto simp: gap_set_def)
  then have "fs_readPosition s < bi_End g" using sorter_invD(6) [OF inv] by fastforce
  then show ?case using gap live.gap by metis
next
  case (frame p g)
  then have "fs_queuedFrames s p = Some g" by (auto split: if_splits)
  then show ?case
    using frame live.frame [of _ _ "fs_queuedFrames s" p g] queue_okD(6) [OF sorter_invD(4) [OF inv]] by fastforce
qed

lemma pop_correct:
  assumes inv: "sorter_inv B F s" and pop: "Pop s = (Some f, s')"
  shows "sorter_inv B F s' \<and> fs_gaps s' = fs_gaps s \<and>
    unat (fs_readPosition s') = unat (fs_readPosition s) + length (sf_Data f) \<and>
    sf_Data f = map B [unat (fs_readPosition s)..<unat (fs_readPosition s')]"
proof -
  note i = sorter_invD [OF inv]
  let ?rp = "fs_readPosition s" and ?q = "fs_queuedFrames s"
  have h: "?q ?rp = Some f" "s' = s\<lparr>fs_readPosition := ?rp + StreamFrame_DataLen f, fs_queuedFrames := ?q(sf_Offset f := None)\<rparr>"
    using pop by (auto simp: Pop_def Head_def split: option.splits)
  note f = queue_okD [OF i(4) h(1)]
  have s': "s' = s\<lparr>fs_readPosition := frame_end f, fs_queuedFrames := ?q(?rp := None)\<rparr>"
    using h(2) f(1) by (simp add: frame_end_def)
  have rp': "unat (frame_end f) = unat ?rp + length (sf_Data f)" using unat_frame_end [OF f(2)] f(1) by simp
  have data: "sf_Data f = map B [unat ?rp..<unat (frame_end f)]"
    using f(1,2) by (intro nth_equalityI) (simp_all add: rp' frame_of_def)
  have q: "queue_ok B F (fs_gaps s) (?q(?rp := None))" using i(4) by (simp add: queue_ok_def)
  have "bounds_ok (frame_end f) (fs_gaps s) (?q(?rp := None)) \<and> (\<forall>x\<in>gap_set (fs_gaps s). frame_end f \<le> x)"
  proof (cases "sf_Data f = []")
    case True
    then have e: "frame_end f = ?rp" using rp' by (intro unat_eqI) simp
    have "live ?rp (fs_gaps s) ?q p" if "live ?rp (fs_gaps s) (?q(?rp := None)) p" for p
      using that by (induction rule: live.induct) (auto intro: live.intros split: if_splits)
    then show ?thesis using i(5,6) h(1) True unfolding e bounds_ok_def by fastforce
  next
    case False
    have "p \<in> gap_set (fs_gaps s) \<or> (\<exists>g. (?q(?rp := None)) p = Some g \<and> sf_Data g \<noteq> [])"
      if "live (frame_end f) (fs_gaps s) (?q(?rp := None)) p" for p
      using pop_live [OF inv h(1) False that] i(5) unfolding bounds_ok_def by auto
    moreover have "frame_end f \<le> x" if "x \<in> gap_set (fs_gaps s)" for x
    proof (rule ccontr)
      assume "\<not> frame_end f \<le> x"
      then have "x \<in> frame_range f" using i(6) that f(1) by (auto simp: frame_range_def)
      then show False using f(5) that by blast
    qed
    ultimately show ?thesis by (simp add: bounds_ok_def)
  qed
  then show ?thesis using i q rp' data by (simp add: s' sorter_inv_def)
qed

subsection \<open>Runs of the sorter\<close>

text \<open>
  \<open>sorter_run B F R out s\<close>: from the new sorter, frames of the stream with bytes \<open>B\<close> and final size \<open>F\<close> were
  pushed and frames popped in any order, without an error that closes the session; the frames
  pushed hold the positions \<open>R\<close>, and the data popped are \<open>out\<close>.
\<close>

inductive sorter_run :: "(nat \<Rightarrow> u8) \<Rightarrow> nat \<Rightarrow> u64 set \<Rightarrow> u8 list \<Rightarrow> streamFrameSorter \<Rightarrow> bool" for B F where
  start: "sorter_run B F {} [] newStreamFrameSorter"
| push: "\<lbrakk> sorter_run B F R out s; stream_frame B F f; Push f s = Inr s' \<rbrakk> \<Longrightarrow>
    sorter_run B F (R \<union> frame_range f) out s'"
| duplicate: "\<lbrakk> sorter_run B F R out s; stream_frame B F f; Push f s = Inl errDuplicateStreamData \<rbrakk> \<Longrightarrow>
    sorter_run B F (R \<union> frame_range f) out s"
| pop: "\<lbrakk> sorter_run B F R out s; Pop s = (Some f, s') \<rbrakk> \<Longrightarrow> sorter_run B F R (out @ sf_Data f) s'"

lemma sorter_run_inv:
  assumes "sorter_run B F R out s"
  shows "sorter_inv B F s \<and> gap_set (fs_gaps s) = {x. x < MaxByteCount \<and> x \<notin> R} \<and>
    unat (fs_readPosition s) = length out \<and> map B [0..<length out] = out"
  using assms
proof (induction rule: sorter_run.induct)
  case start
  then show ?case using sorter_inv_new by (auto simp: newStreamFrameSorter_def)
next
  case (push R out s f s')
  then show ?case using push_correct [of B F s f] by auto
next
  case (duplicate R out s f)
  then show ?case using push_correct [of B F s f] by (auto simp: errDuplicateStreamData_def)
next
  case (pop R out s f s')
  let ?n = "length out" and ?m = "length (out @ sf_Data f)"
  note inv = conjunct1 [OF pop.IH] and gap = conjunct1 [OF conjunct2 [OF pop.IH]]
    and len = conjunct1 [OF conjunct2 [OF conjunct2 [OF pop.IH]]]
    and eq = conjunct2 [OF conjunct2 [OF conjunct2 [OF pop.IH]]]
  note p = pop_correct [OF inv pop(2)]
  have "unat (fs_readPosition s') = unat (fs_readPosition s) + length (sf_Data f)" using p by blast
  then have m: "unat (fs_readPosition s') = ?m" unfolding len by simp
  have "sf_Data f = map B [unat (fs_readPosition s)..<unat (fs_readPosition s')]" using p by blast
  then have d: "sf_Data f = map B [?n..<?m]" unfolding m len .
  have "map B [0..<?m] = map B [0..<?n] @ map B [?n..<?m]"
    using upt_add_eq_append [of 0 "?n" "length (sf_Data f)"] by simp
  also have "\<dots> = out @ sf_Data f" unfolding eq d [symmetric] ..
  finally have "map B [0..<?m] = out @ sf_Data f" .
  then show ?case using conjunct1 [OF p] conjunct1 [OF conjunct2 [OF p]] m gap by metis
qed

text \<open>
  C2. The sorter delivers the stream. Whatever frames of a stream arrive, in any order, repeated, split
  and overlapping in any way, and whenever frames are taken out: what was taken out is exactly the
  beginning of the stream, and the next frame is ready to be taken as soon as its first byte has
  arrived, in whatever frame. A frame of the stream is refused as a duplicate only when all its
  bytes have arrived before, and otherwise only when more than 2500 gaps would be kept.
\<close>
theorem sorter_delivers:
  assumes "sorter_run B F R out s"
  shows "map B [0..<length out] = out \<and> unat (fs_readPosition s) = length out \<and>
    (fs_readPosition s < MaxByteCount \<longrightarrow>
      ((\<exists>f. fst (Pop s) = Some f \<and> sf_Data f \<noteq> []) \<longleftrightarrow> fs_readPosition s \<in> R)) \<and>
    (\<forall>f e. stream_frame B F f \<and> Push f s = Inl e \<longrightarrow>
      (if e = errDuplicateStreamData then frame_range f \<subseteq> R
       else e = GoErr ''errTooManyGapsInReceivedStreamData''))"
proof -
  note r = sorter_run_inv [OF assms]
  note inv = conjunct1 [OF r] and gap = conjunct1 [OF conjunct2 [OF r]]
    and out = conjunct1 [OF conjunct2 [OF conjunct2 [OF r]]] conjunct2 [OF conjunct2 [OF conjunct2 [OF r]]]
  have "fst (Pop s) = Head s" by (simp add: Pop_def split: option.splits)
  then have "(\<exists>f. fst (Pop s) = Some f \<and> sf_Data f \<noteq> []) \<longleftrightarrow> fs_readPosition s \<notin> gap_set (fs_gaps s)"
    using head_iff [OF inv] by simp
  moreover have covered: "frame_range f \<subseteq> R" if "stream_frame B F f" "frame_range f \<inter> gap_set (fs_gaps s) = {}" for f
  proof
    fix x assume x: "x \<in> frame_range f"
    then have "x < MaxByteCount" using that(1) by (auto simp: stream_frame_def frame_range_def)
    then show "x \<in> R" using x that(2) unfolding gap by blast
  qed
  moreover have "if e = errDuplicateStreamData then frame_range f \<subseteq> R
      else e = GoErr ''errTooManyGapsInReceivedStreamData''"
    if f: "stream_frame B F f" and e: "Push f s = Inl e" for f e
  proof -
    from push_correct [OF inv f] e
    have "e = errDuplicateStreamData \<and> frame_range f \<inter> gap_set (fs_gaps s) = {} \<or>
      e = GoErr ''errTooManyGapsInReceivedStreamData''" by auto
    then show ?thesis
      using covered [OF f] by (auto simp: errDuplicateStreamData_def)
  qed
  ultimately show ?thesis using out unfolding gap by blast
qed

definition piece :: "u64 \<Rightarrow> u8 list \<Rightarrow> bool \<Rightarrow> StreamFrame" where
  "piece off data fin = \<lparr> sf_StreamID = 5, sf_FinBit = fin, sf_DataLenPresent = True, sf_Offset = off,
     sf_LossCount = 0, sf_PathID = 0, sf_TimeStamp = 0, sf_Data = data \<rparr>"

lemmas sorter_eval =
  newStreamFrameSorter_def Push_def push_frame_def piece_def StreamFrame_DataLen_def MaxByteCount_def
  Let_def update_gaps_def later_gap_def drop_front_def MaxStreamFrameSorterGaps_def

lemma piece_stream_frame:
  assumes "unat off + length data < 2 ^ 64 - 1" "unat off + length data \<le> F"
    and "data = map B [unat off..<unat off + length data]" "data \<noteq> []"
  shows "stream_frame B F (piece off data fin)"
proof -
  have "data ! i = B (unat off + i)" if "i < length data" for i
    using arg_cong [OF assms(3), of "\<lambda>l. l ! i"] that by simp
  then have f: "frame_of B (piece off data fin)" using assms(1) by (simp add: frame_of_def piece_def)
  show ?thesis
    using f unat_frame_end [OF f] assms
    by (simp add: stream_frame_def piece_def word_less_nat_alt MaxByteCount_def)
qed

definition sorter_example :: streamFrameSorter where
  "sorter_example = projr (Push (piece 0 [0, 1, 2] False) (projr (Push (piece 2 [2, 3] False) newStreamFrameSorter)))"

lemma sorter_example_run:
  "sorter_run of_nat 12 ({2..<4} \<union> {0..<3}) [] sorter_example"
proof -
  have f: "stream_frame of_nat 12 (piece 2 [2, 3] False)" "stream_frame of_nat 12 (piece 0 [0, 1, 2] False)"
    by (rule piece_stream_frame; simp)+
  have r: "frame_range (piece 2 [2, 3] False) = {2..<4}" "frame_range (piece 0 [0, 1, 2] False) = {0..<3}"
    by (simp_all add: frame_range_def frame_end_def piece_def StreamFrame_DataLen_def)
  define s1 where "s1 = projr (Push (piece 2 [2, 3] False) newStreamFrameSorter)"
  have 1: "Push (piece 2 [2, 3] False) newStreamFrameSorter = Inr s1"
    by (simp add: s1_def sorter_eval)
  have 2: "Push (piece 0 [0, 1, 2] False) s1 = Inr sorter_example"
    by (simp add: sorter_example_def s1_def sorter_eval)
  from sorter_run.push [OF sorter_run.push [OF sorter_run.start f(1) 1] f(2) 2] r
  show ?thesis by simp
qed

lemma sorter_delivers_witness:
  "(\<exists>f. fst (Pop sorter_example) = Some f \<and> sf_Data f = [0, 1]) \<and>
   Push (piece 1 [1, 2] False) sorter_example = Inl errDuplicateStreamData \<and>
   frame_range (piece 1 [1, 2] False) \<subseteq> {2..<4} \<union> {0..<3}"
proof -
  have e: "fst (Pop sorter_example) = Some (piece 0 [0, 1] False)"
    by (simp add: sorter_example_def sorter_eval Pop_def Head_def)
  have f: "stream_frame of_nat 12 (piece 1 [1, 2] False)"
    by (rule piece_stream_frame; simp)
  have d: "Push (piece 1 [1, 2] False) sorter_example = Inl errDuplicateStreamData"
    by (simp add: sorter_example_def sorter_eval)
  from sorter_delivers [OF sorter_example_run] f d
  have "frame_range (piece 1 [1, 2] False) \<subseteq> {2..<4} \<union> {0..<3}" by (metis (no_types))
  then show ?thesis using e d by (simp add: piece_def)
qed

text \<open>
  The end of a stream can be reported too early. A frame that overlaps data that arrived before
  it is cut at its end but keeps its FIN bit: when the last two bytes of a stream of 12 bytes
  arrive first, and then, sent again in one frame, the bytes from 5 to the end, the frame that is
  queued at 5 ends at 10 and still says that the stream ends there.
\<close>
theorem sorter_cut_keeps_fin:
  "\<exists>s1 s2 s3 f g. Push (piece 10 [10, 11] True) newStreamFrameSorter = Inr s1 \<and>
     Push (piece 5 [5, 6, 7, 8, 9, 10, 11] True) s1 = Inr s2 \<and> Push (piece 0 [0, 1, 2, 3, 4] False) s2 = Inr s3 \<and>
     fst (Pop s3) = Some f \<and> fst (Pop (snd (Pop s3))) = Some g \<and>
     sf_FinBit g \<and> frame_end g = 10"
  by (simp add: sorter_eval Pop_def Head_def frame_end_def)

end
