(* ===== verification/Handshake_Msg.thy ===== *)
theory Handshake_Msg
  imports Byte_Order "HOL-Library.AList" "HOL-Library.Multiset"
begin

section \<open>Handshake messages and public resets\<close>

text \<open>
  The tag-value messages of the crypto handshake (\<open>internal/handshake/handshake_message.go\<close>, with the
  tags of \<open>tags.go\<close> that the modelled code uses) and the public reset packet built on them
  (\<open>internal/wire/public_reset.go\<close>). A Go map is an association list in the order a \<open>range\<close>
  statement happens to visit it; \<open>map_of\<close> is the lookup and \<open>AList.update\<close> the assignment.
\<close>

subsection \<open>\<open>tags.go\<close>\<close>

type_synonym Tag = u32
type_synonym tag_map = "(Tag \<times> u8 list) list"

text \<open>\<open>'C' + 'H'<<8 + 'L'<<16 + 'O'<<24\<close>.\<close>

definition mk_tag :: "string \<Rightarrow> Tag" where
  "mk_tag s = le_val (map of_char s)"

definition TagTCID :: Tag where "TagTCID = mk_tag ''TCID''"
definition TagMSPC :: Tag where "TagMSPC = mk_tag ''MSPC''"
definition TagMIDS :: Tag where "TagMIDS = mk_tag ''MIDS''"
definition TagICSL :: Tag where "TagICSL = mk_tag ''ICSL''"
definition TagSFCW :: Tag where "TagSFCW = mk_tag ''SFCW''"
definition TagCFCW :: Tag where "TagCFCW = mk_tag ''CFCW''"
definition TagPRST :: Tag where "TagPRST = mk_tag ''PRST''"
definition TagRSEQ :: Tag where "TagRSEQ = mk_tag ''RSEQ''"
definition TagRNON :: Tag where "TagRNON = mk_tag ''RNON''"

lemma tag_values [simp]:
  "TagTCID = 0x44494354" "TagMSPC = 0x4350534D" "TagMIDS = 0x5344494D" "TagICSL = 0x4C534349"
  "TagSFCW = 0x57434653" "TagCFCW = 0x57434643" "TagPRST = 0x54535250" "TagRSEQ = 0x51455352"
  "TagRNON = 0x4E4F4E52"
  by (simp_all add: TagTCID_def TagMSPC_def TagMIDS_def TagICSL_def TagSFCW_def TagCFCW_def
      TagPRST_def TagRSEQ_def TagRNON_def mk_tag_def)

subsection \<open>\<open>handshake_message.go\<close>\<close>

definition CryptoMaxParams :: u32 where "CryptoMaxParams = 128"

definition CryptoParameterMaxLength :: u32 where "CryptoParameterMaxLength = 4000"

record HandshakeMessage =
  hm_Tag :: Tag
  hm_Data :: tag_map

text \<open>
  The loop over the index: \<open>index\<close> is what is left of it, \<open>n\<close> the number of pairs it holds,
  \<open>dataStart\<close> the end of the value before.
\<close>

fun parse_pairs :: "nat \<Rightarrow> u8 list \<Rightarrow> u32 \<Rightarrow> tag_map \<Rightarrow> tag_map parser" where
  "parse_pairs 0 index dataStart resultMap = pret resultMap"
| "parse_pairs (Suc n) index dataStart resultMap =
     (let tag = le_val (take 4 index); dataEnd = le_val (take 4 (drop 4 index));
          dataLen = dataEnd - dataStart
      in pbind (pguard (\<not> dataLen > CryptoParameterMaxLength) (QErr ''CryptoInvalidValueLength'')) (\<lambda>_.
         pbind (readFull (unat dataLen)) (\<lambda>data.
         parse_pairs n (drop 8 index) dataEnd (AList.update tag data resultMap))))"

definition ParseHandshakeMessage :: "HandshakeMessage parser" where
  "ParseHandshakeMessage =
     pbind (readFull 4) (\<lambda>s1.
     pbind (readFull 4) (\<lambda>s2.
     let messageTag = le_val s1; nPairs = le_val s2 :: u32
     in pbind (pguard (\<not> nPairs > CryptoMaxParams) (QErr ''CryptoTooManyEntries'')) (\<lambda>_.
        pbind (readFull (unat (nPairs * 8))) (\<lambda>index.
        pbind (parse_pairs (unat nPairs) index 0 []) (\<lambda>resultMap.
        pret \<lparr> hm_Tag = messageTag, hm_Data = resultMap \<rparr>)))))"

definition getTagsSorted :: "HandshakeMessage \<Rightarrow> Tag list" where
  "getTagsSorted h = sort (map fst (hm_Data h))"

text \<open>The loop of \<open>Write\<close>: what is written to the index and what is written behind it.\<close>

fun write_pairs :: "tag_map \<Rightarrow> u32 \<Rightarrow> Tag list \<Rightarrow> u8 list \<times> u8 list" where
  "write_pairs data offset [] = ([], [])"
| "write_pairs data offset (t # ts) =
     (let v = (case map_of data t of None \<Rightarrow> [] | Some v \<Rightarrow> v);
          offset' = offset + of_nat (length v);
          (indexData, values) = write_pairs data offset' ts
      in (le_bytes 4 t @ le_bytes 4 offset' @ indexData, v @ values))"

definition HandshakeMessage_Write :: "HandshakeMessage \<Rightarrow> writer" where
  "HandshakeMessage_Write h =
     (let (indexData, values) = write_pairs (hm_Data h) 0 (getTagsSorted h)
      in wseq [le_WriteUint32 (hm_Tag h), le_WriteUint16 (of_nat (length (hm_Data h))), le_WriteUint16 0,
               wbytes indexData, wbytes values])"

subsection \<open>Reading back a message\<close>

lemma le_bytes_numeral: "le_bytes (numeral k) x = ucast x # le_bytes (pred_numeral k) (drop_bit 8 x)"
  by (simp add: numeral_eq_Suc)

text \<open>A message the parser accepts: distinct tags, at most 128, with values of at most 4000 bytes.\<close>

definition HandshakeMessage_valid :: "HandshakeMessage \<Rightarrow> bool" where
  "HandshakeMessage_valid h \<longleftrightarrow>
     distinct (map fst (hm_Data h)) \<and> length (hm_Data h) \<le> 128 \<and>
     (\<forall>(t, v) \<in> set (hm_Data h). length v \<le> 4000)"

definition lookup_all :: "tag_map \<Rightarrow> Tag list \<Rightarrow> tag_map" where
  "lookup_all data ts = map (\<lambda>t. (t, case map_of data t of None \<Rightarrow> [] | Some v \<Rightarrow> v)) ts"

lemma length_write_index: "length (fst (write_pairs data off ts)) = 8 * length ts"
  by (induction ts arbitrary: off) (simp_all add: Let_def case_prod_beta)

lemma update_new_key: "t \<notin> fst ` set m \<Longrightarrow> AList.update t v m = m @ [(t, v)]"
  by (induction m) auto

lemma le_val_full: "le_val (le_bytes 4 (x :: u32)) = x"
  by (rule bit_word_eqI) (simp add: le_val_le_bytes bit_simps)

lemma parse_write_pairs:
  assumes "\<forall>t\<in>set ts. \<exists>v. map_of data t = Some v \<and> length v \<le> 4000"
    and "distinct ts" "\<forall>t\<in>set ts. t \<notin> fst ` set m"
  shows "parse_pairs (length ts) (fst (write_pairs data off ts)) off m (snd (write_pairs data off ts) @ r)
    = Inr (m @ lookup_all data ts, r)"
  using assms
proof (induction ts arbitrary: off m)
  case Nil
  then show ?case by (simp add: pret_def lookup_all_def)
next
  case (Cons t ts)
  then obtain v where v: "map_of data t = Some v" "length v \<le> 4000" by auto
  define off' where "off' = off + of_nat (length v)"
  obtain i d where w: "write_pairs data off' ts = (i, d)" by fastforce
  have len: "off' - off = of_nat (length v)" by (simp add: off'_def)
  have un: "unat (of_nat (length v) :: u32) = length v" using v by (simp add: unsigned_of_nat take_bit_nat_eq_self)
  have guard: "\<not> of_nat (length v) > CryptoParameterMaxLength"
    using v by (simp add: CryptoParameterMaxLength_def word_less_nat_alt un)
  have upd: "AList.update t v m = m @ [(t, v)]" using Cons.prems(3)
    by (intro update_new_key) auto
  have "parse_pairs (length ts) i off' (m @ [(t, v)]) (d @ r) = Inr ((m @ [(t, v)]) @ lookup_all data ts, r)"
    using Cons.IH [of "m @ [(t, v)]" off'] Cons.prems by (auto simp: w)
  then show ?case
    using v w guard by (simp add: off'_def [symmetric] len un le_val_full upd lookup_all_def parser_simps
        roundtrip_simps Let_def del: not_less)
qed

lemma map_of_lookup_all: "map_of (lookup_all data ts) t =
    (if t \<in> set ts then Some (case map_of data t of None \<Rightarrow> [] | Some v \<Rightarrow> v) else None)"
  by (induction ts) (auto simp: lookup_all_def)

lemma HandshakeMessage_Write_eq:
  "HandshakeMessage_Write h =
     Inr (le_bytes 4 (hm_Tag h) @ (le_bytes 2 (of_nat (length (hm_Data h)) :: u16) @ le_bytes 2 (0 :: u16)) @
       fst (write_pairs (hm_Data h) 0 (getTagsSorted h)) @ snd (write_pairs (hm_Data h) 0 (getTagsSorted h)))"
  by (simp add: HandshakeMessage_Write_def case_prod_beta le_write_bytes wbytes_def)

lemma le_val_16_in_32:
  assumes "n \<le> 128"
  shows "le_val (le_bytes 2 (of_nat n :: u16) @ le_bytes 2 (0 :: u16)) = (of_nat n :: u32)"
proof -
  have "drop_bit 8 (of_nat n :: u16) = 0"
    using assms by (intro unat_eqI) (simp add: unat_drop_bit_div unsigned_of_nat take_bit_nat_eq_self)
  moreover have "(ucast (of_nat n :: u16) :: u8) = of_nat n"
    by (intro unat_eqI) (simp add: unat_ucast_mod unsigned_of_nat take_bit_eq_mod mod_mod_cancel)
  moreover have "(ucast (of_nat n :: u8) :: u32) = of_nat n"
    using assms by (intro unat_eqI) (simp add: unat_ucast_mod unsigned_of_nat take_bit_nat_eq_self)
  ultimately show ?thesis by (simp add: eval_nat_numeral)
qed

lemma parse_written:
  assumes "HandshakeMessage_valid h" "HandshakeMessage_Write h = Inr w"
  shows "ParseHandshakeMessage (w @ r) =
    Inr (\<lparr> hm_Tag = hm_Tag h, hm_Data = lookup_all (hm_Data h) (getTagsSorted h) \<rparr>, r)"
proof -
  define n where "n = length (hm_Data h)"
  note valid = assms(1) [unfolded HandshakeMessage_valid_def]
  define i d where "i = fst (write_pairs (hm_Data h) 0 (getTagsSorted h))"
    and "d = snd (write_pairs (hm_Data h) 0 (getTagsSorted h))"
  have n: "n \<le> 128" using valid by (simp add: n_def)
  have un: "unat (of_nat n :: u32) = n" using n by (simp add: unsigned_of_nat take_bit_nat_eq_self)
  have un8: "unat (of_nat n * 8 :: u32) = n * 8" using n un by (simp add: unat_word_ariths)
  have ts: "length (getTagsSorted h) = n" by (simp add: getTagsSorted_def n_def)
  have li: "length i = n * 8" by (simp add: i_def length_write_index ts)
  have guard: "\<not> of_nat n > CryptoMaxParams"
    using n un by (simp add: CryptoMaxParams_def word_less_nat_alt)
  have "\<exists>v. map_of (hm_Data h) t = Some v \<and> length v \<le> 4000" if "t \<in> set (getTagsSorted h)" for t
  proof -
    have "t \<in> fst ` set (hm_Data h)" using that by (simp add: getTagsSorted_def)
    then obtain v where "map_of (hm_Data h) t = Some v" by (auto dest: weak_map_of_SomeI)
    then show ?thesis using valid by (auto dest: map_of_SomeD)
  qed
  then have P: "parse_pairs n i 0 [] (d @ r) = Inr (lookup_all (hm_Data h) (getTagsSorted h), r)"
    using parse_write_pairs [of "getTagsSorted h" "hm_Data h" "[]" 0 r] valid
    by (simp add: n_def i_def d_def getTagsSorted_def)
  have w: "w = le_bytes 4 (hm_Tag h) @ (le_bytes 2 (of_nat n :: u16) @ le_bytes 2 (0 :: u16)) @ i @ d"
    using assms(2) by (simp add: HandshakeMessage_Write_eq n_def i_def d_def)
  show ?thesis
    unfolding w ParseHandshakeMessage_def append_assoc
    apply (subst pbind_Inr, rule readFull_append, simp)
    apply (subst append_assoc [symmetric, of "le_bytes 2 _"])
    apply (subst pbind_Inr, rule readFull_append, simp)
    by (simp add: le_val_full le_val_16_in_32 [OF n] guard un un8 li P parser_simps roundtrip_simps
        pret_def Let_def del: not_less le_bytes.simps)
qed

lemma lookup_sorted:
  "map_of (lookup_all (hm_Data h) (getTagsSorted h)) = map_of (hm_Data h)"
proof (rule ext)
  fix t
  show "map_of (lookup_all (hm_Data h) (getTagsSorted h)) t = map_of (hm_Data h) t"
  proof (cases "map_of (hm_Data h) t")
    case None
    then have "t \<notin> fst ` set (hm_Data h)" by (simp add: map_of_eq_None_iff)
    with None show ?thesis by (simp add: map_of_lookup_all getTagsSorted_def)
  next
    case (Some v)
    then have "t \<in> fst ` set (hm_Data h)" by (force dest: map_of_SomeD)
    with Some show ?thesis by (simp add: map_of_lookup_all getTagsSorted_def)
  qed
qed

text \<open>The tags are sorted, so that the order in which the map is visited does not matter.\<close>

lemma write_pairs_cong:
  "(\<And>t. map_of d1 t = map_of d2 t) \<Longrightarrow> write_pairs d1 off ts = write_pairs d2 off ts"
  by (induction ts arbitrary: off) simp_all

lemma Write_order:
  assumes "distinct (map fst (hm_Data h))" "distinct (map fst (hm_Data h'))"
    and "hm_Tag h' = hm_Tag h" "map_of (hm_Data h') = map_of (hm_Data h)"
  shows "HandshakeMessage_Write h' = HandshakeMessage_Write h"
proof -
  have "fst ` set (hm_Data h') = fst ` set (hm_Data h)"
    using assms(4) by (metis dom_map_of_conv_image_fst)
  then have s: "set (map fst (hm_Data h')) = set (map fst (hm_Data h))" by simp
  then have "getTagsSorted h' = getTagsSorted h"
    unfolding getTagsSorted_def using assms(1,2) by (metis sorted_list_of_set_sort_remdups distinct_remdups_id)
  moreover have "length (hm_Data h') = length (hm_Data h)"
    using s assms(1,2) by (metis distinct_card length_map)
  ultimately show ?thesis
    using write_pairs_cong [of "hm_Data h'" "hm_Data h"] assms(3,4) by (simp add: HandshakeMessage_Write_eq)
qed

text \<open>What the parser accepts is valid.\<close>

lemma parse_pairs_valid:
  assumes "parse_pairs n index off m r = Inr (m', s)"
    and "distinct (map fst m)" "\<forall>(t, v) \<in> set m. length v \<le> 4000"
  shows "distinct (map fst m') \<and> length m' \<le> length m + n \<and> (\<forall>(t, v) \<in> set m'. length v \<le> 4000)"
  using assms
proof (induction n index off m arbitrary: r rule: parse_pairs.induct)
  case (2 n index off m)
  let ?t = "le_val (take 4 index)" and ?e = "le_val (take 4 (drop 4 index)) :: u32"
  from "2.prems"(1) obtain d r' where d: "\<not> ?e - off > CryptoParameterMaxLength" "length d = unat (?e - off)"
      "parse_pairs n (drop 8 index) ?e (AList.update ?t d m) r' = Inr (m', s)"
    by (auto simp: Let_def parser_ok_iff simp del: not_less)
  have len: "length d \<le> 4000"
    using d by (simp add: CryptoParameterMaxLength_def word_less_nat_alt)
  have "\<forall>(t, v) \<in> set (AList.update ?t d m). length v \<le> 4000"
  proof (clarify)
    fix t v assume "(t, v) \<in> set (AList.update ?t d m)"
    then have "map_of (AList.update ?t d m) t = Some v"
      using distinct_update [OF "2.prems"(2)] by (intro map_of_is_SomeI) auto
    then show "length v \<le> 4000" using "2.prems"(3) len
      by (auto simp: update_conv' dest: map_of_SomeD split: if_splits)
  qed
  moreover have "length (AList.update ?t d m) \<le> length m + 1" by (induction m) auto
  ultimately show ?case using "2.IH" [OF refl refl refl d(3)] "2.prems"(2) by (fastforce simp: distinct_update)
qed (simp add: pret_def)

lemma ParseHandshakeMessage_valid:
  assumes "ParseHandshakeMessage r = Inr (h, s)"
  shows "HandshakeMessage_valid h"
proof -
  from assms obtain k :: u32 and i d where "\<not> k > CryptoMaxParams"
      "parse_pairs (unat k) i 0 [] d = Inr (hm_Data h, s)"
    by (auto simp: ParseHandshakeMessage_def Let_def parser_ok_iff simp del: not_less)
  then show ?thesis
    using parse_pairs_valid [of "unat k" i 0 "[]" d "hm_Data h" s]
    by (auto simp: HandshakeMessage_valid_def CryptoMaxParams_def word_less_nat_alt)
qed

subsection \<open>\<open>public_reset.go\<close>\<close>

record PublicReset =
  pr_RejectedPacketNumber :: PacketNumber
  pr_Nonce :: u64

definition WritePublicReset :: "ConnectionID \<Rightarrow> PacketNumber \<Rightarrow> u64 \<Rightarrow> writer" where
  "WritePublicReset connectionID rejectedPacketNumber nonceProof =
     wseq [wbyte 0x0a, le_WriteUint64 connectionID, le_WriteUint32 TagPRST, le_WriteUint32 2,
           le_WriteUint32 TagRNON, le_WriteUint32 8, le_WriteUint32 TagRSEQ, le_WriteUint32 16,
           le_WriteUint64 nonceProof, le_WriteUint64 rejectedPacketNumber]"

definition ParsePublicReset :: "PublicReset parser" where
  "ParsePublicReset =
     pbind ParseHandshakeMessage (\<lambda>msg.
     pbind (pguard (hm_Tag msg = TagPRST) (GoErr ''wrong public reset tag'')) (\<lambda>_.
     case map_of (hm_Data msg) TagRSEQ of
       None \<Rightarrow> pfail (GoErr ''RSEQ missing'')
     | Some rseq \<Rightarrow>
         pbind (pguard (length rseq = 8) (GoErr ''invalid RSEQ tag'')) (\<lambda>_.
         case map_of (hm_Data msg) TagRNON of
           None \<Rightarrow> pfail (GoErr ''RNON missing'')
         | Some rnon \<Rightarrow>
             pbind (pguard (length rnon = 8) (GoErr ''invalid RNON tag'')) (\<lambda>_.
             pret \<lparr> pr_RejectedPacketNumber = le_val rseq, pr_Nonce = le_val rnon \<rparr>))))"

text \<open>What is written after the connection ID is the handshake message with these two parameters.\<close>

definition reset_message :: "PacketNumber \<Rightarrow> u64 \<Rightarrow> HandshakeMessage" where
  "reset_message pn nonce =
     \<lparr> hm_Tag = TagPRST, hm_Data = [(TagRNON, le_bytes 8 nonce), (TagRSEQ, le_bytes 8 pn)] \<rparr>"

lemma reset_message_valid: "HandshakeMessage_valid (reset_message pn nonce)"
  by (simp add: HandshakeMessage_valid_def reset_message_def)

lemma reset_message_sorted: "getTagsSorted (reset_message pn nonce) = [TagRNON, TagRSEQ]"
  by (simp add: getTagsSorted_def reset_message_def)

lemma WritePublicReset_message:
  "\<exists>w. HandshakeMessage_Write (reset_message pn nonce) = Inr w \<and>
     WritePublicReset cid pn nonce = Inr (0x0a # le_bytes 8 cid @ w)"
proof -
  have "write_pairs (hm_Data (reset_message pn nonce)) 0 [TagRNON, TagRSEQ] =
      (le_bytes 4 TagRNON @ le_bytes 4 (8 :: u32) @ le_bytes 4 TagRSEQ @ le_bytes 4 (16 :: u32),
       le_bytes 8 nonce @ le_bytes 8 pn)"
    by (simp add: reset_message_def Let_def del: le_bytes.simps)
  moreover have "le_bytes 4 (2 :: u32) = le_bytes 2 (2 :: u16) @ le_bytes 2 (0 :: u16)"
    by (simp add: le_bytes_numeral)
  moreover have "hm_Tag (reset_message pn nonce) = TagPRST" "length (hm_Data (reset_message pn nonce)) = 2"
    by (simp_all add: reset_message_def)
  ultimately show ?thesis
    by (simp add: HandshakeMessage_Write_eq reset_message_sorted WritePublicReset_def le_write_bytes
        wbyte_def wbytes_def del: tag_values le_bytes.simps)
qed

subsection \<open>Properties\<close>

text \<open>
  C32. Handshake messages round trip. A message with at most 128 parameters of at most 4000 bytes is
  parsed to the same tag and the same parameters, nothing behind it is read, and the bytes do not depend on
  the order in which Go visits the map. And whatever bytes the parser accepts, sent by whomever, are such a message.
\<close>
theorem HandshakeMessage_roundtrip:
  assumes "HandshakeMessage_valid h"
  shows "(\<exists>w. HandshakeMessage_Write h = Inr w \<and>
    (\<exists>h'. ParseHandshakeMessage (w @ r) = Inr (h', r) \<and> HandshakeMessage_valid h' \<and>
       hm_Tag h' = hm_Tag h \<and> map_of (hm_Data h') = map_of (hm_Data h)) \<and>
    (\<forall>h2. mset (hm_Data h2) = mset (hm_Data h) \<and> hm_Tag h2 = hm_Tag h \<longrightarrow> HandshakeMessage_Write h2 = Inr w)) \<and>
    (\<forall>bs h2 s. ParseHandshakeMessage bs = Inr (h2, s) \<longrightarrow> HandshakeMessage_valid h2)"
proof -
  obtain w where w: "HandshakeMessage_Write h = Inr w" by (simp add: HandshakeMessage_Write_eq)
  note p = parse_written [OF assms w, of r]
  have order: "HandshakeMessage_Write h2 = Inr w" if "mset (hm_Data h2) = mset (hm_Data h)" "hm_Tag h2 = hm_Tag h" for h2
  proof -
    have d: "distinct (map fst (hm_Data h))" using assms by (simp add: HandshakeMessage_valid_def)
    have "mset (map fst (hm_Data h2)) = mset (map fst (hm_Data h))" using that by simp
    then have d2: "distinct (map fst (hm_Data h2))" using d mset_eq_imp_distinct_iff by metis
    have "map_of (hm_Data h2) = map_of (hm_Data h)"
      using d d2 that mset_eq_setD map_of_inject_set by metis
    then show ?thesis using Write_order [OF d d2] that w by metis
  qed
  have "\<exists>h'. ParseHandshakeMessage (w @ r) = Inr (h', r) \<and> HandshakeMessage_valid h' \<and>
       hm_Tag h' = hm_Tag h \<and> map_of (hm_Data h') = map_of (hm_Data h)"
    using p ParseHandshakeMessage_valid [OF p] lookup_sorted
    by (metis HandshakeMessage.select_convs(1) HandshakeMessage.select_convs(2))
  then show ?thesis using w order ParseHandshakeMessage_valid by blast
qed

definition hello_example :: HandshakeMessage where
  "hello_example = \<lparr> hm_Tag = TagPRST, hm_Data = [(TagSFCW, [1, 2]), (TagCFCW, [])] \<rparr>"

lemma HandshakeMessage_roundtrip_witness:
  "\<exists>w h'. HandshakeMessage_Write hello_example = Inr w \<and> ParseHandshakeMessage (w @ [7]) = Inr (h', [7]) \<and>
     map_of (hm_Data h') TagSFCW = Some [1, 2]"
proof -
  have v: "HandshakeMessage_valid hello_example"
    by (simp add: hello_example_def HandshakeMessage_valid_def)
  have "map_of (hm_Data hello_example) TagSFCW = Some [1, 2]"
    by (simp add: hello_example_def)
  then show ?thesis using HandshakeMessage_roundtrip [OF v, of "[7]"] by metis
qed

text \<open>
  A public reset carries its two values: after the flag byte and the eight bytes of the connection ID,
  \<open>ParsePublicReset\<close> reads the rejected packet number and the nonce that were written.
\<close>
theorem PublicReset_roundtrip:
  "\<exists>w. WritePublicReset cid pn nonce = Inr (0x0a # le_bytes 8 cid @ w) \<and>
     ParsePublicReset (w @ r) = Inr (\<lparr> pr_RejectedPacketNumber = pn, pr_Nonce = nonce \<rparr>, r)"
proof -
  obtain w where w: "HandshakeMessage_Write (reset_message pn nonce) = Inr w"
      "WritePublicReset cid pn nonce = Inr (0x0a # le_bytes 8 cid @ w)"
    using WritePublicReset_message by blast
  have full: "le_val (le_bytes 8 (x :: u64)) = x" for x
    by (simp only: le_val_le_bytes) simp
  have "ParsePublicReset (w @ r) = Inr (\<lparr> pr_RejectedPacketNumber = pn, pr_Nonce = nonce \<rparr>, r)"
    unfolding ParsePublicReset_def pbind_Inr [where p = ParseHandshakeMessage, OF parse_written [OF reset_message_valid w(1), of r]]
      HandshakeMessage.select_convs lookup_sorted
    by (simp add: reset_message_def full parser_simps pret_def del: le_bytes.simps)
  then show ?thesis using w(2) by blast
qed

end
