(* ===== verification/Conn_Params.thy ===== *)
theory Conn_Params
  imports Handshake_Msg
begin

section \<open>Negotiating the connection parameters\<close>

text \<open>
  \<open>internal/handshake/connection_parameters_manager.go\<close>: the parameters of a connection, what
  is sent of them in a hello message and what becomes of them when the peer's hello
  arrives. \<open>SetFromMap\<close> may return an error after it changed the manager; the model returns the
  changed manager with the error. The mutex is left out.
\<close>

subsection \<open>Constants\<close>

definition InitialStreamFlowControlWindow :: ByteCount where "InitialStreamFlowControlWindow = 0x4000"
definition InitialConnectionFlowControlWindow :: ByteCount where "InitialConnectionFlowControlWindow = 0x4000"
definition ReceiveStreamFlowControlWindow :: ByteCount where "ReceiveStreamFlowControlWindow = 0x400 * 32"
definition ReceiveConnectionFlowControlWindow :: ByteCount where "ReceiveConnectionFlowControlWindow = 0x400 * 48"
definition MaxStreamsPerConnection :: u32 where "MaxStreamsPerConnection = 100"
definition MaxIncomingDynamicStreamsPerConnection :: u32 where "MaxIncomingDynamicStreamsPerConnection = 100"
definition MaxStreamsMinimumIncrement :: u32 where "MaxStreamsMinimumIncrement = 10"

subsection \<open>The manager\<close>

record connectionParametersManager =
  cp_version :: VersionNumber
  cp_perspective :: Perspective
  cp_flowControlNegotiated :: bool
  cp_truncateConnectionID :: bool
  cp_maxStreamsPerConnection :: u32
  cp_maxIncomingDynamicStreamsPerConnection :: u32
  cp_idleConnectionStateLifetime :: Duration
  cp_sendStreamFlowControlWindow :: ByteCount
  cp_sendConnectionFlowControlWindow :: ByteCount
  cp_receiveStreamFlowControlWindow :: ByteCount
  cp_receiveConnectionFlowControlWindow :: ByteCount
  cp_maxReceiveStreamFlowControlWindow :: ByteCount
  cp_maxReceiveConnectionFlowControlWindow :: ByteCount

definition ErrMalformedTag :: go_error where
  "ErrMalformedTag = QErr ''InvalidCryptoMessageParameter: malformed Tag value''"

definition ErrFlowControlRenegotiationNotSupported :: go_error where
  "ErrFlowControlRenegotiationNotSupported =
     QErr ''InvalidCryptoMessageParameter: renegotiation of flow control parameters not supported''"

text \<open>Both branches of the test of the perspective set the same numbers of streams.\<close>

definition NewConnectionParamatersManager ::
    "Perspective \<Rightarrow> VersionNumber \<Rightarrow> ByteCount \<Rightarrow> ByteCount \<Rightarrow> Duration \<Rightarrow> connectionParametersManager" where
  "NewConnectionParamatersManager pers v maxStream maxConn idleTimeout =
     \<lparr> cp_version = v, cp_perspective = pers, cp_flowControlNegotiated = False,
       cp_truncateConnectionID = False,
       cp_maxStreamsPerConnection = MaxStreamsPerConnection,
       cp_maxIncomingDynamicStreamsPerConnection = MaxStreamsPerConnection,
       cp_idleConnectionStateLifetime = idleTimeout,
       cp_sendStreamFlowControlWindow = InitialStreamFlowControlWindow,
       cp_sendConnectionFlowControlWindow = InitialConnectionFlowControlWindow,
       cp_receiveStreamFlowControlWindow = ReceiveStreamFlowControlWindow,
       cp_receiveConnectionFlowControlWindow = ReceiveConnectionFlowControlWindow,
       cp_maxReceiveStreamFlowControlWindow = maxStream,
       cp_maxReceiveConnectionFlowControlWindow = maxConn \<rparr>"

definition negotiateMaxStreamsPerConnection :: "u32 \<Rightarrow> u32" where
  "negotiateMaxStreamsPerConnection clientValue = MinUint32 clientValue MaxStreamsPerConnection"

definition negotiateMaxIncomingDynamicStreamsPerConnection :: "u32 \<Rightarrow> u32" where
  "negotiateMaxIncomingDynamicStreamsPerConnection clientValue =
     MinUint32 clientValue MaxIncomingDynamicStreamsPerConnection"

definition negotiateIdleConnectionStateLifetime :: "Duration \<Rightarrow> connectionParametersManager \<Rightarrow> Duration" where
  "negotiateIdleConnectionStateLifetime clientValue h =
     MinDuration clientValue (cp_idleConnectionStateLifetime h)"

text \<open>Statements that may return an error, one after the other.\<close>

type_synonym cp_step = "connectionParametersManager \<Rightarrow> go_error option \<times> connectionParametersManager"

fun cp_seq :: "cp_step list \<Rightarrow> cp_step" where
  "cp_seq [] h = (None, h)"
| "cp_seq (s # ss) h = (case s h of (Some e, h') \<Rightarrow> (Some e, h') | (None, h') \<Rightarrow> cp_seq ss h')"

text \<open>\<open>if value, ok := params[tag]; ok { v, err := ReadUint32(value); ...; update }\<close>\<close>

definition cp_param ::
    "tag_map \<Rightarrow> Tag \<Rightarrow> (u32 \<Rightarrow> connectionParametersManager \<Rightarrow> connectionParametersManager) \<Rightarrow> cp_step" where
  "cp_param params tag upd h =
     (case map_of params tag of
        None \<Rightarrow> (None, h)
      | Some value \<Rightarrow>
          (case le_ReadUint32 value of
             Inl e \<Rightarrow> (Some ErrMalformedTag, h)
           | Inr (v, _) \<Rightarrow> (None, upd v h)))"

definition cp_window ::
    "tag_map \<Rightarrow> Tag \<Rightarrow> (u32 \<Rightarrow> connectionParametersManager \<Rightarrow> connectionParametersManager) \<Rightarrow> cp_step" where
  "cp_window params tag upd h =
     (if map_of params tag \<noteq> None \<and> cp_flowControlNegotiated h
      then (Some ErrFlowControlRenegotiationNotSupported, h) else cp_param params tag upd h)"

definition SetFromMap :: "tag_map \<Rightarrow> cp_step" where
  "SetFromMap params =
     cp_seq
      [\<lambda>h. if cp_perspective h = PerspectiveServer
           then cp_param params TagTCID (\<lambda>v h. h\<lparr>cp_truncateConnectionID := (v = 0)\<rparr>) h else (None, h),
       cp_param params TagMSPC
         (\<lambda>v h. h\<lparr>cp_maxStreamsPerConnection := negotiateMaxStreamsPerConnection v\<rparr>),
       cp_param params TagMIDS
         (\<lambda>v h. h\<lparr>cp_maxIncomingDynamicStreamsPerConnection := negotiateMaxIncomingDynamicStreamsPerConnection v\<rparr>),
       cp_param params TagICSL
         (\<lambda>v h. h\<lparr>cp_idleConnectionStateLifetime := negotiateIdleConnectionStateLifetime (uint v * Second) h\<rparr>),
       cp_window params TagSFCW (\<lambda>v h. h\<lparr>cp_sendStreamFlowControlWindow := ucast v\<rparr>),
       cp_window params TagCFCW (\<lambda>v h. h\<lparr>cp_sendConnectionFlowControlWindow := ucast v\<rparr>),
       \<lambda>h. (None, if map_of params TagCFCW \<noteq> None \<or> map_of params TagSFCW \<noteq> None
                  then h\<lparr>cp_flowControlNegotiated := True\<rparr> else h)]"

definition GetReceiveStreamFlowControlWindow :: "connectionParametersManager \<Rightarrow> ByteCount" where
  "GetReceiveStreamFlowControlWindow h = cp_receiveStreamFlowControlWindow h"

definition GetReceiveConnectionFlowControlWindow :: "connectionParametersManager \<Rightarrow> ByteCount" where
  "GetReceiveConnectionFlowControlWindow h = cp_receiveConnectionFlowControlWindow h"

definition GetSendStreamFlowControlWindow :: "connectionParametersManager \<Rightarrow> ByteCount" where
  "GetSendStreamFlowControlWindow h = cp_sendStreamFlowControlWindow h"

definition GetSendConnectionFlowControlWindow :: "connectionParametersManager \<Rightarrow> ByteCount" where
  "GetSendConnectionFlowControlWindow h = cp_sendConnectionFlowControlWindow h"

definition GetMaxReceiveStreamFlowControlWindow :: "connectionParametersManager \<Rightarrow> ByteCount" where
  "GetMaxReceiveStreamFlowControlWindow h = cp_maxReceiveStreamFlowControlWindow h"

definition GetMaxReceiveConnectionFlowControlWindow :: "connectionParametersManager \<Rightarrow> ByteCount" where
  "GetMaxReceiveConnectionFlowControlWindow h = cp_maxReceiveConnectionFlowControlWindow h"

definition GetMaxOutgoingStreams :: "connectionParametersManager \<Rightarrow> u32" where
  "GetMaxOutgoingStreams h = cp_maxIncomingDynamicStreamsPerConnection h"

text \<open>\<open>uint32(float64(100) * 1.1)\<close> is 110: the product is the float next to 110, just above it.\<close>

definition GetMaxIncomingStreams :: "connectionParametersManager \<Rightarrow> u32" where
  "GetMaxIncomingStreams h =
     MaxUint32 (MaxIncomingDynamicStreamsPerConnection + MaxStreamsMinimumIncrement) 110"

definition GetIdleConnectionStateLifetime :: "connectionParametersManager \<Rightarrow> Duration" where
  "GetIdleConnectionStateLifetime h = cp_idleConnectionStateLifetime h"

definition TruncateConnectionID :: "connectionParametersManager \<Rightarrow> bool" where
  "TruncateConnectionID h =
     (if cp_perspective h = PerspectiveClient then False else cp_truncateConnectionID h)"

definition cp_GetHelloMap :: "connectionParametersManager \<Rightarrow> go_error + tag_map" where
  "cp_GetHelloMap h =
     (let enc = (\<lambda>v :: u32. case le_WriteUint32 v of Inl e \<Rightarrow> [] | Inr bs \<Rightarrow> bs);
          sfcw = enc (ucast (GetReceiveStreamFlowControlWindow h));
          cfcw = enc (ucast (GetReceiveConnectionFlowControlWindow h));
          mspc = enc (cp_maxStreamsPerConnection h);
          mids = enc MaxIncomingDynamicStreamsPerConnection;
          icsl = enc (word_of_int (go_div (GetIdleConnectionStateLifetime h) Second))
      in Inr [(TagICSL, icsl), (TagMSPC, mspc), (TagMIDS, mids), (TagCFCW, cfcw), (TagSFCW, sfcw)])"

subsection \<open>Exchanging the parameters\<close>

definition hello_map :: "connectionParametersManager \<Rightarrow> tag_map" where
  "hello_map h = projr (cp_GetHelloMap h)"

lemma cp_GetHelloMap_eq:
  "cp_GetHelloMap h =
     Inr [(TagICSL, le_bytes 4 (word_of_int (go_div (cp_idleConnectionStateLifetime h) Second) :: u32)),
          (TagMSPC, le_bytes 4 (cp_maxStreamsPerConnection h)),
          (TagMIDS, le_bytes 4 MaxIncomingDynamicStreamsPerConnection),
          (TagCFCW, le_bytes 4 (ucast (cp_receiveConnectionFlowControlWindow h) :: u32)),
          (TagSFCW, le_bytes 4 (ucast (cp_receiveStreamFlowControlWindow h) :: u32))]"
  by (simp add: cp_GetHelloMap_def Let_def le_write_bytes GetReceiveStreamFlowControlWindow_def
      GetReceiveConnectionFlowControlWindow_def GetIdleConnectionStateLifetime_def)

lemma read_param: "le_ReadUint32 (le_bytes 4 (v :: u32)) = Inr (v, [])"
  using le_read_bytes'(2) [of "le_bytes 4 v" "[]"] by (simp add: le_val_full del: le_bytes.simps)

text \<open>The parameters after the peer's hello, in closed form.\<close>

definition after_hello :: "connectionParametersManager \<Rightarrow> connectionParametersManager \<Rightarrow> connectionParametersManager" where
  "after_hello p h =
     h\<lparr>cp_maxStreamsPerConnection := min (cp_maxStreamsPerConnection p) MaxStreamsPerConnection,
       cp_maxIncomingDynamicStreamsPerConnection := MaxIncomingDynamicStreamsPerConnection,
       cp_idleConnectionStateLifetime :=
         min (cp_idleConnectionStateLifetime p div Second * Second) (cp_idleConnectionStateLifetime h),
       cp_sendStreamFlowControlWindow := cp_receiveStreamFlowControlWindow p,
       cp_sendConnectionFlowControlWindow := cp_receiveConnectionFlowControlWindow p,
       cp_flowControlNegotiated := True\<rparr>"

lemma after_hello_sel:
  "cp_maxStreamsPerConnection (after_hello p h) = min (cp_maxStreamsPerConnection p) MaxStreamsPerConnection"
  "cp_maxIncomingDynamicStreamsPerConnection (after_hello p h) = MaxIncomingDynamicStreamsPerConnection"
  "cp_idleConnectionStateLifetime (after_hello p h) =
     min (cp_idleConnectionStateLifetime p div Second * Second) (cp_idleConnectionStateLifetime h)"
  "cp_sendStreamFlowControlWindow (after_hello p h) = cp_receiveStreamFlowControlWindow p"
  "cp_sendConnectionFlowControlWindow (after_hello p h) = cp_receiveConnectionFlowControlWindow p"
  "cp_receiveStreamFlowControlWindow (after_hello p h) = cp_receiveStreamFlowControlWindow h"
  "cp_receiveConnectionFlowControlWindow (after_hello p h) = cp_receiveConnectionFlowControlWindow h"
  "cp_flowControlNegotiated (after_hello p h)"
  by (simp_all add: after_hello_def)

definition hello_params_fit :: "connectionParametersManager \<Rightarrow> bool" where
  "hello_params_fit h \<longleftrightarrow>
     cp_receiveStreamFlowControlWindow h < 2 ^ 32 \<and> cp_receiveConnectionFlowControlWindow h < 2 ^ 32 \<and>
     0 \<le> cp_idleConnectionStateLifetime h \<and> cp_idleConnectionStateLifetime h < 2 ^ 32 * Second"

lemma whole_seconds_le: "x div Second * Second \<le> x"
proof -
  have "x div Second * Second + x mod Second = x" by (rule div_mult_mod_eq)
  moreover have "0 \<le> x mod Second" by (simp add: Second_def)
  ultimately show ?thesis by linarith
qed

lemma ucast_32_back: "(w :: u64) < 2 ^ 32 \<Longrightarrow> ucast (ucast w :: u32) = w"
  by (intro unat_eqI) (simp add: unat_ucast_mod word_less_nat_alt)

lemma SetFromMap_hello:
  assumes "map_of d = map_of (hello_map p)" "\<not> cp_flowControlNegotiated h" "hello_params_fit p"
  shows "SetFromMap d h = (None, after_hello p h)"
proof -
  have m: "map_of d TagTCID = None"
      "map_of d TagICSL = Some (le_bytes 4 (word_of_int (go_div (cp_idleConnectionStateLifetime p) Second) :: u32))"
      "map_of d TagMSPC = Some (le_bytes 4 (cp_maxStreamsPerConnection p))"
      "map_of d TagMIDS = Some (le_bytes 4 MaxIncomingDynamicStreamsPerConnection)"
      "map_of d TagCFCW = Some (le_bytes 4 (ucast (cp_receiveConnectionFlowControlWindow p) :: u32))"
      "map_of d TagSFCW = Some (le_bytes 4 (ucast (cp_receiveStreamFlowControlWindow p) :: u32))"
    unfolding assms(1) by (simp_all add: hello_map_def cp_GetHelloMap_eq del: le_bytes.simps)
  let ?i = "cp_idleConnectionStateLifetime p div Second"
  have i: "0 \<le> ?i" "?i < 2 ^ 32" "go_div (cp_idleConnectionStateLifetime p) Second = ?i"
    using assms(3) by (auto simp: hello_params_fit_def Second_def go_div_nonneg)
  then have u: "uint (word_of_int (go_div (cp_idleConnectionStateLifetime p) Second) :: u32) = ?i"
    by (simp add: uint_word_of_int)
  show ?thesis
    using assms(2,3)
    by (simp add: SetFromMap_def cp_param_def cp_window_def m u read_param after_hello_def
        negotiateMaxStreamsPerConnection_def negotiateMaxIncomingDynamicStreamsPerConnection_def
        negotiateIdleConnectionStateLifetime_def ucast_32_back hello_params_fit_def
        del: le_bytes.simps tag_values)
qed

lemma hello_map_wire:
  "\<exists>w m. HandshakeMessage_Write \<lparr> hm_Tag = t, hm_Data = hello_map h \<rparr> = Inr w \<and>
     ParseHandshakeMessage w = Inr (m, []) \<and> hm_Tag m = t \<and> map_of (hm_Data m) = map_of (hello_map h)"
proof -
  let ?h = "\<lparr> hm_Tag = t, hm_Data = hello_map h \<rparr>"
  have v: "HandshakeMessage_valid ?h"
    by (simp add: HandshakeMessage_valid_def hello_map_def cp_GetHelloMap_eq del: le_bytes.simps)
  obtain w where w: "HandshakeMessage_Write ?h = Inr w" by (simp add: HandshakeMessage_Write_eq)
  show ?thesis
    using w parse_written [OF v w, of "[]"] lookup_sorted [of ?h] by auto
qed

definition SetFromHello :: "Tag \<Rightarrow> connectionParametersManager \<Rightarrow> cp_step" where
  "SetFromHello t p h =
     (case HandshakeMessage_Write \<lparr> hm_Tag = t, hm_Data = hello_map p \<rparr> of
        Inl e \<Rightarrow> (Some e, h)
      | Inr w \<Rightarrow> (case ParseHandshakeMessage w of
                   Inl e \<Rightarrow> (Some e, h) | Inr (m, _) \<Rightarrow> SetFromMap (hm_Data m) h))"

lemma SetFromHello_eq:
  "\<not> cp_flowControlNegotiated h \<Longrightarrow> hello_params_fit p \<Longrightarrow> SetFromHello t p h = (None, after_hello p h)"
  using hello_map_wire [of t p] SetFromMap_hello [of _ p h] by (auto simp: SetFromHello_def)

lemma SetFromHello_again:
  assumes "cp_flowControlNegotiated h" "hello_params_fit p"
  shows "fst (SetFromHello t p h) = Some ErrFlowControlRenegotiationNotSupported"
proof -
  obtain w m where w: "HandshakeMessage_Write \<lparr> hm_Tag = t, hm_Data = hello_map p \<rparr> = Inr w"
      "ParseHandshakeMessage w = Inr (m, [])" "map_of (hm_Data m) = map_of (hello_map p)"
    using hello_map_wire by blast
  have m: "map_of (hm_Data m) TagTCID = None"
      "map_of (hm_Data m) TagICSL = Some (le_bytes 4 (word_of_int (go_div (cp_idleConnectionStateLifetime p) Second) :: u32))"
      "map_of (hm_Data m) TagMSPC = Some (le_bytes 4 (cp_maxStreamsPerConnection p))"
      "map_of (hm_Data m) TagMIDS = Some (le_bytes 4 MaxIncomingDynamicStreamsPerConnection)"
      "map_of (hm_Data m) TagSFCW \<noteq> None"
    unfolding w(3) by (simp_all add: hello_map_def cp_GetHelloMap_eq del: le_bytes.simps)
  show ?thesis
    using m assms w(1,2)
    by (simp add: SetFromHello_def SetFromMap_def cp_param_def cp_window_def read_param
        del: le_bytes.simps tag_values)
qed

text \<open>The windows of the manager, and that they stay once they are negotiated.\<close>

definition windows :: "connectionParametersManager \<Rightarrow> ByteCount list" where
  "windows h = [GetSendStreamFlowControlWindow h, GetSendConnectionFlowControlWindow h,
     GetReceiveStreamFlowControlWindow h, GetReceiveConnectionFlowControlWindow h,
     GetMaxReceiveStreamFlowControlWindow h, GetMaxReceiveConnectionFlowControlWindow h]"

lemmas windows_defs = windows_def GetSendStreamFlowControlWindow_def GetSendConnectionFlowControlWindow_def
  GetReceiveStreamFlowControlWindow_def GetReceiveConnectionFlowControlWindow_def
  GetMaxReceiveStreamFlowControlWindow_def GetMaxReceiveConnectionFlowControlWindow_def

definition step_keeps :: "cp_step \<Rightarrow> bool" where
  "step_keeps s \<longleftrightarrow> (\<forall>h. cp_flowControlNegotiated h \<longrightarrow> windows (snd (s h)) = windows h \<and> cp_flowControlNegotiated (snd (s h)))"

lemma cp_window_negotiated:
  "cp_flowControlNegotiated h \<Longrightarrow>
    cp_window d t upd h = (if map_of d t = None then None else Some ErrFlowControlRenegotiationNotSupported, h)"
  by (simp add: cp_window_def cp_param_def)

lemma cp_param_keeps:
  fixes upd :: "u32 \<Rightarrow> connectionParametersManager \<Rightarrow> connectionParametersManager"
  assumes "\<And>v h. windows (upd v h) = windows h" "\<And>v h. cp_flowControlNegotiated (upd v h) = cp_flowControlNegotiated h"
  shows "step_keeps (cp_param d t upd)"
  using assms by (auto simp: step_keeps_def cp_param_def split: option.splits sum.splits)

lemma cp_window_keeps: "step_keeps (cp_window d t upd)"
  by (simp add: step_keeps_def cp_window_negotiated)

lemma cp_seq_keeps: "\<forall>s\<in>set ss. step_keeps s \<Longrightarrow> step_keeps (cp_seq ss)"
proof (induction ss)
  case (Cons s ss)
  show ?case unfolding step_keeps_def
  proof (intro allI impI)
    fix h :: connectionParametersManager assume h: "cp_flowControlNegotiated h"
    obtain e h1 where s: "s h = (e, h1)" by (metis prod.exhaust)
    have "windows h1 = windows h" "cp_flowControlNegotiated h1" using Cons.prems h s by (auto simp: step_keeps_def)
    then show "windows (snd (cp_seq (s # ss) h)) = windows h \<and> cp_flowControlNegotiated (snd (cp_seq (s # ss) h))"
      using Cons s by (cases e) (auto simp: step_keeps_def)
  qed
qed (simp add: step_keeps_def)

lemma SetFromMap_steps_keep: "\<exists>ss. SetFromMap d = cp_seq ss \<and> (\<forall>s\<in>set ss. step_keeps s) \<and>
    cp_window d TagSFCW (\<lambda>v h. h\<lparr>cp_sendStreamFlowControlWindow := ucast v\<rparr>) \<in> set ss \<and>
    cp_window d TagCFCW (\<lambda>v h. h\<lparr>cp_sendConnectionFlowControlWindow := ucast v\<rparr>) \<in> set ss"
proof -
  have tcid: "step_keeps (\<lambda>h. if cp_perspective h = PerspectiveServer
           then cp_param d TagTCID (\<lambda>v h. h\<lparr>cp_truncateConnectionID := (v = 0)\<rparr>) h else (None, h))"
    using cp_param_keeps [of "\<lambda>v h. h\<lparr>cp_truncateConnectionID := (v = 0)\<rparr>" d TagTCID] by (simp add: step_keeps_def windows_defs)
  have mark: "step_keeps (\<lambda>h. (None, if map_of d TagCFCW \<noteq> None \<or> map_of d TagSFCW \<noteq> None
                  then h\<lparr>cp_flowControlNegotiated := True\<rparr> else h))"
    by (simp add: step_keeps_def windows_defs)
  have param: "step_keeps (cp_param d TagMSPC (\<lambda>v h. h\<lparr>cp_maxStreamsPerConnection := negotiateMaxStreamsPerConnection v\<rparr>))"
    "step_keeps (cp_param d TagMIDS
      (\<lambda>v h. h\<lparr>cp_maxIncomingDynamicStreamsPerConnection := negotiateMaxIncomingDynamicStreamsPerConnection v\<rparr>))"
    "step_keeps (cp_param d TagICSL
      (\<lambda>v h. h\<lparr>cp_idleConnectionStateLifetime := negotiateIdleConnectionStateLifetime (uint v * Second) h\<rparr>))"
    by (rule cp_param_keeps; simp add: windows_defs)+
  show ?thesis
    by (rule exI, rule conjI, rule ext, rule SetFromMap_def [THEN fun_cong])
      (simp only: list.set ball_simps insert_iff simp_thms tcid mark param cp_window_keeps)
qed

lemma cp_seq_fails:
  assumes "s \<in> set ss" "\<And>h. cp_flowControlNegotiated h \<Longrightarrow> fst (s h) \<noteq> None" "\<forall>s\<in>set ss. step_keeps s" "cp_flowControlNegotiated h"
  shows "fst (cp_seq ss h) \<noteq> None"
  using assms
proof (induction ss arbitrary: h)
  case (Cons s1 ss)
  obtain e h1 where s1: "s1 h = (e, h1)" by (metis prod.exhaust)
  have h1: "cp_flowControlNegotiated h1" using Cons.prems(3,4) s1 by (auto simp: step_keeps_def)
  show ?case
  proof (cases "s = s1")
    case True
    then have "e \<noteq> None" using Cons.prems(2) [OF Cons.prems(4)] s1 by simp
    then show ?thesis using s1 by auto
  next
    case False
    then have "fst (cp_seq ss h1) \<noteq> None" using Cons.IH [of h1] Cons.prems h1 by simp
    then show ?thesis using s1 by (cases e) simp_all
  qed
qed simp

lemma SetFromMap_window:
  assumes "cp_flowControlNegotiated h" "map_of d TagSFCW \<noteq> None \<or> map_of d TagCFCW \<noteq> None"
  shows "fst (SetFromMap d h) \<noteq> None"
proof -
  obtain ss where ss: "SetFromMap d = cp_seq ss" "\<forall>s\<in>set ss. step_keeps s"
    "cp_window d TagSFCW (\<lambda>v h. h\<lparr>cp_sendStreamFlowControlWindow := ucast v\<rparr>) \<in> set ss"
    "cp_window d TagCFCW (\<lambda>v h. h\<lparr>cp_sendConnectionFlowControlWindow := ucast v\<rparr>) \<in> set ss"
    using SetFromMap_steps_keep by blast
  show ?thesis
    using assms(2) cp_seq_fails [OF ss(3) _ ss(2) assms(1)] cp_seq_fails [OF ss(4) _ ss(2) assms(1)]
    unfolding ss(1) by (auto simp: cp_window_negotiated simp del: tag_values)
qed

lemma SetFromMap_keeps: "step_keeps (SetFromMap d)"
  using SetFromMap_steps_keep [of d] cp_seq_keeps by auto

lemma fold_SetFromMap_keeps:
  assumes "cp_flowControlNegotiated h"
  shows "windows (fold (\<lambda>d h. snd (SetFromMap d h)) ds h) = windows h \<and> cp_flowControlNegotiated (fold (\<lambda>d h. snd (SetFromMap d h)) ds h)"
  using assms
proof (induction ds arbitrary: h)
  case (Cons d ds)
  then show ?case using SetFromMap_keeps [of d] by (auto simp: step_keeps_def)
qed simp

text \<open>
  C23. Both sides agree on the connection parameters. The client sends its hello map in a handshake message, the
  server takes it over and answers with its own: then each side may send as much as the other receives, both
  have the smaller number of streams, the server's idle timeout is the client's in whole seconds where that is
  smaller, and the client's is the server's in whole seconds. The windows stay: whatever maps of parameters, complete or not, either side
  is given later, its windows are what was negotiated, and a map with a window for streams or for the connection is an error.
\<close>
theorem parameters_negotiated:
  assumes "hello_params_fit c" "hello_params_fit s"
    and "\<not> cp_flowControlNegotiated c" "\<not> cp_flowControlNegotiated s"
  shows "\<exists>c' s'. SetFromHello chlo c s = (None, s') \<and> SetFromHello shlo s' c = (None, c') \<and>
    GetSendStreamFlowControlWindow s' = GetReceiveStreamFlowControlWindow c \<and>
    GetSendStreamFlowControlWindow c' = GetReceiveStreamFlowControlWindow s \<and>
    GetSendConnectionFlowControlWindow s' = GetReceiveConnectionFlowControlWindow c \<and>
    GetSendConnectionFlowControlWindow c' = GetReceiveConnectionFlowControlWindow s \<and>
    cp_maxStreamsPerConnection c' = cp_maxStreamsPerConnection s' \<and>
    cp_maxStreamsPerConnection s' = min (cp_maxStreamsPerConnection c) MaxStreamsPerConnection \<and>
    GetMaxOutgoingStreams c' \<le> GetMaxIncomingStreams s' \<and> GetMaxOutgoingStreams s' \<le> GetMaxIncomingStreams c' \<and>
    GetIdleConnectionStateLifetime s' =
      min (GetIdleConnectionStateLifetime c div Second * Second) (GetIdleConnectionStateLifetime s) \<and>
    GetIdleConnectionStateLifetime c' = GetIdleConnectionStateLifetime s' div Second * Second \<and>
    (\<forall>p t. hello_params_fit p \<longrightarrow>
       fst (SetFromHello t p c') = Some ErrFlowControlRenegotiationNotSupported \<and>
       fst (SetFromHello t p s') = Some ErrFlowControlRenegotiationNotSupported) \<and>
    (\<forall>h\<in>{c', s'}. \<forall>ds d. let h' = fold (\<lambda>d h. snd (SetFromMap d h)) ds h in
       windows h' = windows h \<and>
       (map_of d TagSFCW \<noteq> None \<or> map_of d TagCFCW \<noteq> None \<longrightarrow> fst (SetFromMap d h') \<noteq> None))"
proof -
  let ?s = "after_hello c s" and ?c = "after_hello (after_hello c s) c"
  have fit: "hello_params_fit ?s"
    using assms(1,2) by (auto simp: hello_params_fit_def after_hello_sel Second_def)
  have idle: "min (cp_idleConnectionStateLifetime ?s div Second * Second) (cp_idleConnectionStateLifetime c) =
      cp_idleConnectionStateLifetime ?s div Second * Second"
  proof -
    let ?i = "cp_idleConnectionStateLifetime ?s"
    have "?i div Second * Second \<le> ?i" by (rule whole_seconds_le)
    also have "?i \<le> cp_idleConnectionStateLifetime c div Second * Second" by (simp add: after_hello_sel)
    also have "\<dots> \<le> cp_idleConnectionStateLifetime c" by (rule whole_seconds_le)
    finally show ?thesis by (rule min_absorb1)
  qed
  have streams: "GetMaxOutgoingStreams h \<le> GetMaxIncomingStreams h'"
    if "cp_maxIncomingDynamicStreamsPerConnection h = MaxIncomingDynamicStreamsPerConnection" for h h'
    using that by (simp add: GetMaxOutgoingStreams_def GetMaxIncomingStreams_def
        MaxIncomingDynamicStreamsPerConnection_def MaxStreamsMinimumIncrement_def)
  have neg: "cp_flowControlNegotiated ?s" "cp_flowControlNegotiated ?c" by (simp_all add: after_hello_sel)
  note 1 = SetFromHello_eq [OF assms(4,1), of chlo] and 2 = SetFromHello_eq [OF assms(3) fit, of shlo]
  have 3: "GetIdleConnectionStateLifetime ?c = GetIdleConnectionStateLifetime ?s div Second * Second"
    using idle by (simp only: GetIdleConnectionStateLifetime_def after_hello_sel(3) [of ?s])
  have 4: "GetMaxOutgoingStreams ?c \<le> GetMaxIncomingStreams ?s" "GetMaxOutgoingStreams ?s \<le> GetMaxIncomingStreams ?c"
    by (rule streams; simp only: after_hello_sel)+
  have 5: "fst (SetFromHello t p ?c) = Some ErrFlowControlRenegotiationNotSupported \<and>
      fst (SetFromHello t p ?s) = Some ErrFlowControlRenegotiationNotSupported" if "hello_params_fit p" for p t
    using SetFromHello_again that neg by blast
  have 6: "GetSendStreamFlowControlWindow ?s = GetReceiveStreamFlowControlWindow c"
      "GetSendStreamFlowControlWindow ?c = GetReceiveStreamFlowControlWindow s"
      "GetSendConnectionFlowControlWindow ?s = GetReceiveConnectionFlowControlWindow c"
      "GetSendConnectionFlowControlWindow ?c = GetReceiveConnectionFlowControlWindow s"
    by (simp_all only: GetSendStreamFlowControlWindow_def GetReceiveStreamFlowControlWindow_def
        GetSendConnectionFlowControlWindow_def GetReceiveConnectionFlowControlWindow_def after_hello_sel)
  have 7: "cp_maxStreamsPerConnection ?s = min (cp_maxStreamsPerConnection c) MaxStreamsPerConnection"
      "cp_maxStreamsPerConnection ?c = cp_maxStreamsPerConnection ?s"
    by (simp_all add: after_hello_sel)
  have 8: "GetIdleConnectionStateLifetime ?s =
      min (GetIdleConnectionStateLifetime c div Second * Second) (GetIdleConnectionStateLifetime s)"
    by (simp only: GetIdleConnectionStateLifetime_def after_hello_sel)
  have 9: "let h' = fold (\<lambda>d h. snd (SetFromMap d h)) ds h in windows h' = windows h \<and>
      (map_of d TagSFCW \<noteq> None \<or> map_of d TagCFCW \<noteq> None \<longrightarrow> fst (SetFromMap d h') \<noteq> None)"
    if "h \<in> {?c, ?s}" for h ds d
  proof -
    have "cp_flowControlNegotiated h" using that neg by blast
    from fold_SetFromMap_keeps [OF this, of ds] show ?thesis using SetFromMap_window by (simp add: Let_def)
  qed
  show ?thesis using 1 2 3 4 5 6 7 8 9 by blast
qed

lemma parameters_negotiated_witness:
  "\<exists>c' s'. SetFromHello TagPRST (NewConnectionParamatersManager PerspectiveClient VersionMP 1000 1000 (30 * Second))
       (NewConnectionParamatersManager PerspectiveServer VersionMP 1000 1000 (20 * Second)) = (None, s') \<and>
     SetFromHello TagPRST s' (NewConnectionParamatersManager PerspectiveClient VersionMP 1000 1000 (30 * Second)) = (None, c') \<and>
     GetIdleConnectionStateLifetime c' = GetIdleConnectionStateLifetime s' div Second * Second"
proof -
  let ?n = "\<lambda>p i. NewConnectionParamatersManager p VersionMP 1000 1000 (i * Second)"
  have f: "hello_params_fit (?n PerspectiveClient 30)" "hello_params_fit (?n PerspectiveServer 20)"
    "\<not> cp_flowControlNegotiated (?n PerspectiveClient 30)" "\<not> cp_flowControlNegotiated (?n PerspectiveServer 20)"
    by (simp_all add: hello_params_fit_def NewConnectionParamatersManager_def Second_def
        ReceiveStreamFlowControlWindow_def ReceiveConnectionFlowControlWindow_def)
  show ?thesis using parameters_negotiated [OF f, of TagPRST TagPRST] by metis
qed

end
