(* ===== verification/Go_Float.thy ===== *)
theory Go_Float
  imports Protocol
begin

section \<open>Floating point numbers\<close>

text \<open>
  Go's \<open>float32\<close> and \<open>float64\<close> carry 24 and 53 significant bits; every operation of the Go compiler
  on amd64 rounds its exact result to the nearest number with that many bits, ties to even. The code
  of the development computes with floating point numbers that are whole multiples of \<open>1/2\<close> or
  \<open>1/8\<close>, far from the bounds of the exponent, so a number is modelled by a natural number in that unit: a
  power of two scales the unit and never rounds. \<open>round_bits p n\<close> is the
  number with \<open>p\<close> significant bits nearest to \<open>n\<close>.
\<close>

fun bitlen :: "nat \<Rightarrow> nat" where
  "bitlen n = (if n = 0 then 0 else Suc (bitlen (n div 2)))"

declare bitlen.simps [simp del]

definition round_bits :: "nat \<Rightarrow> nat \<Rightarrow> nat" where
  "round_bits p n =
     (let k = bitlen n - p; q = n div 2 ^ k; r = n mod 2 ^ k
      in (if 2 * r > 2 ^ k \<or> (2 * r = 2 ^ k \<and> odd q) then q + 1 else q) * 2 ^ k)"

definition float32 :: "nat \<Rightarrow> nat" where "float32 = round_bits 24"

definition float64 :: "nat \<Rightarrow> nat" where "float64 = round_bits 53"

lemma bitlen_le_iff: "bitlen n \<le> k \<longleftrightarrow> n < 2 ^ k"
proof (induction n arbitrary: k rule: bitlen.induct)
  case (1 n)
  show ?case
  proof (cases "n = 0")
    case False
    have "Suc (bitlen (n div 2)) \<le> k \<longleftrightarrow> n < 2 ^ k"
    proof (cases k)
      case (Suc j)
      have "n div 2 < 2 ^ j \<longleftrightarrow> n < 2 ^ Suc j" by auto
      then show ?thesis using 1 [OF False, of j] Suc by simp
    qed (use False in simp)
    then show ?thesis using False by (simp add: bitlen.simps [of n])
  qed (simp add: bitlen.simps)
qed

lemma round_bits_exact: "n < 2 ^ p \<Longrightarrow> round_bits p n = n"
  by (simp add: round_bits_def bitlen_le_iff [symmetric])

text \<open>The rounding error is at most half a unit in the last place.\<close>

lemma round_bits_error:
  assumes "0 < p"
  shows "round_bits p n * 2 ^ p \<le> n * 2 ^ p + n \<and> n * 2 ^ p \<le> round_bits p n * 2 ^ p + n"
proof (cases "n < 2 ^ p")
  case False
  define k where "k = bitlen n - p"
  have k: "0 < k" using False by (simp add: k_def bitlen_le_iff [symmetric])
  have "\<not> bitlen n \<le> p + k - 1" using k by (simp add: k_def)
  then have big: "2 ^ (p + k - 1) \<le> n" by (simp add: bitlen_le_iff)
  obtain h where h: "k = Suc h" using k by (cases k) auto
  define q r where "q = n div 2 ^ k" and "r = n mod 2 ^ k"
  have n: "n = q * 2 ^ k + r" unfolding q_def r_def by (rule div_mult_mod_eq [symmetric])
  have r: "r < 2 ^ k" by (simp add: r_def)
  have R: "round_bits p n = (if 2 * r > 2 ^ k \<or> (2 * r = 2 ^ k \<and> odd q) then q + 1 else q) * 2 ^ k"
    by (simp add: round_bits_def Let_def k_def q_def r_def)
  have "round_bits p n \<le> n + 2 ^ h \<and> n \<le> round_bits p n + 2 ^ h"
    unfolding R using n r h by (auto simp: algebra_simps)
  then have "round_bits p n * 2 ^ p \<le> n * 2 ^ p + 2 ^ h * 2 ^ p"
      "n * 2 ^ p \<le> round_bits p n * 2 ^ p + 2 ^ h * 2 ^ p"
    by (metis add_mult_distrib mult_le_mono1)+
  moreover have "(2::nat) ^ h * 2 ^ p \<le> n" using big h by (simp add: power_add mult.commute)
  ultimately show ?thesis by linarith
qed (simp add: round_bits_exact)

text \<open>
  \<open>uint64(float64(n) * 1.5)\<close>: the product is counted in halves, the conversion cuts the fraction.
  Go leaves the conversion of a number of \<open>2^64\<close> or more to the implementation; here it wraps.
\<close>

definition times_one_and_half :: "u64 \<Rightarrow> u64" where
  "times_one_and_half n = of_nat (float64 (3 * float64 (unat n)) div 2)"

lemma times_one_and_half_exact:
  assumes "unat n < 2 ^ 51"
  shows "unat (times_one_and_half n) = 3 * unat n div 2"
proof -
  have "float64 (unat n) = unat n" "float64 (3 * unat n) = 3 * unat n"
    using assms by (simp_all add: float64_def round_bits_exact)
  then show ?thesis using assms by (simp add: times_one_and_half_def unsigned_of_nat take_bit_nat_eq_self)
qed

end
