(* ===== verification/Flow_Control.thy ===== *)
theory Flow_Control
  imports Conn_Params Go_Float
begin

section \<open>Flow control of one stream: \<open>internal/flowcontrol/flow_controller.go\<close>\<close>

text \<open>
  The controller keeps pointers to the connection parameters, the RTT statistics and the map of the
  remote RTTs of the paths. The model passes what is read there as arguments: the parameters \<open>cp\<close>, the
  smoothed RTT and the list of the remote RTTs, in the order a \<open>range\<close> visits them. The clock is an
  argument too; a zero \<open>time.Time\<close> is \<open>None\<close>.
\<close>

record flowController =
  fc_streamID :: StreamID
  fc_contributesToConnection :: bool
  fc_bytesSent :: ByteCount
  fc_sendWindow :: ByteCount
  fc_bytesRetrans :: ByteCount
  fc_lastWindowUpdateTime :: "int option"
  fc_bytesRead :: ByteCount
  fc_highestReceived :: ByteCount
  fc_receiveWindow :: ByteCount
  fc_receiveWindowIncrement :: ByteCount
  fc_maxReceiveWindowIncrement :: ByteCount

definition ErrReceivedSmallerByteOffset :: go_error where
  "ErrReceivedSmallerByteOffset = GoErr ''ErrReceivedSmallerByteOffset''"

definition newFlowController :: "StreamID \<Rightarrow> bool \<Rightarrow> connectionParametersManager \<Rightarrow> flowController" where
  "newFlowController streamID contributes cp =
     (let window = (if streamID = 0 then GetReceiveConnectionFlowControlWindow cp
                    else GetReceiveStreamFlowControlWindow cp);
          limit = (if streamID = 0 then GetMaxReceiveConnectionFlowControlWindow cp
                   else GetMaxReceiveStreamFlowControlWindow cp)
      in \<lparr> fc_streamID = streamID, fc_contributesToConnection = contributes, fc_bytesSent = 0,
           fc_sendWindow = 0, fc_bytesRetrans = 0, fc_lastWindowUpdateTime = None, fc_bytesRead = 0,
           fc_highestReceived = 0, fc_receiveWindow = window, fc_receiveWindowIncrement = window,
           fc_maxReceiveWindowIncrement = limit \<rparr>)"

definition getSendWindow :: "connectionParametersManager \<Rightarrow> flowController \<Rightarrow> ByteCount" where
  "getSendWindow cp c =
     (if fc_sendWindow c = 0
      then if fc_streamID c = 0 then GetSendConnectionFlowControlWindow cp else GetSendStreamFlowControlWindow cp
      else fc_sendWindow c)"

definition fc_AddBytesSent :: "ByteCount \<Rightarrow> flowController \<Rightarrow> flowController" where
  "fc_AddBytesSent n c = c\<lparr>fc_bytesSent := fc_bytesSent c + n\<rparr>"

definition fc_AddBytesRetrans :: "ByteCount \<Rightarrow> flowController \<Rightarrow> flowController" where
  "fc_AddBytesRetrans n c = c\<lparr>fc_bytesRetrans := fc_bytesRetrans c + n\<rparr>"

definition UpdateSendWindow :: "ByteCount \<Rightarrow> flowController \<Rightarrow> bool \<times> flowController" where
  "UpdateSendWindow newOffset c =
     (if newOffset > fc_sendWindow c then (True, c\<lparr>fc_sendWindow := newOffset\<rparr>) else (False, c))"

definition fc_SendWindowSize :: "connectionParametersManager \<Rightarrow> flowController \<Rightarrow> ByteCount" where
  "fc_SendWindowSize cp c =
     (let sendWindow = getSendWindow cp c
      in if fc_bytesSent c > sendWindow then 0 else sendWindow - fc_bytesSent c)"

definition fc_UpdateHighestReceived ::
    "ByteCount \<Rightarrow> flowController \<Rightarrow> (ByteCount \<times> go_error option) \<times> flowController" where
  "fc_UpdateHighestReceived byteOffset c =
     (if byteOffset = fc_highestReceived c then ((0, None), c)
      else if byteOffset > fc_highestReceived c
      then ((byteOffset - fc_highestReceived c, None), c\<lparr>fc_highestReceived := byteOffset\<rparr>)
      else ((0, Some ErrReceivedSmallerByteOffset), c))"

definition IncrementHighestReceived :: "ByteCount \<Rightarrow> flowController \<Rightarrow> flowController" where
  "IncrementHighestReceived increment c = c\<lparr>fc_highestReceived := fc_highestReceived c + increment\<rparr>"

definition fc_AddBytesRead :: "int \<Rightarrow> ByteCount \<Rightarrow> flowController \<Rightarrow> flowController" where
  "fc_AddBytesRead now n c =
     (let c1 = (if fc_bytesRead c = 0 then c\<lparr>fc_lastWindowUpdateTime := Some now\<rparr> else c)
      in c1\<lparr>fc_bytesRead := fc_bytesRead c1 + n\<rparr>)"

definition maybeAdjustWindowIncrement ::
    "int \<Rightarrow> Duration \<Rightarrow> Duration list \<Rightarrow> flowController \<Rightarrow> flowController" where
  "maybeAdjustWindowIncrement now rtt remoteRTTs c =
     (case fc_lastWindowUpdateTime c of
        None \<Rightarrow> c
      | Some t \<Rightarrow>
          if rtt = 0 then c
          else let timeSinceLastWindowUpdate = now - t;
                   maxRemoteRTT = fold (\<lambda>remoteRTT m. MaxDuration m remoteRTT) remoteRTTs 0
               in if timeSinceLastWindowUpdate \<ge> 2 * MaxDuration rtt maxRemoteRTT then c
                  else c\<lparr>fc_receiveWindowIncrement :=
                           MinByteCount (2 * fc_receiveWindowIncrement c) (fc_maxReceiveWindowIncrement c)\<rparr>)"

definition MaybeUpdateWindow ::
    "int \<Rightarrow> Duration \<Rightarrow> Duration list \<Rightarrow> flowController \<Rightarrow> (bool \<times> ByteCount \<times> ByteCount) \<times> flowController" where
  "MaybeUpdateWindow now rtt remoteRTTs c =
     (let diff = fc_receiveWindow c - fc_bytesRead c
      in if diff < fc_receiveWindowIncrement c div 2
         then let oldWindowIncrement = fc_receiveWindowIncrement c;
                  c1 = maybeAdjustWindowIncrement now rtt remoteRTTs c;
                  newWindowIncrement = (if fc_receiveWindowIncrement c1 \<noteq> oldWindowIncrement
                                        then fc_receiveWindowIncrement c1 else 0);
                  c2 = c1\<lparr>fc_lastWindowUpdateTime := Some now,
                          fc_receiveWindow := fc_bytesRead c1 + fc_receiveWindowIncrement c1\<rparr>
              in ((True, newWindowIncrement, fc_receiveWindow c2), c2)
         else ((False, fc_receiveWindowIncrement c, fc_receiveWindow c), c))"

definition EnsureMinimumWindowIncrement :: "ByteCount \<Rightarrow> flowController \<Rightarrow> flowController" where
  "EnsureMinimumWindowIncrement inc c =
     (if inc > fc_receiveWindowIncrement c
      then c\<lparr>fc_receiveWindowIncrement := MinByteCount inc (fc_maxReceiveWindowIncrement c),
             fc_lastWindowUpdateTime := None\<rparr>
      else c)"

definition CheckFlowControlViolation :: "flowController \<Rightarrow> bool" where
  "CheckFlowControlViolation c = (fc_highestReceived c > fc_receiveWindow c)"

section \<open>Flow control of a connection: \<open>internal/flowcontrol/flow_control_manager.go\<close>\<close>

text \<open>
  A method returns its error, or what it returns, and the changed manager: some errors are returned after the
  state has changed. The pointers in the map are not shared, so the map holds the controllers themselves.
\<close>

record flowControlManager =
  fm_streamFlowController :: "StreamID \<rightharpoonup> flowController"
  fm_connFlowController :: flowController

record WindowUpdate =
  wu_StreamID :: StreamID
  wu_Offset :: ByteCount

definition errMapAccess :: go_error where "errMapAccess = GoErr ''errMapAccess''"

definition errReceivedTooMuchData :: go_error where
  "errReceivedTooMuchData = QErr ''FlowControlReceivedTooMuchData''"

definition NewFlowControlManager :: "connectionParametersManager \<Rightarrow> flowControlManager" where
  "NewFlowControlManager cp =
     \<lparr> fm_streamFlowController = Map.empty, fm_connFlowController = newFlowController 0 False cp \<rparr>"

definition set_stream :: "StreamID \<Rightarrow> flowController \<Rightarrow> flowControlManager \<Rightarrow> flowControlManager" where
  "set_stream i c m = m\<lparr>fm_streamFlowController := (fm_streamFlowController m)(i \<mapsto> c)\<rparr>"

definition set_conn :: "flowController \<Rightarrow> flowControlManager \<Rightarrow> flowControlManager" where
  "set_conn c m = m\<lparr>fm_connFlowController := c\<rparr>"

definition NewStream ::
    "connectionParametersManager \<Rightarrow> StreamID \<Rightarrow> bool \<Rightarrow> flowControlManager \<Rightarrow> flowControlManager" where
  "NewStream cp i contributes m =
     (case fm_streamFlowController m i of
        Some _ \<Rightarrow> m
      | None \<Rightarrow> set_stream i (newFlowController i contributes cp) m)"

definition RemoveStream :: "StreamID \<Rightarrow> flowControlManager \<Rightarrow> flowControlManager" where
  "RemoveStream i m = m\<lparr>fm_streamFlowController := (fm_streamFlowController m)(i := None)\<rparr>"

text \<open>The end of \<open>ResetStream\<close> and \<open>UpdateHighestReceived\<close>, which they share.\<close>

definition check_received ::
    "StreamID \<Rightarrow> flowController \<Rightarrow> ByteCount \<Rightarrow> flowControlManager \<Rightarrow> go_error option \<times> flowControlManager" where
  "check_received i fc increment m =
     (let m1 = set_stream i fc m
      in if CheckFlowControlViolation fc then (Some errReceivedTooMuchData, m1)
         else if fc_contributesToConnection fc
         then let m2 = set_conn (IncrementHighestReceived increment (fm_connFlowController m1)) m1
              in if CheckFlowControlViolation (fm_connFlowController m2)
                 then (Some errReceivedTooMuchData, m2) else (None, m2)
         else (None, m1))"

definition ResetStream ::
    "StreamID \<Rightarrow> ByteCount \<Rightarrow> flowControlManager \<Rightarrow> go_error option \<times> flowControlManager" where
  "ResetStream i byteOffset m =
     (case fm_streamFlowController m i of
        None \<Rightarrow> (Some errMapAccess, m)
      | Some fc \<Rightarrow>
          (case fc_UpdateHighestReceived byteOffset fc of
             ((_, Some e), fc') \<Rightarrow> (Some (QErr ''StreamDataAfterTermination''), set_stream i fc' m)
           | ((increment, None), fc') \<Rightarrow> check_received i fc' increment m))"

definition UpdateHighestReceived ::
    "StreamID \<Rightarrow> ByteCount \<Rightarrow> flowControlManager \<Rightarrow> go_error option \<times> flowControlManager" where
  "UpdateHighestReceived i byteOffset m =
     (case fm_streamFlowController m i of
        None \<Rightarrow> (Some errMapAccess, m)
      | Some fc \<Rightarrow>
          (case fc_UpdateHighestReceived byteOffset fc of
             ((increment, _), fc') \<Rightarrow> check_received i fc' increment m))"

text \<open>A method that changes a stream and, where the stream contributes to it, the connection.\<close>

definition both_levels ::
    "StreamID \<Rightarrow> (flowController \<Rightarrow> flowController) \<Rightarrow> flowControlManager \<Rightarrow> go_error option \<times> flowControlManager" where
  "both_levels i upd m =
     (case fm_streamFlowController m i of
        None \<Rightarrow> (Some errMapAccess, m)
      | Some fc \<Rightarrow>
          let fc' = upd fc; m1 = set_stream i fc' m
          in (None, if fc_contributesToConnection fc'
                    then set_conn (upd (fm_connFlowController m1)) m1 else m1))"

definition AddBytesRead ::
    "int \<Rightarrow> StreamID \<Rightarrow> ByteCount \<Rightarrow> flowControlManager \<Rightarrow> go_error option \<times> flowControlManager" where
  "AddBytesRead now i n = both_levels i (fc_AddBytesRead now n)"

definition AddBytesSent ::
    "StreamID \<Rightarrow> ByteCount \<Rightarrow> flowControlManager \<Rightarrow> go_error option \<times> flowControlManager" where
  "AddBytesSent i n = both_levels i (fc_AddBytesSent n)"

definition AddBytesRetrans ::
    "StreamID \<Rightarrow> ByteCount \<Rightarrow> flowControlManager \<Rightarrow> go_error option \<times> flowControlManager" where
  "AddBytesRetrans i n = both_levels i (fc_AddBytesRetrans n)"

text \<open>The loop of \<open>GetWindowUpdates\<close>; \<open>ids\<close> are the streams in the order the \<open>range\<close> visits them.\<close>

fun stream_updates ::
    "int \<Rightarrow> Duration \<Rightarrow> Duration list \<Rightarrow> bool \<Rightarrow> StreamID list \<Rightarrow> flowControlManager \<Rightarrow>
     WindowUpdate list \<times> flowControlManager" where
  "stream_updates now rtt remotes force [] m = ([], m)"
| "stream_updates now rtt remotes force (i # ids) m =
     (case fm_streamFlowController m i of
        None \<Rightarrow> stream_updates now rtt remotes force ids m
      | Some fc \<Rightarrow>
          (case MaybeUpdateWindow now rtt remotes fc of
             ((necessary, newIncrement, offset), fc') \<Rightarrow>
               let m1 = set_stream i fc' m
               in if force \<or> necessary
                  then let m2 = (if fc_contributesToConnection fc' \<and> newIncrement \<noteq> 0
                                 then set_conn (EnsureMinimumWindowIncrement
                                        (times_one_and_half newIncrement) (fm_connFlowController m1)) m1
                                 else m1);
                           (res, m3) = stream_updates now rtt remotes force ids m2
                       in (\<lparr> wu_StreamID = i, wu_Offset = offset \<rparr> # res, m3)
                  else stream_updates now rtt remotes force ids m1))"

definition GetWindowUpdates ::
    "int \<Rightarrow> Duration \<Rightarrow> Duration list \<Rightarrow> bool \<Rightarrow> StreamID list \<Rightarrow> flowControlManager \<Rightarrow>
     WindowUpdate list \<times> flowControlManager" where
  "GetWindowUpdates now rtt remotes force ids m =
     (let (res, m1) = stream_updates now rtt remotes force ids m
      in case MaybeUpdateWindow now rtt remotes (fm_connFlowController m1) of
           ((necessary, _, offset), c) \<Rightarrow>
             (if force \<or> necessary then res @ [\<lparr> wu_StreamID = 0, wu_Offset = offset \<rparr>] else res,
              set_conn c m1))"

definition GetReceiveWindow :: "StreamID \<Rightarrow> flowControlManager \<Rightarrow> go_error + ByteCount" where
  "GetReceiveWindow i m =
     (if i = 0 then Inr (fc_receiveWindow (fm_connFlowController m))
      else case fm_streamFlowController m i of
             None \<Rightarrow> Inl errMapAccess | Some fc \<Rightarrow> Inr (fc_receiveWindow fc))"

definition GetBytesSent :: "StreamID \<Rightarrow> flowControlManager \<Rightarrow> go_error + ByteCount" where
  "GetBytesSent i m =
     (case fm_streamFlowController m i of None \<Rightarrow> Inl errMapAccess | Some fc \<Rightarrow> Inr (fc_bytesSent fc))"

definition GetBytesRetrans :: "StreamID \<Rightarrow> flowControlManager \<Rightarrow> go_error + ByteCount" where
  "GetBytesRetrans i m =
     (case fm_streamFlowController m i of None \<Rightarrow> Inl errMapAccess | Some fc \<Rightarrow> Inr (fc_bytesRetrans fc))"

definition SendWindowSize ::
    "connectionParametersManager \<Rightarrow> StreamID \<Rightarrow> flowControlManager \<Rightarrow> go_error + ByteCount" where
  "SendWindowSize cp i m =
     (case fm_streamFlowController m i of
        None \<Rightarrow> Inl errMapAccess
      | Some fc \<Rightarrow>
          let res = fc_SendWindowSize cp fc
          in Inr (if fc_contributesToConnection fc
                  then MinByteCount res (fc_SendWindowSize cp (fm_connFlowController m)) else res))"

definition RemainingConnectionWindowSize :: "connectionParametersManager \<Rightarrow> flowControlManager \<Rightarrow> ByteCount" where
  "RemainingConnectionWindowSize cp m = fc_SendWindowSize cp (fm_connFlowController m)"

definition UpdateWindow ::
    "StreamID \<Rightarrow> ByteCount \<Rightarrow> flowControlManager \<Rightarrow> (go_error + bool) \<times> flowControlManager" where
  "UpdateWindow i newOffset m =
     (if i = 0
      then let (b, c) = UpdateSendWindow newOffset (fm_connFlowController m) in (Inr b, set_conn c m)
      else case fm_streamFlowController m i of
             None \<Rightarrow> (Inl errMapAccess, m)
           | Some fc \<Rightarrow> let (b, c) = UpdateSendWindow newOffset fc in (Inr b, set_stream i c m))"

section \<open>Accounting\<close>

text \<open>
  Each of the counters that exist per stream and for the connection follows one contract: an operation adds to the
  counter of a stream, and the same number to that of the connection if the stream contributes to it. What the connection
  counts is then the sum over the streams that contribute, those that have been removed included.
\<close>

definition contribution :: "(flowController \<Rightarrow> ByteCount) \<Rightarrow> flowController \<Rightarrow> nat" where
  "contribution get c = (if fc_contributesToConnection c then unat (get c) else 0)"

definition stream_total :: "(flowController \<Rightarrow> ByteCount) \<Rightarrow> flowController list \<Rightarrow> flowControlManager \<Rightarrow> nat" where
  "stream_total get removed m =
     (\<Sum>i\<in>dom (fm_streamFlowController m). contribution get (the (fm_streamFlowController m i))) +
     sum_list (map (contribution get) removed)"

definition balanced :: "(flowController \<Rightarrow> ByteCount) \<Rightarrow> flowController list \<Rightarrow> flowControlManager \<Rightarrow> bool" where
  "balanced get removed m \<longleftrightarrow> finite (dom (fm_streamFlowController m)) \<and>
     unat (get (fm_connFlowController m)) = stream_total get removed m"

lemma manager_simps [simp]:
  "fm_streamFlowController (set_stream i c m) = (fm_streamFlowController m)(i \<mapsto> c)"
  "fm_connFlowController (set_stream i c m) = fm_connFlowController m"
  "fm_streamFlowController (set_conn c m) = fm_streamFlowController m"
  "fm_connFlowController (set_conn c m) = c"
  by (simp_all add: set_stream_def set_conn_def)

lemma stream_total_set_conn [simp]: "stream_total get R (set_conn c m) = stream_total get R m"
  by (simp add: stream_total_def)

lemma stream_total_split:
  assumes "finite (dom (fm_streamFlowController m))" "fm_streamFlowController m i = Some c"
  shows "stream_total get R m = contribution get c + stream_total get R (RemoveStream i m)"
proof -
  let ?s = "fm_streamFlowController m"
  have d: "dom (?s(i := None)) = dom ?s - {i}" by auto
  have "(\<Sum>j\<in>dom ?s. contribution get (the (?s j))) =
      contribution get c + (\<Sum>j\<in>dom ?s - {i}. contribution get (the (?s j)))"
    using assms by (subst sum.remove [of _ i]) auto
  then show ?thesis by (simp add: stream_total_def RemoveStream_def d)
qed

lemma stream_total_set:
  assumes "finite (dom (fm_streamFlowController m))"
  shows "stream_total get R (set_stream i c m) = contribution get c + stream_total get R (RemoveStream i m)"
  using stream_total_split [of "set_stream i c m" i c get R] assms
  by (simp add: RemoveStream_def stream_total_def fun_upd_def insert_Diff_if cong: if_cong)

lemma balanced_new:
  assumes "balanced get R m" "fm_streamFlowController m i = None" "get c = 0"
  shows "balanced get R (set_stream i c m)"
proof -
  have "RemoveStream i m = m" using assms(2) by (simp add: RemoveStream_def fun_upd_idem)
  then show ?thesis
    using assms stream_total_set [of m get R i c] by (simp add: balanced_def contribution_def)
qed

lemma balanced_remove:
  assumes "balanced get R m" "fm_streamFlowController m i = Some c"
  shows "balanced get (c # R) (RemoveStream i m)"
  using assms stream_total_split [of m i c get R]
  by (auto simp: balanced_def stream_total_def RemoveStream_def)

lemma balanced_same:
  assumes "balanced get R m" "fm_streamFlowController m i = Some c" "contribution get c' = contribution get c"
  shows "balanced get R (set_stream i c' m)"
  using assms stream_total_set [of m get R i c'] stream_total_split [of m i c get R]
  by (simp add: balanced_def)

lemma balanced_conn:
  "balanced get R m \<Longrightarrow> get c = get (fm_connFlowController m) \<Longrightarrow> balanced get R (set_conn c m)"
  by (simp add: balanced_def)

locale flow_counter =
  fixes get :: "flowController \<Rightarrow> ByteCount"
    and add :: "ByteCount \<Rightarrow> flowController \<Rightarrow> flowController"
  assumes get_add: "get (add n c) = get c + n"
    and contributes_add: "fc_contributesToConnection (add n c) = fc_contributesToConnection c"
begin

lemma contribution_add:
  "unat (get c) + unat n < 2 ^ 64 \<Longrightarrow>
   contribution get (add n c) = contribution get c + (if fc_contributesToConnection c then unat n else 0)"
  by (simp add: contribution_def get_add contributes_add unat_word_ariths)

lemma balanced_add:
  assumes "balanced get R m" "fm_streamFlowController m i = Some c"
    and "unat (get c) + unat n < 2 ^ 64"
    and "fc_contributesToConnection c \<Longrightarrow> unat (get (fm_connFlowController m)) + unat n < 2 ^ 64"
  shows "balanced get R (if fc_contributesToConnection c
     then set_conn (add n (fm_connFlowController m)) (set_stream i (add n c) m) else set_stream i (add n c) m)"
  using assms contribution_add [OF assms(3)] stream_total_set [of m get R i "add n c"]
    stream_total_split [of m i c get R]
  by (auto simp: balanced_def get_add unat_word_ariths)

lemma both_levels_add:
  assumes "both_levels i (add n) m = (None, m')"
  obtains c where "fm_streamFlowController m i = Some c"
    "m' = (if fc_contributesToConnection c
     then set_conn (add n (fm_connFlowController m)) (set_stream i (add n c) m) else set_stream i (add n c) m)"
  using assms by (auto simp: both_levels_def Let_def contributes_add split: option.splits)

end

interpretation received: flow_counter fc_highestReceived IncrementHighestReceived
  by unfold_locales (simp_all add: IncrementHighestReceived_def)

interpretation read: flow_counter fc_bytesRead "fc_AddBytesRead now" for now
  by unfold_locales (simp_all add: fc_AddBytesRead_def Let_def)

interpretation sent: flow_counter fc_bytesSent fc_AddBytesSent
  by unfold_locales (simp_all add: fc_AddBytesSent_def)

interpretation retrans: flow_counter fc_bytesRetrans fc_AddBytesRetrans
  by unfold_locales (simp_all add: fc_AddBytesRetrans_def)

section \<open>Runs of the manager\<close>

text \<open>
  What every controller keeps: no more is read than was received, no more is received than the window allows, and the
  numbers stay so far below \<open>2^64\<close> that nothing wraps.
\<close>

definition fc_ok :: "flowController \<Rightarrow> bool" where
  "fc_ok c \<longleftrightarrow> fc_bytesRead c \<le> fc_highestReceived c \<and> fc_highestReceived c \<le> fc_receiveWindow c \<and>
     fc_receiveWindow c < 2 ^ 62 \<and> fc_receiveWindowIncrement c \<le> fc_maxReceiveWindowIncrement c \<and>
     fc_maxReceiveWindowIncrement c < 2 ^ 62"

definition same_counters :: "flowController \<Rightarrow> flowController \<Rightarrow> bool" where
  "same_counters c c' \<longleftrightarrow> fc_streamID c' = fc_streamID c \<and>
     fc_contributesToConnection c' = fc_contributesToConnection c \<and> fc_bytesSent c' = fc_bytesSent c \<and>
     fc_bytesRead c' = fc_bytesRead c \<and> fc_highestReceived c' = fc_highestReceived c"

lemma maybeAdjust_cases:
  assumes "fc_ok c"
  obtains inc where "maybeAdjustWindowIncrement now rtt remotes c = c\<lparr>fc_receiveWindowIncrement := inc\<rparr>"
    "fc_receiveWindowIncrement c \<le> inc" "inc \<le> fc_maxReceiveWindowIncrement c"
proof -
  let ?i = "fc_receiveWindowIncrement c" and ?m = "fc_maxReceiveWindowIncrement c"
  have "?i \<le> 2 * ?i"
    using assms by (auto simp: fc_ok_def word_le_nat_alt word_less_nat_alt unat_word_ariths)
  then have "?i \<le> min (2 * ?i) ?m" using assms by (simp add: fc_ok_def)
  moreover have "min (2 * ?i) ?m \<le> ?m" by simp
  moreover have "?i \<le> ?m" using assms by (simp add: fc_ok_def)
  moreover have "maybeAdjustWindowIncrement now rtt remotes c = c\<lparr>fc_receiveWindowIncrement := ?i\<rparr> \<or>
      maybeAdjustWindowIncrement now rtt remotes c = c\<lparr>fc_receiveWindowIncrement := min (2 * ?i) ?m\<rparr>"
    by (simp add: maybeAdjustWindowIncrement_def Let_def split: option.splits)
  ultimately show ?thesis using that by blast
qed

lemma MaybeUpdateWindow_ok:
  assumes "MaybeUpdateWindow now rtt remotes c = ((necessary, inc, offset), c')"
    and "fc_ok c" "necessary \<Longrightarrow> offset < 2 ^ 62"
  shows "fc_ok c' \<and> same_counters c c' \<and> fc_receiveWindow c' = offset \<and> fc_receiveWindow c \<le> offset \<and>
    fc_receiveWindowIncrement c' div 2 \<le> offset - fc_bytesRead c'"
proof (cases "fc_receiveWindow c - fc_bytesRead c < fc_receiveWindowIncrement c div 2")
  case False
  then have "c' = c \<and> offset = fc_receiveWindow c"
    using assms(1) by (auto simp: MaybeUpdateWindow_def)
  then show ?thesis using False assms(2) by (simp add: same_counters_def)
next
  case True
  obtain i where i: "maybeAdjustWindowIncrement now rtt remotes c = c\<lparr>fc_receiveWindowIncrement := i\<rparr>"
    "fc_receiveWindowIncrement c \<le> i" "i \<le> fc_maxReceiveWindowIncrement c"
    using maybeAdjust_cases [OF assms(2)] .
  have off: "offset = fc_bytesRead c + i" "necessary"
    and c': "c' = c\<lparr>fc_receiveWindowIncrement := i, fc_lastWindowUpdateTime := Some now,
        fc_receiveWindow := offset\<rparr>"
    using assms(1) True by (auto simp: MaybeUpdateWindow_def i(1) Let_def)
  note ok = assms(2) [unfolded fc_ok_def]
  have rw: "fc_bytesRead c \<le> fc_receiveWindow c" using ok by auto
  have "unat (fc_bytesRead c) < 2 ^ 62" "unat i < 2 ^ 62"
    using ok rw i(3) by (auto simp: word_le_nat_alt word_less_nat_alt)
  then have u: "unat offset = unat (fc_bytesRead c) + unat i" by (simp add: off unat_word_ariths)
  have "unat (fc_receiveWindow c) - unat (fc_bytesRead c) < unat (fc_receiveWindowIncrement c) div 2"
    using True rw by (simp add: word_less_nat_alt unat_sub unat_div)
  then have win: "fc_receiveWindow c \<le> offset"
    using u i(2) by (auto simp: word_le_nat_alt)
  have "i div 2 \<le> i" by (simp add: word_le_nat_alt unat_div)
  then show ?thesis
    using assms(3) off i ok win by (auto simp: c' fc_ok_def same_counters_def)
qed

lemma EnsureMinimum_ok:
  "fc_ok c \<Longrightarrow> fc_ok (EnsureMinimumWindowIncrement n c) \<and> same_counters c (EnsureMinimumWindowIncrement n c) \<and>
     fc_receiveWindow (EnsureMinimumWindowIncrement n c) = fc_receiveWindow c"
  by (auto simp: EnsureMinimumWindowIncrement_def fc_ok_def same_counters_def)

definition fm_inv :: "flowController list \<Rightarrow> flowControlManager \<Rightarrow> bool" where
  "fm_inv R m \<longleftrightarrow>
     (\<forall>i c. fm_streamFlowController m i = Some c \<longrightarrow> fc_ok c \<and> fc_streamID c = i \<and> i \<noteq> 0) \<and>
     fc_ok (fm_connFlowController m) \<and> fc_streamID (fm_connFlowController m) = 0 \<and>
     (\<forall>c\<in>set R. fc_bytesRead c \<le> fc_highestReceived c) \<and>
     balanced fc_highestReceived R m \<and> balanced fc_bytesRead R m \<and> balanced fc_bytesSent R m"

lemma fm_inv_set_stream:
  assumes "fm_inv R m" "fm_streamFlowController m i = Some c" "fc_ok c'" "same_counters c c'"
  shows "fm_inv R (set_stream i c' m)"
proof -
  have "contribution g c' = contribution g c" if "g \<in> {fc_highestReceived, fc_bytesRead, fc_bytesSent}" for g
    using assms(4) that by (auto simp: contribution_def same_counters_def)
  then show ?thesis
    using assms by (auto simp: fm_inv_def balanced_same same_counters_def)
qed

lemma fm_inv_set_conn:
  assumes "fm_inv R m" "fc_ok c" "same_counters (fm_connFlowController m) c"
  shows "fm_inv R (set_conn c m)"
  using assms by (auto simp: fm_inv_def same_counters_def intro: balanced_conn)

text \<open>The connection has received as much more than it has read as the stream it contributes to.\<close>

lemma read_le_received:
  assumes "fm_inv R m" "fm_streamFlowController m i = Some c" "fc_contributesToConnection c"
  shows "unat (fc_bytesRead (fm_connFlowController m)) + (unat (fc_highestReceived c) - unat (fc_bytesRead c))
    \<le> unat (fc_highestReceived (fm_connFlowController m))"
proof -
  let ?h = fc_highestReceived and ?r = fc_bytesRead
  note inv = assms(1) [unfolded fm_inv_def]
  have fin: "finite (dom (fm_streamFlowController m))" using inv by (simp add: balanced_def)
  have le: "contribution ?r d \<le> contribution ?h d" if "fm_streamFlowController m j = Some d \<or> d \<in> set R" for j d
    using that inv by (auto simp: contribution_def fc_ok_def word_le_nat_alt)
  have "sum_list (map (contribution ?r) R) \<le> sum_list (map (contribution ?h) R)"
    by (intro sum_list_mono le) auto
  moreover have "(\<Sum>j\<in>dom (fm_streamFlowController (RemoveStream i m)).
        contribution ?r (the (fm_streamFlowController (RemoveStream i m) j))) \<le>
      (\<Sum>j\<in>dom (fm_streamFlowController (RemoveStream i m)).
        contribution ?h (the (fm_streamFlowController (RemoveStream i m) j)))"
    by (intro sum_mono) (auto simp: RemoveStream_def split: if_splits intro: le)
  ultimately have "stream_total ?r R (RemoveStream i m) \<le> stream_total ?h R (RemoveStream i m)"
    by (simp add: stream_total_def)
  then show ?thesis
    using inv assms(3) stream_total_split [OF fin assms(2), of ?r R] stream_total_split [OF fin assms(2), of ?h R]
      le [of i c] assms(2)
    by (simp add: balanced_def contribution_def)
qed

subsection \<open>Every operation keeps the invariant\<close>

definition fc_params_ok :: "connectionParametersManager \<Rightarrow> bool" where
  "fc_params_ok cp \<longleftrightarrow>
     GetReceiveStreamFlowControlWindow cp \<le> GetMaxReceiveStreamFlowControlWindow cp \<and>
     GetReceiveConnectionFlowControlWindow cp \<le> GetMaxReceiveConnectionFlowControlWindow cp \<and>
     GetMaxReceiveStreamFlowControlWindow cp < 2 ^ 62 \<and> GetMaxReceiveConnectionFlowControlWindow cp < 2 ^ 62"

lemma newFlowController_ok:
  "fc_params_ok cp \<Longrightarrow> fc_ok (newFlowController i b cp)"
  by (auto simp: fc_params_ok_def newFlowController_def fc_ok_def Let_def)

lemma newFlowController_sel [simp]:
  "fc_streamID (newFlowController i b cp) = i" "fc_bytesSent (newFlowController i b cp) = 0"
  "fc_bytesRead (newFlowController i b cp) = 0" "fc_highestReceived (newFlowController i b cp) = 0"
  by (simp_all add: newFlowController_def Let_def)

lemma fm_inv_start: "fc_params_ok cp \<Longrightarrow> fm_inv [] (NewFlowControlManager cp)"
  by (simp add: fm_inv_def NewFlowControlManager_def newFlowController_ok balanced_def stream_total_def)

lemma fm_inv_NewStream:
  "fm_inv R m \<Longrightarrow> fc_params_ok cp \<Longrightarrow> i \<noteq> 0 \<Longrightarrow> fm_inv R (NewStream cp i b m)"
  by (auto simp: fm_inv_def NewStream_def newFlowController_ok intro: balanced_new split: option.splits)

lemma fm_inv_RemoveStream:
  assumes "fm_inv R m" "fm_streamFlowController m i = Some c"
  shows "fm_inv (c # R) (RemoveStream i m)"
proof -
  have "fc_ok c" using assms by (simp add: fm_inv_def)
  then show ?thesis
    using assms balanced_remove [of _ R m i c]
    by (auto simp: fm_inv_def fc_ok_def) (auto simp: RemoveStream_def fc_ok_def split: if_splits)
qed

text \<open>Receiving: the offsets are checked before the state is used any further.\<close>

definition new_bytes :: "ByteCount \<Rightarrow> flowController \<Rightarrow> nat" where
  "new_bytes off c = unat off - unat (fc_highestReceived c)"

lemma fc_UpdateHighestReceived_eq:
  obtains e where "fc_UpdateHighestReceived off c =
    ((of_nat (new_bytes off c), e), IncrementHighestReceived (of_nat (new_bytes off c)) c)"
    "e = None \<longleftrightarrow> fc_highestReceived c \<le> off"
proof (cases "off > fc_highestReceived c")
  case True
  then have "of_nat (new_bytes off c) = off - fc_highestReceived c"
    by (simp add: new_bytes_def of_nat_diff word_less_nat_alt)
  with True show ?thesis
    by (intro that [of None]) (auto simp: fc_UpdateHighestReceived_def IncrementHighestReceived_def)
next
  case False
  then have "new_bytes off c = 0" by (simp add: new_bytes_def word_less_nat_alt)
  with False show ?thesis
    by (intro that [of "if off = fc_highestReceived c then None else Some ErrReceivedSmallerByteOffset"])
      (auto simp: fc_UpdateHighestReceived_def IncrementHighestReceived_def)
qed

lemma unat_new_bytes: "unat (of_nat (new_bytes off c) :: u64) = new_bytes off c"
proof -
  have "new_bytes off c \<le> unat off" by (simp add: new_bytes_def)
  also have "\<dots> < 2 ^ 64" using unat_bound [of off] by simp
  finally show ?thesis by (simp add: unsigned_of_nat take_bit_nat_eq_self)
qed

lemma received_fits:
  assumes "fc_ok c"
  shows "unat (fc_highestReceived c) + new_bytes off c < 2 ^ 64"
    "fc_highestReceived c + of_nat (new_bytes off c) = max off (fc_highestReceived c)"
proof -
  have "unat (fc_highestReceived c) < 2 ^ 62"
    using assms by (auto simp: fc_ok_def word_le_nat_alt word_less_nat_alt)
  then show f: "unat (fc_highestReceived c) + new_bytes off c < 2 ^ 64"
    using unat_bound [of off] by (simp add: new_bytes_def)
  show "fc_highestReceived c + of_nat (new_bytes off c) = max off (fc_highestReceived c)"
  proof (rule unat_eqI)
    define n :: u64 where "n = of_nat (new_bytes off c)"
    have "unat n = new_bytes off c" by (simp add: n_def unat_new_bytes)
    then have "unat (fc_highestReceived c + n) = unat (fc_highestReceived c) + new_bytes off c"
      using f by (simp add: unat_word_ariths)
    then show "unat (fc_highestReceived c + n) = unat (max off (fc_highestReceived c))"
      by (auto simp: new_bytes_def max_def word_le_nat_alt)
  qed
qed

lemma check_received_ok:
  assumes inv: "fm_inv R m" and c: "fm_streamFlowController m i = Some c"
    and eq: "check_received i (IncrementHighestReceived (of_nat (new_bytes off c)) c) (of_nat (new_bytes off c)) m = (e, m')"
  shows "(e = None \<longleftrightarrow> off \<le> fc_receiveWindow c \<and>
       (fc_contributesToConnection c \<longrightarrow>
        unat (fc_highestReceived (fm_connFlowController m)) + new_bytes off c \<le> unat (fc_receiveWindow (fm_connFlowController m)))) \<and>
     (e = None \<or> e = Some errReceivedTooMuchData) \<and> (e = None \<longrightarrow> fm_inv R m')"
proof -
  define n :: u64 where "n = of_nat (new_bytes off c)"
  have ok: "fc_ok c" "fc_ok (fm_connFlowController m)" using inv c by (auto simp: fm_inv_def)
  have un: "unat n = new_bytes off c" by (simp add: n_def unat_new_bytes)
  have h: "fc_highestReceived c + n = max off (fc_highestReceived c)"
    using received_fits(2) [OF ok(1)] by (simp add: n_def)
  have viol: "CheckFlowControlViolation (IncrementHighestReceived n c) \<longleftrightarrow> \<not> off \<le> fc_receiveWindow c"
    using ok(1) h by (auto simp: CheckFlowControlViolation_def IncrementHighestReceived_def fc_ok_def not_le less_max_iff_disj)
  let ?d = "fm_connFlowController m"
  have small: "new_bytes off c < 2 ^ 62" if "off \<le> fc_receiveWindow c"
    using that ok(1) by (auto simp: new_bytes_def fc_ok_def word_le_nat_alt word_less_nat_alt)
  have d62: "unat (fc_highestReceived ?d) < 2 ^ 62"
    using ok(2) by (auto simp: fc_ok_def word_le_nat_alt word_less_nat_alt)
  have violc: "CheckFlowControlViolation (IncrementHighestReceived n ?d) \<longleftrightarrow>
      \<not> unat (fc_highestReceived ?d) + new_bytes off c \<le> unat (fc_receiveWindow ?d)" if "off \<le> fc_receiveWindow c"
    using small [OF that] d62 un
    by (auto simp: CheckFlowControlViolation_def IncrementHighestReceived_def word_less_nat_alt unat_word_ariths)
  have cont: "fc_contributesToConnection (IncrementHighestReceived n c) = fc_contributesToConnection c"
    by (simp add: IncrementHighestReceived_def)
  note eq' = eq [folded n_def, unfolded check_received_def Let_def viol cont manager_simps]
  have 1: "e = None \<longleftrightarrow> off \<le> fc_receiveWindow c \<and> (fc_contributesToConnection c \<longrightarrow>
        unat (fc_highestReceived ?d) + new_bytes off c \<le> unat (fc_receiveWindow ?d))"
    using eq' violc by (auto split: if_splits)
  have 2: "e = None \<or> e = Some errReceivedTooMuchData" using eq' by (auto split: if_splits)
  have 3: "fm_inv R m'" if e: "e = None"
  proof -
    have acc: "off \<le> fc_receiveWindow c" "fc_contributesToConnection c \<Longrightarrow>
        unat (fc_highestReceived ?d) + new_bytes off c \<le> unat (fc_receiveWindow ?d)" using 1 e by auto
    have m': "m' = (if fc_contributesToConnection c
        then set_conn (IncrementHighestReceived n ?d) (set_stream i (IncrementHighestReceived n c) m)
        else set_stream i (IncrementHighestReceived n c) m)"
      using eq' e acc(1) by (auto split: if_splits)
    have b: "balanced fc_highestReceived R m'"
      unfolding m' using inv c received_fits(1) [OF ok(1), of off] small [OF acc(1)] d62
      by (intro received.balanced_add) (auto simp: fm_inv_def un)
    have okc: "fc_ok (IncrementHighestReceived n c)"
      using ok(1) h acc(1) by (auto simp: fc_ok_def IncrementHighestReceived_def max_def split: if_splits)
    have okd: "fc_ok (IncrementHighestReceived n ?d)" if "fc_contributesToConnection c"
      using ok(2) acc(2) [OF that] small [OF acc(1)] d62 un
      by (auto simp: fc_ok_def IncrementHighestReceived_def word_le_nat_alt unat_word_ariths)
    have other: "balanced g R m'" if "balanced g R m" "g = fc_bytesRead \<or> g = fc_bytesSent" for g
      unfolding m' using that balanced_same [OF that(1) c, of "IncrementHighestReceived n c"]
      by (auto simp: IncrementHighestReceived_def contribution_def intro!: balanced_conn)
    show ?thesis
      using inv c b okc okd other unfolding fm_inv_def m'
      by (auto simp: IncrementHighestReceived_def split: if_splits)
  qed
  show ?thesis using 1 2 3 by blast
qed

text \<open>Reading and sending.\<close>

lemma AddBytesRead_ok:
  assumes inv: "fm_inv R m" and c: "fm_streamFlowController m i = Some c"
    and n: "unat n \<le> unat (fc_highestReceived c) - unat (fc_bytesRead c)"
    and eq: "AddBytesRead now i n m = (None, m')"
  shows "fm_inv R m'"
proof -
  let ?d = "fm_connFlowController m"
  have ok: "fc_ok c" "fc_ok ?d" using inv c by (auto simp: fm_inv_def)
  have h62: "unat (fc_highestReceived c) < 2 ^ 62" "unat (fc_highestReceived ?d) < 2 ^ 62"
    using ok by (auto simp: fc_ok_def word_le_nat_alt word_less_nat_alt)
  have rc: "unat (fc_bytesRead c) + unat n \<le> unat (fc_highestReceived c)"
    using n ok(1) by (auto simp: fc_ok_def word_le_nat_alt)
  have rd: "unat (fc_bytesRead ?d) + unat n \<le> unat (fc_highestReceived ?d)" if "fc_contributesToConnection c"
    using read_le_received [OF inv c that] n by linarith
  have m': "m' = (if fc_contributesToConnection c
      then set_conn (fc_AddBytesRead now n ?d) (set_stream i (fc_AddBytesRead now n c) m)
      else set_stream i (fc_AddBytesRead now n c) m)"
    using eq c unfolding AddBytesRead_def by (elim read.both_levels_add) simp
  have b: "balanced fc_bytesRead R m'"
    unfolding m' using inv c rc rd h62 by (intro read.balanced_add) (fastforce simp: fm_inv_def)+
  have upd: "fc_ok (fc_AddBytesRead now n d)"
    if "fc_ok d" "unat (fc_bytesRead d) + unat n \<le> unat (fc_highestReceived d)" "unat (fc_highestReceived d) < 2 ^ 62" for d
    using that by (auto simp: fc_ok_def fc_AddBytesRead_def Let_def word_le_nat_alt unat_word_ariths)
  have sel: "fc_streamID (fc_AddBytesRead now n d) = fc_streamID d"
      "fc_highestReceived (fc_AddBytesRead now n d) = fc_highestReceived d"
      "fc_bytesSent (fc_AddBytesRead now n d) = fc_bytesSent d"
      "fc_contributesToConnection (fc_AddBytesRead now n d) = fc_contributesToConnection d" for d
    by (simp_all add: fc_AddBytesRead_def Let_def)
  have other: "balanced g R m'" if "balanced g R m" "g = fc_highestReceived \<or> g = fc_bytesSent" for g
    unfolding m' using that balanced_same [OF that(1) c, of "fc_AddBytesRead now n c"]
    by (auto simp: sel contribution_def intro!: balanced_conn)
  show ?thesis
    using inv c b upd [OF ok(1) rc h62(1)] upd [OF ok(2) rd h62(2)] other unfolding fm_inv_def m'
    by (auto simp: sel split: if_splits)
qed

lemma SendWindowSize_fits:
  assumes "n \<le> fc_SendWindowSize cp c"
  shows "unat (fc_bytesSent c) + unat n < 2 ^ 64"
    "n = 0 \<or> (unat (fc_bytesSent c) + unat n \<le> unat (getSendWindow cp c))"
proof -
  have "n = 0 \<or> (unat (fc_bytesSent c) + unat n \<le> unat (getSendWindow cp c))"
  proof (cases "fc_bytesSent c > getSendWindow cp c")
    case True
    then show ?thesis using assms by (simp add: fc_SendWindowSize_def)
  next
    case False
    then have "unat n \<le> unat (getSendWindow cp c) - unat (fc_bytesSent c)"
      using assms unfolding fc_SendWindowSize_def Let_def if_not_P [OF False]
      by (simp add: word_le_nat_alt unat_sub not_less)
    then have "unat (fc_bytesSent c) + unat n \<le> unat (getSendWindow cp c)"
      using False unfolding word_less_nat_alt by linarith
    then show ?thesis ..
  qed
  then show "n = 0 \<or> (unat (fc_bytesSent c) + unat n \<le> unat (getSendWindow cp c))"
    "unat (fc_bytesSent c) + unat n < 2 ^ 64"
    using unat_bound [of "getSendWindow cp c"] unat_bound [of "fc_bytesSent c"] by auto
qed

lemma AddBytesSent_ok:
  assumes inv: "fm_inv R m" and w: "SendWindowSize cp i m = Inr w" "n \<le> w"
    and eq: "AddBytesSent i n m = (None, m')"
  shows "fm_inv R m'"
proof -
  let ?d = "fm_connFlowController m"
  obtain c where c: "fm_streamFlowController m i = Some c"
    and m': "m' = (if fc_contributesToConnection c
      then set_conn (fc_AddBytesSent n ?d) (set_stream i (fc_AddBytesSent n c) m)
      else set_stream i (fc_AddBytesSent n c) m)"
    using eq unfolding AddBytesSent_def by (elim sent.both_levels_add) simp
  have n: "n \<le> fc_SendWindowSize cp c" "fc_contributesToConnection c \<Longrightarrow> n \<le> fc_SendWindowSize cp ?d"
    using w c by (auto simp: SendWindowSize_def Let_def split: if_splits)
  have b: "balanced fc_bytesSent R m'"
    unfolding m' using inv c SendWindowSize_fits(1) [OF n(1)] SendWindowSize_fits(1) [OF n(2)]
    by (intro sent.balanced_add) (auto simp: fm_inv_def)
  have other: "balanced g R m'" if "balanced g R m" "g = fc_highestReceived \<or> g = fc_bytesRead" for g
    unfolding m' using that balanced_same [OF that(1) c, of "fc_AddBytesSent n c"]
    by (auto simp: fc_AddBytesSent_def contribution_def intro!: balanced_conn)
  show ?thesis
    using inv c b other unfolding fm_inv_def m'
    by (auto simp: fc_AddBytesSent_def fc_ok_def split: if_splits)
qed

text \<open>An operation that changes no counter of the invariant.\<close>

lemma fm_inv_both_levels:
  assumes "fm_inv R m" "both_levels i upd m = (None, m')"
    and "\<And>c. fc_ok c \<Longrightarrow> fc_ok (upd c) \<and> same_counters c (upd c)"
  shows "fm_inv R m'"
proof -
  obtain c where c: "fm_streamFlowController m i = Some c"
    using assms(2) by (auto simp: both_levels_def split: option.splits)
  have ok: "fc_ok c" "fc_ok (fm_connFlowController m)" using assms(1) c by (auto simp: fm_inv_def)
  have 1: "fm_inv R (set_stream i (upd c) m)"
    using fm_inv_set_stream [OF assms(1) c] assms(3) [OF ok(1)] by blast
  then have 2: "fm_inv R (set_conn (upd (fm_connFlowController m)) (set_stream i (upd c) m))"
    using assms(3) [OF ok(2)] by (intro fm_inv_set_conn) auto
  show ?thesis using assms(2) c 1 2 by (auto simp: both_levels_def Let_def)
qed

lemma UpdateSendWindow_ok:
  "UpdateSendWindow off c = (b, c') \<Longrightarrow> fc_ok c \<Longrightarrow> fc_ok c' \<and> same_counters c c'"
  by (auto simp: UpdateSendWindow_def fc_ok_def same_counters_def split: if_splits)

lemma UpdateWindow_ok:
  assumes "fm_inv R m" "UpdateWindow i off m = (r, m')"
  shows "fm_inv R m'"
proof (cases "i = 0")
  case True
  obtain b c where u: "UpdateSendWindow off (fm_connFlowController m) = (b, c)" by fastforce
  have "fc_ok (fm_connFlowController m)" using assms(1) by (simp add: fm_inv_def)
  then have "fm_inv R (set_conn c m)"
    using UpdateSendWindow_ok [OF u] assms(1) by (intro fm_inv_set_conn) auto
  then show ?thesis using assms(2) True u by (simp add: UpdateWindow_def)
next
  case False
  show ?thesis
  proof (cases "fm_streamFlowController m i")
    case (Some d)
    obtain b c where u: "UpdateSendWindow off d = (b, c)" by fastforce
    have "fc_ok d" using assms(1) Some by (simp add: fm_inv_def)
    then have "fm_inv R (set_stream i c m)"
      using UpdateSendWindow_ok [OF u] assms(1) Some by (intro fm_inv_set_stream) auto
    then show ?thesis using assms(2) False Some u by (simp add: UpdateWindow_def)
  qed (use assms False in \<open>simp add: UpdateWindow_def\<close>)
qed

text \<open>
  Window updates. \<open>window_grown\<close> relates a controller to what it was before: its counters are the same, its window
  did not shrink.
\<close>

definition window_grown :: "flowController \<Rightarrow> flowController \<Rightarrow> bool" where
  "window_grown c c' \<longleftrightarrow> same_counters c c' \<and> fc_receiveWindow c \<le> fc_receiveWindow c'"

definition has_credit :: "flowController \<Rightarrow> bool" where
  "has_credit c \<longleftrightarrow> fc_receiveWindowIncrement c div 2 \<le> fc_receiveWindow c - fc_bytesRead c"

lemma window_grown_refl: "window_grown c c"
  by (simp add: window_grown_def same_counters_def)

lemma window_grown_trans: "window_grown a b \<Longrightarrow> window_grown b c \<Longrightarrow> window_grown a c"
  by (auto simp: window_grown_def same_counters_def)

text \<open>What the loop over the streams does, for the streams it visits and for the others.\<close>

definition updates_done ::
    "StreamID list \<Rightarrow> WindowUpdate list \<Rightarrow> flowControlManager \<Rightarrow> flowControlManager \<Rightarrow> bool" where
  "updates_done ids res m m' \<longleftrightarrow>
     (\<forall>i. case fm_streamFlowController m i of
            None \<Rightarrow> fm_streamFlowController m' i = None
          | Some c \<Rightarrow> (\<exists>c'. fm_streamFlowController m' i = Some c' \<and> window_grown c c' \<and>
              (i \<in> set ids \<longrightarrow> has_credit c') \<and> (i \<notin> set ids \<longrightarrow> c' = c))) \<and>
     window_grown (fm_connFlowController m) (fm_connFlowController m') \<and>
     (\<forall>w\<in>set res. wu_StreamID w \<in> set ids \<and>
        (\<exists>c'. fm_streamFlowController m' (wu_StreamID w) = Some c' \<and> wu_Offset w = fc_receiveWindow c'))"

lemma updates_doneD:
  assumes "updates_done ids res m m'" "fm_streamFlowController m i = Some c"
  obtains c' where "fm_streamFlowController m' i = Some c'" "window_grown c c'"
    "i \<in> set ids \<Longrightarrow> has_credit c'" "i \<notin> set ids \<Longrightarrow> c' = c"
  using assms unfolding updates_done_def by (auto dest!: spec [of _ i])

lemma updates_done_Cons:
  assumes step: "fm_streamFlowController m i = Some c" "window_grown c c'" "has_credit c'"
      "fm_streamFlowController m1 = (fm_streamFlowController m)(i \<mapsto> c')"
      "window_grown (fm_connFlowController m) (fm_connFlowController m1)"
    and rest: "updates_done ids res m1 m'" "i \<notin> set ids"
    and res': "set res' \<subseteq> insert \<lparr> wu_StreamID = i, wu_Offset = fc_receiveWindow c' \<rparr> (set res)"
  shows "updates_done (i # ids) res' m m'"
proof -
  have keep: "fm_streamFlowController m' i = Some c'"
    using rest step(4) by (auto elim!: updates_doneD [of _ _ _ _ i c'])
  have streams: "case fm_streamFlowController m j of
       None \<Rightarrow> fm_streamFlowController m' j = None
     | Some d \<Rightarrow> (\<exists>d'. fm_streamFlowController m' j = Some d' \<and> window_grown d d' \<and>
         (j \<in> set (i # ids) \<longrightarrow> has_credit d') \<and> (j \<notin> set (i # ids) \<longrightarrow> d' = d))" for j
  proof (cases "j = i")
    case True
    then show ?thesis using keep step(1,2,3) by simp
  next
    case False
    then have "fm_streamFlowController m1 j = fm_streamFlowController m j" using step(4) by simp
    then show ?thesis using rest(1) False unfolding updates_done_def
      by (auto dest!: spec [of _ j] split: option.splits)
  qed
  have conn: "window_grown (fm_connFlowController m) (fm_connFlowController m')"
    using step(5) rest(1) window_grown_trans unfolding updates_done_def by blast
  have ws: "wu_StreamID w \<in> set (i # ids) \<and>
      (\<exists>d. fm_streamFlowController m' (wu_StreamID w) = Some d \<and> wu_Offset w = fc_receiveWindow d)"
    if "w \<in> set res'" for w
    using that res' rest(1) keep unfolding updates_done_def by auto
  show ?thesis unfolding updates_done_def using streams conn ws by blast
qed

lemma stream_updates_ok:
  assumes "stream_updates now rtt remotes force ids m = (res, m')"
    and "fm_inv R m" "distinct ids" "set ids \<subseteq> dom (fm_streamFlowController m)"
    and "\<forall>w\<in>set res. wu_Offset w < 2 ^ 62"
  shows "fm_inv R m' \<and> updates_done ids res m m'"
  using assms
proof (induction ids arbitrary: m res)
  case Nil
  then show ?case by (auto simp: updates_done_def window_grown_refl split: option.splits)
next
  case (Cons i ids)
  then obtain c where c: "fm_streamFlowController m i = Some c" by auto
  obtain nec inc off c' where mu: "MaybeUpdateWindow now rtt remotes c = ((nec, inc, off), c')"
    by (metis prod_cases3 surj_pair)
  have ok: "fc_ok c" "fc_ok (fm_connFlowController m)" using Cons.prems(2) c by (auto simp: fm_inv_def)
  define m1 where "m1 = set_stream i c' m"
  define m2 where "m2 = (if (force \<or> nec) \<and> fc_contributesToConnection c' \<and> inc \<noteq> 0
    then set_conn (EnsureMinimumWindowIncrement (times_one_and_half inc) (fm_connFlowController m1)) m1 else m1)"
  obtain res2 where rec: "stream_updates now rtt remotes force ids m2 = (res2, m')"
    and res: "res = (if force \<or> nec then \<lparr> wu_StreamID = i, wu_Offset = off \<rparr> # res2 else res2)"
    using Cons.prems(1) c mu by (auto simp: Let_def m1_def m2_def split: prod.splits if_splits)
  have off: "off < 2 ^ 62" if "nec" using Cons.prems(5) that by (simp add: res)
  have c': "fc_ok c'" "same_counters c c'" "fc_receiveWindow c' = off" "fc_receiveWindow c \<le> off"
      "has_credit c'"
    using MaybeUpdateWindow_ok [OF mu ok(1) off] by (auto simp: has_credit_def)
  have i1: "fm_inv R m1" unfolding m1_def by (rule fm_inv_set_stream [OF Cons.prems(2) c c'(1,2)])
  note ens = EnsureMinimum_ok [OF ok(2), of "times_one_and_half inc"]
  have i2: "fm_inv R m2"
    using i1 ens fm_inv_set_conn [OF i1] by (auto simp: m2_def m1_def)
  have s2: "fm_streamFlowController m2 = (fm_streamFlowController m)(i \<mapsto> c')"
    by (simp add: m2_def m1_def)
  have w2: "window_grown (fm_connFlowController m) (fm_connFlowController m2)"
  proof -
    have "window_grown (fm_connFlowController m)
        (EnsureMinimumWindowIncrement (times_one_and_half inc) (fm_connFlowController m))"
      using ens by (simp add: window_grown_def)
    then show ?thesis by (simp add: m2_def m1_def window_grown_refl)
  qed
  have rest: "fm_inv R m' \<and> updates_done ids res2 m2 m'"
    using Cons.prems(3,4,5) by (intro Cons.IH [OF rec i2]) (auto simp: s2 res split: if_splits)
  have "updates_done (i # ids) res m m'"
    using c' Cons.prems(3) rest
    by (intro updates_done_Cons [OF c _ c'(5) s2 w2]) (auto simp: window_grown_def res)
  then show ?case using rest by blast
qed

lemma GetWindowUpdates_ok:
  assumes "GetWindowUpdates now rtt remotes force ids m = (res, m')"
    and "fm_inv R m" "distinct ids" "set ids = dom (fm_streamFlowController m)"
    and "\<forall>w\<in>set res. wu_Offset w < 2 ^ 62"
  shows "fm_inv R m' \<and> window_grown (fm_connFlowController m) (fm_connFlowController m') \<and>
    has_credit (fm_connFlowController m') \<and>
    (\<forall>i c. fm_streamFlowController m i = Some c \<longrightarrow>
       (\<exists>c'. fm_streamFlowController m' i = Some c' \<and> window_grown c c' \<and> has_credit c')) \<and>
    (\<forall>w\<in>set res. GetReceiveWindow (wu_StreamID w) m' = Inr (wu_Offset w))"
proof -
  obtain res1 m1 where s: "stream_updates now rtt remotes force ids m = (res1, m1)" by fastforce
  obtain nec inc off c where mu: "MaybeUpdateWindow now rtt remotes (fm_connFlowController m1) = ((nec, inc, off), c)"
    by (metis prod_cases3 surj_pair)
  have res: "res = (if force \<or> nec then res1 @ [\<lparr> wu_StreamID = 0, wu_Offset = off \<rparr>] else res1)"
    and m': "m' = set_conn c m1"
    using assms(1) s mu by (auto simp: GetWindowUpdates_def split: if_splits)
  have st: "fm_inv R m1" "updates_done ids res1 m m1"
    using stream_updates_ok [OF s assms(2,3)] assms(4,5) by (auto simp: res split: if_splits)
  have ok: "fc_ok (fm_connFlowController m1)" using st(1) by (simp add: fm_inv_def)
  have off: "off < 2 ^ 62" if nec using assms(5) that by (simp add: res)
  note c = MaybeUpdateWindow_ok [OF mu ok off]
  have "fm_inv R m'" unfolding m' using c by (intro fm_inv_set_conn [OF st(1)]) auto
  moreover have "window_grown (fm_connFlowController m) (fm_connFlowController m')"
  proof (rule window_grown_trans)
    show "window_grown (fm_connFlowController m) (fm_connFlowController m1)"
      using st(2) unfolding updates_done_def by blast
    show "window_grown (fm_connFlowController m1) (fm_connFlowController m')"
      using c by (simp add: m' window_grown_def)
  qed
  moreover have "has_credit (fm_connFlowController m')" using c by (simp add: m' has_credit_def)
  moreover have "\<exists>d'. fm_streamFlowController m' i = Some d' \<and> window_grown d d' \<and> has_credit d'"
    if d: "fm_streamFlowController m i = Some d" for i d
  proof -
    obtain d' where d': "fm_streamFlowController m1 i = Some d'" "window_grown d d'" "i \<in> set ids \<Longrightarrow> has_credit d'"
      by (rule updates_doneD [OF st(2) d]) (use that in blast)
    moreover have "i \<in> set ids" using d unfolding assms(4) by (rule domI)
    ultimately show ?thesis by (simp add: m')
  qed
  moreover have "GetReceiveWindow (wu_StreamID w) m' = Inr (wu_Offset w)" if w: "w \<in> set res" for w
  proof (cases "w \<in> set res1")
    case True
    then obtain d where d: "fm_streamFlowController m1 (wu_StreamID w) = Some d" "wu_Offset w = fc_receiveWindow d"
      using st(2) unfolding updates_done_def by blast
    moreover have "wu_StreamID w \<noteq> 0" using st(1) d(1) unfolding fm_inv_def by blast
    ultimately show ?thesis by (simp add: GetReceiveWindow_def m')
  next
    case False
    then have "w = \<lparr> wu_StreamID = 0, wu_Offset = off \<rparr>" using w by (auto simp: res split: if_splits)
    then show ?thesis using c by (simp add: GetReceiveWindow_def m')
  qed
  ultimately show ?thesis by blast
qed

subsection \<open>Runs\<close>

text \<open>
  A run of the manager of a connection with the receive windows of \<open>cp\<close>. The parameters may change while the manager runs:
  the handshake sets the send windows. A reader of a stream reads what has been received, a sender asks \<open>SendWindowSize\<close>
  first, offsets received from the peer are arbitrary; an error closes the connection and ends the run. The list
  holds the controllers of the streams that have been removed. The windows stay below \<open>2^62\<close>: a connection
  that reads fewer than \<open>2^61\<close> bytes does not get there.
\<close>

definition same_receive_windows :: "connectionParametersManager \<Rightarrow> connectionParametersManager \<Rightarrow> bool" where
  "same_receive_windows cp cp' \<longleftrightarrow>
     GetReceiveStreamFlowControlWindow cp' = GetReceiveStreamFlowControlWindow cp \<and>
     GetReceiveConnectionFlowControlWindow cp' = GetReceiveConnectionFlowControlWindow cp \<and>
     GetMaxReceiveStreamFlowControlWindow cp' = GetMaxReceiveStreamFlowControlWindow cp \<and>
     GetMaxReceiveConnectionFlowControlWindow cp' = GetMaxReceiveConnectionFlowControlWindow cp"

inductive fm_run :: "connectionParametersManager \<Rightarrow> flowController list \<Rightarrow> flowControlManager \<Rightarrow> bool" for cp where
  fm_start: "fm_run cp [] (NewFlowControlManager cp)"
| fm_new: "\<lbrakk> fm_run cp R m; same_receive_windows cp cp'; i \<noteq> 0 \<rbrakk> \<Longrightarrow> fm_run cp R (NewStream cp' i contributes m)"
| fm_remove: "\<lbrakk> fm_run cp R m; fm_streamFlowController m i = Some c \<rbrakk> \<Longrightarrow> fm_run cp (c # R) (RemoveStream i m)"
| fm_reset: "\<lbrakk> fm_run cp R m; ResetStream i off m = (None, m') \<rbrakk> \<Longrightarrow> fm_run cp R m'"
| fm_received: "\<lbrakk> fm_run cp R m; UpdateHighestReceived i off m = (None, m') \<rbrakk> \<Longrightarrow> fm_run cp R m'"
| fm_read: "\<lbrakk> fm_run cp R m; fm_streamFlowController m i = Some c;
    unat n \<le> unat (fc_highestReceived c) - unat (fc_bytesRead c); AddBytesRead now i n m = (None, m') \<rbrakk> \<Longrightarrow>
    fm_run cp R m'"
| fm_sent: "\<lbrakk> fm_run cp R m; SendWindowSize cp' i m = Inr w; n \<le> w; AddBytesSent i n m = (None, m') \<rbrakk> \<Longrightarrow>
    fm_run cp R m'"
| fm_retrans: "\<lbrakk> fm_run cp R m; AddBytesRetrans i n m = (None, m') \<rbrakk> \<Longrightarrow> fm_run cp R m'"
| fm_window: "\<lbrakk> fm_run cp R m; UpdateWindow i off m = (r, m') \<rbrakk> \<Longrightarrow> fm_run cp R m'"
| fm_updates: "\<lbrakk> fm_run cp R m; distinct ids; set ids = dom (fm_streamFlowController m);
    GetWindowUpdates now rtt remotes force ids m = (res, m'); \<forall>w\<in>set res. wu_Offset w < 2 ^ 62 \<rbrakk> \<Longrightarrow>
    fm_run cp R m'"

lemma UpdateHighestReceived_ok:
  assumes "fm_inv R m" "fm_streamFlowController m i = Some c" "UpdateHighestReceived i off m = (e, m')"
  shows "(e = None \<longleftrightarrow> off \<le> fc_receiveWindow c \<and>
       (fc_contributesToConnection c \<longrightarrow>
        unat (fc_highestReceived (fm_connFlowController m)) + new_bytes off c \<le> unat (fc_receiveWindow (fm_connFlowController m)))) \<and>
     (e = None \<or> e = Some errReceivedTooMuchData) \<and> (e = None \<longrightarrow> fm_inv R m')"
proof -
  obtain e' where "fc_UpdateHighestReceived off c =
      ((of_nat (new_bytes off c), e'), IncrementHighestReceived (of_nat (new_bytes off c)) c)"
    by (rule fc_UpdateHighestReceived_eq)
  then have "check_received i (IncrementHighestReceived (of_nat (new_bytes off c)) c) (of_nat (new_bytes off c)) m = (e, m')"
    using assms(2,3) by (simp add: UpdateHighestReceived_def)
  then show ?thesis by (rule check_received_ok [OF assms(1,2)])
qed

text \<open>A reset is refused when more was received; otherwise it is a received offset.\<close>

lemma ResetStream_eq:
  assumes "fm_streamFlowController m i = Some c"
  shows "ResetStream i off m =
    (if off < fc_highestReceived c then (Some (QErr ''StreamDataAfterTermination''), m)
     else UpdateHighestReceived i off m)"
proof -
  have "set_stream i c m = m" using assms by (simp add: set_stream_def fun_upd_idem)
  then show ?thesis
    using assms by (auto simp: ResetStream_def UpdateHighestReceived_def fc_UpdateHighestReceived_def)
qed

lemma fm_run_inv:
  assumes "fm_run cp R m" "fc_params_ok cp"
  shows "fm_inv R m"
  using assms(1)
proof (induction rule: fm_run.induct)
  case fm_start
  show ?case by (rule fm_inv_start [OF assms(2)])
next
  case (fm_new R m cp' i contributes)
  have "fc_params_ok cp'" using assms(2) fm_new(2) by (simp add: fc_params_ok_def same_receive_windows_def)
  then show ?case by (rule fm_inv_NewStream [OF fm_new.IH _ fm_new(3)])
next
  case (fm_remove R m i c)
  then show ?case by (intro fm_inv_RemoveStream)
next
  case (fm_reset R m i off m')
  then obtain c where c: "fm_streamFlowController m i = Some c"
    by (auto simp: ResetStream_def split: option.splits)
  then have "UpdateHighestReceived i off m = (None, m')"
    using fm_reset(2) by (simp add: ResetStream_eq split: if_splits)
  then show ?case using UpdateHighestReceived_ok [OF fm_reset.IH c] by blast
next
  case (fm_received R m i off m')
  then obtain c where c: "fm_streamFlowController m i = Some c"
    by (auto simp: UpdateHighestReceived_def split: option.splits)
  then show ?case using UpdateHighestReceived_ok [OF fm_received.IH c fm_received(2)] by blast
next
  case (fm_read R m i c n now m')
  show ?case by (rule AddBytesRead_ok [OF fm_read.IH fm_read(2,3,4)])
next
  case (fm_sent R m cp' i w n m')
  show ?case by (rule AddBytesSent_ok [OF fm_sent.IH fm_sent(2,3,4)])
next
  case (fm_retrans R m i n m')
  show ?case
    by (rule fm_inv_both_levels [OF fm_retrans.IH fm_retrans(2) [unfolded AddBytesRetrans_def]])
      (simp add: fc_AddBytesRetrans_def fc_ok_def same_counters_def)
next
  case (fm_window R m i off r m')
  show ?case by (rule UpdateWindow_ok [OF fm_window.IH fm_window(2)])
next
  case (fm_updates R m ids now rtt remotes force res m')
  show ?case using GetWindowUpdates_ok [OF fm_updates(4) fm_updates.IH fm_updates(2,3,5)] by blast
qed

subsection \<open>Properties\<close>

text \<open>
  C9. Receive limits are exact. In every run, what the connection counts as received is the sum of the highest
  offsets of all streams that contribute to it, removed streams included; no stream and not the
  connection has received more than its window; and an offset that arrives next is accepted if and only if it is inside the window of
  its stream and, for a stream that contributes, the bytes it adds fit into the connection's window.
\<close>
theorem flow_receive_exact:
  assumes "fm_run cp R m" "fc_params_ok cp" "fm_streamFlowController m i = Some c"
  shows "unat (fc_highestReceived (fm_connFlowController m)) = stream_total fc_highestReceived R m \<and>
    fc_highestReceived (fm_connFlowController m) \<le> fc_receiveWindow (fm_connFlowController m) \<and>
    fc_bytesRead c \<le> fc_highestReceived c \<and> fc_highestReceived c \<le> fc_receiveWindow c \<and>
    (fst (UpdateHighestReceived i off m) = None \<longleftrightarrow>
      off \<le> fc_receiveWindow c \<and>
      (fc_contributesToConnection c \<longrightarrow>
        stream_total fc_highestReceived R m + new_bytes off c \<le> unat (fc_receiveWindow (fm_connFlowController m)))) \<and>
    (fst (UpdateHighestReceived i off m) \<noteq> None \<longrightarrow>
      fst (UpdateHighestReceived i off m) = Some errReceivedTooMuchData)"
proof -
  note inv = fm_run_inv [OF assms(1,2)]
  have t: "unat (fc_highestReceived (fm_connFlowController m)) = stream_total fc_highestReceived R m"
    and ok: "fc_ok c" "fc_ok (fm_connFlowController m)"
    using inv assms(3) by (auto simp: fm_inv_def balanced_def)
  have "UpdateHighestReceived i off m = (fst (UpdateHighestReceived i off m), snd (UpdateHighestReceived i off m))" by simp
  note u = UpdateHighestReceived_ok [OF inv assms(3) this, unfolded t]
  show ?thesis using t ok u by (auto simp: fc_ok_def)
qed

text \<open>
  C21. The receiver never stalls the sender. After \<open>GetWindowUpdates\<close>, in whatever order Go visits the streams,
  every stream and the connection can receive at least half a window increment more than has been read, no window has become smaller,
  and every update names the window its stream then has.
\<close>
theorem window_updates_keep_credit:
  assumes "fm_run cp R m" "fc_params_ok cp" "distinct ids" "set ids = dom (fm_streamFlowController m)"
    and "GetWindowUpdates now rtt remotes force ids m = (res, m')" "\<forall>w\<in>set res. wu_Offset w < 2 ^ 62"
  shows "(\<forall>i c. fm_streamFlowController m i = Some c \<longrightarrow>
      (\<exists>c'. fm_streamFlowController m' i = Some c' \<and> fc_receiveWindow c \<le> fc_receiveWindow c' \<and>
         fc_receiveWindowIncrement c' div 2 \<le> fc_receiveWindow c' - fc_bytesRead c')) \<and>
    (let d = fm_connFlowController m; d' = fm_connFlowController m'
     in fc_receiveWindow d \<le> fc_receiveWindow d' \<and>
        fc_receiveWindowIncrement d' div 2 \<le> fc_receiveWindow d' - fc_bytesRead d') \<and>
    (\<forall>w\<in>set res. GetReceiveWindow (wu_StreamID w) m' = Inr (wu_Offset w))"
  using GetWindowUpdates_ok [OF assms(5) fm_run_inv [OF assms(1,2)] assms(3,4,6)]
  unfolding has_credit_def window_grown_def Let_def by blast

text \<open>
  C17. The sender keeps the limits. In every run, the bytes counted for the connection are the sum over the streams that contribute;
  sending as many bytes on a stream as \<open>SendWindowSize\<close> allows, or fewer, succeeds, and, if any, neither the stream nor the connection
  has then sent more than its window.
\<close>
theorem flow_send_limits:
  assumes "fm_run cp R m" "fc_params_ok cp" "SendWindowSize cp' i m = Inr w" "n \<le> w"
  shows "\<exists>m' c c'. AddBytesSent i n m = (None, m') \<and> fm_streamFlowController m i = Some c \<and>
    fm_streamFlowController m' i = Some c' \<and> unat (fc_bytesSent c') = unat (fc_bytesSent c) + unat n \<and>
    unat (fc_bytesSent (fm_connFlowController m')) = stream_total fc_bytesSent R m' \<and>
    (n \<noteq> 0 \<longrightarrow> fc_bytesSent c' \<le> getSendWindow cp' c' \<and>
      (fc_contributesToConnection c' \<longrightarrow>
        stream_total fc_bytesSent R m' \<le> unat (getSendWindow cp' (fm_connFlowController m'))))"
proof -
  let ?d = "fm_connFlowController m"
  obtain c where c: "fm_streamFlowController m i = Some c"
    using assms(3) by (auto simp: SendWindowSize_def split: option.splits)
  define m' where "m' = snd (AddBytesSent i n m)"
  have add: "AddBytesSent i n m = (None, m')"
    using c by (simp add: m'_def AddBytesSent_def both_levels_def Let_def)
  have inv: "fm_inv R m'"
    by (rule AddBytesSent_ok [OF fm_run_inv [OF assms(1,2)] assms(3,4) add])
  then have total: "unat (fc_bytesSent (fm_connFlowController m')) = stream_total fc_bytesSent R m'"
    by (simp add: fm_inv_def balanced_def)
  have le: "n \<le> fc_SendWindowSize cp' c" "fc_contributesToConnection c \<Longrightarrow> n \<le> fc_SendWindowSize cp' ?d"
    using assms(3,4) c by (auto simp: SendWindowSize_def Let_def split: if_splits)
  let ?c' = "fc_AddBytesSent n c"
  have c': "fm_streamFlowController m' i = Some ?c'" "fc_contributesToConnection ?c' = fc_contributesToConnection c"
    and d': "fc_contributesToConnection c \<Longrightarrow> fm_connFlowController m' = fc_AddBytesSent n ?d"
    using c by (auto simp: m'_def AddBytesSent_def both_levels_def Let_def fc_AddBytesSent_def)
  have w: "getSendWindow cp' (fc_AddBytesSent n x) = getSendWindow cp' x" for x
    by (simp add: getSendWindow_def fc_AddBytesSent_def)
  have u: "unat (fc_bytesSent (fc_AddBytesSent n x)) = unat (fc_bytesSent x) + unat n"
    if "n \<le> fc_SendWindowSize cp' x" for x
    using SendWindowSize_fits(1) [OF that] by (simp add: fc_AddBytesSent_def unat_word_ariths)
  have "fc_bytesSent ?c' \<le> getSendWindow cp' ?c'" if "n \<noteq> 0"
    using SendWindowSize_fits(2) [OF le(1)] u [OF le(1)] that by (simp add: w word_le_nat_alt)
  moreover have "stream_total fc_bytesSent R m' \<le> unat (getSendWindow cp' (fm_connFlowController m'))"
    if "n \<noteq> 0" "fc_contributesToConnection c"
    using SendWindowSize_fits(2) [OF le(2)] u [OF le(2)] that total d' by (simp add: w)
  ultimately show ?thesis using add c c' u [OF le(1)] total by blast
qed

text \<open>A connection on which stream 5 has received 20000 bytes, all of them read.\<close>

definition fm_example_params :: connectionParametersManager where
  "fm_example_params = NewConnectionParamatersManager PerspectiveServer VersionMP 0x100000 0x180000 (30 * Second)"

definition fm_example :: flowControlManager where
  "fm_example = snd (AddBytesRead 0 5 20000 (snd (UpdateHighestReceived 5 20000
     (NewStream fm_example_params 5 True (NewFlowControlManager fm_example_params)))))"

lemmas fm_eval =
  fm_example_params_def NewConnectionParamatersManager_def NewFlowControlManager_def newFlowController_def
  GetReceiveConnectionFlowControlWindow_def GetReceiveStreamFlowControlWindow_def
  GetMaxReceiveConnectionFlowControlWindow_def GetMaxReceiveStreamFlowControlWindow_def
  GetSendStreamFlowControlWindow_def GetSendConnectionFlowControlWindow_def
  InitialStreamFlowControlWindow_def InitialConnectionFlowControlWindow_def
  ReceiveStreamFlowControlWindow_def ReceiveConnectionFlowControlWindow_def
  NewStream_def UpdateHighestReceived_def fc_UpdateHighestReceived_def check_received_def
  CheckFlowControlViolation_def IncrementHighestReceived_def AddBytesRead_def both_levels_def
  fc_AddBytesRead_def set_stream_def set_conn_def Let_def

lemma fm_example_params_ok: "fc_params_ok fm_example_params"
  by (simp add: fc_params_ok_def fm_eval)

lemma fm_example_run: "fm_run fm_example_params [] fm_example"
proof -
  define m1 where "m1 = NewStream fm_example_params 5 True (NewFlowControlManager fm_example_params)"
  define m2 where "m2 = snd (UpdateHighestReceived 5 20000 m1)"
  have "fm_run fm_example_params [] m1"
    unfolding m1_def by (intro fm_new fm_start) (simp_all add: same_receive_windows_def)
  moreover have "UpdateHighestReceived 5 20000 m1 = (None, m2)"
    by (simp add: m2_def m1_def fm_eval)
  ultimately have "fm_run fm_example_params [] m2" by (rule fm_received)
  moreover have "\<exists>c. fm_streamFlowController m2 5 = Some c \<and> fc_highestReceived c = 20000 \<and> fc_bytesRead c = 0"
    by (simp add: m2_def m1_def fm_eval)
  moreover have "AddBytesRead 0 5 20000 m2 = (None, fm_example)"
    by (simp add: m2_def m1_def fm_example_def fm_eval)
  ultimately show ?thesis by (elim exE conjE) (rule fm_read, assumption+, simp_all)
qed

lemma flow_receive_exact_witness:
  "fst (UpdateHighestReceived 5 32769 fm_example) = Some errReceivedTooMuchData \<and>
   fst (UpdateHighestReceived 5 32768 fm_example) = None"
proof -
  obtain c where c: "fm_streamFlowController fm_example 5 = Some c" "fc_receiveWindow c = 32768"
      "fc_highestReceived c = 20000"
    by (simp add: fm_example_def fm_eval)
  have d: "fc_receiveWindow (fm_connFlowController fm_example) = 49152"
      "fc_highestReceived (fm_connFlowController fm_example) = 20000"
    by (simp_all add: fm_example_def fm_eval)
  note t = flow_receive_exact [OF fm_example_run fm_example_params_ok c(1)]
  show ?thesis using t [of 32769] t [of 32768] d c(2,3) by (auto simp: new_bytes_def)
qed

lemma window_updates_keep_credit_witness:
  "\<exists>m'. GetWindowUpdates 1 0 [] False [5] fm_example = ([\<lparr> wu_StreamID = 5, wu_Offset = 52768 \<rparr>], m') \<and>
     GetReceiveWindow 5 m' = Inr 52768"
proof -
  obtain m' where g: "GetWindowUpdates 1 0 [] False [5] fm_example = ([\<lparr> wu_StreamID = 5, wu_Offset = 52768 \<rparr>], m')"
    by (simp add: fm_example_def fm_eval GetWindowUpdates_def MaybeUpdateWindow_def maybeAdjustWindowIncrement_def)
  have "dom (fm_streamFlowController fm_example) = {5}"
    by (simp add: fm_example_def fm_eval)
  then have "\<forall>w\<in>set [\<lparr> wu_StreamID = 5, wu_Offset = 52768 \<rparr>]. GetReceiveWindow (wu_StreamID w) m' = Inr (wu_Offset w)"
    using window_updates_keep_credit [OF fm_example_run fm_example_params_ok _ _ g] by simp
  then show ?thesis using g by simp
qed

lemma flow_send_limits_witness:
  "\<exists>m' c'. AddBytesSent 5 16384 fm_example = (None, m') \<and> fm_streamFlowController m' 5 = Some c' \<and>
     fc_bytesSent c' \<le> getSendWindow fm_example_params c'"
proof -
  have s: "SendWindowSize fm_example_params 5 fm_example = Inr 16384"
    by (simp add: fm_example_def fm_eval SendWindowSize_def fc_SendWindowSize_def getSendWindow_def)
  from flow_send_limits [OF fm_example_run fm_example_params_ok s, of 16384] show ?thesis by auto
qed

text \<open>
  A window update can shrink the send window. Until the first window update the send window is the peer's initial window,
  but \<open>UpdateSendWindow\<close> compares with the field, which is 0: any positive offset below the initial window is taken
  as an update, and the stream can send less than before.
\<close>
theorem UpdateWindow_shrinks:
  "\<exists>m'. UpdateWindow 5 1000 fm_example = (Inr True, m') \<and>
     SendWindowSize fm_example_params 5 fm_example = Inr 16384 \<and>
     SendWindowSize fm_example_params 5 m' = Inr 1000"
  by (simp add: fm_example_def fm_eval SendWindowSize_def fc_SendWindowSize_def getSendWindow_def
      UpdateWindow_def UpdateSendWindow_def)

end
