(* ===== verification/Rtt_Stats.thy ===== *)
theory Rtt_Stats
  imports Go_Float
begin

section \<open>Round-trip times: \<open>congestion/rtt_stats.go\<close>\<close>

text \<open>
  Times are nanoseconds since the zero value of \<open>time.Time\<close>, which is 0 here. The weighted means are
  computed in \<open>float32\<close>: \<open>f32\<close> rounds an integer to 24 significant bits; the weights are multiples of
  \<open>1/4\<close> and \<open>1/8\<close>, so the model counts in quarters and eighths and the division at the end is the conversion to
  \<open>time.Duration\<close>, which cuts the fraction.
\<close>

definition f32 :: "int \<Rightarrow> int" where
  "f32 x = sgn x * int (float32 (nat \<bar>x\<bar>))"

definition f64 :: "int \<Rightarrow> int" where
  "f64 x = sgn x * int (float64 (nat \<bar>x\<bar>))"

lemma f32_exact: "\<bar>x\<bar> < 2 ^ 24 \<Longrightarrow> f32 x = x"
  by (simp add: f32_def float32_def round_bits_exact nat_less_iff sgn_mult_abs)

lemma f64_exact: "\<bar>x\<bar> < 2 ^ 53 \<Longrightarrow> f64 x = x"
  by (simp add: f64_def float64_def round_bits_exact nat_less_iff sgn_mult_abs)

definition InfDuration :: Duration where "InfDuration = 2 ^ 63 - 1"

definition defaultInitialRTTus :: int where "defaultInitialRTTus = 100 * 1000"

record rttSample =
  rs_rtt :: Duration
  rs_time :: int

definition zeroSample :: rttSample where "zeroSample = \<lparr> rs_rtt = 0, rs_time = 0 \<rparr>"

record RTTStats =
  rt_initialRTTus :: int
  rt_recentMinRTTwindow :: Duration
  rt_minRTT :: Duration
  rt_latestRTT :: Duration
  rt_smoothedRTT :: Duration
  rt_meanDeviation :: Duration
  rt_numMinRTTsamplesRemaining :: u32
  rt_newMinRTT :: rttSample
  rt_recentMinRTT :: rttSample
  rt_halfWindowRTT :: rttSample
  rt_quarterWindowRTT :: rttSample

text \<open>\<open>&RTTStats{}\<close>, which the paths use, and \<open>NewRTTStats()\<close>.\<close>

definition zeroRTTStats :: RTTStats where
  "zeroRTTStats =
     \<lparr> rt_initialRTTus = 0, rt_recentMinRTTwindow = 0, rt_minRTT = 0, rt_latestRTT = 0,
       rt_smoothedRTT = 0, rt_meanDeviation = 0, rt_numMinRTTsamplesRemaining = 0,
       rt_newMinRTT = zeroSample, rt_recentMinRTT = zeroSample, rt_halfWindowRTT = zeroSample,
       rt_quarterWindowRTT = zeroSample \<rparr>"

definition NewRTTStats :: RTTStats where
  "NewRTTStats = zeroRTTStats\<lparr>rt_initialRTTus := defaultInitialRTTus, rt_recentMinRTTwindow := InfDuration\<rparr>"

definition InitialRTTus :: "RTTStats \<Rightarrow> int" where "InitialRTTus r = rt_initialRTTus r"
definition MinRTT :: "RTTStats \<Rightarrow> Duration" where "MinRTT r = rt_minRTT r"
definition LatestRTT :: "RTTStats \<Rightarrow> Duration" where "LatestRTT r = rt_latestRTT r"
definition RecentMinRTT :: "RTTStats \<Rightarrow> Duration" where "RecentMinRTT r = rs_rtt (rt_recentMinRTT r)"
definition SmoothedRTT :: "RTTStats \<Rightarrow> Duration" where "SmoothedRTT r = rt_smoothedRTT r"
definition GetQuarterWindowRTT :: "RTTStats \<Rightarrow> Duration" where
  "GetQuarterWindowRTT r = rs_rtt (rt_quarterWindowRTT r)"
definition GetHalfWindowRTT :: "RTTStats \<Rightarrow> Duration" where
  "GetHalfWindowRTT r = rs_rtt (rt_halfWindowRTT r)"
definition MeanDeviation :: "RTTStats \<Rightarrow> Duration" where "MeanDeviation r = rt_meanDeviation r"

definition SetRecentMinRTTwindow :: "Duration \<Rightarrow> RTTStats \<Rightarrow> RTTStats" where
  "SetRecentMinRTTwindow w r = r\<lparr>rt_recentMinRTTwindow := w\<rparr>"

text \<open>The three parts of \<open>updateRecentMinRTT\<close>.\<close>

definition sample_new_min :: "Duration \<Rightarrow> int \<Rightarrow> RTTStats \<Rightarrow> RTTStats" where
  "sample_new_min sample now r =
     (if rt_numMinRTTsamplesRemaining r > 0
      then let r1 = r\<lparr>rt_numMinRTTsamplesRemaining := rt_numMinRTTsamplesRemaining r - 1\<rparr>;
               r2 = (if rs_rtt (rt_newMinRTT r1) = 0 \<or> sample \<le> rs_rtt (rt_newMinRTT r1)
                     then r1\<lparr>rt_newMinRTT := \<lparr> rs_rtt = sample, rs_time = now \<rparr>\<rparr> else r1)
           in if rt_numMinRTTsamplesRemaining r2 = 0
              then r2\<lparr>rt_recentMinRTT := rt_newMinRTT r2, rt_halfWindowRTT := rt_newMinRTT r2,
                      rt_quarterWindowRTT := rt_newMinRTT r2\<rparr>
              else r2
      else r)"

definition update_recent_samples :: "Duration \<Rightarrow> int \<Rightarrow> RTTStats \<Rightarrow> RTTStats" where
  "update_recent_samples sample now r =
     (let s = \<lparr> rs_rtt = sample, rs_time = now \<rparr>
      in if rs_rtt (rt_recentMinRTT r) = 0 \<or> sample \<le> rs_rtt (rt_recentMinRTT r)
         then r\<lparr>rt_recentMinRTT := s, rt_halfWindowRTT := s, rt_quarterWindowRTT := s\<rparr>
         else if sample \<le> rs_rtt (rt_halfWindowRTT r)
         then r\<lparr>rt_halfWindowRTT := s, rt_quarterWindowRTT := s\<rparr>
         else if sample \<le> rs_rtt (rt_quarterWindowRTT r)
         then r\<lparr>rt_quarterWindowRTT := s\<rparr>
         else r)"

definition window_part :: "Duration \<Rightarrow> int \<Rightarrow> Duration" where
  "window_part w n = go_div (f32 (go_div w Microsecond)) n * Microsecond"

definition expire_recent_samples :: "Duration \<Rightarrow> int \<Rightarrow> RTTStats \<Rightarrow> RTTStats" where
  "expire_recent_samples sample now r =
     (let s = \<lparr> rs_rtt = sample, rs_time = now \<rparr>; w = rt_recentMinRTTwindow r
      in if rs_time (rt_recentMinRTT r) < now - w
         then r\<lparr>rt_recentMinRTT := rt_halfWindowRTT r, rt_halfWindowRTT := rt_quarterWindowRTT r,
                rt_quarterWindowRTT := s\<rparr>
         else if rs_time (rt_halfWindowRTT r) < now - window_part w 2
         then r\<lparr>rt_halfWindowRTT := rt_quarterWindowRTT r, rt_quarterWindowRTT := s\<rparr>
         else if rs_time (rt_quarterWindowRTT r) < now - window_part w 4
         then r\<lparr>rt_quarterWindowRTT := s\<rparr>
         else r)"

definition updateRecentMinRTT :: "Duration \<Rightarrow> int \<Rightarrow> RTTStats \<Rightarrow> RTTStats" where
  "updateRecentMinRTT sample now r =
     expire_recent_samples sample now (update_recent_samples sample now (sample_new_min sample now r))"

text \<open>The new mean deviation and the new smoothed RTT.\<close>

definition mean_deviation :: "Duration \<Rightarrow> Duration \<Rightarrow> Duration" where
  "mean_deviation dev diff =
     go_div (f32 (f32 (3 * f32 (go_div dev Microsecond)) + f32 (go_div diff Microsecond))) 4 * Microsecond"

definition smoothed_rtt :: "Duration \<Rightarrow> Duration \<Rightarrow> Duration" where
  "smoothed_rtt srtt sample =
     go_div (f32 (f32 (7 * f32 (go_div srtt Microsecond)) + f32 (go_div sample Microsecond))) 8 * Microsecond"

definition UpdateRTT :: "Duration \<Rightarrow> Duration \<Rightarrow> int \<Rightarrow> RTTStats \<Rightarrow> RTTStats" where
  "UpdateRTT sendDelta ackDelay now r =
     (if sendDelta = InfDuration \<or> sendDelta \<le> 0 then r
      else
        let r1 = (if rt_minRTT r = 0 \<or> rt_minRTT r > sendDelta then r\<lparr>rt_minRTT := sendDelta\<rparr> else r);
            r2 = updateRecentMinRTT sendDelta now r1;
            sample = (if sendDelta > ackDelay then sendDelta - ackDelay else sendDelta);
            r3 = r2\<lparr>rt_latestRTT := sample\<rparr>
        in if rt_smoothedRTT r3 = 0
           then r3\<lparr>rt_smoothedRTT := sample, rt_meanDeviation := go_div sample 2\<rparr>
           else r3\<lparr>rt_meanDeviation :=
                     mean_deviation (rt_meanDeviation r3) (AbsDuration (rt_smoothedRTT r3 - sample)),
                   rt_smoothedRTT := smoothed_rtt (rt_smoothedRTT r3) sample\<rparr>)"

definition SampleNewRecentMinRTT :: "u32 \<Rightarrow> RTTStats \<Rightarrow> RTTStats" where
  "SampleNewRecentMinRTT numSamples r =
     r\<lparr>rt_numMinRTTsamplesRemaining := numSamples, rt_newMinRTT := zeroSample\<rparr>"

definition rtt_OnConnectionMigration :: "RTTStats \<Rightarrow> RTTStats" where
  "rtt_OnConnectionMigration r =
     r\<lparr>rt_latestRTT := 0, rt_minRTT := 0, rt_smoothedRTT := 0, rt_meanDeviation := 0,
       rt_initialRTTus := defaultInitialRTTus, rt_numMinRTTsamplesRemaining := 0,
       rt_recentMinRTTwindow := InfDuration, rt_recentMinRTT := zeroSample,
       rt_halfWindowRTT := zeroSample, rt_quarterWindowRTT := zeroSample\<rparr>"

definition ExpireSmoothedMetrics :: "RTTStats \<Rightarrow> RTTStats" where
  "ExpireSmoothedMetrics r =
     r\<lparr>rt_meanDeviation := MaxDuration (rt_meanDeviation r) (AbsDuration (rt_smoothedRTT r - rt_latestRTT r)),
       rt_smoothedRTT := MaxDuration (rt_smoothedRTT r) (rt_latestRTT r)\<rparr>"

definition UpdateSessionRTT :: "Duration \<Rightarrow> RTTStats \<Rightarrow> RTTStats" where
  "UpdateSessionRTT smoothedRTT r = r\<lparr>rt_smoothedRTT := smoothedRTT\<rparr>"

subsection \<open>What the statistics say\<close>

text \<open>The samples: what \<open>UpdateRTT\<close> takes as the round-trip time and as the measured one.\<close>

definition rtt_sample :: "Duration \<times> Duration \<Rightarrow> Duration" where
  "rtt_sample x = (if fst x > snd x then fst x - snd x else fst x)"

fun rtt_run :: "(Duration \<times> Duration \<times> int) list \<Rightarrow> RTTStats \<Rightarrow> RTTStats" where
  "rtt_run [] r = r"
| "rtt_run ((sendDelta, ackDelay, now) # xs) r = rtt_run xs (UpdateRTT sendDelta ackDelay now r)"

lemma rtt_run_append: "rtt_run (xs @ [(d, a, now)]) r = UpdateRTT d a now (rtt_run xs r)"
  by (induction xs r rule: rtt_run.induct) auto

lemma updateRecentMinRTT_frame [simp]:
  "rt_minRTT (updateRecentMinRTT s now r) = rt_minRTT r"
  "rt_latestRTT (updateRecentMinRTT s now r) = rt_latestRTT r"
  "rt_smoothedRTT (updateRecentMinRTT s now r) = rt_smoothedRTT r"
  "rt_meanDeviation (updateRecentMinRTT s now r) = rt_meanDeviation r"
  by (simp_all add: updateRecentMinRTT_def expire_recent_samples_def update_recent_samples_def
      sample_new_min_def Let_def)

lemma UpdateRTT_sel:
  assumes "sendDelta \<noteq> InfDuration" "sendDelta > 0"
  shows "rt_minRTT (UpdateRTT sendDelta ackDelay now r) =
      (if rt_minRTT r = 0 \<or> rt_minRTT r > sendDelta then sendDelta else rt_minRTT r)"
    "rt_latestRTT (UpdateRTT sendDelta ackDelay now r) = rtt_sample (sendDelta, ackDelay)"
    "rt_smoothedRTT (UpdateRTT sendDelta ackDelay now r) =
      (if rt_smoothedRTT r = 0 then rtt_sample (sendDelta, ackDelay)
       else smoothed_rtt (rt_smoothedRTT r) (rtt_sample (sendDelta, ackDelay)))"
    "rt_meanDeviation (UpdateRTT sendDelta ackDelay now r) =
      (if rt_smoothedRTT r = 0 then go_div (rtt_sample (sendDelta, ackDelay)) 2
       else mean_deviation (rt_meanDeviation r) \<bar>rt_smoothedRTT r - rtt_sample (sendDelta, ackDelay)\<bar>)"
  using assms by (simp_all add: UpdateRTT_def Let_def rtt_sample_def)

text \<open>
  The bound of the float32 arithmetic: up to two seconds (2097 ms) the weighted mean is exact, so that it lies
  between its arguments.
\<close>

definition MaxExactRTT :: Duration where "MaxExactRTT = 2 ^ 21 * Microsecond"

lemma smoothed_rtt_exact:
  assumes "0 \<le> s" "s < MaxExactRTT" "0 \<le> x" "x < MaxExactRTT"
  shows "smoothed_rtt s x = (7 * (s div Microsecond) + x div Microsecond) div 8 * Microsecond"
proof -
  define a b where "a = s div Microsecond" and "b = x div Microsecond"
  have ab: "0 \<le> a" "a < 2 ^ 21" "0 \<le> b" "b < 2 ^ 21"
    using assms by (auto simp: a_def b_def MaxExactRTT_def Microsecond_def)
  have "go_div s Microsecond = a" "go_div x Microsecond = b"
    using assms by (simp_all add: go_div_nonneg a_def b_def Microsecond_def)
  then show ?thesis
    using ab by (simp add: smoothed_rtt_def f32_exact go_div_nonneg a_def [symmetric] b_def [symmetric])
qed

lemma smoothed_rtt_between:
  assumes "0 \<le> s" "s < MaxExactRTT" "0 \<le> x" "x < MaxExactRTT"
    and "lo * Microsecond \<le> s" "lo * Microsecond \<le> x" "s < hi * Microsecond" "x < hi * Microsecond"
  shows "lo * Microsecond \<le> smoothed_rtt s x \<and> smoothed_rtt s x < hi * Microsecond"
proof -
  define a b where "a = s div Microsecond" and "b = x div Microsecond"
  have le: "lo \<le> z div Microsecond" if "lo * Microsecond \<le> z" for z
    using zdiv_mono1 [OF that, of Microsecond] by (simp add: Microsecond_def)
  have lt: "z div Microsecond < hi" if "z < hi * Microsecond" for z
  proof (rule ccontr)
    assume "\<not> z div Microsecond < hi"
    then have "hi * Microsecond \<le> z div Microsecond * Microsecond"
      by (intro mult_right_mono) (simp_all add: Microsecond_def)
    moreover have "z div Microsecond * Microsecond + z mod Microsecond = z" by (rule div_mult_mod_eq)
    moreover have "0 \<le> z mod Microsecond" by (simp add: Microsecond_def)
    ultimately show False using that by linarith
  qed
  have "lo \<le> a" "lo \<le> b" "a < hi" "b < hi"
    unfolding a_def b_def by (rule le lt, rule assms)+
  then have "8 * lo \<le> 7 * a + b" "7 * a + b < 8 * hi" by linarith+
  then have "lo \<le> (7 * a + b) div 8" "(7 * a + b) div 8 < hi" by presburger+
  then show ?thesis
    unfolding smoothed_rtt_exact [OF assms(1-4)] a_def [symmetric] b_def [symmetric]
    by (simp add: Microsecond_def)
qed

text \<open>
  C33. The RTT estimate follows its samples. After any number of samples below two seconds, each corrected by
  the delay the peer reports if that is smaller, the smoothed RTT lies between the smallest and the largest
  sample, to the microsecond, the minimal RTT is the smallest uncorrected one, and the latest RTT is the last sample.
\<close>
theorem rtt_run_bounds:
  assumes "xs \<noteq> []"
    and "\<forall>(d, a, now) \<in> set xs. 0 < d \<and> d < InfDuration \<and>
      lo * Microsecond \<le> rtt_sample (d, a) \<and> rtt_sample (d, a) < hi * Microsecond"
    and "0 < lo" "hi \<le> 2 ^ 21" "rt_smoothedRTT r = 0" "rt_minRTT r = 0"
  shows "lo * Microsecond \<le> SmoothedRTT (rtt_run xs r) \<and> SmoothedRTT (rtt_run xs r) < hi * Microsecond \<and>
    MinRTT (rtt_run xs r) = Min (fst ` set xs) \<and>
    LatestRTT (rtt_run xs r) = rtt_sample (fst (last xs), fst (snd (last xs)))"
  using assms(1,2)
proof (induction xs rule: rev_nonempty_induct)
  case (single x)
  obtain d a now where x: "x = (d, a, now)" by (cases x)
  have d: "d \<noteq> InfDuration" "0 < d"
    using single by (auto simp: x)
  show ?case using single UpdateRTT_sel [OF d, of a now r] assms(5,6)
    by (simp add: x SmoothedRTT_def MinRTT_def LatestRTT_def)
next
  case (snoc x xs)
  obtain d a now where x: "x = (d, a, now)" by (cases x)
  let ?r = "rtt_run xs r"
  have run: "rtt_run (xs @ [x]) r = UpdateRTT d a now ?r"
    unfolding x by (rule rtt_run_append)
  have d: "d \<noteq> InfDuration" "0 < d"
      "lo * Microsecond \<le> rtt_sample (d, a)" "rtt_sample (d, a) < hi * Microsecond"
    using snoc.prems by (auto simp: x)
  have IH: "lo * Microsecond \<le> rt_smoothedRTT ?r" "rt_smoothedRTT ?r < hi * Microsecond"
      "rt_minRTT ?r = Min (fst ` set xs)"
    using snoc.IH snoc.prems by (auto simp: SmoothedRTT_def MinRTT_def)
  have lo: "0 < lo * Microsecond" and hi: "hi * Microsecond \<le> MaxExactRTT"
    using assms(3,4) by (simp_all add: Microsecond_def MaxExactRTT_def)
  have sm: "lo * Microsecond \<le> smoothed_rtt (rt_smoothedRTT ?r) (rtt_sample (d, a)) \<and>
      smoothed_rtt (rt_smoothedRTT ?r) (rtt_sample (d, a)) < hi * Microsecond"
    using d IH lo hi by (intro smoothed_rtt_between) linarith+
  have pos: "0 < Min (fst ` set xs)"
  proof -
    have "Min (fst ` set xs) \<in> fst ` set xs" using snoc.hyps by (intro Min_in) auto
    then show ?thesis using snoc.prems by auto
  qed
  have m: "Min (fst ` set (xs @ [x])) = min d (Min (fst ` set xs))"
    using snoc.hyps by (simp add: x)
  note sel = UpdateRTT_sel [OF d(1,2), of a now ?r]
  have "rt_smoothedRTT ?r \<noteq> 0" using IH(1) lo by linarith
  then have "SmoothedRTT (rtt_run (xs @ [x]) r) = smoothed_rtt (rt_smoothedRTT ?r) (rtt_sample (d, a))"
    unfolding run SmoothedRTT_def sel(3) by (rule if_not_P)
  moreover have "MinRTT (rtt_run (xs @ [x]) r) = Min (fst ` set (xs @ [x]))"
    unfolding run MinRTT_def sel(1) IH(3) m using pos by (simp add: min_def)
  moreover have "LatestRTT (rtt_run (xs @ [x]) r) = rtt_sample (fst (last (xs @ [x])), fst (snd (last (xs @ [x]))))"
    unfolding run LatestRTT_def sel(2) by (simp add: x)
  ultimately show ?case using sm by presburger
qed

lemma rtt_run_bounds_witness:
  "50000 * Microsecond \<le> SmoothedRTT (rtt_run [(60 * Millisecond, 10 * Millisecond, 1), (90 * Millisecond, 0, 2)] zeroRTTStats)"
  using rtt_run_bounds [of "[(60 * Millisecond, 10 * Millisecond, 1), (90 * Millisecond, 0, 2)]" 50000 100000 zeroRTTStats]
  by (simp add: rtt_sample_def Millisecond_def Microsecond_def InfDuration_def zeroRTTStats_def)

end
