(* ===== verification/Sent_Handler.thy ===== *)
theory Sent_Handler
  imports Packet_Unpacker Rtt_Stats
begin

section \<open>The interface of the congestion control: \<open>congestion/interface.go\<close>\<close>

text \<open>
  A congestion controller is a value of the record type \<open>SendAlgorithm\<close>: the methods of the interface that the
  handler of sent packets calls, over a state of any type. A controller holds a pointer to the RTT statistics it
  shares with the handler, so the methods that read them take them as an argument.
\<close>

record 'c SendAlgorithm =
  sa_OnPacketSent :: "int \<Rightarrow> ByteCount \<Rightarrow> PacketNumber \<Rightarrow> ByteCount \<Rightarrow> bool \<Rightarrow> 'c \<Rightarrow> 'c"
  sa_GetCongestionWindow :: "'c \<Rightarrow> ByteCount"
  sa_MaybeExitSlowStart :: "RTTStats \<Rightarrow> 'c \<Rightarrow> 'c"
  sa_OnPacketAcked :: "RTTStats \<Rightarrow> PacketNumber \<Rightarrow> ByteCount \<Rightarrow> ByteCount \<Rightarrow> 'c \<Rightarrow> 'c"
  sa_OnPacketLost :: "RTTStats \<Rightarrow> PacketNumber \<Rightarrow> ByteCount \<Rightarrow> ByteCount \<Rightarrow> 'c \<Rightarrow> 'c"
  sa_OnRetransmissionTimeout :: "bool \<Rightarrow> 'c \<Rightarrow> 'c"
  sa_RetransmissionDelay :: "RTTStats \<Rightarrow> 'c \<Rightarrow> Duration"
  sa_SmoothedRTT :: "RTTStats \<Rightarrow> 'c \<Rightarrow> Duration"
  sa_UpdateGroupEpoch :: "u8 \<Rightarrow> u16 \<Rightarrow> 'c \<Rightarrow> 'c"

section \<open>Packets: \<open>ackhandler/packet.go\<close>, \<open>retransmittable.go\<close>\<close>

record Packet =
  pk_PacketNumber :: PacketNumber
  pk_Frames :: "Frame list"
  pk_Length :: ByteCount
  pk_EncryptionLevel :: EncryptionLevel
  pk_SendTime :: int

fun IsFrameRetransmittable :: "Frame \<Rightarrow> bool" where
  "IsFrameRetransmittable (StopWaitingF f) = False"
| "IsFrameRetransmittable (AckF f) = False"
| "IsFrameRetransmittable f = True"

definition stripNonRetransmittableFrames :: "Frame list \<Rightarrow> Frame list" where
  "stripNonRetransmittableFrames fs = filter IsFrameRetransmittable fs"

fun HasRetransmittableFrames :: "Frame list \<Rightarrow> bool" where
  "HasRetransmittableFrames [] = False"
| "HasRetransmittableFrames (f # fs) = (if IsFrameRetransmittable f then True else HasRetransmittableFrames fs)"

fun GetFramesForRetransmission :: "Frame list \<Rightarrow> Frame list" where
  "GetFramesForRetransmission [] = []"
| "GetFramesForRetransmission (AckF f # fs) = GetFramesForRetransmission fs"
| "GetFramesForRetransmission (StopWaitingF f # fs) = GetFramesForRetransmission fs"
| "GetFramesForRetransmission (f # fs) = f # GetFramesForRetransmission fs"

fun retransmittable_kind :: "Frame \<Rightarrow> bool" where
  "retransmittable_kind (StreamF f) = True"
| "retransmittable_kind (RstStreamF f) = True"
| "retransmittable_kind (WindowUpdateF f) = True"
| "retransmittable_kind (BlockedF f) = True"
| "retransmittable_kind (PingF f) = True"
| "retransmittable_kind (GoawayF f) = True"
| "retransmittable_kind (AddAddressF f) = True"
| "retransmittable_kind (PathsF f) = True"
| "retransmittable_kind f = False"

definition IsRetransmittable :: "Packet \<Rightarrow> bool" where
  "IsRetransmittable p = list_ex retransmittable_kind (pk_Frames p)"

section \<open>\<open>ackhandler/stop_waiting_manager.go\<close>\<close>

record stopWaitingManager =
  sw_largestLeastUnackedSent :: PacketNumber
  sw_nextLeastUnacked :: PacketNumber
  sw_lastStopWaitingFrame :: "PacketNumber option"

text \<open>A frame of this manager is given by its \<open>LeastUnacked\<close>, the only field that is set.\<close>

definition sw_GetStopWaitingFrame :: "bool \<Rightarrow> stopWaitingManager \<Rightarrow> PacketNumber option \<times> stopWaitingManager" where
  "sw_GetStopWaitingFrame force s =
     (if sw_nextLeastUnacked s \<le> sw_largestLeastUnackedSent s
      then if force
           then let s1 = (if sw_lastStopWaitingFrame s = None \<and> sw_largestLeastUnackedSent s > 0
                          then s\<lparr>sw_lastStopWaitingFrame := Some (sw_nextLeastUnacked s)\<rparr> else s)
                in (sw_lastStopWaitingFrame s1, s1)
           else (None, s)
      else (Some (sw_nextLeastUnacked s),
            s\<lparr>sw_largestLeastUnackedSent := sw_nextLeastUnacked s,
              sw_lastStopWaitingFrame := Some (sw_nextLeastUnacked s)\<rparr>))"

definition sw_ReceivedAck :: "AckFrame \<Rightarrow> stopWaitingManager \<Rightarrow> stopWaitingManager" where
  "sw_ReceivedAck ack s =
     (if ack_LargestAcked ack \<ge> sw_nextLeastUnacked s
      then s\<lparr>sw_nextLeastUnacked := ack_LargestAcked ack + 1\<rparr> else s)"

definition QueuedRetransmissionForPacketNumber :: "PacketNumber \<Rightarrow> stopWaitingManager \<Rightarrow> stopWaitingManager" where
  "QueuedRetransmissionForPacketNumber p s =
     (if p \<ge> sw_nextLeastUnacked s then s\<lparr>sw_nextLeastUnacked := p + 1\<rparr> else s)"

section \<open>The handler of sent packets: \<open>ackhandler/sent_packet_handler.go\<close>\<close>

text \<open>
  The packets in flight are the list \<open>packetHistory\<close> in the order of a linked list; an element is known by
  its packet number, which occurs once. A zero \<open>time.Time\<close> is \<open>None\<close> for the alarm and the loss time. The
  clock is an argument; the methods of the congestion controller \<open>alg\<close> change its state, a field of
  the handler. \<open>onRTO\<close> is the callback, if there is one: it says if the path is potentially failed.
\<close>

definition defaultRTOTimeout :: Duration where "defaultRTOTimeout = 500 * Millisecond"
definition minRTOTimeout :: Duration where "minRTOTimeout = 200 * Millisecond"
definition maxRTOTimeout :: Duration where "maxRTOTimeout = 60 * Second"
definition maxTailLossProbes :: u32 where "maxTailLossProbes = 2"
definition minRetransmissionTime :: Duration where "minRetransmissionTime = 200 * Millisecond"
definition minTailLossProbeTimeout :: Duration where "minTailLossProbeTimeout = 10 * Millisecond"
definition MaxNonRetransmittablePackets :: int where "MaxNonRetransmittablePackets = 19"
definition MaxTrackedSkippedPackets :: nat where "MaxTrackedSkippedPackets = 10"
definition MaxTrackedSentPackets :: PacketNumber where "MaxTrackedSentPackets = 2 * DefaultMaxCongestionWindow"

definition ErrDuplicateOrOutOfOrderAck :: go_error where
  "ErrDuplicateOrOutOfOrderAck = GoErr ''ErrDuplicateOrOutOfOrderAck''"
definition ErrTooManyTrackedSentPackets :: go_error where
  "ErrTooManyTrackedSentPackets = GoErr ''ErrTooManyTrackedSentPackets''"
definition ErrAckForSkippedPacket :: go_error where
  "ErrAckForSkippedPacket = QErr ''InvalidAckData: Received an ACK for a skipped packet number''"
definition errAckForUnsentPacket :: go_error where
  "errAckForUnsentPacket = QErr ''InvalidAckData: Received ACK for an unsent package''"
definition errPacketNumberNotIncreasing :: go_error where
  "errPacketNumberNotIncreasing = GoErr ''errPacketNumberNotIncreasing''"

record 'c sentPacketHandler =
  sh_lastSentPacketNumber :: PacketNumber
  sh_skippedPackets :: "PacketNumber list"
  sh_numNonRetransmittablePackets :: int
  sh_LargestAcked :: PacketNumber
  sh_largestReceivedPacketWithAck :: PacketNumber
  sh_packetHistory :: "Packet list"
  sh_stopWaitingManager :: stopWaitingManager
  sh_retransmissionQueue :: "Packet list"
  sh_bytesInFlight :: ByteCount
  sh_congestion :: 'c
  sh_rttStats :: RTTStats
  sh_rtoCount :: u32
  sh_tlpCount :: u32
  sh_lossTime :: "int option"
  sh_lastSentTime :: int
  sh_alarm :: "int option"
  sh_packets :: u64
  sh_retransmissions :: u64
  sh_losses :: u64

definition NewSentPacketHandler :: "RTTStats \<Rightarrow> 'c \<Rightarrow> 'c sentPacketHandler" where
  "NewSentPacketHandler rttStats congestionControl =
     \<lparr> sh_lastSentPacketNumber = 0, sh_skippedPackets = [], sh_numNonRetransmittablePackets = 0,
       sh_LargestAcked = 0, sh_largestReceivedPacketWithAck = 0, sh_packetHistory = [],
       sh_stopWaitingManager = \<lparr> sw_largestLeastUnackedSent = 0, sw_nextLeastUnacked = 0,
         sw_lastStopWaitingFrame = None \<rparr>,
       sh_retransmissionQueue = [], sh_bytesInFlight = 0, sh_congestion = congestionControl,
       sh_rttStats = rttStats, sh_rtoCount = 0, sh_tlpCount = 0, sh_lossTime = None, sh_lastSentTime = 0,
       sh_alarm = None, sh_packets = 0, sh_retransmissions = 0, sh_losses = 0 \<rparr>"

definition sh_GetStatistics :: "'c sentPacketHandler \<Rightarrow> u64 \<times> u64 \<times> u64" where
  "sh_GetStatistics h = (sh_packets h, sh_retransmissions h, sh_losses h)"

definition largestInOrderAcked :: "'c sentPacketHandler \<Rightarrow> PacketNumber" where
  "largestInOrderAcked h =
     (case sh_packetHistory h of f # _ \<Rightarrow> pk_PacketNumber f - 1 | [] \<Rightarrow> sh_LargestAcked h)"

definition ShouldSendRetransmittablePacket :: "'c sentPacketHandler \<Rightarrow> bool" where
  "ShouldSendRetransmittablePacket h = (sh_numNonRetransmittablePackets h \<ge> MaxNonRetransmittablePackets)"

text \<open>A call of a method of the congestion controller that changes it.\<close>

definition with_cc :: "('c \<Rightarrow> 'c) \<Rightarrow> 'c sentPacketHandler \<Rightarrow> 'c sentPacketHandler" where
  "with_cc f h = h\<lparr>sh_congestion := f (sh_congestion h)\<rparr>"

subsection \<open>The alarm\<close>

definition hasOutstandingRetransmittablePacket :: "'c sentPacketHandler \<Rightarrow> bool" where
  "hasOutstandingRetransmittablePacket h = list_ex IsRetransmittable (sh_packetHistory h)"

definition hasMultipleOutstandingRetransmittablePackets :: "'c sentPacketHandler \<Rightarrow> bool" where
  "hasMultipleOutstandingRetransmittablePackets h =
     (case sh_packetHistory h of _ # _ # _ \<Rightarrow> True | _ \<Rightarrow> False)"

definition computeTLPTimeout :: "'c SendAlgorithm \<Rightarrow> 'c sentPacketHandler \<Rightarrow> Duration" where
  "computeTLPTimeout alg h =
     (let rtt = sa_SmoothedRTT alg (sh_rttStats h) (sh_congestion h)
      in if hasMultipleOutstandingRetransmittablePackets h
         then MaxDuration (2 * rtt) (go_div (rtt * 3) 2 + go_div minRetransmissionTime 2)
         else MaxDuration (2 * rtt) minTailLossProbeTimeout)"

text \<open>\<open>rto << rtoCount\<close> is a shift of an \<open>int64\<close>.\<close>

definition computeRTOTimeout :: "'c SendAlgorithm \<Rightarrow> 'c sentPacketHandler \<Rightarrow> Duration" where
  "computeRTOTimeout alg h =
     (let rto0 = sa_RetransmissionDelay alg (sh_rttStats h) (sh_congestion h);
          rto1 = (if rto0 = 0 then defaultRTOTimeout else rto0);
          rto2 = MaxDuration rto1 minRTOTimeout;
          rto3 = wrap64 (rto2 * 2 ^ unat (sh_rtoCount h))
      in MinDuration rto3 maxRTOTimeout)"

definition updateLossDetectionAlarm :: "'c SendAlgorithm \<Rightarrow> 'c sentPacketHandler \<Rightarrow> 'c sentPacketHandler" where
  "updateLossDetectionAlarm alg h =
     (if sh_packetHistory h = [] then h\<lparr>sh_alarm := None\<rparr>
      else case sh_lossTime h of
        Some t \<Rightarrow> h\<lparr>sh_alarm := Some t\<rparr>
      | None \<Rightarrow>
          if SmoothedRTT (sh_rttStats h) \<noteq> 0 \<and> sh_tlpCount h < maxTailLossProbes
          then h\<lparr>sh_alarm := Some (sh_lastSentTime h + computeTLPTimeout alg h)\<rparr>
          else h\<lparr>sh_alarm := Some (sh_lastSentTime h +
                   MaxDuration (computeRTOTimeout alg h) minRetransmissionTime)\<rparr>)"

definition sh_GetAlarmTimeout :: "'c sentPacketHandler \<Rightarrow> int option" where
  "sh_GetAlarmTimeout h = sh_alarm h"

subsection \<open>Sending\<close>

text \<open>The loop over the skipped packet numbers \<open>p\<close>, \<open>p + 1\<close>, ...: there are \<open>n\<close> of them.\<close>

fun skip_packets :: "nat \<Rightarrow> PacketNumber \<Rightarrow> PacketNumber list \<Rightarrow> PacketNumber list" where
  "skip_packets 0 p sk = sk"
| "skip_packets (Suc n) p sk =
     (let sk1 = sk @ [p]
      in skip_packets n (p + 1) (if length sk1 > MaxTrackedSkippedPackets then tl sk1 else sk1))"

text \<open>The branch over \<open>isRetransmittable\<close>; the frames of the packet are already stripped.\<close>

definition track_packet :: "int \<Rightarrow> Packet \<Rightarrow> 'c sentPacketHandler \<Rightarrow> 'c sentPacketHandler" where
  "track_packet now packet h =
     (if pk_Frames packet \<noteq> []
      then h\<lparr>sh_bytesInFlight := sh_bytesInFlight h + pk_Length packet,
             sh_packetHistory := sh_packetHistory h @ [packet\<lparr>pk_SendTime := now\<rparr>],
             sh_numNonRetransmittablePackets := 0\<rparr>
      else h\<lparr>sh_numNonRetransmittablePackets := sh_numNonRetransmittablePackets h + 1\<rparr>)"

definition SentPacket ::
    "'c SendAlgorithm \<Rightarrow> int \<Rightarrow> Packet \<Rightarrow> 'c sentPacketHandler \<Rightarrow> go_error option \<times> 'c sentPacketHandler" where
  "SentPacket alg now packet0 h =
     (if pk_PacketNumber packet0 \<le> sh_lastSentPacketNumber h then (Some errPacketNumberNotIncreasing, h)
      else if of_nat (length (sh_retransmissionQueue h) + length (sh_packetHistory h) + 1) > MaxTrackedSentPackets
      then (Some ErrTooManyTrackedSentPackets, h)
      else
        let h1 = h\<lparr>sh_skippedPackets :=
               skip_packets (unat (pk_PacketNumber packet0 - (sh_lastSentPacketNumber h + 1)))
                 (sh_lastSentPacketNumber h + 1) (sh_skippedPackets h)\<rparr>;
            h2 = h1\<lparr>sh_lastSentPacketNumber := pk_PacketNumber packet0, sh_packets := sh_packets h1 + 1,
                    sh_lastSentTime := now\<rparr>;
            packet = packet0\<lparr>pk_Frames := stripNonRetransmittableFrames (pk_Frames packet0)\<rparr>;
            h3 = track_packet now packet h2;
            h4 = with_cc (sa_OnPacketSent alg now (sh_bytesInFlight h3) (pk_PacketNumber packet)
                   (pk_Length packet) (pk_Frames packet \<noteq> [])) h3
        in (None, updateLossDetectionAlarm alg h4))"

subsection \<open>Losing packets\<close>

definition remove_packet :: "PacketNumber \<Rightarrow> Packet list \<Rightarrow> Packet list" where
  "remove_packet pn ps = filter (\<lambda>q. pk_PacketNumber q \<noteq> pn) ps"

definition queuePacketForRetransmission :: "Packet \<Rightarrow> 'c sentPacketHandler \<Rightarrow> 'c sentPacketHandler" where
  "queuePacketForRetransmission p h =
     h\<lparr>sh_bytesInFlight := sh_bytesInFlight h - pk_Length p,
       sh_retransmissionQueue := sh_retransmissionQueue h @ [p],
       sh_packetHistory := remove_packet (pk_PacketNumber p) (sh_packetHistory h),
       sh_stopWaitingManager := QueuedRetransmissionForPacketNumber (pk_PacketNumber p) (sh_stopWaitingManager h)\<rparr>"

definition packet_lost :: "'c SendAlgorithm \<Rightarrow> Packet \<Rightarrow> 'c sentPacketHandler \<Rightarrow> 'c sentPacketHandler" where
  "packet_lost alg p h =
     with_cc (sa_OnPacketLost alg (sh_rttStats h) (pk_PacketNumber p) (pk_Length p) (sh_bytesInFlight h)) h"

text \<open>The last loop of \<open>detectLostPackets\<close> and of \<open>SetInflightAsLost\<close>.\<close>

fun lose_packets :: "'c SendAlgorithm \<Rightarrow> Packet list \<Rightarrow> 'c sentPacketHandler \<Rightarrow> 'c sentPacketHandler" where
  "lose_packets alg [] h = h"
| "lose_packets alg (p # ps) h = lose_packets alg ps (packet_lost alg p (queuePacketForRetransmission p h))"

definition queueRTO :: "'c SendAlgorithm \<Rightarrow> Packet \<Rightarrow> 'c sentPacketHandler \<Rightarrow> 'c sentPacketHandler" where
  "queueRTO alg p h =
     (let h1 = queuePacketForRetransmission p h
      in packet_lost alg p (h1\<lparr>sh_losses := sh_losses h1 + 1\<rparr>))"

text \<open>\<open>time.Duration((1.0 + 1.0/8) * float64(maxRTT))\<close>.\<close>

definition delay_until_lost :: "RTTStats \<Rightarrow> Duration" where
  "delay_until_lost r = go_div (f64 (9 * f64 (MaxDuration (LatestRTT r) (SmoothedRTT r)))) 8"

text \<open>The loop over the history: the packets that are lost and the loss time.\<close>

fun detect_loop ::
    "int \<Rightarrow> Duration \<Rightarrow> PacketNumber \<Rightarrow> Packet list \<Rightarrow> int option \<Rightarrow> Packet list \<times> int option" where
  "detect_loop now delay largestAcked [] lossTime = ([], lossTime)"
| "detect_loop now delay largestAcked (p # ps) lossTime =
     (if pk_PacketNumber p > largestAcked then ([], lossTime)
      else let timeSinceSent = now - pk_SendTime p
        in if timeSinceSent > delay
           then let (lost, t) = detect_loop now delay largestAcked ps lossTime in (p # lost, t)
           else detect_loop now delay largestAcked ps
                  (if lossTime = None then Some (now + (delay - timeSinceSent)) else lossTime))"

definition detectLostPackets :: "'c SendAlgorithm \<Rightarrow> int \<Rightarrow> 'c sentPacketHandler \<Rightarrow> 'c sentPacketHandler" where
  "detectLostPackets alg now h =
     (let (lost, t) = detect_loop now (delay_until_lost (sh_rttStats h)) (sh_LargestAcked h) (sh_packetHistory h) None
      in lose_packets alg lost (h\<lparr>sh_lossTime := t, sh_losses := sh_losses h + of_nat (length lost)\<rparr>))"

definition SetInflightAsLost :: "'c SendAlgorithm \<Rightarrow> 'c sentPacketHandler \<Rightarrow> 'c sentPacketHandler" where
  "SetInflightAsLost alg h =
     (let lost = takeWhile (\<lambda>p. \<not> pk_PacketNumber p > sh_LargestAcked h) (sh_packetHistory h)
      in lose_packets alg lost (h\<lparr>sh_losses := sh_losses h + of_nat (length lost)\<rparr>))"

subsection \<open>Receiving an acknowledgement\<close>

text \<open>
  The loops of \<open>determineNewlyAckedPackets\<close> and of \<open>determineNewlyAckedPacketsClosePath\<close>, which differ in the
  frame only. The ranges of a frame are in descending order; \<open>i\<close> counts from the last one.
\<close>

definition range_at :: "AckRange list \<Rightarrow> nat \<Rightarrow> AckRange" where
  "range_at ranges i = ranges ! (length ranges - 1 - i)"

function advance_range :: "AckRange list \<Rightarrow> PacketNumber \<Rightarrow> nat \<Rightarrow> nat" where
  "advance_range ranges pn i =
     (if pn > ar_Last (range_at ranges i) \<and> i < length ranges - 1 then advance_range ranges pn (i + 1) else i)"
  by auto
termination by (relation "measure (\<lambda>(ranges, pn, i). length ranges - i)") auto

declare advance_range.simps [simp del]

definition errBug :: go_error where "errBug = GoErr ''BUG: ackhandler would have acked wrong packet''"

fun determine_acked ::
    "PacketNumber \<Rightarrow> PacketNumber \<Rightarrow> AckRange list \<Rightarrow> nat \<Rightarrow> Packet list \<Rightarrow> go_error + Packet list" where
  "determine_acked lowest largest ranges i [] = Inr []"
| "determine_acked lowest largest ranges i (p # ps) =
     (let pn = pk_PacketNumber p
      in if pn < lowest then determine_acked lowest largest ranges i ps
         else if pn > largest then Inr []
         else if length ranges > 0
         then let i' = advance_range ranges pn i; r = range_at ranges i'
           in if pn \<ge> ar_First r
              then if pn > ar_Last r then Inl errBug
                   else case determine_acked lowest largest ranges i' ps of
                          Inl e \<Rightarrow> Inl e | Inr acked \<Rightarrow> Inr (p # acked)
              else determine_acked lowest largest ranges i' ps
         else case determine_acked lowest largest ranges i ps of
                Inl e \<Rightarrow> Inl e | Inr acked \<Rightarrow> Inr (p # acked))"

definition determineNewlyAckedPackets :: "AckFrame \<Rightarrow> 'c sentPacketHandler \<Rightarrow> go_error + Packet list" where
  "determineNewlyAckedPackets f h =
     determine_acked (ack_LowestAcked f) (ack_LargestAcked f) (ack_AckRanges f) 0 (sh_packetHistory h)"

definition determineNewlyAckedPacketsClosePath ::
    "ClosePathFrame \<Rightarrow> 'c sentPacketHandler \<Rightarrow> go_error + Packet list" where
  "determineNewlyAckedPacketsClosePath f h =
     determine_acked (cp_LowestAcked f) (cp_LargestAcked f) (cp_AckRanges f) 0 (sh_packetHistory h)"

text \<open>The search for the largest acked packet; the packets are sorted by number.\<close>

fun find_packet :: "PacketNumber \<Rightarrow> Packet list \<Rightarrow> Packet option" where
  "find_packet pn [] = None"
| "find_packet pn (p # ps) =
     (if pk_PacketNumber p = pn then Some p
      else if pk_PacketNumber p > pn then None else find_packet pn ps)"

definition maybeUpdateRTT ::
    "int \<Rightarrow> PacketNumber \<Rightarrow> Duration \<Rightarrow> int \<Rightarrow> 'c sentPacketHandler \<Rightarrow> bool \<times> 'c sentPacketHandler" where
  "maybeUpdateRTT now largestAcked ackDelay rcvTime h =
     (case find_packet largestAcked (sh_packetHistory h) of
        Some p \<Rightarrow> (True, h\<lparr>sh_rttStats := UpdateRTT (rcvTime - pk_SendTime p) ackDelay now (sh_rttStats h)\<rparr>)
      | None \<Rightarrow> (False, h))"

definition onPacketAcked :: "Packet \<Rightarrow> 'c sentPacketHandler \<Rightarrow> 'c sentPacketHandler" where
  "onPacketAcked p h =
     h\<lparr>sh_bytesInFlight := sh_bytesInFlight h - pk_Length p, sh_rtoCount := 0, sh_tlpCount := 0,
       sh_packetHistory := remove_packet (pk_PacketNumber p) (sh_packetHistory h)\<rparr>"

fun ack_packets :: "'c SendAlgorithm \<Rightarrow> Packet list \<Rightarrow> 'c sentPacketHandler \<Rightarrow> 'c sentPacketHandler" where
  "ack_packets alg [] h = h"
| "ack_packets alg (p # ps) h =
     (let h1 = onPacketAcked p h
      in ack_packets alg ps (with_cc (sa_OnPacketAcked alg (sh_rttStats h1) (pk_PacketNumber p) (pk_Length p)
           (sh_bytesInFlight h1)) h1))"

definition skippedPacketsAcked :: "AckFrame \<Rightarrow> 'c sentPacketHandler \<Rightarrow> bool" where
  "skippedPacketsAcked f h = list_ex (AckFrame_AcksPacket f) (sh_skippedPackets h)"

definition skippedPacketsAckedClosePath :: "ClosePathFrame \<Rightarrow> 'c sentPacketHandler \<Rightarrow> bool" where
  "skippedPacketsAckedClosePath f h = list_ex (ClosePathFrame_AcksPacket f) (sh_skippedPackets h)"

text \<open>The loop that finds \<open>deleteIndex\<close>: \<open>i\<close> is the index of the first element of what is left.\<close>

fun delete_index :: "PacketNumber \<Rightarrow> nat \<Rightarrow> nat \<Rightarrow> PacketNumber list \<Rightarrow> nat" where
  "delete_index lioa i d [] = d"
| "delete_index lioa i d (p # ps) = delete_index lioa (i + 1) (if p \<le> lioa then i + 1 else d) ps"

definition garbageCollectSkippedPackets :: "'c sentPacketHandler \<Rightarrow> 'c sentPacketHandler" where
  "garbageCollectSkippedPackets h =
     h\<lparr>sh_skippedPackets := drop (delete_index (largestInOrderAcked h) 0 0 (sh_skippedPackets h)) (sh_skippedPackets h)\<rparr>"

text \<open>
  \<open>ReceivedAck\<close> from the point where the frame is known not to be a repetition, with \<open>LargestAcked\<close>
  already set.
\<close>

definition received_new_ack ::
    "'c SendAlgorithm \<Rightarrow> int \<Rightarrow> AckFrame \<Rightarrow> int \<Rightarrow> 'c sentPacketHandler \<Rightarrow> go_error option \<times> 'c sentPacketHandler" where
  "received_new_ack alg now f rcvTime h =
     (if skippedPacketsAcked f h then (Some ErrAckForSkippedPacket, h)
      else
        let (rttUpdated, h1) = maybeUpdateRTT now (ack_LargestAcked f) (ack_DelayTime f) rcvTime h;
            h2 = (if rttUpdated then with_cc (sa_MaybeExitSlowStart alg (sh_rttStats h1)) h1 else h1)
        in case determineNewlyAckedPackets f h2 of
             Inl e \<Rightarrow> (Some e, h2)
           | Inr acked \<Rightarrow>
               let h3 = ack_packets alg acked h2;
                   h4 = updateLossDetectionAlarm alg (detectLostPackets alg now h3);
                   h5 = garbageCollectSkippedPackets h4
               in (None, h5\<lparr>sh_stopWaitingManager := sw_ReceivedAck f (sh_stopWaitingManager h5)\<rparr>))"

definition ReceivedAck ::
    "'c SendAlgorithm \<Rightarrow> int \<Rightarrow> AckFrame \<Rightarrow> PacketNumber \<Rightarrow> int \<Rightarrow> 'c sentPacketHandler \<Rightarrow>
     go_error option \<times> 'c sentPacketHandler" where
  "ReceivedAck alg now f withPacketNumber rcvTime h =
     (if ack_LargestAcked f > sh_lastSentPacketNumber h then (Some errAckForUnsentPacket, h)
      else
        let h1 = with_cc (sa_UpdateGroupEpoch alg (ack_Groups f) (ack_Epoch f)) h
        in if withPacketNumber \<le> sh_largestReceivedPacketWithAck h1 then (Some ErrDuplicateOrOutOfOrderAck, h1)
           else
             let h2 = h1\<lparr>sh_largestReceivedPacketWithAck := withPacketNumber\<rparr>
             in if ack_LargestAcked f \<le> largestInOrderAcked h2 then (None, h2)
                else received_new_ack alg now f rcvTime (h2\<lparr>sh_LargestAcked := ack_LargestAcked f\<rparr>))"

definition ReceivedClosePath ::
    "'c SendAlgorithm \<Rightarrow> ClosePathFrame \<Rightarrow> PacketNumber \<Rightarrow> 'c sentPacketHandler \<Rightarrow> go_error option \<times> 'c sentPacketHandler" where
  "ReceivedClosePath alg f withPacketNumber h =
     (if cp_LargestAcked f > sh_lastSentPacketNumber h then (Some errAckForUnsentPacket, h)
      else if withPacketNumber \<le> sh_largestReceivedPacketWithAck h then (Some ErrDuplicateOrOutOfOrderAck, h)
      else
        let h1 = h\<lparr>sh_largestReceivedPacketWithAck := withPacketNumber\<rparr>
        in if skippedPacketsAckedClosePath f h1 then (Some ErrAckForSkippedPacket, h1)
           else case determineNewlyAckedPacketsClosePath f h1 of
                  Inl e \<Rightarrow> (Some e, h1)
                | Inr acked \<Rightarrow>
                    (None, garbageCollectSkippedPackets (SetInflightAsLost alg (ack_packets alg acked h1))))"

subsection \<open>Retransmission\<close>

definition retransmitTLP :: "'c sentPacketHandler \<Rightarrow> 'c sentPacketHandler" where
  "retransmitTLP h =
     (if sh_packetHistory h = [] then h else queuePacketForRetransmission (last (sh_packetHistory h)) h)"

lemma queueRTO_history:
  "sh_packetHistory (queueRTO alg p h) = remove_packet (pk_PacketNumber p) (sh_packetHistory h)"
  by (simp add: queueRTO_def Let_def packet_lost_def with_cc_def queuePacketForRetransmission_def)

text \<open>\<open>for h.packetHistory.Len() > 0 { h.queueRTO(h.packetHistory.Front()) }\<close>\<close>

function queue_all :: "'c SendAlgorithm \<Rightarrow> 'c sentPacketHandler \<Rightarrow> 'c sentPacketHandler" where
  "queue_all alg h =
     (case sh_packetHistory h of [] \<Rightarrow> h | p # _ \<Rightarrow> queue_all alg (queueRTO alg p h))"
  by auto
termination
  by (relation "measure (\<lambda>(alg, h). length (sh_packetHistory h))")
    (auto simp: queueRTO_history remove_packet_def less_Suc_eq_le)

declare queue_all.simps [simp del]

definition retransmitAllPackets :: "'c SendAlgorithm \<Rightarrow> 'c sentPacketHandler \<Rightarrow> 'c sentPacketHandler" where
  "retransmitAllPackets alg h = with_cc (sa_OnRetransmissionTimeout alg True) (queue_all alg h)"

definition retransmitOldestPacket :: "'c SendAlgorithm \<Rightarrow> 'c sentPacketHandler \<Rightarrow> 'c sentPacketHandler" where
  "retransmitOldestPacket alg h =
     (case sh_packetHistory h of [] \<Rightarrow> h | p # _ \<Rightarrow> queueRTO alg p h)"

definition retransmitOldestTwoPackets :: "'c SendAlgorithm \<Rightarrow> 'c sentPacketHandler \<Rightarrow> 'c sentPacketHandler" where
  "retransmitOldestTwoPackets alg h =
     with_cc (sa_OnRetransmissionTimeout alg True) (retransmitOldestPacket alg (retransmitOldestPacket alg h))"

definition OnAlarm ::
    "'c SendAlgorithm \<Rightarrow> int \<Rightarrow> (int \<Rightarrow> bool) option \<Rightarrow> 'c sentPacketHandler \<Rightarrow> 'c sentPacketHandler" where
  "OnAlarm alg now onRTO h =
     (if \<not> hasOutstandingRetransmittablePacket h then h\<lparr>sh_alarm := None\<rparr>
      else updateLossDetectionAlarm alg
        (if sh_lossTime h \<noteq> None then detectLostPackets alg now h
         else if sh_tlpCount h < maxTailLossProbes
         then let h1 = retransmitTLP h in h1\<lparr>sh_tlpCount := sh_tlpCount h1 + 1\<rparr>
         else
           let potentiallyFailed = (case onRTO of None \<Rightarrow> False | Some callback \<Rightarrow> callback (sh_lastSentTime h));
               h1 = (if potentiallyFailed then retransmitAllPackets alg h else retransmitOldestTwoPackets alg h)
           in h1\<lparr>sh_rtoCount := sh_rtoCount h1 + 1\<rparr>))"

definition DequeuePacketForRetransmission :: "'c sentPacketHandler \<Rightarrow> Packet option \<times> 'c sentPacketHandler" where
  "DequeuePacketForRetransmission h =
     (case sh_retransmissionQueue h of
        [] \<Rightarrow> (None, h)
      | p # ps \<Rightarrow> (Some p, h\<lparr>sh_retransmissionQueue := ps, sh_retransmissions := sh_retransmissions h + 1\<rparr>))"

definition DuplicatePacket :: "Packet \<Rightarrow> 'c sentPacketHandler \<Rightarrow> 'c sentPacketHandler" where
  "DuplicatePacket p h = h\<lparr>sh_retransmissionQueue := sh_retransmissionQueue h @ [p]\<rparr>"

definition GetLeastUnacked :: "'c sentPacketHandler \<Rightarrow> PacketNumber" where
  "GetLeastUnacked h = largestInOrderAcked h + 1"

definition GetStopWaitingFrame :: "bool \<Rightarrow> 'c sentPacketHandler \<Rightarrow> PacketNumber option \<times> 'c sentPacketHandler" where
  "GetStopWaitingFrame force h =
     (let (f, s) = sw_GetStopWaitingFrame force (sh_stopWaitingManager h) in (f, h\<lparr>sh_stopWaitingManager := s\<rparr>))"

definition SendingAllowed :: "'c SendAlgorithm \<Rightarrow> 'c sentPacketHandler \<Rightarrow> bool" where
  "SendingAllowed alg h =
     (let congestionLimited = sh_bytesInFlight h > sa_GetCongestionWindow alg (sh_congestion h);
          maxTrackedLimited = of_nat (length (sh_retransmissionQueue h) + length (sh_packetHistory h)) \<ge> MaxTrackedSentPackets;
          haveRetransmissions = length (sh_retransmissionQueue h) > 0
      in \<not> maxTrackedLimited \<and> (\<not> congestionLimited \<or> haveRetransmissions))"

section \<open>Exactly the acked packets are taken out\<close>

lemma advance_range:
  assumes "i < length ranges" "\<forall>j<i. ar_Last (range_at ranges j) < pn"
  shows "i \<le> advance_range ranges pn i \<and> advance_range ranges pn i < length ranges \<and>
    (\<forall>j<advance_range ranges pn i. ar_Last (range_at ranges j) < pn) \<and>
    (pn \<le> ar_Last (range_at ranges (advance_range ranges pn i)) \<or> advance_range ranges pn i = length ranges - 1)"
  using assms
proof (induction ranges pn i rule: advance_range.induct)
  case (1 ranges pn i)
  show ?case
  proof (cases "pn > ar_Last (range_at ranges i) \<and> i < length ranges - 1")
    case True
    have "\<forall>j<i + 1. ar_Last (range_at ranges j) < pn"
      using True "1.prems"(2) by (auto simp: less_Suc_eq)
    moreover have "i + 1 < length ranges" using True by auto
    ultimately show ?thesis
      using "1.IH" [OF True] unfolding advance_range.simps [of ranges pn i] if_P [OF True]
      by (meson add_leD1)
  next
    case False
    then have "advance_range ranges pn i = i" by (subst advance_range.simps) auto
    then show ?thesis using False "1.prems" by (auto simp: not_less)
  qed
qed

lemma range_at_less:
  assumes "ranges_ok ranges" "i < j" "j < length ranges"
  shows "range_above (range_at ranges j) (range_at ranges i)"
proof -
  have "length ranges - 1 - j < length ranges - 1 - i" "length ranges - 1 - i < length ranges"
    using assms(2,3) by auto
  then show ?thesis using assms(1) unfolding ranges_ok_def range_at_def
    by (auto simp: sorted_wrt_iff_nth_less)
qed

lemma set_ranges_at: "r \<in> set ranges \<longleftrightarrow> (\<exists>i<length ranges. r = range_at ranges i)"
proof
  assume "r \<in> set ranges"
  then obtain k where k: "k < length ranges" "r = ranges ! k" by (auto simp: in_set_conv_nth)
  then have "r = range_at ranges (length ranges - 1 - k)" by (simp add: range_at_def)
  then show "\<exists>i<length ranges. r = range_at ranges i" using k(1)
    by (intro exI [of _ "length ranges - 1 - k"]) simp
qed (auto simp: range_at_def)

definition packets_sorted :: "Packet list \<Rightarrow> bool" where
  "packets_sorted ps \<longleftrightarrow> sorted_wrt (<) (map pk_PacketNumber ps)"

lemma packets_sorted_Cons:
  "packets_sorted (p # ps) \<longleftrightarrow> (\<forall>q\<in>set ps. pk_PacketNumber p < pk_PacketNumber q) \<and> packets_sorted ps"
  by (auto simp: packets_sorted_def)

definition ack_shape :: "PacketNumber \<Rightarrow> PacketNumber \<Rightarrow> AckRange list \<Rightarrow> bool" where
  "ack_shape lowest largest ranges \<longleftrightarrow> ranges = [] \<or>
     (ranges_ok ranges \<and> ar_Last (hd ranges) = largest \<and> ar_First (last ranges) = lowest)"

lemma determine_acked_ranges:
  assumes "ranges_ok ranges" "ranges \<noteq> []" "ar_Last (hd ranges) = largest"
    and "packets_sorted ps" "i < length ranges"
    and "\<forall>p\<in>set ps. \<forall>j<i. ar_Last (range_at ranges j) < pk_PacketNumber p"
  shows "determine_acked lowest largest ranges i ps =
    Inr (filter (\<lambda>p. acksPacket lowest largest ranges (pk_PacketNumber p)) ps)"
  using assms(4-6)
proof (induction ps arbitrary: i)
  case (Cons p ps)
  let ?pn = "pk_PacketNumber p"
  note sorted = Cons.prems(1) [unfolded packets_sorted_Cons]
  have rest: "determine_acked lowest largest ranges k ps =
      Inr (filter (\<lambda>p. acksPacket lowest largest ranges (pk_PacketNumber p)) ps)"
    if "k < length ranges" "\<forall>j<k. ar_Last (range_at ranges j) < ?pn" for k
    using that sorted by (intro Cons.IH) (auto dest: order.strict_trans)
  consider "?pn < lowest" | "?pn > largest" "\<not> ?pn < lowest" | "lowest \<le> ?pn" "?pn \<le> largest" by (force simp: not_less)
  then show ?case
  proof cases
    case 1
    then show ?thesis using rest [OF Cons.prems(2)] Cons.prems(3) by (simp add: Let_def acksPacket_def)
  next
    case 2
    then have "filter (\<lambda>p. acksPacket lowest largest ranges (pk_PacketNumber p)) (p # ps) = []"
      using sorted by (auto simp: acksPacket_def filter_empty_conv dest: order.strict_trans)
    with 2 show ?thesis by (simp add: Let_def)
  next
    case 3
    define k where "k = advance_range ranges ?pn i"
    have k: "k < length ranges" "\<forall>j<k. ar_Last (range_at ranges j) < ?pn"
        "?pn \<le> ar_Last (range_at ranges k) \<or> k = length ranges - 1"
      using advance_range [of i ranges ?pn] Cons.prems(2,3) by (auto simp: k_def)
    have top: "range_at ranges (length ranges - 1) = hd ranges"
      using assms(2) by (simp add: range_at_def hd_conv_nth)
    have last: "?pn \<le> ar_Last (range_at ranges k)"
      using k(3) 3(2) assms(3) top by auto
    have acks: "acksPacket lowest largest ranges ?pn \<longleftrightarrow> ar_First (range_at ranges k) \<le> ?pn"
    proof
      assume "acksPacket lowest largest ranges ?pn"
      then obtain j where j: "j < length ranges" "ar_First (range_at ranges j) \<le> ?pn" "?pn \<le> ar_Last (range_at ranges j)"
        using assms(2) 3 by (auto simp: acksPacket_def list_ex_iff set_ranges_at split: if_splits)
      have "\<not> j < k" using k(2) j(3) by (auto simp: not_le [symmetric])
      moreover have "ar_First (range_at ranges k) \<le> ar_First (range_at ranges j)" if "k < j"
      proof -
        have "range_at ranges k \<in> set ranges" using k(1) by (auto simp: set_ranges_at)
        then have "ar_First (range_at ranges k) \<le> ar_Last (range_at ranges k)"
          using assms(1) by (simp add: ranges_ok_def)
        then show ?thesis using range_at_less [OF assms(1) that j(1)]
          by (auto simp: range_above_def word_le_nat_alt)
      qed
      ultimately show "ar_First (range_at ranges k) \<le> ?pn"
        using j(2) by (cases "j = k") (auto simp: not_less intro: order.trans)
    next
      assume "ar_First (range_at ranges k) \<le> ?pn"
      moreover have "range_at ranges k \<in> set ranges" using k(1) set_ranges_at by blast
      ultimately show "acksPacket lowest largest ranges ?pn"
        using 3 last by (auto simp: acksPacket_def list_ex_iff not_less)
    qed
    show ?thesis
      using 3 last acks rest [OF k(1,2)] assms(2) k_def
      by (auto simp: Let_def not_less)
  qed
qed simp

lemma determine_acked_single:
  assumes "packets_sorted ps"
  shows "determine_acked lowest largest [] i ps =
    Inr (filter (\<lambda>p. acksPacket lowest largest [] (pk_PacketNumber p)) ps)"
  using assms
proof (induction ps)
  case (Cons p ps)
  note sorted = Cons.prems [unfolded packets_sorted_Cons]
  have IH: "determine_acked lowest largest [] i ps =
      Inr (filter (\<lambda>p. acksPacket lowest largest [] (pk_PacketNumber p)) ps)"
    using Cons.IH sorted by blast
  show ?case
  proof (cases "pk_PacketNumber p > largest")
    case True
    have "filter (\<lambda>p. acksPacket lowest largest [] (pk_PacketNumber p)) ps = []"
      using True sorted by (auto simp: acksPacket_def filter_empty_conv dest: order.strict_trans)
    moreover have "\<not> acksPacket lowest largest [] (pk_PacketNumber p)"
      using True by (simp add: acksPacket_def)
    ultimately show ?thesis using True IH by (simp add: Let_def)
  next
    case False
    then show ?thesis using IH by (auto simp: Let_def acksPacket_def)
  qed
qed simp

lemma determine_acked_eq:
  assumes "packets_sorted ps" "ack_shape lowest largest ranges"
  shows "determine_acked lowest largest ranges 0 ps =
    Inr (filter (\<lambda>p. acksPacket lowest largest ranges (pk_PacketNumber p)) ps)"
proof (cases "ranges = []")
  case True
  then show ?thesis using determine_acked_single [OF assms(1)] by simp
next
  case False
  then show ?thesis using assms determine_acked_ranges [of ranges largest ps 0] by (auto simp: ack_shape_def)
qed

end
