(* ===== verification/Sent_Correct.thy ===== *)
theory Sent_Correct
  imports Sent_Handler "HOL-Library.Sublist" "HOL-Library.Multiset"
begin

section \<open>The handler of sent packets is correct\<close>

text \<open>
  What every operation of the handler does to the packets in flight: it takes some out as acked and some
  as lost, the lost ones go to the end of the retransmission queue, and the bytes in flight
  go down by the lengths of both. \<open>moves A L h h'\<close> says this; it composes.
\<close>

definition bytes_of :: "Packet list \<Rightarrow> ByteCount" where
  "bytes_of ps = sum_list (map pk_Length ps)"

lemma bytes_of_simps [simp]:
  "bytes_of [] = 0" "bytes_of (p # ps) = pk_Length p + bytes_of ps" "bytes_of (ps @ qs) = bytes_of ps + bytes_of qs"
  by (simp_all add: bytes_of_def)

lemma bytes_of_mset: "mset ps = mset qs \<Longrightarrow> bytes_of ps = bytes_of qs"
  unfolding bytes_of_def by (metis mset_map sum_mset_sum_list)

definition moves :: "Packet list \<Rightarrow> Packet list \<Rightarrow> 'c sentPacketHandler \<Rightarrow> 'c sentPacketHandler \<Rightarrow> bool" where
  "moves A L h h' \<longleftrightarrow>
     mset (sh_packetHistory h) = mset (sh_packetHistory h') + mset A + mset L \<and>
     subseq (sh_packetHistory h') (sh_packetHistory h) \<and>
     sh_retransmissionQueue h' = sh_retransmissionQueue h @ L \<and>
     sh_bytesInFlight h' = sh_bytesInFlight h - bytes_of A - bytes_of L \<and>
     sh_lastSentPacketNumber h' = sh_lastSentPacketNumber h"

lemma moves_refl: "moves [] [] h h"
  by (simp add: moves_def)

lemma moves_trans:
  assumes "moves A L h h1" "moves B M h1 h2"
  shows "moves (A @ B) (L @ M) h h2"
  using assms by (auto simp: moves_def intro: subseq_order.trans)

lemma sorted_wrt_subseq: "subseq xs ys \<Longrightarrow> sorted_wrt P ys \<Longrightarrow> sorted_wrt P xs"
  by (induction rule: list_emb.induct) (auto dest: list_emb_set)

lemma moves_sorted: "moves A L h h' \<Longrightarrow> packets_sorted (sh_packetHistory h) \<Longrightarrow> packets_sorted (sh_packetHistory h')"
  unfolding moves_def packets_sorted_def by (metis sorted_wrt_subseq subseq_map)

lemma remove_packet_sorted:
  assumes "packets_sorted ps" "p \<in> set ps"
  shows "mset ps = add_mset p (mset (remove_packet (pk_PacketNumber p) ps))"
  using assms
proof (induction ps)
  case (Cons q ps)
  note s = Cons.prems(1) [unfolded packets_sorted_Cons]
  show ?case
  proof (cases "p = q")
    case True
    then have "remove_packet (pk_PacketNumber p) ps = ps"
      using s unfolding remove_packet_def by (intro filter_True) auto
    then show ?thesis using True by (simp add: remove_packet_def)
  next
    case False
    then have "p \<in> set ps" "pk_PacketNumber q \<noteq> pk_PacketNumber p" using Cons.prems s by auto
    then show ?thesis using Cons.IH s by (simp add: remove_packet_def)
  qed
qed simp

lemma subseq_remove: "subseq (remove_packet n ps) ps"
  by (simp add: remove_packet_def)

lemma moves_queue:
  assumes "packets_sorted (sh_packetHistory h)" "p \<in> set (sh_packetHistory h)"
  shows "moves [] [p] h (queuePacketForRetransmission p h)"
  using remove_packet_sorted [OF assms]
  by (simp add: moves_def queuePacketForRetransmission_def subseq_remove)

lemma moves_acked:
  assumes "packets_sorted (sh_packetHistory h)" "p \<in> set (sh_packetHistory h)"
  shows "moves [p] [] h (onPacketAcked p h)"
  using remove_packet_sorted [OF assms] by (simp add: moves_def onPacketAcked_def subseq_remove)

lemma moves_with_cc: "moves A L h h' \<Longrightarrow> moves A L h (with_cc f h')"
  by (simp add: moves_def with_cc_def)

lemma moves_packet_lost: "moves A L h h' \<Longrightarrow> moves A L h (packet_lost alg p h')"
  by (simp add: packet_lost_def moves_with_cc)

lemma moves_keep:
  assumes "moves [] [p] h h1 \<or> moves [p] [] h h1" "packets_sorted (sh_packetHistory h)"
    and "q \<in> set (sh_packetHistory h)" "pk_PacketNumber q \<noteq> pk_PacketNumber p"
  shows "q \<in> set (sh_packetHistory h1)"
proof -
  have "mset (sh_packetHistory h) = add_mset p (mset (sh_packetHistory h1))"
    using assms(1) by (auto simp: moves_def)
  then have "set (sh_packetHistory h) = insert p (set (sh_packetHistory h1))"
    by (metis set_mset_add_mset_insert set_mset_mset)
  then show ?thesis using assms(3,4) by auto
qed

lemma moves_keep_all:
  assumes "moves [] [p] h h1 \<or> moves [p] [] h h1" "packets_sorted (sh_packetHistory h)"
    and "set (p # ps) \<subseteq> set (sh_packetHistory h)" "distinct (map pk_PacketNumber (p # ps))"
  shows "set ps \<subseteq> set (sh_packetHistory h1)"
proof
  fix q assume q: "q \<in> set ps"
  then have "pk_PacketNumber q \<in> pk_PacketNumber ` set ps" by simp
  then have "pk_PacketNumber q \<noteq> pk_PacketNumber p" using assms(4) by auto
  then show "q \<in> set (sh_packetHistory h1)" using moves_keep [OF assms(1,2)] assms(3) q by auto
qed

lemma moves_lose:
  assumes "packets_sorted (sh_packetHistory h)" "set ps \<subseteq> set (sh_packetHistory h)" "distinct (map pk_PacketNumber ps)"
  shows "moves [] ps h (lose_packets alg ps h)"
  using assms
proof (induction ps arbitrary: h)
  case (Cons p ps)
  let ?h = "packet_lost alg p (queuePacketForRetransmission p h)"
  have m: "moves [] [p] h ?h" using Cons.prems by (intro moves_packet_lost moves_queue) auto
  have "set ps \<subseteq> set (sh_packetHistory ?h)"
    using moves_keep_all [OF disjI1 [OF m]] Cons.prems by blast
  then have "moves [] ps ?h (lose_packets alg ps ?h)"
    using Cons moves_sorted [OF m] by simp
  from moves_trans [OF m this] show ?case by simp
qed (simp add: moves_refl)

lemma moves_ack:
  assumes "packets_sorted (sh_packetHistory h)" "set ps \<subseteq> set (sh_packetHistory h)" "distinct (map pk_PacketNumber ps)"
  shows "moves ps [] h (ack_packets alg ps h)"
  using assms
proof (induction ps arbitrary: h)
  case (Cons p ps)
  let ?h = "with_cc (sa_OnPacketAcked alg (sh_rttStats (onPacketAcked p h)) (pk_PacketNumber p) (pk_Length p)
    (sh_bytesInFlight (onPacketAcked p h))) (onPacketAcked p h)"
  have m: "moves [p] [] h ?h" using Cons.prems by (intro moves_with_cc moves_acked) auto
  have "set ps \<subseteq> set (sh_packetHistory ?h)"
    using moves_keep_all [OF disjI2 [OF m]] Cons.prems by blast
  then have "moves ps [] ?h (ack_packets alg ps ?h)"
    using Cons moves_sorted [OF m] by simp
  from moves_trans [OF m this] show ?case by (simp add: Let_def)
qed (simp add: moves_refl)

text \<open>What the helpers leave alone.\<close>

lemma with_cc_sel [simp]:
  "sh_alarm (with_cc f h) = sh_alarm h" "sh_LargestAcked (with_cc f h) = sh_LargestAcked h"
  "sh_packetHistory (with_cc f h) = sh_packetHistory h" "sh_rttStats (with_cc f h) = sh_rttStats h"
  "sh_retransmissionQueue (with_cc f h) = sh_retransmissionQueue h"
  "sh_lastSentPacketNumber (with_cc f h) = sh_lastSentPacketNumber h"
  "sh_bytesInFlight (with_cc f h) = sh_bytesInFlight h"
  "sh_skippedPackets (with_cc f h) = sh_skippedPackets h"
  "sh_largestReceivedPacketWithAck (with_cc f h) = sh_largestReceivedPacketWithAck h"
  by (simp_all add: with_cc_def)

lemma lose_packets_sel [simp]:
  "sh_alarm (lose_packets alg ps h) = sh_alarm h"
  "sh_LargestAcked (lose_packets alg ps h) = sh_LargestAcked h"
  by (induction ps arbitrary: h) (simp_all add: packet_lost_def queuePacketForRetransmission_def)

lemma ack_packets_sel [simp]:
  "sh_alarm (ack_packets alg ps h) = sh_alarm h"
  "sh_LargestAcked (ack_packets alg ps h) = sh_LargestAcked h"
  by (induction ps arbitrary: h) (simp_all add: Let_def onPacketAcked_def)

lemma queueRTO_sel [simp]:
  "sh_LargestAcked (queueRTO alg p h) = sh_LargestAcked h"
  by (simp add: queueRTO_def Let_def packet_lost_def queuePacketForRetransmission_def)

lemma queue_all_sel [simp]: "sh_LargestAcked (queue_all alg h) = sh_LargestAcked h"
  by (induction alg h rule: queue_all.induct) (subst queue_all.simps, simp split: list.splits)

lemma updateLossDetectionAlarm_sel [simp]:
  "sh_LargestAcked (updateLossDetectionAlarm alg h) = sh_LargestAcked h"
  "sh_packetHistory (updateLossDetectionAlarm alg h) = sh_packetHistory h"
  "sh_retransmissionQueue (updateLossDetectionAlarm alg h) = sh_retransmissionQueue h"
  "sh_lastSentPacketNumber (updateLossDetectionAlarm alg h) = sh_lastSentPacketNumber h"
  "sh_bytesInFlight (updateLossDetectionAlarm alg h) = sh_bytesInFlight h"
  by (simp_all add: updateLossDetectionAlarm_def split: option.splits)

lemma updateLossDetectionAlarm_set: "sh_packetHistory h \<noteq> [] \<Longrightarrow> sh_alarm (updateLossDetectionAlarm alg h) \<noteq> None"
  by (simp add: updateLossDetectionAlarm_def split: option.splits)

lemma moves_frame:
  assumes "moves A L h h1" "sh_packetHistory h' = sh_packetHistory h1"
    "sh_retransmissionQueue h' = sh_retransmissionQueue h1" "sh_bytesInFlight h' = sh_bytesInFlight h1"
    "sh_lastSentPacketNumber h' = sh_lastSentPacketNumber h1"
  shows "moves A L h h'"
  using assms by (simp add: moves_def)

lemma moves_from:
  assumes "moves A L h1 h'" "sh_packetHistory h1 = sh_packetHistory h"
    "sh_retransmissionQueue h1 = sh_retransmissionQueue h" "sh_bytesInFlight h1 = sh_bytesInFlight h"
    "sh_lastSentPacketNumber h1 = sh_lastSentPacketNumber h"
  shows "moves A L h h'"
  using assms by (simp add: moves_def)

text \<open>The loops that lose packets.\<close>

lemma sorted_distinct: "packets_sorted ps \<Longrightarrow> distinct (map pk_PacketNumber ps)"
  unfolding packets_sorted_def by (metis strict_sorted_iff strict_sorted_simps sorted_wrt_less_idx distinct_conv_nth strict_sorted_equal order_less_irrefl)

lemma moves_lose_subseq:
  assumes "packets_sorted (sh_packetHistory h)" "subseq ps (sh_packetHistory h)"
  shows "moves [] ps h (lose_packets alg ps h)"
proof (rule moves_lose [OF assms(1)])
  show "set ps \<subseteq> set (sh_packetHistory h)" using assms(2) by (auto dest: list_emb_set)
  have "packets_sorted ps"
    using assms unfolding packets_sorted_def by (metis sorted_wrt_subseq subseq_map)
  then show "distinct (map pk_PacketNumber ps)" by (rule sorted_distinct)
qed

lemma detect_loop_subseq: "subseq (fst (detect_loop now delay la ps t)) ps"
  by (induction ps arbitrary: t) (auto simp: Let_def case_prod_beta intro: list_emb.intros(2))

lemma detectLostPackets_moves:
  assumes "packets_sorted (sh_packetHistory h)"
  obtains L where "moves [] L h (detectLostPackets alg now h)"
    "sh_LargestAcked (detectLostPackets alg now h) = sh_LargestAcked h"
    "sh_alarm (detectLostPackets alg now h) = sh_alarm h"
proof -
  obtain lost t where d: "detect_loop now (delay_until_lost (sh_rttStats h)) (sh_LargestAcked h) (sh_packetHistory h) None = (lost, t)"
    by fastforce
  have sub: "subseq lost (sh_packetHistory h)" using detect_loop_subseq [of now _ _ "sh_packetHistory h"] d by (metis fst_conv)
  let ?h = "h\<lparr>sh_lossTime := t, sh_losses := sh_losses h + of_nat (length lost)\<rparr>"
  have "moves [] lost ?h (lose_packets alg lost ?h)"
    using assms sub by (intro moves_lose_subseq) simp_all
  then have "moves [] lost h (lose_packets alg lost ?h)" by (rule moves_from) simp_all
  then show ?thesis using that by (simp add: detectLostPackets_def d)
qed

lemma SetInflightAsLost_moves:
  assumes "packets_sorted (sh_packetHistory h)"
  shows "moves [] (takeWhile (\<lambda>p. \<not> pk_PacketNumber p > sh_LargestAcked h) (sh_packetHistory h)) h (SetInflightAsLost alg h)"
proof -
  let ?l = "takeWhile (\<lambda>p. \<not> pk_PacketNumber p > sh_LargestAcked h) (sh_packetHistory h)"
  let ?h = "h\<lparr>sh_losses := sh_losses h + of_nat (length ?l)\<rparr>"
  have "prefix ?l (sh_packetHistory h)" by (rule takeWhile_is_prefix)
  then have "moves [] ?l ?h (lose_packets alg ?l ?h)"
    using assms by (intro moves_lose_subseq prefix_imp_subseq) simp_all
  then have "moves [] ?l h (lose_packets alg ?l ?h)" by (rule moves_from) simp_all
  then show ?thesis by (simp add: SetInflightAsLost_def Let_def)
qed

lemma moves_queueRTO:
  assumes "packets_sorted (sh_packetHistory h)" "p \<in> set (sh_packetHistory h)"
  shows "moves [] [p] h (queueRTO alg p h)"
  unfolding queueRTO_def Let_def
  by (rule moves_packet_lost, rule moves_frame [OF moves_queue [OF assms]]) simp_all

lemma moves_queue_all:
  assumes "packets_sorted (sh_packetHistory h)"
  shows "moves [] (sh_packetHistory h) h (queue_all alg h)"
  using assms
proof (induction alg h rule: queue_all.induct)
  case (1 alg h)
  show ?case
  proof (cases "sh_packetHistory h")
    case Nil
    then show ?thesis by (subst queue_all.simps) (simp add: moves_refl)
  next
    case (Cons p ps)
    have m: "moves [] [p] h (queueRTO alg p h)" using "1.prems" Cons by (intro moves_queueRTO) simp_all
    have ps: "sh_packetHistory (queueRTO alg p h) = ps"
      using "1.prems" Cons unfolding queueRTO_history remove_packet_def by (auto simp: packets_sorted_Cons intro!: filter_True)
    have "moves [] ps (queueRTO alg p h) (queue_all alg (queueRTO alg p h))"
      using "1.IH" [OF Cons moves_sorted [OF m "1.prems"]] by (simp add: ps)
    from moves_trans [OF m this] show ?thesis
      using Cons by (subst queue_all.simps) simp
  qed
qed

lemma retransmitOldestPacket_moves:
  assumes "packets_sorted (sh_packetHistory h)"
  shows "moves [] (take 1 (sh_packetHistory h)) h (retransmitOldestPacket alg h)"
  using assms moves_queueRTO [of h _ alg]
  by (auto simp: retransmitOldestPacket_def moves_refl split: list.splits)

section \<open>The invariant\<close>

text \<open>
  The packets in flight are in the order of their numbers, the number of bytes in flight is the sum of their
  lengths, and as long as one of them has to be retransmitted if it is lost, the alarm is set.
\<close>

definition sh_inv :: "'c sentPacketHandler \<Rightarrow> bool" where
  "sh_inv h \<longleftrightarrow> packets_sorted (sh_packetHistory h) \<and>
     (\<forall>p\<in>set (sh_packetHistory h). 0 < pk_PacketNumber p \<and> pk_PacketNumber p \<le> sh_lastSentPacketNumber h) \<and>
     sh_bytesInFlight h = bytes_of (sh_packetHistory h) \<and> sh_LargestAcked h \<le> sh_lastSentPacketNumber h \<and>
     (hasOutstandingRetransmittablePacket h \<longrightarrow> sh_alarm h \<noteq> None)"

lemma moves_set: "moves A L h h' \<Longrightarrow> set (sh_packetHistory h') \<subseteq> set (sh_packetHistory h)"
  by (auto simp: moves_def dest: list_emb_set)

lemma sh_inv_moves:
  assumes "sh_inv h" "moves A L h h'" "sh_LargestAcked h' \<le> sh_lastSentPacketNumber h"
    and "sh_alarm h' = sh_alarm h \<or> (sh_packetHistory h' \<noteq> [] \<longrightarrow> sh_alarm h' \<noteq> None)"
  shows "sh_inv h'"
proof -
  have sub: "set (sh_packetHistory h') \<subseteq> set (sh_packetHistory h)" by (rule moves_set [OF assms(2)])
  have "bytes_of (sh_packetHistory h) = bytes_of (sh_packetHistory h') + bytes_of A + bytes_of L"
  proof -
    have "mset (sh_packetHistory h) = mset (sh_packetHistory h' @ A @ L)"
      using assms(2) by (simp add: moves_def)
    then have "bytes_of (sh_packetHistory h) = bytes_of (sh_packetHistory h' @ A @ L)" by (rule bytes_of_mset)
    then show ?thesis by (simp add: add.assoc)
  qed
  then have "sh_bytesInFlight h' = bytes_of (sh_packetHistory h')"
    using assms(1,2) by (simp add: sh_inv_def moves_def)
  moreover have "hasOutstandingRetransmittablePacket h' \<longrightarrow> sh_alarm h' \<noteq> None"
    using assms(1,4) sub by (auto simp: sh_inv_def hasOutstandingRetransmittablePacket_def list_ex_iff)
  ultimately show ?thesis
    using assms(1,3) sub moves_sorted [OF assms(2)] assms(2) by (auto simp: sh_inv_def moves_def)
qed

lemma SentPacket_ok:
  assumes "sh_inv h" "SentPacket alg now p h = (None, h')"
  shows "sh_inv h' \<and>
    sh_packetHistory h' = sh_packetHistory h @
      (if stripNonRetransmittableFrames (pk_Frames p) = [] then []
       else [p\<lparr>pk_Frames := stripNonRetransmittableFrames (pk_Frames p), pk_SendTime := now\<rparr>]) \<and>
    sh_retransmissionQueue h' = sh_retransmissionQueue h \<and> sh_lastSentPacketNumber h' = pk_PacketNumber p \<and>
    sh_lastSentPacketNumber h < pk_PacketNumber p"
proof -
  let ?fs = "stripNonRetransmittableFrames (pk_Frames p)"
  let ?p = "p\<lparr>pk_Frames := ?fs, pk_SendTime := now\<rparr>"
  have lt: "sh_lastSentPacketNumber h < pk_PacketNumber p"
    using assms(2) by (simp add: SentPacket_def split: if_splits)
  have guards: "\<not> pk_PacketNumber p \<le> sh_lastSentPacketNumber h"
      "\<not> of_nat (length (sh_retransmissionQueue h) + length (sh_packetHistory h) + 1) > MaxTrackedSentPackets"
    using assms(2) by (auto simp: SentPacket_def split: if_splits)
  obtain h4 where h': "h' = updateLossDetectionAlarm alg h4"
    and h4: "sh_packetHistory h4 = sh_packetHistory h @ (if ?fs = [] then [] else [?p])"
      "sh_retransmissionQueue h4 = sh_retransmissionQueue h" "sh_lastSentPacketNumber h4 = pk_PacketNumber p"
      "sh_LargestAcked h4 = sh_LargestAcked h"
      "sh_bytesInFlight h4 = sh_bytesInFlight h + (if ?fs = [] then 0 else pk_Length p)"
    using assms(2) unfolding SentPacket_def if_not_P [OF guards(1)] if_not_P [OF guards(2)] Let_def prod.inject
    by (elim conjE) (rule that, erule sym, simp_all add: track_packet_def)
  have "packets_sorted (sh_packetHistory h4)"
    using assms(1) lt h4(1) by (auto simp: sh_inv_def packets_sorted_def sorted_wrt_append)
  moreover have "\<forall>q\<in>set (sh_packetHistory h4). 0 < pk_PacketNumber q \<and> pk_PacketNumber q \<le> pk_PacketNumber p"
    using assms(1) lt h4(1) order.strict_trans1 [OF word_zero_le lt] by (auto simp: sh_inv_def)
  moreover have "sh_bytesInFlight h4 = bytes_of (sh_packetHistory h4)"
    using assms(1) h4(1,5) by (simp add: sh_inv_def)
  moreover have "hasOutstandingRetransmittablePacket h' \<Longrightarrow> sh_alarm h' \<noteq> None"
    unfolding h' by (rule updateLossDetectionAlarm_set) (auto simp: hasOutstandingRetransmittablePacket_def)
  ultimately show ?thesis
    using assms(1) lt h4 by (auto simp: sh_inv_def h')
qed

lemma determine_AckFrame:
  assumes "packets_sorted (sh_packetHistory h)" "ack_shape (ack_LowestAcked f) (ack_LargestAcked f) (ack_AckRanges f)"
  shows "determineNewlyAckedPackets f h =
    Inr (filter (\<lambda>p. AckFrame_AcksPacket f (pk_PacketNumber p)) (sh_packetHistory h))"
  using determine_acked_eq [OF assms] by (simp add: determineNewlyAckedPackets_def AckFrame_AcksPacket_def)

lemma determine_ClosePathFrame:
  assumes "packets_sorted (sh_packetHistory h)" "ack_shape (cp_LowestAcked f) (cp_LargestAcked f) (cp_AckRanges f)"
  shows "determineNewlyAckedPacketsClosePath f h =
    Inr (filter (\<lambda>p. ClosePathFrame_AcksPacket f (pk_PacketNumber p)) (sh_packetHistory h))"
  using determine_acked_eq [OF assms] by (simp add: determineNewlyAckedPacketsClosePath_def ClosePathFrame_AcksPacket_def)

lemma moves_ack_filter:
  assumes "packets_sorted (sh_packetHistory h)"
  shows "moves (filter P (sh_packetHistory h)) [] h (ack_packets alg (filter P (sh_packetHistory h)) h)"
proof (rule moves_ack [OF assms])
  show "distinct (map pk_PacketNumber (filter P (sh_packetHistory h)))"
    using sorted_distinct [OF assms] by (simp add: distinct_map inj_on_def)
qed auto

lemma received_new_ack_ok:
  assumes inv: "sh_inv h" and f: "ack_shape (ack_LowestAcked f) (ack_LargestAcked f) (ack_AckRanges f)"
    and eq: "received_new_ack alg now f rcvTime h = (e, h')"
  shows "(e = None \<and> (\<exists>L. moves (filter (\<lambda>p. AckFrame_AcksPacket f (pk_PacketNumber p)) (sh_packetHistory h)) L h h') \<and>
      sh_inv h') \<or> (e = Some ErrAckForSkippedPacket \<and> h' = h \<and> skippedPacketsAcked f h)"
proof (cases "skippedPacketsAcked f h")
  case True
  then show ?thesis using eq by (simp add: received_new_ack_def)
next
  case False
  obtain upd h1 where u: "maybeUpdateRTT now (ack_LargestAcked f) (ack_DelayTime f) rcvTime h = (upd, h1)" by fastforce
  define h2 where "h2 = (if upd then with_cc (sa_MaybeExitSlowStart alg (sh_rttStats h1)) h1 else h1)"
  have h2: "sh_packetHistory h2 = sh_packetHistory h" "sh_retransmissionQueue h2 = sh_retransmissionQueue h"
      "sh_bytesInFlight h2 = sh_bytesInFlight h" "sh_lastSentPacketNumber h2 = sh_lastSentPacketNumber h"
      "sh_LargestAcked h2 = sh_LargestAcked h"
    using u by (auto simp: h2_def maybeUpdateRTT_def split: option.splits)
  have sorted: "packets_sorted (sh_packetHistory h2)" using inv h2 by (simp add: sh_inv_def)
  let ?A = "filter (\<lambda>p. AckFrame_AcksPacket f (pk_PacketNumber p)) (sh_packetHistory h)"
  define h3 where "h3 = ack_packets alg ?A h2"
  have m3: "moves ?A [] h2 h3"
    using moves_ack_filter [OF sorted] by (simp add: h3_def h2)
  obtain L where m4: "moves [] L h3 (detectLostPackets alg now h3)"
      "sh_LargestAcked (detectLostPackets alg now h3) = sh_LargestAcked h3"
    using detectLostPackets_moves [OF moves_sorted [OF m3 sorted]] .
  define h4 where "h4 = updateLossDetectionAlarm alg (detectLostPackets alg now h3)"
  have fin: "e = None" "h' = (garbageCollectSkippedPackets h4)\<lparr>sh_stopWaitingManager := sw_ReceivedAck f (sh_stopWaitingManager (garbageCollectSkippedPackets h4))\<rparr>"
  proof -
    have det: "determineNewlyAckedPackets f h2 = Inr ?A"
      using determine_AckFrame [OF sorted f] by (simp only: h2)
    show "e = None" "h' = (garbageCollectSkippedPackets h4)\<lparr>sh_stopWaitingManager := sw_ReceivedAck f (sh_stopWaitingManager (garbageCollectSkippedPackets h4))\<rparr>"
      using eq [unfolded received_new_ack_def if_not_P [OF False] u prod.case Let_def, folded h2_def,
          unfolded det sum.case, folded h3_def, folded h4_def] by simp_all
  qed
  have "moves (?A @ []) ([] @ L) h2 (detectLostPackets alg now h3)" by (rule moves_trans [OF m3 m4(1)])
  then have "moves ?A L h2 (detectLostPackets alg now h3)" by simp
  then have "moves ?A L h2 h'"
    by (rule moves_frame) (simp_all add: fin(2) garbageCollectSkippedPackets_def h4_def)
  then have m: "moves ?A L h h'" by (rule moves_from) (simp_all add: h2)
  have la: "sh_LargestAcked h' = sh_LargestAcked h"
    using m4(2) by (simp add: fin(2) garbageCollectSkippedPackets_def h4_def h3_def h2)
  have "sh_packetHistory h' \<noteq> [] \<longrightarrow> sh_alarm h' \<noteq> None"
    using updateLossDetectionAlarm_set [of "detectLostPackets alg now h3" alg]
    by (simp add: fin(2) garbageCollectSkippedPackets_def h4_def)
  then have "sh_inv h'"
    using inv la by (intro sh_inv_moves [OF inv m]) (auto simp: sh_inv_def)
  then show ?thesis using fin(1) m by blast
qed

abbreviation acked_by :: "AckFrame \<Rightarrow> 'c sentPacketHandler \<Rightarrow> Packet list" where
  "acked_by f h \<equiv> filter (\<lambda>p. AckFrame_AcksPacket f (pk_PacketNumber p)) (sh_packetHistory h)"

abbreviation close_acked_by :: "ClosePathFrame \<Rightarrow> 'c sentPacketHandler \<Rightarrow> Packet list" where
  "close_acked_by f h \<equiv> filter (\<lambda>p. ClosePathFrame_AcksPacket f (pk_PacketNumber p)) (sh_packetHistory h)"

text \<open>A frame that acks nothing new acks nothing that is in flight.\<close>

lemma repeated_ack_empty:
  assumes "packets_sorted (sh_packetHistory h)" "ack_LargestAcked f \<le> largestInOrderAcked h"
    and "\<forall>p\<in>set (sh_packetHistory h). 0 < pk_PacketNumber p"
  shows "acked_by f h = []"
proof (cases "sh_packetHistory h")
  case (Cons q qs)
  have q: "0 < pk_PacketNumber q" using assms(3) Cons by simp
  have lt: "ack_LargestAcked f < pk_PacketNumber q"
  proof -
    have "unat (pk_PacketNumber q - 1) = unat (pk_PacketNumber q) - 1"
      using q by (simp add: unat_sub word_le_nat_alt word_less_nat_alt)
    moreover have "ack_LargestAcked f \<le> pk_PacketNumber q - 1"
      using assms(2) Cons by (simp add: largestInOrderAcked_def)
    ultimately show ?thesis using q by (simp add: word_le_nat_alt word_less_nat_alt)
  qed
  then have "ack_LargestAcked f < pk_PacketNumber p" if "p \<in> set (sh_packetHistory h)" for p
    using that assms(1) Cons by (auto simp: packets_sorted_Cons dest: order.strict_trans)
  then show ?thesis by (auto simp: filter_empty_conv AckFrame_AcksPacket_def acksPacket_def)
qed simp

lemma takeWhile_sorted:
  "packets_sorted ps \<Longrightarrow> takeWhile (\<lambda>p. \<not> pk_PacketNumber p > n) ps = filter (\<lambda>p. \<not> pk_PacketNumber p > n) ps"
proof (induction ps)
  case (Cons a ps)
  note s = Cons.prems [unfolded packets_sorted_Cons]
  show ?case
  proof (cases "pk_PacketNumber a > n")
    case True
    then have "filter (\<lambda>p. \<not> pk_PacketNumber p > n) ps = []"
      using s by (auto simp: filter_empty_conv dest: order.strict_trans)
    with True show ?thesis by simp
  qed (use Cons.IH s in simp)
qed simp

lemma ack_packets_history_eq:
  "sh_packetHistory (ack_packets alg ps h) = filter (\<lambda>q. pk_PacketNumber q \<notin> pk_PacketNumber ` set ps) (sh_packetHistory h)"
  by (induction ps arbitrary: h)
    (simp_all add: Let_def onPacketAcked_def remove_packet_def conj_commute cong: filter_cong)

lemma ack_packets_history:
  "sh_packetHistory (ack_packets alg (filter (\<lambda>p. P (pk_PacketNumber p)) (sh_packetHistory h)) h) =
     filter (\<lambda>p. \<not> P (pk_PacketNumber p)) (sh_packetHistory h)"
  unfolding ack_packets_history_eq by (rule filter_cong) auto

lemma ReceivedAck_ok:
  assumes inv: "sh_inv h" and f: "ack_shape (ack_LowestAcked f) (ack_LargestAcked f) (ack_AckRanges f)"
    and eq: "ReceivedAck alg now f w rcvTime h = (e, h')"
  shows "case e of
      None \<Rightarrow> (\<exists>L. moves (acked_by f h) L h h') \<and> sh_inv h'
    | Some err \<Rightarrow> moves [] [] h h' \<and> sh_inv h' \<and>
        err \<in> {errAckForUnsentPacket, ErrDuplicateOrOutOfOrderAck, ErrAckForSkippedPacket}"
proof -
  define h1 where "h1 = with_cc (sa_UpdateGroupEpoch alg (ack_Groups f) (ack_Epoch f)) h"
  define h2 where "h2 = h1\<lparr>sh_largestReceivedPacketWithAck := w\<rparr>"
  define h3 where "h3 = h2\<lparr>sh_LargestAcked := ack_LargestAcked f\<rparr>"
  have m: "moves [] [] h h1" "moves [] [] h h2" "moves [] [] h h3"
    by (simp_all add: moves_def h1_def h2_def h3_def)
  have i1: "sh_inv h1"
    by (rule sh_inv_moves [OF inv m(1)]) (use inv in \<open>simp_all add: sh_inv_def h1_def\<close>)
  have i2: "sh_inv h2"
    by (rule sh_inv_moves [OF inv m(2)]) (use inv in \<open>simp_all add: sh_inv_def h1_def h2_def\<close>)
  have hist: "sh_packetHistory h2 = sh_packetHistory h" "sh_packetHistory h3 = sh_packetHistory h"
    by (simp_all add: h1_def h2_def h3_def)
  consider (unsent) "ack_LargestAcked f > sh_lastSentPacketNumber h"
    | (dup) "\<not> ack_LargestAcked f > sh_lastSentPacketNumber h" "w \<le> sh_largestReceivedPacketWithAck h1"
    | (old) "\<not> ack_LargestAcked f > sh_lastSentPacketNumber h" "\<not> w \<le> sh_largestReceivedPacketWithAck h1"
      "ack_LargestAcked f \<le> largestInOrderAcked h2"
    | (fresh) "\<not> ack_LargestAcked f > sh_lastSentPacketNumber h" "\<not> w \<le> sh_largestReceivedPacketWithAck h1"
      "\<not> ack_LargestAcked f \<le> largestInOrderAcked h2" by blast
  then show ?thesis
  proof cases
    case unsent
    then have "e = Some errAckForUnsentPacket" "h' = h" using eq by (auto simp: ReceivedAck_def)
    then show ?thesis using inv by (simp add: moves_refl)
  next
    case dup
    then have "e = Some ErrDuplicateOrOutOfOrderAck" "h' = h1"
      using eq unfolding ReceivedAck_def if_not_P [OF dup(1)] Let_def h1_def [symmetric] by simp_all
    then show ?thesis using i1 m(1) by simp
  next
    case old
    have "e = None" "h' = h2"
      using eq [unfolded ReceivedAck_def if_not_P [OF old(1)] Let_def, folded h1_def,
          unfolded if_not_P [OF old(2)], folded h2_def, unfolded if_P [OF old(3)]] by simp_all
    moreover have "acked_by f h2 = []"
      using i2 old(3) by (intro repeated_ack_empty) (simp_all add: sh_inv_def)
    ultimately show ?thesis using i2 m(2) hist by auto
  next
    case fresh
    have eq': "received_new_ack alg now f rcvTime h3 = (e, h')"
      using eq [unfolded ReceivedAck_def if_not_P [OF fresh(1)] Let_def, folded h1_def,
          unfolded if_not_P [OF fresh(2)], folded h2_def, unfolded if_not_P [OF fresh(3)], folded h3_def] .
    have i3: "sh_inv h3"
      using fresh(1) by (intro sh_inv_moves [OF inv m(3)]) (simp_all add: h1_def h2_def h3_def)
    have "moves A L h h'" if "moves A L h3 h'" for A L
      using that by (rule moves_from) (simp_all add: h1_def h2_def h3_def)
    then show ?thesis
      using received_new_ack_ok [OF i3 f eq'] m(3) i3 unfolding hist by (auto split: option.splits)
  qed
qed

lemma ReceivedClosePath_ok:
  assumes inv: "sh_inv h" and f: "ack_shape (cp_LowestAcked f) (cp_LargestAcked f) (cp_AckRanges f)"
    and eq: "ReceivedClosePath alg f w h = (None, h')"
  shows "\<exists>L. moves (close_acked_by f h) L h h' \<and> sh_inv h' \<and>
    L = filter (\<lambda>p. \<not> ClosePathFrame_AcksPacket f (pk_PacketNumber p) \<and> pk_PacketNumber p \<le> sh_LargestAcked h) (sh_packetHistory h)"
proof -
  define h1 where "h1 = h\<lparr>sh_largestReceivedPacketWithAck := w\<rparr>"
  have h1: "sh_packetHistory h1 = sh_packetHistory h" "sh_LargestAcked h1 = sh_LargestAcked h" "sh_alarm h1 = sh_alarm h"
    by (simp_all add: h1_def)
  have sorted: "packets_sorted (sh_packetHistory h1)" using inv by (simp add: sh_inv_def h1_def)
  have det: "determineNewlyAckedPacketsClosePath f h1 = Inr (close_acked_by f h)"
    using determine_ClosePathFrame [OF sorted f] by (simp only: h1)
  define h2 where "h2 = ack_packets alg (close_acked_by f h) h1"
  define h3 where "h3 = SetInflightAsLost alg h2"
  have g: "\<not> cp_LargestAcked f > sh_lastSentPacketNumber h" "\<not> w \<le> sh_largestReceivedPacketWithAck h"
      "\<not> skippedPacketsAckedClosePath f h1"
    using eq by (auto simp: ReceivedClosePath_def h1_def split: if_splits)
  have h': "h' = garbageCollectSkippedPackets h3"
    using eq [unfolded ReceivedClosePath_def if_not_P [OF g(1)] if_not_P [OF g(2)] Let_def, folded h1_def,
        unfolded if_not_P [OF g(3)] det sum.case, folded h2_def h3_def] by simp
  let ?A = "close_acked_by f h" and ?P = "\<lambda>p. \<not> pk_PacketNumber p > sh_LargestAcked h"
  have m2: "moves ?A [] h1 h2" using moves_ack_filter [OF sorted] by (simp add: h2_def h1)
  have s2: "packets_sorted (sh_packetHistory h2)" by (rule moves_sorted [OF m2 sorted])
  have la: "sh_LargestAcked h2 = sh_LargestAcked h" by (simp add: h2_def h1)
  have m3: "moves [] (takeWhile ?P (sh_packetHistory h2)) h2 h3"
    using SetInflightAsLost_moves [OF s2] by (simp add: h3_def la)
  have "moves ?A (takeWhile ?P (sh_packetHistory h2)) h1 h3" using moves_trans [OF m2 m3] by simp
  then have "moves ?A (takeWhile ?P (sh_packetHistory h2)) h1 h'"
    by (rule moves_frame) (simp_all add: h' garbageCollectSkippedPackets_def)
  then have m: "moves ?A (takeWhile ?P (sh_packetHistory h2)) h h'"
    by (rule moves_from) (simp_all add: h1_def)
  have hist2: "sh_packetHistory h2 = filter (\<lambda>p. \<not> ClosePathFrame_AcksPacket f (pk_PacketNumber p)) (sh_packetHistory h)"
    unfolding h2_def h1(1) [symmetric] by (rule ack_packets_history)
  have "takeWhile ?P (sh_packetHistory h2) = filter ?P (sh_packetHistory h2)"
    using s2 by (rule takeWhile_sorted)
  then have L: "takeWhile ?P (sh_packetHistory h2) = filter (\<lambda>p. \<not> ClosePathFrame_AcksPacket f (pk_PacketNumber p) \<and>
      pk_PacketNumber p \<le> sh_LargestAcked h) (sh_packetHistory h)"
    by (simp add: hist2 not_less conj_commute)
  have sel: "sh_LargestAcked h' = sh_LargestAcked h" "sh_alarm h' = sh_alarm h"
    by (simp_all add: h' garbageCollectSkippedPackets_def h3_def SetInflightAsLost_def Let_def h2_def h1)
  have "sh_inv h'"
    using inv sel by (intro sh_inv_moves [OF inv m]) (simp_all add: sh_inv_def)
  then show ?thesis using m L by auto
qed

lemma OnAlarm_ok:
  assumes inv: "sh_inv h"
  shows "\<exists>L. moves [] L h (OnAlarm alg now onRTO h) \<and> sh_inv (OnAlarm alg now onRTO h) \<and>
    (hasOutstandingRetransmittablePacket h \<and> sh_lossTime h = None \<longrightarrow> L \<noteq> [])"
proof (cases "hasOutstandingRetransmittablePacket h")
  case False
  let ?h = "h\<lparr>sh_alarm := None\<rparr>"
  have "sh_inv ?h" using inv False by (simp add: sh_inv_def hasOutstandingRetransmittablePacket_def)
  moreover have "moves [] [] h ?h" by (simp add: moves_def)
  ultimately show ?thesis using False by (auto simp: OnAlarm_def)
next
  case True
  have sorted: "packets_sorted (sh_packetHistory h)" using inv by (simp add: sh_inv_def)
  have ne: "sh_packetHistory h \<noteq> []" using True by (auto simp: hasOutstandingRetransmittablePacket_def)
  define h1 where "h1 = (if sh_lossTime h \<noteq> None then detectLostPackets alg now h
     else if sh_tlpCount h < maxTailLossProbes
     then (retransmitTLP h)\<lparr>sh_tlpCount := sh_tlpCount (retransmitTLP h) + 1\<rparr>
     else let potentiallyFailed = (case onRTO of None \<Rightarrow> False | Some callback \<Rightarrow> callback (sh_lastSentTime h));
              h1 = (if potentiallyFailed then retransmitAllPackets alg h else retransmitOldestTwoPackets alg h)
          in h1\<lparr>sh_rtoCount := sh_rtoCount h1 + 1\<rparr>)"
  have alarm: "OnAlarm alg now onRTO h = updateLossDetectionAlarm alg h1"
    using True by (simp add: OnAlarm_def h1_def Let_def)
  have "\<exists>L. moves [] L h h1 \<and> sh_LargestAcked h1 = sh_LargestAcked h \<and> (sh_lossTime h = None \<longrightarrow> L \<noteq> [])"
  proof (cases "sh_lossTime h = None")
    case False
    obtain L where "moves [] L h (detectLostPackets alg now h)"
      "sh_LargestAcked (detectLostPackets alg now h) = sh_LargestAcked h"
      using detectLostPackets_moves [OF sorted] .
    then show ?thesis using False by (auto simp: h1_def)
  next
    case loss: True
    show ?thesis
    proof (cases "sh_tlpCount h < maxTailLossProbes")
      case True
      have "moves [] [last (sh_packetHistory h)] h (retransmitTLP h)"
        using ne sorted by (simp add: retransmitTLP_def moves_queue)
      then have "moves [] [last (sh_packetHistory h)] h h1"
        by (rule moves_frame) (simp_all add: h1_def loss True)
      moreover have "sh_LargestAcked h1 = sh_LargestAcked h"
        by (simp add: h1_def loss True retransmitTLP_def queuePacketForRetransmission_def)
      ultimately show ?thesis by blast
    next
      case tlp: False
      define b where "b = (case onRTO of None \<Rightarrow> False | Some callback \<Rightarrow> callback (sh_lastSentTime h))"
      define h2 where "h2 = (if b then retransmitAllPackets alg h else retransmitOldestTwoPackets alg h)"
      have h1: "h1 = h2\<lparr>sh_rtoCount := sh_rtoCount h2 + 1\<rparr>"
        by (simp add: h1_def h2_def loss tlp Let_def flip: b_def)
      have "\<exists>L. moves [] L h h2 \<and> L \<noteq> [] \<and> sh_LargestAcked h2 = sh_LargestAcked h"
      proof (cases b)
        case True
        show ?thesis
        proof (intro exI conjI)
          show "moves [] (sh_packetHistory h) h h2"
            using moves_with_cc [OF moves_queue_all [OF sorted]] True by (simp add: h2_def retransmitAllPackets_def)
        qed (use True ne in \<open>simp_all add: h2_def retransmitAllPackets_def\<close>)
      next
        case False
        let ?r = "retransmitOldestPacket alg"
        have m1: "moves [] (take 1 (sh_packetHistory h)) h (?r h)" by (rule retransmitOldestPacket_moves [OF sorted])
        note m2 = retransmitOldestPacket_moves [OF moves_sorted [OF m1 sorted], of alg]
        have la: "sh_LargestAcked (?r g) = sh_LargestAcked g" for g
          by (simp add: retransmitOldestPacket_def split: list.splits)
        show ?thesis
        proof (intro exI conjI)
          show "moves [] (take 1 (sh_packetHistory h) @ take 1 (sh_packetHistory (?r h))) h h2"
            using moves_with_cc [OF moves_trans [OF m1 m2]] False by (simp add: h2_def retransmitOldestTwoPackets_def)
        qed (use la False ne in \<open>simp_all add: h2_def retransmitOldestTwoPackets_def\<close>)
      qed
      then obtain L where L: "moves [] L h h2" "L \<noteq> []" "sh_LargestAcked h2 = sh_LargestAcked h" by blast
      have "moves [] L h h1" by (rule moves_frame [OF L(1)]) (simp_all add: h1)
      moreover have "sh_LargestAcked h1 = sh_LargestAcked h" using L(3) by (simp add: h1)
      ultimately show ?thesis using L(2) by blast
    qed
  qed
  then obtain L where L: "moves [] L h h1" "sh_LargestAcked h1 = sh_LargestAcked h" "sh_lossTime h = None \<longrightarrow> L \<noteq> []"
    by (elim exE conjE) (rule that)
  have m: "moves [] L h (OnAlarm alg now onRTO h)"
    unfolding alarm by (rule moves_frame [OF L(1)]) simp_all
  have "sh_inv (OnAlarm alg now onRTO h)"
  proof (rule sh_inv_moves [OF inv m])
    show "sh_LargestAcked (OnAlarm alg now onRTO h) \<le> sh_lastSentPacketNumber h"
      unfolding alarm updateLossDetectionAlarm_sel L(2) using inv by (simp add: sh_inv_def)
    show "sh_alarm (OnAlarm alg now onRTO h) = sh_alarm h \<or>
        (sh_packetHistory (OnAlarm alg now onRTO h) \<noteq> [] \<longrightarrow> sh_alarm (OnAlarm alg now onRTO h) \<noteq> None)"
      unfolding alarm updateLossDetectionAlarm_sel using updateLossDetectionAlarm_set by blast
  qed
  with m L(3) show ?thesis by (intro exI [of _ L]) simp
qed

lemma SetInflightAsLost_ok:
  assumes "sh_inv h"
  shows "sh_inv (SetInflightAsLost alg h)"
  using assms by (intro sh_inv_moves [OF assms SetInflightAsLost_moves])
    (simp_all add: sh_inv_def SetInflightAsLost_def Let_def)

lemma strip_empty_iff: "stripNonRetransmittableFrames fs = [] \<longleftrightarrow> \<not> HasRetransmittableFrames fs"
  by (induction fs) (auto simp: stripNonRetransmittableFrames_def)

section \<open>Runs\<close>

text \<open>
  A run of the handler. The first list holds the numbers of the packets with retransmittable frames that were sent, the second
  those of the packets that were acked, the third those of the packets that were put into the retransmission queue because
  they were lost. Frames come from the parser, which accepts valid ones only; congestion control, clock, RTO callback and
  received packet numbers are arbitrary. A fatal error leaves the handler as it is then.
\<close>

definition newly_queued :: "'c sentPacketHandler \<Rightarrow> 'c sentPacketHandler \<Rightarrow> PacketNumber list" where
  "newly_queued h h' = map pk_PacketNumber (drop (length (sh_retransmissionQueue h)) (sh_retransmissionQueue h'))"

inductive sh_run ::
    "'c SendAlgorithm \<Rightarrow> PacketNumber list \<Rightarrow> PacketNumber list \<Rightarrow> PacketNumber list \<Rightarrow> 'c sentPacketHandler \<Rightarrow> bool"
    for alg where
  sh_start: "sh_run alg [] [] [] (NewSentPacketHandler r c)"
| sh_sent: "\<lbrakk> sh_run alg S A Q h; SentPacket alg now p h = (None, h') \<rbrakk> \<Longrightarrow>
    sh_run alg (if HasRetransmittableFrames (pk_Frames p) then S @ [pk_PacketNumber p] else S) A Q h'"
| sh_ack: "\<lbrakk> sh_run alg S A Q h; AckFrame_valid f; ReceivedAck alg now f w rcvTime h = (e, h') \<rbrakk> \<Longrightarrow>
    sh_run alg S (A @ (if e = None then map pk_PacketNumber (acked_by f h) else [])) (Q @ newly_queued h h') h'"
| sh_close: "\<lbrakk> sh_run alg S A Q h; ack_shape (cp_LowestAcked f) (cp_LargestAcked f) (cp_AckRanges f);
    ReceivedClosePath alg f w h = (None, h') \<rbrakk> \<Longrightarrow>
    sh_run alg S (A @ map pk_PacketNumber (close_acked_by f h)) (Q @ newly_queued h h') h'"
| sh_lost: "sh_run alg S A Q h \<Longrightarrow>
    sh_run alg S A (Q @ newly_queued h (SetInflightAsLost alg h)) (SetInflightAsLost alg h)"
| sh_timer: "sh_run alg S A Q h \<Longrightarrow>
    sh_run alg S A (Q @ newly_queued h (OnAlarm alg now onRTO h)) (OnAlarm alg now onRTO h)"
| sh_dequeue: "\<lbrakk> sh_run alg S A Q h; DequeuePacketForRetransmission h = (p, h') \<rbrakk> \<Longrightarrow> sh_run alg S A Q h'"
| sh_duplicate: "sh_run alg S A Q h \<Longrightarrow> sh_run alg S A Q (DuplicatePacket p h)"
| sh_stop_waiting: "\<lbrakk> sh_run alg S A Q h; GetStopWaitingFrame force h = (f, h') \<rbrakk> \<Longrightarrow> sh_run alg S A Q h'"

definition accounted ::
    "PacketNumber list \<Rightarrow> PacketNumber list \<Rightarrow> PacketNumber list \<Rightarrow> 'c sentPacketHandler \<Rightarrow> bool" where
  "accounted S A Q h \<longleftrightarrow> mset S = mset (map pk_PacketNumber (sh_packetHistory h)) + mset A + mset Q \<and>
     distinct S \<and> (\<forall>n\<in>set S. n \<le> sh_lastSentPacketNumber h)"

lemma accounted_moves:
  assumes "accounted S A Q h" "moves B L h h'"
  shows "accounted S (A @ map pk_PacketNumber B) (Q @ newly_queued h h') h'"
proof -
  have "mset (map pk_PacketNumber (sh_packetHistory h)) =
      mset (map pk_PacketNumber (sh_packetHistory h')) + mset (map pk_PacketNumber B) + mset (map pk_PacketNumber L)"
    using assms(2) by (simp add: moves_def)
  moreover have "newly_queued h h' = map pk_PacketNumber L" "sh_lastSentPacketNumber h' = sh_lastSentPacketNumber h"
    using assms(2) by (simp_all add: newly_queued_def moves_def)
  ultimately show ?thesis using assms(1) by (simp add: accounted_def)
qed

lemma AckFrame_valid_shape:
  "AckFrame_valid f \<Longrightarrow> ack_shape (ack_LowestAcked f) (ack_LargestAcked f) (ack_AckRanges f)"
  by (auto simp: AckFrame_valid_def ack_shape_def)

lemma sh_run_inv:
  assumes "sh_run alg S A Q h"
  shows "sh_inv h \<and> accounted S A Q h"
  using assms
proof (induction rule: sh_run.induct)
  case (sh_start r c)
  then show ?case
    by (simp add: sh_inv_def accounted_def NewSentPacketHandler_def packets_sorted_def hasOutstandingRetransmittablePacket_def)
next
  case (sh_sent S A Q h now p h')
  note ok = SentPacket_ok [OF conjunct1 [OF sh_sent.IH] sh_sent(2)]
  have "accounted (if HasRetransmittableFrames (pk_Frames p) then S @ [pk_PacketNumber p] else S) A Q h'"
    using ok conjunct2 [OF sh_sent.IH] by (auto simp: accounted_def strip_empty_iff)
  then show ?case using ok by blast
next
  case (sh_ack S A Q h f now w rcvTime e h')
  note ok = ReceivedAck_ok [OF conjunct1 [OF sh_ack.IH] AckFrame_valid_shape [OF sh_ack(2)] sh_ack(3)]
  show ?case
  proof (cases e)
    case None
    then show ?thesis using ok accounted_moves [OF conjunct2 [OF sh_ack.IH]] by auto
  next
    case (Some err)
    then have "moves [] [] h h'" "sh_inv h'" using ok by auto
    then show ?thesis using accounted_moves [OF conjunct2 [OF sh_ack.IH], of "[]" "[]" h'] Some by simp
  qed
next
  case (sh_close S A Q h f w h')
  show ?case
    using ReceivedClosePath_ok [OF conjunct1 [OF sh_close.IH] sh_close(2,3)]
      accounted_moves [OF conjunct2 [OF sh_close.IH]] by blast
next
  case (sh_lost S A Q h)
  then have "packets_sorted (sh_packetHistory h)" by (simp add: sh_inv_def)
  from SetInflightAsLost_moves [OF this] show ?case
    using sh_lost.IH SetInflightAsLost_ok accounted_moves [of S A Q h "[]"] by fastforce
next
  case (sh_timer S A Q h now onRTO)
  then show ?case using OnAlarm_ok [of h alg now onRTO] accounted_moves [of S A Q h "[]"] by fastforce
next
  case (sh_dequeue S A Q h p h')
  then show ?case
    by (auto simp: DequeuePacketForRetransmission_def sh_inv_def accounted_def hasOutstandingRetransmittablePacket_def
        split: list.splits)
next
  case (sh_duplicate S A Q h p)
  then show ?case
    by (auto simp: DuplicatePacket_def sh_inv_def accounted_def hasOutstandingRetransmittablePacket_def)
next
  case (sh_stop_waiting S A Q h force f h')
  then show ?case
    by (auto simp: GetStopWaitingFrame_def sh_inv_def accounted_def hasOutstandingRetransmittablePacket_def
        split: prod.splits)
qed

section \<open>Properties\<close>

text \<open>
  C5. No packet is forgotten and none is counted twice. In every run of the handler of sent packets, for any congestion
  control, each packet with retransmittable frames that was sent is exactly one of: in flight, acked, or handed to
  retransmission as lost; the packets in flight are in the order of their numbers, and \<open>bytesInFlight\<close> is the sum of their lengths.
\<close>
theorem sent_packets_accounted:
  assumes "sh_run alg S A Q h"
  shows "mset S = mset (map pk_PacketNumber (sh_packetHistory h)) + mset A + mset Q \<and> distinct S \<and>
    sorted_wrt (<) (map pk_PacketNumber (sh_packetHistory h)) \<and>
    sh_bytesInFlight h = sum_list (map pk_Length (sh_packetHistory h))"
  using sh_run_inv [OF assms] by (auto simp: accounted_def sh_inv_def packets_sorted_def bytes_of_def)

text \<open>
  C12. An ACK takes out exactly what it acks. In every run, a frame the parser accepts makes \<open>ReceivedAck\<close> fail only
  for one of the three reasons it documents, never with the error that is marked as a bug; without an error no acked packet stays
  in flight, and every packet that leaves without being acked is queued for retransmission.
\<close>
theorem ack_exact:
  assumes "sh_run alg S A Q h" "AckFrame_valid f" "ReceivedAck alg now f w rcvTime h = (e, h')"
  shows "(e = None \<or> e = Some errAckForUnsentPacket \<or> e = Some ErrDuplicateOrOutOfOrderAck \<or>
      e = Some ErrAckForSkippedPacket) \<and>
    (e \<noteq> None \<longrightarrow> sh_packetHistory h' = sh_packetHistory h) \<and>
    (e = None \<longrightarrow> (\<exists>L. sh_retransmissionQueue h' = sh_retransmissionQueue h @ L \<and>
       mset (sh_packetHistory h) = mset (sh_packetHistory h') +
         mset (filter (\<lambda>p. AckFrame_AcksPacket f (pk_PacketNumber p)) (sh_packetHistory h)) + mset L))"
proof -
  note ok = ReceivedAck_ok [OF conjunct1 [OF sh_run_inv [OF assms(1)]] AckFrame_valid_shape [OF assms(2)] assms(3)]
  show ?thesis
  proof (cases e)
    case None
    then obtain L where "moves (acked_by f h) L h h'" using ok by auto
    then show ?thesis using None unfolding moves_def by (intro conjI impI exI [of _ L]) simp_all
  next
    case (Some err)
    then have m: "moves [] [] h h'" "err \<in> {errAckForUnsentPacket, ErrDuplicateOrOutOfOrderAck, ErrAckForSkippedPacket}"
      using ok by auto
    then have "subseq (sh_packetHistory h') (sh_packetHistory h)"
      "mset (sh_packetHistory h') = mset (sh_packetHistory h)"
      by (simp_all add: moves_def)
    note this(1) mset_eq_length [OF this(2)]
    then have "sh_packetHistory h' = sh_packetHistory h" by (rule subseq_same_length)
    then show ?thesis using Some m(2) by auto
  qed
qed

text \<open>
  C24. The alarm drives retransmission. In every run, while a packet that has to be retransmitted is in flight the alarm is
  set; and when it goes off and no loss time is pending, at least one packet is queued for retransmission.
\<close>
theorem alarm_drives_retransmission:
  assumes "sh_run alg S A Q h" "hasOutstandingRetransmittablePacket h"
  shows "sh_GetAlarmTimeout h \<noteq> None \<and>
    (sh_lossTime h = None \<longrightarrow>
      length (sh_retransmissionQueue h) < length (sh_retransmissionQueue (OnAlarm alg now onRTO h)))"
proof -
  have inv: "sh_inv h" using sh_run_inv [OF assms(1)] by blast
  obtain L where L: "moves [] L h (OnAlarm alg now onRTO h)" "sh_lossTime h = None \<longrightarrow> L \<noteq> []"
    using OnAlarm_ok [OF inv, of alg now onRTO] assms(2) by blast
  have "sh_alarm h \<noteq> None" using inv assms(2) by (simp add: sh_inv_def)
  then show ?thesis using L by (auto simp: sh_GetAlarmTimeout_def moves_def)
qed

lemma filter_three:
  "mset xs = mset (filter P xs) + mset (filter (\<lambda>x. \<not> P x \<and> R x) xs) + mset (filter (\<lambda>x. \<not> P x \<and> \<not> R x) xs)"
  by (induction xs) auto

text \<open>
  C40. Closing a path does not retransmit what it should. Of the packets in flight that a CLOSE_PATH frame does not ack,
  \<open>ReceivedClosePath\<close> hands only those to retransmission that are not above the largest packet number acked by
  an ACK frame before; the others stay in flight on the closed path.
\<close>
theorem close_path_keeps_unacked:
  assumes "sh_run alg S A Q h" "ack_shape (cp_LowestAcked f) (cp_LargestAcked f) (cp_AckRanges f)"
    and "ReceivedClosePath alg f w h = (None, h')"
  shows "mset (sh_packetHistory h') = mset (filter (\<lambda>p. \<not> ClosePathFrame_AcksPacket f (pk_PacketNumber p) \<and>
      pk_PacketNumber p > sh_LargestAcked h) (sh_packetHistory h)) \<and>
    sh_retransmissionQueue h' = sh_retransmissionQueue h @ filter (\<lambda>p. \<not> ClosePathFrame_AcksPacket f (pk_PacketNumber p) \<and>
      pk_PacketNumber p \<le> sh_LargestAcked h) (sh_packetHistory h)"
proof -
  let ?c = "\<lambda>p. ClosePathFrame_AcksPacket f (pk_PacketNumber p)" and ?l = "\<lambda>p. pk_PacketNumber p \<le> sh_LargestAcked h"
  let ?h = "sh_packetHistory h"
  note m = ReceivedClosePath_ok [OF conjunct1 [OF sh_run_inv [OF assms(1)]] assms(2,3)]
  define X Y Z where "X = mset (filter ?c ?h)" and "Y = mset (filter (\<lambda>p. \<not> ?c p \<and> ?l p) ?h)"
    and "Z = mset (filter (\<lambda>p. \<not> ?c p \<and> \<not> ?l p) ?h)"
  have "mset ?h = X + Y + Z" unfolding X_def Y_def Z_def by (rule filter_three)
  moreover have "mset ?h = mset (sh_packetHistory h') + X + Y"
    using m unfolding moves_def X_def Y_def by blast
  ultimately have "mset (sh_packetHistory h') + (X + Y) = Z + (X + Y)" by (metis add.assoc add.commute)
  then have "mset (sh_packetHistory h') = Z" by (rule add_right_imp_eq)
  moreover have "sh_retransmissionQueue h' = sh_retransmissionQueue h @ filter (\<lambda>p. \<not> ?c p \<and> ?l p) ?h"
    using m unfolding moves_def by blast
  ultimately show ?thesis by (simp only: Z_def not_le simp_thms)
qed

subsection \<open>Witnesses\<close>

text \<open>A congestion controller that does nothing, and a handler that has sent the packets 1, 2 and 4.\<close>

definition idle_algorithm :: "unit SendAlgorithm" where
  "idle_algorithm =
     \<lparr> sa_OnPacketSent = \<lambda>_ _ _ _ _ c. c, sa_GetCongestionWindow = \<lambda>_. 100000,
       sa_MaybeExitSlowStart = \<lambda>_ c. c, sa_OnPacketAcked = \<lambda>_ _ _ _ c. c, sa_OnPacketLost = \<lambda>_ _ _ _ c. c,
       sa_OnRetransmissionTimeout = \<lambda>_ c. c, sa_RetransmissionDelay = \<lambda>_ _. 0, sa_SmoothedRTT = \<lambda>_ _. 0,
       sa_UpdateGroupEpoch = \<lambda>_ _ c. c \<rparr>"

definition sent_example_packet :: "PacketNumber \<Rightarrow> Packet" where
  "sent_example_packet n = \<lparr> pk_PacketNumber = n, pk_Frames = [PingF PingFrame], pk_Length = 100,
     pk_EncryptionLevel = EncryptionForwardSecure, pk_SendTime = 0 \<rparr>"

definition sent_state :: "PacketNumber list \<Rightarrow> PacketNumber list \<Rightarrow> unit sentPacketHandler" where
  "sent_state ns skipped = (NewSentPacketHandler zeroRTTStats ())
     \<lparr>sh_lastSentPacketNumber := last ns, sh_skippedPackets := skipped,
      sh_packetHistory := map (\<lambda>n. (sent_example_packet n)\<lparr>pk_SendTime := uint n\<rparr>) ns,
      sh_bytesInFlight := of_nat (100 * length ns), sh_lastSentTime := uint (last ns),
      sh_alarm := Some (uint (last ns) + 500 * Millisecond), sh_packets := of_nat (length ns)\<rparr>"

definition sent_example :: "unit sentPacketHandler" where
  "sent_example = sent_state [1, 2, 4] [3]"

lemmas sent_eval =
  sent_state_def NewSentPacketHandler_def sent_example_packet_def with_cc_def idle_algorithm_def Let_def

lemma sent_step:
  assumes "ns \<noteq> []" "last ns < n" "length ns < 3"
    "skip_packets (unat (n - (last ns + 1))) (last ns + 1) sk = sk'"
  shows "SentPacket idle_algorithm (uint n) (sent_example_packet n) (sent_state ns sk) = (None, sent_state (ns @ [n]) sk')"
proof -
  have "unat (of_nat (length ns + 1) :: u64) = length ns + 1"
    using assms(3) by (simp add: unat_word_ariths unsigned_of_nat take_bit_nat_eq_self)
  then have "\<not> of_nat (length ns + 1) > MaxTrackedSentPackets"
    using assms(3) by (simp add: MaxTrackedSentPackets_def DefaultMaxCongestionWindow_def word_less_nat_alt del: of_nat_Suc of_nat_add)
  then show ?thesis
    using assms
    by (simp add: SentPacket_def sent_eval track_packet_def stripNonRetransmittableFrames_def updateLossDetectionAlarm_def
        SmoothedRTT_def zeroRTTStats_def computeRTOTimeout_def defaultRTOTimeout_def minRTOTimeout_def maxRTOTimeout_def
        minRetransmissionTime_def Second_def Millisecond_def wrap64_def not_le algebra_simps)
qed

lemma sent_first:
  "SentPacket idle_algorithm 1 (sent_example_packet 1) (NewSentPacketHandler zeroRTTStats ()) = (None, sent_state [1] [])"
  by (simp add: SentPacket_def sent_eval track_packet_def stripNonRetransmittableFrames_def updateLossDetectionAlarm_def
      SmoothedRTT_def zeroRTTStats_def computeRTOTimeout_def defaultRTOTimeout_def minRTOTimeout_def maxRTOTimeout_def
      minRetransmissionTime_def Second_def Millisecond_def wrap64_def MaxTrackedSentPackets_def DefaultMaxCongestionWindow_def)

lemma sent_example_run: "sh_run idle_algorithm [1, 2, 4] [] [] sent_example"
proof -
  have ret: "HasRetransmittableFrames (pk_Frames (sent_example_packet n))" "pk_PacketNumber (sent_example_packet n) = n" for n
    by (simp_all add: sent_example_packet_def)
  have 2: "SentPacket idle_algorithm (uint (2::u64)) (sent_example_packet 2) (sent_state [1] []) = (None, sent_state ([1] @ [2]) [])"
    by (rule sent_step) (simp_all add: word_less_nat_alt)
  have 3: "SentPacket idle_algorithm (uint (4::u64)) (sent_example_packet 4) (sent_state ([1] @ [2]) []) = (None, sent_example)"
    unfolding sent_example_def
    using sent_step [of "[1, 2]" 4 "[]" "[3]"] by (simp add: MaxTrackedSkippedPackets_def)
  show ?thesis
    using sh_run.sh_sent [OF sh_run.sh_sent [OF sh_run.sh_sent [OF sh_run.sh_start sent_first] 2] 3] by (simp add: ret)
qed

lemma sent_example_sel:
  "map pk_PacketNumber (sh_packetHistory sent_example) = [1, 2, 4]" "sh_LargestAcked sent_example = 0"
  "hasOutstandingRetransmittablePacket sent_example" "sh_lossTime sent_example = None"
  by (simp_all add: sent_example_def sent_eval hasOutstandingRetransmittablePacket_def IsRetransmittable_def)

lemma sent_packets_accounted_witness: "sh_bytesInFlight sent_example = 300"
proof -
  have "map pk_Length (sh_packetHistory sent_example) = [100, 100, 100]"
    by (simp add: sent_example_def sent_eval)
  then show ?thesis using sent_packets_accounted [OF sent_example_run] by simp
qed

definition ack_example :: AckFrame where
  "ack_example = \<lparr> ack_PathID = 0, ack_LargestAcked = 4, ack_LowestAcked = 1,
     ack_AckRanges = [\<lparr> ar_First = 4, ar_Last = 4 \<rparr>, \<lparr> ar_First = 1, ar_Last = 1 \<rparr>],
     ack_PacketReceivedTime = 0, ack_DelayTime = 0, ack_Groups = 0, ack_Epoch = 0 \<rparr>"

lemma ack_exact_witness:
  "\<exists>h' L. ReceivedAck idle_algorithm 50 ack_example 1 40 sent_example = (None, h') \<and>
     sh_retransmissionQueue h' = sh_retransmissionQueue sent_example @ L \<and>
     length (sh_packetHistory h') + length L = 1"
proof -
  have v: "AckFrame_valid ack_example"
    by (simp add: AckFrame_valid_def ack_example_def ranges_ok_def range_above_def)
  have "fst (ReceivedAck idle_algorithm 50 ack_example 1 40 sent_example) = None"
    by (simp add: ack_example_def sent_example_def sent_eval ReceivedAck_def received_new_ack_def largestInOrderAcked_def
        skippedPacketsAcked_def AckFrame_AcksPacket_def acksPacket_def maybeUpdateRTT_def determineNewlyAckedPackets_def
        advance_range.simps range_at_def word_le_nat_alt split: prod.splits sum.splits)
  then obtain h' where e: "ReceivedAck idle_algorithm 50 ack_example 1 40 sent_example = (None, h')"
    by (metis prod.collapse)
  have "length (filter (\<lambda>p. AckFrame_AcksPacket ack_example (pk_PacketNumber p)) (sh_packetHistory sent_example)) = 2"
    by (simp add: ack_example_def AckFrame_AcksPacket_def acksPacket_def sent_example_def sent_eval word_le_nat_alt)
  moreover have "size (mset (sh_packetHistory sent_example)) = 3"
    using arg_cong [OF sent_example_sel(1), of length] by simp
  moreover obtain L where "sh_retransmissionQueue h' = sh_retransmissionQueue sent_example @ L"
    "mset (sh_packetHistory sent_example) = mset (sh_packetHistory h') +
       mset (filter (\<lambda>p. AckFrame_AcksPacket ack_example (pk_PacketNumber p)) (sh_packetHistory sent_example)) + mset L"
    using ack_exact [OF sent_example_run v e] by blast
  note this(1) arg_cong [OF this(2), of size, unfolded size_union size_mset]
  ultimately show ?thesis using e by simp
qed

lemma alarm_drives_retransmission_witness:
  "sh_GetAlarmTimeout sent_example \<noteq> None \<and>
   length (sh_retransmissionQueue sent_example) < length (sh_retransmissionQueue (OnAlarm idle_algorithm 600 None sent_example))"
  using alarm_drives_retransmission [OF sent_example_run sent_example_sel(3)] sent_example_sel(4) by blast

lemma close_path_keeps_unacked_witness:
  "\<exists>h'. ReceivedClosePath idle_algorithm \<lparr> cp_PathID = 1, cp_LargestAcked = 1, cp_LowestAcked = 1, cp_AckRanges = [] \<rparr> 1 sent_example
     = (None, h') \<and> length (sh_packetHistory h') = 2 \<and> sh_retransmissionQueue h' = []"
proof -
  let ?f = "\<lparr> cp_PathID = 1, cp_LargestAcked = 1, cp_LowestAcked = 1, cp_AckRanges = [] \<rparr>"
  have "fst (ReceivedClosePath idle_algorithm ?f 1 sent_example) = None"
    by (simp add: sent_example_def sent_eval ReceivedClosePath_def skippedPacketsAckedClosePath_def
        determineNewlyAckedPacketsClosePath_def ClosePathFrame_AcksPacket_def acksPacket_def)
  then obtain h' where e: "ReceivedClosePath idle_algorithm ?f 1 sent_example = (None, h')"
    by (metis prod.collapse)
  have "sh_retransmissionQueue sent_example = []"
    "filter (\<lambda>p. \<not> ClosePathFrame_AcksPacket ?f (pk_PacketNumber p) \<and> pk_PacketNumber p \<le> sh_LargestAcked sent_example)
       (sh_packetHistory sent_example) = []"
    "length (filter (\<lambda>p. \<not> ClosePathFrame_AcksPacket ?f (pk_PacketNumber p) \<and> pk_PacketNumber p > sh_LargestAcked sent_example)
       (sh_packetHistory sent_example)) = 2"
    by (simp_all add: sent_example_def sent_eval ClosePathFrame_AcksPacket_def acksPacket_def)
  note ex = this
  have shape: "ack_shape (cp_LowestAcked ?f) (cp_LargestAcked ?f) (cp_AckRanges ?f)" by (simp add: ack_shape_def)
  note t = close_path_keeps_unacked [OF sent_example_run shape e]
  have "length (sh_packetHistory h') = 2"
    using arg_cong [OF conjunct1 [OF t], of size] unfolding size_mset ex(3) .
  moreover have "sh_retransmissionQueue h' = []" using t ex(1,2) by simp
  ultimately show ?thesis using e by blast
qed

end
