(* ===== verification/Packet_Number_Gen.thy ===== *)
theory Packet_Number_Gen
  imports Protocol
begin

section \<open>Packet numbers to send: \<open>packet_number_generator.go\<close>\<close>

text \<open>
  The generator of the packet numbers of a path. \<open>crypto/rand\<close> is not part of the repository: the
  result of \<open>getRandomNumber\<close> is an argument of every call that may use it, \<open>None\<close> when reading
  random bytes fails. The lemmas show that numbers strictly increase and that two consecutive numbers are
  never skipped; and that a generator as \<open>newPacketNumberGenerator\<close> makes it skips no number at all.
\<close>

record packetNumberGenerator =
  pg_averagePeriod :: PacketNumber
  pg_next :: PacketNumber
  pg_nextToSkip :: PacketNumber

definition SkipPacketAveragePeriodLength :: PacketNumber where
  "SkipPacketAveragePeriodLength = 500"

definition newPacketNumberGenerator :: "PacketNumber \<Rightarrow> packetNumberGenerator" where
  "newPacketNumberGenerator averagePeriod =
     \<lparr> pg_averagePeriod = averagePeriod, pg_next = 1, pg_nextToSkip = 0 \<rparr>"

definition pg_Peek :: "packetNumberGenerator \<Rightarrow> PacketNumber" where
  "pg_Peek p = pg_next p"

text \<open>The error of \<open>generateNewSkip\<close> is dropped by its only caller.\<close>

definition generateNewSkip :: "u16 option \<Rightarrow> packetNumberGenerator \<Rightarrow> packetNumberGenerator" where
  "generateNewSkip rand p =
     (case rand of None \<Rightarrow> p
      | Some num \<Rightarrow>
          let skip = ucast num * (pg_averagePeriod p - 1) div 32767
          in p\<lparr>pg_nextToSkip := pg_next p + 2 + skip\<rparr>)"

definition pg_Pop :: "u16 option \<Rightarrow> packetNumberGenerator \<Rightarrow> PacketNumber \<times> packetNumberGenerator" where
  "pg_Pop rand p =
     (let number = pg_next p;
          p1 = p\<lparr>pg_next := pg_next p + 1\<rparr>;
          p2 = (if pg_next p1 = pg_nextToSkip p1
                then generateNewSkip rand (p1\<lparr>pg_next := pg_next p1 + 1\<rparr>) else p1)
      in (number, p2))"

text \<open>The bytes of \<open>rand.Read\<close> as the number.\<close>

definition getRandomNumber :: "(u8 \<times> u8) option \<Rightarrow> u16 option" where
  "getRandomNumber b = map_option (\<lambda>(b0, b1). push_bit 8 (ucast b0) + ucast b1) b"

text \<open>The numbers of the packets sent, for the random numbers of each call.\<close>

fun pg_numbers :: "u16 option list \<Rightarrow> packetNumberGenerator \<Rightarrow> PacketNumber list" where
  "pg_numbers [] p = []"
| "pg_numbers (r # rs) p = (let (n, p') = pg_Pop r p in n # pg_numbers rs p')"

lemma generateNewSkip_frame [simp]:
  "pg_next (generateNewSkip r p) = pg_next p"
  "pg_averagePeriod (generateNewSkip r p) = pg_averagePeriod p"
  by (auto simp: generateNewSkip_def Let_def split: option.split)

text \<open>A number is given out and the next one is one or two larger; it is two larger at the number to skip.\<close>

lemma pg_Pop_next:
  "fst (pg_Pop r p) = pg_next p"
  "pg_next (snd (pg_Pop r p)) = pg_next p + (if pg_next p + 1 = pg_nextToSkip p then 2 else 1)"
  "pg_averagePeriod (snd (pg_Pop r p)) = pg_averagePeriod p"
  by (simp_all add: pg_Pop_def Let_def add.commute)

lemma pg_Pop_unskipped: "pg_next p + 1 \<noteq> pg_nextToSkip p \<Longrightarrow> pg_nextToSkip (snd (pg_Pop r p)) = pg_nextToSkip p"
  by (simp add: pg_Pop_def Let_def)

subsection \<open>Two consecutive numbers are never skipped\<close>

text \<open>The distance to the number to skip does not wrap around, for the average periods in use.\<close>

lemma skip_distance:
  assumes "0 < unat a" "unat a \<le> 2 ^ 40"
  shows "unat (ucast (num :: u16) * (a - 1) div 32767 :: u64) \<le> 65535 * 2 ^ 40"
proof -
  have nb: "unat num \<le> 65535" using unat_bound [of num] by simp
  have n: "unat (ucast num :: u64) = unat num" by (simp add: unat_ucast_wide)
  have a1: "unat (a - 1) = unat a - 1"
    using assms(1) by (metis unat_0 less_irrefl unat_minus_one)
  have le: "unat num * (unat a - 1) \<le> 65535 * 2 ^ 40" using nb assms(2) by (intro mult_le_mono) simp_all
  then have "unat num * (unat a - 1) < 2 ^ 64" by simp
  then have "unat (ucast num * (a - 1) :: u64) = unat num * (unat a - 1)"
    using n a1 by (simp add: unat_word_ariths)
  then show ?thesis using le by (simp add: unat_div div_le_dividend [THEN order_trans])
qed

text \<open>After a skip the number to skip is not the next one.\<close>

lemma generateNewSkip_far:
  assumes "0 < unat (pg_averagePeriod p)" "unat (pg_averagePeriod p) \<le> 2 ^ 40"
    and "pg_nextToSkip p \<noteq> pg_next p + 1"
  shows "pg_nextToSkip (generateNewSkip r p) \<noteq> pg_next p + 1"
proof (cases r)
  case (Some num)
  define skip where "skip = ucast num * (pg_averagePeriod p - 1) div 32767"
  have "unat skip \<le> 65535 * 2 ^ 40" using skip_distance [OF assms(1,2)] by (simp add: skip_def)
  then have "unat (1 + skip) = 1 + unat skip" by (simp add: unat_word_ariths)
  then have "1 + skip \<noteq> 0" by (metis add_is_0 one_neq_zero unat_0)
  then have "pg_next p + 2 + skip \<noteq> pg_next p + 1" by (simp add: algebra_simps)
  then show ?thesis using Some by (simp add: generateNewSkip_def skip_def)
qed (use assms(3) in \<open>simp add: generateNewSkip_def\<close>)

theorem no_consecutive_skips:
  assumes "0 < unat (pg_averagePeriod p)" "unat (pg_averagePeriod p) \<le> 2 ^ 40"
    and "pg_next (snd (pg_Pop r p)) = pg_next p + 2"
  shows "pg_next (snd (pg_Pop r' (snd (pg_Pop r p)))) = pg_next (snd (pg_Pop r p)) + 1"
proof -
  have at: "pg_next p + 1 = pg_nextToSkip p" using assms(3) by (auto simp: pg_Pop_next split: if_splits)
  define q where "q = p\<lparr>pg_next := pg_next p + 2\<rparr>"
  have pop: "snd (pg_Pop r p) = generateNewSkip r q"
    using at by (simp add: pg_Pop_def Let_def q_def at [symmetric] add.assoc)
  have "pg_nextToSkip q \<noteq> pg_next q + 1" by (simp add: q_def at [symmetric])
  then have "pg_nextToSkip (generateNewSkip r q) \<noteq> pg_next q + 1"
    using assms(1,2) by (intro generateNewSkip_far) (simp_all add: q_def)
  then show ?thesis using pg_Pop_next(2) [of r' "generateNewSkip r q"] by (simp add: pop)
qed

subsection \<open>A new generator\<close>

lemma of_nat_u64_0: "0 < n \<Longrightarrow> n < 2 ^ 64 \<Longrightarrow> of_nat n \<noteq> (0 :: u64)"
  by (metis less_irrefl unat_0 unat_of_nat_u64)

lemma pg_numbers_from:
  assumes "pg_nextToSkip p = 0" "pg_next p = of_nat k" "k + length rs < 2 ^ 64"
  shows "pg_numbers rs p = map of_nat [k ..< k + length rs]"
  using assms
proof (induction rs arbitrary: p k)
  case (Cons r rs)
  have "of_nat (k + 1) \<noteq> (0 :: u64)" using Cons.prems(3) by (intro of_nat_u64_0) simp_all
  then have skip: "pg_next p + 1 \<noteq> pg_nextToSkip p" using Cons.prems by (simp add: add.commute)
  have "pg_numbers rs (snd (pg_Pop r p)) = map of_nat [k + 1 ..< k + 1 + length rs]"
    using Cons.prems skip by (intro Cons.IH) (simp_all add: pg_Pop_next pg_Pop_unskipped add.commute)
  then show ?case
    using Cons.prems pg_Pop_next(1) [of r p] by (cases "pg_Pop r p") (auto simp: upt_rec [of k] not_less_eq_eq)
qed simp

text \<open>
  No packet number is ever skipped. The packets of a path, whose generator is made by
  \<open>newPacketNumberGenerator\<close>, have the numbers 1, 2, 3, ... for all random numbers and every average
  period: the first number to skip is 0, and it stays 0 as \<open>generateNewSkip\<close> is only called when it is
  reached, which happens after 2^64 - 2 packets.
\<close>
theorem packet_numbers_consecutive:
  assumes "length rs < 2 ^ 64 - 1"
  shows "pg_numbers rs (newPacketNumberGenerator averagePeriod) = map of_nat [1 ..< 1 + length rs]"
  using assms by (intro pg_numbers_from) (simp_all add: newPacketNumberGenerator_def)

lemma packet_numbers_consecutive_witness:
  "pg_numbers [Some 7, None, Some 65535] (newPacketNumberGenerator 500) = [1, 2, 3]"
  using packet_numbers_consecutive [of "[Some 7, None, Some 65535]" 500] by (simp add: upt_rec)

end
