(* ===== verification/Path.thy ===== *)
theory Path
  imports Sent_Handler Recv_Handler Packet_Number_Gen Conn_Params
begin

section \<open>Paths: \<open>path.go\<close>\<close>

text \<open>
  A path of a multipath connection: its packet numbers, the handlers of sent and received packets, and whether it is
  open and works. What a packet does to its path on the way to the frames it carries. The path does not know the session here: what
  it needs of it is an argument, and calls back to it are results. The clock is an argument, an address is a string.
\<close>

type_synonym net_addr = string

record receivedPacket =
  rc_remoteAddr :: net_addr
  rc_publicHeader :: PublicHeader
  rc_data :: "u8 list"
  rc_rcvTime :: "int option"

text \<open>The RTT statistics of a path are those of its handler of sent packets, which shares them.\<close>

record 'c path =
  pt_pathID :: PathID
  pt_localAddr :: net_addr
  pt_remoteAddr :: net_addr
  pt_sentPacketHandler :: "'c sentPacketHandler"
  pt_receivedPacketHandler :: receivedPacketHandler
  pt_open :: bool
  pt_closeChan :: bool
  pt_potentiallyFailed :: bool
  pt_group :: u8
  pt_epoch :: u16
  pt_lastSentLossCount :: u64
  pt_packetNumberGenerator :: packetNumberGenerator
  pt_lastRcvdPacketNumber :: PacketNumber
  pt_largestRcvdPacketNumber :: PacketNumber
  pt_leastUnacked :: PacketNumber
  pt_lastNetworkActivityTime :: int

definition InitialPathID :: PathID where "InitialPathID = 0"
definition minPathTimer :: Duration where "minPathTimer = 10 * Millisecond"
definition maxPathTimer :: Duration where "maxPathTimer = 1 * Second"

text \<open>A path as it is made and set up, with the congestion controller \<open>cong\<close>.\<close>

definition path_setup :: "VersionNumber \<Rightarrow> int \<Rightarrow> 'c \<Rightarrow> PathID \<Rightarrow> net_addr \<Rightarrow> net_addr \<Rightarrow> 'c path" where
  "path_setup version now cong i loc rem =
     \<lparr> pt_pathID = i, pt_localAddr = loc, pt_remoteAddr = rem,
       pt_sentPacketHandler = NewSentPacketHandler zeroRTTStats cong,
       pt_receivedPacketHandler = NewReceivedPacketHandler version,
       pt_open = True, pt_closeChan = False, pt_potentiallyFailed = False, pt_group = 0, pt_epoch = 0, pt_lastSentLossCount = 0,
       pt_packetNumberGenerator = newPacketNumberGenerator SkipPacketAveragePeriodLength,
       pt_lastRcvdPacketNumber = 0, pt_largestRcvdPacketNumber = 0, pt_leastUnacked = 0, pt_lastNetworkActivityTime = now \<rparr>"

definition path_close :: "'c path \<Rightarrow> 'c path" where
  "path_close p = p\<lparr>pt_open := False\<rparr>"

definition path_SendingAllowed :: "'c SendAlgorithm \<Rightarrow> 'c path \<Rightarrow> bool" where
  "path_SendingAllowed alg p \<longleftrightarrow> pt_open p \<and> SendingAllowed alg (pt_sentPacketHandler p)"

text \<open>The frame of the handler, of which \<open>LeastUnacked\<close> alone is set.\<close>

definition stop_waiting_frame :: "PacketNumber \<Rightarrow> StopWaitingFrame" where
  "stop_waiting_frame leastUnacked = \<lparr> sw_LeastUnacked = leastUnacked, sw_PacketNumberLen = 0, sw_PacketNumber = 0 \<rparr>"

definition path_GetStopWaitingFrame :: "bool \<Rightarrow> 'c path \<Rightarrow> StopWaitingFrame option \<times> 'c path" where
  "path_GetStopWaitingFrame force p =
     (let (f, h) = GetStopWaitingFrame force (pt_sentPacketHandler p)
      in (map_option stop_waiting_frame f, p\<lparr>pt_sentPacketHandler := h\<rparr>))"

definition path_GetAckFrame :: "int \<Rightarrow> 'c path \<Rightarrow> go_error + (AckFrame option \<times> 'c path)" where
  "path_GetAckFrame now p =
     (case GetAckFrame now (pt_group p) (pt_epoch p) (pt_receivedPacketHandler p) of
        Inl e \<Rightarrow> Inl e
      | Inr (ack, h) \<Rightarrow>
          Inr (map_option (\<lambda>a. a\<lparr>ack_PathID := pt_pathID p\<rparr>) ack, p\<lparr>pt_receivedPacketHandler := h\<rparr>))"

definition path_GetClosePathFrame :: "'c path \<Rightarrow> go_error + ClosePathFrame" where
  "path_GetClosePathFrame p =
     (case rp_GetClosePathFrame (pt_receivedPacketHandler p) of
        Inl e \<Rightarrow> Inl e | Inr f \<Rightarrow> Inr (f\<lparr>cp_PathID := pt_pathID p\<rparr>))"

definition SetLeastUnacked :: "PacketNumber \<Rightarrow> 'c path \<Rightarrow> 'c path" where
  "SetLeastUnacked n p = p\<lparr>pt_leastUnacked := n\<rparr>"

subsection \<open>Timers\<close>

text \<open>\<open>utils.MinTime\<close> and \<open>utils.MaxTime\<close>.\<close>

definition MinTime :: "int \<Rightarrow> int \<Rightarrow> int" where "MinTime a b = (if a > b then b else a)"
definition MaxTime :: "int \<Rightarrow> int \<Rightarrow> int" where "MaxTime a b = (if a > b then a else b)"

text \<open>\<open>hasSetup\<close> says that the session has its crypto setup.\<close>

definition path_idleTimeout :: "bool \<Rightarrow> bool \<Rightarrow> connectionParametersManager \<Rightarrow> Duration \<Rightarrow> 'c path \<Rightarrow> Duration" where
  "path_idleTimeout hasSetup handshakeComplete cp handshakeTimeout p =
     (if hasSetup
      then if pt_open p \<and> (pt_pathID p \<noteq> 0 \<or> handshakeComplete) then GetIdleConnectionStateLifetime cp else handshakeTimeout
      else Second)"

text \<open>The deadline \<open>maybeResetTimer\<close> sets, for the idle timeout of the path.\<close>

definition path_deadline :: "int \<Rightarrow> Duration \<Rightarrow> 'c path \<Rightarrow> int" where
  "path_deadline now idle p =
     (let d0 = pt_lastNetworkActivityTime p + idle;
          d1 = (case rp_GetAlarmTimeout (pt_receivedPacketHandler p) of None \<Rightarrow> d0 | Some t \<Rightarrow> t);
          d2 = (case sh_GetAlarmTimeout (pt_sentPacketHandler p) of None \<Rightarrow> d1 | Some t \<Rightarrow> MinTime d1 t)
      in MinTime (MaxTime d2 (now + minPathTimer)) (now + maxPathTimer))"

text \<open>\<open>onRTO\<close>: the result says that the path failed; then a PATHS frame is to be scheduled.\<close>

definition onRTO :: "int \<Rightarrow> 'c path \<Rightarrow> bool \<times> 'c path" where
  "onRTO lastSentTime p =
     (if pt_lastNetworkActivityTime p < lastSentTime then (True, p\<lparr>pt_potentiallyFailed := True\<rparr>) else (False, p))"

subsection \<open>Packets that arrive\<close>

text \<open>
  \<open>handlePacketImpl\<close> until the frames are handed to the session: nothing for a closed path. The header, which is changed, is
  returned: a packet that cannot be decrypted yet is kept by the session and comes here again.
\<close>

definition path_handlePacket ::
    "aead_open \<Rightarrow> VersionNumber \<Rightarrow> Perspective \<Rightarrow> int \<Rightarrow> receivedPacket \<Rightarrow> 'c path \<Rightarrow>
     (go_error + Frame list option) \<times> PublicHeader \<times> 'c path" where
  "path_handlePacket aead version pers now pkt p =
     (let hdr0 = rc_publicHeader pkt in
      if \<not> pt_open p then (Inr None, hdr0, p)
      else
        let p1 = (case rc_rcvTime pkt of None \<Rightarrow> p | Some t \<Rightarrow> p\<lparr>pt_lastNetworkActivityTime := t\<rparr>);
            p2 = p1\<lparr>pt_potentiallyFailed := False\<rparr>;
            pn = InferPacketNumber (ph_PacketNumberLen hdr0) (pt_largestRcvdPacketNumber p2) (ph_PacketNumber hdr0);
            hdr = hdr0\<lparr>ph_PacketNumber := pn\<rparr>;
            packet = Unpack aead version (ph_Raw hdr) hdr (rc_data pkt)
        in if packet = Inl (QErr ''DecryptionFailure'') then (Inl (QErr ''DecryptionFailure''), hdr, p2)
           else
             let p3 = (if pers = PerspectiveServer then p2\<lparr>pt_remoteAddr := rc_remoteAddr pkt\<rparr> else p2)
             in case packet of
                  Inl e \<Rightarrow> (Inl e, hdr, p3)
                | Inr (enc, frames) \<Rightarrow>
                    let p4 = p3\<lparr>pt_lastRcvdPacketNumber := pn,
                                pt_largestRcvdPacketNumber := MaxPacketNumber (pt_largestRcvdPacketNumber p3) pn\<rparr>
                    in case rp_ReceivedPacket now pn (HasRetransmittableFrames frames) (pt_receivedPacketHandler p4) of
                         (Some e, h) \<Rightarrow> (Inl e, hdr, p4\<lparr>pt_receivedPacketHandler := h\<rparr>)
                       | (None, h) \<Rightarrow> (Inr (Some frames), hdr, p4\<lparr>pt_receivedPacketHandler := h\<rparr>))"

text \<open>The timer never runs out at once and never later than in a second.\<close>

lemma path_deadline_bounds:
  "now + 10 * Millisecond \<le> path_deadline now idle p" "path_deadline now idle p \<le> now + Second"
  by (auto simp: path_deadline_def MinTime_def MaxTime_def minPathTimer_def maxPathTimer_def Millisecond_def Second_def
      Microsecond_def Let_def split: option.split)

end
