(* ===== verification/Stream.thy ===== *)
theory Stream
  imports Frame_Sorter Flow_Control
begin

section \<open>Streams: \<open>stream.go\<close>\<close>

text \<open>
  A stream with its reading and its writing side. Every method is one step, as the mutex makes it; a call
  of \<open>Read\<close> or \<open>Write\<close> that waits on its channel is \<open>None\<close> and runs again when it is woken up. The flow
  control manager, which all streams of a session share, is passed through. Methods of the session that are
  called back are returned as events. Times are nanoseconds, the zero time is \<open>None\<close>.
\<close>

subsection \<open>The state\<close>

text \<open>\<open>st_readChan\<close> and \<open>st_writeChan\<close>: the channel of capacity one holds a token.\<close>

record stream =
  st_streamID :: StreamID
  st_readPosInFrame :: int
  st_writeOffset :: ByteCount
  st_readOffset :: ByteCount
  st_err :: "go_error option"
  st_cancelled :: bool
  st_finishedReading :: bool
  st_finishedWriting :: bool
  st_resetLocally :: bool
  st_resetRemotely :: bool
  st_frameQueue :: streamFrameSorter
  st_readChan :: bool
  st_readDeadline :: "int option"
  st_dataForWriting :: "u8 list option"
  st_finSent :: bool
  st_rstSent :: bool
  st_writeChan :: bool
  st_writeDeadline :: "int option"
  st_ctxDone :: bool

datatype stream_event = OnData | OnReset StreamID ByteCount

definition errDeadline :: go_error where
  "errDeadline = GoErr ''deadline exceeded''"

definition newStream :: "StreamID \<Rightarrow> stream" where
  "newStream i =
     \<lparr> st_streamID = i, st_readPosInFrame = 0, st_writeOffset = 0, st_readOffset = 0, st_err = None,
       st_cancelled = False, st_finishedReading = False, st_finishedWriting = False, st_resetLocally = False,
       st_resetRemotely = False, st_frameQueue = newStreamFrameSorter, st_readChan = False, st_readDeadline = None,
       st_dataForWriting = None, st_finSent = False, st_rstSent = False, st_writeChan = False,
       st_writeDeadline = None, st_ctxDone = False \<rparr>"

definition signalRead :: "stream \<Rightarrow> stream" where
  "signalRead s = s\<lparr>st_readChan := True\<rparr>"

definition signalWrite :: "stream \<Rightarrow> stream" where
  "signalWrite s = s\<lparr>st_writeChan := True\<rparr>"

text \<open>\<open>!deadline.IsZero() && !time.Now().Before(deadline)\<close>\<close>

definition deadline_passed :: "int \<Rightarrow> int option \<Rightarrow> bool" where
  "deadline_passed now deadline = (case deadline of None \<Rightarrow> False | Some d \<Rightarrow> \<not> now < d)"

text \<open>\<open>t.Before(oldDeadline)\<close>; the zero time is before every other time.\<close>

definition time_before :: "int option \<Rightarrow> int option \<Rightarrow> bool" where
  "time_before t t' = (case t' of None \<Rightarrow> False | Some y \<Rightarrow> (case t of None \<Rightarrow> True | Some x \<Rightarrow> x < y))"

subsection \<open>Reading\<close>

text \<open>What a call does that may wait on a channel.\<close>

datatype 'a call = Waiting | Returned 'a

datatype read_wait = Waits | Stops go_error | Reads StreamFrame stream

text \<open>
  The inner loop of \<open>Read\<close> until it waits or breaks. A reset without an error falls through to the head
  of the queue, which may be \<open>nil\<close>.
\<close>

definition read_wait :: "int \<Rightarrow> stream \<Rightarrow> read_wait" where
  "read_wait now s =
     (if st_resetLocally s \<or> st_cancelled s
      then case st_err s of
             Some e \<Rightarrow> Stops e
           | None \<Rightarrow> (case Head (st_frameQueue s) of
                         None \<Rightarrow> Stops (Panic ''nil pointer dereference'') | Some frame \<Rightarrow> Reads frame s)
      else if deadline_passed now (st_readDeadline s) then Stops errDeadline
      else case Head (st_frameQueue s) of
             None \<Rightarrow> Waits
           | Some frame \<Rightarrow>
               Reads frame (s\<lparr>st_readPosInFrame := sint (st_readOffset s - sf_Offset frame)\<rparr>))"

text \<open>
  The outer loop of \<open>Read\<close> into a buffer of \<open>n\<close> bytes, of which \<open>out\<close> are filled. \<open>None\<close> would be a
  loop that does not end. \<open>bytesRead > len(p)\<close> cannot hold under the condition of the loop and is left out;
  slicing at a negative position panics.
\<close>

type_synonym read_result =
  "(u8 list \<times> go_error option) call \<times> stream \<times> flowControlManager \<times> stream_event list"

partial_function (option) read_loop ::
    "int \<Rightarrow> nat \<Rightarrow> u8 list \<Rightarrow> stream \<Rightarrow> flowControlManager \<Rightarrow> stream_event list \<Rightarrow> read_result option" where
  "read_loop now n out s fm ev =
     (if \<not> length out < n then Some (Returned (out, None), s, fm, ev)
      else if Head (st_frameQueue s) = None \<and> out \<noteq> [] then Some (Returned (out, st_err s), s, fm, ev)
      else case read_wait now s of
        Waits \<Rightarrow> Some (Waiting, s, fm, ev)
      | Stops e \<Rightarrow> Some (Returned (out, Some e), s, fm, ev)
      | Reads frame s1 \<Rightarrow>
          let pos = st_readPosInFrame s1; len = sint (StreamFrame_DataLen frame);
              m = min (int (n - length out)) (len - pos)
          in if pos > len
             then Some (Returned (out, Some (GoErr ''BUG: readPosInFrame > frame.DataLen in stream.Read'')), s1, fm, ev)
             else if pos < 0 then Some (Returned (out, Some (Panic ''slice bounds out of range'')), s1, fm, ev)
             else
               let out2 = out @ take (nat m) (drop (nat pos) (sf_Data frame));
                   s2 = s1\<lparr>st_readPosInFrame := pos + m, st_readOffset := st_readOffset s1 + of_int m\<rparr>;
                   fm2 = (if st_resetRemotely s2 then fm
                          else snd (AddBytesRead now (st_streamID s2) (of_int m) fm));
                   ev2 = ev @ [OnData]
               in if pos + m \<ge> len
                  then let s3 = s2\<lparr>st_frameQueue := snd (Pop (st_frameQueue s2))\<rparr>
                    in if sf_FinBit frame
                       then Some (Returned (out2, Some EOF), s3\<lparr>st_finishedReading := True\<rparr>, fm2, ev2)
                       else read_loop now n out2 s3 fm2 ev2
                  else read_loop now n out2 s2 fm2 ev2)"

definition stream_Read :: "int \<Rightarrow> nat \<Rightarrow> stream \<Rightarrow> flowControlManager \<Rightarrow> read_result option" where
  "stream_Read now n s fm =
     (if st_cancelled s \<or> st_resetLocally s then Some (Returned ([], st_err s), s, fm, [])
      else if st_finishedReading s then Some (Returned ([], Some EOF), s, fm, [])
      else read_loop now n [] s fm [])"

subsection \<open>Writing\<close>

text \<open>The beginning of \<open>Write\<close>: it returns, or the bytes are put where the framer finds them.\<close>

definition Write_start :: "u8 list \<Rightarrow> stream \<Rightarrow> (int \<times> go_error option) + stream" where
  "Write_start p s =
     (if st_resetLocally s \<or> st_err s \<noteq> None then Inl (0, st_err s)
      else if st_finishedWriting s then Inl (0, Some (GoErr ''write on closed stream''))
      else if p = [] then Inl (0, None)
      else Inr (s\<lparr>st_dataForWriting := Some p\<rparr>))"

text \<open>\<open>len\<close> of a slice that may be \<open>nil\<close>.\<close>

definition len_data :: "u8 list option \<Rightarrow> nat" where
  "len_data d = (case d of None \<Rightarrow> 0 | Some xs \<Rightarrow> length xs)"

text \<open>The loop of \<open>Write\<close> and what follows it, for \<open>n = len(p)\<close>.\<close>

definition Write_loop :: "int \<Rightarrow> nat \<Rightarrow> stream \<Rightarrow> (int \<times> go_error option) call" where
  "Write_loop now n s =
     (if deadline_passed now (st_writeDeadline s) then Returned (0, Some errDeadline)
      else if st_dataForWriting s = None \<or> st_err s \<noteq> None
      then if st_err s \<noteq> None then Returned (int n - int (len_data (st_dataForWriting s)), st_err s)
           else Returned (int n, None)
      else Waiting)"

definition stream_Write ::
    "int \<Rightarrow> u8 list \<Rightarrow> stream \<Rightarrow> (int \<times> go_error option) call \<times> stream \<times> stream_event list" where
  "stream_Write now p s =
     (case Write_start p s of
        Inl r \<Rightarrow> (Returned r, s, [])
      | Inr s1 \<Rightarrow> (Write_loop now (length p) s1, s1, [OnData]))"

definition lenOfDataForWriting :: "stream \<Rightarrow> ByteCount" where
  "lenOfDataForWriting s = (if st_err s = None then of_nat (len_data (st_dataForWriting s)) else 0)"

definition getDataForWriting :: "ByteCount \<Rightarrow> stream \<Rightarrow> u8 list option \<times> stream" where
  "getDataForWriting maxBytes s =
     (case (st_err s, st_dataForWriting s) of
        (None, Some d) \<Rightarrow>
          let (ret, s1) =
            (if of_nat (length d) > maxBytes
             then (take (unat maxBytes) d, s\<lparr>st_dataForWriting := Some (drop (unat maxBytes) d)\<rparr>)
             else (d, signalWrite (s\<lparr>st_dataForWriting := None\<rparr>)))
          in (Some ret, s1\<lparr>st_writeOffset := st_writeOffset s1 + of_nat (length ret)\<rparr>)
      | _ \<Rightarrow> (None, s))"

definition stream_Close :: "stream \<Rightarrow> stream \<times> stream_event list" where
  "stream_Close s = (s\<lparr>st_finishedWriting := True, st_ctxDone := True\<rparr>, [OnData])"

definition finishedWriteAndSentFin :: "stream \<Rightarrow> bool" where
  "finishedWriteAndSentFin s \<longleftrightarrow> st_finishedWriting s \<and> st_finSent s"

definition shouldSendReset :: "stream \<Rightarrow> bool" where
  "shouldSendReset s \<longleftrightarrow>
     \<not> st_rstSent s \<and> (st_resetLocally s \<or> st_resetRemotely s) \<and> \<not> finishedWriteAndSentFin s"

definition shouldSendFin :: "stream \<Rightarrow> bool" where
  "shouldSendFin s \<longleftrightarrow> st_finishedWriting s \<and> \<not> st_finSent s \<and> st_err s = None \<and> st_dataForWriting s = None"

definition sentFin :: "stream \<Rightarrow> stream" where
  "sentFin s = s\<lparr>st_finSent := True\<rparr>"

subsection \<open>Frames that arrive\<close>

definition AddStreamFrame ::
    "StreamFrame \<Rightarrow> stream \<Rightarrow> flowControlManager \<Rightarrow> go_error option \<times> stream \<times> flowControlManager" where
  "AddStreamFrame frame s fm =
     (case UpdateHighestReceived (st_streamID s) (sf_Offset frame + StreamFrame_DataLen frame) fm of
        (Some e, fm1) \<Rightarrow> (Some e, s, fm1)
      | (None, fm1) \<Rightarrow>
          (case Push frame (st_frameQueue s) of
             Inl e \<Rightarrow> if e \<noteq> errDuplicateStreamData then (Some e, s, fm1) else (None, signalRead s, fm1)
           | Inr q \<Rightarrow> (None, signalRead (s\<lparr>st_frameQueue := q\<rparr>), fm1)))"

definition CloseRemote :: "ByteCount \<Rightarrow> stream \<Rightarrow> flowControlManager \<Rightarrow> stream \<times> flowControlManager" where
  "CloseRemote offset s fm =
     snd (AddStreamFrame
       \<lparr> sf_StreamID = 0, sf_FinBit = True, sf_DataLenPresent = False, sf_Offset = offset, sf_LossCount = 0,
         sf_PathID = 0, sf_TimeStamp = 0, sf_Data = [] \<rparr> s fm)"

subsection \<open>Deadlines and errors\<close>

definition SetReadDeadline :: "int option \<Rightarrow> stream \<Rightarrow> stream" where
  "SetReadDeadline t s =
     (let s1 = s\<lparr>st_readDeadline := t\<rparr>
      in if time_before t (st_readDeadline s) then signalRead s1 else s1)"

definition SetWriteDeadline :: "int option \<Rightarrow> stream \<Rightarrow> stream" where
  "SetWriteDeadline t s =
     (let s1 = s\<lparr>st_writeDeadline := t\<rparr>
      in if time_before t (st_writeDeadline s) then signalWrite s1 else s1)"

definition SetDeadline :: "int option \<Rightarrow> stream \<Rightarrow> stream" where
  "SetDeadline t s = SetWriteDeadline t (SetReadDeadline t s)"

definition stream_Cancel :: "go_error option \<Rightarrow> stream \<Rightarrow> stream" where
  "stream_Cancel err s =
     (let s1 = s\<lparr>st_cancelled := True, st_ctxDone := True\<rparr>
      in if st_err s1 = None then signalWrite (signalRead (s1\<lparr>st_err := err\<rparr>)) else s1)"

text \<open>The end of \<open>Reset\<close> and \<open>RegisterRemoteError\<close>: a RST_STREAM frame is sent once.\<close>

definition send_reset :: "stream \<Rightarrow> stream \<times> stream_event list" where
  "send_reset s =
     (if shouldSendReset s then (s\<lparr>st_rstSent := True\<rparr>, [OnReset (st_streamID s) (st_writeOffset s)]) else (s, []))"

definition stream_Reset :: "go_error option \<Rightarrow> stream \<Rightarrow> stream \<times> stream_event list" where
  "stream_Reset err s =
     (if st_resetLocally s then (s, [])
      else let s1 = s\<lparr>st_resetLocally := True, st_ctxDone := True\<rparr>
        in send_reset (if st_err s1 = None then signalWrite (signalRead (s1\<lparr>st_err := err\<rparr>)) else s1))"

definition RegisterRemoteError :: "go_error option \<Rightarrow> stream \<Rightarrow> stream \<times> stream_event list" where
  "RegisterRemoteError err s =
     (if st_resetRemotely s then (s, [])
      else let s1 = s\<lparr>st_resetRemotely := True, st_ctxDone := True\<rparr>
        in send_reset (if st_err s1 = None then signalWrite (s1\<lparr>st_err := err\<rparr>) else s1))"

definition stream_finished :: "stream \<Rightarrow> bool" where
  "stream_finished s \<longleftrightarrow> st_cancelled s \<or>
     (st_finishedReading s \<and> finishedWriteAndSentFin s) \<or>
     (st_resetRemotely s \<and> st_rstSent s) \<or>
     (st_finishedReading s \<and> st_rstSent s) \<or>
     (finishedWriteAndSentFin s \<and> st_resetRemotely s)"

definition stream_GetBytesSent :: "stream \<Rightarrow> flowControlManager \<Rightarrow> go_error + ByteCount" where
  "stream_GetBytesSent s fm = GetBytesSent (st_streamID s) fm"

definition stream_GetBytesRetrans :: "stream \<Rightarrow> flowControlManager \<Rightarrow> go_error + ByteCount" where
  "stream_GetBytesRetrans s fm = GetBytesRetrans (st_streamID s) fm"

section \<open>What a stream reads\<close>

text \<open>
  \<open>read_inv B F out s\<close>: the bytes \<open>out\<close> have been read from a stream with the bytes \<open>B\<close> and final size
  \<open>F\<close>; when the last frame was not read to its end it is still next in the queue.
\<close>

definition read_inv :: "(nat \<Rightarrow> u8) \<Rightarrow> nat \<Rightarrow> u8 list \<Rightarrow> stream \<Rightarrow> bool" where
  "read_inv B F out s \<longleftrightarrow> F < 2 ^ 62 \<and> length out \<le> F \<and> sorter_inv B F (st_frameQueue s) \<and>
     out = map B [0..<length out] \<and> unat (st_readOffset s) = length out \<and>
     unat (fs_readPosition (st_frameQueue s)) \<le> length out \<and>
     (unat (fs_readPosition (st_frameQueue s)) < length out \<longrightarrow>
       (\<exists>h. Head (st_frameQueue s) = Some h \<and>
          length out < unat (fs_readPosition (st_frameQueue s)) + length (sf_Data h)))"

text \<open>The fields that reading does not depend on.\<close>

lemma read_inv_cong:
  assumes "st_frameQueue s' = st_frameQueue s" "st_readOffset s' = st_readOffset s"
  shows "read_inv B F out s' \<longleftrightarrow> read_inv B F out s"
  using assms by (simp add: read_inv_def)

lemma read_inv_new: "F < 2 ^ 62 \<Longrightarrow> read_inv B F [] (newStream i)"
  using sorter_inv_new by (simp add: read_inv_def newStream_def newStreamFrameSorter_def)

lemma read_inv_push:
  assumes inv: "read_inv B F out s" and f: "stream_frame B F f"
    and push: "Push f (st_frameQueue s) = Inr q"
  shows "read_inv B F out (s\<lparr>st_frameQueue := q\<rparr>)"
proof -
  have q: "sorter_inv B F q" "fs_readPosition q = fs_readPosition (st_frameQueue s)" "keeps_head (st_frameQueue s) q"
    using push_correct [of B F "st_frameQueue s" f] inv f push by (auto simp: read_inv_def)
  have "Head q = Some h" if "Head (st_frameQueue s) = Some h" "k < r + length (sf_Data h)" "r < k" for h and k r :: nat
    using q(3) that by (auto simp: keeps_head_def)
  then show ?thesis using inv q(1,2) by (auto simp: read_inv_def)
qed

lemma AddStreamFrame_queue:
  assumes "AddStreamFrame f s fm = (e, s', fm')"
  shows "st_frameQueue s' = st_frameQueue s \<or> Push f (st_frameQueue s) = Inr (st_frameQueue s')"
    "st_readOffset s' = st_readOffset s"
  using assms by (auto simp: AddStreamFrame_def signalRead_def split: prod.splits option.splits sum.splits if_splits)

lemma read_inv_AddStreamFrame:
  assumes "read_inv B F out s" "stream_frame B F f" "AddStreamFrame f s fm = (e, s', fm')"
  shows "read_inv B F out s'"
  using AddStreamFrame_queue(1) [OF assms(3)]
proof
  assume "st_frameQueue s' = st_frameQueue s"
  then show ?thesis using read_inv_cong AddStreamFrame_queue(2) [OF assms(3)] assms(1) by blast
next
  assume p: "Push f (st_frameQueue s) = Inr (st_frameQueue s')"
  show ?thesis
    using read_inv_push [OF assms(1,2) p] AddStreamFrame_queue(2) [OF assms(3)]
    by (subst read_inv_cong [of _ "s\<lparr>st_frameQueue := st_frameQueue s'\<rparr>"]) simp_all
qed

text \<open>The frame next to be read, and where reading goes on in it.\<close>

lemma read_inv_head:
  assumes inv: "read_inv B F out s" and h: "Head (st_frameQueue s) = Some h"
  shows "sint (st_readOffset s - sf_Offset h) = int (length out) - int (unat (sf_Offset h))"
    "unat (sf_Offset h) \<le> length out" "length out \<le> unat (sf_Offset h) + length (sf_Data h)"
    "sint (StreamFrame_DataLen h) = int (length (sf_Data h))"
    "sf_Offset h = fs_readPosition (st_frameQueue s)" "frame_of B h" "unat (sf_Offset h) + length (sf_Data h) \<le> F"
    "F < 2 ^ 62" "unat (st_readOffset s) = length out" "out = map B [0..<length out]"
proof -
  let ?rp = "fs_readPosition (st_frameQueue s)"
  have q: "queue_ok B F (fs_gaps (st_frameQueue s)) (fs_queuedFrames (st_frameQueue s))"
    using inv sorter_invD(4) by (auto simp: read_inv_def)
  note k = queue_okD [OF q h [unfolded Head_def]]
  show o: "sf_Offset h = ?rp" "frame_of B h" using k(1,2) by simp_all
  show le: "unat (sf_Offset h) + length (sf_Data h) \<le> F" using k(3) unat_frame_end [OF k(2)] by simp
  show F: "F < 2 ^ 62" "unat (st_readOffset s) = length out" "out = map B [0..<length out]"
    "unat (sf_Offset h) \<le> length out" using inv o(1) by (simp_all add: read_inv_def)
  show end_le: "length out \<le> unat (sf_Offset h) + length (sf_Data h)"
    using inv h o(1) by (cases "unat ?rp < length out") (auto simp: read_inv_def)
  have "unat (st_readOffset s - sf_Offset h) = length out - unat (sf_Offset h)"
    using F by (simp add: unat_sub word_le_nat_alt)
  then show "sint (st_readOffset s - sf_Offset h) = int (length out) - int (unat (sf_Offset h))"
    using F(1,4) le end_le by (subst sint_small) simp_all
  show "sint (StreamFrame_DataLen h) = int (length (sf_Data h))"
    using unat_DataLen [OF k(2)] le F(1) by (subst sint_small) simp_all
qed

text \<open>The bytes taken from the head of the queue, and the state behind them.\<close>

lemma read_bytes:
  assumes inv: "read_inv B F out s" and h: "Head (st_frameQueue s) = Some h"
    and k: "length out + k \<le> unat (sf_Offset h) + length (sf_Data h)"
  defines "d \<equiv> take k (drop (length out - unat (sf_Offset h)) (sf_Data h))"
  shows "length d = k" "out @ d = map B [0..<length (out @ d)]"
    "unat (st_readOffset s + of_nat k) = length (out @ d)"
proof -
  note r = read_inv_head [OF inv h]
  show len: "length d = k" using k r(2) by (simp add: d_def)
  have "d ! i = B (length out + i)" if "i < k" for i
    using that r(2,6) k by (simp add: d_def frame_of_def add.commute)
  then have "d = map B [length out..<length out + k]" using len by (intro nth_equalityI) simp_all
  then show "out @ d = map B [0..<length (out @ d)]"
    using r(10) len by (simp add: upt_add_eq_append [of 0, simplified])
  have "unat (of_nat k :: u64) = k" using k r(7,8) by (intro unat_of_nat_u64) simp
  then show "unat (st_readOffset s + of_nat k) = length (out @ d)"
    using r(7-9) k len by (subst unat_add_le) simp_all
qed

lemma read_inv_part:
  assumes inv: "read_inv B F out s" and h: "Head (st_frameQueue s) = Some h"
    and k: "length out + k < unat (sf_Offset h) + length (sf_Data h)"
    and s': "st_frameQueue s' = st_frameQueue s" "st_readOffset s' = st_readOffset s + of_nat k"
  shows "read_inv B F (out @ take k (drop (length out - unat (sf_Offset h)) (sf_Data h))) s'"
  using read_bytes [OF inv h less_imp_le [OF k]] read_inv_head [OF inv h] inv h k
  by (simp add: read_inv_def s')

lemma read_inv_whole:
  assumes inv: "read_inv B F out s" and h: "Head (st_frameQueue s) = Some h"
    and k: "length out + k = unat (sf_Offset h) + length (sf_Data h)"
    and s': "st_frameQueue s' = snd (Pop (st_frameQueue s))" "st_readOffset s' = st_readOffset s + of_nat k"
  shows "read_inv B F (out @ take k (drop (length out - unat (sf_Offset h)) (sf_Data h))) s'"
proof -
  note r = read_inv_head [OF inv h]
  have "fst (Pop (st_frameQueue s)) = Some h" using h by (simp add: Pop_def)
  then have "Pop (st_frameQueue s) = (Some h, st_frameQueue s')" using s'(1) by (metis prod.collapse)
  from pop_correct [OF _ this] inv
  have "sorter_inv B F (st_frameQueue s')"
    "unat (fs_readPosition (st_frameQueue s')) = unat (sf_Offset h) + length (sf_Data h)"
    using r(5) by (auto simp: read_inv_def)
  then show ?thesis
    using read_bytes [OF inv h eq_imp_le [OF k]] r k by (simp add: read_inv_def s'(2))
qed

text \<open>A stream is not reset or cancelled without an error.\<close>

definition err_ok :: "stream \<Rightarrow> bool" where
  "err_ok s \<longleftrightarrow> (st_resetLocally s \<or> st_cancelled s \<longrightarrow> st_err s \<noteq> None)"

text \<open>
  What a call of \<open>Read\<close> yields when \<open>out\<close> was read before: it ends; it waits only with nothing read and
  nothing to read, and what it returns are the next bytes of the stream.
\<close>

definition read_keeps :: "stream \<Rightarrow> stream \<Rightarrow> bool" where
  "read_keeps s s' \<longleftrightarrow> st_err s' = st_err s \<and> (err_ok s \<longrightarrow> err_ok s') \<and> st_streamID s' = st_streamID s \<and>
     fs_gaps (st_frameQueue s') = fs_gaps (st_frameQueue s)"

lemma read_keeps_refl [simp]: "read_keeps s s"
  by (simp add: read_keeps_def)

lemma read_keeps_cong:
  assumes "read_keeps s s1" "st_err s2 = st_err s1" "st_resetLocally s2 = st_resetLocally s1" "st_cancelled s2 = st_cancelled s1"
    "st_streamID s2 = st_streamID s1" "fs_gaps (st_frameQueue s2) = fs_gaps (st_frameQueue s1)"
  shows "read_keeps s s2"
  using assms unfolding read_keeps_def err_ok_def by metis

definition read_ok :: "(nat \<Rightarrow> u8) \<Rightarrow> nat \<Rightarrow> u8 list \<Rightarrow> nat \<Rightarrow> stream \<Rightarrow> u8 list \<Rightarrow> read_result option \<Rightarrow> bool" where
  "read_ok B F old n s0 got r \<longleftrightarrow>
     (case r of None \<Rightarrow> False
      | Some (Waiting, s', fm', ev') \<Rightarrow> got = [] \<and> read_inv B F old s' \<and> Head (st_frameQueue s') = None \<and> read_keeps s0 s'
      | Some (Returned (bs, e), s', fm', ev') \<Rightarrow>
          (\<exists>d. bs = got @ d \<and> length bs \<le> n \<and> read_inv B F (old @ bs) s' \<and> read_keeps s0 s' \<and>
             e \<in> {None, Some EOF, Some errDeadline, st_err s0}))"

lemma Pop_Head:
  assumes "sorter_inv B F q" "Head q = Some h" "sf_Data h = []"
  shows "Head (snd (Pop q)) = None"
  using assms queue_okD(1) [OF sorter_invD(4) [OF assms(1)] assms(2) [unfolded Head_def]]
  by (simp add: Pop_def Head_def StreamFrame_DataLen_def)

lemma Pop_gaps [simp]: "fs_gaps (snd (Pop q)) = fs_gaps q"
  by (simp add: Pop_def split: option.splits)

lemma read_ok_extend:
  assumes "read_ok B F old n s1 (out @ d) r" "read_keeps s s1"
  shows "read_ok B F old n s out r"
  using assms by (auto simp: read_ok_def read_keeps_def split: option.splits call.splits prod.splits)

text \<open>One round of the loop that reads from the head of the queue.\<close>

lemma read_loop_step:
  assumes inv: "read_inv B F (old @ out) s" and err: "err_ok s" and lt: "length out < n"
    and Reads: "read_wait now s = Reads h s1"
  obtains pos k d s2 fm2 where "Head (st_frameQueue s) = Some h" "pos = length (old @ out) - unat (sf_Offset h)"
    "pos \<le> length (sf_Data h)" "k = min (n - length out) (length (sf_Data h) - pos)"
    "d = take k (drop pos (sf_Data h))"
    "st_frameQueue s2 = st_frameQueue s" "st_readOffset s2 = st_readOffset s + of_nat k" "read_keeps s s2"
    "err_ok s2"
    "read_loop now n out s fm ev =
      (if pos + k \<ge> length (sf_Data h)
       then let s3 = s2\<lparr>st_frameQueue := snd (Pop (st_frameQueue s2))\<rparr>
         in if sf_FinBit h then Some (Returned (out @ d, Some EOF), s3\<lparr>st_finishedReading := True\<rparr>, fm2, ev @ [OnData])
            else read_loop now n (out @ d) s3 fm2 (ev @ [OnData])
       else read_loop now n (out @ d) s2 fm2 (ev @ [OnData]))"
proof -
  have h: "Head (st_frameQueue s) = Some h"
    and s1: "st_frameQueue s1 = st_frameQueue s" "st_readOffset s1 = st_readOffset s" "st_err s1 = st_err s"
      "st_readPosInFrame s1 = sint (st_readOffset s - sf_Offset h)" "err_ok s1" "st_streamID s1 = st_streamID s"
    using Reads err by (auto simp: read_wait_def err_ok_def split: if_splits option.splits)
  note r = read_inv_head [OF inv h]
  define pos where "pos = length (old @ out) - unat (sf_Offset h)"
  define k where "k = min (n - length out) (length (sf_Data h) - pos)"
  have pos: "st_readPosInFrame s1 = int pos" "pos \<le> length (sf_Data h)" using s1(4) r(1-3) by (simp_all add: pos_def)
  have k: "min (int (n - length out)) (sint (StreamFrame_DataLen h) - int pos) = int k"
    unfolding k_def of_nat_min of_nat_diff [OF pos(2)] r(4) ..
  define s2 where "s2 = s1\<lparr>st_readPosInFrame := int pos + int k, st_readOffset := st_readOffset s1 + of_nat k\<rparr>"
  define fm2 where "fm2 = (if st_resetRemotely s2 then fm else snd (AddBytesRead now (st_streamID s2) (of_nat k) fm))"
  have "int pos + int k \<ge> int (length (sf_Data h)) \<longleftrightarrow> pos + k \<ge> length (sf_Data h)" by linarith
  then have step: "read_loop now n out s fm ev =
      (if pos + k \<ge> length (sf_Data h)
       then let s3 = s2\<lparr>st_frameQueue := snd (Pop (st_frameQueue s2))\<rparr>
         in if sf_FinBit h then Some (Returned (out @ take k (drop pos (sf_Data h)), Some EOF),
                s3\<lparr>st_finishedReading := True\<rparr>, fm2, ev @ [OnData])
            else read_loop now n (out @ take k (drop pos (sf_Data h))) s3 fm2 (ev @ [OnData])
       else read_loop now n (out @ take k (drop pos (sf_Data h))) s2 fm2 (ev @ [OnData]))"
    using lt Reads pos r(4) k h by (subst read_loop.simps) (simp add: Let_def s2_def fm2_def)
  have "st_frameQueue s2 = st_frameQueue s" "st_readOffset s2 = st_readOffset s + of_nat k" "read_keeps s s2"
    "err_ok s2" using s1 by (simp_all add: s2_def err_ok_def read_keeps_def)
  then show thesis using that [OF h pos_def pos(2) k_def refl _ _ _ _ step] by blast
qed

lemma read_loop_ok:
  assumes "read_inv B F (old @ out) s" "err_ok s" "length out \<le> n"
  shows "read_ok B F old n s out (read_loop now n out s fm ev)"
  using assms
proof (induction "2 * (n - length out) + (if Head (st_frameQueue s) = None then 0 else 1)"
    arbitrary: out s fm ev rule: less_induct)
  case less
  note inv = less.prems(1)
  show ?case
  proof (cases "\<not> length out < n \<or> Head (st_frameQueue s) = None \<and> out \<noteq> []")
    case True
    then show ?thesis using less.prems by (subst read_loop.simps) (auto simp: read_ok_def)
  next
    case False
    show ?thesis
    proof (cases "read_wait now s")
      case Waits
      then have "Head (st_frameQueue s) = None"
        by (auto simp: read_wait_def split: if_splits option.splits)
      then show ?thesis using False Waits inv by (subst read_loop.simps) (simp add: read_ok_def)
    next
      case (Stops e)
      have "e = errDeadline \<or> Some e = st_err s"
        using Stops less.prems(2) by (auto simp: read_wait_def err_ok_def split: if_splits option.splits)
      then show ?thesis using False Stops inv by (subst read_loop.simps) (auto simp: read_ok_def)
    next
      case (Reads h s1)
      have "length out < n" using False by simp
      from read_loop_step [OF inv less.prems(2) this Reads, where fm = fm and ev = ev]
      obtain pos k d s2 fm2 where h: "Head (st_frameQueue s) = Some h" and pos: "pos = length (old @ out) - unat (sf_Offset h)"
          "pos \<le> length (sf_Data h)"
        and k: "k = min (n - length out) (length (sf_Data h) - pos)" and d: "d = take k (drop pos (sf_Data h))"
        and s2: "st_frameQueue s2 = st_frameQueue s" "st_readOffset s2 = st_readOffset s + of_nat k" "read_keeps s s2"
          "err_ok s2"
        and step: "read_loop now n out s fm ev =
          (if pos + k \<ge> length (sf_Data h)
           then let s3 = s2\<lparr>st_frameQueue := snd (Pop (st_frameQueue s2))\<rparr>
             in if sf_FinBit h then Some (Returned (out @ d, Some EOF), s3\<lparr>st_finishedReading := True\<rparr>, fm2, ev @ [OnData])
                else read_loop now n (out @ d) s3 fm2 (ev @ [OnData])
           else read_loop now n (out @ d) s2 fm2 (ev @ [OnData]))" by metis
      note r = read_inv_head [OF inv h] and lt = \<open>length out < n\<close>
      have len: "length (out @ d) \<le> n" "length (out @ d) = length out + k"
        using lt pos(2) by (simp_all add: d k)
      show ?thesis
      proof (cases "pos + k \<ge> length (sf_Data h)")
        case False
        then have "k = n - length out" by (simp add: k)
        have "read_inv B F (old @ out @ d) s2"
          using read_inv_part [OF inv h _ s2(1,2)] False r(2) by (simp add: d pos(1))
        then have "read_ok B F old n s2 (out @ d) (read_loop now n (out @ d) s2 fm2 (ev @ [OnData]))"
          using less.hyps [of "out @ d" s2] s2 len lt \<open>k = n - length out\<close> h by simp
        then show ?thesis using False s2(3) read_ok_extend step by simp
      next
        case True
        then have k': "pos + k = length (sf_Data h)" using pos(2) by (simp add: k)
        define s3 where "s3 = s2\<lparr>st_frameQueue := snd (Pop (st_frameQueue s2))\<rparr>"
        have inv3: "read_inv B F (old @ out @ d) s3"
          using read_inv_whole [OF inv h, of k s3] k' r(2) s2 by (simp add: d pos(1) s3_def)
        show ?thesis
        proof (cases "sf_FinBit h")
          case True
          have "read_inv B F (old @ out @ d) (s3\<lparr>st_finishedReading := True\<rparr>)"
            using inv3 by (subst read_inv_cong [of _ s3]) simp_all
          moreover have "read_keeps s (s3\<lparr>st_finishedReading := True\<rparr>)"
            by (rule read_keeps_cong [OF s2(3)]) (simp_all add: s3_def)
          ultimately show ?thesis using True k' len step by (simp add: read_ok_def s3_def [symmetric] Let_def)
        next
          case fin: False
          have "Head (st_frameQueue s3) = None" if k0: "k = 0"
          proof -
            have "pos = length (sf_Data h)" using k' k0 by simp
            then have "\<not> unat (sf_Offset h) < length (old @ out)" using inv h r(5) by (auto simp: read_inv_def pos(1))
            then have "sf_Data h = []" using \<open>pos = length (sf_Data h)\<close> by (simp add: pos(1))
            then show ?thesis using Pop_Head [of B F "st_frameQueue s" h] inv h s2 by (simp add: s3_def read_inv_def)
          qed
          then have "2 * (n - length (out @ d)) + (if Head (st_frameQueue s3) = None then 0 else 1) <
              2 * (n - length out) + (if Head (st_frameQueue s) = None then 0 else 1)"
            using len lt h by (cases "k = 0") (simp_all, arith)
          then have "read_ok B F old n s3 (out @ d) (read_loop now n (out @ d) s3 fm2 (ev @ [OnData]))"
            using less.hyps [of "out @ d" s3] inv3 s2 len by (simp add: err_ok_def s3_def)
          moreover have "read_keeps s s3" by (rule read_keeps_cong [OF s2(3)]) (simp_all add: s3_def)
          ultimately show ?thesis using fin k' read_ok_extend [of B F old n s3 out d _ s] step
            by (simp add: s3_def [symmetric] Let_def)
        qed
      qed
    qed
  qed
qed

text \<open>\<open>Read\<close> ends for every buffer.\<close>

lemma stream_Read_ok:
  assumes "read_inv B F old s" "err_ok s"
  shows "read_ok B F old n s [] (stream_Read now n s fm)"
  using read_loop_ok [of B F old "[]" s n now fm "[]"] assms
  by (auto simp: stream_Read_def read_ok_def)

text \<open>When the next byte has arrived a call that is not stopped by an error or a deadline returns data.\<close>

lemma read_inv_available:
  assumes inv: "read_inv B F old s" and avail: "st_readOffset s \<notin> gap_set (fs_gaps (st_frameQueue s))"
  obtains h where "Head (st_frameQueue s) = Some h" "length old < unat (sf_Offset h) + length (sf_Data h)"
proof (cases "unat (fs_readPosition (st_frameQueue s)) < length old")
  case True
  then obtain h where "Head (st_frameQueue s) = Some h"
    "length old < unat (fs_readPosition (st_frameQueue s)) + length (sf_Data h)"
    using inv by (auto simp: read_inv_def)
  then show thesis using that read_inv_head(5) [OF inv] by simp
next
  case False
  then have "fs_readPosition (st_frameQueue s) = st_readOffset s"
    using inv by (intro unat_eqI) (simp add: read_inv_def)
  then obtain h where h: "Head (st_frameQueue s) = Some h" "sf_Data h \<noteq> []"
    using head_iff [of B F "st_frameQueue s"] inv avail by (auto simp: read_inv_def)
  then have "length old < unat (sf_Offset h) + length (sf_Data h)"
    using False read_inv_head(2,5) [OF inv h(1)] by simp
  then show thesis using that h(1) by blast
qed

lemma read_loop_progress:
  assumes inv: "read_inv B F old s" and err: "err_ok s" and n: "0 < n"
    and avail: "st_readOffset s \<notin> gap_set (fs_gaps (st_frameQueue s))"
    and free: "\<not> st_resetLocally s" "\<not> st_cancelled s" "\<not> deadline_passed now (st_readDeadline s)"
  shows "\<exists>bs e s' fm' ev'. read_loop now n [] s fm ev = Some (Returned (bs, e), s', fm', ev') \<and> bs \<noteq> []"
proof -
  obtain h where h: "Head (st_frameQueue s) = Some h" "length old < unat (sf_Offset h) + length (sf_Data h)"
    using read_inv_available [OF inv avail] .
  then obtain s1 where "read_wait now s = Reads h s1" using free by (simp add: read_wait_def)
  from read_loop_step [of B F old "[]", simplified, OF inv err n this, where fm = fm and ev = ev]
  obtain k d s2 fm2 where k: "k = min n (length (sf_Data h) - (length old - unat (sf_Offset h)))"
    and d: "d = take k (drop (length old - unat (sf_Offset h)) (sf_Data h))"
    and s2: "st_frameQueue s2 = st_frameQueue s" "st_readOffset s2 = st_readOffset s + of_nat k" "err_ok s2"
    and step: "read_loop now n [] s fm ev =
      (if length old - unat (sf_Offset h) + k \<ge> length (sf_Data h)
       then let s3 = s2\<lparr>st_frameQueue := snd (Pop (st_frameQueue s2))\<rparr>
         in if sf_FinBit h then Some (Returned (d, Some EOF), s3\<lparr>st_finishedReading := True\<rparr>, fm2, ev @ [OnData])
            else read_loop now n d s3 fm2 (ev @ [OnData])
       else read_loop now n d s2 fm2 (ev @ [OnData]))"
    by (metis h(1) option.inject append_Nil)
  note r = read_inv_head [OF inv h(1)]
  have ne: "d \<noteq> []" "length d \<le> n" using h(2) n r(2) by (simp_all add: d k)
  have rest: "\<exists>bs e s'' fm' ev'. read_loop now n d s' fm2 (ev @ [OnData]) = Some (Returned (bs, e), s'', fm', ev') \<and> bs \<noteq> []"
    if "read_inv B F (old @ d) s'" "err_ok s'" for s'
    using read_loop_ok [OF that ne(2), of now fm2 "ev @ [OnData]"] ne(1)
    by (cases "read_loop now n d s' fm2 (ev @ [OnData])")
      (auto simp: read_ok_def split: call.splits, metis append_is_Nil_conv call.exhaust prod.exhaust)
  show ?thesis
  proof (cases "length (sf_Data h) \<le> length old - unat (sf_Offset h) + k")
    case True
    define s3 where "s3 = s2\<lparr>st_frameQueue := snd (Pop (st_frameQueue s2))\<rparr>"
    have "length old + k = unat (sf_Offset h) + length (sf_Data h)" using True r(2,3) h(2) by (simp add: k)
    then have "read_inv B F (old @ d) s3" using read_inv_whole [OF inv h(1), of k s3] s2 by (simp add: d s3_def)
    moreover have "err_ok s3" using s2(3) by (simp add: s3_def err_ok_def)
    ultimately show ?thesis using True step ne(1) rest [of s3] by (simp add: s3_def [symmetric] Let_def)
  next
    case False
    then have "read_inv B F (old @ d) s2" using read_inv_part [OF inv h(1) _ s2(1,2)] r(2) by (simp add: d)
    then show ?thesis using False step rest [OF _ s2(3)] by simp
  qed
qed

section \<open>What a stream writes\<close>

text \<open>
  \<open>write_inv W s\<close>: \<open>W\<close> are the bytes of the calls of \<open>Write\<close>; the first ones have been taken, the others
  wait for the framer.
\<close>

definition pending :: "stream \<Rightarrow> u8 list" where
  "pending s = (case st_dataForWriting s of None \<Rightarrow> [] | Some d \<Rightarrow> d)"

definition write_inv :: "u8 list \<Rightarrow> stream \<Rightarrow> bool" where
  "write_inv W s \<longleftrightarrow> length W < 2 ^ 62 \<and> pending s = drop (unat (st_writeOffset s)) W \<and>
     unat (st_writeOffset s) \<le> length W \<and> st_dataForWriting s \<noteq> Some [] \<and>
     (st_finSent s \<longrightarrow> st_finishedWriting s \<and> st_dataForWriting s = None)"

lemma write_inv_new: "write_inv [] (newStream i)"
  by (simp add: write_inv_def newStream_def pending_def)

lemma write_inv_Write:
  assumes "write_inv W s" "st_dataForWriting s = None" "Write_start p s = Inr s'" "length (W @ p) < 2 ^ 62"
  shows "write_inv (W @ p) s'"
  using assms by (auto simp: write_inv_def Write_start_def pending_def split: if_splits)

text \<open>The framer takes the next bytes.\<close>

lemma getDataForWriting_frame:
  assumes "getDataForWriting n s = (r, s')"
  shows "st_finSent s' = st_finSent s" "st_finishedWriting s' = st_finishedWriting s" "st_err s' = st_err s"
    "st_streamID s' = st_streamID s"
  using assms by (auto simp: getDataForWriting_def signalWrite_def Let_def split: option.splits if_splits)

lemma getDataForWriting_ok:
  assumes inv: "write_inv W s" and get: "getDataForWriting n s = (Some d, s')"
  shows "write_inv W s' \<and> unat (st_writeOffset s') = unat (st_writeOffset s) + length d \<and>
    d = take (length d) (drop (unat (st_writeOffset s)) W) \<and> length d \<le> unat n \<and> (0 < n \<longrightarrow> d \<noteq> [])"
proof -
  define off where "off = unat (st_writeOffset s)"
  obtain D where D: "st_dataForWriting s = Some D" "st_err s = None"
    using get by (auto simp: getDataForWriting_def split: option.splits)
  have i: "length W < 2 ^ 62" "D = drop off W" "off \<le> length W" "D \<noteq> []" "\<not> st_finSent s"
    using inv D by (auto simp: write_inv_def pending_def off_def)
  define k where "k = (if of_nat (length D) > n then unat n else length D)"
  have lenD: "unat (of_nat (length D) :: u64) = length D" using i(1,2) by (intro unat_of_nat_u64) simp
  then have k: "k \<le> length D" "k \<le> unat n" "0 < n \<Longrightarrow> 0 < k" "of_nat (length D) > n \<longleftrightarrow> k < length D"
    using i(4) by (auto simp: k_def word_less_nat_alt not_less)
  have "d = take k D \<and> st_dataForWriting s' = (if k < length D then Some (drop k D) else None) \<and>
    st_writeOffset s' = st_writeOffset s + of_nat k \<and> st_finSent s' = st_finSent s"
  proof (cases "of_nat (length D) > n")
    case True
    moreover have "k = unat n" using True by (simp add: k_def)
    ultimately show ?thesis using get D k(1,4) by (auto simp: getDataForWriting_def Let_def min_def)
  next
    case False
    moreover have "k = length D" using False by (simp add: k_def)
    ultimately show ?thesis using get D by (auto simp: getDataForWriting_def Let_def signalWrite_def)
  qed
  then have d: "d = take k D" and s': "st_dataForWriting s' = (if k < length D then Some (drop k D) else None)"
    "st_writeOffset s' = st_writeOffset s + of_nat k" "st_finSent s' = st_finSent s" by blast+
  have "off + k \<le> length W" using k(1) i(2,3) by simp
  then have "unat (of_nat k :: u64) = k" "off + k < 2 ^ 64" using i(1) by (simp_all add: unat_of_nat_u64)
  then have wo: "unat (st_writeOffset s') = off + k" unfolding s'(2) by (subst unat_add_le) (simp_all add: off_def)
  have len: "length d = k" using k(1) d by simp
  have "write_inv W s'"
    using i k(1) wo s' \<open>off + k \<le> length W\<close> by (auto simp: write_inv_def pending_def add.commute)
  then show ?thesis using wo len d i(2) k(2,3) by (auto simp: off_def [symmetric])
qed

end
