(* ===== verification/Streams_Map.thy ===== *)
theory Streams_Map
  imports Stream
begin

section \<open>The streams of a session: \<open>streams_map.go\<close>\<close>

text \<open>
  The streams that are open, their identifiers in the order of the round robin, and the limits. \<open>newStream\<close>
  is the function of the session, which registers the stream with the flow control manager. A call that
  waits on a condition variable is \<open>Waiting\<close> and runs again when it is woken up. The function that
  \<open>Iterate\<close> and \<open>RoundRobinIterate\<close> call changes the stream it is given and a state of its own.
\<close>

subsection \<open>The state\<close>

definition MaxNewStreamIDDelta :: StreamID where
  "MaxNewStreamIDDelta = 4 * ucast MaxStreamsPerConnection"

record streamsMap =
  sm_perspective :: Perspective
  sm_streams :: "StreamID \<rightharpoonup> stream"
  sm_openStreams :: "StreamID list"
  sm_roundRobinIndex :: u32
  sm_nextStream :: StreamID
  sm_highestStreamOpenedByPeer :: StreamID
  sm_closeErr :: "go_error option"
  sm_nextStreamToAccept :: StreamID
  sm_numOutgoingStreams :: u32
  sm_numIncomingStreams :: u32

definition errStreamsMapAccess :: go_error where
  "errStreamsMapAccess = GoErr ''streamsMap: Error accessing the streams map''"

definition TooManyOpenStreams :: go_error where
  "TooManyOpenStreams = QErr ''TooManyOpenStreams''"

definition InvalidStreamID :: go_error where
  "InvalidStreamID = QErr ''InvalidStreamID''"

definition newStreamsMap :: "Perspective \<Rightarrow> streamsMap" where
  "newStreamsMap pers =
     \<lparr> sm_perspective = pers, sm_streams = Map.empty, sm_openStreams = [], sm_roundRobinIndex = 0,
       sm_nextStream = (if pers = PerspectiveClient then 1 else 2), sm_highestStreamOpenedByPeer = 0,
       sm_closeErr = None, sm_nextStreamToAccept = (if pers = PerspectiveClient then 2 else 1),
       sm_numOutgoingStreams = 0, sm_numIncomingStreams = 0 \<rparr>"

text \<open>\<open>session.newStream\<close>\<close>

definition session_newStream ::
    "connectionParametersManager \<Rightarrow> StreamID \<Rightarrow> flowControlManager \<Rightarrow> stream \<times> flowControlManager" where
  "session_newStream cp i fm = (newStream i, NewStream cp i (\<not> (i = 1 \<or> i = 3)) fm)"

subsection \<open>Opening streams\<close>

text \<open>Its error is dropped by all callers.\<close>

definition putStream :: "stream \<Rightarrow> streamsMap \<Rightarrow> streamsMap" where
  "putStream s m =
     (let i = st_streamID s
      in if sm_streams m i \<noteq> None then m
         else m\<lparr>sm_streams := (sm_streams m)(i \<mapsto> s), sm_openStreams := sm_openStreams m @ [i]\<rparr>)"

type_synonym sm_state = "streamsMap \<times> flowControlManager"

definition openRemoteStream ::
    "connectionParametersManager \<Rightarrow> StreamID \<Rightarrow> sm_state \<Rightarrow> go_error option \<times> sm_state" where
  "openRemoteStream cp i mf =
     (let (m, fm) = mf in
      if sm_numIncomingStreams m \<ge> GetMaxIncomingStreams cp then (Some TooManyOpenStreams, mf)
      else if i + MaxNewStreamIDDelta < sm_highestStreamOpenedByPeer m then (Some InvalidStreamID, mf)
      else let m1 = (if sm_perspective m = PerspectiveServer
                     then m\<lparr>sm_numIncomingStreams := sm_numIncomingStreams m + 1\<rparr>
                     else m\<lparr>sm_numOutgoingStreams := sm_numOutgoingStreams m + 1\<rparr>);
               m2 = (if i > sm_highestStreamOpenedByPeer m1 then m1\<lparr>sm_highestStreamOpenedByPeer := i\<rparr> else m1);
               (s, fm1) = session_newStream cp i fm
           in (None, putStream s m2, fm1))"

text \<open>The loop of \<open>GetOrOpenStream\<close>; \<open>None\<close> would be a loop that does not end.\<close>

partial_function (option) open_remote_loop ::
    "connectionParametersManager \<Rightarrow> StreamID \<Rightarrow> StreamID \<Rightarrow> sm_state \<Rightarrow> (go_error option \<times> sm_state) option" where
  "open_remote_loop cp i sid mf =
     (if sid \<le> i
      then case openRemoteStream cp sid mf of
             (Some e, mf1) \<Rightarrow> Some (Some e, mf1)
           | (None, mf1) \<Rightarrow> open_remote_loop cp i (sid + 2) mf1
      else Some (None, mf))"

text \<open>The stream is \<open>None\<close> where the code returns \<open>nil\<close>.\<close>

definition GetOrOpenStream ::
    "connectionParametersManager \<Rightarrow> StreamID \<Rightarrow> sm_state \<Rightarrow> ((go_error + stream option) \<times> sm_state) option" where
  "GetOrOpenStream cp i mf =
     (let m = fst mf; own = (if sm_perspective m = PerspectiveServer then i mod 2 = 0 else i mod 2 = 1)
      in case sm_streams m i of
           Some s \<Rightarrow> Some (Inr (Some s), mf)
         | None \<Rightarrow>
             if own then
               if i \<le> sm_nextStream m then Some (Inr None, mf) else Some (Inl InvalidStreamID, mf)
             else if i \<le> sm_highestStreamOpenedByPeer m then Some (Inr None, mf)
             else
               let sid = sm_highestStreamOpenedByPeer m + 2;
                   sid1 = (if sid = 2 \<and> sm_perspective m = PerspectiveServer then 1 else sid)
               in case open_remote_loop cp i sid1 mf of
                    None \<Rightarrow> None
                  | Some (Some e, mf1) \<Rightarrow> Some (Inl e, mf1)
                  | Some (None, mf1) \<Rightarrow> Some (Inr (sm_streams (fst mf1) i), mf1))"

definition openStreamImpl ::
    "connectionParametersManager \<Rightarrow> sm_state \<Rightarrow> (go_error + stream) \<times> sm_state" where
  "openStreamImpl cp mf =
     (let (m, fm) = mf; i = sm_nextStream m in
      if sm_numOutgoingStreams m \<ge> GetMaxOutgoingStreams cp then (Inl TooManyOpenStreams, mf)
      else let m1 = (if sm_perspective m = PerspectiveServer
                     then m\<lparr>sm_numOutgoingStreams := sm_numOutgoingStreams m + 1\<rparr>
                     else m\<lparr>sm_numIncomingStreams := sm_numIncomingStreams m + 1\<rparr>);
               m2 = m1\<lparr>sm_nextStream := sm_nextStream m1 + 2\<rparr>;
               (s, fm1) = session_newStream cp i fm
           in (Inr s, putStream s m2, fm1))"

definition OpenStream :: "connectionParametersManager \<Rightarrow> sm_state \<Rightarrow> (go_error + stream) \<times> sm_state" where
  "OpenStream cp mf =
     (case sm_closeErr (fst mf) of Some e \<Rightarrow> (Inl e, mf) | None \<Rightarrow> openStreamImpl cp mf)"

text \<open>One round of the loop of \<open>OpenStreamSync\<close>.\<close>

definition OpenStreamSync :: "connectionParametersManager \<Rightarrow> sm_state \<Rightarrow> (go_error + stream) call \<times> sm_state" where
  "OpenStreamSync cp mf =
     (case sm_closeErr (fst mf) of
        Some e \<Rightarrow> (Returned (Inl e), mf)
      | None \<Rightarrow>
          (case openStreamImpl cp mf of
             (Inr s, mf1) \<Rightarrow> (Returned (Inr s), mf1)
           | (Inl e, mf1) \<Rightarrow> if e \<noteq> TooManyOpenStreams then (Returned (Inl e), mf1) else (Waiting, mf1)))"

definition AcceptStream :: "streamsMap \<Rightarrow> (go_error + stream) call \<times> streamsMap" where
  "AcceptStream m =
     (case sm_closeErr m of
        Some e \<Rightarrow> (Returned (Inl e), m)
      | None \<Rightarrow>
          (case sm_streams m (sm_nextStreamToAccept m) of
             None \<Rightarrow> (Waiting, m)
           | Some s \<Rightarrow> (Returned (Inr s), m\<lparr>sm_nextStreamToAccept := sm_nextStreamToAccept m + 2\<rparr>)))"

subsection \<open>Removing streams\<close>

definition sm_RemoveStream :: "StreamID \<Rightarrow> streamsMap \<Rightarrow> go_error option \<times> streamsMap" where
  "sm_RemoveStream i m =
     (case sm_streams m i of
        None \<Rightarrow> (Some (GoErr ''attempted to remove non-existing stream''), m)
      | Some _ \<Rightarrow>
          let m1 = (if i mod 2 = 0 then m\<lparr>sm_numOutgoingStreams := sm_numOutgoingStreams m - 1\<rparr>
                    else m\<lparr>sm_numIncomingStreams := sm_numIncomingStreams m - 1\<rparr>);
              k = length (takeWhile (\<lambda>j. j \<noteq> i) (sm_openStreams m1));
              m2 = (if k < length (sm_openStreams m1)
                    then m1\<lparr>sm_openStreams := take k (sm_openStreams m1) @ drop (k + 1) (sm_openStreams m1),
                            sm_roundRobinIndex := (if of_nat k < sm_roundRobinIndex m1
                              then sm_roundRobinIndex m1 - 1 else sm_roundRobinIndex m1)\<rparr>
                    else m1)
          in (None, m2\<lparr>sm_streams := (sm_streams m2)(i := None)\<rparr>))"

text \<open>\<open>m.streams[s]\<close> of an open stream that is missing is \<open>nil\<close>, and \<open>Cancel\<close> on it panics.\<close>

fun cancel_streams :: "go_error option \<Rightarrow> StreamID list \<Rightarrow> (StreamID \<rightharpoonup> stream) \<Rightarrow> go_error + (StreamID \<rightharpoonup> stream)" where
  "cancel_streams err [] ss = Inr ss"
| "cancel_streams err (i # is) ss =
     (case ss i of
        None \<Rightarrow> Inl (Panic ''nil pointer dereference'')
      | Some s \<Rightarrow> cancel_streams err is (ss(i \<mapsto> stream_Cancel err s)))"

definition CloseWithError :: "go_error option \<Rightarrow> streamsMap \<Rightarrow> go_error + streamsMap" where
  "CloseWithError err m =
     (case cancel_streams err (sm_openStreams m) (sm_streams m) of
        Inl e \<Rightarrow> Inl e
      | Inr ss \<Rightarrow> Inr (m\<lparr>sm_closeErr := err, sm_streams := ss\<rparr>))"

subsection \<open>Visiting the streams\<close>

text \<open>
  A visit returns whether to go on and an error. The state it changes holds the map itself: the function of
  \<open>garbageCollectStreams\<close> removes the stream it is given.
\<close>

type_synonym 'a streamLambda = "stream \<Rightarrow> streamsMap \<times> 'a \<Rightarrow> (bool \<times> go_error option) \<times> streamsMap \<times> 'a"

definition iterateFunc ::
    "StreamID \<Rightarrow> 'a streamLambda \<Rightarrow> streamsMap \<times> 'a \<Rightarrow> (bool \<times> go_error option) \<times> streamsMap \<times> 'a" where
  "iterateFunc i fn ma =
     (case sm_streams (fst ma) i of
        None \<Rightarrow> ((True, Some errStreamsMapAccess), ma)
      | Some s \<Rightarrow> fn s ma)"

fun iterate_loop ::
    "'a streamLambda \<Rightarrow> StreamID list \<Rightarrow> streamsMap \<times> 'a \<Rightarrow> go_error option \<times> streamsMap \<times> 'a" where
  "iterate_loop fn [] ma = (None, ma)"
| "iterate_loop fn (i # is) ma =
     (case iterateFunc i fn ma of
        ((cont, Some e), ma1) \<Rightarrow> (Some e, ma1)
      | ((cont, None), ma1) \<Rightarrow> if \<not> cont then (None, ma1) else iterate_loop fn is ma1)"

definition Iterate :: "'a streamLambda \<Rightarrow> streamsMap \<times> 'a \<Rightarrow> go_error option \<times> streamsMap \<times> 'a" where
  "Iterate fn ma = iterate_loop fn (sm_openStreams (fst ma)) ma"

text \<open>The loop over the streams 1 and 3; the flag tells to return.\<close>

fun priority_loop ::
    "'a streamLambda \<Rightarrow> StreamID list \<Rightarrow> streamsMap \<times> 'a \<Rightarrow> (bool \<times> go_error option) \<times> streamsMap \<times> 'a" where
  "priority_loop fn [] ma = ((False, None), ma)"
| "priority_loop fn (i # is) ma =
     (case iterateFunc i fn ma of
        ((cont, err), ma1) \<Rightarrow>
          if err \<noteq> None \<and> err \<noteq> Some errStreamsMapAccess then ((True, err), ma1)
          else if \<not> cont then ((True, None), ma1)
          else priority_loop fn is ma1)"

text \<open>The loop over \<open>i = j, ..., j + k - 1\<close>; an index out of range panics.\<close>

fun round_robin_loop ::
    "'a streamLambda \<Rightarrow> u32 \<Rightarrow> u32 \<Rightarrow> nat \<Rightarrow> u32 \<Rightarrow> streamsMap \<times> 'a \<Rightarrow> go_error option \<times> streamsMap \<times> 'a" where
  "round_robin_loop fn numStreams startIndex 0 j ma = (None, ma)"
| "round_robin_loop fn numStreams startIndex (Suc k) j ma =
     (let x = unat ((j + startIndex) mod numStreams); openStreams = sm_openStreams (fst ma)
      in if x \<ge> length openStreams then (Some (Panic ''index out of range''), ma)
         else let i = openStreams ! x
           in if i = 1 \<or> i = 3 then round_robin_loop fn numStreams startIndex k (j + 1) ma
              else case iterateFunc i fn ma of
                     ((cont, Some e), ma1) \<Rightarrow> (Some e, ma1)
                   | ((cont, None), m1, a1) \<Rightarrow>
                       let m2 = m1\<lparr>sm_roundRobinIndex := (sm_roundRobinIndex m1 + 1) mod numStreams\<rparr>
                       in if \<not> cont then (None, m2, a1)
                          else round_robin_loop fn numStreams startIndex k (j + 1) (m2, a1))"

definition RoundRobinIterate :: "'a streamLambda \<Rightarrow> streamsMap \<times> 'a \<Rightarrow> go_error option \<times> streamsMap \<times> 'a" where
  "RoundRobinIterate fn ma =
     (let numStreams = of_nat (card (dom (sm_streams (fst ma)))); startIndex = sm_roundRobinIndex (fst ma)
      in case priority_loop fn [1, 3] ma of
           ((True, err), ma1) \<Rightarrow> (err, ma1)
         | ((False, _), ma1) \<Rightarrow> round_robin_loop fn numStreams startIndex (unat numStreams) 0 ma1)"

text \<open>\<open>session.garbageCollectStreams\<close>, with the flow control manager as the state of the visits.\<close>

definition garbage_visit :: "flowControlManager streamLambda" where
  "garbage_visit s mf =
     (let (m, fm) = mf; i = st_streamID s in
      if stream_finished s
      then case sm_RemoveStream i m of
             (Some e, m1) \<Rightarrow> ((False, Some e), m1, fm)
           | (None, m1) \<Rightarrow> ((True, None), m1, RemoveStream i fm)
      else ((True, None), m, fm))"

definition garbageCollectStreams :: "sm_state \<Rightarrow> sm_state" where
  "garbageCollectStreams mf = snd (Iterate garbage_visit mf)"

section \<open>The identifiers of streams\<close>

text \<open>
  The server opens streams with even numbers, the client those with odd numbers; 0 stands for the connection.
\<close>

definition remote_id :: "Perspective \<Rightarrow> StreamID \<Rightarrow> bool" where
  "remote_id p i \<longleftrightarrow> i \<noteq> 0 \<and> (if p = PerspectiveServer then odd i else even i)"

definition own_id :: "Perspective \<Rightarrow> StreamID \<Rightarrow> bool" where
  "own_id p i \<longleftrightarrow> i \<noteq> 0 \<and> (if p = PerspectiveServer then even i else odd i)"

text \<open>The streams opened so far, whether they are still open or not.\<close>

definition opened :: "streamsMap \<Rightarrow> StreamID set" where
  "opened m = {i. remote_id (sm_perspective m) i \<and> i \<le> sm_highestStreamOpenedByPeer m} \<union>
     {i. own_id (sm_perspective m) i \<and> i < sm_nextStream m}"

definition smap_inv :: "streamsMap \<Rightarrow> bool" where
  "smap_inv m \<longleftrightarrow>
     distinct (sm_openStreams m) \<and> set (sm_openStreams m) = dom (sm_streams m) \<and>
     (\<forall>i s. sm_streams m i = Some s \<longrightarrow> st_streamID s = i) \<and>
     dom (sm_streams m) \<subseteq> opened m \<and> own_id (sm_perspective m) (sm_nextStream m) \<and>
     (sm_highestStreamOpenedByPeer m = 0 \<or> remote_id (sm_perspective m) (sm_highestStreamOpenedByPeer m)) \<and>
     unat (sm_numOutgoingStreams m) = card {i \<in> dom (sm_streams m). even i} \<and>
     unat (sm_numIncomingStreams m) = card {i \<in> dom (sm_streams m). odd i} \<and>
     (sm_perspective m = PerspectiveServer \<longrightarrow> unat (sm_numIncomingStreams m) \<le> 110)"

lemma smap_invD:
  assumes "smap_inv m"
  shows "distinct (sm_openStreams m)" "set (sm_openStreams m) = dom (sm_streams m)"
    "sm_streams m i = Some s \<Longrightarrow> st_streamID s = i" "dom (sm_streams m) \<subseteq> opened m"
    "own_id (sm_perspective m) (sm_nextStream m)"
    "sm_highestStreamOpenedByPeer m = 0 \<or> remote_id (sm_perspective m) (sm_highestStreamOpenedByPeer m)"
    "unat (sm_numOutgoingStreams m) = card {i \<in> dom (sm_streams m). even i}"
    "unat (sm_numIncomingStreams m) = card {i \<in> dom (sm_streams m). odd i}"
    "sm_perspective m = PerspectiveServer \<Longrightarrow> unat (sm_numIncomingStreams m) \<le> 110"
  using assms by (simp_all add: smap_inv_def)

lemma ids_differ: "remote_id p i \<Longrightarrow> \<not> own_id p i"
  by (simp add: remote_id_def own_id_def)

lemma smap_inv_new: "smap_inv (newStreamsMap p)"
  by (cases p) (simp_all add: smap_inv_def newStreamsMap_def own_id_def)

text \<open>Half of the identifiers are even and half are odd, so the counters do not wrap around.\<close>

lemma card_ids: "card {i :: u32. P i} \<le> 2 ^ 32"
  using card_mono [of "UNIV :: u32 set" "{i. P i}"] by (simp add: card_word)

lemma card_parity:
  assumes "\<And>i :: u32. P i \<Longrightarrow> \<not> P (i + 1)"
  shows "card {i. P i} < 2 ^ 32"
proof -
  have "\<not> P 0 \<or> \<not> P 1" using assms [of 0] by auto
  then have "{i. P i} \<noteq> UNIV" by blast
  then have "card {i. P i} < card (UNIV :: u32 set)" by (intro psubset_card_mono) auto
  then show ?thesis by (simp add: card_word)
qed

lemma unat_count_up:
  assumes "unat (n :: u32) = card (A :: u32 set)" "finite A" "i \<notin> A" "insert i A \<subseteq> {j. P j}" "\<And>i. P i \<Longrightarrow> \<not> P (i + 1)"
  shows "unat (n + 1) = card (insert i A)"
proof -
  have "card (insert i A) \<le> card {j. P j}" using assms(4) by (intro card_mono) simp_all
  then have "card (insert i A) < 2 ^ 32" using card_parity [of P, OF assms(5)] by simp
  then have "unat n + 1 < 2 ^ 32" using assms(1-3) by simp
  then show ?thesis using assms(1-3) by (simp add: unat_word_ariths)
qed

lemma putStream_new:
  assumes "sm_streams m i = None"
  shows "putStream (newStream i) m = m\<lparr>sm_streams := (sm_streams m)(i \<mapsto> newStream i), sm_openStreams := sm_openStreams m @ [i]\<rparr>"
  using assms by (simp add: putStream_def newStream_def)

text \<open>A stream is opened: the counter of its parity goes up.\<close>

lemma smap_inv_open:
  assumes inv: "smap_inv m" and i: "i \<notin> opened m" "i \<in> opened m'" "opened m \<subseteq> opened m'"
    and m': "sm_streams m' = (sm_streams m)(i \<mapsto> newStream i)" "sm_openStreams m' = sm_openStreams m @ [i]"
      "sm_perspective m' = sm_perspective m"
      "own_id (sm_perspective m) (sm_nextStream m')"
      "sm_highestStreamOpenedByPeer m' = 0 \<or> remote_id (sm_perspective m) (sm_highestStreamOpenedByPeer m')"
      "sm_numOutgoingStreams m' = sm_numOutgoingStreams m + (if even i then 1 else 0)"
      "sm_numIncomingStreams m' = sm_numIncomingStreams m + (if odd i then 1 else 0)"
      "sm_perspective m = PerspectiveServer \<Longrightarrow> unat (sm_numIncomingStreams m') \<le> 110"
  shows "smap_inv m'"
proof -
  note d = smap_invD [OF inv]
  have new: "i \<notin> dom (sm_streams m)" using d(4) i(1) by blast
  have even: "unat (sm_numOutgoingStreams m') = card {j \<in> dom (sm_streams m'). even j}"
  proof (cases "even i")
    case True
    then have "{j \<in> dom (sm_streams m'). even j} = insert i {j \<in> dom (sm_streams m). even j}" by (auto simp: m')
    then show ?thesis using unat_count_up [OF d(7), of i even] new True by (auto simp: m')
  next
    case False
    then have "{j \<in> dom (sm_streams m'). even j} = {j \<in> dom (sm_streams m). even j}" by (auto simp: m')
    then show ?thesis using False d(7) by (simp add: m')
  qed
  have odd: "unat (sm_numIncomingStreams m') = card {j \<in> dom (sm_streams m'). odd j}"
  proof (cases "odd i")
    case True
    then have "{j \<in> dom (sm_streams m'). odd j} = insert i {j \<in> dom (sm_streams m). odd j}" by (auto simp: m')
    then show ?thesis using unat_count_up [OF d(8), of i odd] new True by (auto simp: m')
  next
    case False
    then have "{j \<in> dom (sm_streams m'). odd j} = {j \<in> dom (sm_streams m). odd j}" by (auto simp: m')
    then show ?thesis using False d(8) by (simp add: m')
  qed
  have "distinct (sm_openStreams m')" "set (sm_openStreams m') = dom (sm_streams m')" using d(1,2) new by (auto simp: m'(1,2))
  moreover have "\<forall>j s. sm_streams m' j = Some s \<longrightarrow> st_streamID s = j" using d(3) by (simp add: m'(1) newStream_def)
  moreover have "dom (sm_streams m') \<subseteq> opened m'" using d(4) i(2,3) by (auto simp: m'(1))
  ultimately show ?thesis using even odd m'(3-5,8) by (simp add: smap_inv_def)
qed

lemma even_unat: "even (unat (x :: u32)) \<longleftrightarrow> even x"
  using bit_unsigned_iff [of x 0] by (simp add: bit_0)

text \<open>Two identifiers of the same parity differ by two at least.\<close>

lemma parity_step:
  assumes "even i \<longleftrightarrow> even (j :: u32)" "unat j + 2 < 2 ^ 32"
  shows "i < j + 2 \<longleftrightarrow> i < j \<or> i = j" "j < j + 2" "even (j + 2) \<longleftrightarrow> even j" "j + 2 \<noteq> 0" "j < i \<longleftrightarrow> j + 2 \<le> i"
proof -
  have u: "unat (j + 2) = unat j + 2" using assms(2) by (simp add: unat_word_ariths)
  have p: "even (unat i) \<longleftrightarrow> even (unat j)" using assms(1) by (simp add: even_unat)
  have eq: "i = j \<longleftrightarrow> unat i = unat j" by (auto intro: unat_eqI)
  show "i < j + 2 \<longleftrightarrow> i < j \<or> i = j" unfolding word_less_nat_alt u eq using p by presburger
  show "j < j + 2" unfolding word_less_nat_alt u by simp
  show "even (j + 2) \<longleftrightarrow> even j" by simp
  show "j + 2 \<noteq> 0" using u by (metis add_is_0 numeral_eq_one_iff unat_0 zero_neq_numeral)
  show "j < i \<longleftrightarrow> j + 2 \<le> i" unfolding word_less_nat_alt word_le_nat_alt u using p by presburger
qed

lemma openStreamImpl_ok:
  assumes inv: "smap_inv m" and room: "unat (sm_nextStream m) + 2 < 2 ^ 32"
    and run: "openStreamImpl cp (m, fm) = (r, m', fm')"
  shows "case r of Inl e \<Rightarrow> e = TooManyOpenStreams \<and> m' = m \<and> fm' = fm
    | Inr s \<Rightarrow> s = newStream (sm_nextStream m) \<and> smap_inv m' \<and> sm_nextStream m \<notin> opened m \<and>
        opened m' = insert (sm_nextStream m) (opened m) \<and>
        sm_streams m' = (sm_streams m)(sm_nextStream m \<mapsto> s) \<and> sm_perspective m' = sm_perspective m \<and>
        sm_nextStream m' = sm_nextStream m + 2 \<and> sm_closeErr m' = sm_closeErr m"
proof (cases "sm_numOutgoingStreams m \<ge> GetMaxOutgoingStreams cp")
  case True
  then show ?thesis using run by (auto simp: openStreamImpl_def Let_def)
next
  case False
  let ?i = "sm_nextStream m"
  note d = smap_invD [OF inv]
  have own: "own_id (sm_perspective m) ?i" by (rule d(5))
  have new: "?i \<notin> opened m" using own ids_differ by (auto simp: opened_def)
  then have none: "sm_streams m ?i = None" using d(4) by blast
  define m1 where "m1 = (if sm_perspective m = PerspectiveServer
    then m\<lparr>sm_numOutgoingStreams := sm_numOutgoingStreams m + 1\<rparr>
    else m\<lparr>sm_numIncomingStreams := sm_numIncomingStreams m + 1\<rparr>)\<lparr>sm_nextStream := ?i + 2\<rparr>"
  have m1: "sm_streams m1 = sm_streams m" "sm_openStreams m1 = sm_openStreams m" "sm_nextStream m1 = ?i + 2"
    "sm_perspective m1 = sm_perspective m" "sm_highestStreamOpenedByPeer m1 = sm_highestStreamOpenedByPeer m"
    "sm_closeErr m1 = sm_closeErr m"
    by (simp_all add: m1_def)
  have r: "r = Inr (newStream ?i)" "m' = putStream (newStream ?i) m1"
    using run False by (auto simp: openStreamImpl_def Let_def session_newStream_def m1_def)
  have m': "m' = m1\<lparr>sm_streams := (sm_streams m)(?i \<mapsto> newStream ?i), sm_openStreams := sm_openStreams m @ [?i]\<rparr>"
    using putStream_new [of m1 ?i] none m1(1,2) r(2) by simp
  have "own_id p i \<and> i < ?i + 2 \<longleftrightarrow> own_id p i \<and> (i < ?i \<or> i = ?i)" if "p = sm_perspective m" for i p
    using parity_step(1) [OF _ room, of i] own that by (auto simp: own_id_def split: if_splits)
  then have opened: "opened m' = insert ?i (opened m)" using own by (auto simp: opened_def m' m1)
  have "smap_inv m'"
  proof (rule smap_inv_open [OF inv new])
    show "own_id (sm_perspective m) (sm_nextStream m')"
      using own parity_step(3,4) [OF refl room] by (auto simp: own_id_def m' m1)
    show "sm_numOutgoingStreams m' = sm_numOutgoingStreams m + (if even ?i then 1 else 0)"
      "sm_numIncomingStreams m' = sm_numIncomingStreams m + (if odd ?i then 1 else 0)"
      using own by (auto simp: m' m1_def own_id_def)
    show "sm_perspective m = PerspectiveServer \<Longrightarrow> unat (sm_numIncomingStreams m') \<le> 110"
      using d(9) by (simp add: m' m1_def)
  qed (use opened d(6) in \<open>auto simp: m' m1\<close>)
  then show ?thesis using r(1) new opened m1 by (simp add: m')
qed

subsection \<open>Streams the peer opens\<close>

lemma GetMaxIncoming: "GetMaxIncomingStreams cp = 110"
  by (simp add: GetMaxIncomingStreams_def MaxUint32_def MaxIncomingDynamicStreamsPerConnection_def
      MaxStreamsMinimumIncrement_def)

text \<open>Where the loop of \<open>GetOrOpenStream\<close> starts.\<close>

definition next_remote :: "streamsMap \<Rightarrow> StreamID" where
  "next_remote m =
     (let sid = sm_highestStreamOpenedByPeer m + 2
      in if sid = 2 \<and> sm_perspective m = PerspectiveServer then 1 else sid)"

lemma next_remote:
  assumes inv: "smap_inv m" and room: "unat (sm_highestStreamOpenedByPeer m) + 2 < 2 ^ 32"
  shows "remote_id (sm_perspective m) (next_remote m)" "sm_highestStreamOpenedByPeer m < next_remote m"
    "remote_id (sm_perspective m) i \<Longrightarrow> i \<le> next_remote m \<longleftrightarrow> i \<le> sm_highestStreamOpenedByPeer m \<or> i = next_remote m"
proof -
  let ?h = "sm_highestStreamOpenedByPeer m"
  have u: "unat (?h + 2) = unat ?h + 2" using room by (simp add: unat_word_ariths)
  have two: "?h + 2 = 2 \<longleftrightarrow> ?h = 0" by simp
  note h = smap_invD(6) [OF inv]
  have "even ?h \<and> sm_perspective m = PerspectiveClient \<or> ?h = 0 \<or> odd ?h \<and> sm_perspective m = PerspectiveServer"
    using h by (cases "sm_perspective m") (auto simp: remote_id_def)
  then consider "?h = 0" "sm_perspective m = PerspectiveServer" "next_remote m = 1"
    | "even ?h" "sm_perspective m = PerspectiveClient" "next_remote m = ?h + 2"
    | "odd ?h" "sm_perspective m = PerspectiveServer" "next_remote m = ?h + 2"
    by (cases "?h = 0"; cases "sm_perspective m") (auto simp: next_remote_def two)
  then have "remote_id (sm_perspective m) (next_remote m) \<and> ?h < next_remote m \<and>
    (\<forall>i. remote_id (sm_perspective m) i \<longrightarrow> (i \<le> next_remote m \<longleftrightarrow> i \<le> ?h \<or> i = next_remote m))"
  proof cases
    case 1
    have "i \<le> 1 \<longleftrightarrow> i = 0 \<or> i = 1" for i :: u32 by (auto simp: word_le_nat_alt le_Suc_eq unat_eq_0 intro: unat_eqI)
    then show ?thesis using 1 by (auto simp: remote_id_def)
  next
    case 2
    note q = parity_step(1,5) [OF _ room] parity_step(2-4) [OF refl room]
    show ?thesis using 2 q(1,3-5) by (auto simp: remote_id_def le_less)
  next
    case 3
    note q = parity_step(1,5) [OF _ room] parity_step(2-4) [OF refl room]
    show ?thesis using 3 q(1,3-5) by (auto simp: remote_id_def le_less)
  qed
  then show "remote_id (sm_perspective m) (next_remote m)" "?h < next_remote m"
    "remote_id (sm_perspective m) i \<Longrightarrow> i \<le> next_remote m \<longleftrightarrow> i \<le> ?h \<or> i = next_remote m" by blast+
qed

lemma openRemoteStream_ok:
  assumes inv: "smap_inv m" and room: "unat (sm_highestStreamOpenedByPeer m) + 2 < 2 ^ 32"
    and run: "openRemoteStream cp (next_remote m) (m, fm) = (r, m', fm')"
  shows "case r of Some e \<Rightarrow> e \<in> {TooManyOpenStreams, InvalidStreamID} \<and> m' = m \<and> fm' = fm
    | None \<Rightarrow> smap_inv m' \<and> next_remote m \<notin> opened m \<and> opened m' = insert (next_remote m) (opened m) \<and>
        sm_streams m' = (sm_streams m)(next_remote m \<mapsto> newStream (next_remote m)) \<and>
        sm_perspective m' = sm_perspective m \<and> sm_highestStreamOpenedByPeer m' = next_remote m \<and>
        sm_nextStream m' = sm_nextStream m \<and> sm_closeErr m' = sm_closeErr m \<and>
        sm_numIncomingStreams m < GetMaxIncomingStreams cp"
proof (cases "sm_numIncomingStreams m \<ge> GetMaxIncomingStreams cp \<or>
    next_remote m + MaxNewStreamIDDelta < sm_highestStreamOpenedByPeer m")
  case True
  then show ?thesis using run by (auto simp: openRemoteStream_def split: if_splits)
next
  case False
  let ?i = "next_remote m"
  note d = smap_invD [OF inv] and n = next_remote [OF inv room]
  have new: "?i \<notin> opened m" using n(1,2) ids_differ by (auto simp: opened_def)
  then have none: "sm_streams m ?i = None" using d(4) by blast
  define m1 where "m1 = (if sm_perspective m = PerspectiveServer
    then m\<lparr>sm_numIncomingStreams := sm_numIncomingStreams m + 1\<rparr>
    else m\<lparr>sm_numOutgoingStreams := sm_numOutgoingStreams m + 1\<rparr>)\<lparr>sm_highestStreamOpenedByPeer := ?i\<rparr>"
  have m1: "sm_streams m1 = sm_streams m" "sm_openStreams m1 = sm_openStreams m" "sm_nextStream m1 = sm_nextStream m"
    "sm_perspective m1 = sm_perspective m" "sm_highestStreamOpenedByPeer m1 = ?i" "sm_closeErr m1 = sm_closeErr m"
    by (simp_all add: m1_def)
  have r: "r = None" "m' = putStream (newStream ?i) m1"
    using run False n(2) by (auto simp: openRemoteStream_def Let_def session_newStream_def m1_def)
  have m': "m' = m1\<lparr>sm_streams := (sm_streams m)(?i \<mapsto> newStream ?i), sm_openStreams := sm_openStreams m @ [?i]\<rparr>"
    using putStream_new [of m1 ?i] none m1(1,2) r(2) by simp
  have opened: "opened m' = insert ?i (opened m)" using n(1,3) by (auto simp: opened_def m' m1)
  have "smap_inv m'"
  proof (rule smap_inv_open [OF inv new])
    show "sm_numOutgoingStreams m' = sm_numOutgoingStreams m + (if even ?i then 1 else 0)"
      "sm_numIncomingStreams m' = sm_numIncomingStreams m + (if odd ?i then 1 else 0)"
      using n(1) by (auto simp: m' m1_def remote_id_def)
    have "unat (sm_numIncomingStreams m) < 110"
      using False by (simp add: not_le word_less_nat_alt GetMaxIncoming)
    then show "sm_perspective m = PerspectiveServer \<Longrightarrow> unat (sm_numIncomingStreams m') \<le> 110"
      by (simp add: m' m1_def unat_word_ariths)
  qed (use opened d(5) n(1) in \<open>auto simp: m' m1\<close>)
  then show ?thesis using r(1) new opened m1 False by (simp add: m' not_le)
qed

text \<open>
  The next identifier would wrap around: then the number of the next round is far below the highest
  one, and the loop ends with an error.
\<close>

lemma open_remote_wrapped:
  assumes "sid \<le> 1" "2 ^ 32 - 2 \<le> unat (sm_highestStreamOpenedByPeer m)"
  shows "\<exists>e \<in> {None, Some TooManyOpenStreams, Some InvalidStreamID}. open_remote_loop cp i sid (m, fm) = Some (e, m, fm)"
proof -
  have "unat sid \<le> 1" using assms(1) by (simp add: word_le_nat_alt)
  then have "unat (sid + MaxNewStreamIDDelta) \<le> 401"
    by (simp add: unat_word_ariths MaxNewStreamIDDelta_def MaxStreamsPerConnection_def)
  then have "sid + MaxNewStreamIDDelta < sm_highestStreamOpenedByPeer m"
    using assms(2) by (simp add: word_less_nat_alt)
  then have "openRemoteStream cp sid (m, fm) = (Some TooManyOpenStreams, m, fm) \<or>
      openRemoteStream cp sid (m, fm) = (Some InvalidStreamID, m, fm)"
    by (simp add: openRemoteStream_def)
  then show ?thesis by (subst open_remote_loop.simps) auto
qed

text \<open>What the loop opens; it ends for every identifier.\<close>

definition opened_upto :: "StreamID \<Rightarrow> StreamID \<Rightarrow> streamsMap \<Rightarrow> StreamID set" where
  "opened_upto i h m = {j. remote_id (sm_perspective m) j \<and> sm_highestStreamOpenedByPeer m < j \<and> j \<le> h \<and> j \<le> i}"

definition loop_ok :: "connectionParametersManager \<Rightarrow> StreamID \<Rightarrow> streamsMap \<Rightarrow> go_error option \<Rightarrow> streamsMap \<Rightarrow> bool" where
  "loop_ok cp i m e m' \<longleftrightarrow> smap_inv m' \<and> sm_perspective m' = sm_perspective m \<and> sm_closeErr m' = sm_closeErr m \<and>
     sm_nextStream m' = sm_nextStream m \<and> sm_highestStreamOpenedByPeer m \<le> sm_highestStreamOpenedByPeer m' \<and>
     (let new = opened_upto i (sm_highestStreamOpenedByPeer m') m in
      sm_streams m' = (\<lambda>j. if j \<in> new then Some (newStream j) else sm_streams m j) \<and>
      opened m' = opened m \<union> new \<and> new \<inter> opened m = {} \<and>
      (e = None \<longrightarrow> (\<forall>j. remote_id (sm_perspective m) j \<and> j \<le> i \<longrightarrow> j \<in> opened m')) \<and>
      e \<in> {None, Some TooManyOpenStreams, Some InvalidStreamID})"

lemma loop_ok_refl:
  assumes "smap_inv m" "e \<in> {None, Some TooManyOpenStreams, Some InvalidStreamID}"
    and "e = None \<Longrightarrow> (\<forall>j. remote_id (sm_perspective m) j \<and> j \<le> i \<longrightarrow> j \<in> opened m)"
  shows "loop_ok cp i m e m"
proof -
  have "opened_upto i (sm_highestStreamOpenedByPeer m) m = {}" by (auto simp: opened_upto_def)
  then show ?thesis using assms by (auto simp: loop_ok_def)
qed

lemma loop_ok_step:
  assumes inv: "smap_inv m" and h: "smap_inv m1" "opened m1 = insert j (opened m)" "j \<notin> opened m"
      "sm_streams m1 = (sm_streams m)(j \<mapsto> newStream j)"
      "sm_perspective m1 = sm_perspective m" "sm_highestStreamOpenedByPeer m1 = j" "sm_nextStream m1 = sm_nextStream m"
      "sm_closeErr m1 = sm_closeErr m"
    and j: "j \<le> i" "remote_id (sm_perspective m) j" "sm_highestStreamOpenedByPeer m < j"
      "\<And>k. remote_id (sm_perspective m) k \<Longrightarrow> k \<le> j \<longleftrightarrow> k \<le> sm_highestStreamOpenedByPeer m \<or> k = j"
    and ok: "loop_ok cp i m1 e m'"
  shows "loop_ok cp i m e m'"
proof -
  let ?h = "sm_highestStreamOpenedByPeer"
  have hm: "j \<le> ?h m'" using ok h(6) by (simp add: loop_ok_def)
  have n: "opened_upto i (?h m') m = insert j (opened_upto i (?h m') m1)"
    using j hm h(5,6) by (auto simp: opened_upto_def not_le [symmetric])
  have "j \<notin> opened_upto i (?h m') m1" using h(6) by (simp add: opened_upto_def)
  then show ?thesis
    using ok h(2-5,7,8) j(3) hm unfolding loop_ok_def n by (auto simp: Let_def fun_eq_iff)
qed

lemma open_remote_loop_ok:
  assumes "smap_inv m"
  shows "\<exists>e m' fm'. open_remote_loop cp i (next_remote m) (m, fm) = Some (e, m', fm') \<and> loop_ok cp i m e m'"
  using assms
proof (induction "2 ^ 32 - unat (sm_highestStreamOpenedByPeer m)" arbitrary: m fm rule: less_induct)
  case less
  let ?h = "sm_highestStreamOpenedByPeer m"
  show ?case
  proof (cases "unat ?h + 2 < 2 ^ 32")
    case room: True
    note n = next_remote [OF less.prems room]
    show ?thesis
    proof (cases "next_remote m \<le> i")
      case le: True
      obtain r m1 fm1 where run: "openRemoteStream cp (next_remote m) (m, fm) = (r, m1, fm1)" by (metis prod_cases3)
      note o = openRemoteStream_ok [OF less.prems room run]
      show ?thesis
      proof (cases r)
        case (Some e)
        then have o: "e \<in> {TooManyOpenStreams, InvalidStreamID}" "m1 = m" "fm1 = fm" using o by simp_all
        have "open_remote_loop cp i (next_remote m) (m, fm) = Some (Some e, m, fm)"
          using le run Some o(2,3) by (subst open_remote_loop.simps) simp
        then show ?thesis using loop_ok_refl [OF less.prems, of "Some e"] o(1) by auto
      next
        case None
        then have o: "smap_inv m1" "next_remote m \<notin> opened m" "opened m1 = insert (next_remote m) (opened m)"
          "sm_streams m1 = (sm_streams m)(next_remote m \<mapsto> newStream (next_remote m))"
          "sm_perspective m1 = sm_perspective m" "sm_highestStreamOpenedByPeer m1 = next_remote m"
          "sm_nextStream m1 = sm_nextStream m" "sm_closeErr m1 = sm_closeErr m"
          using o by simp_all
        have step: "open_remote_loop cp i (next_remote m) (m, fm) = open_remote_loop cp i (next_remote m + 2) (m1, fm1)"
          using le run None by (subst open_remote_loop.simps) simp
        have dec: "2 ^ 32 - unat (sm_highestStreamOpenedByPeer m1) < 2 ^ 32 - unat ?h"
          using n(2) room o(6) by (simp add: word_less_nat_alt)
        have "next_remote m \<noteq> 0" using n(1) by (simp add: remote_id_def)
        then have nx: "next_remote m + 2 = next_remote m1" using o(6) by (simp add: next_remote_def)
        from less.hyps [OF dec o(1), of fm1] obtain e m' fm'
          where "open_remote_loop cp i (next_remote m1) (m1, fm1) = Some (e, m', fm')" "loop_ok cp i m1 e m'" by blast
        then show ?thesis using step nx loop_ok_step [OF less.prems o(1,3,2,4-8) le n] by auto
      qed
    next
      case False
      then have "open_remote_loop cp i (next_remote m) (m, fm) = Some (None, m, fm)"
        by (subst open_remote_loop.simps) simp
      moreover have "j \<in> opened m" if "remote_id (sm_perspective m) j" "j \<le> i" for j
        using n(3) [OF that(1)] that False by (auto simp: opened_def)
      ultimately show ?thesis using loop_ok_refl [OF less.prems, of None i] by auto
    qed
  next
    case False
    have hb: "2 ^ 32 - 2 \<le> unat ?h" using False by simp
    then have rh: "remote_id (sm_perspective m) ?h" using smap_invD(6) [OF less.prems] by auto
    have all: "j \<le> ?h" if "remote_id (sm_perspective m) j" for j
    proof (rule ccontr)
      assume "\<not> j \<le> ?h"
      then have "unat j = unat ?h + 1" using hb unat_bound [of j] by (simp add: word_le_nat_alt)
      then have "even j \<longleftrightarrow> odd ?h" using even_unat [of j] even_unat [of ?h] by simp
      then show False using that rh by (simp add: remote_id_def split: if_splits)
    qed
    have "next_remote m \<le> 1"
    proof -
      have "unat ?h = 2 ^ 32 - 2 \<or> unat ?h = 2 ^ 32 - 1" using hb unat_bound [of ?h] by auto
      then have "unat (?h + 2) \<le> 1" by (auto simp: unat_word_ariths)
      then have "?h + 2 \<le> 1" by (simp add: word_le_nat_alt)
      then show ?thesis by (auto simp: next_remote_def Let_def)
    qed
    from open_remote_wrapped [OF this hb, of cp i fm] obtain e
      where "e \<in> {None, Some TooManyOpenStreams, Some InvalidStreamID}"
        "open_remote_loop cp i (next_remote m) (m, fm) = Some (e, m, fm)" by blast
    then show ?thesis using loop_ok_refl [OF less.prems, of e i] all by (auto simp: opened_def)
  qed
qed

lemma remote_new:
  "remote_id (sm_perspective m) j \<Longrightarrow> sm_highestStreamOpenedByPeer m < j \<Longrightarrow> j \<notin> opened m"
  using ids_differ by (simp add: opened_def not_le)

lemma loop_okD:
  assumes "loop_ok cp i m None m'" "remote_id (sm_perspective m) j" "sm_highestStreamOpenedByPeer m < j" "j \<le> i"
  shows "sm_streams m' j = Some (newStream j)"
proof -
  define N where "N = opened_upto i (sm_highestStreamOpenedByPeer m') m"
  have "j \<in> opened m'" "opened m' = opened m \<union> N"
    "sm_streams m' = (\<lambda>j. if j \<in> N then Some (newStream j) else sm_streams m j)"
    using assms(1,2,4) unfolding loop_ok_def Let_def N_def by blast+
  moreover have "j \<notin> opened m" using remote_new assms(2,3) by blast
  ultimately show ?thesis by simp
qed

text \<open>\<open>GetOrOpenStream\<close> on every branch.\<close>

lemma GetOrOpenStream_ok:
  assumes inv: "smap_inv m"
  shows "\<exists>r m' fm'. GetOrOpenStream cp i (m, fm) = Some (r, m', fm') \<and> smap_inv m' \<and>
    sm_perspective m' = sm_perspective m \<and> sm_closeErr m' = sm_closeErr m \<and> opened m \<subseteq> opened m' \<and>
    (\<forall>j\<in>dom (sm_streams m). sm_streams m' j = sm_streams m j) \<and>
    (\<forall>j\<in>dom (sm_streams m') - dom (sm_streams m).
       j \<notin> opened m \<and> remote_id (sm_perspective m) j \<and> j \<le> i \<and> sm_streams m' j = Some (newStream j)) \<and>
    (case r of
       Inl e \<Rightarrow> e = InvalidStreamID \<or> e = TooManyOpenStreams
     | Inr None \<Rightarrow> m' = m \<and> sm_streams m i = None \<and> (i \<in> opened m \<or> i = sm_nextStream m \<or> i = 0)
     | Inr (Some s) \<Rightarrow> sm_streams m' i = Some s \<and> i \<in> opened m' \<and>
         (sm_streams m i = None \<longrightarrow> s = newStream i))"
proof -
  note d = smap_invD [OF inv]
  show ?thesis
  proof (cases "sm_streams m i")
    case (Some s)
    then have "GetOrOpenStream cp i (m, fm) = Some (Inr (Some s), m, fm)" by (simp add: GetOrOpenStream_def)
    moreover have "i \<in> opened m" using d(4) Some by blast
    ultimately show ?thesis using inv Some by auto
  next
    case none: None
    define own where "own \<longleftrightarrow> (if sm_perspective m = PerspectiveServer then i mod 2 = 0 else i mod 2 = 1)"
    have own: "own \<longleftrightarrow> i = 0 \<and> sm_perspective m = PerspectiveServer \<or> own_id (sm_perspective m) i"
      by (auto simp: own_def own_id_def even_iff_mod_2_eq_zero odd_iff_mod_2_eq_one)
    show ?thesis
    proof (cases own)
      case True
      have "i \<in> opened m \<or> i = sm_nextStream m \<or> i = 0" if "i \<le> sm_nextStream m"
        using that True own by (auto simp: opened_def)
      moreover have "GetOrOpenStream cp i (m, fm) =
          (if i \<le> sm_nextStream m then Some (Inr None, m, fm) else Some (Inl InvalidStreamID, m, fm))"
        using none True by (simp add: GetOrOpenStream_def own_def [symmetric])
      ultimately show ?thesis using inv none by auto
    next
      case False
      then have remote: "i = 0 \<or> remote_id (sm_perspective m) i"
        using own by (auto simp: remote_id_def own_id_def split: if_splits)
      show ?thesis
      proof (cases "i \<le> sm_highestStreamOpenedByPeer m")
        case True
        then have "GetOrOpenStream cp i (m, fm) = Some (Inr None, m, fm)"
          using none False by (simp add: GetOrOpenStream_def own_def [symmetric])
        moreover have "i \<in> opened m \<or> i = 0" using remote True by (auto simp: opened_def)
        ultimately show ?thesis using inv none by auto
      next
        case new: False
        then have "i \<noteq> 0" by auto
        obtain e m' fm' where loop: "open_remote_loop cp i (next_remote m) (m, fm) = Some (e, m', fm')"
          and ok: "loop_ok cp i m e m'"
          using open_remote_loop_ok [OF inv] by blast
        have get: "GetOrOpenStream cp i (m, fm) =
            (case e of None \<Rightarrow> Some (Inr (sm_streams m' i), m', fm') | Some e \<Rightarrow> Some (Inl e, m', fm'))"
          using none False new loop
          by (simp add: GetOrOpenStream_def own_def [symmetric] next_remote_def Let_def split: option.splits)
        define N where "N = opened_upto i (sm_highestStreamOpenedByPeer m') m"
        have ok: "smap_inv m'" "sm_perspective m' = sm_perspective m" "sm_closeErr m' = sm_closeErr m"
          "sm_streams m' = (\<lambda>j. if j \<in> N then Some (newStream j) else sm_streams m j)"
          "opened m' = opened m \<union> N" "N \<inter> opened m = {}"
          "e = None \<Longrightarrow> (\<forall>j. remote_id (sm_perspective m) j \<and> j \<le> i \<longrightarrow> j \<in> opened m')"
          "e \<in> {None, Some TooManyOpenStreams, Some InvalidStreamID}"
          using ok by (auto simp: loop_ok_def Let_def N_def)
        have N: "j \<in> N \<Longrightarrow> remote_id (sm_perspective m) j \<and> j \<le> i \<and> j \<notin> opened m" for j
          using ok(6) by (auto simp: N_def opened_upto_def)
        have dom: "j \<in> dom (sm_streams m) \<Longrightarrow> j \<notin> N" for j using N d(4) by blast
        have "i \<in> N" if "e = None"
        proof -
          have "i \<in> opened m'" using ok(7) that remote \<open>i \<noteq> 0\<close> by blast
          moreover have "i \<notin> opened m"
            using new remote \<open>i \<noteq> 0\<close> ids_differ by (auto simp: opened_def)
          ultimately show ?thesis using ok(5) by blast
        qed
        then show ?thesis
          using get ok N dom by (cases e) (auto split: if_splits)
      qed
    qed
  qed
qed

subsection \<open>Removing, accepting and closing\<close>

lemma split_at_takeWhile:
  assumes "i \<in> set xs"
  shows "take (length (takeWhile (\<lambda>j. j \<noteq> i) xs)) xs @ drop (length (takeWhile (\<lambda>j. j \<noteq> i) xs) + 1) xs = remove1 i xs"
    "length (takeWhile (\<lambda>j. j \<noteq> i) xs) < length xs"
  using assms by (induction xs) auto

lemma unat_count_down:
  assumes "unat (n :: u32) = card A" "finite A" "i \<in> A"
  shows "unat (n - 1) = card (A - {i})"
proof -
  have "0 < unat n" using assms by (auto simp: card_gt_0_iff)
  then have "unat (n - 1) = unat n - 1" by (metis unat_0 less_irrefl unat_minus_one)
  then show ?thesis using assms by simp
qed

lemma sm_RemoveStream_ok:
  assumes inv: "smap_inv m" and run: "sm_RemoveStream i m = (e, m')"
  shows "smap_inv m' \<and> opened m' = opened m \<and> sm_perspective m' = sm_perspective m \<and> sm_closeErr m' = sm_closeErr m \<and>
    sm_streams m' = (sm_streams m)(i := None) \<and> (e = None \<longleftrightarrow> sm_streams m i \<noteq> None)"
proof (cases "sm_streams m i")
  case None
  then show ?thesis using run inv by (auto simp: sm_RemoveStream_def)
next
  case (Some s)
  note d = smap_invD [OF inv]
  have mem: "i \<in> set (sm_openStreams m)" using d(2) Some by blast
  have m': "e = None" "sm_streams m' = (sm_streams m)(i := None)" "sm_openStreams m' = remove1 i (sm_openStreams m)"
    "sm_perspective m' = sm_perspective m" "sm_nextStream m' = sm_nextStream m" "sm_closeErr m' = sm_closeErr m"
    "sm_highestStreamOpenedByPeer m' = sm_highestStreamOpenedByPeer m"
    "sm_numOutgoingStreams m' = (if even i then sm_numOutgoingStreams m - 1 else sm_numOutgoingStreams m)"
    "sm_numIncomingStreams m' = (if even i then sm_numIncomingStreams m else sm_numIncomingStreams m - 1)"
    using run Some split_at_takeWhile [OF mem]
    by (auto simp: sm_RemoveStream_def Let_def even_iff_mod_2_eq_zero split: if_splits)
  have op: "opened m' = opened m" by (simp add: opened_def m')
  have even: "unat (sm_numOutgoingStreams m') = card {j \<in> dom (sm_streams m'). even j}"
  proof -
    have "{j \<in> dom (sm_streams m'). even j} = (if even i then {j \<in> dom (sm_streams m). even j} - {i}
        else {j \<in> dom (sm_streams m). even j})" by (auto simp: m'(2))
    moreover have "even i \<Longrightarrow> i \<in> {j \<in> dom (sm_streams m). even j}" using Some by auto
    ultimately show ?thesis using unat_count_down [OF d(7), of i] d(7) by (simp add: m'(8))
  qed
  have odd: "unat (sm_numIncomingStreams m') = card {j \<in> dom (sm_streams m'). odd j}"
  proof -
    have "{j \<in> dom (sm_streams m'). odd j} = (if odd i then {j \<in> dom (sm_streams m). odd j} - {i}
        else {j \<in> dom (sm_streams m). odd j})" by (auto simp: m'(2))
    moreover have "odd i \<Longrightarrow> i \<in> {j \<in> dom (sm_streams m). odd j}" using Some by auto
    ultimately show ?thesis using unat_count_down [OF d(8), of i] d(8) by (simp add: m'(9))
  qed
  have less: "unat (sm_numIncomingStreams m') \<le> unat (sm_numIncomingStreams m)"
    unfolding odd d(8) by (intro card_mono) (auto simp: m'(2))
  have "smap_inv m'"
    using d(1-6,9) even odd op less unfolding smap_inv_def by (auto simp: m'(2-7) distinct_remove1 set_remove1_eq)
  then show ?thesis using m' op Some by simp
qed

text \<open>A change that leaves identifiers and counters alone.\<close>

lemma smap_inv_cong:
  assumes "smap_inv m" "sm_openStreams m' = sm_openStreams m" "dom (sm_streams m') = dom (sm_streams m)"
    "\<And>i s. sm_streams m' i = Some s \<Longrightarrow> st_streamID s = i"
    "sm_perspective m' = sm_perspective m" "sm_nextStream m' = sm_nextStream m"
    "sm_highestStreamOpenedByPeer m' = sm_highestStreamOpenedByPeer m"
    "sm_numOutgoingStreams m' = sm_numOutgoingStreams m" "sm_numIncomingStreams m' = sm_numIncomingStreams m"
  shows "smap_inv m' \<and> opened m' = opened m"
proof -
  have "opened m' = opened m" by (simp add: opened_def assms(5-7))
  then show ?thesis
    using smap_invD [OF assms(1)] assms(4) unfolding smap_inv_def assms(2,3,5-9) by blast
qed

lemma smap_inv_update:
  assumes inv: "smap_inv m" and s: "sm_streams m i = Some s" "st_streamID s' = st_streamID s"
  shows "smap_inv (m\<lparr>sm_streams := (sm_streams m)(i \<mapsto> s')\<rparr>) \<and> opened (m\<lparr>sm_streams := (sm_streams m)(i \<mapsto> s')\<rparr>) = opened m"
  using s smap_invD(3) [OF inv] by (intro smap_inv_cong [OF inv]) (auto split: if_splits)

lemma cancel_streams_ok:
  assumes "set js \<subseteq> dom ss"
  shows "\<exists>ss'. cancel_streams err js ss = Inr ss' \<and> dom ss' = dom ss \<and>
    (\<forall>i s'. ss' i = Some s' \<longrightarrow> (\<exists>s. ss i = Some s \<and> st_streamID s' = st_streamID s)) \<and>
    (\<forall>i\<in>set js. \<exists>s'. ss' i = Some s' \<and> st_cancelled s') \<and>
    (\<forall>i s. ss i = Some s \<and> st_cancelled s \<longrightarrow> (\<exists>s'. ss' i = Some s' \<and> st_cancelled s'))"
  using assms
proof (induction js arbitrary: ss)
  case (Cons i js)
  then obtain s where s: "ss i = Some s" by auto
  define ss1 where "ss1 = ss(i \<mapsto> stream_Cancel err s)"
  have c: "st_streamID (stream_Cancel err s) = st_streamID s" "st_cancelled (stream_Cancel err s)"
    by (simp_all add: stream_Cancel_def signalRead_def signalWrite_def Let_def)
  have "dom ss1 = dom ss" using s by (auto simp: ss1_def)
  then have "set js \<subseteq> dom ss1" using Cons.prems by simp
  from Cons.IH [OF this] obtain ss' where ss': "cancel_streams err js ss1 = Inr ss'" "dom ss' = dom ss1"
    "\<forall>i s'. ss' i = Some s' \<longrightarrow> (\<exists>s. ss1 i = Some s \<and> st_streamID s' = st_streamID s)"
    "\<forall>i\<in>set js. \<exists>s'. ss' i = Some s' \<and> st_cancelled s'"
    "\<forall>i s. ss1 i = Some s \<and> st_cancelled s \<longrightarrow> (\<exists>s'. ss' i = Some s' \<and> st_cancelled s')" by blast
  have "ss1 i = Some (stream_Cancel err s)" by (simp add: ss1_def)
  moreover have "\<exists>s0. ss j = Some s0 \<and> st_streamID s1 = st_streamID s0" if "ss1 j = Some s1" for j s1
    using that s c(1) by (auto simp: ss1_def split: if_splits)
  moreover have "\<exists>s1. ss1 j = Some s1 \<and> st_cancelled s1" if "ss j = Some s0" "st_cancelled s0" for j s0
    using that s c(2) by (auto simp: ss1_def)
  ultimately show ?case
    using ss' s c(2) \<open>dom ss1 = dom ss\<close>
    by (intro exI [of _ ss'] conjI) (simp_all add: ss1_def [symmetric], metis+)
qed simp

lemma CloseWithError_ok:
  assumes inv: "smap_inv m"
  shows "\<exists>m'. CloseWithError err m = Inr m' \<and> smap_inv m' \<and> opened m' = opened m \<and> sm_perspective m' = sm_perspective m \<and>
    sm_closeErr m' = err \<and> dom (sm_streams m') = dom (sm_streams m) \<and>
    (\<forall>i s. sm_streams m' i = Some s \<longrightarrow> st_cancelled s)"
proof -
  note d = smap_invD [OF inv]
  obtain ss where ss: "cancel_streams err (sm_openStreams m) (sm_streams m) = Inr ss" "dom ss = dom (sm_streams m)"
    "\<forall>i s'. ss i = Some s' \<longrightarrow> (\<exists>s. sm_streams m i = Some s \<and> st_streamID s' = st_streamID s)"
    "\<forall>i\<in>dom (sm_streams m). \<exists>s'. ss i = Some s' \<and> st_cancelled s'"
    using cancel_streams_ok [of "sm_openStreams m" "sm_streams m" err] d(2) by auto
  define m' where "m' = m\<lparr>sm_closeErr := err, sm_streams := ss\<rparr>"
  have "smap_inv m' \<and> opened m' = opened m"
    using ss(2,3) d(3) by (intro smap_inv_cong [OF inv]) (simp_all add: m'_def, metis)
  moreover have "st_cancelled s" if "ss i = Some s" for i s
    using ss(2,4) that by (metis domI option.inject)
  ultimately show ?thesis using ss(1,2) by (intro exI [of _ m']) (simp add: CloseWithError_def m'_def)
qed

subsection \<open>Visiting the streams\<close>

text \<open>A visit that changes nothing in the map but the stream it is given.\<close>

definition content_only :: "'a streamLambda \<Rightarrow> bool" where
  "content_only fn \<longleftrightarrow> (\<forall>s m a r m' a'. sm_streams m (st_streamID s) = Some s \<longrightarrow> fn s (m, a) = (r, m', a') \<longrightarrow>
     (\<exists>s'. st_streamID s' = st_streamID s \<and> m' = m\<lparr>sm_streams := (sm_streams m)(st_streamID s \<mapsto> s')\<rparr>))"

text \<open>What every visit keeps, a round robin keeps.\<close>

lemma priority_loop_keeps:
  assumes fn: "\<And>i s m a r m' a'. P (m, a) \<Longrightarrow> sm_streams m i = Some s \<Longrightarrow> fn s (m, a) = (r, m', a') \<Longrightarrow> P (m', a')"
    and start: "P ma"
  shows "P (snd (priority_loop fn js ma))"
  using start
proof (induction js arbitrary: ma)
  case (Cons i js)
  obtain cont err ma1 where v: "iterateFunc i fn ma = ((cont, err), ma1)" by (metis prod.exhaust)
  have "P ma1"
    using v Cons.prems fn by (cases ma; cases ma1) (auto simp: iterateFunc_def split: option.splits)
  then show ?case using Cons.IH v by simp
qed simp

lemma round_robin_loop_keeps:
  assumes fn: "\<And>i s m a r m' a'. P (m, a) \<Longrightarrow> sm_streams m i = Some s \<Longrightarrow> fn s (m, a) = (r, m', a') \<Longrightarrow> P (m', a')"
    and idx: "\<And>m a k. P (m, a) \<Longrightarrow> P (m\<lparr>sm_roundRobinIndex := k\<rparr>, a)"
    and start: "P ma"
  shows "P (snd (round_robin_loop fn n st k j ma))"
  using start
proof (induction k arbitrary: j ma)
  case (Suc k)
  define i where "i = sm_openStreams (fst ma) ! unat ((j + st) mod n)"
  obtain cont err m1 a1 where v: "iterateFunc i fn ma = ((cont, err), m1, a1)" by (metis prod.exhaust)
  have "P (m1, a1)"
    using v Suc.prems fn by (cases ma) (auto simp: iterateFunc_def split: option.splits)
  then show ?case
    using Suc v idx by (auto simp: Let_def i_def [symmetric] split: option.splits)
qed simp

lemma RoundRobinIterate_keeps:
  assumes fn: "\<And>i s m a r m' a'. P (m, a) \<Longrightarrow> sm_streams m i = Some s \<Longrightarrow> fn s (m, a) = (r, m', a') \<Longrightarrow> P (m', a')"
    and idx: "\<And>m a k. P (m, a) \<Longrightarrow> P (m\<lparr>sm_roundRobinIndex := k\<rparr>, a)"
    and start: "P ma"
  shows "P (snd (RoundRobinIterate fn ma))"
proof -
  obtain b e ma1 where p: "priority_loop fn [1, 3] ma = ((b, e), ma1)" by (metis prod.exhaust)
  then have "P ma1" using priority_loop_keeps [of P fn ma "[1, 3]", OF fn start] by simp
  then show ?thesis
    using p round_robin_loop_keeps [of P fn ma1, OF fn idx]
    by (cases b) (simp_all add: RoundRobinIterate_def Let_def)
qed

lemma iterate_loop_keeps:
  assumes fn: "\<And>i s m a r m' a'. P (m, a) \<Longrightarrow> sm_streams m i = Some s \<Longrightarrow> fn s (m, a) = (r, m', a') \<Longrightarrow> P (m', a')"
    and start: "P ma"
  shows "P (snd (iterate_loop fn js ma))"
  using start
proof (induction js arbitrary: ma)
  case (Cons i js)
  obtain cont err ma1 where v: "iterateFunc i fn ma = ((cont, err), ma1)" by (metis prod.exhaust)
  have "P ma1"
    using v Cons.prems fn by (cases ma; cases ma1) (auto simp: iterateFunc_def split: option.splits)
  then show ?case using Cons.IH v by (auto split: option.splits)
qed simp

lemma content_only_keeps:
  assumes "content_only fn" "smap_inv m" "sm_streams m i = Some s" "fn s (m, a) = (r, m', a')"
  shows "smap_inv m' \<and> opened m' = opened m \<and> sm_perspective m' = sm_perspective m \<and> dom (sm_streams m') = dom (sm_streams m) \<and>
    sm_openStreams m' = sm_openStreams m"
proof -
  have i: "st_streamID s = i" using smap_invD(3) [OF assms(2,3)] .
  then obtain s' where "st_streamID s' = st_streamID s" "m' = m\<lparr>sm_streams := (sm_streams m)(i \<mapsto> s')\<rparr>"
    using assms(1,3,4) unfolding content_only_def by metis
  then show ?thesis using smap_inv_update [OF assms(2,3)] assms(3) by auto
qed

lemma RoundRobinIterate_inv:
  assumes fn: "content_only fn" and inv: "smap_inv m" and run: "RoundRobinIterate fn (m, a) = (e, m', a')"
  shows "smap_inv m' \<and> opened m' = opened m \<and> sm_perspective m' = sm_perspective m \<and> dom (sm_streams m') = dom (sm_streams m) \<and>
    sm_openStreams m' = sm_openStreams m"
proof -
  define P where "P = (\<lambda>(m', a' :: 'a). smap_inv m' \<and> opened m' = opened m \<and> sm_perspective m' = sm_perspective m \<and>
    dom (sm_streams m') = dom (sm_streams m) \<and> sm_openStreams m' = sm_openStreams m)"
  have idx: "smap_inv (m1\<lparr>sm_roundRobinIndex := k\<rparr>) \<and> opened (m1\<lparr>sm_roundRobinIndex := k\<rparr>) = opened m1"
    if "smap_inv m1" for m1 k
    using smap_invD(3) [OF that] by (intro smap_inv_cong [OF that]) auto
  have "P (snd (RoundRobinIterate fn (m, a)))"
  proof (rule RoundRobinIterate_keeps)
    show "P (m, a)" using inv by (simp add: P_def)
    show "P (m1\<lparr>sm_roundRobinIndex := k\<rparr>, a1)" if "P (m1, a1)" for m1 a1 k
      using that idx by (simp add: P_def)
    show "P (m2, a2)" if "P (m1, a1)" "sm_streams m1 i = Some s" "fn s (m1, a1) = (r, m2, a2)" for i s m1 a1 r m2 a2
      using content_only_keeps [OF fn _ that(2,3)] that(1) by (auto simp: P_def)
  qed
  then show ?thesis by (simp add: run P_def)
qed

lemma garbageCollectStreams_inv:
  assumes "smap_inv m"
  shows "smap_inv (fst (garbageCollectStreams (m, fm)))"
proof -
  have "(\<lambda>(m', a' :: flowControlManager). smap_inv m') (snd (iterate_loop garbage_visit (sm_openStreams m) (m, fm)))"
  proof (rule iterate_loop_keeps)
    show "case (m2, a2) of (m', a') \<Rightarrow> smap_inv m'"
      if "case (m1, a1) of (m', a') \<Rightarrow> smap_inv m'" "garbage_visit s (m1, a1) = (r, m2, a2)" for s m1 a1 r m2 a2
      using that sm_RemoveStream_ok [of m1 "st_streamID s"]
      by (auto simp: garbage_visit_def Let_def split: if_splits prod.splits option.splits)
  qed (use assms in simp)
  then show ?thesis by (simp add: garbageCollectStreams_def Iterate_def split_beta)
qed

subsection \<open>Runs of the stream map\<close>

text \<open>
  \<open>sm_run p m\<close>: the session with perspective \<open>p\<close> may have the map \<open>m\<close>, whatever the application and the
  peer do. \<open>OpenStream\<close> is called less than 2^31 times, before its identifiers wrap around.
\<close>

inductive sm_run :: "Perspective \<Rightarrow> streamsMap \<Rightarrow> bool" for p where
  start: "sm_run p (newStreamsMap p)"
| own: "\<lbrakk> sm_run p m; unat (sm_nextStream m) + 2 < 2 ^ 32; OpenStream cp (m, fm) = (r, m', fm') \<rbrakk> \<Longrightarrow> sm_run p m'"
| remote: "\<lbrakk> sm_run p m; GetOrOpenStream cp i (m, fm) = Some (r, m', fm') \<rbrakk> \<Longrightarrow> sm_run p m'"
| accept: "\<lbrakk> sm_run p m; AcceptStream m = (r, m') \<rbrakk> \<Longrightarrow> sm_run p m'"
| remove: "\<lbrakk> sm_run p m; sm_RemoveStream i m = (e, m') \<rbrakk> \<Longrightarrow> sm_run p m'"
| content: "\<lbrakk> sm_run p m; sm_streams m i = Some s; st_streamID s' = st_streamID s \<rbrakk> \<Longrightarrow>
    sm_run p (m\<lparr>sm_streams := (sm_streams m)(i \<mapsto> s')\<rparr>)"
| visit: "\<lbrakk> sm_run p m; content_only (fn :: nat streamLambda); RoundRobinIterate fn (m, a) = (e, m', a') \<rbrakk> \<Longrightarrow> sm_run p m'"
| close: "\<lbrakk> sm_run p m; CloseWithError err m = Inr m' \<rbrakk> \<Longrightarrow> sm_run p m'"

lemma OpenStream_ok:
  assumes "smap_inv m" "unat (sm_nextStream m) + 2 < 2 ^ 32" "OpenStream cp (m, fm) = (r, m', fm')"
  shows "smap_inv m' \<and> sm_perspective m' = sm_perspective m"
proof (cases "sm_closeErr m")
  case None
  then have "openStreamImpl cp (m, fm) = (r, m', fm')" using assms(3) by (simp add: OpenStream_def)
  from openStreamImpl_ok [OF assms(1,2) this] show ?thesis using assms(1) by (cases r) simp_all
qed (use assms in \<open>auto simp: OpenStream_def\<close>)

lemma sm_run_inv: "sm_run p m \<Longrightarrow> smap_inv m \<and> sm_perspective m = p"
proof (induction rule: sm_run.induct)
  case start
  show ?case using smap_inv_new by (simp add: newStreamsMap_def)
next
  case (own m cp fm r m' fm')
  then show ?case using OpenStream_ok by blast
next
  case (remote m cp i fm r m' fm')
  then show ?case using GetOrOpenStream_ok [of m cp i fm] by auto
next
  case (accept m r m')
  then have "m' = m \<or> m' = m\<lparr>sm_nextStreamToAccept := sm_nextStreamToAccept m + 2\<rparr>"
    by (auto simp: AcceptStream_def split: option.splits)
  then show ?case using accept.IH smap_inv_cong [of m m'] smap_invD(3) [of m] by fastforce
next
  case (remove m i e m')
  then show ?case using sm_RemoveStream_ok by blast
next
  case (content m i s s')
  then show ?case using smap_inv_update by simp
next
  case (visit m fn a e m' a')
  then show ?case using RoundRobinIterate_inv [OF visit.hyps(2) _ visit.hyps(3)] by simp
next
  case (close m err m')
  then show ?case using CloseWithError_ok [of m err] by auto
qed

text \<open>
  C18. The map of streams. After any run the identifiers in the order of the round robin are the streams
  that are open, each once and each stored under its own identifier, and at a server at most
  \<open>GetMaxIncomingStreams\<close> streams of the client are open at once. \<open>GetOrOpenStream\<close> returns for every
  identifier. It leaves the open streams alone and opens only identifiers of the peer's parity, up to the one asked for,
  that were never opened before. It returns the stream, or \<open>nil\<close> when it was opened and closed before
  (or is the next stream to be opened here), or the error for an identifier the peer must not use or for too many
  streams.
\<close>
theorem streams_map_sound:
  assumes "sm_run p m"
  shows "distinct (sm_openStreams m) \<and> set (sm_openStreams m) = dom (sm_streams m) \<and>
    (\<forall>i s. sm_streams m i = Some s \<longrightarrow> st_streamID s = i \<and> i \<noteq> 0) \<and>
    (p = PerspectiveServer \<longrightarrow> card {i \<in> dom (sm_streams m). odd i} \<le> unat (GetMaxIncomingStreams cp)) \<and>
    (\<exists>r m' fm'. GetOrOpenStream cp i (m, fm) = Some (r, m', fm') \<and>
       (\<forall>j\<in>dom (sm_streams m). sm_streams m' j = sm_streams m j) \<and>
       (\<forall>j\<in>dom (sm_streams m') - dom (sm_streams m).
          j \<notin> opened m \<and> remote_id p j \<and> j \<le> i \<and> sm_streams m' j = Some (newStream j)) \<and>
       (case r of
          Inl e \<Rightarrow> e = InvalidStreamID \<or> e = TooManyOpenStreams
        | Inr None \<Rightarrow> m' = m \<and> sm_streams m i = None \<and> (i \<in> opened m \<or> i = sm_nextStream m \<or> i = 0)
        | Inr (Some s) \<Rightarrow> sm_streams m' i = Some s \<and> (sm_streams m i = None \<longrightarrow> s = newStream i)))"
proof -
  have inv: "smap_inv m" and p: "sm_perspective m = p" using sm_run_inv [OF assms] by simp_all
  note d = smap_invD [OF inv]
  have "i \<noteq> 0" if "i \<in> dom (sm_streams m)" for i
    using that d(4) by (auto simp: opened_def remote_id_def own_id_def)
  moreover have "p = PerspectiveServer \<longrightarrow> card {i \<in> dom (sm_streams m). odd i} \<le> unat (GetMaxIncomingStreams cp)"
    using d(8,9) p by (simp add: GetMaxIncoming)
  moreover obtain r m' fm' where g: "GetOrOpenStream cp i (m, fm) = Some (r, m', fm')"
    "\<forall>j\<in>dom (sm_streams m). sm_streams m' j = sm_streams m j"
    "\<forall>j\<in>dom (sm_streams m') - dom (sm_streams m).
       j \<notin> opened m \<and> remote_id p j \<and> j \<le> i \<and> sm_streams m' j = Some (newStream j)"
    and r: "case r of
       Inl e \<Rightarrow> e = InvalidStreamID \<or> e = TooManyOpenStreams
     | Inr None \<Rightarrow> m' = m \<and> sm_streams m i = None \<and> (i \<in> opened m \<or> i = sm_nextStream m \<or> i = 0)
     | Inr (Some s) \<Rightarrow> sm_streams m' i = Some s \<and> i \<in> opened m' \<and> (sm_streams m i = None \<longrightarrow> s = newStream i)"
    using GetOrOpenStream_ok [OF inv, of cp i fm] unfolding p by blast
  moreover have "case r of
       Inl e \<Rightarrow> e = InvalidStreamID \<or> e = TooManyOpenStreams
     | Inr None \<Rightarrow> m' = m \<and> sm_streams m i = None \<and> (i \<in> opened m \<or> i = sm_nextStream m \<or> i = 0)
     | Inr (Some s) \<Rightarrow> sm_streams m' i = Some s \<and> (sm_streams m i = None \<longrightarrow> s = newStream i)"
    using r by (simp split: sum.splits option.splits)
  ultimately show ?thesis using d(1-3) by blast
qed

lemma streams_map_sound_witness:
  "\<exists>r m' fm'. GetOrOpenStream (NewConnectionParamatersManager PerspectiveServer 39 65536 65536 30) 5
      (newStreamsMap PerspectiveServer, NewFlowControlManager (NewConnectionParamatersManager PerspectiveServer 39 65536 65536 30))
      = Some (r, m', fm') \<and>
    (case r of
       Inl e \<Rightarrow> e = InvalidStreamID \<or> e = TooManyOpenStreams
     | Inr None \<Rightarrow> m' = newStreamsMap PerspectiveServer
     | Inr (Some s) \<Rightarrow> sm_streams m' 5 = Some s \<and> s = newStream 5)"
proof -
  let ?cp = "NewConnectionParamatersManager PerspectiveServer 39 65536 65536 30"
  have "sm_streams (newStreamsMap PerspectiveServer) 5 = None" by (simp add: newStreamsMap_def)
  with streams_map_sound [OF sm_run.start [of PerspectiveServer], of ?cp 5 "NewFlowControlManager ?cp"]
  show ?thesis by (elim conjE exE) (intro exI conjI, assumption, simp split: sum.splits option.splits)
qed

subsection \<open>The limits of a client\<close>

text \<open>At a client the loop stops with an error only when 110 streams that the client opened itself are open.\<close>

lemma client_loop:
  assumes "smap_inv m" "sm_perspective m = PerspectiveClient" "unat i + 400 < 2 ^ 32"
    "unat (sm_numIncomingStreams m) < 110" "sm_highestStreamOpenedByPeer m \<le> i"
  shows "\<exists>m' fm'. open_remote_loop cp i (next_remote m) (m, fm) = Some (None, m', fm')"
  using assms
proof (induction "unat i - unat (sm_highestStreamOpenedByPeer m)" arbitrary: m fm rule: less_induct)
  case less
  let ?h = "sm_highestStreamOpenedByPeer m"
  show ?case
  proof (cases "next_remote m \<le> i")
    case False
    then show ?thesis by (subst open_remote_loop.simps) simp
  next
    case True
    have nr: "next_remote m = ?h + 2" using less.prems(2) by (simp add: next_remote_def)
    have room: "unat ?h + 2 < 2 ^ 32" using less.prems(3,5) by (simp add: word_le_nat_alt)
    show ?thesis
    proof -
      have u: "unat (next_remote m) = unat ?h + 2" using room nr by (simp add: unat_word_ariths)
      then have "unat (next_remote m + MaxNewStreamIDDelta) = unat ?h + 402"
        using True less.prems(3)
        by (simp add: unat_word_ariths MaxNewStreamIDDelta_def MaxStreamsPerConnection_def word_le_nat_alt)
      then have far: "\<not> next_remote m + MaxNewStreamIDDelta < ?h" by (simp add: word_less_nat_alt)
      obtain r m1 fm1 where run: "openRemoteStream cp (next_remote m) (m, fm) = (r, m1, fm1)" by (metis prod_cases3)
      have "\<not> sm_numIncomingStreams m \<ge> GetMaxIncomingStreams cp"
        using less.prems(4) by (simp add: GetMaxIncoming word_le_nat_alt)
      then have r: "r = None" "sm_numIncomingStreams m1 = sm_numIncomingStreams m"
        using run far less.prems(2)
        by (auto simp: openRemoteStream_def Let_def session_newStream_def putStream_def split: if_splits)
      have m1: "smap_inv m1" "sm_perspective m1 = PerspectiveClient" "sm_highestStreamOpenedByPeer m1 = next_remote m"
        using openRemoteStream_ok [OF less.prems(1) room run] r(1) less.prems(2) by simp_all
      have "unat i - unat (sm_highestStreamOpenedByPeer m1) < unat i - unat ?h"
        using m1(3) u True by (simp add: word_le_nat_alt)
      from less.hyps [OF this m1(1,2) less.prems(3), of fm1] less.prems(4) r(2) m1(3) True
      obtain m' fm' where "open_remote_loop cp i (next_remote m1) (m1, fm1) = Some (None, m', fm')" by auto
      moreover have "next_remote m1 = next_remote m + 2" using m1(2,3) by (simp add: next_remote_def)
      ultimately show ?thesis using True run r(1) by (subst open_remote_loop.simps) simp
    qed
  qed
qed

lemma client_OpenStream:
  assumes "smap_inv m" "sm_perspective m = PerspectiveClient" "sm_closeErr m = None"
    and "\<And>j. even j \<Longrightarrow> sm_streams m j = None" "0 < GetMaxOutgoingStreams cp"
  shows "\<exists>mf. OpenStream cp (m, fm) = (Inr (newStream (sm_nextStream m)), mf)"
proof -
  have "j \<notin> dom (sm_streams m)" if "even j" for j using assms(4) [OF that] by (simp only: domIff not_not)
  then have "{j \<in> dom (sm_streams m). even j} = {}" by blast
  then have "unat (sm_numOutgoingStreams m) = 0" using smap_invD(7) [OF assms(1)] card.empty by metis
  then have "sm_numOutgoingStreams m = 0" by (simp add: unat_eq_0)
  then have "\<not> GetMaxOutgoingStreams cp \<le> sm_numOutgoingStreams m" using assms(5) by (simp only: not_le)
  then show ?thesis using assms(3) by (simp add: OpenStream_def openStreamImpl_def session_newStream_def)
qed

lemma client_GetOrOpenStream:
  assumes inv: "smap_inv m" and p: "sm_perspective m = PerspectiveClient"
    and few: "card {j \<in> dom (sm_streams m). odd j} < 110"
    and i: "even i" "sm_highestStreamOpenedByPeer m < i" "unat i + 400 < 2 ^ 32"
  shows "\<exists>m' fm'. GetOrOpenStream cp i (m, fm) = Some (Inr (Some (newStream i)), m', fm') \<and>
    (\<forall>j. even j \<and> sm_highestStreamOpenedByPeer m < j \<and> j \<le> i \<longrightarrow> sm_streams m' j = Some (newStream j))"
proof -
  have "unat (sm_numIncomingStreams m) < 110" using few smap_invD(8) [OF inv] by metis
  from client_loop [OF inv p i(3) this less_imp_le [OF i(2)], of cp fm]
  obtain m' fm' where loop: "open_remote_loop cp i (next_remote m) (m, fm) = Some (None, m', fm')" by blast
  then have ok: "loop_ok cp i m None m'" using open_remote_loop_ok [OF inv, of cp i fm] by auto
  have r: "remote_id (sm_perspective m) j" if "even j" "sm_highestStreamOpenedByPeer m < j" for j
    using that by (auto simp: remote_id_def p)
  have new: "sm_streams m' j = Some (newStream j)" if "even j" "sm_highestStreamOpenedByPeer m < j" "j \<le> i" for j
    using loop_okD [OF ok r [OF that(1,2)] that(2,3)] .
  have none: "sm_streams m i = None" using smap_invD(4) [OF inv] remote_new [OF r [OF i(1,2)] i(2)] by blast
  have own: "\<not> i mod 2 = 1" using i(1) by (simp add: even_iff_mod_2_eq_zero)
  have "\<not> i \<le> sm_highestStreamOpenedByPeer m" using i(2) by simp
  then have "GetOrOpenStream cp i (m, fm) = Some (Inr (sm_streams m' i), m', fm')"
    using loop none own by (simp add: GetOrOpenStream_def Let_def p next_remote_def)
  then show ?thesis using new [OF i(1,2) order_refl] new by auto
qed

text \<open>
  A client does not limit streams as it means to. Its counters are swapped: the streams it opens are
  counted as incoming and those of the server as outgoing. So, first, while no stream of the server is
  open, \<open>OpenStream\<close> succeeds however many streams the client has open and whatever limit the server
  has set; second, while the client has less than 110 streams open itself, a frame of the server for a new stream
  \<open>i\<close> makes the client open all even identifiers up to \<open>i\<close>, two thousand million of them for the largest ones.
\<close>
theorem client_limits_ignored:
  assumes "sm_run PerspectiveClient m" "sm_closeErr m = None"
  shows "((\<forall>j. even j \<longrightarrow> sm_streams m j = None) \<and> 0 < GetMaxOutgoingStreams cp \<longrightarrow>
      (\<exists>mf. OpenStream cp (m, fm) = (Inr (newStream (sm_nextStream m)), mf))) \<and>
    (card {j \<in> dom (sm_streams m). odd j} < 110 \<and> even i \<and> sm_highestStreamOpenedByPeer m < i \<and> unat i + 400 < 2 ^ 32 \<longrightarrow>
      (\<exists>m' fm'. GetOrOpenStream cp i (m, fm) = Some (Inr (Some (newStream i)), m', fm') \<and>
        (\<forall>j. even j \<and> sm_highestStreamOpenedByPeer m < j \<and> j \<le> i \<longrightarrow> sm_streams m' j = Some (newStream j))))"
proof -
  have inv: "smap_inv m" and p: "sm_perspective m = PerspectiveClient" using sm_run_inv [OF assms(1)] by simp_all
  show ?thesis
    using client_OpenStream [OF inv p assms(2), of cp fm] client_GetOrOpenStream [OF inv p, of i cp fm]
    by (intro conjI impI; elim conjE; blast)
qed

lemma client_limits_ignored_witness:
  "\<exists>m' fm'. GetOrOpenStream (NewConnectionParamatersManager PerspectiveClient 39 65536 65536 30) 4000000000
      (newStreamsMap PerspectiveClient, NewFlowControlManager (NewConnectionParamatersManager PerspectiveClient 39 65536 65536 30))
      = Some (Inr (Some (newStream 4000000000)), m', fm') \<and>
    (\<forall>j. even j \<and> 0 < j \<and> j \<le> 4000000000 \<longrightarrow> sm_streams m' j = Some (newStream j))"
proof -
  let ?cp = "NewConnectionParamatersManager PerspectiveClient 39 65536 65536 30"
  have new: "sm_highestStreamOpenedByPeer (newStreamsMap PerspectiveClient) = 0"
    "sm_closeErr (newStreamsMap PerspectiveClient) = None"
    "{j \<in> dom (sm_streams (newStreamsMap PerspectiveClient)). odd j} = {}" by (simp_all add: newStreamsMap_def)
  from client_limits_ignored [OF sm_run.start new(2), of ?cp "NewFlowControlManager ?cp" 4000000000]
  show ?thesis unfolding new by simp
qed

subsection \<open>The turns of the round robin\<close>

text \<open>
  A visit that fills a packet: it notes the stream and stops, except for the crypto and the header stream, which have
  nothing to send.
\<close>

definition serve :: "StreamID list streamLambda" where
  "serve s mlog =
     (if st_streamID s = 1 \<or> st_streamID s = 3 then ((True, None), mlog)
      else ((False, None), fst mlog, snd mlog @ [st_streamID s]))"

lemma unat_rr_index:
  assumes "j + k < 2 ^ 32" "n < 2 ^ 32"
  shows "unat ((of_nat j + of_nat k) mod of_nat n :: u32) = (j + k) mod n"
proof -
  have "unat (of_nat (j + k) :: u32) = j + k" "unat (of_nat n :: u32) = n"
    using assms by (simp_all add: unsigned_of_nat take_bit_nat_eq_self del: of_nat_add)
  then show ?thesis by (simp add: unat_mod flip: of_nat_add)
qed

text \<open>The loop serves the first stream with data at or behind its start.\<close>

lemma round_robin_serve:
  assumes inv: "smap_inv m" and n: "length (sm_openStreams m) = n" "n < 2 ^ 31" "j + k < 2 ^ 31"
    and data: "i \<noteq> 1" "i \<noteq> 3" "sm_openStreams m ! ((j + k + d) mod n) = i" "j + k + d < 2 ^ 31" "d < r" "0 < n"
    and skip: "\<And>e. e < d \<Longrightarrow> sm_openStreams m ! ((j + k + e) mod n) \<in> {1, 3}"
  shows "round_robin_loop serve (of_nat n) (of_nat k) r (of_nat j) (m, log) =
    (None, m\<lparr>sm_roundRobinIndex := (sm_roundRobinIndex m + 1) mod of_nat n\<rparr>, log @ [i])"
  using n(3) data(3-5) skip
proof (induction d arbitrary: j r)
  case 0
  then obtain r' where r: "r = Suc r'" by (cases r) auto
  have x: "unat ((of_nat j + of_nat k) mod of_nat n :: u32) = (j + k) mod n"
    using 0(1) n(2) by (intro unat_rr_index) simp_all
  have lt: "(j + k) mod n < length (sm_openStreams m)" using data(6) n(1) by simp
  then have "i \<in> dom (sm_streams m)" using 0(2) smap_invD(2) [OF inv] nth_mem by fastforce
  then obtain s where s: "sm_streams m i = Some s" "st_streamID s = i" using smap_invD(3) [OF inv] by blast
  then show ?case
    using x lt 0(2) data(1,2) by (simp add: r Let_def iterateFunc_def serve_def not_le)
next
  case (Suc d)
  then obtain r' where r: "r = Suc r'" by (cases r) auto
  have x: "unat ((of_nat j + of_nat k) mod of_nat n :: u32) = (j + k) mod n"
    using Suc.prems(1) n(2) by (intro unat_rr_index) simp_all
  have lt: "(j + k) mod n < length (sm_openStreams m)" using data(6) n(1) by simp
  have one: "sm_openStreams m ! ((j + k) mod n) \<in> {1, 3}" using Suc.prems(5) [of 0] by simp
  have "round_robin_loop serve (of_nat n) (of_nat k) r' (of_nat (Suc j)) (m, log) =
      (None, m\<lparr>sm_roundRobinIndex := (sm_roundRobinIndex m + 1) mod of_nat n\<rparr>, log @ [i])"
  proof (rule Suc.IH)
    show "Suc j + k < 2 ^ 31" "Suc j + k + d < 2 ^ 31" "d < r'" using Suc.prems(3,4) r by simp_all
    show "sm_openStreams m ! ((Suc j + k + d) mod n) = i" using Suc.prems(2) by simp
    show "sm_openStreams m ! ((Suc j + k + e) mod n) \<in> {1, 3}" if "e < d" for e
      using Suc.prems(5) [of "Suc e"] that by simp
  qed
  then show ?case using x lt one by (auto simp: r Let_def add.commute)
qed

definition turn :: "StreamID list \<Rightarrow> nat \<Rightarrow> StreamID" where
  "turn rest k = (if k < 2 then hd rest else rest ! (k - 2))"

lemma round_robin_call:
  assumes inv: "smap_inv m" and xs: "sm_openStreams m = 1 # 3 # rest" "rest \<noteq> []" "length rest < 2 ^ 30"
    and k: "sm_roundRobinIndex m = of_nat k" "k < length rest + 2"
  shows "RoundRobinIterate serve (m, log) =
    (None, m\<lparr>sm_roundRobinIndex := of_nat ((k + 1) mod (length rest + 2))\<rparr>, log @ [turn rest k])"
proof -
  let ?n = "length rest + 2"
  note d = smap_invD [OF inv]
  have len: "length (sm_openStreams m) = ?n" by (simp add: xs(1))
  have card: "card (dom (sm_streams m)) = ?n" using d(1,2) len by (metis distinct_card)
  have small: "unat (of_nat x :: u32) = x" if "x < 2 ^ 31" for x
    using that by (simp add: unsigned_of_nat take_bit_nat_eq_self)
  have un: "unat (of_nat ?n :: u32) = ?n" using xs(3) by (intro small) simp
  have "1 \<in> dom (sm_streams m)" "3 \<in> dom (sm_streams m)" using d(2) by (auto simp: xs(1))
  then obtain s1 s3 where s: "sm_streams m 1 = Some s1" "sm_streams m 3 = Some s3" by blast
  then have "st_streamID s1 = 1" "st_streamID s3 = 3" using d(3) by blast+
  then have p: "priority_loop serve [1, 3] (m, log) = ((False, None), m, log)"
    using s by (simp add: iterateFunc_def serve_def)
  define e where "e = (if k < 2 then 2 - k else 0)"
  have "0 < length rest" using xs(2) by simp
  then have e: "e \<le> 2" "e < ?n" unfolding e_def by (simp_all, linarith)
  have ne: "1 \<notin> set rest" "3 \<notin> set rest" using d(1) by (simp_all add: xs(1))
  have i: "turn rest k \<in> set rest" using xs(2) k(2) by (auto simp: turn_def)
  have "0 + k + e < ?n" using k(2) xs(2) by (auto simp: e_def)
  then have "sm_openStreams m ! ((0 + k + e) mod ?n) = turn rest k"
    using k(2) xs(2) by (auto simp: xs(1) turn_def e_def numeral_2_eq_2 nth_Cons' hd_conv_nth)
  moreover have "sm_openStreams m ! ((0 + k + x) mod ?n) \<in> {1, 3}" if "x < e" for x
  proof -
    have "k + x < 2" using that by (auto simp: e_def split: if_splits)
    then have "k + x = 0 \<or> k + x = 1" by auto
    then show ?thesis by (auto simp: xs(1))
  qed
  ultimately have "round_robin_loop serve (of_nat ?n) (of_nat k) ?n (of_nat 0) (m, log) =
      (None, m\<lparr>sm_roundRobinIndex := (sm_roundRobinIndex m + 1) mod of_nat ?n\<rparr>, log @ [turn rest k])"
    using i ne xs(3) k(2) e by (intro round_robin_serve [OF inv len, where d = e]) auto
  moreover have "(of_nat k + 1) mod of_nat ?n = (of_nat ((k + 1) mod ?n) :: u32)"
  proof (rule unat_eqI)
    have "unat ((of_nat 1 + of_nat k) mod of_nat ?n :: u32) = (1 + k) mod ?n"
      using k(2) xs(3) by (intro unat_rr_index) simp_all
    moreover have "unat (of_nat ((k + 1) mod ?n) :: u32) = (k + 1) mod ?n"
      by (rule small, rule le_less_trans [OF mod_less_eq_dividend]) (use xs(3) k(2) in simp)
    ultimately show "unat ((of_nat k + 1) mod of_nat ?n :: u32) = unat (of_nat ((k + 1) mod ?n) :: u32)"
      by (simp add: add.commute)
  qed
  ultimately show ?thesis using p card un k(1) by (simp add: RoundRobinIterate_def Let_def)
qed

lemma round_robin_calls:
  assumes inv: "smap_inv m" and xs: "sm_openStreams m = 1 # 3 # rest" "rest \<noteq> []" "length rest < 2 ^ 30"
    and start: "sm_roundRobinIndex m = 0" and k: "k \<le> length rest + 2"
  shows "((\<lambda>ma. snd (RoundRobinIterate serve ma)) ^^ k) (m, []) =
    (m\<lparr>sm_roundRobinIndex := of_nat (k mod (length rest + 2))\<rparr>, map (turn rest) [0..<k])"
  using k
proof (induction k)
  case 0
  have "m\<lparr>sm_roundRobinIndex := 0\<rparr> = m" using start by simp
  then show ?case by simp
next
  case (Suc k)
  define mk where "mk = m\<lparr>sm_roundRobinIndex := of_nat k\<rparr>"
  have "smap_inv mk \<and> opened mk = opened m"
    by (rule smap_inv_cong [OF inv]) (use smap_invD(3) [OF inv] in \<open>auto simp: mk_def\<close>)
  from round_robin_call [OF conjunct1 [OF this], of rest k "map (turn rest) [0..<k]"] Suc xs
  show ?case by (simp add: mk_def)
qed

text \<open>
  C34. The turns of the streams. When the crypto stream, the header stream and other streams are open, in this
  order, and every packet is filled by one stream, then in as many packets as there are streams each of the other
  streams has its turn, but not one turn each: the first of them has three, as the index moves on by one for a visit
  while the loop passes over the streams 1 and 3.
\<close>
theorem round_robin_turns:
  assumes "sm_run p m" "sm_openStreams m = 1 # 3 # rest" "rest \<noteq> []" "length rest < 2 ^ 30"
    and "sm_roundRobinIndex m = 0"
  shows "((\<lambda>ma. snd (RoundRobinIterate serve ma)) ^^ length (sm_openStreams m)) (m, []) =
    (m, hd rest # hd rest # rest)"
proof -
  have inv: "smap_inv m" using sm_run_inv [OF assms(1)] by simp
  have "map (turn rest) [0..<length rest + 2] = hd rest # hd rest # rest"
  proof (rule nth_equalityI)
    show "map (turn rest) [0..<length rest + 2] ! i = (hd rest # hd rest # rest) ! i"
      if "i < length (map (turn rest) [0..<length rest + 2])" for i
      using that assms(3) by (cases "i = 0"; cases "i = 1"; cases "i = 2")
        (simp_all add: turn_def nth_Cons' hd_conv_nth numeral_2_eq_2 del: upt_Suc)
  qed simp
  moreover have "m\<lparr>sm_roundRobinIndex := 0\<rparr> = m" using assms(5) by simp
  ultimately show ?thesis
    using round_robin_calls [OF inv assms(2-5), of "length rest + 2"] assms(2) by (simp del: upt_Suc)
qed

text \<open>Three streams that the client has opened at a server.\<close>

definition three_streams :: streamsMap where
  "three_streams = (newStreamsMap PerspectiveServer)\<lparr>
     sm_streams := [1 \<mapsto> newStream 1, 3 \<mapsto> newStream 3, 5 \<mapsto> newStream 5, 7 \<mapsto> newStream 7],
     sm_openStreams := [1, 3, 5, 7], sm_highestStreamOpenedByPeer := 7, sm_numIncomingStreams := 4\<rparr>"

lemma three_streams_run: "sm_run PerspectiveServer three_streams"
proof -
  let ?cp = "NewConnectionParamatersManager PerspectiveServer 39 65536 65536 30"
  let ?fm = "NewFlowControlManager ?cp"
  note simps = GetOrOpenStream_def openRemoteStream_def session_newStream_def putStream_def newStreamsMap_def
    GetMaxIncoming MaxNewStreamIDDelta_def MaxStreamsPerConnection_def newStream_def Let_def
  have "\<exists>r fm'. GetOrOpenStream ?cp 7 (newStreamsMap PerspectiveServer, ?fm) = Some (r, three_streams, fm')"
    by (simp add: simps three_streams_def open_remote_loop.simps [of _ 7] word_le_nat_alt)
  then show ?thesis using sm_run.remote [OF sm_run.start] by blast
qed

lemma round_robin_turns_witness:
  "((\<lambda>ma. snd (RoundRobinIterate serve ma)) ^^ 4) (three_streams, []) = (three_streams, [5, 5, 5, 7])"
proof -
  have "sm_openStreams three_streams = 1 # 3 # [5, 7]" "sm_roundRobinIndex three_streams = 0"
    by (simp_all add: three_streams_def newStreamsMap_def)
  note open_eq = this
  have len: "length (sm_openStreams three_streams) = 4" by (simp add: open_eq(1))
  have "((\<lambda>ma. snd (RoundRobinIterate serve ma)) ^^ length (sm_openStreams three_streams)) (three_streams, []) =
      (three_streams, hd [5, 7] # hd [5, 7] # [5, 7])"
    by (rule round_robin_turns [OF three_streams_run open_eq(1) _ _ open_eq(2)]) simp_all
  then show ?thesis unfolding len list.sel .
qed

end
