(* ===== verification/Stream_Framer.thy ===== *)
theory Stream_Framer
  imports Streams_Map Wire_ClosePath
begin

section \<open>Frames to send: \<open>stream_framer.go\<close>\<close>

text \<open>
  The framer cuts the bytes that wait in the streams, and the frames to be sent again, into frames that fit
  into a packet, and it keeps the queues of the control frames it makes. It works on the map of streams and
  on the flow control manager, which are passed through. Frames are values here, where the code shares
  pointers: a frame queued twice is two copies.
\<close>

subsection \<open>The state\<close>

record streamFramer =
  fr_retransmissionQueue :: "StreamFrame list"
  fr_blockedFrameQueue :: "BlockedFrame list"
  fr_addAddressFrameQueue :: "AddAddressFrame list"
  fr_closePathFrameQueue :: "ClosePathFrame list"
  fr_pathsFrame :: "PathsFrame option"

definition newStreamFramer :: streamFramer where
  "newStreamFramer =
     \<lparr> fr_retransmissionQueue = [], fr_blockedFrameQueue = [], fr_addAddressFrameQueue = [],
       fr_closePathFrameQueue = [], fr_pathsFrame = None \<rparr>"

subsection \<open>Queues of control frames\<close>

definition AddFrameForRetransmission :: "StreamFrame \<Rightarrow> streamFramer \<Rightarrow> streamFramer" where
  "AddFrameForRetransmission frame f = f\<lparr>fr_retransmissionQueue := fr_retransmissionQueue f @ [frame]\<rparr>"

definition PopBlockedFrame :: "streamFramer \<Rightarrow> BlockedFrame option \<times> streamFramer" where
  "PopBlockedFrame f =
     (case fr_blockedFrameQueue f of
        [] \<Rightarrow> (None, f)
      | frame # q \<Rightarrow> (Some frame, f\<lparr>fr_blockedFrameQueue := q\<rparr>))"

definition AddAddressForTransmission :: "u8 \<Rightarrow> u8 list \<Rightarrow> int \<Rightarrow> streamFramer \<Rightarrow> streamFramer" where
  "AddAddressForTransmission ipVersion ip port f =
     f\<lparr>fr_addAddressFrameQueue := fr_addAddressFrameQueue f @
         [\<lparr> aa_IPVersion = ipVersion, aa_IP = ip, aa_Port = port \<rparr>]\<rparr>"

definition PopAddAddressFrame :: "streamFramer \<Rightarrow> AddAddressFrame option \<times> streamFramer" where
  "PopAddAddressFrame f =
     (case fr_addAddressFrameQueue f of
        [] \<Rightarrow> (None, f)
      | frame # q \<Rightarrow> (Some frame, f\<lparr>fr_addAddressFrameQueue := q\<rparr>))"

text \<open>
  The paths of the session, in the order the \<open>range\<close> visits them, with \<open>potentiallyFailed\<close> and the
  smoothed round trip time.
\<close>

definition AddPathsFrameForTransmission :: "(PathID \<times> bool \<times> Duration) list \<Rightarrow> streamFramer \<Rightarrow> streamFramer" where
  "AddPathsFrameForTransmission paths f =
     f\<lparr>fr_pathsFrame := Some
         \<lparr> pf_MaxNumPaths = 255, pf_NumPaths = of_nat (length paths), pf_PathIDs = map fst paths,
           pf_RemoteRTTs = map (\<lambda>(_, failed, rtt). if failed then 3600 * Second else rtt) paths \<rparr>\<rparr>"

definition PopPathsFrame :: "streamFramer \<Rightarrow> PathsFrame option \<times> streamFramer" where
  "PopPathsFrame f = (fr_pathsFrame f, f\<lparr>fr_pathsFrame := None\<rparr>)"

definition AddClosePathFrameForTransmission :: "ClosePathFrame \<Rightarrow> streamFramer \<Rightarrow> streamFramer" where
  "AddClosePathFrameForTransmission frame f = f\<lparr>fr_closePathFrameQueue := fr_closePathFrameQueue f @ [frame]\<rparr>"

definition PopClosePathFrame :: "streamFramer \<Rightarrow> ClosePathFrame option \<times> streamFramer" where
  "PopClosePathFrame f =
     (case fr_closePathFrameQueue f of
        [] \<Rightarrow> (None, f)
      | frame # q \<Rightarrow> (Some frame, f\<lparr>fr_closePathFrameQueue := q\<rparr>))"

definition HasFramesForRetransmission :: "streamFramer \<Rightarrow> bool" where
  "HasFramesForRetransmission f \<longleftrightarrow> length (fr_retransmissionQueue f) > 0"

subsection \<open>STREAM frames\<close>

text \<open>\<open>frame.MinLength\<close>, which cannot fail for STREAM frames.\<close>

definition frame_header_len :: "StreamFrame \<Rightarrow> ByteCount" where
  "frame_header_len frame = (case StreamFrame_MinLength frame of Inl _ \<Rightarrow> 0 | Inr n \<Rightarrow> n)"

text \<open>The frame split off and the rest; \<open>None\<close> when nothing is modified.\<close>

definition maybeSplitOffFrame :: "StreamFrame \<Rightarrow> ByteCount \<Rightarrow> (StreamFrame \<times> StreamFrame) option" where
  "maybeSplitOffFrame frame n =
     (if n \<ge> StreamFrame_DataLen frame then None
      else Some (\<lparr> sf_StreamID = sf_StreamID frame, sf_FinBit = False, sf_DataLenPresent = sf_DataLenPresent frame,
                   sf_Offset = sf_Offset frame, sf_LossCount = 0, sf_PathID = sf_PathID frame,
                   sf_TimeStamp = sf_TimeStamp frame, sf_Data = take (unat n) (sf_Data frame) \<rparr>,
                 frame\<lparr>sf_Data := drop (unat n) (sf_Data frame), sf_Offset := sf_Offset frame + n\<rparr>))"

text \<open>The loop of \<open>maybePopFramesForRetransmission\<close> over the queue: frames, their length, what is left.\<close>

fun pop_retransmissions ::
    "ByteCount \<Rightarrow> ByteCount \<Rightarrow> StreamFrame list \<Rightarrow> flowControlManager \<Rightarrow>
     StreamFrame list \<times> ByteCount \<times> StreamFrame list \<times> flowControlManager" where
  "pop_retransmissions maxLen currentLen [] fm = ([], currentLen, [], fm)"
| "pop_retransmissions maxLen currentLen (frame0 # q) fm =
     (let frame = frame0\<lparr>sf_DataLenPresent := True\<rparr>; frameHeaderLen = frame_header_len frame
      in if currentLen + frameHeaderLen \<ge> maxLen then ([], currentLen, frame # q, fm)
         else let len1 = currentLen + frameHeaderLen
           in case maybeSplitOffFrame frame (maxLen - len1) of
                Some (splitFrame, rest) \<Rightarrow>
                  ([splitFrame], len1 + StreamFrame_DataLen splitFrame, rest # q,
                   snd (AddBytesRetrans (sf_StreamID splitFrame) (StreamFrame_DataLen splitFrame) fm))
              | None \<Rightarrow>
                  let (res, len2, q2, fm2) =
                    pop_retransmissions maxLen (len1 + StreamFrame_DataLen frame) q
                      (snd (AddBytesRetrans (sf_StreamID frame) (StreamFrame_DataLen frame) fm))
                  in (frame # res, len2, q2, fm2))"

text \<open>What the visits of the streams change beside the map: the frames found and their length, the framer, flow control.\<close>

record pop_state =
  ps_res :: "StreamFrame list"
  ps_currentLen :: ByteCount
  ps_blocked :: "BlockedFrame list"
  ps_fm :: flowControlManager

text \<open>A frame of a stream without data, as the visit begins it.\<close>

definition empty_frame :: "stream \<Rightarrow> StreamFrame" where
  "empty_frame s =
     \<lparr> sf_StreamID = st_streamID s, sf_FinBit = False, sf_DataLenPresent = True, sf_Offset = st_writeOffset s,
       sf_LossCount = 0, sf_PathID = 0, sf_TimeStamp = 0, sf_Data = [] \<rparr>"

text \<open>The end of the visit: the frame is sent, and a BLOCKED frame is queued when a window is used up.\<close>

definition emit_frame ::
    "connectionParametersManager \<Rightarrow> StreamFrame \<Rightarrow> ByteCount \<Rightarrow> ByteCount \<Rightarrow> pop_state \<Rightarrow> pop_state" where
  "emit_frame cp frame frameHeaderBytes sendWindowSize p =
     (let fm1 = snd (AddBytesSent (sf_StreamID frame) (StreamFrame_DataLen frame) (ps_fm p));
          blocked = (if RemainingConnectionWindowSize cp fm1 = 0 then [\<lparr> blocked_StreamID = 0 \<rparr>]
                     else if \<not> sf_FinBit frame \<and> sendWindowSize - StreamFrame_DataLen frame = 0
                     then [\<lparr> blocked_StreamID = sf_StreamID frame \<rparr>] else [])
      in p\<lparr>ps_res := ps_res p @ [frame], ps_blocked := ps_blocked p @ blocked, ps_fm := fm1,
           ps_currentLen := ps_currentLen p + (frameHeaderBytes + StreamFrame_DataLen frame)\<rparr>)"

text \<open>
  The function that \<open>maybePopNormalFrames\<close> calls for every stream. The frame that is begun for a stream and
  not sent is used for the next one, which overwrites what was set.
\<close>

definition pop_visit :: "connectionParametersManager \<Rightarrow> ByteCount \<Rightarrow> pop_state streamLambda" where
  "pop_visit cp maxBytes s mp =
     (let (m, p) = mp in
      if st_streamID s = 1 then ((True, None), mp)
      else let frame = empty_frame s; frameHeaderBytes = frame_header_len frame
      in if ps_currentLen p + frameHeaderBytes > maxBytes then ((False, None), mp)
      else let maxLen0 = maxBytes - ps_currentLen p - frameHeaderBytes;
               lenStreamData = lenOfDataForWriting s;
               sendWindowSize = (if lenStreamData \<noteq> 0
                 then case SendWindowSize cp (st_streamID s) (ps_fm p) of Inl _ \<Rightarrow> 0 | Inr w \<Rightarrow> w else 0);
               maxLen = (if lenStreamData \<noteq> 0 then MinByteCount maxLen0 sendWindowSize else maxLen0)
      in if maxLen = 0 then ((True, None), mp)
      else let (data, s1) = (if lenStreamData \<noteq> 0 then getDataForWriting maxLen s else (None, s));
               fin = shouldSendFin s1
      in if data = None \<and> \<not> fin then ((True, None), m\<lparr>sm_streams := (sm_streams m)(st_streamID s \<mapsto> s1)\<rparr>, p)
      else let s2 = (if fin then sentFin s1 else s1);
               frame1 = frame\<lparr>sf_FinBit := fin, sf_Data := (case data of None \<Rightarrow> [] | Some d \<Rightarrow> d)\<rparr>;
               p1 = emit_frame cp frame1 frameHeaderBytes sendWindowSize p
      in ((ps_currentLen p1 \<noteq> maxBytes, None), m\<lparr>sm_streams := (sm_streams m)(st_streamID s \<mapsto> s2)\<rparr>, p1))"

text \<open>The state the methods that send work on.\<close>

type_synonym framer_state = "streamFramer \<times> streamsMap \<times> flowControlManager"

definition maybePopNormalFrames ::
    "connectionParametersManager \<Rightarrow> ByteCount \<Rightarrow> framer_state \<Rightarrow> StreamFrame list \<times> framer_state" where
  "maybePopNormalFrames cp maxBytes fs =
     (let (f, m, fm) = fs;
          p0 = \<lparr> ps_res = [], ps_currentLen = 0, ps_blocked = fr_blockedFrameQueue f, ps_fm = fm \<rparr>;
          (_, m1, p) = RoundRobinIterate (pop_visit cp maxBytes) (m, p0)
      in (ps_res p, f\<lparr>fr_blockedFrameQueue := ps_blocked p\<rparr>, m1, ps_fm p))"

definition maybePopFramesForRetransmission ::
    "ByteCount \<Rightarrow> framer_state \<Rightarrow> (StreamFrame list \<times> ByteCount) \<times> framer_state" where
  "maybePopFramesForRetransmission maxLen fs =
     (let (f, m, fm) = fs; (res, len, q, fm1) = pop_retransmissions maxLen 0 (fr_retransmissionQueue f) fm
      in ((res, len), f\<lparr>fr_retransmissionQueue := q\<rparr>, m, fm1))"

definition PopStreamFrames ::
    "connectionParametersManager \<Rightarrow> ByteCount \<Rightarrow> framer_state \<Rightarrow> StreamFrame list \<times> framer_state" where
  "PopStreamFrames cp maxLen fs =
     (let ((res, currentLen), fs1) = maybePopFramesForRetransmission maxLen fs;
          (normal, fs2) = maybePopNormalFrames cp (maxLen - currentLen) fs1
      in (res @ normal, fs2))"

text \<open>\<open>cs\<close>, which is \<open>nil\<close> only when stream 1 was closed; the error of \<open>GetOrOpenStream\<close> is dropped.\<close>

definition crypto_stream ::
    "connectionParametersManager \<Rightarrow> framer_state \<Rightarrow> (stream option \<times> framer_state) option" where
  "crypto_stream cp fs =
     (let (f, mf) = fs in
      case GetOrOpenStream cp 1 mf of
        None \<Rightarrow> None
      | Some (Inl e, mf1) \<Rightarrow> Some (None, f, mf1)
      | Some (Inr cs, mf1) \<Rightarrow> Some (cs, f, mf1))"

definition HasCryptoStreamFrame ::
    "connectionParametersManager \<Rightarrow> framer_state \<Rightarrow> ((go_error + bool) \<times> framer_state) option" where
  "HasCryptoStreamFrame cp fs =
     (case crypto_stream cp fs of
        None \<Rightarrow> None
      | Some (None, fs1) \<Rightarrow> Some (Inl (Panic ''nil pointer dereference''), fs1)
      | Some (Some cs, fs1) \<Rightarrow> Some (Inr (lenOfDataForWriting cs > 0), fs1))"

definition PopCryptoStreamFrame ::
    "connectionParametersManager \<Rightarrow> ByteCount \<Rightarrow> framer_state \<Rightarrow> ((go_error + StreamFrame option) \<times> framer_state) option" where
  "PopCryptoStreamFrame cp maxLen fs =
     (case HasCryptoStreamFrame cp fs of
        None \<Rightarrow> None
      | Some (Inl e, fs1) \<Rightarrow> Some (Inl e, fs1)
      | Some (Inr has, fs1) \<Rightarrow>
          if \<not> has then Some (Inr None, fs1)
          else case crypto_stream cp fs1 of
            None \<Rightarrow> None
          | Some (None, fs2) \<Rightarrow> Some (Inl (Panic ''nil pointer dereference''), fs2)
          | Some (Some cs, f, m, fm) \<Rightarrow>
              let frame = (empty_frame cs)\<lparr>sf_StreamID := 1, sf_DataLenPresent := False\<rparr>;
                  (data, cs1) = getDataForWriting (maxLen - frame_header_len frame) cs
              in Some (Inr (Some (frame\<lparr>sf_Data := (case data of None \<Rightarrow> [] | Some d \<Rightarrow> d)\<rparr>)),
                       f, m\<lparr>sm_streams := (sm_streams m)(1 \<mapsto> cs1)\<rparr>, fm))"

section \<open>What is sent\<close>

text \<open>The length of a frame on the wire, with its data length.\<close>

definition frame_len :: "StreamFrame \<Rightarrow> nat" where
  "frame_len frame = unat (frame_header_len frame) + length (sf_Data frame)"

lemma frame_header_len_bound: "unat (frame_header_len frame) \<le> 25" "0 < unat (frame_header_len frame)"
proof -
  have i: "unat (calculateStreamIDLength frame) \<le> 4"
    by (rule calculateStreamIDLength_cases [of frame]) simp_all
  then have i': "unat (ucast (calculateStreamIDLength frame) :: u64) \<le> 4" by (simp add: unat_ucast_wide)
  have off: "unat (getOffsetLength frame) \<le> 8"
    by (rule getOffsetLength_cases [of frame]) simp_all
  define a where "a = unat (ucast (calculateStreamIDLength frame) :: u64)"
  define b where "b = unat (getOffsetLength frame)"
  have ab: "a \<le> 4" "b \<le> 8" using i' off by (simp_all add: a_def b_def)
  have "unat (frame_header_len frame) = (if sf_DataLenPresent frame then 13 + a + b else 11 + a + b)"
    using ab by (simp add: frame_header_len_def StreamFrame_MinLength_def Let_def unat_word_ariths a_def [symmetric] b_def [symmetric])
  then show "unat (frame_header_len frame) \<le> 25" "0 < unat (frame_header_len frame)" using ab by simp_all
qed

lemma frame_header_len_cong:
  "sf_StreamID f = sf_StreamID g \<Longrightarrow> sf_Offset f = sf_Offset g \<Longrightarrow> sf_DataLenPresent f = sf_DataLenPresent g \<Longrightarrow>
    frame_header_len f = frame_header_len g"
  by (simp add: frame_header_len_def StreamFrame_MinLength_def calculateStreamIDLength_def getOffsetLength_def)


lemma frame_header_len_same [simp]:
  "frame_header_len (f\<lparr>sf_FinBit := b\<rparr>) = frame_header_len f" "frame_header_len (f\<lparr>sf_Data := d\<rparr>) = frame_header_len f"
  by (simp_all cong: frame_header_len_cong [of _ f])

text \<open>
  \<open>W i\<close> are the bytes written to stream \<open>i\<close>, and \<open>C i\<close> tells whether it was closed behind them. A frame of
  a stream has the bytes at its offset; it has the FIN bit only if it ends the stream, and it is not without both.
\<close>

definition frame_ok :: "(StreamID \<Rightarrow> u8 list) \<Rightarrow> (StreamID \<Rightarrow> bool) \<Rightarrow> StreamFrame \<Rightarrow> bool" where
  "frame_ok W C f \<longleftrightarrow> (let w = W (sf_StreamID f); off = unat (sf_Offset f) in
     length w < 2 ^ 62 \<and> off + length (sf_Data f) \<le> length w \<and> sf_Data f = take (length (sf_Data f)) (drop off w) \<and>
     (sf_FinBit f \<longrightarrow> C (sf_StreamID f) \<and> off + length (sf_Data f) = length w) \<and> (sf_Data f \<noteq> [] \<or> sf_FinBit f))"

text \<open>The bytes of stream \<open>i\<close> that frames carry, and whether they carry its end.\<close>

definition span :: "StreamID \<Rightarrow> StreamFrame \<Rightarrow> nat set" where
  "span i f = (if sf_StreamID f = i then {unat (sf_Offset f)..<unat (sf_Offset f) + length (sf_Data f)} else {})"

definition positions :: "StreamID \<Rightarrow> StreamFrame list \<Rightarrow> nat set" where
  "positions i fs = (\<Union>f\<in>set fs. span i f)"

definition fins :: "StreamID \<Rightarrow> StreamFrame list \<Rightarrow> bool" where
  "fins i fs \<longleftrightarrow> (\<exists>f\<in>set fs. sf_StreamID f = i \<and> sf_FinBit f)"

lemma positions_simps [simp]:
  "positions i [] = {}"
  "positions i (f # fs) = span i f \<union> positions i fs"
  "positions i (fs @ gs) = positions i fs \<union> positions i gs"
  by (auto simp: positions_def)

lemma fins_simps [simp]:
  "\<not> fins i []" "fins i (f # fs) \<longleftrightarrow> sf_StreamID f = i \<and> sf_FinBit f \<or> fins i fs" "fins i (fs @ gs) \<longleftrightarrow> fins i fs \<or> fins i gs"
  by (auto simp: fins_def)

lemma frame_ok_DataLen: "frame_ok W C f \<Longrightarrow> unat (StreamFrame_DataLen f) = length (sf_Data f)"
  by (auto simp: frame_ok_def Let_def StreamFrame_DataLen_def intro!: unat_of_nat_u64)

lemma frame_ok_len [simp]: "frame_ok W C (f\<lparr>sf_DataLenPresent := b\<rparr>) = frame_ok W C f"
  by (simp add: frame_ok_def)

subsection \<open>Frames sent again\<close>

lemma maybeSplitOffFrame_ok:
  assumes f: "frame_ok W C f" and split: "maybeSplitOffFrame f n = Some (g, h)" and n: "0 < n"
  shows "frame_ok W C g \<and> frame_ok W C h \<and> length (sf_Data g) = unat n \<and> frame_header_len g = frame_header_len f \<and>
    sf_DataLenPresent g = sf_DataLenPresent f \<and>
    positions i [g, h] = positions i [f] \<and> (fins i [g, h] \<longleftrightarrow> fins i [f])"
proof -
  define k where "k = unat n"
  have lt: "k < length (sf_Data f)" and g: "sf_Data g = take k (sf_Data f)" "sf_Offset g = sf_Offset f" "sf_StreamID g = sf_StreamID f"
      "\<not> sf_FinBit g" "sf_DataLenPresent g = sf_DataLenPresent f"
    and h: "h = f\<lparr>sf_Data := drop k (sf_Data f), sf_Offset := sf_Offset f + n\<rparr>"
    using split frame_ok_DataLen [OF f]
    by (auto simp: maybeSplitOffFrame_def k_def word_le_nat_alt split: if_splits)
  have w: "length (W (sf_StreamID f)) < 2 ^ 62" "unat (sf_Offset f) + length (sf_Data f) \<le> length (W (sf_StreamID f))"
    "sf_Data f = take (length (sf_Data f)) (drop (unat (sf_Offset f)) (W (sf_StreamID f)))"
    using f by (simp_all add: frame_ok_def Let_def)
  have off: "unat (sf_Offset f + n) = unat (sf_Offset f) + k"
    using w lt unfolding k_def by (intro unat_add_le) simp
  have "take k (sf_Data f) = take k (drop (unat (sf_Offset f)) (W (sf_StreamID f)))"
    using lt by (subst w(3)) (simp add: min_def)
  moreover have "0 < k" using n by (simp add: k_def word_less_nat_alt)
  ultimately have "frame_ok W C g" using w lt g by (auto simp: frame_ok_def Let_def min_def)
  moreover have "drop k (sf_Data f) = take (length (sf_Data f) - k) (drop (unat (sf_Offset f) + k) (W (sf_StreamID f)))"
    by (subst w(3)) (simp add: drop_take add.commute)
  then have "frame_ok W C h" using f w lt off by (simp add: frame_ok_def Let_def h)
  moreover have "frame_header_len g = frame_header_len f" using g by (intro frame_header_len_cong) simp_all
  moreover have "positions i [g, h] = positions i [f]" using off lt g by (auto simp: h span_def min_def)
  ultimately show ?thesis using g lt by (simp add: h k_def min_def)
qed

lemma AddBytesRetrans_run:
  assumes "fm_run cp R fm"
  shows "fm_run cp R (snd (AddBytesRetrans i n fm))"
proof (cases "AddBytesRetrans i n fm")
  case (Pair e fm')
  then show ?thesis
    using fm_retrans [OF assms, of i n fm'] assms
    by (cases e) (auto simp: AddBytesRetrans_def both_levels_def Let_def split: option.splits)
qed

definition popped :: "(StreamID \<Rightarrow> u8 list) \<Rightarrow> (StreamID \<Rightarrow> bool) \<Rightarrow> StreamFrame list \<Rightarrow> bool" where
  "popped W C fs \<longleftrightarrow> (\<forall>f\<in>set fs. frame_ok W C f \<and> sf_DataLenPresent f)"

lemma pop_retransmissions_ok:
  assumes "pop_retransmissions maxLen cur q fm = (res, len, q', fm')" "cur \<le> maxLen" "maxLen < 2 ^ 62"
    and "\<forall>f\<in>set q. frame_ok W C f"
  shows "len \<le> maxLen \<and> unat len = unat cur + sum_list (map frame_len res) \<and> popped W C res \<and>
    (\<forall>f\<in>set q'. frame_ok W C f) \<and> (\<forall>i. positions i res \<union> positions i q' = positions i q) \<and>
    (\<forall>i. fins i res \<or> fins i q' \<longleftrightarrow> fins i q) \<and> (fm_run cp R fm \<longrightarrow> fm_run cp R fm')"
  using assms
proof (induction q arbitrary: cur fm res len q' fm')
  case Nil
  then show ?case by (simp add: popped_def)
next
  case (Cons f0 q)
  define f where "f = f0\<lparr>sf_DataLenPresent := True\<rparr>"
  define len1 where "len1 = cur + frame_header_len f"
  have f: "frame_ok W C f" "sf_DataLenPresent f" and pos: "positions i [f] = positions i [f0]" "fins i [f] = fins i [f0]" for i
    using Cons.prems(4) by (simp_all add: f_def span_def)
  have m: "unat maxLen < 2 ^ 62" using Cons.prems(3) by (simp add: word_less_nat_alt)
  have len1: "unat len1 = unat cur + unat (frame_header_len f)"
    using frame_header_len_bound(1) [of f] Cons.prems(2) m unfolding len1_def
    by (intro unat_add_le) (simp add: word_le_nat_alt)
  show ?case
  proof (cases "len1 \<ge> maxLen")
    case True
    then have "res = []" "len = cur" "q' = f # q" "fm' = fm"
      using Cons.prems(1) by (simp_all add: Let_def f_def [symmetric] len1_def)
    then show ?thesis using Cons.prems f pos by (simp add: popped_def)
  next
    case lt: False
    then have n: "unat (maxLen - len1) = unat maxLen - unat len1" "0 < maxLen - len1"
      by (simp_all add: unat_sub word_le_nat_alt word_less_nat_alt)
    show ?thesis
    proof (cases "maybeSplitOffFrame f (maxLen - len1)")
      case (Some gh)
      then obtain g h where gh: "maybeSplitOffFrame f (maxLen - len1) = Some (g, h)" by (cases gh) auto
      note s = maybeSplitOffFrame_ok [OF f(1) gh n(2)]
      have dl: "unat (StreamFrame_DataLen g) = length (sf_Data g)" using frame_ok_DataLen s by blast
      have r: "res = [g]" "len = len1 + StreamFrame_DataLen g" "q' = h # q"
        "fm' = snd (AddBytesRetrans (sf_StreamID g) (StreamFrame_DataLen g) fm)"
        using Cons.prems(1) lt gh by (simp_all add: Let_def f_def [symmetric] len1_def [symmetric])
      have "unat len = unat len1 + length (sf_Data g)"
        using lt m dl s n unfolding r by (subst unat_add_le) (simp_all add: word_le_nat_alt)
      then have "unat len = unat cur + frame_len g" "len \<le> maxLen"
        using len1 s n lt by (simp_all add: frame_len_def word_le_nat_alt)
      moreover have "popped W C res" "\<forall>f\<in>set q'. frame_ok W C f"
        using s f(2) Cons.prems(4) r by (simp_all add: popped_def)
      moreover have "positions i res \<union> positions i q' = positions i (f0 # q)" "fins i res \<or> fins i q' \<longleftrightarrow> fins i (f0 # q)" for i
        using maybeSplitOffFrame_ok [OF f(1) gh n(2), of i] pos [of i] unfolding r(1,3) by auto
      ultimately show ?thesis using AddBytesRetrans_run r by simp
    next
      case None
      obtain res1 len2 q2 fm2 where rec: "pop_retransmissions maxLen (len1 + StreamFrame_DataLen f) q
          (snd (AddBytesRetrans (sf_StreamID f) (StreamFrame_DataLen f) fm)) = (res1, len2, q2, fm2)"
        by (metis prod.exhaust)
      have r: "res = f # res1" "len = len2" "q' = q2" "fm' = fm2"
        using Cons.prems(1) lt None rec by (simp_all add: Let_def f_def [symmetric] len1_def [symmetric])
      have dl: "unat (StreamFrame_DataLen f) = length (sf_Data f)" "length (sf_Data f) \<le> unat maxLen - unat len1"
        using frame_ok_DataLen [OF f(1)] None n by (auto simp: maybeSplitOffFrame_def word_le_nat_alt split: if_splits)
      have l: "unat (len1 + StreamFrame_DataLen f) = unat cur + frame_len f"
        using lt m dl len1 by (subst unat_add_le) (simp_all add: word_le_nat_alt frame_len_def)
      then have "len1 + StreamFrame_DataLen f \<le> maxLen"
        using dl len1 lt by (simp add: word_le_nat_alt frame_len_def)
      from Cons.IH [OF rec this Cons.prems(3)] Cons.prems(4)
      show ?thesis using r l f pos AddBytesRetrans_run by (simp add: popped_def add.assoc) blast
    qed
  qed
qed

subsection \<open>Frames of the streams\<close>

text \<open>\<open>st_writeOffset\<close> is how far a stream has been cut into frames.\<close>

definition streams_ok :: "(StreamID \<Rightarrow> u8 list) \<Rightarrow> (StreamID \<Rightarrow> bool) \<Rightarrow> streamsMap \<Rightarrow> bool" where
  "streams_ok W C m \<longleftrightarrow> (\<forall>i s. sm_streams m i = Some s \<longrightarrow> st_streamID s = i \<and> write_inv (W i) s \<and> (st_finishedWriting s \<longleftrightarrow> C i))"

definition wrote :: "streamsMap \<Rightarrow> StreamID \<Rightarrow> nat" where
  "wrote m i = (case sm_streams m i of None \<Rightarrow> 0 | Some s \<Rightarrow> unat (st_writeOffset s))"

definition fin_sent :: "streamsMap \<Rightarrow> StreamID \<Rightarrow> bool" where
  "fin_sent m i \<longleftrightarrow> (case sm_streams m i of None \<Rightarrow> False | Some s \<Rightarrow> st_finSent s)"

definition pop_inv ::
    "(StreamID \<Rightarrow> u8 list) \<Rightarrow> (StreamID \<Rightarrow> bool) \<Rightarrow> ByteCount \<Rightarrow> streamsMap \<Rightarrow> streamsMap \<Rightarrow> ByteCount \<Rightarrow> StreamFrame list \<Rightarrow> bool" where
  "pop_inv W C maxBytes m0 m len res \<longleftrightarrow>
     streams_ok W C m \<and> popped W C res \<and>
     len \<le> maxBytes \<and> unat len = sum_list (map frame_len res) \<and>
     (\<forall>i. wrote m0 i \<le> wrote m i \<and> positions i res = {wrote m0 i..<wrote m i} \<and> (fin_sent m i \<longleftrightarrow> fin_sent m0 i \<or> fins i res))"

text \<open>What a visit sends.\<close>

definition next_frame :: "stream \<Rightarrow> stream \<Rightarrow> u8 list \<Rightarrow> StreamFrame" where
  "next_frame s s1 d = (empty_frame s)\<lparr>sf_FinBit := shouldSendFin s1, sf_Data := d\<rparr>"

definition takes_data :: "connectionParametersManager \<Rightarrow> ByteCount \<Rightarrow> flowControlManager \<Rightarrow> stream \<Rightarrow> u8 list \<Rightarrow> stream \<Rightarrow> bool" where
  "takes_data cp room fm s d s1 \<longleftrightarrow> d = [] \<and> s1 = s \<and> shouldSendFin s \<or>
     (\<exists>n w. getDataForWriting n s = (Some d, s1) \<and> 0 < n \<and> n \<le> room \<and> SendWindowSize cp (st_streamID s) fm = Inr w \<and> n \<le> w)"

text \<open>What a stream may send: data inside its window, or its end.\<close>

definition sendable :: "connectionParametersManager \<Rightarrow> flowControlManager \<Rightarrow> stream \<Rightarrow> bool" where
  "sendable cp fm s \<longleftrightarrow> st_streamID s \<noteq> 1 \<and>
     (if lenOfDataForWriting s = 0 then shouldSendFin s else \<exists>w. SendWindowSize cp (st_streamID s) fm = Inr w \<and> 0 < w)"

lemma pop_visit_cases:
  assumes visit: "pop_visit cp maxBytes s (m, p) = (r, m', p')" and s: "sm_streams m (st_streamID s) = Some s"
  obtains "m' = m" "p' = p"
    "r = (True, None) \<and> \<not> sendable cp (ps_fm p) s \<or> ps_currentLen p + frame_header_len (empty_frame s) \<ge> maxBytes"
  | d s1 w where "ps_currentLen p + frame_header_len (empty_frame s) \<le> maxBytes"
    "takes_data cp (maxBytes - ps_currentLen p - frame_header_len (empty_frame s)) (ps_fm p) s d s1"
    "m' = m\<lparr>sm_streams := (sm_streams m)(st_streamID s \<mapsto> if shouldSendFin s1 then sentFin s1 else s1)\<rparr>"
    "p' = emit_frame cp (next_frame s s1 d) (frame_header_len (empty_frame s)) w p"
proof -
  define h where "h = frame_header_len (empty_frame s)"
  define room where "room = maxBytes - ps_currentLen p - h"
  define len where "len = lenOfDataForWriting s"
  define w where "w = (if len \<noteq> 0 then case SendWindowSize cp (st_streamID s) (ps_fm p) of Inl _ \<Rightarrow> 0 | Inr w \<Rightarrow> w else 0)"
  define n where "n = (if len \<noteq> 0 then MinByteCount room w else room)"
  obtain data s1 where ds: "(if len \<noteq> 0 then getDataForWriting n s else (None, s)) = (data, s1)" by (metis prod.exhaust)
  have idle: "m\<lparr>sm_streams := (sm_streams m)(st_streamID s \<mapsto> s)\<rparr> = m" using s by (simp add: fun_upd_idem)
  have none: "s1 = s" if "data = None"
    using ds that by (auto simp: getDataForWriting_def Let_def split: if_splits option.splits)
  define d where "d = (case data of None \<Rightarrow> [] | Some d \<Rightarrow> d)"
  define m1 where "m1 = (\<lambda>t. m\<lparr>sm_streams := (sm_streams m)(st_streamID s \<mapsto> t)\<rparr>)"
  define p1 where "p1 = emit_frame cp (next_frame s s1 d) h w p"
  have eq: "pop_visit cp maxBytes s (m, p) =
    (if st_streamID s = 1 then ((True, None), m, p)
     else if ps_currentLen p + h > maxBytes then ((False, None), m, p)
     else if n = 0 then ((True, None), m, p)
     else if data = None \<and> \<not> shouldSendFin s1 then ((True, None), m1 s1, p)
     else ((ps_currentLen p1 \<noteq> maxBytes, None), m1 (if shouldSendFin s1 then sentFin s1 else s1), p1))"
    unfolding pop_visit_def Let_def prod.case h_def [symmetric] room_def [symmetric] len_def [symmetric] w_def [symmetric]
      n_def [symmetric] ds d_def [symmetric] next_frame_def [symmetric] p1_def [symmetric] m1_def ..
  show thesis
  proof (cases "st_streamID s = 1 \<or> ps_currentLen p + h > maxBytes \<or> n = 0 \<or> data = None \<and> \<not> shouldSendFin s1")
    case True
    then have "m' = m \<and> p' = p \<and> (ps_currentLen p + h > maxBytes \<or> r = (True, None))"
      using visit none idle unfolding eq m1_def by (auto split: if_splits)
    moreover have "\<not> sendable cp (ps_fm p) s" if "ps_currentLen p + h < maxBytes"
    proof
      assume sends: "sendable cp (ps_fm p) s"
      have "room \<noteq> 0" using that by (auto simp: room_def diff_diff_eq)
      then have "n \<noteq> 0" using sends by (auto simp: n_def w_def sendable_def len_def [symmetric] MinByteCount_def min_def)
      then have "data = None" "\<not> shouldSendFin s1" "st_streamID s \<noteq> 1" using True that sends by (auto simp: sendable_def)
      moreover have "len \<noteq> 0" using none calculation sends by (auto simp: sendable_def len_def)
      ultimately show False
        using ds by (auto simp: getDataForWriting_def len_def lenOfDataForWriting_def len_data_def Let_def split: option.splits if_splits)
    qed
    ultimately show thesis using that(1) unfolding h_def [symmetric] by (metis not_le order_less_imp_le)
  next
    case False
    have e: "m' = m\<lparr>sm_streams := (sm_streams m)(st_streamID s \<mapsto> if shouldSendFin s1 then sentFin s1 else s1)\<rparr>"
      "p' = emit_frame cp (next_frame s s1 d) h w p"
      using visit False unfolding eq m1_def p1_def by (simp_all split: if_splits)
    have "takes_data cp room (ps_fm p) s d s1"
    proof (cases data)
      case None
      then show ?thesis using False none by (simp add: takes_data_def d_def)
    next
      case (Some d0)
      then have l: "len \<noteq> 0" and get: "getDataForWriting n s = (Some d, s1)" using ds by (auto simp: d_def split: if_splits)
      have le: "n \<le> room" "n \<le> w" "0 < n" using l False by (auto simp: n_def MinByteCount_def word_neq_0_conv)
      then have "SendWindowSize cp (st_streamID s) (ps_fm p) = Inr w"
        using l by (auto simp: w_def split: sum.splits)
      then show ?thesis using get le by (auto simp: takes_data_def)
    qed
    then show thesis using that(2) e False by (simp add: h_def room_def not_less)
  qed
qed

lemma takes_data_ok:
  assumes inv: "write_inv W s" and takes: "takes_data cp room fm s d s1"
  shows "write_inv W (if shouldSendFin s1 then sentFin s1 else s1)" "unat (st_writeOffset s1) = unat (st_writeOffset s) + length d"
    "d = take (length d) (drop (unat (st_writeOffset s)) W)" "length d \<le> unat room"
    "unat (st_writeOffset s) + length d \<le> length W" "d \<noteq> [] \<or> shouldSendFin s1" "st_streamID s1 = st_streamID s"
    "st_finishedWriting s1 = st_finishedWriting s" "st_finSent s1 = st_finSent s"
    "shouldSendFin s1 \<Longrightarrow> st_finishedWriting s \<and> unat (st_writeOffset s) + length d = length W"
proof -
  have all: "write_inv W s1 \<and> unat (st_writeOffset s1) = unat (st_writeOffset s) + length d \<and>
    d = take (length d) (drop (unat (st_writeOffset s)) W) \<and> length d \<le> unat room \<and> (d \<noteq> [] \<or> shouldSendFin s1) \<and>
    st_streamID s1 = st_streamID s \<and> st_finishedWriting s1 = st_finishedWriting s \<and> st_finSent s1 = st_finSent s"
  proof (cases "d = [] \<and> s1 = s \<and> shouldSendFin s")
    case True
    then show ?thesis using inv by simp
  next
    case False
    then obtain n w where n: "getDataForWriting n s = (Some d, s1)" "0 < n" "n \<le> room" using takes by (auto simp: takes_data_def)
    show ?thesis using getDataForWriting_ok [OF inv n(1)] getDataForWriting_frame [OF n(1)] n(2,3)
      by (auto simp: word_le_nat_alt)
  qed
  then show "unat (st_writeOffset s1) = unat (st_writeOffset s) + length d"
    "d = take (length d) (drop (unat (st_writeOffset s)) W)" "length d \<le> unat room"
    "d \<noteq> [] \<or> shouldSendFin s1" "st_streamID s1 = st_streamID s"
    "st_finishedWriting s1 = st_finishedWriting s" "st_finSent s1 = st_finSent s" by blast+
  have inv1: "write_inv W s1" and len: "unat (st_writeOffset s1) = unat (st_writeOffset s) + length d" using all by blast+
  then show "unat (st_writeOffset s) + length d \<le> length W" by (simp add: write_inv_def)
  show "write_inv W (if shouldSendFin s1 then sentFin s1 else s1)"
    using inv1 by (auto simp: write_inv_def sentFin_def shouldSendFin_def pending_def)
  show "st_finishedWriting s \<and> unat (st_writeOffset s) + length d = length W" if "shouldSendFin s1"
    using that inv1 len all by (auto simp: write_inv_def shouldSendFin_def pending_def)
qed

lemma AddBytesSent_run:
  assumes run: "fm_run cp0 R fm" and n: "n = 0 \<or> (\<exists>w. SendWindowSize cp i fm = Inr w \<and> n \<le> w)"
  shows "fm_run cp0 R (snd (AddBytesSent i n fm))"
proof (cases "fm_streamFlowController fm i")
  case None
  then show ?thesis using run by (simp add: AddBytesSent_def both_levels_def)
next
  case (Some c)
  then obtain w where "SendWindowSize cp i fm = Inr w" "n \<le> w"
    using n by (auto simp: SendWindowSize_def Let_def)
  moreover obtain fm' where "AddBytesSent i n fm = (None, fm')"
    using Some by (simp add: AddBytesSent_def both_levels_def Let_def)
  ultimately show ?thesis using fm_sent [OF run] by simp
qed

lemma pop_visit_ok:
  assumes inv: "pop_inv W C maxBytes m0 m (ps_currentLen p) (ps_res p)" and max: "maxBytes < 2 ^ 62"
    and s: "sm_streams m i = Some s" and visit: "pop_visit cp maxBytes s (m, p) = (r, m', p')"
  shows "pop_inv W C maxBytes m0 m' (ps_currentLen p') (ps_res p') \<and> dom (sm_streams m') = dom (sm_streams m) \<and>
    (fm_run cp0 R (ps_fm p) \<longrightarrow> fm_run cp0 R (ps_fm p'))"
proof -
  have i: "st_streamID s = i" and w: "write_inv (W i) s" and c: "st_finishedWriting s \<longleftrightarrow> C i"
    using inv s by (auto simp: pop_inv_def streams_ok_def)
  have s': "sm_streams m (st_streamID s) = Some s" using s i by simp
  show ?thesis
    using pop_visit_cases [OF visit s']
  proof cases
    case 1
    then show ?thesis using inv by simp
  next
    case (2 d s1 wnd)
    define h where "h = frame_header_len (empty_frame s)"
    define room where "room = maxBytes - ps_currentLen p - h"
    define s2 where "s2 = (if shouldSendFin s1 then sentFin s1 else s1)"
    define f where "f = next_frame s s1 d"
    note t = takes_data_ok [OF w 2(2)]
    have m': "m' = m\<lparr>sm_streams := (sm_streams m)(i \<mapsto> s2)\<rparr>" and p': "p' = emit_frame cp f h wnd p"
      using 2 i by (simp_all add: s2_def f_def h_def)
    have fit: "ps_currentLen p + h \<le> maxBytes" using 2(1) by (simp add: h_def)
    have f: "sf_StreamID f = i" "sf_Data f = d" "sf_Offset f = st_writeOffset s" "sf_DataLenPresent f"
      "sf_FinBit f = shouldSendFin s1"
      using i by (simp_all add: f_def next_frame_def empty_frame_def)
    have fh: "frame_header_len f = h"
      unfolding f_def h_def next_frame_def by (rule frame_header_len_cong) simp_all
    have s2: "st_streamID s2 = i" "unat (st_writeOffset s2) = unat (st_writeOffset s) + length d" "write_inv (W i) s2"
      "st_finishedWriting s2 \<longleftrightarrow> C i" "st_finSent s2 \<longleftrightarrow> st_finSent s \<or> sf_FinBit f"
      using t i c f(5) by (auto simp: s2_def sentFin_def)
    have Wi: "length (W i) < 2 ^ 62" using w by (simp add: write_inv_def)
    have ok: "frame_ok W C f"
      using t(3,5,6,10) c Wi f by (auto simp: frame_ok_def Let_def)
    have dl: "unat (StreamFrame_DataLen f) = length d" using frame_ok_DataLen [OF ok] f by simp
    have mx: "unat maxBytes < 2 ^ 62" "unat (ps_currentLen p) \<le> unat maxBytes" "unat h \<le> 25"
      using max inv frame_header_len_bound by (simp_all add: word_less_nat_alt word_le_nat_alt pop_inv_def h_def)
    have ch: "unat (ps_currentLen p + h) = unat (ps_currentLen p) + unat h"
      using mx by (intro unat_add_le) simp
    have "unat room = unat (maxBytes - (ps_currentLen p + h))" by (simp add: room_def diff_diff_eq)
    then have room: "unat room = unat maxBytes - (unat (ps_currentLen p) + unat h)" using fit ch by (simp add: unat_sub)
    have "length d \<le> unat room" using t(4) by (simp add: room_def h_def)
    then have len: "unat (ps_currentLen p) + (unat h + length d) \<le> unat maxBytes"
      using room fit ch by (simp add: word_le_nat_alt)
    have p'_sel: "ps_res p' = ps_res p @ [f]" "ps_currentLen p' = ps_currentLen p + (h + StreamFrame_DataLen f)"
      "ps_fm p' = snd (AddBytesSent i (StreamFrame_DataLen f) (ps_fm p))"
      using f(1) by (simp_all add: p' emit_frame_def Let_def)
    have hd: "unat (h + StreamFrame_DataLen f) = unat h + length d"
      using dl len mx by (subst unat_add_le) simp_all
    have len': "unat (ps_currentLen p') = unat (ps_currentLen p) + frame_len f" "ps_currentLen p' \<le> maxBytes"
      using len mx hd f fh unfolding p'_sel word_le_nat_alt
      by (simp_all add: unat_add_le frame_len_def)
    have "streams_ok W C m'" using inv s2 by (simp add: pop_inv_def streams_ok_def m')
    moreover have "popped W C (ps_res p')" using inv ok f by (auto simp: pop_inv_def popped_def p'_sel)
    moreover have "wrote m0 j \<le> wrote m' j \<and> positions j (ps_res p') = {wrote m0 j..<wrote m' j} \<and>
      (fin_sent m' j \<longleftrightarrow> fin_sent m0 j \<or> fins j (ps_res p'))" for j
    proof -
      have old: "wrote m0 j \<le> wrote m j" "positions j (ps_res p) = {wrote m0 j..<wrote m j}"
        "fin_sent m j \<longleftrightarrow> fin_sent m0 j \<or> fins j (ps_res p)" using inv by (simp_all add: pop_inv_def)
      show ?thesis
      proof (cases "j = i")
        case True
        have "wrote m i = unat (st_writeOffset s)" "wrote m' i = unat (st_writeOffset s) + length d"
          "fin_sent m i = st_finSent s" "fin_sent m' i = st_finSent s2"
          using s s2 by (simp_all add: wrote_def fin_sent_def m')
        note new = this old [unfolded True]
        have "{wrote m0 i..<wrote m i} \<union> {wrote m i..<wrote m i + length d} = {wrote m0 i..<wrote m i + length d}"
          using new(5) by (intro ivl_disj_un_two(3)) simp_all
        then have "positions i (ps_res p') = {wrote m0 i..<wrote m' i}"
          using new(1,2,6) f(1-3) by (simp add: p'_sel(1) span_def)
        moreover have "fin_sent m' i \<longleftrightarrow> fin_sent m0 i \<or> fins i (ps_res p')"
          using new(3,4,7) s2(5) f(1) by (simp add: p'_sel(1)) blast
        ultimately show ?thesis using new(1,2,5) unfolding True by simp
      next
        case False
        then have "wrote m' j = wrote m j" "fin_sent m' j = fin_sent m j" by (simp_all add: wrote_def fin_sent_def m')
        then show ?thesis using old False f by (simp add: p'_sel span_def)
      qed
    qed
    moreover have "unat (ps_currentLen p') = sum_list (map frame_len (ps_res p'))"
      using len' inv by (simp add: p'_sel(1) pop_inv_def)
    moreover have "StreamFrame_DataLen f = 0 \<or> (\<exists>w. SendWindowSize cp i (ps_fm p) = Inr w \<and> StreamFrame_DataLen f \<le> w)"
    proof (cases "d = []")
      case True
      then show ?thesis using f by (simp add: StreamFrame_DataLen_def)
    next
      case False
      then obtain n wd where n: "getDataForWriting n s = (Some d, s1)" "SendWindowSize cp i (ps_fm p) = Inr wd" "n \<le> wd"
        using 2(2) i by (auto simp: takes_data_def)
      then show ?thesis using getDataForWriting_ok [OF w n(1)] dl by (auto simp: word_le_nat_alt)
    qed
    then have "fm_run cp0 R (ps_fm p')" if "fm_run cp0 R (ps_fm p)"
      using AddBytesSent_run [OF that] unfolding p'_sel(3) by blast
    moreover have "dom (sm_streams m') = dom (sm_streams m)" using s by (auto simp: m')
    ultimately show ?thesis unfolding pop_inv_def using len'(2) by blast
  qed
qed

lemma maybePopNormalFrames_ok:
  assumes ok: "streams_ok W C m" and max: "maxBytes < 2 ^ 62"
    and pop: "maybePopNormalFrames cp maxBytes (fr, m, fm) = (res, fr', m', fm')"
  shows "\<exists>len. pop_inv W C maxBytes m m' len res \<and> dom (sm_streams m') = dom (sm_streams m) \<and>
    fr_retransmissionQueue fr' = fr_retransmissionQueue fr \<and> (fm_run cp0 R fm \<longrightarrow> fm_run cp0 R fm')"
proof -
  define p0 where "p0 = \<lparr> ps_res = [], ps_currentLen = 0, ps_blocked = fr_blockedFrameQueue fr, ps_fm = fm \<rparr>"
  define P where "P = (\<lambda>(m1, p :: pop_state). pop_inv W C maxBytes m m1 (ps_currentLen p) (ps_res p) \<and>
    dom (sm_streams m1) = dom (sm_streams m) \<and> (fm_run cp0 R fm \<longrightarrow> fm_run cp0 R (ps_fm p)))"
  have "P (snd (RoundRobinIterate (pop_visit cp maxBytes) (m, p0)))"
  proof (rule RoundRobinIterate_keeps)
    show "P (m, p0)" using ok by (simp add: P_def p0_def pop_inv_def popped_def)
    show "P (m1\<lparr>sm_roundRobinIndex := k\<rparr>, p)" if "P (m1, p)" for m1 p k
      using that by (simp add: P_def pop_inv_def streams_ok_def wrote_def fin_sent_def)
    show "P (m2, p2)" if "P (m1, p1)" "sm_streams m1 i = Some s" "pop_visit cp maxBytes s (m1, p1) = (r, m2, p2)"
      for i s m1 p1 r m2 p2
      using pop_visit_ok [OF _ max that(2,3), of W C m cp0 R] that(1) by (simp add: P_def)
  qed
  moreover obtain e m1 p where r: "RoundRobinIterate (pop_visit cp maxBytes) (m, p0) = (e, m1, p)" by (metis prod.exhaust)
  moreover have "res = ps_res p" "fr' = fr\<lparr>fr_blockedFrameQueue := ps_blocked p\<rparr>" "m' = m1" "fm' = ps_fm p"
    using pop r by (simp_all add: maybePopNormalFrames_def p0_def)
  ultimately show ?thesis by (intro exI [of _ "ps_currentLen p"]) (simp add: P_def)
qed

lemma PopStreamFrames_ok:
  assumes "PopStreamFrames cp maxLen (fr, m, fm) = (frames, fr', m', fm')" "maxLen < 2 ^ 62"
    and "streams_ok W C m" "\<forall>f\<in>set (fr_retransmissionQueue fr). frame_ok W C f"
  shows "sum_list (map frame_len frames) \<le> unat maxLen \<and> (\<forall>f\<in>set frames. frame_ok W C f \<and> sf_DataLenPresent f) \<and>
    streams_ok W C m' \<and> (\<forall>f\<in>set (fr_retransmissionQueue fr'). frame_ok W C f) \<and> (fm_run cp0 R fm \<longrightarrow> fm_run cp0 R fm') \<and>
    (let q = fr_retransmissionQueue fr; q' = fr_retransmissionQueue fr'
     in \<forall>i. wrote m i \<le> wrote m' i \<and>
       positions i q' \<subseteq> positions i q \<and> positions i frames \<union> positions i q' = positions i q \<union> {wrote m i..<wrote m' i} \<and>
       (fins i q \<longrightarrow> fins i frames \<or> fins i q') \<and>
       (fin_sent m i \<or> fins i frames \<or> fins i q' \<longleftrightarrow> fin_sent m' i \<or> fins i q))"
proof -
  obtain res len q' fm1 where re: "pop_retransmissions maxLen 0 (fr_retransmissionQueue fr) fm = (res, len, q', fm1)"
    by (metis prod.exhaust)
  define fr1 where "fr1 = fr\<lparr>fr_retransmissionQueue := q'\<rparr>"
  obtain normal fr2 m2 fm2 where no: "maybePopNormalFrames cp (maxLen - len) (fr1, m, fm1) = (normal, fr2, m2, fm2)"
    by (metis prod.exhaust)
  have pop: "frames = res @ normal" "fr' = fr2" "m' = m2" "fm' = fm2"
    using assms(1) re no by (simp_all add: PopStreamFrames_def maybePopFramesForRetransmission_def fr1_def)
  note a = pop_retransmissions_ok [OF re _ assms(2,4), of cp0 R, simplified]
  have "unat (maxLen - len) = unat maxLen - unat len" using a by (simp add: unat_sub)
  moreover have "unat maxLen < 2 ^ 62" using assms(2) by (simp add: word_less_nat_alt)
  ultimately have "maxLen - len < 2 ^ 62" by (simp add: word_less_nat_alt)
  from maybePopNormalFrames_ok [OF assms(3) this no, of cp0 R] obtain len2 where
    b: "pop_inv W C (maxLen - len) m m2 len2 normal" "fr_retransmissionQueue fr2 = q'" "fm_run cp0 R fm1 \<longrightarrow> fm_run cp0 R fm2"
    by (auto simp: fr1_def)
  have "unat len2 \<le> unat (maxLen - len)" "unat len2 = sum_list (map frame_len normal)"
    using b(1) by (simp_all add: pop_inv_def word_le_nat_alt)
  then have "sum_list (map frame_len frames) \<le> unat maxLen"
    using a \<open>unat (maxLen - len) = unat maxLen - unat len\<close> by (simp add: pop word_le_nat_alt) linarith
  moreover have "\<forall>f\<in>set frames. frame_ok W C f \<and> sf_DataLenPresent f" "streams_ok W C m'"
    using a b(1) by (auto simp: pop pop_inv_def popped_def)
  moreover have "wrote m i \<le> wrote m' i \<and>
       positions i q' \<subseteq> positions i (fr_retransmissionQueue fr) \<and> positions i frames \<union> positions i q' = positions i (fr_retransmissionQueue fr) \<union> {wrote m i..<wrote m' i} \<and>
       (fins i (fr_retransmissionQueue fr) \<longrightarrow> fins i frames \<or> fins i q') \<and>
       (fin_sent m i \<or> fins i frames \<or> fins i q' \<longleftrightarrow> fin_sent m' i \<or> fins i (fr_retransmissionQueue fr))" for i
    using a b(1) unfolding pop(1,3) pop_inv_def positions_simps fins_simps by blast
  ultimately show ?thesis
    using a b by (simp add: pop(2,4) Let_def)
qed

subsection \<open>Every byte once\<close>

text \<open>The bytes of stream \<open>i\<close> that frames carry, each as often as it is carried, and the number of its FIN bits.\<close>

definition carried :: "StreamID \<Rightarrow> StreamFrame list \<Rightarrow> nat multiset" where
  "carried i fs = sum_list (map (\<lambda>f. if sf_StreamID f = i
     then mset [unat (sf_Offset f)..<unat (sf_Offset f) + length (sf_Data f)] else {#}) fs)"

definition fin_count :: "StreamID \<Rightarrow> StreamFrame list \<Rightarrow> nat" where
  "fin_count i fs = length (filter (\<lambda>f. sf_StreamID f = i \<and> sf_FinBit f) fs)"

lemma carried_simps [simp]:
  "carried i [] = {#}" "carried i (fs @ gs) = carried i fs + carried i gs"
  "carried i (f # fs) = (if sf_StreamID f = i then mset [unat (sf_Offset f)..<unat (sf_Offset f) + length (sf_Data f)] else {#}) +
    carried i fs"
  by (simp_all add: carried_def)

lemma fin_count_simps [simp]:
  "fin_count i [] = 0" "fin_count i (fs @ gs) = fin_count i fs + fin_count i gs"
  "fin_count i (f # fs) = of_bool (sf_StreamID f = i \<and> sf_FinBit f) + fin_count i fs"
  by (simp_all add: fin_count_def)

lemma mset_upt_append: "a \<le> b \<Longrightarrow> b \<le> c \<Longrightarrow> mset [a..<b] + mset [b..<c] = mset [a..<c]"
  using upt_add_eq_append [of a b "c - b"] by (simp add: ac_simps del: mset_upt flip: mset_append)

lemma maybeSplitOffFrame_carried:
  assumes f: "frame_ok W C f" and split: "maybeSplitOffFrame f n = Some (g, h)"
  shows "carried i [g, h] = carried i [f] \<and> fin_count i [g, h] = fin_count i [f]"
proof -
  define k where "k = unat n"
  have lt: "k < length (sf_Data f)" and g: "sf_Data g = take k (sf_Data f)" "sf_Offset g = sf_Offset f" "sf_StreamID g = sf_StreamID f"
      "\<not> sf_FinBit g"
    and h: "h = f\<lparr>sf_Data := drop k (sf_Data f), sf_Offset := sf_Offset f + n\<rparr>"
    using split frame_ok_DataLen [OF f] by (auto simp: maybeSplitOffFrame_def k_def word_le_nat_alt split: if_splits)
  have "length (W (sf_StreamID f)) < 2 ^ 62" "unat (sf_Offset f) + length (sf_Data f) \<le> length (W (sf_StreamID f))"
    using f by (simp_all add: frame_ok_def Let_def)
  then have off: "unat (sf_Offset f + n) = unat (sf_Offset f) + k"
    using lt unfolding k_def by (intro unat_add_le) simp
  have "unat (sf_Offset f) + k + (length (sf_Data f) - k) = unat (sf_Offset f) + length (sf_Data f)" using lt by simp
  then show ?thesis
    using off lt g mset_upt_append [of "unat (sf_Offset f)" "unat (sf_Offset f) + k" "unat (sf_Offset f) + length (sf_Data f)"]
    by (simp add: h min_def del: mset_upt)
qed

lemma pop_retransmissions_carried:
  assumes "pop_retransmissions maxLen cur q fm = (res, len, q', fm')" "\<forall>f\<in>set q. frame_ok W C f"
  shows "carried i res + carried i q' = carried i q \<and> fin_count i res + fin_count i q' = fin_count i q"
  using assms
proof (induction q arbitrary: cur fm res len q' fm')
  case (Cons f0 q)
  define f where "f = f0\<lparr>sf_DataLenPresent := True\<rparr>"
  define len1 where "len1 = cur + frame_header_len f"
  have f: "frame_ok W C f" using Cons.prems(2) by (simp add: f_def)
  have same: "carried i (f # q) = carried i (f0 # q)" "fin_count i (f # q) = fin_count i (f0 # q)" by (simp_all add: f_def)
  show ?case
  proof (cases "len1 \<ge> maxLen")
    case True
    then show ?thesis using Cons.prems(1) same by (auto simp: Let_def f_def [symmetric] len1_def simp del: mset_upt carried_simps(3) fin_count_simps(3))
  next
    case lt: False
    show ?thesis
    proof (cases "maybeSplitOffFrame f (maxLen - len1)")
      case (Some gh)
      then obtain g h where gh: "maybeSplitOffFrame f (maxLen - len1) = Some (g, h)" by (cases gh) auto
      have "res = [g]" "q' = h # q" using Cons.prems(1) lt gh by (simp_all add: Let_def f_def [symmetric] len1_def [symmetric])
      then show ?thesis
        using maybeSplitOffFrame_carried [OF f gh, of i] same by (simp add: add.assoc [symmetric] del: mset_upt)
    next
      case None
      obtain res1 len2 q2 fm2 where rec: "pop_retransmissions maxLen (len1 + StreamFrame_DataLen f) q
          (snd (AddBytesRetrans (sf_StreamID f) (StreamFrame_DataLen f) fm)) = (res1, len2, q2, fm2)"
        by (metis prod.exhaust)
      have r: "res = f # res1" "q' = q2"
        using Cons.prems(1) lt None rec by (simp_all add: Let_def f_def [symmetric] len1_def [symmetric])
      show ?thesis using Cons.IH [OF rec] Cons.prems(2) same unfolding r by (simp add: add.assoc del: mset_upt)
    qed
  qed
qed simp

text \<open>What was cut from the streams between two states of the map.\<close>

definition cut_between :: "streamsMap \<Rightarrow> streamsMap \<Rightarrow> StreamFrame list \<Rightarrow> bool" where
  "cut_between m m' fs \<longleftrightarrow> (\<forall>i. wrote m i \<le> wrote m' i \<and> carried i fs = mset [wrote m i..<wrote m' i] \<and>
     of_bool (fin_sent m i) + fin_count i fs = of_bool (fin_sent m' i))"

lemma pop_visit_cut:
  assumes cut: "cut_between m0 m (ps_res p)" and ok: "streams_ok W C m" and s: "sm_streams m i = Some s"
    and visit: "pop_visit cp maxBytes s (m, p) = (r, m', p')"
  shows "cut_between m0 m' (ps_res p')"
proof -
  have i: "st_streamID s = i" and w: "write_inv (W i) s" using ok s by (auto simp: streams_ok_def)
  have s': "sm_streams m (st_streamID s) = Some s" using s i by simp
  show ?thesis
    using pop_visit_cases [OF visit s']
  proof cases
    case 1
    then show ?thesis using cut by simp
  next
    case (2 d s1 wnd)
    define s2 where "s2 = (if shouldSendFin s1 then sentFin s1 else s1)"
    note t = takes_data_ok [OF w 2(2)]
    have m': "m' = m\<lparr>sm_streams := (sm_streams m)(i \<mapsto> s2)\<rparr>" and p': "ps_res p' = ps_res p @ [next_frame s s1 d]"
      using 2 i by (simp_all add: s2_def emit_frame_def Let_def)
    have f: "sf_StreamID (next_frame s s1 d) = i" "sf_Data (next_frame s s1 d) = d" "sf_Offset (next_frame s s1 d) = st_writeOffset s"
      "sf_FinBit (next_frame s s1 d) = shouldSendFin s1" using i by (simp_all add: next_frame_def empty_frame_def)
    have s2: "unat (st_writeOffset s2) = unat (st_writeOffset s) + length d"
      "of_bool (st_finSent s) + of_bool (shouldSendFin s1) = (of_bool (st_finSent s2) :: nat)"
      using t by (auto simp: s2_def sentFin_def shouldSendFin_def)
    have i_sel: "wrote m i = unat (st_writeOffset s)" "wrote m' i = unat (st_writeOffset s) + length d"
      "fin_sent m i = st_finSent s" "fin_sent m' i = st_finSent s2" using s s2 by (simp_all add: wrote_def fin_sent_def m')
    show ?thesis unfolding cut_between_def
    proof (intro allI)
      fix j
      have old: "wrote m0 j \<le> wrote m j" "carried j (ps_res p) = mset [wrote m0 j..<wrote m j]"
        "of_bool (fin_sent m0 j) + fin_count j (ps_res p) = of_bool (fin_sent m j)" using cut by (simp_all add: cut_between_def)
      show "wrote m0 j \<le> wrote m' j \<and> carried j (ps_res p') = mset [wrote m0 j..<wrote m' j] \<and>
        of_bool (fin_sent m0 j) + fin_count j (ps_res p') = of_bool (fin_sent m' j)"
      proof (cases "j = i")
        case True
        have "carried i (ps_res p') = mset [wrote m0 i..<wrote m i] + mset [wrote m i..<wrote m' i]"
          using old(2) f i_sel unfolding True p' by (simp del: mset_upt)
        moreover have "fin_count i (ps_res p') = fin_count i (ps_res p) + of_bool (shouldSendFin s1)" by (simp add: p' f)
        ultimately show ?thesis
          using old i_sel s2(2) mset_upt_append [of "wrote m0 i" "wrote m i" "wrote m' i"] unfolding True by (simp del: mset_upt)
      next
        case False
        then have "wrote m' j = wrote m j" "fin_sent m' j = fin_sent m j" by (simp_all add: wrote_def fin_sent_def m')
        then show ?thesis using old False f by (simp add: p' del: mset_upt)
      qed
    qed
  qed
qed

lemma maybePopNormalFrames_cut:
  assumes ok: "streams_ok W C m" and max: "maxBytes < 2 ^ 62"
    and pop: "maybePopNormalFrames cp maxBytes (fr, m, fm) = (res, fr', m', fm')"
  shows "cut_between m m' res"
proof -
  define p0 where "p0 = \<lparr> ps_res = [], ps_currentLen = 0, ps_blocked = fr_blockedFrameQueue fr, ps_fm = fm \<rparr>"
  define P where "P = (\<lambda>(m1, p :: pop_state). pop_inv W C maxBytes m m1 (ps_currentLen p) (ps_res p) \<and> cut_between m m1 (ps_res p))"
  have "P (snd (RoundRobinIterate (pop_visit cp maxBytes) (m, p0)))"
  proof (rule RoundRobinIterate_keeps)
    show "P (m, p0)" using ok by (simp add: P_def p0_def pop_inv_def popped_def cut_between_def)
    show "P (m1\<lparr>sm_roundRobinIndex := k\<rparr>, p)" if "P (m1, p)" for m1 p k
      using that by (simp add: P_def pop_inv_def streams_ok_def wrote_def fin_sent_def cut_between_def)
    show "P (m2, p2)" if "P (m1, p1)" "sm_streams m1 i = Some s" "pop_visit cp maxBytes s (m1, p1) = (r, m2, p2)"
      for i s m1 p1 r m2 p2
      using pop_visit_ok [OF _ max that(2,3), of W C m] pop_visit_cut [OF _ _ that(2,3), of m W C] that(1)
      by (simp add: P_def pop_inv_def)
  qed
  moreover obtain e m1 p where r: "RoundRobinIterate (pop_visit cp maxBytes) (m, p0) = (e, m1, p)" by (metis prod.exhaust)
  moreover have "res = ps_res p" "m' = m1" using pop r by (simp_all add: maybePopNormalFrames_def p0_def)
  ultimately show ?thesis by (simp add: P_def)
qed

text \<open>What was cut from the streams, and what waited, is in the frames or still waits.\<close>

definition conserved :: "StreamFrame list \<Rightarrow> streamsMap \<Rightarrow> StreamFrame list \<Rightarrow> StreamFrame list \<Rightarrow> streamsMap \<Rightarrow> bool" where
  "conserved q m frames q' m' \<longleftrightarrow> (\<forall>i. wrote m i \<le> wrote m' i \<and>
     carried i frames + carried i q' = carried i q + mset [wrote m i..<wrote m' i] \<and>
     of_bool (fin_sent m i) + fin_count i frames + fin_count i q' = of_bool (fin_sent m' i) + fin_count i q)"

lemma PopStreamFrames_conserved:
  assumes "PopStreamFrames cp maxLen (fr, m, fm) = (frames, fr', m', fm')" "maxLen < 2 ^ 62"
    and "streams_ok W C m" "\<forall>f\<in>set (fr_retransmissionQueue fr). frame_ok W C f"
  shows "conserved (fr_retransmissionQueue fr) m frames (fr_retransmissionQueue fr') m'"
proof -
  obtain res len q' fm1 where re: "pop_retransmissions maxLen 0 (fr_retransmissionQueue fr) fm = (res, len, q', fm1)"
    by (metis prod.exhaust)
  define fr1 where "fr1 = fr\<lparr>fr_retransmissionQueue := q'\<rparr>"
  obtain normal fr2 m2 fm2 where no: "maybePopNormalFrames cp (maxLen - len) (fr1, m, fm1) = (normal, fr2, m2, fm2)"
    by (metis prod.exhaust)
  have pop: "frames = res @ normal" "fr' = fr2" "m' = m2"
    using assms(1) re no by (simp_all add: PopStreamFrames_def maybePopFramesForRetransmission_def fr1_def)
  have "len \<le> maxLen" using pop_retransmissions_ok [OF re _ assms(2,4)] by simp
  then have "maxLen - len \<le> maxLen" by (simp add: word_le_nat_alt unat_sub)
  then have small: "maxLen - len < 2 ^ 62" using assms(2) by simp
  have q: "fr_retransmissionQueue fr2 = q'" using maybePopNormalFrames_ok [OF assms(3) small no] by (auto simp: fr1_def)
  have a: "carried i res + carried i q' = carried i (fr_retransmissionQueue fr)"
    "fin_count i res + fin_count i q' = fin_count i (fr_retransmissionQueue fr)" for i
    using pop_retransmissions_carried [OF re assms(4), of i] by simp_all
  have b: "wrote m i \<le> wrote m2 i" "carried i normal = mset [wrote m i..<wrote m2 i]"
    "of_bool (fin_sent m i) + fin_count i normal = of_bool (fin_sent m2 i)" for i
    using maybePopNormalFrames_cut [OF assms(3) small no] by (simp_all add: cut_between_def)
  show ?thesis unfolding conserved_def pop q carried_simps fin_count_simps
  proof (intro allI conjI)
    fix i
    show "wrote m i \<le> wrote m2 i" by (rule b)
    show "carried i res + carried i normal + carried i q' = carried i (fr_retransmissionQueue fr) + mset [wrote m i..<wrote m2 i]"
      unfolding a(1) [symmetric] b(2) [symmetric] by (simp only: ac_simps)
    show "of_bool (fin_sent m i) + (fin_count i res + fin_count i normal) + fin_count i q' =
        of_bool (fin_sent m2 i) + fin_count i (fr_retransmissionQueue fr)"
      using a(2) [of i] b(3) [of i] by linarith
  qed
qed

text \<open>At most one BLOCKED frame is queued with every frame.\<close>

lemma PopStreamFrames_blocked:
  assumes "PopStreamFrames cp maxLen (fr, m, fm) = (frames, fr', m', fm')"
  shows "\<exists>new. fr_blockedFrameQueue fr' = fr_blockedFrameQueue fr @ new \<and> length new \<le> length frames"
proof -
  define b where "b = fr_blockedFrameQueue fr"
  define P where "P = (\<lambda>(m1 :: streamsMap, p :: pop_state). \<exists>new. ps_blocked p = b @ new \<and> length new \<le> length (ps_res p))"
  have all: "P (snd (RoundRobinIterate (pop_visit cp n) (m, \<lparr> ps_res = [], ps_currentLen = 0, ps_blocked = b, ps_fm = fm1 \<rparr>)))" for n fm1
  proof (rule RoundRobinIterate_keeps)
    show "P (m2, p2)" if v: "P (m1, p1)" "pop_visit cp n s (m1, p1) = (r, m2, p2)" for s m1 p1 r m2 p2
    proof (cases "p2 = p1")
      case False
      then obtain f h w where p2: "p2 = emit_frame cp f h w p1"
        using v(2) by (auto simp: pop_visit_def Let_def split: if_splits prod.splits)
      obtain new where new: "ps_blocked p1 = b @ new" "length new \<le> length (ps_res p1)" using v(1) by (auto simp: P_def)
      obtain l where l: "ps_blocked (emit_frame cp f h w p1) = ps_blocked p1 @ l" "length l \<le> 1"
        by (simp add: emit_frame_def Let_def split: if_split)
      have "length (ps_res p2) = Suc (length (ps_res p1))" by (simp add: p2 emit_frame_def Let_def)
      then show ?thesis using new l by (auto simp: P_def p2 intro: exI [of _ "new @ l"])
    qed (use v(1) in \<open>simp add: P_def\<close>)
  qed (auto simp: P_def)
  obtain res len q' fm1 where re: "pop_retransmissions maxLen 0 (fr_retransmissionQueue fr) fm = (res, len, q', fm1)"
    by (metis prod.exhaust)
  obtain e m1 p where r: "RoundRobinIterate (pop_visit cp (maxLen - len))
      (m, \<lparr> ps_res = [], ps_currentLen = 0, ps_blocked = b, ps_fm = fm1 \<rparr>) = (e, m1, p)" by (metis prod.exhaust)
  have "\<exists>new. ps_blocked p = b @ new \<and> length new \<le> length (ps_res p)"
    using all [of "maxLen - len" fm1] by (simp add: r P_def)
  moreover have "frames = res @ ps_res p" "fr_blockedFrameQueue fr' = ps_blocked p"
    using assms re r by (auto simp: PopStreamFrames_def maybePopFramesForRetransmission_def maybePopNormalFrames_def b_def)
  ultimately show ?thesis by (auto simp: b_def)
qed


subsection \<open>Something is sent\<close>

text \<open>
  A visit may leave everything as it is and go on; otherwise \<open>Q\<close> holds behind it and whatever comes later. If a visit of
  stream \<open>i\<close> cannot leave everything as it is, then the round robin reaches \<open>Q\<close>.
\<close>

definition visits_to :: "('a \<Rightarrow> bool) \<Rightarrow> 'a streamLambda \<Rightarrow> streamsMap \<Rightarrow> 'a \<Rightarrow> bool" where
  "visits_to Q fn m a \<longleftrightarrow>
     (\<forall>x s k. sm_streams m x = Some s \<longrightarrow> fn s (m\<lparr>sm_roundRobinIndex := k\<rparr>, a) = ((True, None), m\<lparr>sm_roundRobinIndex := k\<rparr>, a) \<or>
        Q (snd (snd (fn s (m\<lparr>sm_roundRobinIndex := k\<rparr>, a)))))"

lemma priority_loop_to:
  assumes q: "\<And>s m a r m' a'. Q a \<Longrightarrow> fn s (m, a) = (r, m', a') \<Longrightarrow> Q a'" and v: "visits_to Q fn m a"
    and goal: "sm_streams m i = Some s" "\<And>k. Q (snd (snd (fn s (m\<lparr>sm_roundRobinIndex := k\<rparr>, a))))"
    and run: "priority_loop fn js (m, a) = (r, m', a')"
  shows "r = (False, None) \<and> m' = m \<and> a' = a \<and> i \<notin> set js \<or> Q a'"
  using run
proof (induction js)
  case (Cons j js)
  define it where "it = iterateFunc j fn (m, a)"
  have eq: "(iterateFunc j fn (m, a) = ((True, Some errStreamsMapAccess), m, a) \<or>
      iterateFunc j fn (m, a) = ((True, None), m, a)) \<and> j \<noteq> i \<or> Q (snd (snd it))"
  proof (cases "sm_streams m j")
    case (Some t)
    have "m\<lparr>sm_roundRobinIndex := sm_roundRobinIndex m\<rparr> = m" by simp
    then have same: "fn t (m, a) = ((True, None), m, a) \<or> Q (snd (snd (fn t (m, a))))" "j = i \<Longrightarrow> Q (snd (snd (fn t (m, a))))"
      using v Some goal unfolding visits_to_def by (metis, metis option.inject)
    then show ?thesis using Some by (auto simp: iterateFunc_def it_def)
  qed (use goal in \<open>auto simp: iterateFunc_def\<close>)
  show ?case
  proof (cases "Q (snd (snd it))")
    case True
    then have "(\<lambda>(m, a). Q a) (snd (priority_loop fn (j # js) (m, a)))"
    proof (cases "priority_loop fn (j # js) (m, a) = ((True, None), snd it) \<or> (\<exists>e. priority_loop fn (j # js) (m, a) = ((True, e), snd it))")
      case False
      then have "priority_loop fn (j # js) (m, a) = priority_loop fn js (snd it)"
        by (auto simp: it_def split: prod.splits if_splits)
      moreover have "(\<lambda>(m, a). Q a) (snd (priority_loop fn js (snd it)))"
        by (rule priority_loop_keeps) (use q True in \<open>auto simp: split_beta\<close>)
      ultimately show ?thesis by simp
    qed (use True in auto)
    then show ?thesis using Cons.prems by simp
  next
    case False
    then show ?thesis using eq Cons by (auto simp: errStreamsMapAccess_def)
  qed
qed simp

lemma round_robin_to:
  assumes q: "\<And>s m a r m' a'. Q a \<Longrightarrow> fn s (m, a) = (r, m', a') \<Longrightarrow> Q a'" and v: "visits_to Q fn m a"
    and inv: "smap_inv m" and n: "length (sm_openStreams m) = n" "n < 2 ^ 31" "0 < n"
    and goal: "sm_streams m i = Some s" "i \<noteq> 1" "i \<noteq> 3" "\<And>k. Q (snd (snd (fn s (m\<lparr>sm_roundRobinIndex := k\<rparr>, a))))"
    and d: "sm_openStreams m ! ((j + k + d) mod n) = i" "j + k + d < 2 ^ 32" "d < r"
  shows "Q (snd (snd (round_robin_loop fn (of_nat n) (of_nat k) r (of_nat j) (m\<lparr>sm_roundRobinIndex := z\<rparr>, a))))"
  using d
proof (induction d arbitrary: j r z)
  case (0 j r z)
  then obtain r' where r: "r = Suc r'" by (cases r) auto
  have x: "unat ((of_nat j + of_nat k) mod of_nat n :: u32) = (j + k) mod n"
    using 0 n(2) by (intro unat_rr_index) simp_all
  have "(j + k) mod n < length (sm_openStreams m)" using n by simp
  moreover obtain b e m1 a1 where f: "fn s (m\<lparr>sm_roundRobinIndex := z\<rparr>, a) = ((b, e), m1, a1)" by (metis prod.exhaust)
  moreover have Q1: "Q a1" using goal(4) [of z] f by simp
  moreover have "(\<lambda>(m, a). Q a) (snd (round_robin_loop fn (of_nat n) (of_nat k) r' (of_nat j + 1) (m2, a1)))" for m2
    by (rule round_robin_loop_keeps) (use q Q1 in auto)
  ultimately show ?case
    using x 0(1) goal(1-3) by (auto simp: r Let_def iterateFunc_def split_beta split: option.splits)
next
  case (Suc d j r z)
  then obtain r' where r: "r = Suc r'" by (cases r) auto
  have x: "unat ((of_nat j + of_nat k) mod of_nat n :: u32) = (j + k) mod n"
    using Suc.prems n(2) by (intro unat_rr_index) simp_all
  have lt: "(j + k) mod n < length (sm_openStreams m)" using n by simp
  define y where "y = sm_openStreams m ! ((j + k) mod n)"
  have IH: "Q (snd (snd (round_robin_loop fn (of_nat n) (of_nat k) r' (of_nat j + 1) (m\<lparr>sm_roundRobinIndex := z\<rparr>, a))))" for z
    using Suc.IH [of "Suc j" r' z] Suc.prems r by (simp add: add.commute)
  show ?case
  proof (cases "y = 1 \<or> y = 3")
    case True
    then show ?thesis using IH x lt by (simp add: r Let_def y_def)
  next
    case False
    have "y \<in> dom (sm_streams m)" using lt smap_invD(2) [OF inv] nth_mem by (fastforce simp: y_def)
    then obtain t where t: "sm_streams m y = Some t" by blast
    obtain b e m1 a1 where f: "fn t (m\<lparr>sm_roundRobinIndex := z\<rparr>, a) = ((b, e), m1, a1)" by (metis prod.exhaust)
    show ?thesis
    proof (cases "Q a1")
      case True
      have "(\<lambda>(m, a). Q a) (snd (round_robin_loop fn (of_nat n) (of_nat k) r' (of_nat j + 1) (m2, a1)))" for m2
        by (rule round_robin_loop_keeps) (use q True in auto)
      then show ?thesis
        using x lt False t f True by (auto simp: r Let_def y_def [symmetric] iterateFunc_def split_beta split: option.splits)
    next
      case noQ: False
      then have "b \<and> e = None \<and> m1 = m\<lparr>sm_roundRobinIndex := z\<rparr> \<and> a1 = a"
        using v t f unfolding visits_to_def by (metis fst_conv snd_conv)
      then show ?thesis using x lt False t f IH by (simp add: r Let_def y_def [symmetric] iterateFunc_def)
    qed
  qed
qed

lemma RoundRobinIterate_to:
  assumes q: "\<And>s m a r m' a'. Q a \<Longrightarrow> fn s (m, a) = (r, m', a') \<Longrightarrow> Q a'" and v: "visits_to Q fn m a"
    and inv: "smap_inv m" and small: "length (sm_openStreams m) < 2 ^ 31" "unat (sm_roundRobinIndex m) < 2 ^ 31"
    and goal: "sm_streams m i = Some s" "i \<noteq> 1" "\<And>k. Q (snd (snd (fn s (m\<lparr>sm_roundRobinIndex := k\<rparr>, a))))"
  shows "Q (snd (snd (RoundRobinIterate fn (m, a))))"
proof -
  define n where "n = length (sm_openStreams m)"
  define k where "k = unat (sm_roundRobinIndex m)"
  note d = smap_invD [OF inv]
  have "card (dom (sm_streams m)) = n" using d(1,2) by (metis n_def distinct_card)
  moreover have "unat (of_nat n :: u32) = n" using small(1)
    by (simp add: n_def unsigned_of_nat take_bit_nat_eq_self)
  moreover have "sm_roundRobinIndex m = of_nat k" by (simp add: k_def)
  moreover obtain b e m1 a1 where p: "priority_loop fn [1, 3] (m, a) = ((b, e), m1, a1)" by (metis prod.exhaust)
  ultimately have eq: "RoundRobinIterate fn (m, a) =
      (if b then (e, m1, a1) else round_robin_loop fn (of_nat n) (of_nat k) n (of_nat 0) (m1, a1))"
    by (simp add: RoundRobinIterate_def Let_def)
  have cases: "(b, e) = (False, None) \<and> m1 = m \<and> a1 = a \<and> i \<notin> set [1, 3] \<or> Q a1"
    by (rule priority_loop_to [OF q v goal(1,3) p])
  show ?thesis
  proof (cases "Q a1")
    case True
    have "(\<lambda>(m, a). Q a) (snd (round_robin_loop fn (of_nat n) (of_nat k) n (of_nat 0) (m1, a1)))"
      by (rule round_robin_loop_keeps) (use q True in auto)
    then show ?thesis using True by (simp add: eq split_beta)
  next
    case False
    then have m1: "\<not> b" "m1 = m" "a1 = a" "i \<noteq> 3" using cases by auto
    have "i \<in> set (sm_openStreams m)" using goal(1) d(2) by auto
    then obtain x where x: "x < n" "sm_openStreams m ! x = i" by (auto simp: in_set_conv_nth n_def)
    define dd where "dd = (x + (n - k mod n)) mod n"
    have "(0 + k + dd) mod n = (k mod n + (x + (n - k mod n))) mod n" by (simp add: dd_def mod_simps)
    also have "k mod n + (x + (n - k mod n)) = x + n" using x(1) mod_less_divisor [of n k] by linarith
    finally have idx: "sm_openStreams m ! ((0 + k + dd) mod n) = i" using x by simp
    have "dd < n" using x(1) by (simp add: dd_def)
    moreover have "0 + k + dd < 2 ^ 32" using \<open>dd < n\<close> small by (simp add: n_def k_def)
    ultimately have "Q (snd (snd (round_robin_loop fn (of_nat n) (of_nat k) n (of_nat 0) (m\<lparr>sm_roundRobinIndex := sm_roundRobinIndex m\<rparr>, a))))"
      using small(1) x(1) idx m1(4)
      by (intro round_robin_to [OF q v inv _ _ _ goal(1,2) _ goal(3), where d = dd]) (auto simp: n_def)
    then show ?thesis by (simp add: eq m1)
  qed
qed

lemma emit_frame_res: "ps_res (emit_frame cp f h w p) \<noteq> []"
  by (simp add: emit_frame_def Let_def)

lemma pop_visit_res:
  assumes "ps_res p \<noteq> []" "pop_visit cp maxBytes s (m, p) = (r, m', p')"
  shows "ps_res p' \<noteq> []"
  using assms emit_frame_res by (auto simp: pop_visit_def Let_def split: if_splits prod.splits)

lemma PopStreamFrames_progress:
  assumes "sm_run pers m" "length (sm_openStreams m) < 2 ^ 31" "unat (sm_roundRobinIndex m) < 2 ^ 31"
    and "streams_ok W C m" "\<forall>f\<in>set (fr_retransmissionQueue fr). frame_ok W C f"
    and "25 < maxLen" "maxLen < 2 ^ 62"
    and "fr_retransmissionQueue fr \<noteq> [] \<or> (\<exists>i s. sm_streams m i = Some s \<and> sendable cp fm s)"
  shows "\<exists>frames fs'. PopStreamFrames cp maxLen (fr, m, fm) = (frames, fs') \<and> frames \<noteq> [] \<and>
    (fr_retransmissionQueue fr = [] \<longrightarrow> (\<forall>f\<in>set frames. sf_Data f \<noteq> [] \<or> sf_FinBit f))"
proof (cases "fr_retransmissionQueue fr")
  case (Cons f q)
  define f1 where "f1 = f\<lparr>sf_DataLenPresent := True\<rparr>"
  have "frame_header_len f1 \<le> 25" using frame_header_len_bound(1) by (simp add: word_le_nat_alt)
  then have "\<not> frame_header_len f1 \<ge> maxLen" using assms(6) by (metis le_less_trans not_le)
  then have "fst (pop_retransmissions maxLen 0 (f # q) fm) \<noteq> []"
    by (auto simp: Let_def f1_def split: option.splits prod.splits)
  then show ?thesis using Cons
    by (auto simp: PopStreamFrames_def maybePopFramesForRetransmission_def split: prod.splits)
next
  case Nil
  then obtain i s where s: "sm_streams m i = Some s" "sendable cp fm s" using assms(8) by auto
  have inv: "smap_inv m" using sm_run_inv [OF assms(1)] by simp
  have i: "st_streamID s = i" "i \<noteq> 1" using s smap_invD(3) [OF inv] by (auto simp: sendable_def)
  define p0 where "p0 = \<lparr> ps_res = [], ps_currentLen = 0, ps_blocked = fr_blockedFrameQueue fr, ps_fm = fm \<rparr>"
  define m0 where "m0 = (\<lambda>k. m\<lparr>sm_roundRobinIndex := k\<rparr>)"
  have visit: "fn = ((True, None), m0 k, p0) \<and> \<not> sendable cp fm t \<or> ps_res (snd (snd fn)) \<noteq> []"
    if t: "sm_streams m x = Some t" and fn: "fn = pop_visit cp maxLen t (m0 k, p0)" for x t k fn
  proof -
    obtain r m' p' where v: "pop_visit cp maxLen t (m0 k, p0) = (r, m', p')" by (metis prod.exhaust)
    have t': "sm_streams (m0 k) (st_streamID t) = Some t" using t smap_invD(3) [OF inv] by (auto simp: m0_def)
    have "frame_header_len (empty_frame t) \<le> 25" using frame_header_len_bound(1) by (simp add: word_le_nat_alt)
    then have "\<not> ps_currentLen p0 + frame_header_len (empty_frame t) \<ge> maxLen"
      using assms(6) by (simp add: p0_def)
    then have "m' = m0 k \<and> p' = p0 \<and> r = (True, None) \<and> \<not> sendable cp (ps_fm p0) t \<or> ps_res p' \<noteq> []"
      using emit_frame_res by (rule_tac pop_visit_cases [OF v t']) metis+
    then show ?thesis unfolding fn v by (auto simp: p0_def)
  qed
  have "ps_res (snd (snd (RoundRobinIterate (pop_visit cp maxLen) (m, p0)))) \<noteq> []"
  proof (rule RoundRobinIterate_to [where Q = "\<lambda>p. ps_res p \<noteq> []"])
    show "visits_to (\<lambda>p. ps_res p \<noteq> []) (pop_visit cp maxLen) m p0"
      using visit unfolding visits_to_def m0_def by blast
    show "ps_res (snd (snd (pop_visit cp maxLen s (m\<lparr>sm_roundRobinIndex := k\<rparr>, p0)))) \<noteq> []" for k
      using visit [OF s(1)] s(2) unfolding m0_def by blast
  qed (use pop_visit_res inv assms(2,3) s(1) i in \<open>blast+\<close>)
  moreover obtain frames fr' m' fm' where no: "maybePopNormalFrames cp maxLen (fr, m, fm) = (frames, fr', m', fm')"
    by (metis prod.exhaust)
  ultimately have "frames \<noteq> []"
    by (auto simp: maybePopNormalFrames_def p0_def split: prod.splits)
  moreover have "\<forall>f\<in>set frames. sf_Data f \<noteq> [] \<or> sf_FinBit f"
    using maybePopNormalFrames_ok [OF assms(4,7) no] by (auto simp: pop_inv_def popped_def frame_ok_def Let_def)
  moreover have fr: "fr\<lparr>fr_retransmissionQueue := []\<rparr> = fr" using Nil by simp
  have "PopStreamFrames cp maxLen (fr, m, fm) = (frames, fr', m', fm')"
    using no by (simp add: PopStreamFrames_def maybePopFramesForRetransmission_def Nil fr)
  ultimately show ?thesis by blast
qed

text \<open>
  C25. The framer makes progress. With room for more than a frame header, \<open>PopStreamFrames\<close> returns a frame whenever frames wait
  to be sent again, or whenever some stream apart from the crypto stream has data and a window, or its end, to send; every frame
  it cuts from a stream carries data or the end of the stream. So no stream is passed over while nothing else is sent.
\<close>
theorem framer_progress:
  assumes "sm_run pers m" "length (sm_openStreams m) < 2 ^ 31" "unat (sm_roundRobinIndex m) < 2 ^ 31"
    and "streams_ok W C m" "\<forall>f\<in>set (fr_retransmissionQueue fr). frame_ok W C f"
    and "25 < maxLen" "maxLen < 2 ^ 62"
    and "fr_retransmissionQueue fr \<noteq> [] \<or> (\<exists>i s. sm_streams m i = Some s \<and> sendable cp fm s)"
  shows "\<exists>frames fs'. PopStreamFrames cp maxLen (fr, m, fm) = (frames, fs') \<and> frames \<noteq> [] \<and>
    (fr_retransmissionQueue fr = [] \<longrightarrow> (\<forall>f\<in>set frames. sf_Data f \<noteq> [] \<or> sf_FinBit f))"
  by (rule PopStreamFrames_progress [OF assms])

text \<open>A server with three streams of the client; the application has written three bytes to stream 5.\<close>

definition framer_map :: streamsMap where
  "framer_map = three_streams\<lparr>sm_streams := (sm_streams three_streams)(5 \<mapsto> (newStream 5)\<lparr>st_dataForWriting := Some [1, 2, 3]\<rparr>)\<rparr>"

definition framer_fm :: flowControlManager where
  "framer_fm = NewStream fm_example_params 5 True (NewFlowControlManager fm_example_params)"

definition framer_bytes :: "StreamID \<Rightarrow> u8 list" where
  "framer_bytes i = (if i = 5 then [1, 2, 3] else [])"

lemma framer_example:
  "sm_run PerspectiveServer framer_map" "streams_ok framer_bytes (\<lambda>_. False) framer_map"
  "fm_run fm_example_params [] framer_fm" "sendable fm_example_params framer_fm ((newStream 5)\<lparr>st_dataForWriting := Some [1, 2, 3]\<rparr>)"
  "sm_streams framer_map 5 = Some ((newStream 5)\<lparr>st_dataForWriting := Some [1, 2, 3]\<rparr>)"
proof -
  show s5: "sm_streams framer_map 5 = Some ((newStream 5)\<lparr>st_dataForWriting := Some [1, 2, 3]\<rparr>)"
    by (simp add: framer_map_def)
  have "sm_streams three_streams 5 = Some (newStream 5)" by (simp add: three_streams_def)
  then show "sm_run PerspectiveServer framer_map"
    unfolding framer_map_def by (rule sm_run.content [OF three_streams_run]) (simp add: newStream_def)
  show "streams_ok framer_bytes (\<lambda>_. False) framer_map"
    by (auto simp: streams_ok_def framer_map_def three_streams_def framer_bytes_def newStream_def write_inv_def pending_def
        split: if_splits)
  show "fm_run fm_example_params [] framer_fm"
    unfolding framer_fm_def by (rule fm_new [OF fm_start]) (simp_all add: same_receive_windows_def)
  show "sendable fm_example_params framer_fm ((newStream 5)\<lparr>st_dataForWriting := Some [1, 2, 3]\<rparr>)"
    by (simp add: sendable_def lenOfDataForWriting_def len_data_def newStream_def framer_fm_def SendWindowSize_def
        fc_SendWindowSize_def getSendWindow_def fm_eval)
qed


lemma framer_progress_witness:
  "\<exists>frames fs'. PopStreamFrames fm_example_params 100 (newStreamFramer, framer_map, framer_fm) = (frames, fs') \<and> frames \<noteq> []"
proof -
  have "length (sm_openStreams framer_map) < 2 ^ 31" "unat (sm_roundRobinIndex framer_map) < 2 ^ 31"
    "\<forall>f\<in>set (fr_retransmissionQueue newStreamFramer). frame_ok framer_bytes (\<lambda>_. False) f"
    by (simp_all add: framer_map_def three_streams_def newStreamsMap_def newStreamFramer_def)
  moreover have "\<exists>i s. sm_streams framer_map i = Some s \<and> sendable fm_example_params framer_fm s"
    using framer_example(4,5) by blast
  ultimately show ?thesis
    using framer_progress [OF framer_example(1) _ _ framer_example(2), of newStreamFramer 100 fm_example_params framer_fm]
    by simp blast
qed

end
