(* ===== verification/Stream_Transfer.thy ===== *)
theory Stream_Transfer
  imports Stream_Framer Wire_Stream
begin

section \<open>From \<open>Write\<close> to \<open>Read\<close>\<close>

text \<open>
  The two ends of a session together. The application at one end writes to streams and closes them; the framer cuts
  what was written into frames, and sends frames again at any time; frames arrive in any order, once, repeatedly or not at
  all, as the bytes that \<open>StreamFrame.Write\<close> makes of them and \<open>ParseStreamFrame\<close> reads; the application at the
  other end reads. Flow control windows change freely.
\<close>

text \<open>
  What was written and closed, the framer with the map of streams at the sender, the frames sent; the streams at the receiver,
  the bytes that have arrived, and those that have been read.
\<close>

record transfer_net =
  nt_written :: "StreamID \<Rightarrow> u8 list"
  nt_closed :: "StreamID \<Rightarrow> bool"
  nt_framer :: framer_state
  nt_sent :: "StreamFrame list"
  nt_recv :: "StreamID \<Rightarrow> stream"
  nt_arrived :: "StreamID \<Rightarrow> u64 set"
  nt_read :: "StreamID \<Rightarrow> u8 list"

text \<open>The packer may drop the data length and the sent packet handler stamps a frame.\<close>

definition same_content :: "StreamFrame \<Rightarrow> StreamFrame \<Rightarrow> bool" where
  "same_content f g \<longleftrightarrow> sf_StreamID g = sf_StreamID f \<and> sf_Offset g = sf_Offset f \<and> sf_FinBit g = sf_FinBit f \<and> sf_Data g = sf_Data f"

inductive transfer :: "transfer_net \<Rightarrow> bool" where
  tr_start: "(\<And>i s. sm_streams m i = Some s \<Longrightarrow> s = newStream i) \<Longrightarrow>
    transfer \<lparr> nt_written = (\<lambda>_. []), nt_closed = (\<lambda>_. False), nt_framer = (newStreamFramer, m, fm), nt_sent = [],
      nt_recv = newStream, nt_arrived = (\<lambda>_. {}), nt_read = (\<lambda>_. []) \<rparr>"
| tr_write: "\<lbrakk> transfer n; nt_framer n = (fr, m, fm); sm_streams m i = Some s; st_dataForWriting s = None;
    Write_start p s = Inr s'; length (nt_written n i @ p) < 2 ^ 62 \<rbrakk> \<Longrightarrow>
    transfer (n\<lparr>nt_written := (nt_written n)(i := nt_written n i @ p),
      nt_framer := (fr, m\<lparr>sm_streams := (sm_streams m)(i \<mapsto> s')\<rparr>, fm)\<rparr>)"
| tr_close: "\<lbrakk> transfer n; nt_framer n = (fr, m, fm); sm_streams m i = Some s; stream_Close s = (s', ev) \<rbrakk> \<Longrightarrow>
    transfer (n\<lparr>nt_closed := (nt_closed n)(i := True),
      nt_framer := (fr, m\<lparr>sm_streams := (sm_streams m)(i \<mapsto> s')\<rparr>, fm)\<rparr>)"
| tr_pop: "\<lbrakk> transfer n; PopStreamFrames cp maxLen (nt_framer n) = (frames, fs'); maxLen \<le> 1350 \<rbrakk> \<Longrightarrow>
    transfer (n\<lparr>nt_framer := fs', nt_sent := nt_sent n @ frames\<rparr>)"
| tr_resend: "\<lbrakk> transfer n; nt_framer n = (fr, m, fm); f \<in> set (nt_sent n) \<rbrakk> \<Longrightarrow>
    transfer (n\<lparr>nt_framer := (AddFrameForRetransmission f fr, m, fm)\<rparr>)"
| tr_window: "\<lbrakk> transfer n; nt_framer n = (fr, m, fm) \<rbrakk> \<Longrightarrow> transfer (n\<lparr>nt_framer := (fr, m, fm')\<rparr>)"
| tr_arrive: "\<lbrakk> transfer n; f \<in> set (nt_sent n); same_content f g; sf_DataLenPresent g \<or> r = [];
    StreamFrame_Write v g = Inr bs; ParseStreamFrame v (bs @ r) = Inr (h, r'); i = sf_StreamID h;
    AddStreamFrame h (nt_recv n i) fm = (None, s', fm') \<rbrakk> \<Longrightarrow>
    transfer (n\<lparr>nt_recv := (nt_recv n)(i := s'), nt_arrived := (nt_arrived n)(i := nt_arrived n i \<union> frame_range h)\<rparr>)"
| tr_read: "\<lbrakk> transfer n; stream_Read now k (nt_recv n i) fm = Some (Returned (bs, e), s', fm', ev) \<rbrakk> \<Longrightarrow>
    transfer (n\<lparr>nt_recv := (nt_recv n)(i := s'), nt_read := (nt_read n)(i := nt_read n i @ bs)\<rparr>)"
| tr_wait: "\<lbrakk> transfer n; stream_Read now k (nt_recv n i) fm = Some (Waiting, s', fm', ev) \<rbrakk> \<Longrightarrow>
    transfer (n\<lparr>nt_recv := (nt_recv n)(i := s')\<rparr>)"
| tr_deadline: "transfer n \<Longrightarrow> transfer (n\<lparr>nt_recv := (nt_recv n)(i := SetReadDeadline t (nt_recv n i))\<rparr>)"
| tr_cancel: "transfer n \<Longrightarrow> transfer (n\<lparr>nt_recv := (nt_recv n)(i := stream_Cancel (Some e) (nt_recv n i))\<rparr>)"

subsection \<open>What both ends keep\<close>

text \<open>The bytes a stream may have in the end, given what was written and whether it was closed.\<close>

definition extends :: "u8 list \<Rightarrow> bool \<Rightarrow> u8 list \<Rightarrow> bool" where
  "extends W c T \<longleftrightarrow> length T < 2 ^ 62 \<and> (\<exists>rest. T = W @ rest) \<and> (c \<longrightarrow> T = W)"

text \<open>The sender: all bytes cut into frames have been sent in some frame, and frames to be sent again were sent before.\<close>

definition sender_inv :: "(StreamID \<Rightarrow> u8 list) \<Rightarrow> (StreamID \<Rightarrow> bool) \<Rightarrow> framer_state \<Rightarrow> StreamFrame list \<Rightarrow> bool" where
  "sender_inv W C fs sent \<longleftrightarrow> (case fs of (fr, m, fm) \<Rightarrow>
     streams_ok W C m \<and> (\<forall>f\<in>set (fr_retransmissionQueue fr). frame_ok W C f) \<and>
     (\<forall>f\<in>set sent. frame_ok W C f \<and> length (sf_Data f) \<le> 1350) \<and>
     (\<forall>i. positions i (fr_retransmissionQueue fr) \<subseteq> positions i sent \<and> {0..<wrote m i} \<subseteq> positions i sent))"

definition receiver_inv :: "u8 list \<Rightarrow> bool \<Rightarrow> u64 set \<Rightarrow> u8 list \<Rightarrow> stream \<Rightarrow> bool" where
  "receiver_inv W c A out s \<longleftrightarrow>
     (\<forall>T. extends W c T \<longrightarrow> read_inv (nth T) (length T) out s) \<and> err_ok s \<and>
     gap_set (fs_gaps (st_frameQueue s)) = {x. x < MaxByteCount \<and> x \<notin> A}"

lemma extends_append: "extends (W @ p) False T \<Longrightarrow> extends W False T"
  by (auto simp: extends_def)

lemma extends_close: "extends W True T \<Longrightarrow> extends W c T"
  by (auto simp: extends_def)

lemma extends_refl: "length W < 2 ^ 62 \<Longrightarrow> extends W c W"
  by (simp add: extends_def)

text \<open>Frames stay right when more is written.\<close>

lemma frame_ok_write:
  assumes "frame_ok W C f" "\<not> C i" "length (W i @ p) < 2 ^ 62"
  shows "frame_ok (W(i := W i @ p)) C f"
  using assms by (auto simp: frame_ok_def Let_def)

lemma frame_ok_close: "frame_ok W C f \<Longrightarrow> frame_ok W (C(i := True)) f"
  by (auto simp: frame_ok_def Let_def)

lemma frame_ok_stream_frame:
  assumes "frame_ok W C f" "extends (W (sf_StreamID f)) (C (sf_StreamID f)) T"
  shows "stream_frame (nth T) (length T) f"
proof -
  let ?w = "W (sf_StreamID f)" and ?o = "unat (sf_Offset f)" and ?n = "length (sf_Data f)"
  obtain rest where T: "T = ?w @ rest" "length T < 2 ^ 62" "C (sf_StreamID f) \<Longrightarrow> T = ?w"
    using assms(2) by (auto simp: extends_def)
  have w: "?o + ?n \<le> length ?w" "sf_Data f = take ?n (drop ?o ?w)" "sf_FinBit f \<Longrightarrow> C (sf_StreamID f) \<and> ?o + ?n = length ?w"
    "sf_Data f \<noteq> [] \<or> sf_FinBit f"
    using assms(1) by (auto simp: frame_ok_def Let_def)
  have "sf_Data f ! j = T ! (?o + j)" if "j < ?n" for j
    using that w(1) by (subst w(2)) (simp add: T(1) nth_append)
  then have fo: "frame_of (nth T) f" using w(1) T(1,2) by (simp add: frame_of_def)
  have e: "unat (frame_end f) = ?o + ?n" by (rule unat_frame_end [OF fo])
  then have "frame_end f < MaxByteCount" using w(1) T(1,2) by (simp add: word_less_nat_alt MaxByteCount_def)
  moreover have "unat (frame_end f) \<le> length T" using e w(1) T(1) by simp
  ultimately show ?thesis using fo w(3,4) T(3) by (auto simp: stream_frame_def)
qed

lemma receiver_inv_new: "receiver_inv W c {} [] (newStream i)"
  using read_inv_new by (auto simp: receiver_inv_def extends_def err_ok_def newStream_def newStreamFrameSorter_def)

subsection \<open>The steps of the receiver\<close>

lemma receiver_inv_arrive:
  assumes inv: "receiver_inv W c A out s" and f: "\<And>T. extends W c T \<Longrightarrow> stream_frame (nth T) (length T) f" and W: "length W < 2 ^ 62"
    and add: "AddStreamFrame f s fm = (None, s', fm')"
  shows "receiver_inv W c (A \<union> frame_range f) out s'"
proof -
  have "extends W c W" using W by (rule extends_refl)
  then have i: "read_inv (nth W) (length W) out s" "stream_frame (nth W) (length W) f"
    using inv f by (auto simp: receiver_inv_def)
  have s': "st_frameQueue s' = st_frameQueue s \<and> Push f (st_frameQueue s) = Inl errDuplicateStreamData \<or>
      Push f (st_frameQueue s) = Inr (st_frameQueue s')" "st_err s' = st_err s" "st_resetLocally s' = st_resetLocally s"
    "st_cancelled s' = st_cancelled s"
    using add by (auto simp: AddStreamFrame_def signalRead_def split: prod.splits option.splits sum.splits if_splits)
  have "gap_set (fs_gaps (st_frameQueue s')) = gap_set (fs_gaps (st_frameQueue s)) - frame_range f"
  proof -
    have "sorter_inv (nth W) (length W) (st_frameQueue s)" using i(1) by (simp add: read_inv_def)
    from push_correct [OF this i(2)]
    consider q where "Push f (st_frameQueue s) = Inr q" "gap_set (fs_gaps q) = gap_set (fs_gaps (st_frameQueue s)) - frame_range f"
      | "Push f (st_frameQueue s) = Inl errDuplicateStreamData" "frame_range f \<inter> gap_set (fs_gaps (st_frameQueue s)) = {}"
      | "Push f (st_frameQueue s) = Inl (GoErr ''errTooManyGapsInReceivedStreamData'')" by blast
    then show ?thesis
    proof cases
      case 1
      then show ?thesis using s'(1) by simp
    next
      case 2
      then show ?thesis using s'(1) by auto
    next
      case 3
      then show ?thesis using s'(1) by (simp add: errDuplicateStreamData_def)
    qed
  qed
  moreover have "read_inv (nth T) (length T) out s'" if "extends W c T" for T
    using read_inv_AddStreamFrame [OF _ f [OF that] add] inv that by (simp add: receiver_inv_def)
  moreover have "err_ok s'" using inv s'(2-4) by (simp add: receiver_inv_def err_ok_def)
  moreover have "gap_set (fs_gaps (st_frameQueue s)) - frame_range f = {x. x < MaxByteCount \<and> x \<notin> A \<union> frame_range f}"
    using inv by (auto simp: receiver_inv_def)
  ultimately show ?thesis by (simp add: receiver_inv_def)
qed

lemma receiver_inv_Returned:
  assumes inv: "receiver_inv W c A out s" and W: "length W < 2 ^ 62"
    and read: "stream_Read now k s fm = Some (Returned (bs, e), s', fm', ev)"
  shows "receiver_inv W c A (out @ bs) s'"
proof -
  have ok: "read_ok (nth T) (length T) out k s [] (stream_Read now k s fm)" if "extends W c T" for T
    using stream_Read_ok inv that by (simp add: receiver_inv_def)
  have "read_keeps s s'" using ok [OF extends_refl [OF W]] read by (auto simp: read_ok_def)
  moreover have "read_inv (nth T) (length T) (out @ bs) s'" if "extends W c T" for T
    using ok [OF that] read by (auto simp: read_ok_def)
  ultimately show ?thesis using inv by (simp add: receiver_inv_def read_keeps_def)
qed

lemma receiver_inv_Waiting:
  assumes inv: "receiver_inv W c A out s" and W: "length W < 2 ^ 62"
    and read: "stream_Read now k s fm = Some (Waiting, s', fm', ev)"
  shows "receiver_inv W c A out s'"
proof -
  have ok: "read_ok (nth T) (length T) out k s [] (stream_Read now k s fm)" if "extends W c T" for T
    using stream_Read_ok inv that by (simp add: receiver_inv_def)
  have "read_keeps s s'" using ok [OF extends_refl [OF W]] read by (auto simp: read_ok_def)
  moreover have "read_inv (nth T) (length T) out s'" if "extends W c T" for T
    using ok [OF that] read by (auto simp: read_ok_def)
  ultimately show ?thesis using inv by (simp add: receiver_inv_def read_keeps_def)
qed

lemma receiver_inv_cong:
  assumes "receiver_inv W c A out s" "st_frameQueue s' = st_frameQueue s" "st_readOffset s' = st_readOffset s" "err_ok s'"
  shows "receiver_inv W c A out s'"
  using assms by (simp add: receiver_inv_def read_inv_cong [of s' s])

lemma receiver_inv_extends:
  assumes "receiver_inv W c A out s" "\<And>T. extends W' c' T \<Longrightarrow> extends W c T"
  shows "receiver_inv W' c' A out s"
  using assms by (simp add: receiver_inv_def)

lemma err_ok_SetReadDeadline: "err_ok s \<Longrightarrow> err_ok (SetReadDeadline t s)"
  by (simp add: SetReadDeadline_def signalRead_def err_ok_def Let_def)

lemma err_ok_Cancel: "err_ok (stream_Cancel (Some e) s)"
  by (simp add: stream_Cancel_def signalRead_def signalWrite_def err_ok_def Let_def)

subsection \<open>The steps of the sender\<close>

lemma sender_inv_pop:
  assumes inv: "sender_inv W C fs sent" and pop: "PopStreamFrames cp maxLen fs = (frames, fs')" and max: "maxLen \<le> 1350"
  shows "sender_inv W C fs' (sent @ frames)"
proof -
  obtain fr m fm where fs: "fs = (fr, m, fm)" by (metis prod.exhaust)
  obtain fr' m' fm' where fs': "fs' = (fr', m', fm')" by (metis prod.exhaust)
  have small: "maxLen < 2 ^ 62" "unat maxLen \<le> 1350" using max by (auto simp: word_le_nat_alt word_less_nat_alt)
  have i: "streams_ok W C m" "\<forall>f\<in>set (fr_retransmissionQueue fr). frame_ok W C f"
    using inv by (simp_all add: sender_inv_def fs)
  note p = PopStreamFrames_ok [OF pop [unfolded fs fs'] small(1) i, where ?cp0.0 = cp and R = "[]"]
  have "length (sf_Data f) \<le> 1350" if "f \<in> set frames" for f
  proof -
    have "frame_len f \<le> sum_list (map frame_len frames)" using that by (intro member_le_sum_list) auto
    then show ?thesis using p small(2) by (simp add: frame_len_def)
  qed
  moreover have "{0..<wrote m' j} \<subseteq> positions j (sent @ frames)" for j
  proof -
    have j: "wrote m j \<le> wrote m' j" "positions j (fr_retransmissionQueue fr') \<subseteq> positions j (fr_retransmissionQueue fr)"
      "positions j frames \<union> positions j (fr_retransmissionQueue fr') = positions j (fr_retransmissionQueue fr) \<union> {wrote m j..<wrote m' j}"
      "positions j (fr_retransmissionQueue fr) \<subseteq> positions j sent" "{0..<wrote m j} \<subseteq> positions j sent"
      using p inv by (simp_all add: Let_def sender_inv_def fs)
    have "{0..<wrote m' j} \<subseteq> {0..<wrote m j} \<union> {wrote m j..<wrote m' j}" by auto
    then show ?thesis using j unfolding positions_simps by blast
  qed
  moreover have "positions j (fr_retransmissionQueue fr') \<subseteq> positions j (sent @ frames)" for j
  proof -
    have "positions j (fr_retransmissionQueue fr') \<subseteq> positions j sent"
      using p inv by (simp add: Let_def sender_inv_def fs) blast
    then show ?thesis by auto
  qed
  ultimately show ?thesis using p inv by (auto simp: sender_inv_def fs fs')
qed

lemma sender_inv_resend:
  assumes "sender_inv W C (fr, m, fm) sent" "f \<in> set sent"
  shows "sender_inv W C (AddFrameForRetransmission f fr, m, fm) sent"
proof -
  have "span i f \<subseteq> positions i sent" for i using assms(2) by (auto simp: positions_def)
  then show ?thesis using assms by (simp add: sender_inv_def AddFrameForRetransmission_def)
qed

lemma sender_inv_write:
  assumes inv: "sender_inv W C (fr, m, fm) sent" and s: "sm_streams m i = Some s" "st_dataForWriting s = None"
    and w: "Write_start p s = Inr s'" "length (W i @ p) < 2 ^ 62"
  shows "sender_inv (W(i := W i @ p)) C (fr, m\<lparr>sm_streams := (sm_streams m)(i \<mapsto> s')\<rparr>, fm) sent \<and> \<not> C i"
proof -
  have i: "st_streamID s = i" "write_inv (W i) s" "st_finishedWriting s \<longleftrightarrow> C i"
    using inv s by (auto simp: sender_inv_def streams_ok_def)
  have s': "st_streamID s' = i" "st_finishedWriting s' = st_finishedWriting s" "st_writeOffset s' = st_writeOffset s"
    "\<not> st_finishedWriting s"
    using w(1) i(1) by (auto simp: Write_start_def split: if_splits)
  have C: "\<not> C i" using s'(4) i(3) by simp
  have "wrote (m\<lparr>sm_streams := (sm_streams m)(i \<mapsto> s')\<rparr>) j = wrote m j" for j
    using s(1) s'(3) by (simp add: wrote_def)
  moreover have "streams_ok (W(i := W i @ p)) C (m\<lparr>sm_streams := (sm_streams m)(i \<mapsto> s')\<rparr>)"
    using inv write_inv_Write [OF i(2) s(2) w] s' i(3) by (auto simp: sender_inv_def streams_ok_def)
  ultimately show ?thesis using inv frame_ok_write [where W = W and C = C and i = i, OF _ C w(2)] C by (auto simp: sender_inv_def)
qed

lemma sender_inv_close:
  assumes inv: "sender_inv W C (fr, m, fm) sent" and s: "sm_streams m i = Some s" "stream_Close s = (s', ev)"
  shows "sender_inv W (C(i := True)) (fr, m\<lparr>sm_streams := (sm_streams m)(i \<mapsto> s')\<rparr>, fm) sent"
proof -
  have i: "st_streamID s = i" "write_inv (W i) s"
    using inv s by (auto simp: sender_inv_def streams_ok_def)
  have s': "s' = s\<lparr>st_finishedWriting := True, st_ctxDone := True\<rparr>" using s(2) by (simp add: stream_Close_def)
  have "write_inv (W i) s'" using i(2) by (simp add: s' write_inv_def pending_def)
  moreover have "wrote (m\<lparr>sm_streams := (sm_streams m)(i \<mapsto> s')\<rparr>) j = wrote m j" for j
    using s(1) by (simp add: wrote_def s')
  ultimately show ?thesis using inv i frame_ok_close by (auto simp: sender_inv_def streams_ok_def s')
qed

subsection \<open>Every run\<close>

definition net_inv :: "transfer_net \<Rightarrow> bool" where
  "net_inv n \<longleftrightarrow> sender_inv (nt_written n) (nt_closed n) (nt_framer n) (nt_sent n) \<and>
     (\<forall>i. length (nt_written n i) < 2 ^ 62 \<and>
       receiver_inv (nt_written n i) (nt_closed n i) (nt_arrived n i) (nt_read n i) (nt_recv n i))"

lemma frame_ok_arrived:
  assumes f: "frame_ok W C f" "length (sf_Data f) \<le> 1350" and g: "same_content f g" "sf_DataLenPresent g \<or> r = []"
    and wire: "StreamFrame_Write v g = Inr bs" "ParseStreamFrame v (bs @ r) = Inr (h, r')"
  shows "frame_ok W C h" "sf_StreamID h = sf_StreamID f" "frame_range h = frame_range f"
proof -
  have ok: "frame_ok W C g" using f(1) g(1) by (simp add: frame_ok_def same_content_def)
  then have "StreamFrame_wf g"
    using f(2) g(1) by (auto simp: StreamFrame_wf_def frame_ok_def same_content_def Let_def)
  then have "h = g" using ParseStreamFrame_written [OF _ wire(1) g(2)] wire(2) by simp
  then show "frame_ok W C h" "sf_StreamID h = sf_StreamID f" "frame_range h = frame_range f"
    using ok g(1) by (simp_all add: same_content_def frame_range_def frame_end_def StreamFrame_DataLen_def)
qed

lemma net_invD:
  assumes "net_inv n"
  shows "length (nt_written n i) < 2 ^ 62"
    "receiver_inv (nt_written n i) (nt_closed n i) (nt_arrived n i) (nt_read n i) (nt_recv n i)" "err_ok (nt_recv n i)"
  using assms by (simp_all add: net_inv_def receiver_inv_def)

lemma net_inv_recv:
  assumes "net_inv n" "receiver_inv (nt_written n i) (nt_closed n i) A out s"
  shows "net_inv (n\<lparr>nt_recv := (nt_recv n)(i := s), nt_arrived := (nt_arrived n)(i := A), nt_read := (nt_read n)(i := out)\<rparr>)"
  using assms by (simp add: net_inv_def)

lemma net_inv_sender:
  assumes "net_inv n" "sender_inv (nt_written n) (nt_closed n) fs sent"
  shows "net_inv (n\<lparr>nt_framer := fs, nt_sent := sent\<rparr>)"
  using assms by (simp add: net_inv_def)

lemma transfer_inv: "transfer n \<Longrightarrow> net_inv n"
proof (induction rule: transfer.induct)
  case (tr_start m fm)
  have "write_inv [] (newStream i)" "\<not> st_finishedWriting (newStream i)" "st_writeOffset (newStream i) = 0" "st_streamID (newStream i) = i" for i
    by (simp_all add: write_inv_new) (simp_all add: newStream_def)
  note new = this
  have "streams_ok (\<lambda>_. []) (\<lambda>_. False) m" using tr_start new unfolding streams_ok_def by metis
  moreover have "wrote m i = 0" for i
    using tr_start [of i] new(3) by (cases "sm_streams m i") (simp_all add: wrote_def)
  ultimately show ?case using receiver_inv_new by (simp add: net_inv_def sender_inv_def newStreamFramer_def)
next
  case (tr_write n fr m fm i s p s')
  have "sender_inv (nt_written n) (nt_closed n) (fr, m, fm) (nt_sent n)" using tr_write by (simp add: net_inv_def)
  note w = sender_inv_write [OF this tr_write(3-6)]
  have r: "receiver_inv (nt_written n i) (nt_closed n i) (nt_arrived n i) (nt_read n i) (nt_recv n i)"
    using tr_write.IH by (simp add: net_inv_def)
  have "nt_closed n i = False" using w by simp
  then have "receiver_inv (nt_written n i @ p) (nt_closed n i) (nt_arrived n i) (nt_read n i) (nt_recv n i)"
    using extends_append by (intro receiver_inv_extends [OF r]) simp
  then show ?case using w tr_write(6) tr_write.IH by (simp add: net_inv_def)
next
  case (tr_close n fr m fm i s s' ev)
  have "sender_inv (nt_written n) (nt_closed n) (fr, m, fm) (nt_sent n)" using tr_close by (simp add: net_inv_def)
  note w = sender_inv_close [OF this tr_close(3,4)]
  have "receiver_inv (nt_written n i) (nt_closed n i) (nt_arrived n i) (nt_read n i) (nt_recv n i)"
    using tr_close.IH by (simp add: net_inv_def)
  then have "receiver_inv (nt_written n i) True (nt_arrived n i) (nt_read n i) (nt_recv n i)"
    by (rule receiver_inv_extends) (rule extends_close)
  then show ?case using w tr_close.IH by (simp add: net_inv_def)
next
  case (tr_pop n cp maxLen frames fs')
  then show ?case using net_inv_sender sender_inv_pop by (simp add: net_inv_def) blast
next
  case (tr_resend n fr m fm f)
  then show ?case using sender_inv_resend by (simp add: net_inv_def)
next
  case (tr_window n fr m fm fm')
  then show ?case by (simp add: net_inv_def sender_inv_def)
next
  case (tr_arrive n f g r v bs h r' i fm s' fm')
  have f: "frame_ok (nt_written n) (nt_closed n) f" "length (sf_Data f) \<le> 1350"
    using tr_arrive.IH tr_arrive(2) by (auto simp: net_inv_def sender_inv_def)
  have h: "frame_ok (nt_written n) (nt_closed n) h" by (rule frame_ok_arrived [OF f tr_arrive(3-6)])
  have "receiver_inv (nt_written n i) (nt_closed n i) (nt_arrived n i \<union> frame_range h) (nt_read n i) s'"
    using frame_ok_stream_frame [OF h] net_invD [OF tr_arrive.IH, of i] tr_arrive(7,8)
    by (intro receiver_inv_arrive [where s = "nt_recv n i"]) blast+
  from net_inv_recv [OF tr_arrive.IH this] show ?case by simp
next
  case (tr_read n now k i fm bs e s' fm' ev)
  note r = net_invD [OF tr_read.IH, of i]
  from net_inv_recv [OF tr_read.IH receiver_inv_Returned [OF r(2,1) tr_read(2)]] show ?case by simp
next
  case (tr_wait n now k i fm s' fm' ev)
  note r = net_invD [OF tr_wait.IH, of i]
  from net_inv_recv [OF tr_wait.IH receiver_inv_Waiting [OF r(2,1) tr_wait(2)]] show ?case by simp
next
  case (tr_deadline n i t)
  note r = net_invD [OF tr_deadline.IH, of i]
  have "receiver_inv (nt_written n i) (nt_closed n i) (nt_arrived n i) (nt_read n i) (SetReadDeadline t (nt_recv n i))"
    using err_ok_SetReadDeadline [OF r(3)]
    by (intro receiver_inv_cong [OF r(2)]) (simp_all add: SetReadDeadline_def signalRead_def Let_def)
  from net_inv_recv [OF tr_deadline.IH this] show ?case by simp
next
  case (tr_cancel n i e)
  note r = net_invD [OF tr_cancel.IH, of i]
  have "receiver_inv (nt_written n i) (nt_closed n i) (nt_arrived n i) (nt_read n i) (stream_Cancel (Some e) (nt_recv n i))"
    using err_ok_Cancel
    by (intro receiver_inv_cong [OF r(2)]) (simp_all add: stream_Cancel_def signalRead_def signalWrite_def Let_def)
  from net_inv_recv [OF tr_cancel.IH this] show ?case by simp
qed

text \<open>
  C1. What is written is what is read. Whatever the application writes to the streams, however the framer cuts it, in packets of any
  size up to 1350 bytes, and however often frames are sent again, arrive and overlap: the bytes read from a stream are at every moment the
  beginning of the bytes written to it. And nothing gets lost: when all that was written has been handed to the framer and every
  frame sent has arrived at least once, a \<open>Read\<close> on a stream with bytes left to read returns some of them, unless the stream was reset or
  cancelled, its deadline has passed, or the end of the stream was reported before.
\<close>
theorem written_is_read:
  assumes "transfer n"
  shows "(\<exists>rest. nt_written n i = nt_read n i @ rest) \<and>
    (\<forall>fr m fm s now k rfm. nt_framer n = (fr, m, fm) \<and> sm_streams m i = Some s \<and> st_dataForWriting s = None \<and>
       (\<forall>f\<in>set (nt_sent n). sf_StreamID f = i \<longrightarrow> frame_range f \<subseteq> nt_arrived n i) \<and>
       length (nt_read n i) < length (nt_written n i) \<and> 0 < k \<and>
       \<not> st_finishedReading (nt_recv n i) \<and> \<not> st_resetLocally (nt_recv n i) \<and> \<not> st_cancelled (nt_recv n i) \<and>
       \<not> deadline_passed now (st_readDeadline (nt_recv n i)) \<longrightarrow>
       (\<exists>bs e s' fm' ev'. stream_Read now k (nt_recv n i) rfm = Some (Returned (bs, e), s', fm', ev') \<and> bs \<noteq> []))"
proof -
  let ?W = "nt_written n i" and ?s = "nt_recv n i"
  have inv: "net_inv n" by (rule transfer_inv [OF assms])
  then have W: "length ?W < 2 ^ 62" and r: "receiver_inv ?W (nt_closed n i) (nt_arrived n i) (nt_read n i) ?s"
    by (simp_all add: net_inv_def)
  then have read: "read_inv (nth ?W) (length ?W) (nt_read n i) ?s" "err_ok ?s"
    using extends_refl by (auto simp: receiver_inv_def)
  then have out: "nt_read n i = map (nth ?W) [0..<length (nt_read n i)]" "length (nt_read n i) \<le> length ?W"
    "unat (st_readOffset ?s) = length (nt_read n i)"
    unfolding read_inv_def by blast+
  have "nt_read n i = take (length (nt_read n i)) ?W"
    using out(1,2) by (metis map_nth take_map take_upt add_0 nat_le_linear)
  then have "?W = nt_read n i @ drop (length (nt_read n i)) ?W" by (metis append_take_drop_id)
  moreover have "\<exists>bs e s' fm' ev'. stream_Read now k ?s rfm = Some (Returned (bs, e), s', fm', ev') \<and> bs \<noteq> []"
    if n: "nt_framer n = (fr, m, fm)" "sm_streams m i = Some s" "st_dataForWriting s = None"
      and all: "\<forall>f\<in>set (nt_sent n). sf_StreamID f = i \<longrightarrow> frame_range f \<subseteq> nt_arrived n i"
      and lt: "length (nt_read n i) < length ?W" "0 < k"
      and free: "\<not> st_finishedReading ?s" "\<not> st_resetLocally ?s" "\<not> st_cancelled ?s"
        "\<not> deadline_passed now (st_readDeadline ?s)" for fr m fm s now k rfm
  proof -
    have sender: "sender_inv (nt_written n) (nt_closed n) (fr, m, fm) (nt_sent n)" using inv n(1) by (simp add: net_inv_def)
    then have "write_inv ?W s" using n(2) by (auto simp: sender_inv_def streams_ok_def)
    then have "wrote m i = length ?W" using n(2,3) by (simp add: wrote_def write_inv_def pending_def)
    moreover have "{0..<wrote m i} \<subseteq> positions i (nt_sent n)" using sender by (simp add: sender_inv_def)
    ultimately have "length (nt_read n i) \<in> positions i (nt_sent n)" using lt(1) by auto
    then obtain f where f: "f \<in> set (nt_sent n)" "sf_StreamID f = i" "unat (sf_Offset f) \<le> length (nt_read n i)"
      "length (nt_read n i) < unat (sf_Offset f) + length (sf_Data f)"
      by (auto simp: positions_def span_def split: if_splits)
    have "frame_ok (nt_written n) (nt_closed n) f" using sender f(1) by (simp add: sender_inv_def)
    then have "stream_frame (nth ?W) (length ?W) f"
      using frame_ok_stream_frame [OF _ extends_refl] W f(2) by blast
    then have "unat (frame_end f) = unat (sf_Offset f) + length (sf_Data f)" using unat_frame_end unfolding stream_frame_def by blast
    then have "st_readOffset ?s \<in> frame_range f" using f(3,4) out(3) by (simp add: frame_range_def word_le_nat_alt word_less_nat_alt)
    then have "st_readOffset ?s \<in> nt_arrived n i" using all f(1,2) by blast
    then have "st_readOffset ?s \<notin> gap_set (fs_gaps (st_frameQueue ?s))" using r by (simp add: receiver_inv_def)
    from read_loop_progress [OF read lt(2) this free(2,3,4)] show ?thesis using free by (simp add: stream_Read_def)
  qed
  ultimately show ?thesis by blast
qed

subsection \<open>The end of a stream is reported too early\<close>

definition eof_map :: "stream \<Rightarrow> streamsMap" where
  "eof_map s = (newStreamsMap PerspectiveServer)\<lparr>sm_streams := [5 \<mapsto> s], sm_openStreams := [5]\<rparr>"

definition eof_piece :: "u64 \<Rightarrow> u8 list \<Rightarrow> bool \<Rightarrow> StreamFrame" where
  "eof_piece off data fin = \<lparr> sf_StreamID = 5, sf_FinBit = fin, sf_DataLenPresent = True, sf_Offset = off,
     sf_LossCount = 0, sf_PathID = 0, sf_TimeStamp = 0, sf_Data = data \<rparr>"

definition eof_closed :: stream where
  "eof_closed = (newStream 5)\<lparr>st_dataForWriting := Some [1, 2, 3, 4], st_finishedWriting := True, st_ctxDone := True\<rparr>"

definition eof_sent :: stream where
  "eof_sent = (newStream 5)\<lparr>st_writeOffset := 4, st_finishedWriting := True, st_ctxDone := True, st_finSent := True, st_writeChan := True\<rparr>"

lemmas pop_eval =
  PopStreamFrames_def maybePopFramesForRetransmission_def maybePopNormalFrames_def RoundRobinIterate_def iterateFunc_def
  pop_visit_def empty_frame_def emit_frame_def frame_header_len_def StreamFrame_MinLength_def calculateStreamIDLength_def
  getOffsetLength_def lenOfDataForWriting_def len_data_def getDataForWriting_def shouldSendFin_def sentFin_def signalWrite_def
  maybeSplitOffFrame_def StreamFrame_DataLen_def newStreamsMap_def newStream_def newStreamFramer_def Let_def
  errStreamsMapAccess_def

lemma eof_pop1:
  "\<exists>fm'. PopStreamFrames fm_example_params 1000 (newStreamFramer, eof_map eof_closed, framer_fm) =
    ([eof_piece 0 [1, 2, 3, 4] True], newStreamFramer, eof_map eof_sent, fm')"
  by (simp add: pop_eval eof_map_def eof_closed_def eof_sent_def eof_piece_def framer_fm_def SendWindowSize_def
        fc_SendWindowSize_def getSendWindow_def RemainingConnectionWindowSize_def AddBytesSent_def fc_AddBytesSent_def fm_eval)

lemma eof_pop2:
  "\<exists>fm'. PopStreamFrames fm_example_params 16 (AddFrameForRetransmission (eof_piece 0 [1, 2, 3, 4] True) newStreamFramer, eof_map eof_sent, fm) =
    ([eof_piece 0 [1, 2] False], AddFrameForRetransmission (eof_piece 2 [3, 4] True) newStreamFramer, eof_map eof_sent, fm')"
  by (simp add: pop_eval AddFrameForRetransmission_def eof_map_def eof_sent_def eof_piece_def fm_eval)

lemma eof_pop3:
  "\<exists>fm'. PopStreamFrames fm_example_params 1000 (AddFrameForRetransmission (eof_piece 2 [3, 4] True) newStreamFramer, eof_map eof_sent, fm) =
    ([eof_piece 2 [3, 4] True], newStreamFramer, eof_map eof_sent, fm')"
  by (simp add: pop_eval AddFrameForRetransmission_def eof_map_def eof_sent_def eof_piece_def fm_eval)

lemma tr_deliver:
  assumes n: "transfer n" "f \<in> set (nt_sent n)" and f: "StreamFrame_wf f" "sf_DataLenPresent f"
    and add: "AddStreamFrame f (nt_recv n (sf_StreamID f)) fm = (None, s', fm')"
  shows "transfer (n\<lparr>nt_recv := (nt_recv n)(sf_StreamID f := s'),
    nt_arrived := (nt_arrived n)(sf_StreamID f := nt_arrived n (sf_StreamID f) \<union> frame_range f)\<rparr>)"
proof -
  obtain bs where bs: "StreamFrame_Write 39 f = Inr bs" using f(1) by (auto simp: StreamFrame_Write_eq StreamFrame_wf_def)
  have "same_content f f" by (simp add: same_content_def)
  then show ?thesis
    using tr_arrive [OF n, of f "[]"] ParseStreamFrame_written [OF f(1) bs, of "[]"] bs f(2) add by blast
qed

definition eof_recv :: stream where
  "eof_recv = fst (snd (AddStreamFrame (eof_piece 0 [1, 2, 3, 4] True)
     (fst (snd (AddStreamFrame (eof_piece 2 [3, 4] True) (newStream 5) framer_fm))) framer_fm))"

lemmas recv_eval =
  AddStreamFrame_def eof_piece_def newStream_def framer_fm_def fm_eval newStreamFrameSorter_def Push_def push_frame_def
  StreamFrame_DataLen_def MaxByteCount_def update_gaps_def later_gap_def drop_front_def MaxStreamFrameSorterGaps_def signalRead_def

lemma eof_arrive:
  obtains r fm1 fm2 where "AddStreamFrame (eof_piece 2 [3, 4] True) (newStream 5) framer_fm = (None, r, fm1)"
    "AddStreamFrame (eof_piece 0 [1, 2, 3, 4] True) r framer_fm = (None, eof_recv, fm2)"
proof -
  define r where "r = fst (snd (AddStreamFrame (eof_piece 2 [3, 4] True) (newStream 5) framer_fm))"
  have "fst (AddStreamFrame (eof_piece 2 [3, 4] True) (newStream 5) framer_fm) = None"
    "fst (AddStreamFrame (eof_piece 0 [1, 2, 3, 4] True) r framer_fm) = None"
    by (simp_all add: recv_eval r_def)
  then show thesis using that r_def eof_recv_def by (metis prod.collapse)
qed

lemma eof_read:
  "\<exists>s' fm' ev. stream_Read 0 10 eof_recv fm = Some (Returned ([1, 2], Some EOF), s', fm', ev) \<and>
    stream_Read 0 10 s' fm = Some (Returned ([], Some EOF), s', fm, [])"
  by (simp add: eof_recv_def recv_eval stream_Read_def read_loop.simps [of _ 10] read_wait_def deadline_passed_def Head_def Pop_def)

text \<open>The bytes 1 to 4 are written to stream 5, which is closed; they are sent, and sent again in two frames.\<close>

definition eof_net :: "flowControlManager \<Rightarrow> transfer_net" where
  "eof_net fm = \<lparr> nt_written = (\<lambda>_. [])(5 := [1, 2, 3, 4]), nt_closed = (\<lambda>_. False)(5 := True),
     nt_framer = (newStreamFramer, eof_map eof_sent, fm),
     nt_sent = [eof_piece 0 [1, 2, 3, 4] True, eof_piece 0 [1, 2] False, eof_piece 2 [3, 4] True],
     nt_recv = newStream, nt_arrived = (\<lambda>_. {}), nt_read = (\<lambda>_. []) \<rparr>"

lemma eof_net_run: "\<exists>fm. transfer (eof_net fm)"
proof -
  define n0 where "n0 = \<lparr> nt_written = (\<lambda>_. []), nt_closed = (\<lambda>_. False), nt_framer = (newStreamFramer, eof_map (newStream 5), framer_fm),
    nt_sent = [], nt_recv = newStream, nt_arrived = (\<lambda>_. {}), nt_read = (\<lambda>_. []) \<rparr>"
  define s1 where "s1 = (newStream 5)\<lparr>st_dataForWriting := Some [1, 2, 3, 4]\<rparr>"
  define n1 where "n1 = n0\<lparr>nt_written := (\<lambda>_. [])(5 := [1, 2, 3, 4]), nt_framer := (newStreamFramer, eof_map s1, framer_fm)\<rparr>"
  define n2 where "n2 = n1\<lparr>nt_closed := (\<lambda>_. False)(5 := True), nt_framer := (newStreamFramer, eof_map eof_closed, framer_fm)\<rparr>"
  note map = eof_map_def newStreamsMap_def
  have "transfer n0" unfolding n0_def by (rule tr_start) (simp add: map split: if_splits)
  then have "transfer (n0\<lparr>nt_written := (nt_written n0)(5 := nt_written n0 5 @ [1, 2, 3, 4]),
      nt_framer := (newStreamFramer, (eof_map (newStream 5))\<lparr>sm_streams := (sm_streams (eof_map (newStream 5)))(5 \<mapsto> s1)\<rparr>, framer_fm)\<rparr>)"
    by (rule tr_write [where s = "newStream 5"]) (simp_all add: n0_def map newStream_def Write_start_def s1_def)
  then have 1: "transfer n1" by (simp add: n1_def n0_def map)
  then have "transfer (n1\<lparr>nt_closed := (nt_closed n1)(5 := True),
      nt_framer := (newStreamFramer, (eof_map s1)\<lparr>sm_streams := (sm_streams (eof_map s1))(5 \<mapsto> eof_closed)\<rparr>, framer_fm)\<rparr>)"
    by (rule tr_close [where s = s1 and ev = "[OnData]"]) (simp_all add: n1_def map stream_Close_def eof_closed_def s1_def)
  then have 2: "transfer n2" by (simp add: n2_def n1_def n0_def map)
  obtain fm3 where p3: "PopStreamFrames fm_example_params 1000 (newStreamFramer, eof_map eof_closed, framer_fm) =
    ([eof_piece 0 [1, 2, 3, 4] True], newStreamFramer, eof_map eof_sent, fm3)" using eof_pop1 by blast
  define n3 where "n3 = n2\<lparr>nt_framer := (newStreamFramer, eof_map eof_sent, fm3), nt_sent := [eof_piece 0 [1, 2, 3, 4] True]\<rparr>"
  have 3: "transfer n3" using tr_pop [OF 2, of fm_example_params 1000] p3 by (simp add: n3_def n2_def n1_def n0_def)
  define f4 where "f4 = AddFrameForRetransmission (eof_piece 0 [1, 2, 3, 4] True) newStreamFramer"
  have 4: "transfer (n3\<lparr>nt_framer := (f4, eof_map eof_sent, fm3)\<rparr>)"
    unfolding f4_def by (rule tr_resend [OF 3]) (simp_all add: n3_def)
  obtain fm5 where p5: "PopStreamFrames fm_example_params 16 (f4, eof_map eof_sent, fm3) =
    ([eof_piece 0 [1, 2] False], AddFrameForRetransmission (eof_piece 2 [3, 4] True) newStreamFramer, eof_map eof_sent, fm5)"
    using eof_pop2 unfolding f4_def by blast
  define n5 where "n5 = n3\<lparr>nt_framer := (AddFrameForRetransmission (eof_piece 2 [3, 4] True) newStreamFramer, eof_map eof_sent, fm5),
    nt_sent := [eof_piece 0 [1, 2, 3, 4] True, eof_piece 0 [1, 2] False]\<rparr>"
  have 5: "transfer n5" using tr_pop [OF 4, of fm_example_params 16] p5 by (simp add: n5_def n3_def)
  obtain fm6 where p6: "PopStreamFrames fm_example_params 1000 (AddFrameForRetransmission (eof_piece 2 [3, 4] True) newStreamFramer, eof_map eof_sent, fm5) =
    ([eof_piece 2 [3, 4] True], newStreamFramer, eof_map eof_sent, fm6)" using eof_pop3 by blast
  have "transfer (eof_net fm6)"
    using tr_pop [OF 5, of fm_example_params 1000] p6
    by (simp add: eof_net_def n5_def n3_def n2_def n1_def n0_def)
  then show ?thesis by blast
qed

lemma eof_net_arrived:
  "\<exists>n. transfer n \<and> nt_written n 5 = [1, 2, 3, 4] \<and> nt_closed n 5 \<and> nt_recv n 5 = eof_recv \<and> nt_read n 5 = [] \<and>
    frame_range (eof_piece 0 [1, 2, 3, 4] True) \<subseteq> nt_arrived n 5 \<and> (\<exists>fm. nt_framer n = (newStreamFramer, eof_map eof_sent, fm)) \<and>
    nt_sent n = [eof_piece 0 [1, 2, 3, 4] True, eof_piece 0 [1, 2] False, eof_piece 2 [3, 4] True]"
proof -
  obtain fm where 0: "transfer (eof_net fm)" using eof_net_run by blast
  obtain r1 fm1 fm2 where r: "AddStreamFrame (eof_piece 2 [3, 4] True) (newStream 5) framer_fm = (None, r1, fm1)"
    "AddStreamFrame (eof_piece 0 [1, 2, 3, 4] True) r1 framer_fm = (None, eof_recv, fm2)" using eof_arrive .
  define n1 where "n1 = (eof_net fm)\<lparr>nt_recv := newStream(5 := r1), nt_arrived := (\<lambda>_. {})(5 := frame_range (eof_piece 2 [3, 4] True))\<rparr>"
  have i: "sf_StreamID (eof_piece off d fin) = 5" "sf_DataLenPresent (eof_piece off d fin)" for off d fin
    by (simp_all add: eof_piece_def)
  have wf: "StreamFrame_wf (eof_piece 2 [3, 4] True)" "StreamFrame_wf (eof_piece 0 [1, 2, 3, 4] True)"
    by (simp_all add: StreamFrame_wf_def eof_piece_def)
  have 1: "transfer n1"
    using tr_deliver [OF 0 _ wf(1) i(2), of framer_fm r1 fm1] r(1) i(1) by (simp add: n1_def eof_net_def)
  define n2 where "n2 = n1\<lparr>nt_recv := newStream(5 := eof_recv),
    nt_arrived := (\<lambda>_. {})(5 := frame_range (eof_piece 2 [3, 4] True) \<union> frame_range (eof_piece 0 [1, 2, 3, 4] True))\<rparr>"
  have "transfer n2"
    using tr_deliver [OF 1 _ wf(2) i(2), of framer_fm eof_recv fm2] r(2) i(1) by (simp add: n2_def n1_def eof_net_def)
  then show ?thesis by (intro exI [of _ n2]) (simp add: n2_def n1_def eof_net_def)
qed

text \<open>
  C39. The end may be reported too early. A stream is written, closed and sent in one frame; the frame is taken as lost and sent again
  in two; the second of them overtakes the first transmission, which then arrives and is cut behind its second byte but keeps its FIN bit. All bytes
  have arrived, and still the reader gets the first two bytes with the end of the stream, and nothing more ever after.
\<close>
theorem end_reported_early:
  "\<exists>n s' fm' ev. transfer n \<and> nt_written n 5 = [1, 2, 3, 4] \<and> nt_closed n 5 \<and> nt_read n 5 = [] \<and>
    {0..<4} \<subseteq> nt_arrived n 5 \<and>
    stream_Read 0 10 (nt_recv n 5) framer_fm = Some (Returned ([1, 2], Some EOF), s', fm', ev) \<and>
    stream_Read 0 10 s' framer_fm = Some (Returned ([], Some EOF), s', framer_fm, [])"
proof -
  obtain n where n: "transfer n" "nt_written n 5 = [1, 2, 3, 4]" "nt_closed n 5" "nt_recv n 5 = eof_recv" "nt_read n 5 = []"
    "frame_range (eof_piece 0 [1, 2, 3, 4] True) \<subseteq> nt_arrived n 5" using eof_net_arrived by blast
  have "frame_range (eof_piece 0 [1, 2, 3, 4] True) = {0..<4}"
    by (simp add: frame_range_def frame_end_def eof_piece_def StreamFrame_DataLen_def)
  then show ?thesis using n eof_read [of framer_fm] by metis
qed

text \<open>In this run all that was written has been sent and has arrived.\<close>

lemma written_is_read_witness:
  "\<exists>n rest. transfer n \<and> nt_written n 5 = [1, 2, 3, 4] \<and> nt_written n 5 = nt_read n 5 @ rest \<and>
    (\<exists>bs e s' fm' ev'. stream_Read 0 10 (nt_recv n 5) framer_fm = Some (Returned (bs, e), s', fm', ev') \<and> bs \<noteq> [])"
proof -
  obtain n fm where n: "transfer n" "nt_written n 5 = [1, 2, 3, 4]" "nt_read n 5 = []" "nt_recv n 5 = eof_recv"
    "frame_range (eof_piece 0 [1, 2, 3, 4] True) \<subseteq> nt_arrived n 5" "nt_framer n = (newStreamFramer, eof_map eof_sent, fm)"
    "nt_sent n = [eof_piece 0 [1, 2, 3, 4] True, eof_piece 0 [1, 2] False, eof_piece 2 [3, 4] True]"
    using eof_net_arrived by blast
  have "frame_range f \<subseteq> frame_range (eof_piece 0 [1, 2, 3, 4] True)" if "f \<in> set (nt_sent n)" for f
    using that by (auto simp: n(7) frame_range_def frame_end_def eof_piece_def StreamFrame_DataLen_def)
  then have "\<forall>f\<in>set (nt_sent n). sf_StreamID f = 5 \<longrightarrow> frame_range f \<subseteq> nt_arrived n 5" using n(5) by blast
  moreover have "sm_streams (eof_map eof_sent) 5 = Some eof_sent" "st_dataForWriting eof_sent = None"
    by (simp_all add: eof_map_def eof_sent_def newStream_def)
  moreover have "\<not> st_finishedReading eof_recv \<and> \<not> st_resetLocally eof_recv \<and> \<not> st_cancelled eof_recv \<and>
      \<not> deadline_passed 0 (st_readDeadline eof_recv)"
    by (simp add: eof_recv_def recv_eval deadline_passed_def)
  moreover have "length (nt_read n 5) < length (nt_written n 5)" using n(2,3) by simp
  ultimately have "\<exists>bs e s' fm' ev'. stream_Read 0 10 (nt_recv n 5) framer_fm = Some (Returned (bs, e), s', fm', ev') \<and> bs \<noteq> []"
    using conjunct2 [OF written_is_read [OF n(1), of 5]] n(4,6) by simp
  then show ?thesis using written_is_read [OF n(1), of 5] n(1,2) by blast
qed

end
