(* ===== verification/Aead.thy ===== *)
theory Aead
  imports Packet_Unpacker Handshake_Msg
begin

section \<open>Sealing and opening: \<open>internal/crypto\<close>\<close>

text \<open>
  The AEADs of the package: the null AEADs that only hash, and AES-GCM with 12 byte tags, with the derivation of its keys.
  What comes from outside is a parameter: the hash FNV-1a with 128 bits, AES-GCM itself, HKDF and the multiplication on
  Curve25519. FNV-1a with 64 bits is a few lines of the standard library and written out.
\<close>

text \<open>The interface \<open>Sealer\<close> of the handshake package, and \<open>AEAD\<close>, which adds \<open>Open\<close>.\<close>

record Sealer =
  se_Overhead :: nat
  se_Seal :: "u8 list \<Rightarrow> PacketNumber \<Rightarrow> u8 list \<Rightarrow> u8 list"

record AEAD = Sealer +
  ae_Open :: "u8 list \<Rightarrow> PacketNumber \<Rightarrow> u8 list \<Rightarrow> go_error + u8 list"

definition sealer_of :: "AEAD \<Rightarrow> Sealer" where
  "sealer_of a = Sealer.truncate a"

text \<open>Two ends that understand each other: what the first seals the second opens, and sealing adds the overhead.\<close>

locale aead_pair =
  fixes a :: AEAD and b :: AEAD
  assumes open_seal: "ae_Open b (se_Seal a src pn ad) pn ad = Inr src"
    and seal_length: "length (se_Seal a src pn ad) = length src + se_Overhead a"
begin

lemma open_sealed_nonempty: "src \<noteq> [] \<Longrightarrow> se_Seal a src pn ad \<noteq> []"
  using seal_length [of src pn ad] by auto

lemma seal_inj: "se_Seal a x pn ad = se_Seal a y pn ad \<Longrightarrow> x = y"
  by (metis open_seal sum.inject(2))

end

subsection \<open>\<open>null_aead_fnv128a.go\<close>, \<open>null_aead_fnv64a.go\<close>, \<open>null_aead.go\<close>\<close>

text \<open>\<open>hash\<close> gives the high and the low half of the sum of 128 bits.\<close>

definition client_name :: "u8 list" where "client_name = map of_char ''Client''"
definition server_name :: "u8 list" where "server_name = map of_char ''Server''"

definition nullAEADFNV128a_Open ::
    "(u8 list \<Rightarrow> u64 \<times> u64) \<Rightarrow> Perspective \<Rightarrow> u8 list \<Rightarrow> PacketNumber \<Rightarrow> u8 list \<Rightarrow> go_error + u8 list" where
  "nullAEADFNV128a_Open hash pers src pn ad =
     (if length src < 12 then Inl (GoErr ''NullAEAD: ciphertext cannot be less than 12 bytes long'')
      else let (testHigh, testLow) = hash (ad @ drop 12 src @ (if pers = PerspectiveServer then client_name else server_name));
               low = le_val (take 8 src) :: u64; high = le_val (take 4 (drop 8 src)) :: u32
        in if ucast (testHigh AND 0xffffffff) \<noteq> high \<or> testLow \<noteq> low
           then Inl (GoErr ''NullAEAD: failed to authenticate received data'') else Inr (drop 12 src))"

definition nullAEADFNV128a_Seal ::
    "(u8 list \<Rightarrow> u64 \<times> u64) \<Rightarrow> Perspective \<Rightarrow> u8 list \<Rightarrow> PacketNumber \<Rightarrow> u8 list \<Rightarrow> u8 list" where
  "nullAEADFNV128a_Seal hash pers src pn ad =
     (let (high, low) = hash (ad @ src @ (if pers = PerspectiveServer then server_name else client_name))
      in le_bytes 8 low @ le_bytes 4 (ucast high :: u32) @ src)"

definition nullAEADFNV128a :: "(u8 list \<Rightarrow> u64 \<times> u64) \<Rightarrow> Perspective \<Rightarrow> AEAD" where
  "nullAEADFNV128a hash pers =
     \<lparr> se_Overhead = 12, se_Seal = nullAEADFNV128a_Seal hash pers, ae_Open = nullAEADFNV128a_Open hash pers \<rparr>"

text \<open>\<open>fnv.New64a\<close>: a byte is xored in, then the sum is multiplied by the prime.\<close>

definition fnv64a :: "u8 list \<Rightarrow> u64" where
  "fnv64a bs = foldl (\<lambda>h b. (h XOR ucast b) * 1099511628211) 14695981039346656037 bs"

definition nullAEADFNV64a_Open :: "u8 list \<Rightarrow> PacketNumber \<Rightarrow> u8 list \<Rightarrow> go_error + u8 list" where
  "nullAEADFNV64a_Open src pn ad =
     (if length src < 8 then Inl (GoErr ''NullAEAD: ciphertext cannot be less than 8 bytes long'')
      else let data = take (length src - 8) src
        in if fnv64a (ad @ data) \<noteq> dec_bytes BigEndian (drop (length src - 8) src)
           then Inl (GoErr ''NullAEAD: failed to authenticate received data'') else Inr data)"

definition nullAEADFNV64a_Seal :: "u8 list \<Rightarrow> PacketNumber \<Rightarrow> u8 list \<Rightarrow> u8 list" where
  "nullAEADFNV64a_Seal src pn ad = src @ enc_bytes BigEndian 8 (fnv64a (ad @ src))"

definition nullAEADFNV64a :: AEAD where
  "nullAEADFNV64a = \<lparr> se_Overhead = 8, se_Seal = nullAEADFNV64a_Seal, ae_Open = nullAEADFNV64a_Open \<rparr>"

text \<open>\<open>UsesTLS\<close> of \<open>version.go\<close>.\<close>

definition UsesTLS :: "VersionNumber \<Rightarrow> bool" where "UsesTLS v \<longleftrightarrow> v = VersionTLS"

definition NewNullAEAD :: "(u8 list \<Rightarrow> u64 \<times> u64) \<Rightarrow> Perspective \<Rightarrow> VersionNumber \<Rightarrow> AEAD" where
  "NewNullAEAD hash p v = (if UsesTLS v then nullAEADFNV64a else nullAEADFNV128a hash p)"

definition other_side :: "Perspective \<Rightarrow> Perspective" where
  "other_side p = (if p = PerspectiveServer then PerspectiveClient else PerspectiveServer)"

lemma other_side_simps [simp]: "other_side PerspectiveServer = PerspectiveClient" "other_side PerspectiveClient = PerspectiveServer"
  by (simp_all add: other_side_def)

lemma other_side_server: "other_side p = PerspectiveServer \<longleftrightarrow> p \<noteq> PerspectiveServer"
  by (cases p) simp_all

interpretation null128: aead_pair "nullAEADFNV128a hash p" "nullAEADFNV128a hash (other_side p)" for hash p
proof
  fix src ad :: "u8 list" and pn :: PacketNumber
  let ?s = "nullAEADFNV128a_Seal hash p src pn ad"
  obtain high low where h: "hash (ad @ src @ (if p = PerspectiveServer then server_name else client_name)) = (high, low)"
    by (metis prod.exhaust)
  have s: "?s = le_bytes 8 low @ le_bytes 4 (ucast high :: u32) @ src" by (simp add: nullAEADFNV128a_Seal_def h)
  have name: "(if other_side p = PerspectiveServer then client_name else server_name) = (if p = PerspectiveServer then server_name else client_name)"
    by (simp add: other_side_server)
  have low: "le_val (le_bytes 8 low) = low" by (rule bit_word_eqI) (simp add: le_val_le_bytes bit_simps)
  have high: "le_val (le_bytes 4 (ucast high :: u32)) = (ucast (high AND 0xffffffff) :: u32)"
  proof -
    have "high AND 0xffffffff = take_bit 32 high" by (simp add: take_bit_eq_mask mask_eq_exp_minus_1)
    then show ?thesis unfolding le_val_full by (simp only:) (rule bit_word_eqI, simp add: bit_simps)
  qed
  show "ae_Open (nullAEADFNV128a hash (other_side p)) (se_Seal (nullAEADFNV128a hash p) src pn ad) pn ad = Inr src"
    by (simp add: nullAEADFNV128a_def nullAEADFNV128a_Open_def name h s low high)
  show "length (se_Seal (nullAEADFNV128a hash p) src pn ad) = length src + se_Overhead (nullAEADFNV128a hash p)"
    by (simp add: nullAEADFNV128a_def s)
qed


interpretation null64: aead_pair nullAEADFNV64a nullAEADFNV64a
  by unfold_locales (simp_all add: nullAEADFNV64a_def nullAEADFNV64a_Open_def nullAEADFNV64a_Seal_def bo.length_enc bo.dec_enc)

lemma NewNullAEAD_pair: "aead_pair (NewNullAEAD hash p v) (NewNullAEAD hash (other_side p) v)"
  using null64.aead_pair_axioms null128.aead_pair_axioms by (simp add: NewNullAEAD_def)

subsection \<open>\<open>aesgcm12_aead.go\<close>\<close>

text \<open>AES-GCM of the package \<open>aes12\<close>, for a key and a nonce; its tags have 12 bytes.\<close>

record gcm_lib =
  gcm_Seal :: "u8 list \<Rightarrow> u8 list \<Rightarrow> u8 list \<Rightarrow> u8 list \<Rightarrow> u8 list"
  gcm_Open :: "u8 list \<Rightarrow> u8 list \<Rightarrow> u8 list \<Rightarrow> u8 list \<Rightarrow> go_error + u8 list"

definition makeNonce :: "u8 list \<Rightarrow> PacketNumber \<Rightarrow> u8 list" where
  "makeNonce iv packetNumber = take 4 (iv @ replicate 4 0) @ le_bytes 8 packetNumber"

definition NewAEADAESGCM12 :: "gcm_lib \<Rightarrow> u8 list \<Rightarrow> u8 list \<Rightarrow> u8 list \<Rightarrow> u8 list \<Rightarrow> go_error + AEAD" where
  "NewAEADAESGCM12 g otherKey myKey otherIV myIV =
     (if length myKey \<noteq> 16 \<or> length otherKey \<noteq> 16 \<or> length myIV \<noteq> 4 \<or> length otherIV \<noteq> 4
      then Inl (GoErr ''AES-GCM: expected 16-byte keys and 4-byte IVs'')
      else Inr \<lparr> se_Overhead = 12,
                 se_Seal = (\<lambda>src pn ad. gcm_Seal g myKey (makeNonce myIV pn) src ad),
                 ae_Open = (\<lambda>src pn ad. gcm_Open g otherKey (makeNonce otherIV pn) src ad) \<rparr>)"

text \<open>What AES-GCM promises.\<close>

definition gcm_ok :: "gcm_lib \<Rightarrow> bool" where
  "gcm_ok g \<longleftrightarrow> (\<forall>key nonce src ad. gcm_Open g key nonce (gcm_Seal g key nonce src ad) ad = Inr src \<and>
     length (gcm_Seal g key nonce src ad) = length src + 12)"

lemma NewAEADAESGCM12_pair:
  assumes "gcm_ok g" "NewAEADAESGCM12 g k1 k2 iv1 iv2 = Inr a" "NewAEADAESGCM12 g k2 k1 iv2 iv1 = Inr b"
  shows "aead_pair a b" "se_Overhead a = 12"
  using assms by (auto simp: NewAEADAESGCM12_def gcm_ok_def split: if_splits intro!: aead_pair.intro)

text \<open>No nonce is used for two packets.\<close>

lemma makeNonce_inj:
  assumes "makeNonce iv pn = makeNonce iv pn'"
  shows "pn = pn'"
proof -
  have "le_bytes 8 pn = le_bytes 8 pn'" using assms by (simp add: makeNonce_def)
  then have "le_val (le_bytes 8 pn) = (le_val (le_bytes 8 pn') :: u64)" by simp
  then show ?thesis by (simp add: le_val_le_bytes)
qed

subsection \<open>\<open>key_derivation_quic_crypto.go\<close>\<close>

text \<open>HKDF with SHA-256 is a stream of bytes for a secret, a salt and an info; \<open>io.ReadFull\<close> takes the next ones.\<close>

type_synonym hkdf_lib = "u8 list \<Rightarrow> u8 list \<Rightarrow> u8 list \<Rightarrow> nat \<Rightarrow> u8"

definition hkdf_read :: "hkdf_lib \<Rightarrow> u8 list \<Rightarrow> u8 list \<Rightarrow> u8 list \<Rightarrow> nat \<Rightarrow> nat \<Rightarrow> u8 list" where
  "hkdf_read kdf secret salt info from n = map (kdf secret salt info) [from..<from + n]"

text \<open>\<open>diversify\<close> overwrites the key and the IV.\<close>

definition diversify :: "hkdf_lib \<Rightarrow> u8 list \<Rightarrow> u8 list \<Rightarrow> u8 list \<Rightarrow> u8 list \<times> u8 list" where
  "diversify kdf key iv divNonce =
     (let read = hkdf_read kdf (key @ iv) divNonce (map of_char ''QUIC key diversification'')
      in (read 0 (length key), read (length key) (length iv)))"

definition key_info :: "bool \<Rightarrow> ConnectionID \<Rightarrow> u8 list \<Rightarrow> u8 list \<Rightarrow> u8 list \<Rightarrow> u8 list" where
  "key_info forwardSecure connID chlo scfg cert =
     (if forwardSecure then map of_char ''QUIC forward secure key expansion'' else map of_char ''QUIC key expansion'') @ [0] @
     enc_bytes LittleEndian 8 connID @ chlo @ scfg @ cert"

text \<open>\<open>otherKey, myKey, otherIV, myIV\<close>.\<close>

definition deriveKeys ::
    "hkdf_lib \<Rightarrow> bool \<Rightarrow> u8 list \<Rightarrow> u8 list \<Rightarrow> ConnectionID \<Rightarrow> u8 list \<Rightarrow> u8 list \<Rightarrow> u8 list \<Rightarrow> u8 list \<Rightarrow> nat \<Rightarrow> bool \<Rightarrow>
     u8 list \<times> u8 list \<times> u8 list \<times> u8 list" where
  "deriveKeys kdf forwardSecure sharedSecret nonces connID chlo scfg cert divNonce keyLen swap =
     (let s = hkdf_read kdf sharedSecret nonces (key_info forwardSecure connID chlo scfg cert) 0 (2 * keyLen + 2 * 4);
          key1 = take keyLen s; key2 = take keyLen (drop keyLen s);
          iv1 = take 4 (drop (2 * keyLen) s); iv2 = drop (2 * keyLen + 4) s;
          (key2', iv2') = (if \<not> forwardSecure then diversify kdf key2 iv2 divNonce else (key2, iv2))
      in if swap then (key2', key1, iv2', iv1) else (key1, key2', iv1, iv2'))"

definition DeriveQuicCryptoAESKeys ::
    "hkdf_lib \<Rightarrow> gcm_lib \<Rightarrow> bool \<Rightarrow> u8 list \<Rightarrow> u8 list \<Rightarrow> ConnectionID \<Rightarrow> u8 list \<Rightarrow> u8 list \<Rightarrow> u8 list \<Rightarrow> u8 list \<Rightarrow> Perspective \<Rightarrow>
     go_error + AEAD" where
  "DeriveQuicCryptoAESKeys kdf g forwardSecure sharedSecret nonces connID chlo scfg cert divNonce pers =
     (let (otherKey, myKey, otherIV, myIV) =
        deriveKeys kdf forwardSecure sharedSecret nonces connID chlo scfg cert divNonce 16 (pers = PerspectiveClient)
      in NewAEADAESGCM12 g otherKey myKey otherIV myIV)"

text \<open>The keys always have the right lengths, and both sides get each other's.\<close>

lemma hkdf_read_length [simp]: "length (hkdf_read kdf secret salt info from n) = n"
  by (simp add: hkdf_read_def)

lemma DeriveQuicCryptoAESKeys_pair:
  assumes "gcm_ok g"
  shows "\<exists>a b. DeriveQuicCryptoAESKeys kdf g fs secret nonces connID chlo scfg cert divNonce p = Inr a \<and>
    DeriveQuicCryptoAESKeys kdf g fs secret nonces connID chlo scfg cert divNonce (other_side p) = Inr b \<and>
    aead_pair a b \<and> aead_pair b a \<and> se_Overhead a = 12 \<and> se_Overhead b = 12"
proof -
  let ?d = "deriveKeys kdf fs secret nonces connID chlo scfg cert divNonce 16"
  obtain k1 k2 iv1 iv2 where d: "?d False = (k1, k2, iv1, iv2)" by (metis prod.exhaust)
  have len: "length k1 = 16" "length k2 = 16" "length iv1 = 4" "length iv2 = 4"
    and swap: "?d True = (k2, k1, iv2, iv1)"
    using d by (auto simp: deriveKeys_def diversify_def Let_def split: if_splits)
  have "\<exists>a b. NewAEADAESGCM12 g k1 k2 iv1 iv2 = Inr a \<and> NewAEADAESGCM12 g k2 k1 iv2 iv1 = Inr b"
    using len by (simp add: NewAEADAESGCM12_def)
  then obtain a b where ab: "NewAEADAESGCM12 g k1 k2 iv1 iv2 = Inr a" "NewAEADAESGCM12 g k2 k1 iv2 iv1 = Inr b" by blast
  then have "aead_pair a b" "aead_pair b a" "se_Overhead a = 12" "se_Overhead b = 12"
    using NewAEADAESGCM12_pair [OF assms] by blast+
  then show ?thesis using ab d swap by (cases p) (auto simp: DeriveQuicCryptoAESKeys_def)
qed

subsection \<open>\<open>curve_25519.go\<close>\<close>

text \<open>Multiplication of a point by a scalar, both of 32 bytes, and the base point.\<close>

record curve_lib =
  cv_ScalarMult :: "u8 list \<Rightarrow> u8 list \<Rightarrow> u8 list"
  cv_Base :: "u8 list"

record curve25519KEX =
  kx_secret :: "u8 list"
  kx_public :: "u8 list"

text \<open>From 32 random bytes; a failure to read them is an error of its own.\<close>

definition NewCurve25519KEX :: "curve_lib \<Rightarrow> u8 list option \<Rightarrow> go_error + curve25519KEX" where
  "NewCurve25519KEX cv rand =
     (case rand of
        None \<Rightarrow> Inl (GoErr ''Curve25519: could not create private key'')
      | Some r \<Rightarrow>
          let s1 = r[0 := r ! 0 AND 248]; s2 = s1[31 := s1 ! 31 AND 127]; s3 = s2[31 := s2 ! 31 OR 64]
          in Inr \<lparr> kx_secret = s3, kx_public = cv_ScalarMult cv s3 (cv_Base cv) \<rparr>)"

definition CalculateSharedKey :: "curve_lib \<Rightarrow> curve25519KEX \<Rightarrow> u8 list \<Rightarrow> go_error + u8 list" where
  "CalculateSharedKey cv c otherPublic =
     (if length otherPublic \<noteq> 32 then Inl (GoErr ''Curve25519: expected public key of 32 byte'')
      else Inr (cv_ScalarMult cv (kx_secret c) otherPublic))"

text \<open>What Diffie and Hellman need.\<close>

definition curve_ok :: "curve_lib \<Rightarrow> bool" where
  "curve_ok cv \<longleftrightarrow> (\<forall>a p. length (cv_ScalarMult cv a p) = 32) \<and>
     (\<forall>a b. cv_ScalarMult cv a (cv_ScalarMult cv b (cv_Base cv)) = cv_ScalarMult cv b (cv_ScalarMult cv a (cv_Base cv)))"

definition kex_ok :: "curve_lib \<Rightarrow> curve25519KEX \<Rightarrow> bool" where
  "kex_ok cv k \<longleftrightarrow> kx_public k = cv_ScalarMult cv (kx_secret k) (cv_Base cv)"

lemma NewCurve25519KEX_ok: "NewCurve25519KEX cv rand = Inr k \<Longrightarrow> kex_ok cv k"
  by (auto simp: NewCurve25519KEX_def kex_ok_def Let_def split: option.splits)

lemma CalculateSharedKey_length:
  "curve_ok cv \<Longrightarrow> CalculateSharedKey cv k p = Inr s \<Longrightarrow> length s = 32"
  by (auto simp: curve_ok_def CalculateSharedKey_def split: if_splits)

lemma CalculateSharedKey_agree:
  assumes "curve_ok cv" "kex_ok cv a" "kex_ok cv b"
  shows "\<exists>s. CalculateSharedKey cv a (kx_public b) = Inr s \<and> CalculateSharedKey cv b (kx_public a) = Inr s"
  using assms by (simp add: curve_ok_def kex_ok_def CalculateSharedKey_def)

end
