(* ===== verification/Packet_Packer.thy ===== *)
theory Packet_Packer
  imports Path Stream_Transfer Aead
begin

section \<open>Packing packets: \<open>packet_packer.go\<close>\<close>

text \<open>
  The packer puts the frames that wait into packets, writes and seals them. The interfaces \<open>CryptoSetup\<close> and
  \<open>Sealer\<close> of the handshake package are parameters: a sealer has its overhead and seals a payload for a packet
  number and the bytes of the header. The framer, with the map of streams and flow control, and the path are passed through. Clock,
  random bytes and the time stamp of SBD are arguments.
\<close>

record CryptoSetup =
  cs_GetSealer :: "EncryptionLevel \<times> Sealer"
  cs_GetSealerForCryptoStream :: "EncryptionLevel \<times> Sealer"
  cs_GetSealerWithEncryptionLevel :: "EncryptionLevel \<Rightarrow> go_error + Sealer"
  cs_DiversificationNonce :: "u8 list"

record packedPacket =
  pp_number :: PacketNumber
  pp_raw :: "u8 list"
  pp_frames :: "Frame list"
  pp_encryptionLevel :: EncryptionLevel

record packetPacker =
  pa_connectionID :: ConnectionID
  pa_perspective :: Perspective
  pa_version :: VersionNumber
  pa_controlFrames :: "Frame list"
  pa_stopWaiting :: "PathID \<Rightarrow> StopWaitingFrame option"
  pa_ackFrame :: "PathID \<Rightarrow> AckFrame option"

definition NonForwardSecurePacketSizeReduction :: ByteCount where "NonForwardSecurePacketSizeReduction = 50"

definition newPacketPacker :: "ConnectionID \<Rightarrow> Perspective \<Rightarrow> VersionNumber \<Rightarrow> packetPacker" where
  "newPacketPacker connectionID pers version =
     \<lparr> pa_connectionID = connectionID, pa_perspective = pers, pa_version = version, pa_controlFrames = [],
       pa_stopWaiting = (\<lambda>_. None), pa_ackFrame = (\<lambda>_. None) \<rparr>"

text \<open>What the session and its peers give to a call: the clock, a random number, the time stamp, and whether the handshake is complete.\<close>

record pack_env =
  en_now :: int
  en_rand :: "u16 option"
  en_encodeTs :: u64
  en_handshakeComplete :: bool
  en_cp :: connectionParametersManager
  en_setup :: CryptoSetup

subsection \<open>Control frames\<close>

text \<open>A frame is queued for a path; an ACK that is \<open>nil\<close> clears the one queued.\<close>

definition QueueControlFrame :: "Frame \<Rightarrow> PathID \<Rightarrow> packetPacker \<Rightarrow> packetPacker" where
  "QueueControlFrame frame i p =
     (case frame of
        StopWaitingF f \<Rightarrow> p\<lparr>pa_stopWaiting := (pa_stopWaiting p)(i \<mapsto> f)\<rparr>
      | AckF f \<Rightarrow> p\<lparr>pa_ackFrame := (pa_ackFrame p)(i \<mapsto> f)\<rparr>
      | f \<Rightarrow> p\<lparr>pa_controlFrames := pa_controlFrames p @ [f]\<rparr>)"

definition canSendData :: "EncryptionLevel \<Rightarrow> packetPacker \<Rightarrow> bool" where
  "canSendData encLevel p \<longleftrightarrow>
     (if pa_perspective p = PerspectiveClient then encLevel \<ge> EncryptionSecure else encLevel = EncryptionForwardSecure)"

subsection \<open>Header and sealing\<close>

definition getPublicHeader :: "pack_env \<Rightarrow> EncryptionLevel \<Rightarrow> 'c path \<Rightarrow> packetPacker \<Rightarrow> PublicHeader" where
  "getPublicHeader env encLevel pth p =
     (let pnum = pg_Peek (pt_packetNumberGenerator pth);
          h0 = empty_header\<lparr>ph_ConnectionID := pa_connectionID p, ph_PacketNumber := pnum,
            ph_PacketNumberLen := GetPacketNumberLengthForPublicHeader pnum (pt_leastUnacked pth),
            ph_TruncateConnectionID := TruncateConnectionID (en_cp env)\<rparr>;
          h1 = (if pa_perspective p = PerspectiveServer \<and> encLevel = EncryptionSecure
                then h0\<lparr>ph_DiversificationNonce := cs_DiversificationNonce (en_setup env)\<rparr> else h0);
          h2 = (if pa_perspective p = PerspectiveClient \<and> encLevel \<noteq> EncryptionForwardSecure
                then h1\<lparr>ph_VersionFlag := True, ph_VersionNumber := pa_version p\<rparr> else h1)
      in if en_handshakeComplete env \<and> pa_version p \<ge> VersionMP
         then h2\<lparr>ph_MultipathFlag := True, ph_PathID := pt_pathID pth, ph_TruncateConnectionID := False\<rparr>
         else h2)"

text \<open>
  The state of a call is the packer, the framer and the path. The packet number is taken at the end only. \<open>Seal\<close> works
  in place; its result has the length of the payload and the overhead, as documented.
\<close>

definition writeAndSealPacket ::
    "pack_env \<Rightarrow> PublicHeader \<Rightarrow> Frame list \<Rightarrow> Sealer \<Rightarrow> packetPacker \<Rightarrow> 'c path \<Rightarrow> (go_error + u8 list) \<times> 'c path" where
  "writeAndSealPacket env publicHeader payloadFrames sealer p pth =
     (case PublicHeader_Write publicHeader (pa_version p) (pa_perspective p) of
        Inl e \<Rightarrow> (Inl e, pth)
      | Inr header \<Rightarrow>
          (case wseq (map (Frame_Write (pa_version p) (en_now env)) payloadFrames) of
             Inl e \<Rightarrow> (Inl e, pth)
           | Inr payload \<Rightarrow>
               if length header + length payload + se_Overhead sealer > unat MaxPacketSize
               then (Inl (GoErr ''PacketPacker BUG: packet too large''), pth)
               else
                 let raw = header @ se_Seal sealer payload (ph_PacketNumber publicHeader) header;
                     (num, g) = pg_Pop (en_rand env) (pt_packetNumberGenerator pth);
                     pth1 = pth\<lparr>pt_packetNumberGenerator := g\<rparr>
                 in if num \<noteq> ph_PacketNumber publicHeader
                    then (Inl (GoErr ''packetPacker BUG: Peeked and Popped packet numbers do not match''), pth1)
                    else (Inr raw, pth1)))"

definition packed :: "PublicHeader \<Rightarrow> Frame list \<Rightarrow> EncryptionLevel \<Rightarrow> u8 list \<Rightarrow> packedPacket" where
  "packed ph frames encLevel raw =
     \<lparr> pp_number = ph_PacketNumber ph, pp_raw = raw, pp_frames = frames, pp_encryptionLevel = encLevel \<rparr>"

subsection \<open>Packets of one kind\<close>

text \<open>The packet is returned beside the error here.\<close>

definition PackConnectionClose ::
    "pack_env \<Rightarrow> ConnectionCloseFrame \<Rightarrow> packetPacker \<Rightarrow> 'c path \<Rightarrow> (go_error + packedPacket) \<times> 'c path" where
  "PackConnectionClose env ccf p pth =
     (let frames = [ConnectionCloseF ccf]; (encLevel, sealer) = cs_GetSealer (en_setup env);
          ph = getPublicHeader env encLevel pth p; (r, pth1) = writeAndSealPacket env ph frames sealer p pth
      in (map_sum (\<lambda>e. e) (packed ph frames encLevel) r, pth1))"

text \<open>\<open>p.stopWaiting[pth.pathID]\<close> with its packet number set.\<close>

definition stop_waiting_for :: "PublicHeader \<Rightarrow> StopWaitingFrame \<Rightarrow> StopWaitingFrame" where
  "stop_waiting_for ph f = f\<lparr>sw_PacketNumber := ph_PacketNumber ph, sw_PacketNumberLen := ph_PacketNumberLen ph\<rparr>"

definition PackAckPacket ::
    "pack_env \<Rightarrow> packetPacker \<Rightarrow> 'c path \<Rightarrow> (go_error + packedPacket) \<times> packetPacker \<times> 'c path" where
  "PackAckPacket env p pth =
     (let i = pt_pathID pth in
      case pa_ackFrame p i of
        None \<Rightarrow> (Inl (GoErr ''packet packer BUG: no ack frame queued''), p, pth)
      | Some ack \<Rightarrow>
          let (encLevel, sealer) = cs_GetSealer (en_setup env);
              ph = getPublicHeader env encLevel pth p;
              frames = AckF ack # (case pa_stopWaiting p i of None \<Rightarrow> [] | Some f \<Rightarrow> [StopWaitingF (stop_waiting_for ph f)]);
              p1 = p\<lparr>pa_stopWaiting := (pa_stopWaiting p)(i := None), pa_ackFrame := (pa_ackFrame p)(i := None)\<rparr>;
              (r, pth1) = writeAndSealPacket env ph frames sealer p1 pth
          in (map_sum (\<lambda>e. e) (packed ph frames encLevel) r, p1, pth1))"

definition PackHandshakeRetransmission ::
    "pack_env \<Rightarrow> Packet \<Rightarrow> packetPacker \<Rightarrow> 'c path \<Rightarrow> (go_error + packedPacket) \<times> packetPacker \<times> 'c path" where
  "PackHandshakeRetransmission env packet p pth =
     (let i = pt_pathID pth; level = pk_EncryptionLevel packet in
      if level = EncryptionForwardSecure
      then (Inl (GoErr ''PacketPacker BUG: forward-secure encrypted handshake packets don't need special treatment''), p, pth)
      else case cs_GetSealerWithEncryptionLevel (en_setup env) level of
        Inl e \<Rightarrow> (Inl e, p, pth)
      | Inr sealer \<Rightarrow>
          (case pa_stopWaiting p i of
             None \<Rightarrow> (Inl (GoErr ''PacketPacker BUG: Handshake retransmissions must contain a StopWaitingFrame''), p, pth)
           | Some f \<Rightarrow>
               let ph = getPublicHeader env level pth p;
                   frames = StopWaitingF (stop_waiting_for ph f) # pk_Frames packet;
                   p1 = p\<lparr>pa_stopWaiting := (pa_stopWaiting p)(i := None)\<rparr>;
                   (r, pth1) = writeAndSealPacket env ph frames sealer p1 pth
               in (map_sum (\<lambda>e. e) (packed ph frames level) r, p1, pth1)))"

subsection \<open>Packets with whatever waits\<close>

text \<open>The loop over the control frames, from the last one on: what is taken, its length, what is left.\<close>

function take_control ::
    "ByteCount \<Rightarrow> ByteCount \<Rightarrow> Frame list \<Rightarrow> (go_error + Frame list \<times> ByteCount) \<times> Frame list" where
  "take_control maxFrameSize payloadLength q =
     (if q = [] then (Inr ([], payloadLength), [])
      else case Frame_MinLength (last q) of
        Inl e \<Rightarrow> (Inl e, q)
      | Inr minLength \<Rightarrow>
          if payloadLength + minLength > maxFrameSize then (Inr ([], payloadLength), q)
          else case take_control maxFrameSize (payloadLength + minLength) (butlast q) of
                 (Inl e, q1) \<Rightarrow> (Inl e, q1)
               | (Inr (fs, len), q1) \<Rightarrow> (Inr (last q # fs, len), q1))"
  by auto
termination by (relation "measure (\<lambda>(_, _, q). length q)") auto

declare take_control.simps [simp del]

text \<open>The loop that stamps the STREAM frames: the frames, \<open>onlyOne\<close> and the count of losses sent last.\<close>

fun stamp_frames :: "u64 \<Rightarrow> u64 \<Rightarrow> PathID \<Rightarrow> bool \<Rightarrow> u64 \<Rightarrow> StreamFrame list \<Rightarrow> StreamFrame list \<times> u64" where
  "stamp_frames encodeTs sntLost i onlyOne lastSent [] = ([], lastSent)"
| "stamp_frames encodeTs sntLost i onlyOne lastSent (f0 # fs) =
     (let f1 = f0\<lparr>sf_TimeStamp := encodeTs\<rparr>
      in if sf_LossCount f1 = 0 \<and> \<not> onlyOne
         then let f2 = f1\<lparr>sf_LossCount := ucast (sntLost - lastSent), sf_PathID := i\<rparr>;
                  (r, l) = stamp_frames encodeTs sntLost i True sntLost fs
              in (f2 # r, l)
         else let (r, l) = stamp_frames encodeTs sntLost i onlyOne lastSent fs in (f1 # r, l))"

text \<open>\<open>fs[len(fs)-1].DataLenPresent = false\<close>\<close>

definition drop_last_len :: "StreamFrame list \<Rightarrow> StreamFrame list" where
  "drop_last_len fs = (if fs = [] then [] else butlast fs @ [(last fs)\<lparr>sf_DataLenPresent := False\<rparr>])"

type_synonym 'c packer_state = "packetPacker \<times> framer_state \<times> 'c path"

text \<open>The loop that queues the BLOCKED frames takes all of them.\<close>

definition queue_blocked :: "packetPacker \<Rightarrow> streamFramer \<Rightarrow> packetPacker \<times> streamFramer" where
  "queue_blocked p fr =
     (p\<lparr>pa_controlFrames := pa_controlFrames p @ map BlockedF (fr_blockedFrameQueue fr)\<rparr>, fr\<lparr>fr_blockedFrameQueue := []\<rparr>)"

text \<open>The length of an optional frame at the beginning, as an error or a number.\<close>

definition opt_length :: "Frame option \<Rightarrow> go_error + ByteCount" where
  "opt_length f = (case f of None \<Rightarrow> Inr 0 | Some f \<Rightarrow> Frame_MinLength f)"

definition composeNextPacket ::
    "pack_env \<Rightarrow> ByteCount \<Rightarrow> bool \<Rightarrow> 'c packer_state \<Rightarrow> (go_error + Frame list) \<times> 'c packer_state" where
  "composeNextPacket env maxFrameSize canSendStreamFrames st =
     (let (p, fs, pth) = st; i = pt_pathID pth;
          sw = map_option StopWaitingF (pa_stopWaiting p i); ack = map_option AckF (pa_ackFrame p i)
      in case opt_length sw of
        Inl e \<Rightarrow> (Inl e, st)
      | Inr l1 \<Rightarrow>
      case opt_length ack of
        Inl e \<Rightarrow> (Inl e, st)
      | Inr l2 \<Rightarrow>
      case take_control maxFrameSize (l1 + l2) (pa_controlFrames p) of
        (Inl e, q) \<Rightarrow> (Inl e, p\<lparr>pa_controlFrames := q\<rparr>, fs, pth)
      | (Inr (control, payloadLength), q) \<Rightarrow>
          let p1 = p\<lparr>pa_controlFrames := q\<rparr>;
              payloadFrames = (case sw of None \<Rightarrow> [] | Some f \<Rightarrow> [f]) @ (case ack of None \<Rightarrow> [] | Some f \<Rightarrow> [f]) @ control
          in if payloadLength > maxFrameSize
             then (Inl (GoErr ''Packet Packer BUG: packet payload too large''), p1, fs, pth)
             else if \<not> canSendStreamFrames then (Inr payloadFrames, p1, fs, pth)
             else
               let (frames, fr, m, fm) = PopStreamFrames (en_cp env) (maxFrameSize + 2 - payloadLength) fs;
                   (_, _, sntLost) = sh_GetStatistics (pt_sentPacketHandler pth);
                   (stamped, lastSent) = stamp_frames (en_encodeTs env) sntLost i False (pt_lastSentLossCount pth)
                     (drop_last_len frames);
                   (p2, fr2) = queue_blocked p1 fr
               in (Inr (payloadFrames @ map StreamF stamped), p2, (fr2, m, fm), pth\<lparr>pt_lastSentLossCount := lastSent\<rparr>))"

definition packCryptoPacket ::
    "pack_env \<Rightarrow> 'c packer_state \<Rightarrow> ((go_error + packedPacket option) \<times> 'c packer_state) option" where
  "packCryptoPacket env st =
     (let (p, fs, pth) = st; (encLevel, sealer) = cs_GetSealerForCryptoStream (en_setup env);
          ph = getPublicHeader env encLevel pth p
      in case PublicHeader_GetLength ph (pa_perspective p) of
           Inl e \<Rightarrow> Some (Inl e, st)
         | Inr headerLength \<Rightarrow>
             (case PopCryptoStreamFrame (en_cp env)
                (MaxPacketSize - of_nat (se_Overhead sealer) - NonForwardSecurePacketSizeReduction - headerLength) fs of
                None \<Rightarrow> None
              | Some (Inl e, fs1) \<Rightarrow> Some (Inl e, p, fs1, pth)
              | Some (Inr None, fs1) \<Rightarrow> Some (Inl (Panic ''nil pointer dereference''), p, fs1, pth)
              | Some (Inr (Some frame), fs1) \<Rightarrow>
                  let frames = [StreamF frame]; (r, pth1) = writeAndSealPacket env ph frames sealer p pth
                  in Some (map_sum (\<lambda>e. e) (Some \<circ> packed ph frames encLevel) r, p, fs1, pth1)))"

text \<open>The branch of \<open>PackPacket\<close> that finds the frames.\<close>

definition payload_frames ::
    "pack_env \<Rightarrow> EncryptionLevel \<Rightarrow> Sealer \<Rightarrow> ByteCount \<Rightarrow> 'c packer_state \<Rightarrow> (go_error + Frame list) \<times> 'c packer_state" where
  "payload_frames env encLevel sealer headerLength st =
     (let (p, fs, pth) = st in
      case pa_controlFrames p of
        PingF f # q \<Rightarrow> (Inr [PingF f], p\<lparr>pa_controlFrames := q\<rparr>, fs, pth)
      | _ \<Rightarrow> composeNextPacket env (MaxPacketSize - of_nat (se_Overhead sealer) - headerLength) (canSendData encLevel p) st)"

definition PackPacket ::
    "pack_env \<Rightarrow> 'c packer_state \<Rightarrow> ((go_error + packedPacket option) \<times> 'c packer_state) option" where
  "PackPacket env st =
     (let (p, fs, pth) = st; i = pt_pathID pth in
      case HasCryptoStreamFrame (en_cp env) fs of
        None \<Rightarrow> None
      | Some (Inl e, fs1) \<Rightarrow> Some (Inl e, p, fs1, pth)
      | Some (Inr True, fs1) \<Rightarrow> packCryptoPacket env (p, fs1, pth)
      | Some (Inr False, fs1) \<Rightarrow>
          let (encLevel, sealer) = cs_GetSealer (en_setup env); ph = getPublicHeader env encLevel pth p
          in case PublicHeader_GetLength ph (pa_perspective p) of
               Inl e \<Rightarrow> Some (Inl e, p, fs1, pth)
             | Inr headerLength \<Rightarrow>
                 let p1 = p\<lparr>pa_stopWaiting := (pa_stopWaiting p)(i := map_option (stop_waiting_for ph) (pa_stopWaiting p i))\<rparr>
                 in case payload_frames env encLevel sealer headerLength (p1, fs1, pth) of
                      (Inl e, st2) \<Rightarrow> Some (Inl e, st2)
                    | (Inr frames, p2, fs2, pth2) \<Rightarrow>
                        if frames = [] then Some (Inr None, p2, fs2, pth2)
                        else if length frames = 1 \<and> pa_stopWaiting p2 i \<noteq> None then Some (Inr None, p2, fs2, pth2)
                        else
                          let p3 = p2\<lparr>pa_stopWaiting := (pa_stopWaiting p2)(i := None), pa_ackFrame := (pa_ackFrame p2)(i := None)\<rparr>;
                              (r, pth3) = writeAndSealPacket env ph frames sealer p3 pth2
                          in Some (map_sum (\<lambda>e. e) (Some \<circ> packed ph frames encLevel) r, p3, fs2, pth3))"

definition PackPing ::
    "pack_env \<Rightarrow> PingFrame \<Rightarrow> 'c packer_state \<Rightarrow> ((go_error + packedPacket option) \<times> 'c packer_state) option" where
  "PackPing env pf st =
     (let (p, fs, pth) = st in
      PackPacket env (p\<lparr>pa_controlFrames := PingF pf # pa_controlFrames p\<rparr>, fs,
        SetLeastUnacked (GetLeastUnacked (pt_sentPacketHandler pth)) pth))"

section \<open>Packets fit and are read\<close>

subsection \<open>The length of a frame\<close>

lemma ack_bytes_bound:
  assumes "AckFrame_wf f"
  shows "length (ack_bytes v now f) \<le> 2000"
proof -
  have wf: "ack_wf (ack_LargestAcked f) (ack_LowestAcked f) (ack_AckRanges f)" using assms by (simp add: AckFrame_wf_def)
  define l m n where "l = unat (GetPacketNumberLength (ack_LargestAcked f))" and "m = unat (AckFrame_deltaLen f)"
    and "n = length (blocks_between (seen_ranges (ack_AckRanges f)))"
  have lm: "l \<le> 6" "m \<le> 6"
    using pn_lens_le [OF largest_len(1) [OF assms]] pn_lens_le [OF wf_mlen(4) [OF wf AckFrame_deltaLen_def]]
    by (simp_all add: l_def m_def)
  have n: "n \<le> 254" "n * m \<le> 1524"
    using blocks_count(1) [OF wf] block_size_bounds [of n m] lm(2) by (simp_all add: n_def)
  have "length (ack_bytes v now f) \<le> 9 + l + m + n * (1 + m)"
    by (simp add: ack_bytes_def Let_def ack_tail_bytes_def bo.length_enc pn_bytes_def
        length_ack_block_bytes AckFrame_HasMissingRanges_def l_def m_def n_def)
  moreover have "n * (1 + m) = n + n * m" by (simp add: algebra_simps)
  ultimately show ?thesis using lm n by linarith
qed

lemma close_path_bytes_bound:
  assumes "ClosePathFrame_wf f"
  shows "length (close_path_bytes v f) \<le> 2000"
proof -
  have wf: "ack_wf (cp_LargestAcked f) (cp_LowestAcked f) (cp_AckRanges f)" using assms by (simp add: ClosePathFrame_wf_def)
  define l m n where "l = unat (GetPacketNumberLength (cp_LargestAcked f))" and "m = unat (ClosePathFrame_deltaLen f)"
    and "n = length (blocks_between (seen_ranges (cp_AckRanges f)))"
  have lm: "l \<le> 6" "m \<le> 6"
    using pn_lens_le [OF cp_largest_len(1) [OF assms]] pn_lens_le [OF wf_mlen(4) [OF wf ClosePathFrame_deltaLen_def]]
    by (simp_all add: l_def m_def)
  have n: "n \<le> 254" "n * m \<le> 1524"
    using blocks_count(1) [OF wf] block_size_bounds [of n m] lm(2) by (simp_all add: n_def)
  have "length (close_path_bytes v f) \<le> 9 + l + m + n * (1 + m)"
    by (simp add: close_path_bytes_def Let_def bo.length_enc pn_bytes_def
        length_ack_block_bytes ClosePathFrame_HasMissingRanges_def l_def m_def n_def)
  moreover have "n * (1 + m) = n + n * m" by (simp add: algebra_simps)
  ultimately show ?thesis using lm n by linarith
qed

text \<open>A frame that is not a STREAM frame has the length that \<open>MinLength\<close> promises.\<close>

fun is_stream :: "Frame \<Rightarrow> bool" where
  "is_stream (StreamF f) = True"
| "is_stream f = False"

definition frame_bytes :: "VersionNumber \<Rightarrow> int \<Rightarrow> Frame \<Rightarrow> nat" where
  "frame_bytes v now f = (case Frame_Write v now f of Inl e \<Rightarrow> 0 | Inr bs \<Rightarrow> length bs)"

lemma frame_MinLength:
  assumes wf: "frame_wf pn len atEnd f" and s: "\<not> is_stream f"
  shows "\<exists>n. Frame_MinLength f = Inr n \<and> unat n = frame_bytes v now f \<and> frame_bytes v now f \<le> 2000"
proof -
  obtain bs where bs: "Frame_Write v now f = Inr bs" using Frame_Write_ok [OF wf] by blast
  have "\<exists>n. Frame_MinLength f = Inr n \<and> unat n = length bs"
  proof (cases f)
    case (RstStreamF g)
    then show ?thesis using rst.minLength_write [where f = g and bs = bs and v = v] wf bs by simp
  next
    case (ConnectionCloseF g)
    then show ?thesis using cc.minLength_write [where f = g and bs = bs and v = v] wf bs by simp
  next
    case (GoawayF g)
    then show ?thesis using goaway.minLength_write [where f = g and bs = bs and v = v] wf bs by simp
  next
    case (WindowUpdateF g)
    then show ?thesis using wu.minLength_write [where f = g and bs = bs and v = v] wf bs by simp
  next
    case (BlockedF g)
    then show ?thesis using blocked.minLength_write [where f = g and bs = bs and v = v] wf bs by simp
  next
    case (StopWaitingF g)
    then show ?thesis using sw.minLength_write [where f = g and bs = bs and v = v and pn = pn and len = len] wf bs by simp
  next
    case (PingF g)
    then show ?thesis using ping.minLength_write [where f = g and bs = bs and v = v] wf bs by simp
  next
    case (AddAddressF g)
    then show ?thesis using aa.minLength_write [where f = g and bs = bs and v = v] wf bs by simp
  next
    case (ClosePathF g)
    then show ?thesis using cp.minLength_write [where f = g and bs = bs and v = v] wf bs by simp
  next
    case (PathsF g)
    then show ?thesis using pf.minLength_write [where f = g and bs = bs and v = v] wf bs by simp
  next
    case (AckF g)
    then show ?thesis using ack.minLength_write [where f = g and bs = bs and v = v and now = now] wf bs by simp
  qed (use s in simp)
  then obtain n where n: "Frame_MinLength f = Inr n" "unat n = length bs" by blast
  have "length bs \<le> 2000"
  proof (cases f)
    case (AckF g)
    then show ?thesis using wf bs ack_bytes_bound [of g v now] by (simp add: AckFrame_Write_eq)
  next
    case (ClosePathF g)
    then show ?thesis using wf bs close_path_bytes_bound [of g v] by (simp add: ClosePathFrame_Write_eq)
  next
    case (StopWaitingF g)
    have small: "unat (ucast (x :: u8) :: u64) \<le> 255" for x using unat_bound [of x] by (simp add: unat_ucast_wide)
    have "unat (1 + ucast (sw_PacketNumberLen g) :: u64) \<le> 256"
      using small [of "sw_PacketNumberLen g"] by (simp add: unat_word_ariths)
    then show ?thesis using StopWaitingF n by (simp add: StopWaitingFrame_MinLength_def split: if_splits)
  next
    case (PathsF g)
    have "unat (ucast (x :: u8) :: u64) \<le> 255" for x using unat_bound [of x] by (simp add: unat_ucast_wide)
    from this [of "1 + 1 + 1 + (3 * pf_NumPaths g)"] have "length bs \<le> 255"
      using PathsF n by (simp add: PathsFrame_MinLength_def)
    then show ?thesis by simp
  next
    case (ConnectionCloseF g)
    then have l: "length (cc_ReasonPhrase g) \<le> 1350" and "n = 7 + of_nat (length (cc_ReasonPhrase g))"
      using wf n by (simp_all add: ConnectionCloseFrame_MinLength_def)
    then have "unat n = 7 + length (cc_ReasonPhrase g)" by (simp add: unat_word_ariths unat_of_nat)
    then show ?thesis using n l by simp
  next
    case (GoawayF g)
    then have l: "length (goaway_ReasonPhrase g) \<le> 1350" and "n = 11 + of_nat (length (goaway_ReasonPhrase g))"
      using wf n by (simp_all add: GoawayFrame_MinLength_def)
    then have "unat n = 11 + length (goaway_ReasonPhrase g)" by (simp add: unat_word_ariths unat_of_nat)
    then show ?thesis using n l by simp
  next
    case (AddAddressF g)
    then show ?thesis using n by (auto simp: AddAddressFrame_MinLength_def split: if_splits)
  qed (use s n in \<open>auto simp: RstStreamFrame_MinLength_def WindowUpdateFrame_MinLength_def BlockedFrame_MinLength_def PingFrame_MinLength_def\<close>)
  then show ?thesis using n bs by (simp add: frame_bytes_def)
qed

lemma frame_wf_other:
  assumes "\<And>g. f \<noteq> StopWaitingF g" "\<not> is_stream f"
  shows "frame_wf pn len atEnd f \<longleftrightarrow> frame_wf 0 0 False f"
  using assms by (cases f) auto

lemma stream_frame_bytes:
  assumes "StreamFrame_wf f"
  shows "frame_bytes v now (StreamF f) = frame_len f"
proof -
  obtain bs where bs: "StreamFrame_Write v f = Inr bs" using assms by (auto simp: StreamFrame_Write_eq StreamFrame_wf_def)
  obtain n where n: "StreamFrame_MinLength f = Inr n" by (simp add: StreamFrame_MinLength_def Let_def)
  have "unat (n + StreamFrame_DataLen f) = length bs"
    using StreamFrame_Length_written [OF assms bs] n by (simp add: StreamFrame_Length_def)
  moreover have "unat n \<le> 25" using frame_header_len_bound [of f] n by (simp add: frame_header_len_def)
  moreover have "unat (StreamFrame_DataLen f) = length (sf_Data f)" "length (sf_Data f) \<le> 1350"
    using assms by (simp_all add: StreamFrame_wf_def StreamFrame_DataLen_def unat_of_nat)
  ultimately show ?thesis
    using bs n by (simp add: frame_bytes_def frame_len_def frame_header_len_def unat_word_ariths)
qed

lemma frame_ok_wf: "frame_ok W C f \<Longrightarrow> length (sf_Data f) \<le> 1350 \<Longrightarrow> StreamFrame_wf f"
  by (auto simp: frame_ok_def StreamFrame_wf_def Let_def)

subsection \<open>The control frames\<close>

definition frames_bytes :: "VersionNumber \<Rightarrow> int \<Rightarrow> Frame list \<Rightarrow> nat" where
  "frames_bytes v now fs = sum_list (map (frame_bytes v now) fs)"

lemma frames_bytes_simps [simp]:
  "frames_bytes v now [] = 0" "frames_bytes v now (f # fs) = frame_bytes v now f + frames_bytes v now fs"
  "frames_bytes v now (fs @ gs) = frames_bytes v now fs + frames_bytes v now gs"
  by (simp_all add: frames_bytes_def)

definition control_ok :: "Frame \<Rightarrow> bool" where
  "control_ok f \<longleftrightarrow> frame_wf 0 0 False f \<and> \<not> is_stream f \<and> (\<forall>g. f \<noteq> StopWaitingF g)"

lemma control_ok_wf: "control_ok f \<Longrightarrow> frame_wf pn len atEnd f \<and> stream_allowed enc f"
  using frame_wf_other [of f pn len atEnd] by (cases f) (auto simp: control_ok_def)

text \<open>What is taken fits, comes from the end of the queue, and the rest stays queued.\<close>

lemma take_control_ok:
  assumes "\<forall>f\<in>set q. control_ok f" "unat L \<le> 4000" "unat M \<le> 1350"
  shows "\<exists>fs L' q'. take_control M L q = (Inr (fs, L'), q') \<and> unat L' = unat L + frames_bytes v now fs \<and>
    (L \<le> M \<longrightarrow> L' \<le> M) \<and> (\<not> L \<le> M \<longrightarrow> fs = []) \<and> q = q' @ rev fs \<and>
    (fs = [] \<longrightarrow> q = [] \<or> unat M < unat L + frame_bytes v now (last q))"
  using assms
proof (induction M L q rule: take_control.induct)
  case (1 M L q)
  show ?case
  proof (cases "q = []")
    case True
    then show ?thesis by (subst take_control.simps) simp
  next
    case False
    define f where "f = last q"
    have f: "control_ok f" using 1(2) False by (simp add: f_def)
    obtain n where n: "Frame_MinLength f = Inr n" "unat n = frame_bytes v now f" "frame_bytes v now f \<le> 2000"
      using frame_MinLength [of 0 0 False f v now] f by (auto simp: control_ok_def)
    have s: "unat (L + n) = unat L + frame_bytes v now f" using n 1(3) by (simp add: unat_word_ariths)
    show ?thesis
    proof (cases "L + n > M")
      case True
      moreover from this have "unat M < unat L + frame_bytes v now (last q)" using s by (simp add: word_less_nat_alt f_def)
      ultimately show ?thesis using False n by (subst take_control.simps) (simp add: f_def [symmetric])
    next
      case le: False
      have "unat (L + n) \<le> 1350" using le 1(4) unfolding not_less word_le_nat_alt by linarith
      then have u: "unat (L + n) \<le> 4000" by simp
      have b: "\<forall>f\<in>set (butlast q). control_ok f" using 1(2) by (auto dest: in_set_butlastD)
      have n': "Frame_MinLength (last q) = Inr n" using n(1) by (simp add: f_def)
      have M: "L + n \<le> M" using le by simp
      obtain fs L' q' where r: "take_control M (L + n) (butlast q) = (Inr (fs, L'), q')"
        "unat L' = unat (L + n) + frames_bytes v now fs" "L + n \<le> M \<longrightarrow> L' \<le> M" "butlast q = q' @ rev fs"
        using 1(1) [OF False n' le b u 1(4)] by blast
      have "q = q' @ rev (f # fs)" using r(4) append_butlast_last_id [OF False] by (simp add: f_def)
      moreover have "take_control M L q = (Inr (f # fs, L'), q')"
        using False n le r(1) by (subst take_control.simps) (simp add: f_def [symmetric])
      moreover have "L \<le> M" using le s unfolding not_less word_le_nat_alt by linarith
      ultimately show ?thesis using r(2,3) M s by (intro exI [of _ "f # fs"] exI [of _ L'] exI [of _ q']) simp
    qed
  qed
qed

subsection \<open>The STREAM frames\<close>

lemma frame_ok_same: "same_content f g \<Longrightarrow> frame_ok W C g \<longleftrightarrow> frame_ok W C f"
  by (simp add: same_content_def frame_ok_def)

lemma frame_len_same: "same_content f g \<Longrightarrow> sf_DataLenPresent g = sf_DataLenPresent f \<Longrightarrow> frame_len g = frame_len f"
  using frame_header_len_cong [of g f] by (simp add: same_content_def frame_len_def)

lemma stamp_frames_same:
  "stamp_frames ts n i one l fs = (gs, l') \<Longrightarrow>
    list_all2 (\<lambda>f g. same_content f g \<and> sf_DataLenPresent g = sf_DataLenPresent f) fs gs"
proof (induction fs arbitrary: one l gs l')
  case (Cons f fs)
  then show ?case by (auto simp: Let_def same_content_def split: if_splits prod.splits)
qed simp

lemma frame_len_no_data_len:
  assumes "sf_DataLenPresent f"
  shows "frame_len (f\<lparr>sf_DataLenPresent := False\<rparr>) + 2 = frame_len f"
proof -
  have c: "calculateStreamIDLength (f\<lparr>sf_DataLenPresent := False\<rparr>) = calculateStreamIDLength f"
    "getOffsetLength (f\<lparr>sf_DataLenPresent := False\<rparr>) = getOffsetLength f"
    by (simp_all add: calculateStreamIDLength_def getOffsetLength_def)
  have "frame_header_len f = frame_header_len (f\<lparr>sf_DataLenPresent := False\<rparr>) + 2"
    using assms by (simp add: frame_header_len_def StreamFrame_MinLength_def c Let_def)
  moreover have "unat (frame_header_len (f\<lparr>sf_DataLenPresent := False\<rparr>)) \<le> 25" by (rule frame_header_len_bound)
  ultimately have "unat (frame_header_len f) = unat (frame_header_len (f\<lparr>sf_DataLenPresent := False\<rparr>)) + 2"
    by (simp add: unat_word_ariths)
  then show ?thesis by (simp add: frame_len_def)
qed

text \<open>Only the last frame goes without its data length, and this saves two bytes.\<close>

lemma drop_last_len_ok:
  assumes "\<forall>f\<in>set fs. frame_ok W C f \<and> sf_DataLenPresent f"
  shows "\<forall>f\<in>set (drop_last_len fs). frame_ok W C f" "\<forall>f\<in>set (butlast (drop_last_len fs)). sf_DataLenPresent f"
    "fs \<noteq> [] \<Longrightarrow> sum_list (map frame_len (drop_last_len fs)) + 2 = sum_list (map frame_len fs)"
proof -
  show "\<forall>f\<in>set (drop_last_len fs). frame_ok W C f" "\<forall>f\<in>set (butlast (drop_last_len fs)). sf_DataLenPresent f"
    using assms by (auto simp: drop_last_len_def dest: in_set_butlastD)
  assume ne: "fs \<noteq> []"
  then obtain gs f where g: "fs = gs @ [f]" by (metis append_butlast_last_id)
  have "frame_len (f\<lparr>sf_DataLenPresent := False\<rparr>) + 2 = frame_len f"
    using assms g by (intro frame_len_no_data_len) simp
  then show "sum_list (map frame_len (drop_last_len fs)) + 2 = sum_list (map frame_len fs)"
    by (simp add: g drop_last_len_def)
qed

lemma payload_wf_append:
  assumes "\<forall>f\<in>set fs. frame_wf pn len False f \<and> stream_allowed enc f" "payload_wf pn len enc (map (Pair 0) gs) 0"
  shows "payload_wf pn len enc (map (Pair 0) (fs @ gs)) 0"
proof -
  have "frame_wf pn len b f" if "frame_wf pn len False f" for f b using that by (cases f) auto
  then show ?thesis using assms by (induction fs) auto
qed

lemma stream_payload:
  assumes "\<forall>f\<in>set fs. frame_ok W C f \<and> length (sf_Data f) \<le> 1350" "\<forall>f\<in>set (butlast fs). sf_DataLenPresent f"
    and "EncryptionUnencrypted < enc"
  shows "payload_wf pn len enc (map (Pair 0) (map StreamF fs)) 0"
  using assms(1,2)
proof (induction fs)
  case (Cons f fs)
  have "StreamFrame_wf f" using Cons.prems(1) frame_ok_wf by auto
  moreover have "\<forall>f\<in>set (butlast fs). sf_DataLenPresent f" "fs \<noteq> [] \<Longrightarrow> sf_DataLenPresent f"
    using Cons.prems(2) by (cases "fs = []"; auto)+
  ultimately show ?case using Cons assms(3) by (auto simp: not_le)
qed simp

lemma stream_frames_bytes:
  assumes "\<forall>f\<in>set fs. frame_ok W C f \<and> length (sf_Data f) \<le> 1350"
  shows "frames_bytes v now (map StreamF fs) = sum_list (map frame_len fs)"
  using assms
proof (induction fs)
  case (Cons f fs)
  then show ?case using stream_frame_bytes [of f v now] frame_ok_wf [of W C f] by simp
qed simp

text \<open>What \<open>PopStreamFrames\<close> returned, stamped.\<close>

lemma stamped_ok:
  assumes "\<forall>f\<in>set frames. frame_ok W C f \<and> sf_DataLenPresent f" "sum_list (map frame_len frames) \<le> n + 2" "n \<le> 1350"
    and "stamp_frames ts k i one l (drop_last_len frames) = (gs, l')" and "EncryptionUnencrypted < enc"
  shows "payload_wf pn len enc (map (Pair 0) (map StreamF gs)) 0" "frames_bytes v now (map StreamF gs) \<le> n"
proof -
  let ?fs = "drop_last_len frames"
  have d: "\<forall>f\<in>set ?fs. frame_ok W C f" "\<forall>f\<in>set (butlast ?fs). sf_DataLenPresent f"
    using drop_last_len_ok(1,2) [OF assms(1)] by simp_all
  have sum: "sum_list (map frame_len ?fs) \<le> n"
    using drop_last_len_ok(3) [OF assms(1)] assms(2) by (cases "frames = []") (auto simp: drop_last_len_def)
  have s: "length ?fs = length gs"
    "\<And>j. j < length gs \<Longrightarrow> same_content (?fs ! j) (gs ! j) \<and> sf_DataLenPresent (gs ! j) = sf_DataLenPresent (?fs ! j)"
    using stamp_frames_same [OF assms(4)] by (auto simp: list_all2_conv_all_nth)
  have lens: "map frame_len gs = map frame_len ?fs"
    using s frame_len_same by (intro nth_equalityI) auto
  have g: "frame_ok W C f \<and> length (sf_Data f) \<le> 1350" if "f \<in> set gs" for f
  proof -
    obtain j where j: "j < length gs" "f = gs ! j" using \<open>f \<in> set gs\<close> by (auto simp: in_set_conv_nth)
    have "frame_ok W C f" using s(1) s(2) [OF j(1)] d(1) frame_ok_same j by auto
    moreover have "frame_len f \<le> sum_list (map frame_len gs)" using \<open>f \<in> set gs\<close> by (intro member_le_sum_list) auto
    ultimately show ?thesis using sum assms(3) by (simp add: lens frame_len_def)
  qed
  have b: "sf_DataLenPresent f" if "f \<in> set (butlast gs)" for f
  proof -
    obtain j where j: "j < length gs - 1" "f = gs ! j" using \<open>f \<in> set (butlast gs)\<close> by (auto simp: in_set_conv_nth nth_butlast)
    have "?fs ! j \<in> set (butlast ?fs)" using j s(1) by (auto simp: in_set_conv_nth nth_butlast)
    then show ?thesis using d(2) s(2) [of j] j by auto
  qed
  show "payload_wf pn len enc (map (Pair 0) (map StreamF gs)) 0"
    by (rule stream_payload [where W = W and C = C]) (use g b assms(5) in auto)
  show "frames_bytes v now (map StreamF gs) \<le> n"
    using stream_frames_bytes [of gs W C v now] g sum lens by simp
qed

subsection \<open>The next packet\<close>

text \<open>What the session queues for a path, and what it has for a packet with number \<open>pn\<close>, sent in \<open>len\<close> bytes.\<close>

definition queue_ok :: "PacketNumber \<Rightarrow> PacketNumberLen \<Rightarrow> PathID \<Rightarrow> packetPacker \<Rightarrow> bool" where
  "queue_ok pn len i p \<longleftrightarrow> (\<forall>f\<in>set (pa_controlFrames p). control_ok f) \<and> (\<forall>f. pa_ackFrame p i = Some f \<longrightarrow> AckFrame_wf f) \<and>
     (\<forall>f. pa_stopWaiting p i = Some f \<longrightarrow> StopWaitingFrame_wf pn len f)"

definition opt_frames :: "PathID \<Rightarrow> packetPacker \<Rightarrow> Frame list" where
  "opt_frames i p = (case pa_stopWaiting p i of None \<Rightarrow> [] | Some f \<Rightarrow> [StopWaitingF f]) @
     (case pa_ackFrame p i of None \<Rightarrow> [] | Some f \<Rightarrow> [AckF f])"

lemma opt_length_ok:
  assumes "\<forall>f. x = Some f \<longrightarrow> frame_wf pn len False f \<and> \<not> is_stream f"
  shows "\<exists>n. opt_length x = Inr n \<and> unat n = frames_bytes v now (case x of None \<Rightarrow> [] | Some f \<Rightarrow> [f]) \<and> unat n \<le> 2000"
  using assms frame_MinLength [of pn len False "the x" v now] by (cases x) (auto simp: opt_length_def)

lemma opt_frames_wf:
  assumes "queue_ok pn len i p" "f \<in> set (opt_frames i p)"
  shows "frame_wf pn len False f \<and> stream_allowed enc f"
  using assms by (auto simp: queue_ok_def opt_frames_def split: option.splits)

text \<open>
  The frames of a packet apart from the packet number of STOP_WAITING, its STREAM frames, and what is queued for path \<open>i\<close> besides
  stream data.
\<close>

fun plain :: "Frame \<Rightarrow> Frame" where
  "plain (StopWaitingF f) = StopWaitingF (f\<lparr>sw_PacketNumber := 0, sw_PacketNumberLen := 0\<rparr>)"
| "plain f = f"

definition stream_frames :: "Frame list \<Rightarrow> StreamFrame list" where
  "stream_frames fs = concat (map (\<lambda>f. case f of StreamF g \<Rightarrow> [g] | _ \<Rightarrow> []) fs)"

definition queued :: "PathID \<Rightarrow> packetPacker \<Rightarrow> streamFramer \<Rightarrow> Frame multiset" where
  "queued i p fr = mset (map plain (pa_controlFrames p @ opt_frames i p @ map BlockedF (fr_blockedFrameQueue fr)))"

lemma stream_frames_simps [simp]:
  "stream_frames [] = []" "stream_frames (fs @ gs) = stream_frames fs @ stream_frames gs"
  "stream_frames (StreamF g # fs) = g # stream_frames fs" "stream_frames (map StreamF hs) = hs"
  by (simp_all add: stream_frames_def comp_def)

lemma stream_frames_none: "\<forall>f\<in>set fs. \<not> is_stream f \<Longrightarrow> stream_frames fs = []"
  by (auto simp: stream_frames_def split: Frame.split)

lemma carried_cong:
  "list_all2 same_content fs gs \<Longrightarrow> carried i gs = carried i fs \<and> fin_count i gs = fin_count i fs"
  by (induction rule: list_all2_induct) (auto simp: same_content_def simp del: mset_upt)

lemma drop_last_len_same: "list_all2 same_content fs (drop_last_len fs)"
proof (cases "fs = []")
  case False
  then obtain gs f where "fs = gs @ [f]" by (metis append_butlast_last_id)
  then show ?thesis by (simp add: drop_last_len_def list_all2_appendI list.rel_refl same_content_def)
qed (simp add: drop_last_len_def)

lemma stamped_same:
  assumes "stamp_frames ts n i one l (drop_last_len frames) = (gs, l')"
  shows "list_all2 same_content frames gs"
proof (rule list_all2_trans [OF _ drop_last_len_same])
  show "list_all2 same_content (drop_last_len frames) gs" using stamp_frames_same [OF assms] by (auto elim: list_all2_mono)
qed (simp add: same_content_def)

text \<open>What \<open>composeNextPacket\<close> takes, what stays queued, and when it takes nothing.\<close>

definition framer_ready :: "streamsMap \<Rightarrow> bool" where
  "framer_ready m \<longleftrightarrow> (\<exists>pers. sm_run pers m) \<and> length (sm_openStreams m) < 2 ^ 31 \<and> unat (sm_roundRobinIndex m) < 2 ^ 31"

definition nothing_to_send :: "pack_env \<Rightarrow> framer_state \<Rightarrow> bool" where
  "nothing_to_send env fs \<longleftrightarrow> (case fs of (fr, m, fm) \<Rightarrow>
     fr_retransmissionQueue fr = [] \<and> (\<forall>j s. sm_streams m j = Some s \<longrightarrow> \<not> sendable (en_cp env) fm s))"

definition composed ::
    "pack_env \<Rightarrow> ByteCount \<Rightarrow> bool \<Rightarrow> packetPacker \<Rightarrow> framer_state \<Rightarrow> PathID \<Rightarrow> packetPacker \<Rightarrow> framer_state \<Rightarrow> Frame list \<Rightarrow> bool" where
  "composed env M can p fs i p' fs' frames \<longleftrightarrow> (case (fs, fs') of ((fr, m, fm), (fr', m', fm')) \<Rightarrow>
     pa_ackFrame p' = pa_ackFrame p \<and> pa_stopWaiting p' = pa_stopWaiting p \<and>
     (\<exists>cs gs kept new. frames = opt_frames i p @ cs @ map StreamF gs \<and> (\<forall>f\<in>set cs. \<not> is_stream f) \<and> pa_controlFrames p = kept @ rev cs \<and>
        pa_controlFrames p' @ map BlockedF (fr_blockedFrameQueue fr') = kept @ map BlockedF (fr_blockedFrameQueue fr @ new) \<and>
        length new \<le> length gs \<and> conserved (fr_retransmissionQueue fr) m gs (fr_retransmissionQueue fr') m' \<and>
        (cs = [] \<longrightarrow> pa_controlFrames p = [] \<or>
           unat M < frames_bytes (pa_version p) (en_now env) (opt_frames i p @ [last (pa_controlFrames p)])) \<and>
        (can \<and> cs = [] \<and> gs = [] \<and> framer_ready m \<and> frames_bytes (pa_version p) (en_now env) (opt_frames i p) + 25 \<le> unat M \<longrightarrow>
           nothing_to_send env fs)))"

lemma conserved_refl: "conserved q m [] q m"
  by (simp add: conserved_def)

lemma conserved_cong: "list_all2 same_content fs gs \<Longrightarrow> conserved q m fs q' m' \<Longrightarrow> conserved q m gs q' m'"
  using carried_cong by (simp add: conserved_def del: mset_upt)

lemma popped_nothing:
  assumes "PopStreamFrames (en_cp env) maxLen (fr, m, fm) = ([], fs')" "framer_ready m" "streams_ok W C m"
    and "\<forall>f\<in>set (fr_retransmissionQueue fr). frame_ok W C f" "25 < maxLen" "maxLen < 2 ^ 62"
  shows "nothing_to_send env (fr, m, fm)"
proof (rule ccontr)
  assume "\<not> nothing_to_send env (fr, m, fm)"
  then have "fr_retransmissionQueue fr \<noteq> [] \<or> (\<exists>i s. sm_streams m i = Some s \<and> sendable (en_cp env) fm s)"
    by (auto simp: nothing_to_send_def)
  moreover obtain pers where "sm_run pers m" "length (sm_openStreams m) < 2 ^ 31" "unat (sm_roundRobinIndex m) < 2 ^ 31"
    using assms(2) by (auto simp: framer_ready_def)
  ultimately show False using PopStreamFrames_progress [of pers m W C fr maxLen "en_cp env" fm] assms(1,3-6) by auto
qed

lemma composeNextPacket_ok:
  assumes q: "queue_ok pn len i p" and i: "i = pt_pathID pth" and v: "v = pa_version p"
    and fit: "frames_bytes v now (opt_frames i p) \<le> unat M" and M: "unat M \<le> 1350"
    and s: "streams_ok W C m" "\<forall>f\<in>set (fr_retransmissionQueue fr). frame_ok W C f"
    and enc: "can \<longrightarrow> EncryptionUnencrypted < enc"
  shows "\<exists>fs p' fs' pth'. composeNextPacket env M can (p, (fr, m, fm), pth) = (Inr fs, p', fs', pth') \<and>
    frames_bytes v now fs \<le> unat M \<and> payload_wf pn len enc (map (Pair 0) fs) 0 \<and>
    pt_packetNumberGenerator pth' = pt_packetNumberGenerator pth \<and> pa_version p' = v \<and> pa_perspective p' = pa_perspective p \<and>
    (now = en_now env \<longrightarrow> composed env M can p (fr, m, fm) i p' fs' fs)"
proof -
  let ?sw = "map_option StopWaitingF (pa_stopWaiting p i)" and ?ack = "map_option AckF (pa_ackFrame p i)"
  let ?opt = "opt_frames i p"
  have wf_sw: "\<forall>f. ?sw = Some f \<longrightarrow> frame_wf pn len False f \<and> \<not> is_stream f"
    and wf_ack: "\<forall>f. ?ack = Some f \<longrightarrow> frame_wf pn len False f \<and> \<not> is_stream f"
    using q by (auto simp: queue_ok_def)
  obtain l1 where l1: "opt_length ?sw = Inr l1"
    "unat l1 = frames_bytes v now (case ?sw of None \<Rightarrow> [] | Some f \<Rightarrow> [f])" "unat l1 \<le> 2000"
    using opt_length_ok [OF wf_sw, of v now] by blast
  obtain l2 where l2: "opt_length ?ack = Inr l2"
    "unat l2 = frames_bytes v now (case ?ack of None \<Rightarrow> [] | Some f \<Rightarrow> [f])" "unat l2 \<le> 2000"
    using opt_length_ok [OF wf_ack, of v now] by blast
  have opt: "(case ?sw of None \<Rightarrow> [] | Some f \<Rightarrow> [f]) @ (case ?ack of None \<Rightarrow> [] | Some f \<Rightarrow> [f]) = ?opt"
    by (simp add: opt_frames_def split: option.split)
  have sum: "unat (l1 + l2) = frames_bytes v now ?opt"
    using l1(2,3) l2(2,3) unfolding opt [symmetric] by (simp add: unat_word_ariths)
  have le: "l1 + l2 \<le> M" using fit sum by (simp add: word_le_nat_alt)
  have ctl: "\<forall>f\<in>set (pa_controlFrames p). control_ok f" using q by (simp add: queue_ok_def)
  have bound: "unat (l1 + l2) \<le> 4000" using fit sum M by simp
  obtain cs L q' where t: "take_control M (l1 + l2) (pa_controlFrames p) = (Inr (cs, L), q')"
    "unat L = unat (l1 + l2) + frames_bytes v now cs" "L \<le> M" "pa_controlFrames p = q' @ rev cs"
    "cs = [] \<Longrightarrow> pa_controlFrames p = [] \<or> unat M < unat (l1 + l2) + frame_bytes v now (last (pa_controlFrames p))"
    using take_control_ok [OF ctl bound M, of v now] le by blast
  have pay: "\<forall>f\<in>set (?opt @ cs). frame_wf pn len False f \<and> stream_allowed enc f"
    using opt_frames_wf [OF q] control_ok_wf ctl t(4) by (auto simp del: frame_wf.simps)
  have bytes: "frames_bytes v now (?opt @ cs) = unat L" using t(2) sum by simp
  have LM: "unat L \<le> unat M" using t(3) by (simp add: word_le_nat_alt)
  define p1 where "p1 = p\<lparr>pa_controlFrames := q'\<rparr>"
  have eq: "composeNextPacket env M can (p, (fr, m, fm), pth) =
    (if \<not> can then (Inr (?opt @ cs), p1, (fr, m, fm), pth)
     else let (frames, fr, m, fm) = PopStreamFrames (en_cp env) (M + 2 - L) (fr, m, fm);
              (_, _, sntLost) = sh_GetStatistics (pt_sentPacketHandler pth);
              (stamped, lastSent) = stamp_frames (en_encodeTs env) sntLost i False (pt_lastSentLossCount pth) (drop_last_len frames);
              (p2, fr2) = queue_blocked p1 fr
          in (Inr ((?opt @ cs) @ map StreamF stamped), p2, (fr2, m, fm), pth\<lparr>pt_lastSentLossCount := lastSent\<rparr>))"
    unfolding composeNextPacket_def Let_def prod.case i [symmetric] l1(1) l2(1) t(1) sum.case opt [symmetric] p1_def
    using t(3) by (simp only: not_less [symmetric] append_assoc if_False simp_thms split: if_split)
  have p1: "pa_version p1 = v" "pa_perspective p1 = pa_perspective p" by (simp_all add: p1_def v)
  have room: "pa_controlFrames p = [] \<or> unat M < frames_bytes (pa_version p) (en_now env) (?opt @ [last (pa_controlFrames p)])"
    if "cs = []" "now = en_now env" using t(5) that sum by (simp add: v)
  have no_stream: "\<forall>f\<in>set cs. \<not> is_stream f" using ctl t(4) by (auto simp: control_ok_def)
  show ?thesis
  proof (cases can)
    case False
    have "payload_wf pn len enc (map (Pair 0) ((?opt @ cs) @ [])) 0" by (rule payload_wf_append [OF pay]) simp
    moreover have "composed env M can p (fr, m, fm) i p1 (fr, m, fm) (?opt @ cs)" if "now = en_now env"
      unfolding composed_def prod.case
      using False room [OF _ that] t(4) no_stream conserved_refl
      by (intro conjI exI [of _ cs] exI [of _ "[]"] exI [of _ q']) (auto simp: p1_def)
    ultimately show ?thesis unfolding eq using False bytes LM p1 by auto
  next
    case True
    obtain frames fr' m' fm' where pop: "PopStreamFrames (en_cp env) (M + 2 - L) (fr, m, fm) = (frames, fr', m', fm')"
      by (metis prod.exhaust)
    have n: "unat (M + 2 - L) = unat M - unat L + 2"
    proof -
      have "unat (M + 2) = unat M + 2" using M by (simp add: unat_word_ariths)
      moreover from this have "L \<le> M + 2" using LM by (simp add: word_le_nat_alt)
      ultimately show ?thesis using LM by (simp add: unat_sub)
    qed
    then have small: "M + 2 - L < 2 ^ 62" using M by (simp add: word_less_nat_alt)
    note pf = PopStreamFrames_ok [OF pop small s, where ?cp0.0 = "en_cp env" and R = "[]"]
    obtain a b sntLost where st: "sh_GetStatistics (pt_sentPacketHandler pth) = (a, b, sntLost)" by (metis prod.exhaust)
    obtain gs l' where g: "stamp_frames (en_encodeTs env) sntLost i False (pt_lastSentLossCount pth) (drop_last_len frames) = (gs, l')"
      by (metis prod.exhaust)
    have "sum_list (map frame_len frames) \<le> unat M - unat L + 2" "\<forall>f\<in>set frames. frame_ok W C f \<and> sf_DataLenPresent f"
      using pf n by simp_all
    then have gs: "payload_wf pn len enc (map (Pair 0) (map StreamF gs)) 0"
      "frames_bytes v now (map StreamF gs) \<le> unat M - unat L"
      using stamped_ok [where frames = frames and W = W and C = C and n = "unat M - unat L" and enc = enc] g M True enc by auto
    have "composeNextPacket env M can (p, (fr, m, fm), pth) =
      (Inr ((?opt @ cs) @ map StreamF gs), fst (queue_blocked p1 fr'), (snd (queue_blocked p1 fr'), m', fm'), pth\<lparr>pt_lastSentLossCount := l'\<rparr>)"
      unfolding eq using True by (simp add: pop st g queue_blocked_def)
    moreover have "frames_bytes v now ((?opt @ cs) @ map StreamF gs) \<le> unat M"
      using bytes gs(2) LM unfolding frames_bytes_simps(3) [of v now "?opt @ cs"] by linarith
    moreover have "payload_wf pn len enc (map (Pair 0) ((?opt @ cs) @ map StreamF gs)) 0"
      by (rule payload_wf_append [OF pay gs(1)])
    moreover have "composed env M can p (fr, m, fm) i (fst (queue_blocked p1 fr')) (snd (queue_blocked p1 fr'), m', fm')
        ((?opt @ cs) @ map StreamF gs)" if now: "now = en_now env"
    proof -
      obtain new where new: "fr_blockedFrameQueue fr' = fr_blockedFrameQueue fr @ new" "length new \<le> length frames"
        using PopStreamFrames_blocked [OF pop] by blast
      have same: "list_all2 same_content frames gs" by (rule stamped_same [OF g])
      have cons: "conserved (fr_retransmissionQueue fr) m gs (fr_retransmissionQueue fr') m'"
        by (rule conserved_cong [OF same PopStreamFrames_conserved [OF pop small s]])
      have len: "length gs = length frames" using list_all2_lengthD [OF same] by simp
      have idle: "nothing_to_send env (fr, m, fm)"
        if "cs = []" "gs = []" "framer_ready m" "frames_bytes (pa_version p) (en_now env) ?opt + 25 \<le> unat M"
      proof -
        have "unat L + 25 \<le> unat M" using that bytes by (simp add: v now)
        then have "25 < M + 2 - L" using n by (simp add: word_less_nat_alt)
        then show ?thesis using popped_nothing [OF _ that(3) s _ small] pop len that(2) by auto
      qed
      show ?thesis unfolding composed_def prod.case
        using room [OF _ now] t(4) no_stream new len cons idle
        by (intro conjI exI [of _ cs] exI [of _ gs] exI [of _ q'] exI [of _ new]) (auto simp: p1_def queue_blocked_def)
    qed
    ultimately show ?thesis using p1 by (auto simp: queue_blocked_def)
  qed
qed

text \<open>Nothing makes STOP_WAITING and ACK small enough: where they do not fit, the packer returns an error.\<close>

lemma composeNextPacket_too_large:
  assumes q: "queue_ok pn len i p" and i: "i = pt_pathID pth"
    and big: "unat M < frames_bytes v now (opt_frames i p)" and M: "unat M \<le> 1350"
  shows "fst (composeNextPacket env M can (p, fs, pth)) = Inl (GoErr ''Packet Packer BUG: packet payload too large'')"
proof -
  let ?sw = "map_option StopWaitingF (pa_stopWaiting p i)" and ?ack = "map_option AckF (pa_ackFrame p i)"
  have wf: "\<forall>f. ?sw = Some f \<longrightarrow> frame_wf pn len False f \<and> \<not> is_stream f"
    "\<forall>f. ?ack = Some f \<longrightarrow> frame_wf pn len False f \<and> \<not> is_stream f" using q by (auto simp: queue_ok_def)
  obtain l1 l2 where l: "opt_length ?sw = Inr l1" "opt_length ?ack = Inr l2" "unat l1 \<le> 2000" "unat l2 \<le> 2000"
    "unat l1 = frames_bytes v now (case ?sw of None \<Rightarrow> [] | Some f \<Rightarrow> [f])"
    "unat l2 = frames_bytes v now (case ?ack of None \<Rightarrow> [] | Some f \<Rightarrow> [f])"
    using opt_length_ok [OF wf(1), of v now] opt_length_ok [OF wf(2), of v now] by metis
  have "opt_frames i p = (case ?sw of None \<Rightarrow> [] | Some f \<Rightarrow> [f]) @ (case ?ack of None \<Rightarrow> [] | Some f \<Rightarrow> [f])"
    by (simp add: opt_frames_def split: option.split)
  then have sum: "unat (l1 + l2) = frames_bytes v now (opt_frames i p)" "unat (l1 + l2) \<le> 4000"
    using l by (simp_all add: unat_word_ariths)
  have ctl: "\<forall>f\<in>set (pa_controlFrames p). control_ok f" using q by (simp add: queue_ok_def)
  have le: "\<not> l1 + l2 \<le> M" using big sum by (simp add: word_le_nat_alt)
  obtain L q' where t: "take_control M (l1 + l2) (pa_controlFrames p) = (Inr ([], L), q')" "unat L = unat (l1 + l2)"
    using take_control_ok [OF ctl sum(2) M, of v now] le by fastforce
  then have "L = l1 + l2" by (simp add: word_unat_eq_iff)
  moreover have "L > M" using le calculation by (simp add: not_le)
  ultimately show ?thesis
    using t(1) unfolding composeNextPacket_def Let_def prod.case i [symmetric] l(1,2) by (simp only: prod.case sum.case if_True fst_conv)
qed

subsection \<open>Header, seal and the way back\<close>

text \<open>The session the packer belongs to: versions that can be sent, its connection ID and the nonce of the handshake.\<close>

definition session_ok :: "pack_env \<Rightarrow> packetPacker \<Rightarrow> bool" where
  "session_ok env p \<longleftrightarrow> pa_connectionID p \<noteq> 0 \<and> 0 \<le> pa_version p \<and> pa_version p < 1000 \<and>
     (pa_perspective p = PerspectiveClient \<longrightarrow> cp_perspective (en_cp env) = PerspectiveClient) \<and>
     length (cs_DiversificationNonce (en_setup env)) \<in> {0, 32}"

lemma getPublicHeader_fields:
  "ph_PacketNumber (getPublicHeader env enc pth p) = pg_Peek (pt_packetNumberGenerator pth)"
  "ph_PacketNumberLen (getPublicHeader env enc pth p) =
    GetPacketNumberLengthForPublicHeader (pg_Peek (pt_packetNumberGenerator pth)) (pt_leastUnacked pth)"
  "\<not> ph_ResetFlag (getPublicHeader env enc pth p)"
  by (simp_all add: getPublicHeader_def Let_def empty_header_def)

lemma getPublicHeader_wf:
  assumes "session_ok env p"
  shows "PublicHeader_wf (getPublicHeader env enc pth p) (pa_version p) (pa_perspective p)"
proof -
  have "GetPacketNumberLengthForPublicHeader pn lu \<in> pn_lens" for pn lu
    using GetPacketNumberLengthForPublicHeader_set [of pn lu] by (auto simp: pn_lens_def)
  then show ?thesis
    using assms by (cases "pa_perspective p") (auto simp: session_ok_def PublicHeader_wf_def getPublicHeader_def Let_def empty_header_def
        TruncateConnectionID_def VersionUnknown_def)
qed

lemma header_bytes_bound:
  assumes wf: "PublicHeader_wf h v pers" and rst: "\<not> ph_ResetFlag h"
  shows "length (header_bytes h v pers) \<le> 52"
proof -
  have "unat (ph_PacketNumberLen h) \<le> 6" using wf rst pn_lens_le by (auto simp: PublicHeader_wf_def)
  moreover have "length (ph_DiversificationNonce h) \<le> 32" "ph_VersionFlag h \<Longrightarrow> ph_DiversificationNonce h = []"
    using wf by (cases pers; auto simp: PublicHeader_wf_def)+
  ultimately show ?thesis by (auto simp: header_bytes_def bo.length_enc pn_bytes_def hasPacketNumber_def)
qed

text \<open>The sealers of a crypto setup add an overhead of at most 100 bytes; \<open>opens\<close> says that the other end opens what one of them sealed.\<close>

definition sealers :: "CryptoSetup \<Rightarrow> (EncryptionLevel \<times> Sealer) set" where
  "sealers setup = {cs_GetSealer setup, cs_GetSealerForCryptoStream setup}"

definition sealers_ok :: "CryptoSetup \<Rightarrow> bool" where
  "sealers_ok setup \<longleftrightarrow> (\<forall>(level, s)\<in>sealers setup. se_Overhead s \<le> 100 \<and>
     (\<forall>payload pn ad. length (se_Seal s payload pn ad) = length payload + se_Overhead s))"

definition opens :: "aead_open \<Rightarrow> EncryptionLevel \<Rightarrow> Sealer \<Rightarrow> bool" where
  "opens op level s \<longleftrightarrow> (\<forall>payload pn ad. op (se_Seal s payload pn ad) pn ad = Inr (payload, level))"

text \<open>A datagram at the other end: the public header is read, the rest goes to the path.\<close>

definition datagram_arrives ::
    "aead_open \<Rightarrow> VersionNumber \<Rightarrow> Perspective \<Rightarrow> int \<Rightarrow> net_addr \<Rightarrow> u8 list \<Rightarrow> 'c path \<Rightarrow> go_error + Frame list option" where
  "datagram_arrives op v sentBy now addr raw pth =
     (case ParsePublicHeader sentBy v raw of
        Inl e \<Rightarrow> Inl e
      | Inr (hdr, rest) \<Rightarrow>
          fst (path_handlePacket op v (if sentBy = PerspectiveClient then PerspectiveServer else PerspectiveClient) now
            \<lparr> rc_remoteAddr = addr, rc_publicHeader = hdr\<lparr>ph_Raw := take (length raw - length rest) raw\<rparr>,
              rc_data = rest, rc_rcvTime = Some now \<rparr> pth))"

text \<open>The peer can infer the packet number, and its handler of received packets takes it.\<close>

definition peer_ready :: "int \<Rightarrow> PacketNumber \<Rightarrow> PacketNumber \<Rightarrow> Frame list \<Rightarrow> 'c path \<Rightarrow> bool" where
  "peer_ready now leastUnacked pn fs peer \<longleftrightarrow> pt_open peer \<and>
     unat leastUnacked \<le> unat (pt_largestRcvdPacketNumber peer) + 1 \<and>
     unat (pt_largestRcvdPacketNumber peer) + 1 < unat pn + 2 ^ 15 \<and> unat (pt_largestRcvdPacketNumber peer) < 2 ^ 62 \<and>
     fst (rp_ReceivedPacket now pn (HasRetransmittableFrames fs) (pt_receivedPacketHandler peer)) = None"

definition number_ok :: "PacketNumber \<Rightarrow> PacketNumber \<Rightarrow> bool" where
  "number_ok leastUnacked pn \<longleftrightarrow> unat pn < 2 ^ 62 \<and> unat leastUnacked \<le> unat pn \<and> unat pn < unat leastUnacked + 2 ^ 47"

lemma InferPacketNumber_packed:
  assumes "number_ok lu pn" "peer_ready now lu pn fs peer" "len = GetPacketNumberLengthForPublicHeader pn lu"
  shows "InferPacketNumber len (pt_largestRcvdPacketNumber peer) (take_bit (8 * unat len) pn) = pn"
proof (rule InferPacketNumber_eq)
  let ?last = "pt_largestRcvdPacketNumber peer"
  have a: "unat ?last < 2 ^ 62" "unat pn < 2 ^ 62" "unat lu \<le> unat pn" "unat pn < unat lu + 2 ^ 47"
    "unat lu \<le> unat ?last + 1" "unat ?last + 1 < unat pn + 2 ^ 15"
    using assms(1,2) by (simp_all add: number_ok_def peer_ready_def)
  have d: "unat (pn - lu) = unat pn - unat lu" using a(3) by (simp add: unat_sub word_le_nat_alt)
  have "unat (pn - lu) < 2 ^ (8 * unat len - 1)"
    using a(3,4) d unfolding assms(3) by (intro GetPacketNumberLengthForPublicHeader_half) simp
  then show "unat pn < unat ?last + 1 + 2 ^ (8 * unat len - 1)" using a(3,5) d by linarith
  have len: "unat len = 2 \<or> unat len = 4 \<or> unat len = 6"
    using GetPacketNumberLengthForPublicHeader_set [of pn lu] assms(3) by auto
  then show "unat ?last + 1 < unat pn + 2 ^ (8 * unat len - 1)" using a(6) by auto
  show "1 \<le> unat len" "unat len \<le> 6" using len by auto
  show "unat ?last < 2 ^ 62" "unat pn < 2 ^ 62" by (rule a)+
qed

lemma payload_Write_wseq: "payload_Write v now (map (Pair 0) fs) 0 = wseq (map (Frame_Write v now) fs)"
  by (induction fs) (simp_all add: wbytes_def split: sum.splits)

lemma wseq_bytes:
  assumes "wseq (map (Frame_Write v now) fs) = Inr bs"
  shows "length bs = frames_bytes v now fs"
  using assms by (induction fs arbitrary: bs) (auto simp: frame_bytes_def split: sum.splits)

text \<open>A packet as it should be: it fits, it has the next number, and the path of a peer that is ready gets its frames.\<close>

definition packet_ok :: "pack_env \<Rightarrow> packetPacker \<Rightarrow> 'c path \<Rightarrow> packedPacket \<Rightarrow> bool" where
  "packet_ok env p pth pkt \<longleftrightarrow>
     length (pp_raw pkt) \<le> 1350 \<and> pp_number pkt = pg_Peek (pt_packetNumberGenerator pth) \<and> pp_frames pkt \<noteq> [] \<and>
     (\<forall>op now addr (peer :: 'c path).
        (\<forall>s. (pp_encryptionLevel pkt, s) \<in> sealers (en_setup env) \<longrightarrow> opens op (pp_encryptionLevel pkt) s) \<longrightarrow>
        peer_ready now (pt_leastUnacked pth) (pp_number pkt) (map (frame_seen (en_now env)) (pp_frames pkt)) peer \<longrightarrow>
        datagram_arrives op (pa_version p) (pa_perspective p) now addr (pp_raw pkt) peer =
          Inr (Some (map (frame_seen (en_now env)) (pp_frames pkt))))"

lemma datagram_arrives_ok:
  fixes peer :: "'c path"
  assumes s: "session_ok env p" and num: "number_ok (pt_leastUnacked pth) (ph_PacketNumber h)"
    and h: "h = getPublicHeader env level pth p" and hb: "hb = header_bytes h (pa_version p) (pa_perspective p)"
    and payload: "payload_wf (ph_PacketNumber h) (ph_PacketNumberLen h) level (map (Pair 0) fs) 0" "fs \<noteq> []"
      "wseq (map (Frame_Write (pa_version p) (en_now env)) fs) = Inr bs"
    and op: "op sealed (ph_PacketNumber h) hb = Inr (bs, level)"
    and ready: "peer_ready now (pt_leastUnacked pth) (ph_PacketNumber h) (map (frame_seen (en_now env)) fs) peer"
  shows "datagram_arrives op (pa_version p) (pa_perspective p) now addr (hb @ sealed) peer =
    Inr (Some (map (frame_seen (en_now env)) fs))"
proof -
  let ?v = "pa_version p" and ?fs = "map (frame_seen (en_now env)) fs" and ?pn = "ph_PacketNumber h"
  have wf: "PublicHeader_wf h ?v (pa_perspective p)" using getPublicHeader_wf [OF s] h by simp
  have parse: "ParsePublicHeader (pa_perspective p) ?v (hb @ sealed) = Inr (PublicHeader_seen h, sealed)"
    unfolding hb by (rule ParsePublicHeader_written [OF wf])
  have len: "ph_PacketNumberLen h = GetPacketNumberLengthForPublicHeader ?pn (pt_leastUnacked pth)" "\<not> ph_ResetFlag h"
    using h getPublicHeader_fields by metis+
  have infer: "InferPacketNumber (ph_PacketNumberLen h) (pt_largestRcvdPacketNumber peer) (take_bit (8 * unat (ph_PacketNumberLen h)) ?pn) = ?pn"
    by (rule InferPacketNumber_packed [OF num ready len(1)])
  have seen: "ph_PacketNumberLen (PublicHeader_seen h) = ph_PacketNumberLen h"
    "ph_PacketNumber (PublicHeader_seen h) = take_bit (8 * unat (ph_PacketNumberLen h)) ?pn"
    using len(2) by (simp_all add: PublicHeader_seen_def)
  have u: "unpackFrames ?v ?pn (ph_PacketNumberLen h) level bs = Inr ?fs"
    using unpackFrames_payload [OF payload(1), of ?v "en_now env" bs] payload(3)
    by (simp add: payload_Write_wseq comp_def)
  have "bs \<noteq> []"
  proof
    assume "bs = []"
    then have "unpackFrames ?v ?pn (ph_PacketNumberLen h) level bs = Inr []" by (simp add: unpackFrames.simps)
    then show False using u payload(2) by simp
  qed
  then have un: "Unpack op ?v hb (hdr\<lparr>ph_PacketNumber := ?pn\<rparr>) sealed = Inr (level, ?fs)"
    if "ph_PacketNumberLen hdr = ph_PacketNumberLen h" for hdr
    using op u that by (simp add: Unpack_def)
  have r: "pt_open peer" "fst (rp_ReceivedPacket now ?pn (HasRetransmittableFrames ?fs) (pt_receivedPacketHandler peer)) = None"
    using ready by (simp_all add: peer_ready_def)
  show ?thesis
    unfolding datagram_arrives_def parse sum.case prod.case path_handlePacket_def Let_def
    using r un [of "(PublicHeader_seen h)\<lparr>ph_Raw := hb\<rparr>"] infer seen
    by (auto split: prod.split option.split)
qed

lemma writeAndSealPacket_ok:
  fixes pth :: "'c path"
  assumes s: "session_ok env p" and ch: "sealers_ok (en_setup env)"
    and sealer: "(level, sealer) \<in> sealers (en_setup env)"
    and num: "number_ok (pt_leastUnacked pth) (ph_PacketNumber h)" and h: "h = getPublicHeader env level pth p"
    and p': "pa_version p' = pa_version p" "pa_perspective p' = pa_perspective p"
    and pth': "pt_packetNumberGenerator pth' = pt_packetNumberGenerator pth"
    and payload: "payload_wf (ph_PacketNumber h) (ph_PacketNumberLen h) level (map (Pair 0) fs) 0" "fs \<noteq> []"
    and fit: "length (header_bytes h (pa_version p) (pa_perspective p)) + frames_bytes (pa_version p) (en_now env) fs +
      se_Overhead sealer \<le> 1350"
  shows "\<exists>raw pth1. writeAndSealPacket env h fs sealer p' pth' = (Inr raw, pth1) \<and> packet_ok env p pth (packed h fs level raw)"
proof -
  let ?v = "pa_version p" and ?pn = "ph_PacketNumber h"
  define hb where "hb = header_bytes h ?v (pa_perspective p)"
  have wf: "PublicHeader_wf h ?v (pa_perspective p)" using getPublicHeader_wf [OF s] h by simp
  have wr: "PublicHeader_Write h ?v (pa_perspective p) = Inr hb" unfolding hb_def by (rule PublicHeader_Write_eq [OF wf])
  obtain bs where bs: "wseq (map (Frame_Write ?v (en_now env)) fs) = Inr bs"
    using payload_Write_ok [OF payload(1), of ?v "en_now env"] by (auto simp: payload_Write_wseq)
  define sealed where "sealed = se_Seal sealer bs ?pn hb"
  have len: "length sealed = length bs + se_Overhead sealer"
    using ch sealer by (auto simp: sealers_ok_def sealed_def)
  have lb: "length bs = frames_bytes ?v (en_now env) fs" by (rule wseq_bytes [OF bs])
  have pn: "?pn = pg_Peek (pt_packetNumberGenerator pth)" using h getPublicHeader_fields by metis
  obtain g where g: "pg_Pop (en_rand env) (pt_packetNumberGenerator pth') = (?pn, g)"
    by (simp add: pg_Pop_def pg_Peek_def pn pth' Let_def)
  have fits: "\<not> length hb + length bs + se_Overhead sealer > unat MaxPacketSize"
    using fit lb by (simp add: hb_def MaxPacketSize_def)
  have "writeAndSealPacket env h fs sealer p' pth' = (Inr (hb @ sealed), pth'\<lparr>pt_packetNumberGenerator := g\<rparr>)"
    unfolding writeAndSealPacket_def p' wr bs sum.case if_not_P [OF fits] Let_def g prod.case sealed_def by simp
  moreover have arrives: "datagram_arrives op ?v (pa_perspective p) now addr (hb @ sealed) peer =
      Inr (Some (map (frame_seen (en_now env)) fs))"
    if "opens op level sealer" "peer_ready now (pt_leastUnacked pth) ?pn (map (frame_seen (en_now env)) fs) peer"
    for op now addr and peer :: "'c path"
  proof -
    have op: "op sealed ?pn hb = Inr (bs, level)" using that(1) by (simp add: opens_def sealed_def)
    show ?thesis
      by (rule datagram_arrives_ok [where op = op and sealed = sealed and h = h and level = level and bs = bs and hb = hb and pth = pth,
          OF s num h hb_def payload bs op that(2)])
  qed
  then have "packet_ok env p pth (packed h fs level (hb @ sealed))"
    using fits len payload(2) pn sealer by (simp add: packet_ok_def packed_def MaxPacketSize_def)
  ultimately show ?thesis by blast
qed

lemma writeAndSealPacket_pops:
  "writeAndSealPacket env h fs sealer p pth = (Inr raw, pth') \<Longrightarrow>
    pt_packetNumberGenerator pth' = snd (pg_Pop (en_rand env) (pt_packetNumberGenerator pth))"
  by (auto simp: writeAndSealPacket_def Let_def split: sum.splits if_splits prod.splits)

subsection \<open>The crypto stream\<close>

lemma HasCryptoStreamFrame_open:
  assumes "sm_streams m 1 = Some cs"
  shows "crypto_stream cp (fr, m, fm) = Some (Some cs, fr, m, fm)"
    "HasCryptoStreamFrame cp (fr, m, fm) = Some (Inr (lenOfDataForWriting cs > 0), fr, m, fm)"
  using assms by (simp_all add: HasCryptoStreamFrame_def crypto_stream_def GetOrOpenStream_def Let_def)

lemma PopCryptoStreamFrame_ok:
  assumes m: "streams_ok W C m" "sm_streams m 1 = Some cs" "lenOfDataForWriting cs > 0"
    and len: "100 \<le> unat maxLen" "unat maxLen \<le> 1350"
  shows "\<exists>f m'. PopCryptoStreamFrame cp maxLen (fr, m, fm) = Some (Inr (Some f), fr, m', fm) \<and> StreamFrame_wf f \<and>
    sf_StreamID f = 1 \<and> frame_len f \<le> unat maxLen \<and> conserved q m [f] q m'"
proof -
  have w: "write_inv (W 1) cs" "st_streamID cs = 1" using m(1,2) by (auto simp: streams_ok_def)
  define e where "e = (empty_frame cs)\<lparr>sf_StreamID := 1, sf_DataLenPresent := False\<rparr>"
  have hl: "unat (frame_header_len e) \<le> 25" by (rule frame_header_len_bound)
  then have n: "unat (maxLen - frame_header_len e) = unat maxLen - unat (frame_header_len e)"
    using len by (simp add: unat_sub word_le_nat_alt)
  obtain D where D: "st_err cs = None" "st_dataForWriting cs = Some D"
    using m(3) by (cases "st_dataForWriting cs") (auto simp: lenOfDataForWriting_def len_data_def split: if_splits)
  obtain d cs1 where d: "getDataForWriting (maxLen - frame_header_len e) cs = (Some d, cs1)"
    using D that by (cases "maxLen - frame_header_len e < of_nat (length D)") (simp_all add: getDataForWriting_def)
  have dl: "length d \<le> unat maxLen - unat (frame_header_len e)" "d \<noteq> []"
    "d = take (length d) (drop (unat (st_writeOffset cs)) (W 1))"
    using getDataForWriting_ok [OF w(1) d] n len hl by (auto simp: word_less_nat_alt)
  have "length d \<le> length (W 1) - unat (st_writeOffset cs)"
    using arg_cong [OF dl(3), of length] by simp
  moreover have "length (W 1) < 2 ^ 62" "unat (st_writeOffset cs) \<le> length (W 1)" using w(1) by (simp_all add: write_inv_def)
  ultimately have "unat (st_writeOffset cs) + length d < 2 ^ 62" by linarith
  then have "unat (st_writeOffset cs) + length d < 2 ^ 64" by simp
  then have wf: "StreamFrame_wf (e\<lparr>sf_Data := d\<rparr>)"
    using dl len by (simp add: StreamFrame_wf_def e_def empty_frame_def)
  have "frame_len (e\<lparr>sf_Data := d\<rparr>) \<le> unat maxLen" using dl(1) hl len by (simp add: frame_len_def)
  moreover have "PopCryptoStreamFrame cp maxLen (fr, m, fm) =
    Some (Inr (Some (e\<lparr>sf_Data := d\<rparr>)), fr, m\<lparr>sm_streams := (sm_streams m)(1 \<mapsto> cs1)\<rparr>, fm)"
    unfolding PopCryptoStreamFrame_def HasCryptoStreamFrame_open [OF m(2)] option.case sum.case prod.case
    using m(3) d by (simp add: e_def Let_def)
  moreover have "conserved q m [e\<lparr>sf_Data := d\<rparr>] q (m\<lparr>sm_streams := (sm_streams m)(1 \<mapsto> cs1)\<rparr>)"
  proof -
    have "0 < maxLen - frame_header_len e" using n len hl by (simp add: word_less_nat_alt)
    then have "unat (st_writeOffset cs1) = unat (st_writeOffset cs) + length d" "st_finSent cs1 = st_finSent cs"
      using getDataForWriting_ok [OF w(1) d] getDataForWriting_frame [OF d] by auto
    then show ?thesis using m(2) by (auto simp: conserved_def wrote_def fin_sent_def e_def empty_frame_def simp del: mset_upt)
  qed
  ultimately show ?thesis using wf by (auto simp: e_def)
qed

text \<open>The length the header takes from a packet.\<close>

lemma frame_room:
  assumes "PublicHeader_wf h v pers" "\<not> ph_ResetFlag h" "ov \<le> 100"
  obtains n where "PublicHeader_GetLength h pers = Inr n" "unat n = length (header_bytes h v pers)" "unat n \<le> 52"
    "unat (MaxPacketSize - of_nat ov - n) = 1350 - ov - unat n"
    "unat (MaxPacketSize - of_nat ov - NonForwardSecurePacketSizeReduction - n) = 1300 - ov - unat n"
proof -
  obtain n where n: "PublicHeader_GetLength h pers = Inr n" "unat n = length (header_bytes h v pers)"
    using PublicHeader_GetLength_written [OF assms(1)] by blast
  have n52: "unat n \<le> 52" using header_bytes_bound [OF assms(1,2)] n(2) by simp
  have ov: "unat (of_nat ov :: u64) = ov" using assms(3) by (simp add: unat_of_nat)
  have a: "unat (MaxPacketSize - of_nat ov) = 1350 - ov"
    using ov assms(3) by (simp add: unat_sub word_le_nat_alt MaxPacketSize_def)
  then have b: "unat (MaxPacketSize - of_nat ov - n) = 1350 - ov - unat n"
    using n52 assms(3) by (simp add: unat_sub word_le_nat_alt)
  have "unat (MaxPacketSize - of_nat ov - NonForwardSecurePacketSizeReduction) = 1300 - ov"
    using a assms(3) by (simp add: unat_sub word_le_nat_alt NonForwardSecurePacketSizeReduction_def)
  then have "unat (MaxPacketSize - of_nat ov - NonForwardSecurePacketSizeReduction - n) = 1300 - ov - unat n"
    using n52 assms(3) by (simp add: unat_sub word_le_nat_alt)
  then show thesis using that n n52 b by blast
qed

subsection \<open>\<open>PackPacket\<close>\<close>

text \<open>
  The state a session is in when it packs: frames queued for the path can be written, with STOP_WAITING and ACK there is
  space left, the crypto stream is open, and streams and frames to be sent again have what was written.
\<close>

definition packing_ok :: "pack_env \<Rightarrow> (StreamID \<Rightarrow> u8 list) \<Rightarrow> (StreamID \<Rightarrow> bool) \<Rightarrow> 'c packer_state \<Rightarrow> bool" where
  "packing_ok env W C st \<longleftrightarrow> (case st of (p, (fr, m, fm), pth) \<Rightarrow>
     let i = pt_pathID pth; pn = pg_Peek (pt_packetNumberGenerator pth); lu = pt_leastUnacked pth in
     session_ok env p \<and> number_ok lu pn \<and> (\<forall>f\<in>set (pa_controlFrames p). control_ok f) \<and>
     (\<forall>f. pa_ackFrame p i = Some f \<longrightarrow> AckFrame_wf f \<and> frame_bytes (pa_version p) (en_now env) (AckF f) \<le> 1190) \<and>
     (\<forall>f. pa_stopWaiting p i = Some f \<longrightarrow> 0 < sw_LeastUnacked f \<and> lu \<le> sw_LeastUnacked f \<and> sw_LeastUnacked f \<le> pn) \<and>
     sm_streams m 1 \<noteq> None \<and> streams_ok W C m \<and> (\<forall>f\<in>set (fr_retransmissionQueue fr). frame_ok W C f))"

lemma stop_waiting_for_wf:
  assumes "number_ok lu pn" "ph_PacketNumber h = pn" "ph_PacketNumberLen h = GetPacketNumberLengthForPublicHeader pn lu"
    and "0 < sw_LeastUnacked f" "lu \<le> sw_LeastUnacked f" "sw_LeastUnacked f \<le> pn"
  shows "StopWaitingFrame_wf pn (ph_PacketNumberLen h) (stop_waiting_for h f)"
    "frame_bytes v now (StopWaitingF (stop_waiting_for h f)) \<le> 7"
proof -
  let ?len = "GetPacketNumberLengthForPublicHeader pn lu"
  have a: "unat lu \<le> unat pn" "unat pn < unat lu + 2 ^ 47" using assms(1) by (simp_all add: number_ok_def)
  have lu: "unat (pn - lu) < 2 ^ 47" using a by (simp add: unat_sub word_le_nat_alt)
  have half: "unat (pn - lu) < 2 ^ (8 * unat ?len - 1)" by (rule GetPacketNumberLengthForPublicHeader_half [OF lu])
  have len: "?len \<in> {PacketNumberLen2, PacketNumberLen4, PacketNumberLen6}" by (rule GetPacketNumberLengthForPublicHeader_set)
  have "unat (pn - sw_LeastUnacked f) \<le> unat (pn - lu)"
    using assms(5,6) a by (simp add: unat_sub word_le_nat_alt)
  moreover have "(2::nat) ^ (8 * unat ?len - 1) \<le> 2 ^ (8 * unat ?len)" by (rule power_increasing) simp_all
  ultimately have d: "unat (pn - sw_LeastUnacked f) < 2 ^ (8 * unat ?len)" using half by linarith
  have "pn - sw_LeastUnacked f < 2 ^ (8 * unat ?len)"
    using d len by (auto simp: PacketNumberLen_defs word_less_nat_alt)
  then show wf: "StopWaitingFrame_wf pn (ph_PacketNumberLen h) (stop_waiting_for h f)"
    using assms len by (auto simp: StopWaitingFrame_wf_def stop_waiting_for_def)
  have "unat (ph_PacketNumberLen h) \<le> 6" using len assms(3) by (auto simp: PacketNumberLen_defs)
  then show "frame_bytes v now (StopWaitingF (stop_waiting_for h f)) \<le> 7"
    by (simp add: frame_bytes_def StopWaitingFrame_Write_eq [OF wf] pn_bytes_def bo.length_enc)
qed

lemma packCryptoPacket_ok:
  fixes pth :: "'c path"
  assumes st: "packing_ok env W C (p, (fr, m, fm), pth)" and ch: "sealers_ok (en_setup env)"
    and cs: "sm_streams m 1 = Some cs" "lenOfDataForWriting cs > 0"
  shows "\<exists>pkt f m' pth'. packCryptoPacket env (p, (fr, m, fm), pth) = Some (Inr (Some pkt), p, (fr, m', fm), pth') \<and>
    packet_ok env p pth pkt \<and> pp_frames pkt = [StreamF f] \<and> conserved q m [f] q m' \<and>
    pt_packetNumberGenerator pth' = snd (pg_Pop (en_rand env) (pt_packetNumberGenerator pth))"
proof -
  obtain level sealer where se: "cs_GetSealerForCryptoStream (en_setup env) = (level, sealer)" by (metis prod.exhaust)
  let ?h = "getPublicHeader env level pth p" and ?v = "pa_version p"
  have s: "session_ok env p" and num: "number_ok (pt_leastUnacked pth) (ph_PacketNumber ?h)" and so: "streams_ok W C m"
    using st by (simp_all add: packing_ok_def Let_def getPublicHeader_fields)
  have ov: "se_Overhead sealer \<le> 100" using ch se by (auto simp: sealers_ok_def sealers_def)
  obtain n where n: "PublicHeader_GetLength ?h (pa_perspective p) = Inr n"
    "unat n = length (header_bytes ?h ?v (pa_perspective p))" "unat n \<le> 52"
    "unat (MaxPacketSize - of_nat (se_Overhead sealer) - NonForwardSecurePacketSizeReduction - n) = 1300 - se_Overhead sealer - unat n"
    using frame_room [OF getPublicHeader_wf [OF s] getPublicHeader_fields(3) ov] by metis
  let ?len = "MaxPacketSize - of_nat (se_Overhead sealer) - NonForwardSecurePacketSizeReduction - n"
  have "100 \<le> unat ?len" "unat ?len \<le> 1350" using n(3,4) ov by linarith+
  then obtain f m' where f: "PopCryptoStreamFrame (en_cp env) ?len (fr, m, fm) = Some (Inr (Some f), fr, m', fm)" "StreamFrame_wf f"
    "sf_StreamID f = 1" "frame_len f \<le> unat ?len" "conserved q m [f] q m'"
    using PopCryptoStreamFrame_ok [OF so cs, of ?len "en_cp env" fr fm q] by blast
  have pay: "payload_wf (ph_PacketNumber ?h) (ph_PacketNumberLen ?h) level (map (Pair 0) [StreamF f]) 0"
    using f(2,3) by simp
  have "frames_bytes ?v (en_now env) [StreamF f] \<le> 1300 - se_Overhead sealer - unat n"
    using stream_frame_bytes [OF f(2)] f(4) n(4) by simp
  then have fit: "length (header_bytes ?h ?v (pa_perspective p)) + frames_bytes ?v (en_now env) [StreamF f] + se_Overhead sealer \<le> 1350"
    using n(2,3) ov by linarith
  obtain raw pth1 where w: "writeAndSealPacket env ?h [StreamF f] sealer p pth = (Inr raw, pth1)"
    "packet_ok env p pth (packed ?h [StreamF f] level raw)"
    using writeAndSealPacket_ok [OF s ch _ num refl refl refl refl pay _ fit] se by (auto simp: sealers_def)
  then show ?thesis
    unfolding packCryptoPacket_def Let_def prod.case se n(1) sum.case f(1) option.case
    using f(5) writeAndSealPacket_pops [OF w(1)] by (simp add: packed_def)
qed

lemma payload_frames_ok:
  assumes q: "queue_ok pn len (pt_pathID pth) p" "frames_bytes (pa_version p) (en_now env) (opt_frames (pt_pathID pth) p) \<le> unat M"
      "unat M \<le> 1350" "1 \<le> unat M" and M: "M = MaxPacketSize - of_nat (se_Overhead sealer) - n"
    and s: "streams_ok W C m" "\<forall>f\<in>set (fr_retransmissionQueue fr). frame_ok W C f"
  shows "\<exists>fs p' fs' pth'. payload_frames env enc sealer n (p, (fr, m, fm), pth) = (Inr fs, p', fs', pth') \<and>
    frames_bytes (pa_version p) (en_now env) fs \<le> unat M \<and> payload_wf pn len enc (map (Pair 0) fs) 0 \<and>
    pt_packetNumberGenerator pth' = pt_packetNumberGenerator pth \<and> pa_version p' = pa_version p \<and> pa_perspective p' = pa_perspective p \<and>
    ((\<forall>f q. pa_controlFrames p \<noteq> PingF f # q) \<longrightarrow> composed env M (canSendData enc p) p (fr, m, fm) (pt_pathID pth) p' fs' fs)"
proof (cases "\<exists>f q. pa_controlFrames p = PingF f # q")
  case True
  then obtain f q where c: "pa_controlFrames p = PingF f # q" by blast
  have "frame_bytes (pa_version p) (en_now env) (PingF f) = 1"
    by (simp add: frame_bytes_def PingFrame_Write_def wbyte_def wbytes_def)
  then show ?thesis using q(4) by (simp add: payload_frames_def c)
next
  case False
  have eq: "payload_frames env enc sealer n (p, (fr, m, fm), pth) = composeNextPacket env M (canSendData enc p) (p, (fr, m, fm), pth)"
    using False by (auto simp: payload_frames_def M split: list.split Frame.split)
  have "canSendData enc p \<longrightarrow> EncryptionUnencrypted < enc"
    by (cases enc) (auto simp: canSendData_def less_EncryptionLevel_def less_eq_EncryptionLevel_def)
  from composeNextPacket_ok [OF q(1) refl refl q(2,3) s this] show ?thesis unfolding eq by blast
qed

text \<open>
  What a call took from what waits for path \<open>i\<close>, given the frames it sent: what was queued, and what was blocked on the
  way, was sent or is still queued; the same for the bytes of the streams. \<open>idle\<close>: there was nothing that could be sent.
\<close>

definition taken :: "PathID \<Rightarrow> packetPacker \<times> framer_state \<Rightarrow> packetPacker \<times> framer_state \<Rightarrow> Frame list \<Rightarrow> bool" where
  "taken i st st' frames \<longleftrightarrow> (case (st, st') of ((p, fr, m, fm), (p', fr', m', fm')) \<Rightarrow>
     conserved (fr_retransmissionQueue fr) m (stream_frames frames) (fr_retransmissionQueue fr') m' \<and>
     (\<exists>blocked. length blocked \<le> length (stream_frames frames) \<and>
        queued i p fr + mset (map BlockedF blocked) =
        mset (map plain (filter (\<lambda>f. \<not> is_stream f) frames)) + queued i p' fr') \<and>
     (\<forall>j. j \<noteq> i \<longrightarrow> pa_ackFrame p' j = pa_ackFrame p j \<and> pa_stopWaiting p' j = pa_stopWaiting p j))"

definition idle :: "pack_env \<Rightarrow> PathID \<Rightarrow> packetPacker \<times> framer_state \<Rightarrow> bool" where
  "idle env i st \<longleftrightarrow> (case st of (p, fr, m, fm) \<Rightarrow>
     (\<forall>cs. sm_streams m 1 = Some cs \<longrightarrow> \<not> lenOfDataForWriting cs > 0) \<and> pa_ackFrame p i = None \<and>
     (pa_controlFrames p = [] \<or> 1190 < frame_bytes (pa_version p) (en_now env) (last (pa_controlFrames p))) \<and>
     (canSendData (fst (cs_GetSealer (en_setup env))) p \<longrightarrow> nothing_to_send env (fr, m, fm)))"

definition sent_frames :: "packedPacket option \<Rightarrow> Frame list" where
  "sent_frames r = (case r of None \<Rightarrow> [] | Some pkt \<Rightarrow> pp_frames pkt)"

definition no_ping :: "packetPacker \<Rightarrow> bool" where
  "no_ping p \<longleftrightarrow> (\<forall>f q. pa_controlFrames p \<noteq> PingF f # q)"

lemma filter_streams: "filter (\<lambda>f. \<not> is_stream f) (map StreamF gs) = []"
  by (simp add: filter_empty_conv)

lemma opt_frames_facts:
  "\<forall>f\<in>set (opt_frames i p). \<not> is_stream f"
  "map plain (opt_frames i (p\<lparr>pa_stopWaiting := (pa_stopWaiting p)(i := map_option (stop_waiting_for ph) (pa_stopWaiting p i))\<rparr>)) =
    map plain (opt_frames i p)"
  by (auto simp: opt_frames_def stop_waiting_for_def split: option.splits)

lemma composed_queued:
  assumes "composed env M can p fs i p' (fr', m', fm') frames" "fs = (fr, m, fm)"
  shows "\<exists>cs gs new. frames = opt_frames i p @ cs @ map StreamF gs \<and> stream_frames frames = gs \<and> length new \<le> length gs \<and>
    filter (\<lambda>f. \<not> is_stream f) frames = opt_frames i p @ cs \<and>
    mset (map plain (pa_controlFrames p)) + mset (map plain (map BlockedF (fr_blockedFrameQueue fr))) + mset (map BlockedF new) =
      mset (map plain cs) + mset (map plain (pa_controlFrames p')) + mset (map plain (map BlockedF (fr_blockedFrameQueue fr')))"
proof -
  obtain cs gs kept new where c: "frames = opt_frames i p @ cs @ map StreamF gs" "\<forall>f\<in>set cs. \<not> is_stream f" "length new \<le> length gs"
    "pa_controlFrames p = kept @ rev cs"
    "pa_controlFrames p' @ map BlockedF (fr_blockedFrameQueue fr') = kept @ map BlockedF (fr_blockedFrameQueue fr @ new)"
    using assms by (auto simp: composed_def)
  have "filter (\<lambda>f. \<not> is_stream f) frames = opt_frames i p @ cs"
    using c(2) opt_frames_facts(1) [of i p] by (simp add: c(1) filter_streams filter_id_conv)
  moreover have "stream_frames frames = gs"
    using c(2) opt_frames_facts(1) [of i p] by (simp add: c(1) stream_frames_none)
  moreover have "mset (map plain (pa_controlFrames p')) + mset (map plain (map BlockedF (fr_blockedFrameQueue fr'))) =
      mset (map plain kept) + (mset (map plain (map BlockedF (fr_blockedFrameQueue fr))) + mset (map BlockedF new))"
    using arg_cong [OF c(5), of "\<lambda>l. mset (map plain l)"] by (simp add: comp_def)
  ultimately show ?thesis using c by (intro exI [of _ cs] exI [of _ gs] exI [of _ new]) (simp add: ac_simps)
qed

text \<open>From the frames of \<open>composeNextPacket\<close> to those of a packet, or of none.\<close>

lemma composed_taken:
  assumes c: "composed env M can p1 (fr, m, fm) i p2 (fr2, m2, fm2) frames"
    and p1: "p1 = p\<lparr>pa_stopWaiting := (pa_stopWaiting p)(i := map_option (stop_waiting_for ph) (pa_stopWaiting p i))\<rparr>"
  shows "taken i (p, fr, m, fm) (p2\<lparr>pa_stopWaiting := (pa_stopWaiting p2)(i := None), pa_ackFrame := (pa_ackFrame p2)(i := None)\<rparr>, fr2, m2, fm2)
      frames"
    and "frames = [] \<or> length frames = 1 \<and> pa_stopWaiting p2 i \<noteq> None \<Longrightarrow> taken i (p, fr, m, fm) (p2, fr2, m2, fm2) []"
proof -
  obtain cs gs new where q: "frames = opt_frames i p1 @ cs @ map StreamF gs" "stream_frames frames = gs" "length new \<le> length gs"
    "filter (\<lambda>f. \<not> is_stream f) frames = opt_frames i p1 @ cs"
    "mset (map plain (pa_controlFrames p1)) + mset (map plain (map BlockedF (fr_blockedFrameQueue fr))) + mset (map BlockedF new) =
      mset (map plain cs) + mset (map plain (pa_controlFrames p2)) + mset (map plain (map BlockedF (fr_blockedFrameQueue fr2)))"
    using composed_queued [OF c refl] by metis
  have opt: "map plain (opt_frames i p1) = map plain (opt_frames i p)" unfolding p1 by (rule opt_frames_facts)
  have sel: "pa_ackFrame p2 = pa_ackFrame p" "pa_stopWaiting p2 = pa_stopWaiting p1" "pa_controlFrames p1 = pa_controlFrames p"
    "\<And>j. j \<noteq> i \<Longrightarrow> pa_stopWaiting p1 j = pa_stopWaiting p j"
    and cons: "conserved (fr_retransmissionQueue fr) m gs (fr_retransmissionQueue fr2) m2"
    using c q(2) opt_frames_facts(1) [of i p1] by (auto simp: composed_def p1 stream_frames_none)
  note q5 = q(5) [unfolded sel(3)]
  have none2: "opt_frames i (p2\<lparr>pa_stopWaiting := (pa_stopWaiting p2)(i := None), pa_ackFrame := (pa_ackFrame p2)(i := None)\<rparr>) = []"
    by (simp add: opt_frames_def)
  show "taken i (p, fr, m, fm) (p2\<lparr>pa_stopWaiting := (pa_stopWaiting p2)(i := None), pa_ackFrame := (pa_ackFrame p2)(i := None)\<rparr>, fr2, m2, fm2)
      frames"
    unfolding taken_def prod.case q(2,4) queued_def none2 map_append mset_append opt
    using q(3) q5 cons sel by (intro conjI exI [of _ new]) (simp_all add: ac_simps)
  assume "frames = [] \<or> length frames = 1 \<and> pa_stopWaiting p2 i \<noteq> None"
  moreover have "pa_stopWaiting p2 i \<noteq> None \<Longrightarrow> opt_frames i p1 \<noteq> []" using sel(2) by (auto simp: opt_frames_def)
  ultimately have none: "cs = []" "gs = []" "new = []" using q(1,3) by (cases "opt_frames i p1"; auto)+
  have "opt_frames i p2 = opt_frames i p1" using sel by (simp add: opt_frames_def p1)
  then have "map plain (opt_frames i p2) = map plain (opt_frames i p)" using opt by simp
  then show "taken i (p, fr, m, fm) (p2, fr2, m2, fm2) []"
    unfolding taken_def prod.case queued_def
    using q5 cons sel by (intro conjI exI [of _ "[]"]) (auto simp: none ac_simps)
qed

lemma composed_idle:
  assumes c: "composed env M can p1 (fr, m, fm) i p2 fs2 frames" and r: "framer_ready m"
    and p1: "p1 = p\<lparr>pa_stopWaiting := (pa_stopWaiting p)(i := map_option (stop_waiting_for ph) (pa_stopWaiting p i))\<rparr>"
    and frames: "frames = [] \<or> length frames = 1 \<and> pa_stopWaiting p2 i \<noteq> None"
    and M: "1197 < unat M" and sw: "\<And>f. pa_stopWaiting p1 i = Some f \<Longrightarrow> frame_bytes (pa_version p1) (en_now env) (StopWaitingF f) \<le> 7"
  shows "pa_ackFrame p i = None" "pa_controlFrames p = [] \<or> 1190 < frame_bytes (pa_version p) (en_now env) (last (pa_controlFrames p))"
    "can \<Longrightarrow> nothing_to_send env (fr, m, fm)"
proof -
  obtain cs gs where q: "frames = opt_frames i p1 @ cs @ map StreamF gs" "pa_stopWaiting p2 = pa_stopWaiting p1"
    "cs = [] \<Longrightarrow> pa_controlFrames p1 = [] \<or> unat M < frames_bytes (pa_version p1) (en_now env) (opt_frames i p1 @ [last (pa_controlFrames p1)])"
    "can \<and> cs = [] \<and> gs = [] \<and> framer_ready m \<and> frames_bytes (pa_version p1) (en_now env) (opt_frames i p1) + 25 \<le> unat M \<Longrightarrow>
           nothing_to_send env (fr, m, fm)"
    using c by (cases fs2) (auto simp: composed_def)
  show ack: "pa_ackFrame p i = None"
    using frames q(1,2) by (cases "pa_ackFrame p i") (auto simp: opt_frames_def p1 split: option.splits)
  have none: "cs = []" "gs = []" using frames q(1,2) by (auto simp: opt_frames_def split: option.splits)
  have "frames_bytes (pa_version p1) (en_now env) (opt_frames i p1) \<le> 7"
    using ack sw by (auto simp: opt_frames_def p1 split: option.splits)
  then show "can \<Longrightarrow> nothing_to_send env (fr, m, fm)"
    "pa_controlFrames p = [] \<or> 1190 < frame_bytes (pa_version p) (en_now env) (last (pa_controlFrames p))"
    using q(3,4) none r M by (auto simp: p1)
qed

lemma PackPacket_ok:
  fixes pth :: "'c path"
  assumes st: "packing_ok env W C (p, (fr, m, fm), pth)" and ch: "sealers_ok (en_setup env)"
  shows "\<exists>r p' fs' pth'. PackPacket env (p, (fr, m, fm), pth) = Some (Inr r, p', fs', pth') \<and>
    (\<forall>pkt. r = Some pkt \<longrightarrow> packet_ok env p pth pkt) \<and>
    pt_packetNumberGenerator pth' = (if r = None then pt_packetNumberGenerator pth
      else snd (pg_Pop (en_rand env) (pt_packetNumberGenerator pth))) \<and>
    (no_ping p \<longrightarrow> taken (pt_pathID pth) (p, fr, m, fm) (p', fs') (sent_frames r) \<and>
       (r = None \<and> framer_ready m \<longrightarrow> idle env (pt_pathID pth) (p, fr, m, fm)))"
proof -
  obtain cs where cs: "sm_streams m 1 = Some cs" using st by (auto simp: packing_ok_def Let_def)
  note has = HasCryptoStreamFrame_open(2) [OF cs]
  show ?thesis
  proof (cases "lenOfDataForWriting cs > 0")
    case True
    from packCryptoPacket_ok [OF st ch cs True, of "fr_retransmissionQueue fr"] obtain pkt f m' pth' where
      "packCryptoPacket env (p, (fr, m, fm), pth) = Some (Inr (Some pkt), p, (fr, m', fm), pth')"
      "packet_ok env p pth pkt" "pp_frames pkt = [StreamF f]"
      "conserved (fr_retransmissionQueue fr) m [f] (fr_retransmissionQueue fr) m'"
      "pt_packetNumberGenerator pth' = snd (pg_Pop (en_rand env) (pt_packetNumberGenerator pth))" by blast
    moreover from this have "taken (pt_pathID pth) (p, fr, m, fm) (p, fr, m', fm) [StreamF f]"
      by (auto simp: taken_def intro: exI [of _ "[]"])
    ultimately show ?thesis
      unfolding PackPacket_def Let_def prod.case has option.case sum.case using True by (simp add: sent_frames_def)
  next
    case False
    obtain level sealer where se: "cs_GetSealer (en_setup env) = (level, sealer)" by (metis prod.exhaust)
    let ?h = "getPublicHeader env level pth p" and ?v = "pa_version p" and ?i = "pt_pathID pth"
    define p1 where "p1 = p\<lparr>pa_stopWaiting := (pa_stopWaiting p)(?i := map_option (stop_waiting_for ?h) (pa_stopWaiting p ?i))\<rparr>"
    have s: "session_ok env p" and num: "number_ok (pt_leastUnacked pth) (ph_PacketNumber ?h)"
      and so: "streams_ok W C m" "\<forall>f\<in>set (fr_retransmissionQueue fr). frame_ok W C f"
      and ack: "\<And>f. pa_ackFrame p ?i = Some f \<Longrightarrow> AckFrame_wf f \<and> frame_bytes ?v (en_now env) (AckF f) \<le> 1190"
      and sw: "\<And>f. pa_stopWaiting p ?i = Some f \<Longrightarrow> 0 < sw_LeastUnacked f \<and> pt_leastUnacked pth \<le> sw_LeastUnacked f \<and>
        sw_LeastUnacked f \<le> ph_PacketNumber ?h"
      and ctl: "\<forall>f\<in>set (pa_controlFrames p). control_ok f"
      using st by (simp_all add: packing_ok_def Let_def getPublicHeader_fields)
    have ov: "se_Overhead sealer \<le> 100" using ch se by (auto simp: sealers_ok_def sealers_def)
    obtain n where n: "PublicHeader_GetLength ?h (pa_perspective p) = Inr n"
      "unat n = length (header_bytes ?h ?v (pa_perspective p))" "unat n \<le> 52"
      "unat (MaxPacketSize - of_nat (se_Overhead sealer) - n) = 1350 - se_Overhead sealer - unat n"
      using frame_room [OF getPublicHeader_wf [OF s] getPublicHeader_fields(3) ov] by metis
    let ?M = "MaxPacketSize - of_nat (se_Overhead sealer) - n"
    note wf = stop_waiting_for_wf [OF num refl, folded getPublicHeader_fields(1)]
    have q: "queue_ok (ph_PacketNumber ?h) (ph_PacketNumberLen ?h) ?i p1"
      using ctl ack sw stop_waiting_for_wf(1) [OF num refl] by (auto simp: queue_ok_def p1_def getPublicHeader_fields)
    have sw7: "frame_bytes ?v (en_now env) (StopWaitingF (stop_waiting_for ?h f)) \<le> 7" if "pa_stopWaiting p ?i = Some f" for f
      using sw [OF that] stop_waiting_for_wf(2) [OF num refl] by (auto simp: getPublicHeader_fields)
    then have "frames_bytes (pa_version p1) (en_now env) (opt_frames ?i p1) \<le> 7 + 1190"
      using ack by (fastforce simp: opt_frames_def p1_def split: option.split)
    then have room: "frames_bytes (pa_version p1) (en_now env) (opt_frames ?i p1) \<le> unat ?M" "unat ?M \<le> 1350" "1 \<le> unat ?M"
      using n(3,4) ov by linarith+
    obtain fs p2 fs2 pth2 where pf: "payload_frames env level sealer n (p1, (fr, m, fm), pth) = (Inr fs, p2, fs2, pth2)"
      "frames_bytes (pa_version p1) (en_now env) fs \<le> unat ?M"
      "payload_wf (ph_PacketNumber ?h) (ph_PacketNumberLen ?h) level (map (Pair 0) fs) 0"
      "pt_packetNumberGenerator pth2 = pt_packetNumberGenerator pth" "pa_version p2 = pa_version p1" "pa_perspective p2 = pa_perspective p1"
      "no_ping p1 \<longrightarrow> composed env ?M (canSendData level p1) p1 (fr, m, fm) ?i p2 fs2 fs"
      using payload_frames_ok [OF q room refl so] unfolding no_ping_def by blast
    obtain fr2 m2 fm2 where fs2: "fs2 = (fr2, m2, fm2)" by (metis prod.exhaust)
    have np: "no_ping p1 \<longleftrightarrow> no_ping p" "canSendData level p1 \<longleftrightarrow> canSendData level p"
      by (simp_all add: no_ping_def p1_def canSendData_def)
    have comp: "no_ping p \<Longrightarrow> composed env ?M (canSendData level p) p1 (fr, m, fm) ?i p2 (fr2, m2, fm2) fs" using pf(7) np fs2 by simp
    define p3 where "p3 = p2\<lparr>pa_stopWaiting := (pa_stopWaiting p2)(?i := None), pa_ackFrame := (pa_ackFrame p2)(?i := None)\<rparr>"
    have p3: "pa_version p3 = ?v" "pa_perspective p3 = pa_perspective p" using pf(5,6) by (simp_all add: p3_def p1_def)
    have eq: "PackPacket env (p, (fr, m, fm), pth) =
      (if fs = [] then Some (Inr None, p2, fs2, pth2)
       else if length fs = 1 \<and> pa_stopWaiting p2 ?i \<noteq> None then Some (Inr None, p2, fs2, pth2)
       else let (r, pth3) = writeAndSealPacket env ?h fs sealer p3 pth2
            in Some (map_sum (\<lambda>e. e) (Some \<circ> packed ?h fs level) r, p3, fs2, pth3))"
      unfolding PackPacket_def prod.case Let_def has option.case sum.case p3_def
      using False pf(1) by (simp add: se n(1) p1_def [symmetric])
    show ?thesis
    proof (cases "fs = [] \<or> length fs = 1 \<and> pa_stopWaiting p2 ?i \<noteq> None")
      case True
      have "1197 < unat ?M" using n(3,4) ov by linarith
      then have "idle env ?i (p, fr, m, fm)" if "no_ping p" "framer_ready m"
        using composed_idle [OF comp [OF that(1)] that(2) p1_def True] sw7 False cs se
        by (auto simp: idle_def p1_def)
      then show ?thesis unfolding eq using True composed_taken(2) [OF comp p1_def True] pf(4) by (auto simp: fs2 sent_frames_def)
    next
      case ne: False
      have "frames_bytes ?v (en_now env) fs \<le> 1350 - se_Overhead sealer - unat n" using pf(2) n(4) by (simp add: p1_def)
      then have fit: "length (header_bytes ?h ?v (pa_perspective p)) + frames_bytes ?v (en_now env) fs + se_Overhead sealer \<le> 1350"
        using n(2,3) ov by linarith
      obtain raw pth3 where w: "writeAndSealPacket env ?h fs sealer p3 pth2 = (Inr raw, pth3)"
        "packet_ok env p pth (packed ?h fs level raw)"
        using writeAndSealPacket_ok [OF s ch _ num refl p3 pf(4) pf(3) _ fit] se ne by (auto simp: sealers_def)
      moreover have "no_ping p \<longrightarrow> taken ?i (p, fr, m, fm) (p3, fs2) fs"
        using composed_taken(1) [OF comp p1_def] by (simp add: p3_def fs2)
      ultimately show ?thesis
        unfolding eq using ne writeAndSealPacket_pops [OF w(1)] pf(4) by (auto simp: sent_frames_def packed_def fs2)
    qed
  qed
qed

section \<open>Properties\<close>

text \<open>
  C3. What waits is packed, sent and read. Whatever is queued (control frames, an ACK, a STOP_WAITING frame, stream data
  new or lost), \<open>PackPacket\<close> returns without error. A packet it returns has the next packet number, which is used up, is at most
  1350 bytes long with header, frames and seal, and is not empty; and any peer whose AEAD opens what was sealed, whose path is open, and
  that received packets so far from which it can infer the number, reads from the bytes exactly its frames, in their order. Nothing that
  waits is lost or sent twice (unless a PING is sent): the frames queued for the path are in the packet or still queued, with
  at most one new BLOCKED frame for each STREAM frame, what is queued for other paths stays, and each byte and each end of a stream that
  waited or was cut off is in the packet or waits to be sent again, once. And no packet means nothing to send: no
  handshake data, no ACK, no control frame with room for it, and, where data may be sent, no stream frame to be sent again and
  no stream with data and a window.
\<close>
theorem PackPacket_packs:
  fixes pth :: "'c path"
  assumes "packing_ok env W C (p, (fr, m, fm), pth)" "sealers_ok (en_setup env)"
  shows "\<exists>r p' fs' pth'. PackPacket env (p, (fr, m, fm), pth) = Some (Inr r, p', fs', pth') \<and>
    (\<forall>pkt. r = Some pkt \<longrightarrow> packet_ok env p pth pkt) \<and>
    pt_packetNumberGenerator pth' = (if r = None then pt_packetNumberGenerator pth
      else snd (pg_Pop (en_rand env) (pt_packetNumberGenerator pth))) \<and>
    (no_ping p \<longrightarrow> taken (pt_pathID pth) (p, fr, m, fm) (p', fs') (sent_frames r) \<and>
       (r = None \<and> framer_ready m \<longrightarrow> idle env (pt_pathID pth) (p, fr, m, fm)))"
  by (rule PackPacket_ok [OF assms])

text \<open>A client with the null AEAD that has a BLOCKED frame to send.\<close>

definition ex_pack_env :: pack_env where
  "ex_pack_env =
     (let null = sealer_of (nullAEADFNV128a (\<lambda>bs. (0, of_nat (length bs))) PerspectiveClient) in
      \<lparr> en_now = 0, en_rand = None, en_encodeTs = 0, en_handshakeComplete = False,
        en_cp = NewConnectionParamatersManager PerspectiveClient 39 1000 1000 0,
        en_setup = \<lparr> cs_GetSealer = (EncryptionUnencrypted, null), cs_GetSealerForCryptoStream = (EncryptionUnencrypted, null),
          cs_GetSealerWithEncryptionLevel = (\<lambda>_. Inr null), cs_DiversificationNonce = [] \<rparr> \<rparr>)"

definition ex_packer :: packetPacker where
  "ex_packer = QueueControlFrame (BlockedF \<lparr>blocked_StreamID = 5\<rparr>) 0 (newPacketPacker 7 PerspectiveClient 39)"

definition ex_framer_state :: framer_state where
  "ex_framer_state = (newStreamFramer, (newStreamsMap PerspectiveClient)\<lparr>sm_streams := [1 \<mapsto> newStream 1]\<rparr>, framer_fm)"

definition ex_path :: "unit path" where
  "ex_path = path_setup 39 0 () 0 ''local'' ''remote''"

lemma ex_sealers_ok: "sealers_ok (en_setup ex_pack_env)"
  by (auto simp: sealers_ok_def sealers_def ex_pack_env_def Let_def sealer_of_def Sealer.truncate_def nullAEADFNV128a_def
      nullAEADFNV128a_Seal_def)

lemma newStream_sel: "st_streamID (newStream i) = i" "\<not> st_finishedWriting (newStream i)"
  by (simp_all add: newStream_def)

lemma ex_packing_ok:
  "packing_ok ex_pack_env (\<lambda>_. []) (\<lambda>_. False) (ex_packer, ex_framer_state, ex_path)"
  by (auto simp: packing_ok_def Let_def ex_packer_def ex_framer_state_def ex_path_def session_ok_def ex_pack_env_def
      NewConnectionParamatersManager_def number_ok_def control_ok_def QueueControlFrame_def newPacketPacker_def newStreamFramer_def
      path_setup_def newPacketNumberGenerator_def pg_Peek_def streams_ok_def write_inv_new newStream_sel)

lemma PackPacket_packs_witness:
  "\<exists>r p' fs' pth'. PackPacket ex_pack_env (ex_packer, ex_framer_state, ex_path) = Some (Inr r, p', fs', pth') \<and>
    taken 0 (ex_packer, ex_framer_state) (p', fs') (sent_frames r)"
proof -
  have "no_ping ex_packer" "pt_pathID ex_path = 0"
    by (simp_all add: no_ping_def ex_packer_def ex_path_def QueueControlFrame_def newPacketPacker_def path_setup_def)
  then show ?thesis
    using PackPacket_packs [OF ex_packing_ok [unfolded ex_framer_state_def] ex_sealers_ok] by (auto simp: ex_framer_state_def)
qed

text \<open>
  C37. A PING goes alone, and what else was queued for the path pays for it. When no handshake data waits, \<open>PackPing\<close> with a
  STOP_WAITING frame queued for the path returns no packet, and the PING is not queued any more (the caller takes this
  for a bug and closes the session); without a STOP_WAITING frame the packet has the PING frame only, and the ACK frame queued for the path
  is dropped although it was not sent.
\<close>
theorem PackPing_drops_frames:
  fixes pth :: "'c path"
  assumes "packing_ok env W C (p, (fr, m, fm), SetLeastUnacked (GetLeastUnacked (pt_sentPacketHandler pth)) pth)"
    and "sealers_ok (en_setup env)" "sm_streams m 1 = Some cs" "lenOfDataForWriting cs = 0"
  shows "\<exists>r p' fs' pth'. PackPing env PingFrame (p, (fr, m, fm), pth) = Some (Inr r, p', fs', pth') \<and>
    pa_controlFrames p' = pa_controlFrames p \<and>
    (if pa_stopWaiting p (pt_pathID pth) \<noteq> None then r = None
     else map_option pp_frames r = Some [PingF PingFrame] \<and> pa_ackFrame p' (pt_pathID pth) = None)"
proof -
  define q where "q = SetLeastUnacked (GetLeastUnacked (pt_sentPacketHandler pth)) pth"
  define p0 where "p0 = p\<lparr>pa_controlFrames := PingF PingFrame # pa_controlFrames p\<rparr>"
  obtain level sealer where se: "cs_GetSealer (en_setup env) = (level, sealer)" by (metis prod.exhaust)
  let ?h = "getPublicHeader env level q p0" and ?v = "pa_version p" and ?i = "pt_pathID pth"
  have i: "pt_pathID q = ?i" by (simp add: q_def SetLeastUnacked_def)
  have s: "session_ok env p0" and num: "number_ok (pt_leastUnacked q) (ph_PacketNumber ?h)"
    using assms(1) by (simp_all add: packing_ok_def Let_def getPublicHeader_fields session_ok_def p0_def q_def)
  have ov: "se_Overhead sealer \<le> 100" using assms(2) se by (auto simp: sealers_ok_def sealers_def)
  obtain n where n: "PublicHeader_GetLength ?h (pa_perspective p0) = Inr n"
    "unat n = length (header_bytes ?h (pa_version p0) (pa_perspective p0))" "unat n \<le> 52"
    using frame_room [OF getPublicHeader_wf [OF s] getPublicHeader_fields(3) ov] by metis
  define p1 where "p1 = p\<lparr>pa_stopWaiting := (pa_stopWaiting p)(?i := map_option (stop_waiting_for ?h) (pa_stopWaiting p ?i))\<rparr>"
  define p3 where "p3 = p1\<lparr>pa_stopWaiting := (pa_stopWaiting p1)(?i := None), pa_ackFrame := (pa_ackFrame p1)(?i := None)\<rparr>"
  have "frames_bytes (pa_version p0) (en_now env) [PingF PingFrame] = 1"
    by (simp add: frame_bytes_def PingFrame_Write_def wbyte_def wbytes_def)
  then have fit: "length (header_bytes ?h (pa_version p0) (pa_perspective p0)) + frames_bytes (pa_version p0) (en_now env) [PingF PingFrame] +
      se_Overhead sealer \<le> 1350"
    using n(2,3) ov by linarith
  have p3: "pa_version p3 = pa_version p0" "pa_perspective p3 = pa_perspective p0" by (simp_all add: p3_def p1_def p0_def)
  obtain raw q1 where w: "writeAndSealPacket env ?h [PingF PingFrame] sealer p3 q = (Inr raw, q1)"
    using writeAndSealPacket_ok [where fs = "[PingF PingFrame]", OF s assms(2) _ num refl p3 refl _ _ fit] se by (auto simp: sealers_def)
  have pf: "payload_frames env level sealer n (p0\<lparr>pa_stopWaiting := (pa_stopWaiting p0)
      (?i := map_option (stop_waiting_for ?h) (pa_stopWaiting p0 ?i))\<rparr>, (fr, m, fm), q) = (Inr [PingF PingFrame], p1, (fr, m, fm), q)"
    by (simp add: payload_frames_def p1_def) (simp add: p0_def)
  have sw: "pa_stopWaiting p1 ?i = map_option (stop_waiting_for ?h) (pa_stopWaiting p ?i)" by (simp add: p1_def)
  have "PackPing env PingFrame (p, (fr, m, fm), pth) =
    (if pa_stopWaiting p ?i \<noteq> None then Some (Inr None, p1, (fr, m, fm), q)
     else Some (Inr (Some (packed ?h [PingF PingFrame] level raw)), p3, (fr, m, fm), q1))"
    unfolding PackPing_def prod.case q_def [symmetric] p0_def [symmetric] PackPacket_def Let_def i
      HasCryptoStreamFrame_open(2) [OF assms(3)] option.case sum.case
    using assms(4) w sw by (auto simp: se n(1) pf p3_def)
  then show ?thesis by (auto simp: p1_def p3_def packed_def)
qed

lemma ex_packing_ok_ack:
  "packing_ok ex_pack_env (\<lambda>_. []) (\<lambda>_. False) (ex_packer, ex_framer_state,
     SetLeastUnacked (GetLeastUnacked (pt_sentPacketHandler ex_path)) ex_path)"
  by (auto simp: packing_ok_def Let_def ex_packer_def ex_framer_state_def ex_path_def session_ok_def ex_pack_env_def
      NewConnectionParamatersManager_def number_ok_def control_ok_def QueueControlFrame_def newPacketPacker_def newStreamFramer_def
      path_setup_def newPacketNumberGenerator_def pg_Peek_def streams_ok_def write_inv_new newStream_sel SetLeastUnacked_def
      GetLeastUnacked_def largestInOrderAcked_def NewSentPacketHandler_def)

lemma PackPing_drops_frames_witness:
  "\<exists>r p' fs' pth'. PackPing ex_pack_env PingFrame (ex_packer, ex_framer_state, ex_path) = Some (Inr r, p', fs', pth') \<and>
    pa_controlFrames p' = pa_controlFrames ex_packer \<and> map_option pp_frames r = Some [PingF PingFrame]"
proof -
  have "lenOfDataForWriting (newStream 1) = 0" by (simp add: lenOfDataForWriting_def newStream_def len_data_def)
  moreover have "pa_stopWaiting ex_packer (pt_pathID ex_path) = None"
    by (simp add: ex_packer_def QueueControlFrame_def newPacketPacker_def)
  ultimately show ?thesis
    using PackPing_drops_frames [OF ex_packing_ok_ack [unfolded ex_framer_state_def] ex_sealers_ok, of "newStream 1"]
    by (auto simp: ex_framer_state_def)
qed

end
