(* ===== verification/Crypto_Setup.thy ===== *)
theory Crypto_Setup
  imports Aead Conn_Params
begin

section \<open>The crypto handshake: \<open>internal/handshake\<close>\<close>

text \<open>
  Client and server of QUIC's own handshake: their messages, the server configuration, the levels of encryption. The
  server's certificates and cookies and the client's certificate manager are interfaces of the program and parameters here,
  like clock and random bytes. A string is the list of its bytes; a channel that is written to is the list of what was sent.
  Caching a handshake on disk is left out: \<open>CacheHandshake\<close> is false.
\<close>

subsection \<open>Tags\<close>

definition TagCHLO :: Tag where "TagCHLO = mk_tag ''CHLO''"
definition TagREJ :: Tag where "TagREJ = mk_tag ''REJ''"
definition TagSCFG :: Tag where "TagSCFG = mk_tag ''SCFG''"
definition TagPAD :: Tag where "TagPAD = mk_tag ''PAD''"
definition TagSNI :: Tag where "TagSNI = mk_tag ''SNI''"
definition TagVER :: Tag where "TagVER = mk_tag ''VER''"
definition TagCCS :: Tag where "TagCCS = mk_tag ''CCS''"
definition TagCCRT :: Tag where "TagCCRT = mk_tag ''CCRT''"
definition TagSVID :: Tag where "TagSVID = mk_tag ''SVID''"
definition TagPDMD :: Tag where "TagPDMD = mk_tag ''PDMD''"
definition TagFHL2 :: Tag where "TagFHL2 = mk_tag ''FHL2''"
definition TagNSTP :: Tag where "TagNSTP = mk_tag ''NSTP''"
definition TagSTK :: Tag where "TagSTK = mk_tag ''STK''"
definition TagSNO :: Tag where "TagSNO = mk_tag ''SNO''"
definition TagPROF :: Tag where "TagPROF = mk_tag ''PROF''"
definition TagNONC :: Tag where "TagNONC = mk_tag ''NONC''"
definition TagXLCT :: Tag where "TagXLCT = mk_tag ''XLCT''"
definition TagSCID :: Tag where "TagSCID = mk_tag ''SCID''"
definition TagKEXS :: Tag where "TagKEXS = mk_tag ''KEXS''"
definition TagAEAD :: Tag where "TagAEAD = mk_tag ''AEAD''"
definition TagPUBS :: Tag where "TagPUBS = mk_tag ''PUBS''"
definition TagOBIT :: Tag where "TagOBIT = mk_tag ''OBIT''"
definition TagEXPY :: Tag where "TagEXPY = mk_tag ''EXPY''"
definition TagSHLO :: Tag where "TagSHLO = mk_tag ''SHLO''"
definition TagCERT :: Tag where "TagCERT = 0xff545243"

lemmas crypto_tag_defs = TagCHLO_def TagREJ_def TagSCFG_def TagPAD_def TagSNI_def TagVER_def TagCCS_def TagCCRT_def TagSVID_def
  TagPDMD_def TagFHL2_def TagNSTP_def TagSTK_def TagSNO_def TagPROF_def TagNONC_def TagXLCT_def TagSCID_def TagKEXS_def TagAEAD_def
  TagPUBS_def TagOBIT_def TagEXPY_def TagSHLO_def TagCERT_def

lemma crypto_tag_values [simp]:
  "TagCHLO = 0x4F4C4843" "TagREJ = 0x4A4552" "TagSCFG = 0x47464353" "TagPAD = 0x444150" "TagSNI = 0x494E53"
  "TagVER = 0x524556" "TagCCS = 0x534343" "TagCCRT = 0x54524343" "TagSVID = 0x44495653" "TagPDMD = 0x444D4450"
  "TagFHL2 = 0x324C4846" "TagNSTP = 0x5054534E" "TagSTK = 0x4B5453" "TagSNO = 0x4F4E53" "TagPROF = 0x464F5250"
  "TagNONC = 0x434E4F4E" "TagXLCT = 0x54434C58" "TagSCID = 0x44494353" "TagKEXS = 0x5358454B" "TagAEAD = 0x44414541"
  "TagPUBS = 0x53425550" "TagOBIT = 0x5449424F" "TagEXPY = 0x59505845" "TagSHLO = 0x4F4C4853" "TagCERT = 0xFF545243"
  by (simp_all add: crypto_tag_defs mk_tag_def)

text \<open>A lookup that gives \<open>nil\<close> when the key is missing; what a \<open>bytes.Buffer\<close> holds after a write.\<close>

definition tag_get :: "tag_map \<Rightarrow> Tag \<Rightarrow> u8 list" where
  "tag_get data t = (case map_of data t of None \<Rightarrow> [] | Some v \<Rightarrow> v)"

definition written :: "writer \<Rightarrow> u8 list" where
  "written w = (case w of Inl e \<Rightarrow> [] | Inr bs \<Rightarrow> bs)"

definition C255 :: "u8 list" where "C255 = map of_char ''C255''"
definition AESG :: "u8 list" where "AESG = map of_char ''AESG''"

subsection \<open>\<open>server_config.go\<close>\<close>

record ServerConfig =
  sc_kex :: curve25519KEX
  sc_ID :: "u8 list"
  sc_obit :: "u8 list"

definition ServerConfig_message :: "ServerConfig \<Rightarrow> HandshakeMessage" where
  "ServerConfig_message s =
     \<lparr> hm_Tag = TagSCFG, hm_Data =
        [(TagSCID, sc_ID s), (TagKEXS, C255), (TagAEAD, AESG), (TagPUBS, [0x20, 0x00, 0x00] @ kx_public (sc_kex s)),
         (TagOBIT, sc_obit s), (TagEXPY, [0xff, 0xff, 0xff, 0xff, 0xff, 0xff, 0xff, 0xff])] \<rparr>"

definition ServerConfig_Get :: "ServerConfig \<Rightarrow> u8 list" where
  "ServerConfig_Get s = written (HandshakeMessage_Write (ServerConfig_message s))"

definition NewServerConfig :: "curve25519KEX \<Rightarrow> u8 list option \<Rightarrow> u8 list option \<Rightarrow> go_error + ServerConfig" where
  "NewServerConfig kex randID randObit =
     (case randID of None \<Rightarrow> Inl (GoErr ''rand'')
      | Some i \<Rightarrow> (case randObit of None \<Rightarrow> Inl (GoErr ''rand'') | Some ob \<Rightarrow> Inr \<lparr> sc_kex = kex, sc_ID = i, sc_obit = ob \<rparr>))"

subsection \<open>\<open>server_config_client.go\<close>\<close>

text \<open>The expiry is in seconds.\<close>

record serverConfigClient =
  scc_raw :: "u8 list"
  scc_ID :: "u8 list"
  scc_obit :: "u8 list"
  scc_expiry :: u64
  scc_kex :: curve25519KEX
  scc_sharedSecret :: "u8 list"

text \<open>The index of the first tag of four bytes that is the one looked for.\<close>

fun find4 :: "u8 list \<Rightarrow> nat \<Rightarrow> u8 list \<Rightarrow> nat option" where
  "find4 tag i bs =
     (if length bs < 4 then None
      else if take 4 bs = tag then Some i else find4 tag (Suc i) (drop 4 bs))"

declare find4.simps [simp del]

text \<open>The loop over the public values, each after its length in three bytes.\<close>

function parse_pubs :: "u8 list \<Rightarrow> go_error + u8 list list" where
  "parse_pubs pubs =
     (if length pubs \<le> 3 then Inr []
      else let len = unat (le_val (take 3 pubs @ [0]) :: u32)
        in if len = 0 then Inl (QErr ''CryptoInvalidValueLength'')
           else if 3 + len > length pubs then Inl (QErr ''CryptoInvalidValueLength'')
           else case parse_pubs (drop (3 + len) pubs) of
                  Inl e \<Rightarrow> Inl e | Inr vs \<Rightarrow> Inr (take len (drop 3 pubs) # vs))"
  by auto
termination by (relation "measure length") auto

declare parse_pubs.simps [simp del]

definition scfg_need :: "tag_map \<Rightarrow> Tag \<Rightarrow> (u8 list \<Rightarrow> go_error + 'a) \<Rightarrow> go_error + 'a" where
  "scfg_need m t k = (case map_of m t of None \<Rightarrow> Inl (QErr ''CryptoMessageParameterNotFound'') | Some v \<Rightarrow> k v)"

definition MaxExpiry :: u64 where "MaxExpiry = 0x7fffffffffffffff div 2"

text \<open>\<open>rand\<close> are the bytes for the client's key.\<close>

definition parseValues :: "curve_lib \<Rightarrow> u8 list option \<Rightarrow> u8 list \<Rightarrow> tag_map \<Rightarrow> go_error + serverConfigClient" where
  "parseValues cv rand raw m =
     scfg_need m TagSCID (\<lambda>scfgID. if length scfgID \<noteq> 16 then Inl (QErr ''CryptoInvalidValueLength'') else
     scfg_need m TagKEXS (\<lambda>kexs. if length kexs mod 4 \<noteq> 0 then Inl (QErr ''CryptoInvalidValueLength'') else
     case find4 C255 0 kexs of None \<Rightarrow> Inl (QErr ''CryptoNoSupport'') | Some c255 \<Rightarrow>
     scfg_need m TagAEAD (\<lambda>aead. if length aead mod 4 \<noteq> 0 then Inl (QErr ''CryptoInvalidValueLength'') else
     if find4 AESG 0 aead = None then Inl (QErr ''CryptoNoSupport'') else
     scfg_need m TagPUBS (\<lambda>pubs.
     case parse_pubs pubs of Inl e \<Rightarrow> Inl e | Inr pubs_kexs \<Rightarrow>
     if c255 \<ge> length pubs_kexs then Inl (QErr ''CryptoMessageParameterNotFound'') else
     if length (pubs_kexs ! c255) \<noteq> 32 then Inl (QErr ''CryptoInvalidValueLength'') else
     case NewCurve25519KEX cv rand of Inl e \<Rightarrow> Inl e | Inr kex \<Rightarrow>
     case CalculateSharedKey cv kex (pubs_kexs ! c255) of Inl e \<Rightarrow> Inl e | Inr secret \<Rightarrow>
     scfg_need m TagOBIT (\<lambda>obit. if length obit \<noteq> 8 then Inl (QErr ''CryptoInvalidValueLength'') else
     scfg_need m TagEXPY (\<lambda>expy. if length expy \<noteq> 8 then Inl (QErr ''CryptoInvalidValueLength'') else
     Inr \<lparr> scc_raw = raw, scc_ID = scfgID, scc_obit = obit, scc_expiry = min (le_val expy) MaxExpiry,
           scc_kex = kex, scc_sharedSecret = secret \<rparr>))))))"

definition parseServerConfig :: "curve_lib \<Rightarrow> u8 list option \<Rightarrow> u8 list \<Rightarrow> go_error + serverConfigClient" where
  "parseServerConfig cv rand data =
     (case ParseHandshakeMessage data of
        Inl e \<Rightarrow> Inl e
      | Inr (message, _) \<Rightarrow>
          if hm_Tag message \<noteq> TagSCFG then Inl (GoErr ''ServerConfig must have TagSCFG'')
          else parseValues cv rand data (hm_Data message))"

text \<open>\<open>now\<close> in nanoseconds.\<close>

definition IsExpired :: "int \<Rightarrow> serverConfigClient \<Rightarrow> bool" where
  "IsExpired now s \<longleftrightarrow> uint (scc_expiry s) * Second < now"

subsection \<open>What both sides use\<close>

text \<open>The cryptography that comes from outside.\<close>

record crypto_lib =
  cl_hash128 :: "u8 list \<Rightarrow> u64 \<times> u64"
  cl_kdf :: hkdf_lib
  cl_gcm :: gcm_lib
  cl_curve :: curve_lib

definition keyDerivation ::
    "crypto_lib \<Rightarrow> bool \<Rightarrow> u8 list \<Rightarrow> u8 list \<Rightarrow> ConnectionID \<Rightarrow> u8 list \<Rightarrow> u8 list \<Rightarrow> u8 list \<Rightarrow> u8 list \<Rightarrow> Perspective \<Rightarrow>
     go_error + AEAD" where
  "keyDerivation cl = DeriveQuicCryptoAESKeys (cl_kdf cl) (cl_gcm cl)"

text \<open>The AEADs of a side, with what it has seen of the other one's packets.\<close>

record aeads =
  ae_null :: AEAD
  ae_secure :: "AEAD option"
  ae_forwardSecure :: "AEAD option"
  ae_receivedSecurePacket :: bool
  ae_receivedForwardSecurePacket :: bool

definition aeads_new :: "crypto_lib \<Rightarrow> Perspective \<Rightarrow> VersionNumber \<Rightarrow> aeads" where
  "aeads_new cl pers version =
     \<lparr> ae_null = NewNullAEAD (cl_hash128 cl) pers version, ae_secure = None, ae_forwardSecure = None,
       ae_receivedSecurePacket = False, ae_receivedForwardSecurePacket = False \<rparr>"

type_synonym opened = "go_error + (u8 list \<times> EncryptionLevel)"

text \<open>The end of both \<open>Open\<close> methods, and the branch for the secure AEAD.\<close>

definition open_null :: "u8 list \<Rightarrow> PacketNumber \<Rightarrow> u8 list \<Rightarrow> aeads \<Rightarrow> opened \<times> aeads" where
  "open_null src pn ad h =
     (case ae_Open (ae_null h) src pn ad of Inl e \<Rightarrow> (Inl e, h) | Inr res \<Rightarrow> (Inr (res, EncryptionUnencrypted), h))"

definition open_secure :: "u8 list \<Rightarrow> PacketNumber \<Rightarrow> u8 list \<Rightarrow> aeads \<Rightarrow> opened \<times> aeads" where
  "open_secure src pn ad h =
     (case ae_secure h of
        None \<Rightarrow> open_null src pn ad h
      | Some a \<Rightarrow>
          (case ae_Open a src pn ad of
             Inr res \<Rightarrow> (Inr (res, EncryptionSecure), h\<lparr>ae_receivedSecurePacket := True\<rparr>)
           | Inl e \<Rightarrow> if ae_receivedSecurePacket h then (Inl e, h) else open_null src pn ad h))"

text \<open>
  The server, at the first forward-secure packet, waits until its SHLO is on the way and closes the channel: the handshake is complete.
  The last component tells that it did.
\<close>

definition server_Open :: "u8 list \<Rightarrow> PacketNumber \<Rightarrow> u8 list \<Rightarrow> aeads \<Rightarrow> opened \<times> aeads \<times> bool" where
  "server_Open src pn ad h =
     (case ae_forwardSecure h of
        None \<Rightarrow> let (r, h1) = open_secure src pn ad h in (r, h1, False)
      | Some a \<Rightarrow>
          (case ae_Open a src pn ad of
             Inr res \<Rightarrow> (Inr (res, EncryptionForwardSecure), h\<lparr>ae_receivedForwardSecurePacket := True\<rparr>,
                         \<not> ae_receivedForwardSecurePacket h)
           | Inl e \<Rightarrow> if ae_receivedForwardSecurePacket h then (Inl e, h, False)
                      else let (r, h1) = open_secure src pn ad h in (r, h1, False)))"

definition client_Open :: "u8 list \<Rightarrow> PacketNumber \<Rightarrow> u8 list \<Rightarrow> aeads \<Rightarrow> opened \<times> aeads" where
  "client_Open src pn ad h =
     (case ae_forwardSecure h of
        None \<Rightarrow> open_secure src pn ad h
      | Some a \<Rightarrow>
          (case ae_Open a src pn ad of Inr data \<Rightarrow> (Inr (data, EncryptionForwardSecure), h) | Inl e \<Rightarrow> (Inl e, h)))"

definition server_GetSealer :: "aeads \<Rightarrow> EncryptionLevel \<times> AEAD" where
  "server_GetSealer h =
     (case ae_forwardSecure h of Some a \<Rightarrow> (EncryptionForwardSecure, a) | None \<Rightarrow> (EncryptionUnencrypted, ae_null h))"

definition server_GetSealerForCryptoStream :: "aeads \<Rightarrow> EncryptionLevel \<times> AEAD" where
  "server_GetSealerForCryptoStream h =
     (case ae_secure h of Some a \<Rightarrow> (EncryptionSecure, a) | None \<Rightarrow> (EncryptionUnencrypted, ae_null h))"

definition client_GetSealer :: "aeads \<Rightarrow> EncryptionLevel \<times> AEAD" where
  "client_GetSealer h =
     (case ae_forwardSecure h of
        Some a \<Rightarrow> (EncryptionForwardSecure, a)
      | None \<Rightarrow> (case ae_secure h of Some a \<Rightarrow> (EncryptionSecure, a) | None \<Rightarrow> (EncryptionUnencrypted, ae_null h)))"

definition client_GetSealerForCryptoStream :: "aeads \<Rightarrow> EncryptionLevel \<times> AEAD" where
  "client_GetSealerForCryptoStream h = (EncryptionUnencrypted, ae_null h)"

fun GetSealerWithEncryptionLevel :: "EncryptionLevel \<Rightarrow> aeads \<Rightarrow> go_error + AEAD" where
  "GetSealerWithEncryptionLevel EncryptionUnencrypted h = Inr (ae_null h)"
| "GetSealerWithEncryptionLevel EncryptionSecure h =
     (case ae_secure h of None \<Rightarrow> Inl (GoErr ''no secureAEAD'') | Some a \<Rightarrow> Inr a)"
| "GetSealerWithEncryptionLevel EncryptionForwardSecure h =
     (case ae_forwardSecure h of None \<Rightarrow> Inl (GoErr ''no forwardSecureAEAD'') | Some a \<Rightarrow> Inr a)"
| "GetSealerWithEncryptionLevel EncryptionUnspecified h = Inl (GoErr ''no encryption level specified'')"

subsection \<open>\<open>crypto_setup_server.go\<close>\<close>

text \<open>
  The server's certificates and cookies. \<open>sv_DecodeToken\<close> decrypts and unmarshals a cookie that is not empty, \<open>sv_acceptSTK\<close>
  is the callback, which gets \<open>nil\<close> for a missing cookie.
\<close>

record Cookie =
  ck_RemoteAddr :: string
  ck_SentTime :: int

record server_lib =
  sv_GetLeafCert :: "u8 list \<Rightarrow> go_error + u8 list"
  sv_SignServerProof :: "u8 list \<Rightarrow> u8 list \<Rightarrow> u8 list \<Rightarrow> go_error + u8 list"
  sv_GetCertsCompressed :: "u8 list \<Rightarrow> u8 list \<Rightarrow> u8 list \<Rightarrow> go_error + u8 list"
  sv_NewToken :: "go_error + u8 list"
  sv_DecodeToken :: "u8 list \<Rightarrow> go_error + Cookie"
  sv_acceptSTK :: "Cookie option \<Rightarrow> bool"

record cryptoSetupServer =
  css_connID :: ConnectionID
  css_version :: VersionNumber
  css_supportedVersions :: "VersionNumber list"
  css_scfg :: ServerConfig
  css_aeads :: aeads
  css_diversificationNonce :: "u8 list"
  css_connectionParameters :: connectionParametersManager
  css_aeadChanged :: "EncryptionLevel list"
  css_sentSHLO :: bool

definition NewCryptoSetup ::
    "crypto_lib \<Rightarrow> ConnectionID \<Rightarrow> VersionNumber \<Rightarrow> ServerConfig \<Rightarrow> connectionParametersManager \<Rightarrow> VersionNumber list \<Rightarrow>
     cryptoSetupServer" where
  "NewCryptoSetup cl connID version scfg cp supportedVersions =
     \<lparr> css_connID = connID, css_version = version, css_supportedVersions = supportedVersions, css_scfg = scfg,
       css_aeads = aeads_new cl PerspectiveServer version, css_diversificationNonce = [], css_connectionParameters = cp,
       css_aeadChanged = [], css_sentSHLO = False \<rparr>"

text \<open>Random bytes and the key exchange of \<open>getEphermalKEX\<close> for one message.\<close>

record server_env =
  sn_serverNonce :: "u8 list option"
  sn_divNonce :: "u8 list option"
  sn_ephermalKex :: curve25519KEX

definition DecodeToken :: "server_lib \<Rightarrow> u8 list \<Rightarrow> go_error + Cookie option" where
  "DecodeToken sv encrypted = (if encrypted = [] then Inr None else map_sum (\<lambda>e. e) Some (sv_DecodeToken sv encrypted))"

definition acceptSTK :: "server_lib \<Rightarrow> u8 list \<Rightarrow> bool" where
  "acceptSTK sv token = (case DecodeToken sv token of Inl e \<Rightarrow> False | Inr stk \<Rightarrow> sv_acceptSTK sv stk)"

text \<open>\<open>HashCert\<close> is FNV-1a with 64 bits.\<close>

definition isInchoateCHLO :: "server_lib \<Rightarrow> tag_map \<Rightarrow> u8 list \<Rightarrow> cryptoSetupServer \<Rightarrow> bool" where
  "isInchoateCHLO sv cryptoData cert h =
     (if map_of cryptoData TagPUBS = None then True
      else case map_of cryptoData TagSCID of
        None \<Rightarrow> True
      | Some scid \<Rightarrow>
          if sc_ID (css_scfg h) \<noteq> scid then True
          else case map_of cryptoData TagXLCT of
            None \<Rightarrow> True
          | Some xlct \<Rightarrow>
              if length xlct \<noteq> 8 then True
              else if fnv64a cert \<noteq> le_val xlct then True
              else \<not> acceptSTK sv (tag_get cryptoData TagSTK))"

definition ClientHelloMinimumSize :: nat where "ClientHelloMinimumSize = 1024"

text \<open>A REJ, with the proof and the certificates once the client's address is verified.\<close>

definition handleInchoateCHLO ::
    "server_lib \<Rightarrow> u8 list \<Rightarrow> u8 list \<Rightarrow> tag_map \<Rightarrow> cryptoSetupServer \<Rightarrow> go_error + u8 list" where
  "handleInchoateCHLO sv sni chlo cryptoData h =
     (if length chlo < ClientHelloMinimumSize then Inl (QErr ''CryptoInvalidValueLength'')
      else case sv_NewToken sv of
        Inl e \<Rightarrow> Inl e
      | Inr token \<Rightarrow>
          let replyMap = [(TagSCFG, ServerConfig_Get (css_scfg h)), (TagSTK, token), (TagSVID, map of_char ''quic-go'')];
              reply = (\<lambda>m. Inr (written (HandshakeMessage_Write \<lparr> hm_Tag = TagREJ, hm_Data = m \<rparr>)))
          in if acceptSTK sv (tag_get cryptoData TagSTK)
             then case sv_SignServerProof sv sni chlo (ServerConfig_Get (css_scfg h)) of
                    Inl e \<Rightarrow> Inl e
                  | Inr proof \<Rightarrow>
                      (case sv_GetCertsCompressed sv sni (tag_get cryptoData TagCCS) (tag_get cryptoData TagCCRT) of
                         Inl e \<Rightarrow> Inl e
                       | Inr certCompressed \<Rightarrow> reply (replyMap @ [(TagPROF, proof), (TagCERT, certCompressed)]))
             else reply replyMap)"

definition validateClientNonce :: "u8 list \<Rightarrow> cryptoSetupServer \<Rightarrow> go_error option" where
  "validateClientNonce nonce h =
     (if length nonce \<noteq> 32 then Some (QErr ''InvalidCryptoMessageParameter'')
      else if take 8 (drop 4 nonce) \<noteq> sc_obit (css_scfg h) then Some (QErr ''InvalidCryptoMessageParameter'')
      else None)"

text \<open>The list of the versions the server supports.\<close>

definition version_list :: "VersionNumber list \<Rightarrow> u8 list" where
  "version_list vs = concat (map (\<lambda>v. le_bytes 4 (VersionNumberToTag v)) vs)"

definition SHLO_message :: "tag_map \<Rightarrow> u8 list \<Rightarrow> u8 list \<Rightarrow> VersionNumber list \<Rightarrow> HandshakeMessage" where
  "SHLO_message hello pub serverNonce versions =
     \<lparr> hm_Tag = TagSHLO, hm_Data = AList.update TagVER (version_list versions)
         (AList.update TagSNO serverNonce (AList.update TagPUBS pub hello)) \<rparr>"

text \<open>\<open>if err != nil { return nil, err }\<close>, with the state reached; reading random bytes may fail.\<close>

definition on_ok :: "go_error + 'a \<Rightarrow> 's \<Rightarrow> ('a \<Rightarrow> (go_error + 'b) \<times> 's) \<Rightarrow> (go_error + 'b) \<times> 's" where
  "on_ok r h k = (case r of Inl e \<Rightarrow> (Inl e, h) | Inr x \<Rightarrow> k x)"

lemma on_ok_simps [simp]: "on_ok (Inl e) h k = (Inl e, h)" "on_ok (Inr x) h k = k x"
  by (simp_all add: on_ok_def)

definition of_rand :: "u8 list option \<Rightarrow> go_error + u8 list" where
  "of_rand r = (case r of None \<Rightarrow> Inl (GoErr ''rand'') | Some bs \<Rightarrow> Inr bs)"

definition set_secure :: "AEAD option \<Rightarrow> cryptoSetupServer \<Rightarrow> cryptoSetupServer" where
  "set_secure a h = h\<lparr>css_aeads := (css_aeads h)\<lparr>ae_secure := a\<rparr>\<rparr>"

definition set_forwardSecure :: "AEAD option \<Rightarrow> cryptoSetupServer \<Rightarrow> cryptoSetupServer" where
  "set_forwardSecure a h = h\<lparr>css_aeads := (css_aeads h)\<lparr>ae_forwardSecure := a\<rparr>\<rparr>"

text \<open>The end of \<open>handleCHLO\<close>: the parameters of both sides and the reply.\<close>

definition handleCHLO_reply ::
    "u8 list \<Rightarrow> u8 list \<Rightarrow> tag_map \<Rightarrow> cryptoSetupServer \<Rightarrow> (go_error + u8 list) \<times> cryptoSetupServer" where
  "handleCHLO_reply pub serverNonce cryptoData h =
     (let (err, cp) = SetFromMap cryptoData (css_connectionParameters h); h1 = h\<lparr>css_connectionParameters := cp\<rparr>
      in case err of
           Some e \<Rightarrow> (Inl e, h1)
         | None \<Rightarrow> on_ok (cp_GetHelloMap cp) h1 (\<lambda>hello.
             (Inr (written (HandshakeMessage_Write (SHLO_message hello pub serverNonce (css_supportedVersions h)))), h1)))"

text \<open>Its middle, where the keys are derived; a key derivation that fails leaves \<open>nil\<close>.\<close>

definition handleCHLO_keys ::
    "crypto_lib \<Rightarrow> server_env \<Rightarrow> u8 list \<Rightarrow> tag_map \<Rightarrow> u8 list \<Rightarrow> u8 list \<Rightarrow> u8 list \<Rightarrow> u8 list \<Rightarrow> cryptoSetupServer \<Rightarrow>
     (go_error + u8 list) \<times> cryptoSetupServer" where
  "handleCHLO_keys cl env data cryptoData sharedSecret cert serverNonce divNonce h1 =
     (let clientNonce = tag_get cryptoData TagNONC; scfg = ServerConfig_Get (css_scfg h1); connID = css_connID h1 in
      on_ok (keyDerivation cl False sharedSecret clientNonce connID data scfg cert divNonce PerspectiveServer)
        (set_secure None h1) (\<lambda>secure.
      let h2 = (set_secure (Some secure) h1)\<lparr>css_aeadChanged := css_aeadChanged h1 @ [EncryptionSecure]\<rparr> in
      on_ok (CalculateSharedKey (cl_curve cl) (sn_ephermalKex env) (tag_get cryptoData TagPUBS)) h2 (\<lambda>ephermalSharedSecret.
      on_ok (keyDerivation cl True ephermalSharedSecret (clientNonce @ serverNonce) connID data scfg cert [] PerspectiveServer)
        (set_forwardSecure None h2) (\<lambda>forwardSecure.
      handleCHLO_reply (kx_public (sn_ephermalKex env)) serverNonce cryptoData (set_forwardSecure (Some forwardSecure) h2)))))"

definition handleCHLO ::
    "crypto_lib \<Rightarrow> server_lib \<Rightarrow> server_env \<Rightarrow> u8 list \<Rightarrow> u8 list \<Rightarrow> tag_map \<Rightarrow> cryptoSetupServer \<Rightarrow>
     (go_error + u8 list) \<times> cryptoSetupServer" where
  "handleCHLO cl sv env sni data cryptoData h =
     on_ok (CalculateSharedKey (cl_curve cl) (sc_kex (css_scfg h)) (tag_get cryptoData TagPUBS)) h (\<lambda>sharedSecret.
     on_ok (sv_GetLeafCert sv sni) h (\<lambda>cert.
     on_ok (of_rand (sn_serverNonce env)) h (\<lambda>serverNonce.
     on_ok (of_rand (sn_divNonce env)) (h\<lparr>css_diversificationNonce := replicate 32 0\<rparr>) (\<lambda>divNonce.
     let h1 = h\<lparr>css_diversificationNonce := divNonce\<rparr> in
     case validateClientNonce (tag_get cryptoData TagNONC) h1 of
       Some e \<Rightarrow> (Inl e, h1)
     | None \<Rightarrow>
         if tag_get cryptoData TagAEAD \<noteq> AESG then (Inl (QErr ''CryptoNoSupport''), h1)
         else if tag_get cryptoData TagKEXS \<noteq> C255 then (Inl (QErr ''CryptoNoSupport''), h1)
         else handleCHLO_keys cl env data cryptoData sharedSecret cert serverNonce divNonce h1))))"

text \<open>
  \<open>handleMessage\<close>: whether the handshake is done, and what is written to the crypto stream. The write succeeds; its error would be
  returned.
\<close>

definition server_answer ::
    "crypto_lib \<Rightarrow> server_lib \<Rightarrow> server_env \<Rightarrow> u8 list \<Rightarrow> u8 list \<Rightarrow> tag_map \<Rightarrow> cryptoSetupServer \<Rightarrow>
     (go_error + bool \<times> u8 list) \<times> cryptoSetupServer" where
  "server_answer cl sv env sni chloData cryptoData h =
     on_ok (sv_GetLeafCert sv sni) h (\<lambda>cert.
       if \<not> isInchoateCHLO sv cryptoData cert h
       then let (r, h1) = handleCHLO cl sv env sni chloData cryptoData h
            in on_ok r h1 (\<lambda>reply. (Inr (True, reply),
                 h1\<lparr>css_aeadChanged := css_aeadChanged h1 @ [EncryptionForwardSecure], css_sentSHLO := True\<rparr>))
       else on_ok (handleInchoateCHLO sv sni chloData cryptoData h) h (\<lambda>reply. (Inr (False, reply), h)))"

text \<open>The checks at the beginning: the name asked for.\<close>

definition check_CHLO :: "tag_map \<Rightarrow> cryptoSetupServer \<Rightarrow> go_error + u8 list" where
  "check_CHLO cryptoData h =
     (if map_of cryptoData TagFHL2 \<noteq> None then Inl (QErr ''InvalidCryptoMessageParameter'')
      else if map_of cryptoData TagNSTP \<noteq> None then Inl (QErr ''InvalidCryptoMessageParameter'')
      else if map_of cryptoData TagSNI = None \<or> tag_get cryptoData TagSNI = [] then Inl (QErr ''CryptoMessageParameterNotFound'')
      else if map_of cryptoData TagVER = None then Inl (QErr ''InvalidCryptoMessageParameter'')
      else if length (tag_get cryptoData TagVER) \<noteq> 4 then Inl (QErr ''InvalidCryptoMessageParameter'')
      else let ver = VersionTagToNumber (le_val (tag_get cryptoData TagVER))
        in if ver \<noteq> css_version h \<and> IsSupportedVersion (css_supportedVersions h) ver
           then Inl (QErr ''VersionNegotiationMismatch'') else Inr (tag_get cryptoData TagSNI))"

definition server_handleMessage ::
    "crypto_lib \<Rightarrow> server_lib \<Rightarrow> server_env \<Rightarrow> u8 list \<Rightarrow> tag_map \<Rightarrow> cryptoSetupServer \<Rightarrow>
     (go_error + bool \<times> u8 list) \<times> cryptoSetupServer" where
  "server_handleMessage cl sv env chloData cryptoData h =
     on_ok (check_CHLO cryptoData h) h (\<lambda>sni. server_answer cl sv env sni chloData cryptoData h)"

text \<open>One turn of \<open>HandleCryptoStream\<close> on what can be read from the stream: the message it takes off, and what is left.\<close>

definition server_HandleCryptoStream ::
    "crypto_lib \<Rightarrow> server_lib \<Rightarrow> server_env \<Rightarrow> u8 list \<Rightarrow> cryptoSetupServer \<Rightarrow>
     (go_error + bool \<times> u8 list) \<times> u8 list \<times> cryptoSetupServer" where
  "server_HandleCryptoStream cl sv env stream h =
     (case ParseHandshakeMessage stream of
        Inl e \<Rightarrow> (Inl (QErr ''HandshakeFailed''), [], h)
      | Inr (message, rest) \<Rightarrow>
          if hm_Tag message \<noteq> TagCHLO then (Inl (QErr ''InvalidCryptoMessageType''), rest, h)
          else let (r, h1) = server_handleMessage cl sv env (take (length stream - length rest) stream) (hm_Data message) h
               in (r, rest, h1))"

subsection \<open>\<open>crypto_setup_client.go\<close>\<close>

text \<open>
  The certificate manager, with the chain of raw certificates as its state: decompressing and parsing the chain, verifying it for a
  host name and verifying the server's proof are parameters (\<open>cert_manager.go\<close>).
\<close>

record cert_lib =
  cm_decompress :: "u8 list \<Rightarrow> go_error + u8 list list"
  cm_Verify :: "u8 list \<Rightarrow> u8 list list \<Rightarrow> go_error option"
  cm_VerifyServerProof :: "u8 list \<Rightarrow> u8 list \<Rightarrow> u8 list \<Rightarrow> u8 list list \<Rightarrow> bool"
  cm_CommonHashes :: "u8 list"

definition cm_GetLeafCert :: "u8 list list \<Rightarrow> u8 list option" where
  "cm_GetLeafCert chain = (case chain of [] \<Rightarrow> None | c # cs \<Rightarrow> Some c)"

definition cm_GetLeafCertHash :: "u8 list list \<Rightarrow> go_error + u64" where
  "cm_GetLeafCertHash chain =
     (case cm_GetLeafCert chain of
        None \<Rightarrow> Inl (GoErr ''CertManager BUG: No certicifate chain loaded'') | Some c \<Rightarrow> Inr (fnv64a c))"

record cryptoSetupClient =
  csc_hostname :: "u8 list"
  csc_connID :: ConnectionID
  csc_version :: VersionNumber
  csc_negotiatedVersions :: "VersionNumber list"
  csc_serverConfig :: "serverConfigClient option"
  csc_stk :: "u8 list"
  csc_sno :: "u8 list option"
  csc_nonc :: "u8 list"
  csc_proof :: "u8 list"
  csc_chloForSignature :: "u8 list"
  csc_lastSentCHLO :: "u8 list"
  csc_chain :: "u8 list list"
  csc_diversificationNonce :: "u8 list"
  csc_clientHelloCounter :: nat
  csc_serverVerified :: bool
  csc_aeads :: aeads
  csc_connectionParameters :: connectionParametersManager
  csc_requestTruncation :: bool
  csc_aeadChanged :: "EncryptionLevel list"
  csc_aeadClosed :: bool

definition NewCryptoSetupClient ::
    "crypto_lib \<Rightarrow> u8 list \<Rightarrow> ConnectionID \<Rightarrow> VersionNumber \<Rightarrow> connectionParametersManager \<Rightarrow> bool \<Rightarrow> VersionNumber list \<Rightarrow>
     cryptoSetupClient" where
  "NewCryptoSetupClient cl hostname connID version cp truncateID negotiatedVersions =
     \<lparr> csc_hostname = hostname, csc_connID = connID, csc_version = version, csc_negotiatedVersions = negotiatedVersions,
       csc_serverConfig = None, csc_stk = [], csc_sno = None, csc_nonc = [], csc_proof = [], csc_chloForSignature = [],
       csc_lastSentCHLO = [], csc_chain = [], csc_diversificationNonce = [], csc_clientHelloCounter = 0, csc_serverVerified = False,
       csc_aeads = aeads_new cl PerspectiveClient version, csc_connectionParameters = cp, csc_requestTruncation = truncateID,
       csc_aeadChanged = [], csc_aeadClosed = False \<rparr>"

text \<open>The clock in nanoseconds, 20 random bytes for the nonce and 32 for the key exchange.\<close>

record client_env =
  cn_now :: int
  cn_nonce :: "u8 list option"
  cn_kex :: "u8 list option"

definition generateClientNonce :: "client_env \<Rightarrow> cryptoSetupClient \<Rightarrow> (go_error + unit) \<times> cryptoSetupClient" where
  "generateClientNonce env h =
     (if length (csc_nonc h) > 0 then (Inl (GoErr ''CryptoSetup BUG: A client nonce was already generated''), h)
      else case csc_serverConfig h of
        None \<Rightarrow> (Inl (Panic ''nil pointer dereference''), h)
      | Some scfg \<Rightarrow>
          if length (scc_obit scfg) \<noteq> 8 then (Inl (GoErr ''CryptoSetup BUG: No OBIT for client nonce available''), h)
          else on_ok (of_rand (cn_nonce env)) h (\<lambda>r.
            (Inr (), h\<lparr>csc_nonc := enc_bytes BigEndian 4 (word_of_int (cn_now env div Second)) @ scc_obit scfg @ r\<rparr>)))"

text \<open>The parts of \<open>handleREJMessage\<close>: the server configuration, the certificates, the proof.\<close>

definition REJ_scfg :: "crypto_lib \<Rightarrow> client_env \<Rightarrow> tag_map \<Rightarrow> cryptoSetupClient \<Rightarrow> (go_error + unit) \<times> cryptoSetupClient" where
  "REJ_scfg cl env cryptoData h =
     (case map_of cryptoData TagSCFG of
        None \<Rightarrow> (Inr (), h)
      | Some scfg \<Rightarrow>
          on_ok (parseServerConfig (cl_curve cl) (cn_kex env) scfg) (h\<lparr>csc_serverConfig := None\<rparr>) (\<lambda>sc.
            let h1 = h\<lparr>csc_serverConfig := Some sc\<rparr>
            in if IsExpired (cn_now env) sc then (Inl (QErr ''CryptoServerConfigExpired''), h1)
               else if length (csc_nonc h1) = 0 then generateClientNonce env h1 else (Inr (), h1)))"

definition REJ_cert :: "cert_lib \<Rightarrow> tag_map \<Rightarrow> cryptoSetupClient \<Rightarrow> (go_error + unit) \<times> cryptoSetupClient" where
  "REJ_cert cm cryptoData h =
     (case map_of cryptoData TagCERT of
        None \<Rightarrow> (Inr (), h)
      | Some crt \<Rightarrow>
          (case cm_decompress cm crt of
             Inl e \<Rightarrow> (Inl (QErr ''InvalidCryptoMessageParameter''), h)
           | Inr chain \<Rightarrow>
               let h1 = h\<lparr>csc_chain := chain\<rparr>
               in if cm_Verify cm (csc_hostname h1) chain = None then (Inr (), h1) else (Inl (QErr ''ProofInvalid''), h1)))"

definition REJ_proof :: "cert_lib \<Rightarrow> cryptoSetupClient \<Rightarrow> (go_error + unit) \<times> cryptoSetupClient" where
  "REJ_proof cm h =
     (case csc_serverConfig h of
        Some sc \<Rightarrow>
          if length (csc_proof h) \<noteq> 0 \<and> cm_GetLeafCert (csc_chain h) \<noteq> None
          then if cm_VerifyServerProof cm (csc_proof h) (csc_chloForSignature h) (scc_raw sc) (csc_chain h)
               then (Inr (), h\<lparr>csc_serverVerified := True\<rparr>) else (Inl (QErr ''ProofInvalid''), h)
          else (Inr (), h)
      | None \<Rightarrow> (Inr (), h))"

definition handleREJMessage ::
    "crypto_lib \<Rightarrow> cert_lib \<Rightarrow> client_env \<Rightarrow> tag_map \<Rightarrow> cryptoSetupClient \<Rightarrow> (go_error + unit) \<times> cryptoSetupClient" where
  "handleREJMessage cl cm env cryptoData h =
     (let h1 = (case map_of cryptoData TagSTK of None \<Rightarrow> h | Some stk \<Rightarrow> h\<lparr>csc_stk := stk\<rparr>);
          h2 = (case map_of cryptoData TagSNO of None \<Rightarrow> h1 | Some sno \<Rightarrow> h1\<lparr>csc_sno := Some sno\<rparr>);
          (r3, h3) = REJ_scfg cl env cryptoData h2
      in on_ok r3 h3 (\<lambda>_.
         let h4 = (case map_of cryptoData TagPROF of
                     None \<Rightarrow> h3 | Some proof \<Rightarrow> h3\<lparr>csc_proof := proof, csc_chloForSignature := csc_lastSentCHLO h3\<rparr>);
             (r5, h5) = REJ_cert cm cryptoData h4
         in on_ok r5 h5 (\<lambda>_. REJ_proof cm h5)))"

text \<open>The loop over the versions that were offered in the version negotiation.\<close>

fun validate_versions :: "VersionNumber list \<Rightarrow> u8 list \<Rightarrow> bool" where
  "validate_versions [] b = True"
| "validate_versions (negotiatedVersion # vs) b =
     (case le_ReadUint32 b of
        Inl e \<Rightarrow> False
      | Inr (verTag, b') \<Rightarrow>
          let ver0 = VersionTagToNumber verTag;
              ver = (if \<not> IsSupportedVersion SupportedVersions ver0 then VersionUnsupported else ver0)
          in if ver \<noteq> negotiatedVersion then False else validate_versions vs b')"

definition validateVersionList :: "u8 list \<Rightarrow> cryptoSetupClient \<Rightarrow> bool" where
  "validateVersionList verTags h =
     (let vs = csc_negotiatedVersions h in
      if length vs = 0 then True
      else if length verTags mod 4 \<noteq> 0 \<or> length verTags div 4 \<noteq> length vs then False else validate_versions vs verTags)"

definition sno_bytes :: "cryptoSetupClient \<Rightarrow> u8 list" where
  "sno_bytes h = (case csc_sno h of None \<Rightarrow> [] | Some s \<Rightarrow> s)"

definition leaf_bytes :: "cryptoSetupClient \<Rightarrow> u8 list" where
  "leaf_bytes h = (case cm_GetLeafCert (csc_chain h) of None \<Rightarrow> [] | Some c \<Rightarrow> c)"

definition client_set_forwardSecure :: "AEAD option \<Rightarrow> cryptoSetupClient \<Rightarrow> cryptoSetupClient" where
  "client_set_forwardSecure a h = h\<lparr>csc_aeads := (csc_aeads h)\<lparr>ae_forwardSecure := a\<rparr>\<rparr>"

definition client_set_secure :: "AEAD option \<Rightarrow> cryptoSetupClient \<Rightarrow> cryptoSetupClient" where
  "client_set_secure a h = h\<lparr>csc_aeads := (csc_aeads h)\<lparr>ae_secure := a\<rparr>\<rparr>"

definition handleSHLOMessage :: "crypto_lib \<Rightarrow> tag_map \<Rightarrow> cryptoSetupClient \<Rightarrow> (go_error + unit) \<times> cryptoSetupClient" where
  "handleSHLOMessage cl cryptoData h =
     (if \<not> ae_receivedSecurePacket (csc_aeads h) then (Inl (QErr ''CryptoEncryptionLevelIncorrect''), h)
      else let h1 = (case map_of cryptoData TagSNO of None \<Rightarrow> h | Some sno \<Rightarrow> h\<lparr>csc_sno := Some sno\<rparr>) in
      case map_of cryptoData TagPUBS of
        None \<Rightarrow> (Inl (QErr ''CryptoMessageParameterNotFound''), h1)
      | Some serverPubs \<Rightarrow>
      if map_of cryptoData TagVER = None then (Inl (QErr ''InvalidCryptoMessageParameter''), h1)
      else if \<not> validateVersionList (tag_get cryptoData TagVER) h1 then (Inl (QErr ''VersionNegotiationMismatch''), h1)
      else case csc_serverConfig h1 of
        None \<Rightarrow> (Inl (Panic ''nil pointer dereference''), h1)
      | Some sc \<Rightarrow>
      on_ok (CalculateSharedKey (cl_curve cl) (scc_kex sc) serverPubs) h1 (\<lambda>ephermalSharedSecret.
      on_ok (keyDerivation cl True ephermalSharedSecret (csc_nonc h1 @ sno_bytes h1) (csc_connID h1) (csc_lastSentCHLO h1)
          (scc_raw sc) (leaf_bytes h1) [] PerspectiveClient) (client_set_forwardSecure None h1) (\<lambda>a.
      let h2 = client_set_forwardSecure (Some a) h1; (err, cp) = SetFromMap cryptoData (csc_connectionParameters h2);
          h3 = h2\<lparr>csc_connectionParameters := cp\<rparr>
      in if err \<noteq> None then (Inl (QErr ''InvalidCryptoMessageParameter''), h3)
         else if csc_aeadClosed h3 then (Inl (Panic ''send on closed channel''), h3)
         else (Inr (), h3\<lparr>csc_aeadChanged := csc_aeadChanged h3 @ [EncryptionForwardSecure], csc_aeadClosed := True\<rparr>))))"

definition MaxClientHellos :: nat where "MaxClientHellos = 3"

definition set_tag :: "Tag \<Rightarrow> u8 list \<Rightarrow> tag_map \<Rightarrow> tag_map" where
  "set_tag t v m = AList.update t v m"

definition set_tag_if :: "bool \<Rightarrow> Tag \<Rightarrow> u8 list \<Rightarrow> tag_map \<Rightarrow> tag_map" where
  "set_tag_if b t v m = (if b then set_tag t v m else m)"

text \<open>The tags that need a server configuration, and those that need its certificate as well.\<close>

definition config_tags :: "cryptoSetupClient \<Rightarrow> tag_map \<Rightarrow> tag_map" where
  "config_tags h m =
     (case csc_serverConfig h of
        None \<Rightarrow> m
      | Some sc \<Rightarrow>
          let m1 = set_tag TagSCID (scc_ID sc) m
          in case cm_GetLeafCert (csc_chain h) of
               None \<Rightarrow> m1
             | Some leafCert \<Rightarrow>
                 let certHash = (case cm_GetLeafCertHash (csc_chain h) of Inl e \<Rightarrow> 0 | Inr x \<Rightarrow> x)
                 in set_tag TagPUBS (kx_public (scc_kex sc)) (set_tag TagAEAD AESG (set_tag TagKEXS C255
                      (set_tag TagXLCT (le_bytes 8 certHash) (set_tag TagNONC (csc_nonc h) m1)))))"

definition getTags :: "cert_lib \<Rightarrow> cryptoSetupClient \<Rightarrow> go_error + tag_map" where
  "getTags cm h =
     (case cp_GetHelloMap (csc_connectionParameters h) of
        Inl e \<Rightarrow> Inl e
      | Inr tags \<Rightarrow>
          let t1 = set_tag TagPDMD (map of_char ''X509'') (set_tag TagSNI (csc_hostname h) tags);
              t2 = set_tag_if (length (cm_CommonHashes cm) > 0) TagCCS (cm_CommonHashes cm) t1;
              t3 = set_tag TagVER (le_bytes 4 (VersionNumberToTag (csc_version h))) t2;
              t4 = set_tag_if (csc_requestTruncation h) TagTCID [0, 0, 0, 0] t3;
              t5 = set_tag_if (length (csc_stk h) > 0) TagSTK (csc_stk h) t4;
              t6 = set_tag_if (length (sno_bytes h) > 0) TagSNO (sno_bytes h) t5
          in Inr (config_tags h t6))"

definition addPadding :: "tag_map \<Rightarrow> tag_map" where
  "addPadding tags =
     (let size = sum_list (map (\<lambda>(t, v). 8 + int (length v)) tags); paddingSize = int ClientHelloMinimumSize - size
      in if paddingSize > 0 then set_tag TagPAD (replicate (nat paddingSize) 0) tags else tags)"

text \<open>The CHLO that is written to the crypto stream.\<close>

definition sendCHLO :: "cert_lib \<Rightarrow> cryptoSetupClient \<Rightarrow> (go_error + u8 list) \<times> cryptoSetupClient" where
  "sendCHLO cm h =
     (let h1 = h\<lparr>csc_clientHelloCounter := csc_clientHelloCounter h + 1\<rparr>
      in if csc_clientHelloCounter h1 > MaxClientHellos then (Inl (QErr ''CryptoTooManyRejects''), h1)
         else on_ok (getTags cm h1) h1 (\<lambda>tags.
           let b = written (HandshakeMessage_Write \<lparr> hm_Tag = TagCHLO, hm_Data = addPadding tags \<rparr>)
           in (Inr b, h1\<lparr>csc_lastSentCHLO := b\<rparr>)))"

definition maybeUpgradeCrypto :: "crypto_lib \<Rightarrow> cryptoSetupClient \<Rightarrow> (go_error + unit) \<times> cryptoSetupClient" where
  "maybeUpgradeCrypto cl h =
     (if \<not> csc_serverVerified h then (Inr (), h)
      else case (ae_secure (csc_aeads h), csc_serverConfig h) of
        (None, Some sc) \<Rightarrow>
          if length (scc_sharedSecret sc) > 0 \<and> length (csc_nonc h) > 0 \<and> length (leaf_bytes h) > 0 \<and>
             length (csc_diversificationNonce h) > 0 \<and> length (csc_lastSentCHLO h) > 0
          then on_ok (keyDerivation cl False (scc_sharedSecret sc) (csc_nonc h @ sno_bytes h) (csc_connID h) (csc_lastSentCHLO h)
                 (scc_raw sc) (leaf_bytes h) (csc_diversificationNonce h) PerspectiveClient) (client_set_secure None h) (\<lambda>a.
                 (Inr (), (client_set_secure (Some a) h)\<lparr>csc_aeadChanged := csc_aeadChanged h @ [EncryptionSecure]\<rparr>))
          else (Inr (), h)
      | _ \<Rightarrow> (Inr (), h))"

text \<open>
  \<open>HandleCryptoStream\<close>: what the top of the loop does, and what happens with an event. The result is what is written
  to the crypto stream.
\<close>

definition client_loop_top :: "crypto_lib \<Rightarrow> cert_lib \<Rightarrow> cryptoSetupClient \<Rightarrow> (go_error + u8 list) \<times> cryptoSetupClient" where
  "client_loop_top cl cm h =
     (let (r, h1) = maybeUpgradeCrypto cl h
      in on_ok r h1 (\<lambda>_. if ae_secure (csc_aeads h1) = None then sendCHLO cm h1 else (Inr [], h1)))"

datatype client_event = DivNonce "u8 list" | Message HandshakeMessage

definition client_handle ::
    "crypto_lib \<Rightarrow> cert_lib \<Rightarrow> client_env \<Rightarrow> client_event \<Rightarrow> cryptoSetupClient \<Rightarrow> (go_error + unit) \<times> cryptoSetupClient" where
  "client_handle cl cm env ev h =
     (case ev of
        DivNonce d \<Rightarrow>
          if length (csc_diversificationNonce h) \<noteq> 0 \<and> csc_diversificationNonce h \<noteq> d
          then (Inl (GoErr ''Received two different diversification nonces''), h)
          else (Inr (), h\<lparr>csc_diversificationNonce := d\<rparr>)
      | Message m \<Rightarrow>
          if hm_Tag m = TagREJ then handleREJMessage cl cm env (hm_Data m) h
          else if hm_Tag m = TagSHLO then handleSHLOMessage cl (hm_Data m) h
          else (Inl (QErr ''InvalidCryptoMessageType''), h))"

definition client_turn ::
    "crypto_lib \<Rightarrow> cert_lib \<Rightarrow> client_env \<Rightarrow> client_event \<Rightarrow> cryptoSetupClient \<Rightarrow> (go_error + u8 list) \<times> cryptoSetupClient" where
  "client_turn cl cm env ev h = (let (r, h1) = client_handle cl cm env ev h in on_ok r h1 (\<lambda>_. client_loop_top cl cm h1))"

end
