(* ===== verification/Handshake.thy ===== *)
theory Handshake
  imports Crypto_Setup
begin

section \<open>The handshake between client and server\<close>

text \<open>
  The messages of the client meet the server and the other way round: the server configuration is read as it was sent, a CHLO
  is understood, both sides derive the same keys, and the levels of encryption only rise.
\<close>

lemma tag_get_Some: "map_of m t = Some v \<Longrightarrow> tag_get m t = v"
  by (simp add: tag_get_def)

lemma map_of_set_tag [simp]: "map_of (set_tag t v m) t' = (if t' = t then Some v else map_of m t')"
  by (auto simp: set_tag_def update_conv')

lemma distinct_set_tag: "distinct (map fst m) \<Longrightarrow> distinct (map fst (set_tag t v m))"
  by (simp add: set_tag_def distinct_update)

subsection \<open>Messages on the crypto stream\<close>

lemma HandshakeMessage_written:
  assumes "HandshakeMessage_valid h"
  shows "ParseHandshakeMessage (written (HandshakeMessage_Write h) @ r) =
      Inr (\<lparr> hm_Tag = hm_Tag h, hm_Data = lookup_all (hm_Data h) (getTagsSorted h) \<rparr>, r)"
    "map_of (lookup_all (hm_Data h) (getTagsSorted h)) = map_of (hm_Data h)"
proof -
  obtain w where w: "HandshakeMessage_Write h = Inr w" by (simp add: HandshakeMessage_Write_eq)
  show "ParseHandshakeMessage (written (HandshakeMessage_Write h) @ r) =
      Inr (\<lparr> hm_Tag = hm_Tag h, hm_Data = lookup_all (hm_Data h) (getTagsSorted h) \<rparr>, r)"
    using parse_written [OF assms w] by (simp add: written_def w)
  show "map_of (lookup_all (hm_Data h) (getTagsSorted h)) = map_of (hm_Data h)" by (rule lookup_sorted)
qed

lemma written_nonempty: "written (HandshakeMessage_Write h) \<noteq> []"
  by (simp add: written_def HandshakeMessage_Write_eq) (metis length_le_bytes list.size(3) zero_neq_numeral)

subsection \<open>The server configuration\<close>

definition config_wf :: "ServerConfig \<Rightarrow> bool" where
  "config_wf s \<longleftrightarrow> length (sc_ID s) = 16 \<and> length (sc_obit s) = 8 \<and> length (kx_public (sc_kex s)) = 32"

lemma ServerConfig_valid: "config_wf s \<Longrightarrow> HandshakeMessage_valid (ServerConfig_message s)"
  by (simp add: config_wf_def HandshakeMessage_valid_def ServerConfig_message_def C255_def AESG_def)

lemma find4_hit: "length tag = 4 \<Longrightarrow> find4 tag i (tag @ rest) = Some i"
  by (subst find4.simps) simp

lemma parse_pubs_one:
  assumes "length v = 32"
  shows "parse_pubs ([0x20, 0, 0] @ v) = Inr [v]"
proof -
  have "parse_pubs [] = Inr []" by (subst parse_pubs.simps) simp
  then show ?thesis using assms by (subst parse_pubs.simps) (simp add: Let_def)
qed

text \<open>The client understands the configuration the server sends, and both have the same secret.\<close>

definition config_of :: "curve_lib \<Rightarrow> ServerConfig \<Rightarrow> serverConfigClient \<Rightarrow> bool" where
  "config_of cv s c \<longleftrightarrow> scc_raw c = ServerConfig_Get s \<and> scc_ID c = sc_ID s \<and> scc_obit c = sc_obit s \<and> kex_ok cv (scc_kex c) \<and>
     CalculateSharedKey cv (scc_kex c) (kx_public (sc_kex s)) = Inr (scc_sharedSecret c) \<and> scc_expiry c = MaxExpiry"

lemma parseServerConfig_Get:
  assumes wf: "config_wf s" and rand: "rand = Some r"
  shows "\<exists>c. parseServerConfig cv rand (ServerConfig_Get s) = Inr c \<and> config_of cv s c"
proof -
  let ?m = "ServerConfig_message s"
  define d where "d = lookup_all (hm_Data ?m) (getTagsSorted ?m)"
  have parse: "ParseHandshakeMessage (ServerConfig_Get s) = Inr (\<lparr> hm_Tag = TagSCFG, hm_Data = d \<rparr>, [])"
    using HandshakeMessage_written(1) [OF ServerConfig_valid [OF wf], of "[]"]
    by (simp add: ServerConfig_Get_def d_def ServerConfig_message_def)
  have m: "map_of d TagSCID = Some (sc_ID s)" "map_of d TagKEXS = Some C255" "map_of d TagAEAD = Some AESG"
    "map_of d TagPUBS = Some ([0x20, 0, 0] @ kx_public (sc_kex s))" "map_of d TagOBIT = Some (sc_obit s)"
    "map_of d TagEXPY = Some ([0xff, 0xff, 0xff, 0xff, 0xff, 0xff, 0xff, 0xff])"
    unfolding d_def lookup_sorted by (simp_all add: ServerConfig_message_def)
  obtain kex where kex: "NewCurve25519KEX cv rand = Inr kex" using rand by (simp add: NewCurve25519KEX_def Let_def)
  have len: "length (kx_public (sc_kex s)) = 32" using wf by (simp add: config_wf_def)
  obtain secret where secret: "CalculateSharedKey cv kex (kx_public (sc_kex s)) = Inr secret"
    using len by (simp add: CalculateSharedKey_def)
  have f: "find4 C255 0 C255 = Some 0" "find4 AESG 0 AESG = Some 0" "length C255 = 4" "length AESG = 4"
    using find4_hit [of C255 0 "[]"] find4_hit [of AESG 0 "[]"] by (simp_all add: C255_def AESG_def)
  have "parseValues cv rand (ServerConfig_Get s) d = Inr
      \<lparr> scc_raw = ServerConfig_Get s, scc_ID = sc_ID s, scc_obit = sc_obit s, scc_expiry = MaxExpiry, scc_kex = kex,
        scc_sharedSecret = secret \<rparr>"
    unfolding parseValues_def scfg_need_def m option.case
    using wf by (simp add: f parse_pubs_one [OF len, simplified] kex secret len config_wf_def MaxExpiry_def)
  then show ?thesis
    unfolding parseServerConfig_def parse sum.case prod.case
    using secret NewCurve25519KEX_ok [OF kex] by (simp add: config_of_def)
qed

subsection \<open>The client hello\<close>

text \<open>Maps that can be sent: at most \<open>n\<close> tags, with values that are not too long.\<close>

definition tags_ok :: "nat \<Rightarrow> tag_map \<Rightarrow> bool" where
  "tags_ok n m \<longleftrightarrow> distinct (map fst m) \<and> length m \<le> n \<and> (\<forall>(t, v)\<in>set m. length v \<le> 4000)"

lemma set_update_subset: "set (AList.update t v m) \<subseteq> insert (t, v) (set m)"
  by (induction m) auto

lemma length_update_le: "length (AList.update t v m) \<le> Suc (length m)"
  by (induction m) auto

lemma tags_ok_set: "tags_ok n m \<Longrightarrow> length v \<le> 4000 \<Longrightarrow> tags_ok (Suc n) (set_tag t v m)"
  using set_update_subset [of t v m] length_update_le [of t v m]
  by (fastforce simp: tags_ok_def set_tag_def distinct_update)

lemma tags_ok_set_if: "tags_ok n m \<Longrightarrow> length v \<le> 4000 \<Longrightarrow> tags_ok (Suc n) (set_tag_if b t v m)"
  using tags_ok_set [of n m v t] by (auto simp: set_tag_if_def tags_ok_def)

lemma tags_ok_mono: "tags_ok n m \<Longrightarrow> n \<le> k \<Longrightarrow> tags_ok k m"
  by (auto simp: tags_ok_def)

lemma hello_tags_ok: "cp_GetHelloMap cp = Inr m \<Longrightarrow> tags_ok 5 m"
  by (auto simp: cp_GetHelloMap_eq tags_ok_def simp del: le_bytes.simps)

text \<open>The values a client has to send are of reasonable length.\<close>

definition client_wf :: "cert_lib \<Rightarrow> cryptoSetupClient \<Rightarrow> bool" where
  "client_wf cm h \<longleftrightarrow> length (csc_hostname h) \<le> 4000 \<and> length (cm_CommonHashes cm) \<le> 4000 \<and> length (csc_stk h) \<le> 4000 \<and>
     length (sno_bytes h) \<le> 4000 \<and> length (csc_nonc h) \<le> 4000 \<and>
     (\<forall>sc. csc_serverConfig h = Some sc \<longrightarrow> length (scc_ID sc) \<le> 4000 \<and> length (kx_public (scc_kex sc)) \<le> 4000)"

lemma config_tags_ok:
  assumes "tags_ok n m" "client_wf cm h"
  shows "tags_ok (Suc (Suc (Suc (Suc (Suc (Suc n)))))) (config_tags h m)"
proof (cases "csc_serverConfig h")
  case None
  then show ?thesis using assms(1) by (simp add: config_tags_def tags_ok_mono)
next
  case (Some sc)
  note w = assms(2) [unfolded client_wf_def]
  have m1: "tags_ok (Suc n) (set_tag TagSCID (scc_ID sc) m)" using assms(1) Some w by (intro tags_ok_set) auto
  show ?thesis
  proof (cases "cm_GetLeafCert (csc_chain h)")
    case None
    then show ?thesis using m1 Some by (simp add: config_tags_def tags_ok_mono)
  next
    case (Some leaf)
    have "tags_ok (Suc (Suc (Suc (Suc (Suc (Suc n)))))) (set_tag TagPUBS (kx_public (scc_kex sc)) (set_tag TagAEAD AESG (set_tag TagKEXS C255
        (set_tag TagXLCT (le_bytes 8 x) (set_tag TagNONC (csc_nonc h) (set_tag TagSCID (scc_ID sc) m))))))" for x :: u64
      by (intro tags_ok_set m1) (use w \<open>csc_serverConfig h = Some sc\<close> in \<open>auto simp: C255_def AESG_def simp del: le_bytes.simps\<close>)
    then show ?thesis using \<open>csc_serverConfig h = Some sc\<close> Some by (simp add: config_tags_def Let_def)
  qed
qed

text \<open>The tags before those of the configuration.\<close>

definition base_tags :: "cert_lib \<Rightarrow> cryptoSetupClient \<Rightarrow> tag_map" where
  "base_tags cm h = set_tag_if (length (sno_bytes h) > 0) TagSNO (sno_bytes h) (set_tag_if (length (csc_stk h) > 0) TagSTK (csc_stk h)
    (set_tag_if (csc_requestTruncation h) TagTCID [0, 0, 0, 0] (set_tag TagVER (le_bytes 4 (VersionNumberToTag (csc_version h)))
    (set_tag_if (length (cm_CommonHashes cm) > 0) TagCCS (cm_CommonHashes cm) (set_tag TagPDMD (map of_char ''X509'')
    (set_tag TagSNI (csc_hostname h) (hello_map (csc_connectionParameters h))))))))"

lemma getTags_eq: "getTags cm h = Inr (config_tags h (base_tags cm h))"
proof -
  have "cp_GetHelloMap (csc_connectionParameters h) = Inr (hello_map (csc_connectionParameters h))"
    by (simp add: cp_GetHelloMap_eq hello_map_def)
  then show ?thesis by (simp only: getTags_def base_tags_def sum.case Let_def)
qed

lemma client_tags_ok:
  assumes "client_wf cm h"
  shows "tags_ok 18 (config_tags h (base_tags cm h))"
proof -
  have h: "tags_ok 5 (hello_map (csc_connectionParameters h))"
    by (rule hello_tags_ok [of "csc_connectionParameters h"]) (simp add: cp_GetHelloMap_eq hello_map_def)
  have "tags_ok (Suc (Suc (Suc (Suc (Suc (Suc (Suc 5))))))) (base_tags cm h)"
    unfolding base_tags_def
    by (intro tags_ok_set tags_ok_set_if h) (use assms in \<open>simp_all add: client_wf_def del: le_bytes.simps\<close>)
  from config_tags_ok [OF this assms] show ?thesis by simp
qed

text \<open>Padding makes a hello large enough.\<close>

lemma addPadding_ok:
  assumes "tags_ok n m"
  shows "tags_ok (Suc n) (addPadding m)"
proof -
  define size where "size = sum_list (map (\<lambda>(t, v). 8 + int (length v)) m)"
  have "0 \<le> size" unfolding size_def by (intro sum_list_nonneg) auto
  then have "tags_ok (Suc n) (set_tag TagPAD (replicate (nat (int ClientHelloMinimumSize - size)) 0) m)"
    by (intro tags_ok_set assms) (simp add: ClientHelloMinimumSize_def)
  then show ?thesis using tags_ok_mono [OF assms] by (simp add: addPadding_def Let_def size_def)
qed

lemma CHLO_valid: "client_wf cm h \<Longrightarrow> HandshakeMessage_valid \<lparr> hm_Tag = t, hm_Data = addPadding (config_tags h (base_tags cm h)) \<rparr>"
  using addPadding_ok [OF client_tags_ok] by (fastforce simp: HandshakeMessage_valid_def tags_ok_def)

lemma snd_write_pairs_length: "length (snd (write_pairs d off ts)) = sum_list (map (\<lambda>t. length (tag_get d t)) ts)"
  by (induction ts arbitrary: off) (simp_all add: Let_def case_prod_beta tag_get_def)

lemma sum_over_tags:
  assumes "distinct (map fst m)"
  shows "sum_list (map (\<lambda>t. length (tag_get m t)) (sort (map fst m))) = sum_list (map (\<lambda>(t, v). length v) m)"
proof -
  have "sum_list (map (\<lambda>t. length (tag_get m t)) (sort (map fst m))) = sum_list (map (\<lambda>t. length (tag_get m t)) (map fst m))"
    by (simp only: sum_mset_sum_list [symmetric] mset_map mset_sort)
  also have "\<dots> = sum_list (map (\<lambda>(t, v). length v) m)"
    unfolding map_map by (rule arg_cong [of _ _ sum_list], rule map_cong) (use assms in \<open>auto simp: tag_get_def\<close>)
  finally show ?thesis .
qed

lemma length_written:
  assumes "distinct (map fst (hm_Data h))"
  shows "length (written (HandshakeMessage_Write h)) = 8 + sum_list (map (\<lambda>(t, v). 8 + length v) (hm_Data h))"
proof -
  have "length (written (HandshakeMessage_Write h)) = 8 + 8 * length (hm_Data h) + sum_list (map (\<lambda>(t, v). length v) (hm_Data h))"
    using sum_over_tags [OF assms]
    by (simp add: written_def HandshakeMessage_Write_eq length_write_index snd_write_pairs_length getTagsSorted_def del: le_bytes.simps)
  also have "\<dots> = 8 + sum_list (map (\<lambda>(t, v). 8 + length v) (hm_Data h))"
  proof -
    have "8 * length m + sum_list (map (\<lambda>(t, v). length v) m) = sum_list (map (\<lambda>(t, v). 8 + length v) m)" for m :: tag_map
      by (induction m) auto
    then show ?thesis by simp
  qed
  finally show ?thesis .
qed

definition hello_tag :: "Tag \<Rightarrow> bool" where
  "hello_tag t \<longleftrightarrow> t \<in> {TagICSL, TagMSPC, TagMIDS, TagCFCW, TagSFCW}"

lemma map_of_hello_map: "\<not> hello_tag t \<Longrightarrow> map_of (hello_map cp) t = None"
  by (auto simp: hello_tag_def hello_map_def cp_GetHelloMap_eq simp del: le_bytes.simps)

lemma map_of_set_tag_if: "map_of (set_tag_if b t v m) t' = (if b \<and> t' = t then Some v else map_of m t')"
  by (simp add: set_tag_if_def)

lemma map_of_addPadding: "t \<noteq> TagPAD \<Longrightarrow> map_of (addPadding m) t = map_of m t"
  by (simp add: addPadding_def Let_def del: crypto_tag_values)

lemma base_tags_lookup:
  "map_of (base_tags cm h) TagFHL2 = None" "map_of (base_tags cm h) TagNSTP = None" "map_of (base_tags cm h) TagPAD = None"
  "map_of (base_tags cm h) TagSCID = None" "map_of (base_tags cm h) TagPUBS = None"
  "map_of (base_tags cm h) TagSNI = Some (csc_hostname h)"
  "map_of (base_tags cm h) TagVER = Some (le_bytes 4 (VersionNumberToTag (csc_version h)))"
  "map_of (base_tags cm h) TagSTK = (if csc_stk h = [] then None else Some (csc_stk h))"
  "map_of (base_tags cm h) TagTCID = (if csc_requestTruncation h then Some [0, 0, 0, 0] else None)"
  "hello_tag t \<Longrightarrow> map_of (base_tags cm h) t = map_of (hello_map (csc_connectionParameters h)) t"
  unfolding base_tags_def map_of_set_tag_if map_of_set_tag
  by (simp_all add: map_of_hello_map hello_tag_def del: le_bytes.simps) (auto simp del: le_bytes.simps)

lemma config_tags_lookup:
  "t \<notin> {TagSCID, TagPUBS, TagAEAD, TagKEXS, TagXLCT, TagNONC} \<Longrightarrow> map_of (config_tags h m) t = map_of m t"
  by (auto simp: config_tags_def Let_def simp del: le_bytes.simps split: option.splits)

lemma config_tags_full:
  assumes "csc_serverConfig h = Some sc" "csc_chain h = cert # chain"
  shows "map_of (config_tags h m) TagSCID = Some (scc_ID sc)" "map_of (config_tags h m) TagPUBS = Some (kx_public (scc_kex sc))"
    "map_of (config_tags h m) TagAEAD = Some AESG" "map_of (config_tags h m) TagKEXS = Some C255"
    "map_of (config_tags h m) TagXLCT = Some (le_bytes 8 (fnv64a cert))" "map_of (config_tags h m) TagNONC = Some (csc_nonc h)"
  using assms by (simp_all add: config_tags_def Let_def cm_GetLeafCert_def cm_GetLeafCertHash_def del: le_bytes.simps)

text \<open>No hello of a client is too small for the server.\<close>

lemma CHLO_size:
  assumes "client_wf cm h"
  shows "ClientHelloMinimumSize \<le>
    length (written (HandshakeMessage_Write \<lparr> hm_Tag = t, hm_Data = addPadding (config_tags h (base_tags cm h)) \<rparr>))"
proof -
  let ?m = "config_tags h (base_tags cm h)"
  define size where "size = sum_list (map (\<lambda>(t, v). 8 + length v) ?m)"
  have i: "sum_list (map (\<lambda>(t, v). 8 + int (length v)) m) = int (sum_list (map (\<lambda>(t, v). 8 + length v) m))" for m :: tag_map
    by (induction m) auto
  have d: "distinct (map fst (addPadding ?m))"
    using addPadding_ok [OF client_tags_ok [OF assms]] by (simp add: tags_ok_def)
  have "TagPAD \<notin> fst ` set ?m"
    using config_tags_lookup [of TagPAD h "base_tags cm h"] base_tags_lookup(3) [of cm h] by (simp flip: map_of_eq_None_iff)
  then have up: "set_tag TagPAD v ?m = ?m @ [(TagPAD, v)]" for v unfolding set_tag_def by (rule update_new_key)
  have "ClientHelloMinimumSize \<le> sum_list (map (\<lambda>(t, v). 8 + length v) (addPadding ?m))"
    by (auto simp: addPadding_def Let_def i up size_def [symmetric] simp del: crypto_tag_values)
  then show ?thesis using length_written [where h = "\<lparr> hm_Tag = t, hm_Data = addPadding ?m \<rparr>"] d by simp
qed

subsection \<open>The server's answer to a complete hello\<close>

text \<open>What the cryptography promises.\<close>

definition crypto_ok :: "crypto_lib \<Rightarrow> bool" where
  "crypto_ok cl \<longleftrightarrow> gcm_ok (cl_gcm cl) \<and> curve_ok (cl_curve cl)"

lemma SetFromMap_lengths:
  assumes "\<not> cp_flowControlNegotiated cp"
    and "\<And>t v. map_of d t = Some v \<Longrightarrow> hello_tag t \<or> t = TagTCID \<Longrightarrow> length v = 4"
  shows "\<exists>cp'. SetFromMap d cp = (None, cp')"
proof -
  have p: "\<exists>cp'. cp_param d t upd cp = (None, cp')" if "hello_tag t \<or> t = TagTCID" for t upd cp
  proof (cases "map_of d t")
    case (Some v)
    then have "length v = 4" using assms(2) that by blast
    then obtain x where "le_ReadUint32 v = Inr x" using le_read_bytes'(2) [of v "[]"] by auto
    then show ?thesis using Some by (cases x) (simp add: cp_param_def)
  qed (simp add: cp_param_def)
  have n: "cp_flowControlNegotiated cp' = cp_flowControlNegotiated cp"
    if "cp_param d t upd cp = (None, cp')" "\<And>v h. cp_flowControlNegotiated (upd v h) = cp_flowControlNegotiated h" for t upd cp cp'
    using that by (auto simp: cp_param_def split: option.splits sum.splits)
  have w: "\<exists>cp'. cp_window d t upd cp = (None, cp')" if "hello_tag t" "\<not> cp_flowControlNegotiated cp" for t upd cp
    using p [of t upd cp] that by (simp add: cp_window_def)
  obtain c1 where c1: "(if cp_perspective cp = PerspectiveServer
      then cp_param d TagTCID (\<lambda>v h. h\<lparr>cp_truncateConnectionID := (v = 0)\<rparr>) cp else (None, cp)) = (None, c1)"
    "\<not> cp_flowControlNegotiated c1"
    using p [of TagTCID "\<lambda>v h. h\<lparr>cp_truncateConnectionID := (v = 0)\<rparr>" cp] assms(1) n
    by (cases "cp_perspective cp = PerspectiveServer") (fastforce)+
  obtain c2 where c2: "cp_param d TagMSPC (\<lambda>v h. h\<lparr>cp_maxStreamsPerConnection := negotiateMaxStreamsPerConnection v\<rparr>) c1 = (None, c2)"
    "\<not> cp_flowControlNegotiated c2"
    using p [of TagMSPC _ c1] c1(2) n by (fastforce simp: hello_tag_def)
  obtain c3 where c3: "cp_param d TagMIDS
      (\<lambda>v h. h\<lparr>cp_maxIncomingDynamicStreamsPerConnection := negotiateMaxIncomingDynamicStreamsPerConnection v\<rparr>) c2 = (None, c3)"
    "\<not> cp_flowControlNegotiated c3"
    using p [of TagMIDS _ c2] c2(2) n by (fastforce simp: hello_tag_def)
  obtain c4 where c4: "cp_param d TagICSL
      (\<lambda>v h. h\<lparr>cp_idleConnectionStateLifetime := negotiateIdleConnectionStateLifetime (uint v * Second) h\<rparr>) c3 = (None, c4)"
    "\<not> cp_flowControlNegotiated c4"
    using p [of TagICSL _ c3] c3(2) n by (fastforce simp: hello_tag_def)
  obtain c5 where c5: "cp_window d TagSFCW (\<lambda>v h. h\<lparr>cp_sendStreamFlowControlWindow := ucast v\<rparr>) c4 = (None, c5)"
    using w [of TagSFCW c4] c4(2) by (fastforce simp: hello_tag_def)
  have c5n: "\<not> cp_flowControlNegotiated c5"
    using c5 c4(2) n [of TagSFCW "\<lambda>v h. h\<lparr>cp_sendStreamFlowControlWindow := ucast v\<rparr>" c4 c5]
    by (simp add: cp_window_def split: if_splits)
  obtain c6 where c6: "cp_window d TagCFCW (\<lambda>v h. h\<lparr>cp_sendConnectionFlowControlWindow := ucast v\<rparr>) c5 = (None, c6)"
    using w [of TagCFCW c5] c5n by (fastforce simp: hello_tag_def)
  show ?thesis unfolding SetFromMap_def by (simp add: c1(1) c2(1) c3(1) c4(1) c5 c6 del: tag_values)
qed

text \<open>
  A client that knows everything for a complete hello: the server's configuration and certificate, which were verified, a nonce and a
  cookie the server accepts. It has not derived keys yet.
\<close>

definition client_ready :: "crypto_lib \<Rightarrow> cert_lib \<Rightarrow> server_lib \<Rightarrow> u8 list \<Rightarrow> cryptoSetupClient \<Rightarrow> cryptoSetupServer \<Rightarrow> bool" where
  "client_ready cl cm sv cert c s \<longleftrightarrow> client_wf cm c \<and> csc_hostname c \<noteq> [] \<and>
     (\<exists>sc. csc_serverConfig c = Some sc \<and> config_of (cl_curve cl) (css_scfg s) sc) \<and>
     cm_GetLeafCert (csc_chain c) = Some cert \<and> cert \<noteq> [] \<and> sv_GetLeafCert sv (csc_hostname c) = Inr cert \<and>
     acceptSTK sv (csc_stk c) \<and> length (csc_nonc c) = 32 \<and> take 8 (drop 4 (csc_nonc c)) = sc_obit (css_scfg s) \<and> csc_sno c = None \<and>
     csc_serverVerified c \<and> csc_diversificationNonce c = [] \<and> csc_clientHelloCounter c < MaxClientHellos \<and>
     ae_secure (csc_aeads c) = None \<and> \<not> csc_aeadClosed c \<and> \<not> cp_flowControlNegotiated (csc_connectionParameters c)"

text \<open>The server: its key exchange is sound, and it has the connection and the version of the client.\<close>

definition server_ready :: "crypto_lib \<Rightarrow> server_env \<Rightarrow> cryptoSetupClient \<Rightarrow> cryptoSetupServer \<Rightarrow> bool" where
  "server_ready cl env c s \<longleftrightarrow> config_wf (css_scfg s) \<and> kex_ok (cl_curve cl) (sc_kex (css_scfg s)) \<and>
     kex_ok (cl_curve cl) (sn_ephermalKex env) \<and> css_connID s = csc_connID c \<and> css_version s = csc_version c \<and>
     0 \<le> csc_version c \<and> csc_version c < 1000 \<and> \<not> cp_flowControlNegotiated (css_connectionParameters s) \<and>
     (\<exists>n. sn_serverNonce env = Some n \<and> length n = 32) \<and> (\<exists>n. sn_divNonce env = Some n \<and> length n = 32) \<and>
     length (css_supportedVersions s) \<le> 1000"

lemma client_sends_CHLO:
  assumes "client_ready cl cm sv cert c s"
  shows "client_loop_top cl cm c =
    (let chlo = written (HandshakeMessage_Write \<lparr> hm_Tag = TagCHLO, hm_Data = addPadding (config_tags c (base_tags cm c)) \<rparr>)
     in (Inr chlo, c\<lparr>csc_clientHelloCounter := csc_clientHelloCounter c + 1, csc_lastSentCHLO := chlo\<rparr>))"
proof -
  let ?c = "c\<lparr>csc_clientHelloCounter := csc_clientHelloCounter c + 1\<rparr>"
  note r = assms [unfolded client_ready_def]
  have up: "maybeUpgradeCrypto cl c = (Inr (), c)" using r by (auto simp: maybeUpgradeCrypto_def)
  have tags: "getTags cm ?c = Inr (config_tags c (base_tags cm c))"
    unfolding getTags_eq
    by (cases "csc_serverConfig c"; cases "cm_GetLeafCert (csc_chain c)"; cases "csc_sno c")
      (simp_all add: config_tags_def base_tags_def sno_bytes_def del: le_bytes.simps crypto_tag_values tag_values)
  have n: "ae_secure (csc_aeads c) = None" "\<not> csc_clientHelloCounter ?c > MaxClientHellos" using r by simp_all
  show ?thesis
    unfolding client_loop_top_def up Let_def prod.case on_ok_simps sendCHLO_def tags if_not_P [OF n(2)] using n(1) by simp
qed

text \<open>What the server reads from the hello.\<close>

lemma CHLO_read:
  assumes ready: "client_ready cl cm sv cert c s" and sc: "csc_serverConfig c = Some sc"
    and chlo: "chlo = written (HandshakeMessage_Write \<lparr> hm_Tag = TagCHLO, hm_Data = addPadding (config_tags c (base_tags cm c)) \<rparr>)"
  obtains d where "ParseHandshakeMessage chlo = Inr (\<lparr> hm_Tag = TagCHLO, hm_Data = d \<rparr>, [])"
    "map_of d TagFHL2 = None" "map_of d TagNSTP = None" "map_of d TagSNI = Some (csc_hostname c)"
    "map_of d TagVER = Some (le_bytes 4 (VersionNumberToTag (csc_version c)))"
    "map_of d TagPUBS = Some (kx_public (scc_kex sc))" "map_of d TagSCID = Some (scc_ID sc)"
    "map_of d TagXLCT = Some (le_bytes 8 (fnv64a cert))" "tag_get d TagSTK = csc_stk c"
    "map_of d TagNONC = Some (csc_nonc c)" "map_of d TagAEAD = Some AESG" "map_of d TagKEXS = Some C255"
    "\<And>t v. map_of d t = Some v \<Longrightarrow> hello_tag t \<or> t = TagTCID \<Longrightarrow> length v = 4"
proof -
  let ?m = "\<lparr> hm_Tag = TagCHLO, hm_Data = addPadding (config_tags c (base_tags cm c)) \<rparr>"
  have wf: "client_wf cm c" using ready by (simp add: client_ready_def)
  obtain chain where chain: "csc_chain c = cert # chain"
    using ready by (cases "csc_chain c") (auto simp: client_ready_def cm_GetLeafCert_def)
  define d where "d = lookup_all (hm_Data ?m) (getTagsSorted ?m)"
  have p: "ParseHandshakeMessage chlo = Inr (\<lparr> hm_Tag = TagCHLO, hm_Data = d \<rparr>, [])"
    using HandshakeMessage_written(1) [OF CHLO_valid [OF wf], of TagCHLO "[]"] by (simp add: chlo d_def)
  have l: "map_of d t = map_of (config_tags c (base_tags cm c)) t" if "t \<noteq> TagPAD" for t
    unfolding d_def lookup_sorted using map_of_addPadding [OF that] by simp
  have b: "map_of d t = map_of (base_tags cm c) t" if "t \<notin> {TagPAD, TagSCID, TagPUBS, TagAEAD, TagKEXS, TagXLCT, TagNONC}" for t
    using l [of t] config_tags_lookup [of t c] that by simp
  note f = config_tags_full [OF sc chain]
  have ht: "length v = 4" if "map_of d t = Some v" "hello_tag t \<or> t = TagTCID" for t v
  proof (cases "t = TagTCID")
    case True
    then show ?thesis using that(1) b [of TagTCID] base_tags_lookup(9) [of cm c] by (simp split: if_splits)
  next
    case False
    then have "hello_tag t" using that(2) by simp
    then have "map_of (hello_map (csc_connectionParameters c)) t = Some v"
      using that(1) b [of t] base_tags_lookup(10) [of t cm c] by (auto simp: hello_tag_def)
    then show ?thesis by (auto simp: hello_map_def cp_GetHelloMap_eq simp del: le_bytes.simps split: if_splits)
  qed
  show thesis
    by (rule that [OF p]) (use b [of TagFHL2] b [of TagNSTP] b [of TagSNI] b [of TagVER] b [of TagSTK] base_tags_lookup
        l [of TagPUBS] l [of TagSCID] l [of TagXLCT] l [of TagNONC] l [of TagAEAD] l [of TagKEXS] f ht in
        \<open>simp_all add: tag_get_def del: le_bytes.simps\<close>)
qed

lemma le_val_4: "le_val (le_bytes 4 (x :: u32)) = x"
  by (rule le_val_full)

lemma le_val_8: "le_val (le_bytes 8 (x :: u64)) = x"
  by (rule bit_word_eqI) (simp add: le_val_le_bytes bit_simps)

text \<open>The keys of a complete hello, as both sides derive them.\<close>

definition initial_keys ::
    "crypto_lib \<Rightarrow> u8 list \<Rightarrow> u8 list \<Rightarrow> u8 list \<Rightarrow> u8 list \<Rightarrow> cryptoSetupClient \<Rightarrow> cryptoSetupServer \<Rightarrow> Perspective \<Rightarrow> go_error + AEAD" where
  "initial_keys cl secret chlo cert divNonce c s =
     keyDerivation cl False secret (csc_nonc c) (csc_connID c) chlo (ServerConfig_Get (css_scfg s)) cert divNonce"

definition final_keys ::
    "crypto_lib \<Rightarrow> u8 list \<Rightarrow> u8 list \<Rightarrow> u8 list \<Rightarrow> u8 list \<Rightarrow> cryptoSetupClient \<Rightarrow> cryptoSetupServer \<Rightarrow> Perspective \<Rightarrow> go_error + AEAD" where
  "final_keys cl secret chlo cert serverNonce c s =
     keyDerivation cl True secret (csc_nonc c @ serverNonce) (csc_connID c) chlo (ServerConfig_Get (css_scfg s)) cert []"

lemma server_answers:
  assumes cr: "crypto_ok cl" and ready: "client_ready cl cm sv cert c s" and sready: "server_ready cl env c s"
    and sc: "csc_serverConfig c = Some sc" and config: "config_of (cl_curve cl) (css_scfg s) sc"
    and chlo: "client_loop_top cl cm c = (Inr chlo, c1)"
    and nonces: "sn_serverNonce env = Some serverNonce" "sn_divNonce env = Some divNonce"
    and keys: "initial_keys cl (scc_sharedSecret sc) chlo cert divNonce c s PerspectiveServer = Inr secure"
      "CalculateSharedKey (cl_curve cl) (sn_ephermalKex env) (kx_public (scc_kex sc)) = Inr secret"
      "final_keys cl secret chlo cert serverNonce c s PerspectiveServer = Inr fs"
  shows "\<exists>cp hello s1. server_HandleCryptoStream cl sv env chlo s = (Inr (True, written (HandshakeMessage_Write
        (SHLO_message hello (kx_public (sn_ephermalKex env)) serverNonce (css_supportedVersions s)))), [], s1) \<and>
    cp_GetHelloMap cp = Inr hello \<and> css_diversificationNonce s1 = divNonce \<and> css_sentSHLO s1 \<and>
    css_aeads s1 = (css_aeads s)\<lparr>ae_secure := Some secure, ae_forwardSecure := Some fs\<rparr>"
proof -
  note r = ready [unfolded client_ready_def] and sr = sready [unfolded server_ready_def]
  have chlo': "chlo = written (HandshakeMessage_Write \<lparr> hm_Tag = TagCHLO, hm_Data = addPadding (config_tags c (base_tags cm c)) \<rparr>)"
    using chlo client_sends_CHLO [OF ready] by (simp add: Let_def)
  obtain d where d: "ParseHandshakeMessage chlo = Inr (\<lparr> hm_Tag = TagCHLO, hm_Data = d \<rparr>, [])"
    "map_of d TagFHL2 = None" "map_of d TagNSTP = None" "map_of d TagSNI = Some (csc_hostname c)"
    "map_of d TagVER = Some (le_bytes 4 (VersionNumberToTag (csc_version c)))"
    "map_of d TagPUBS = Some (kx_public (scc_kex sc))" "map_of d TagSCID = Some (scc_ID sc)"
    "map_of d TagXLCT = Some (le_bytes 8 (fnv64a cert))" "tag_get d TagSTK = csc_stk c"
    "map_of d TagNONC = Some (csc_nonc c)" "map_of d TagAEAD = Some AESG" "map_of d TagKEXS = Some C255"
    "\<And>t v. map_of d t = Some v \<Longrightarrow> hello_tag t \<or> t = TagTCID \<Longrightarrow> length v = 4"
    by (rule CHLO_read [OF ready sc chlo']) blast
  note get = d(4,5,6,7,10,11,12) [THEN tag_get_Some]
  have ver: "VersionTagToNumber (VersionNumberToTag (csc_version c)) = css_version s"
    using sr VersionNumberToTag_roundtrip [of "csc_version c"] by simp
  have check: "check_CHLO d s = Inr (csc_hostname c)"
    using r by (simp add: check_CHLO_def d(2-5) get Let_def le_val_4 ver del: le_bytes.simps crypto_tag_values)
  have full: "\<not> isInchoateCHLO sv d cert s"
    using r config by (simp add: isInchoateCHLO_def d(6-9) config_of_def le_val_8 del: le_bytes.simps crypto_tag_values)
  have nonce: "validateClientNonce (csc_nonc c) h = None" if "css_scfg h = css_scfg s" for h
    using r that by (simp add: validateClientNonce_def)
  have secret: "CalculateSharedKey (cl_curve cl) (sc_kex (css_scfg s)) (kx_public (scc_kex sc)) = Inr (scc_sharedSecret sc)"
    using CalculateSharedKey_agree [of "cl_curve cl" "sc_kex (css_scfg s)" "scc_kex sc"] cr sr config
    by (auto simp: crypto_ok_def config_of_def)
  obtain cp where cp: "SetFromMap d (css_connectionParameters s) = (None, cp)"
    using SetFromMap_lengths [of "css_connectionParameters s" d] sr d(13) by blast
  obtain hello where hello: "cp_GetHelloMap cp = Inr hello" by (simp add: cp_GetHelloMap_eq)
  have connID: "css_connID s = csc_connID c" using sr by simp
  let ?reply = "written (HandshakeMessage_Write (SHLO_message hello (kx_public (sn_ephermalKex env)) serverNonce (css_supportedVersions s)))"
  define h1 where "h1 = s\<lparr>css_diversificationNonce := divNonce\<rparr>"
  define h2 where "h2 = (set_secure (Some secure) h1)\<lparr>css_aeadChanged := css_aeadChanged h1 @ [EncryptionSecure]\<rparr>"
  define h3 where "h3 = set_forwardSecure (Some fs) h2"
  define s1 where "s1 = h3\<lparr>css_connectionParameters := cp, css_aeadChanged := css_aeadChanged h3 @ [EncryptionForwardSecure],
    css_sentSHLO := True\<rparr>"
  have h: "css_connectionParameters h3 = css_connectionParameters s" "css_supportedVersions h3 = css_supportedVersions s"
    by (simp_all add: h3_def h2_def h1_def set_forwardSecure_def set_secure_def)
  have reply: "handleCHLO_reply (kx_public (sn_ephermalKex env)) serverNonce d h3 = (Inr ?reply, h3\<lparr>css_connectionParameters := cp\<rparr>)"
    unfolding handleCHLO_reply_def h cp Let_def prod.case option.case hello on_ok_simps by simp
  have key: "keyDerivation cl False (scc_sharedSecret sc) (csc_nonc c) (css_connID h1) chlo (ServerConfig_Get (css_scfg h1)) cert divNonce
      PerspectiveServer = Inr secure"
    "keyDerivation cl True secret (csc_nonc c @ serverNonce) (css_connID h1) chlo (ServerConfig_Get (css_scfg h1)) cert []
      PerspectiveServer = Inr fs"
    using keys connID by (simp_all add: initial_keys_def final_keys_def h1_def)
  have "handleCHLO_keys cl env chlo d (scc_sharedSecret sc) cert serverNonce divNonce h1 = (Inr ?reply, h3\<lparr>css_connectionParameters := cp\<rparr>)"
    unfolding handleCHLO_keys_def Let_def get key on_ok_simps h2_def [symmetric] keys(2) h3_def [symmetric] by (rule reply)
  then have "handleCHLO cl sv env (csc_hostname c) chlo d s = (Inr ?reply, h3\<lparr>css_connectionParameters := cp\<rparr>)"
    using r by (simp add: handleCHLO_def Let_def get secret nonces of_rand_def nonce h1_def del: crypto_tag_values)
  then have run: "server_HandleCryptoStream cl sv env chlo s = (Inr (True, ?reply), [], s1)"
    using full r by (simp add: server_HandleCryptoStream_def d(1) server_handleMessage_def check server_answer_def s1_def)
  have "css_diversificationNonce s1 = divNonce" "css_sentSHLO s1"
    "css_aeads s1 = (css_aeads s)\<lparr>ae_secure := Some secure, ae_forwardSecure := Some fs\<rparr>"
    by (simp_all add: s1_def h3_def h2_def h1_def set_forwardSecure_def set_secure_def)
  with run hello show ?thesis by blast
qed

subsection \<open>The versions\<close>

text \<open>How a version of the server's list looks to the client.\<close>

definition version_seen :: "VersionNumber \<Rightarrow> VersionNumber" where
  "version_seen v = (if IsSupportedVersion SupportedVersions v then v else VersionUnsupported)"

lemma length_version_list: "length (version_list vs) = 4 * length vs"
  by (induction vs) (simp_all add: version_list_def del: le_bytes.simps)

lemma validate_versions_list:
  assumes "\<forall>v\<in>set vs. 0 \<le> v \<and> v < 1000" "length ns = length vs"
  shows "validate_versions ns (version_list vs) \<longleftrightarrow> ns = map version_seen vs"
  using assms(2,1)
proof (induction ns vs rule: list_induct2)
  case Nil
  then show ?case by simp
next
  case (Cons n ns v vs)
  have "le_ReadUint32 (version_list (v # vs)) = Inr (VersionNumberToTag v, version_list vs)"
    using le_read_bytes'(2) [of "le_bytes 4 (VersionNumberToTag v)" "version_list vs"]
    by (simp add: version_list_def le_val_full del: le_bytes.simps)
  moreover have "VersionTagToNumber (VersionNumberToTag v) = v" using Cons.prems VersionNumberToTag_roundtrip by simp
  ultimately show ?case using Cons by (auto simp: Let_def version_seen_def)
qed

lemma validateVersionList_iff:
  assumes "\<forall>v\<in>set vs. 0 \<le> v \<and> v < 1000"
  shows "validateVersionList (version_list vs) h \<longleftrightarrow>
    csc_negotiatedVersions h = [] \<or> csc_negotiatedVersions h = map version_seen vs"
  using validate_versions_list [OF assms, of "csc_negotiatedVersions h"]
  by (auto simp: validateVersionList_def Let_def length_version_list)

subsection \<open>The client derives the keys\<close>

lemma SHLO_read:
  assumes hello: "cp_GetHelloMap cp = Inr hello" and len: "length pub = 32" "length serverNonce = 32" "length vs \<le> 1000"
  obtains d where "ParseHandshakeMessage (written (HandshakeMessage_Write (SHLO_message hello pub serverNonce vs))) =
      Inr (\<lparr> hm_Tag = TagSHLO, hm_Data = d \<rparr>, [])"
    "map_of d TagSNO = Some serverNonce" "map_of d TagPUBS = Some pub" "map_of d TagVER = Some (version_list vs)"
    "\<And>t v. map_of d t = Some v \<Longrightarrow> hello_tag t \<or> t = TagTCID \<Longrightarrow> length v = 4"
proof -
  let ?m = "SHLO_message hello pub serverNonce vs"
  have "tags_ok (Suc (Suc (Suc 5))) (hm_Data ?m)"
    unfolding SHLO_message_def set_tag_def [symmetric] HandshakeMessage.simps
    by (intro tags_ok_set hello_tags_ok [OF hello]) (use len in \<open>simp_all add: length_version_list\<close>)
  then have valid: "HandshakeMessage_valid ?m" by (auto simp: HandshakeMessage_valid_def tags_ok_def)
  define d where "d = lookup_all (hm_Data ?m) (getTagsSorted ?m)"
  have l: "map_of d t = (if t = TagVER then Some (version_list vs) else if t = TagSNO then Some serverNonce
      else if t = TagPUBS then Some pub else map_of hello t)" for t
    unfolding d_def lookup_sorted by (simp add: SHLO_message_def update_conv')
  have "length v = 4" if "map_of d t = Some v" "hello_tag t \<or> t = TagTCID" for t v
    using that hello by (auto simp: l hello_tag_def cp_GetHelloMap_eq simp del: le_bytes.simps split: if_splits)
  then show thesis
    using that [of d] HandshakeMessage_written(1) [OF valid, of "[]"] l by (simp add: d_def SHLO_message_def)
qed

lemma client_takes_divNonce:
  assumes ready: "client_ready cl cm sv cert c s" and sc: "csc_serverConfig c = Some sc" and config: "config_of (cl_curve cl) (css_scfg s) sc"
    and chlo: "client_loop_top cl cm c = (Inr chlo, c1)" and d: "divNonce \<noteq> []"
    and secret: "scc_sharedSecret sc \<noteq> []" and key: "initial_keys cl (scc_sharedSecret sc) chlo cert divNonce c s PerspectiveClient = Inr a"
  shows "client_turn cl cm cenv (DivNonce divNonce) c1 = (Inr [], (client_set_secure (Some a)
    (c1\<lparr>csc_diversificationNonce := divNonce\<rparr>))\<lparr>csc_aeadChanged := csc_aeadChanged c1 @ [EncryptionSecure]\<rparr>)"
proof -
  note r = ready [unfolded client_ready_def]
  let ?chlo = "written (HandshakeMessage_Write \<lparr> hm_Tag = TagCHLO, hm_Data = addPadding (config_tags c (base_tags cm c)) \<rparr>)"
  have c1: "chlo = ?chlo" "c1 = c\<lparr>csc_clientHelloCounter := csc_clientHelloCounter c + 1, csc_lastSentCHLO := ?chlo\<rparr>"
    using chlo client_sends_CHLO [OF ready] by (auto simp: Let_def)
  have ne: "?chlo \<noteq> []" by (rule written_nonempty)
  let ?c = "c1\<lparr>csc_diversificationNonce := divNonce\<rparr>"
  have f: "csc_serverVerified ?c" "ae_secure (csc_aeads ?c) = None" "csc_serverConfig ?c = Some sc" "csc_nonc ?c = csc_nonc c"
    "csc_lastSentCHLO ?c = chlo" "csc_connID ?c = csc_connID c" "csc_diversificationNonce ?c = divNonce" "csc_chain ?c = csc_chain c"
    "csc_sno ?c = None" "csc_aeadChanged ?c = csc_aeadChanged c1"
    using r sc c1 by simp_all
  have leaf: "leaf_bytes ?c = cert" "sno_bytes ?c = []" using r f(8,9) by (simp_all add: leaf_bytes_def sno_bytes_def)
  have "0 < length (csc_nonc c)" "0 < length cert" "0 < length chlo" using r ne c1(1) by auto
  then have cond: "length (scc_sharedSecret sc) > 0 \<and> length (csc_nonc ?c) > 0 \<and> length (leaf_bytes ?c) > 0 \<and>
    length (csc_diversificationNonce ?c) > 0 \<and> length (csc_lastSentCHLO ?c) > 0"
    using secret d unfolding f leaf by simp
  have k: "keyDerivation cl False (scc_sharedSecret sc) (csc_nonc ?c @ sno_bytes ?c) (csc_connID ?c) (csc_lastSentCHLO ?c)
      (scc_raw sc) (leaf_bytes ?c) (csc_diversificationNonce ?c) PerspectiveClient = Inr a"
    using key config unfolding f leaf by (simp add: initial_keys_def config_of_def)
  have up: "maybeUpgradeCrypto cl ?c = (Inr (), (client_set_secure (Some a) ?c)\<lparr>csc_aeadChanged := csc_aeadChanged c1 @ [EncryptionSecure]\<rparr>)"
    unfolding maybeUpgradeCrypto_def f(2,3) prod.case option.case if_P [OF cond] k on_ok_simps f(10) using f(1) by simp
  have "client_handle cl cm cenv (DivNonce divNonce) c1 = (Inr (), ?c)" using r c1(2) by (simp add: client_handle_def)
  then show ?thesis by (simp add: client_turn_def client_loop_top_def up) (simp add: client_set_secure_def)
qed

lemma client_takes_SHLO:
  assumes c: "csc_serverConfig c = Some sc" "csc_sno c = None" "ae_receivedSecurePacket (csc_aeads c)" "ae_secure (csc_aeads c) \<noteq> None"
      "\<not> cp_flowControlNegotiated (csc_connectionParameters c)"
    and d: "hm_Tag m = TagSHLO" "map_of (hm_Data m) TagSNO = Some serverNonce" "map_of (hm_Data m) TagPUBS = Some pub"
      "map_of (hm_Data m) TagVER = Some (version_list vs)"
      "\<And>t v. map_of (hm_Data m) t = Some v \<Longrightarrow> hello_tag t \<or> t = TagTCID \<Longrightarrow> length v = 4"
    and vs: "\<forall>v\<in>set vs. 0 \<le> v \<and> v < 1000" "csc_negotiatedVersions c = [] \<or> csc_negotiatedVersions c = map version_seen vs"
    and keys: "CalculateSharedKey (cl_curve cl) (scc_kex sc) pub = Inr secret"
      "keyDerivation cl True secret (csc_nonc c @ serverNonce) (csc_connID c) (csc_lastSentCHLO c) (scc_raw sc) (leaf_bytes c) []
        PerspectiveClient = Inr a"
    and first: "\<not> csc_aeadClosed c"
  shows "\<exists>c3. client_turn cl cm cenv (Message m) c = (Inr [], c3) \<and> csc_aeads c3 = (csc_aeads c)\<lparr>ae_forwardSecure := Some a\<rparr> \<and>
    csc_aeadClosed c3 \<and> handleSHLOMessage cl (hm_Data m) c = (Inr (), c3)"
proof -
  define h1 where "h1 = c\<lparr>csc_sno := Some serverNonce\<rparr>"
  define h2 where "h2 = client_set_forwardSecure (Some a) h1"
  obtain cp where cp: "SetFromMap (hm_Data m) (csc_connectionParameters c) = (None, cp)"
    using SetFromMap_lengths [of "csc_connectionParameters c" "hm_Data m"] c(5) d(5) by blast
  have h: "csc_connectionParameters h2 = csc_connectionParameters c" "csc_serverConfig h1 = Some sc" "csc_nonc h1 = csc_nonc c"
    "sno_bytes h1 = serverNonce" "csc_connID h1 = csc_connID c" "csc_lastSentCHLO h1 = csc_lastSentCHLO c" "leaf_bytes h1 = leaf_bytes c"
    by (simp_all add: h2_def h1_def client_set_forwardSecure_def c(1) sno_bytes_def leaf_bytes_def)
  have ver: "validateVersionList (version_list vs) h1" using vs validateVersionList_iff [OF vs(1), of h1] by (simp add: h1_def)
  define h3 where "h3 = h2\<lparr>csc_connectionParameters := cp\<rparr>"
  define h4 where "h4 = h3\<lparr>csc_aeadChanged := csc_aeadChanged h3 @ [EncryptionForwardSecure], csc_aeadClosed := True\<rparr>"
  have open3: "\<not> csc_aeadClosed h3" using first by (simp add: h3_def h2_def h1_def client_set_forwardSecure_def)
  have shlo: "handleSHLOMessage cl (hm_Data m) c = (Inr (), h4)"
    unfolding handleSHLOMessage_def Let_def d(2,3) option.case h1_def [symmetric] tag_get_Some [OF d(4)] h keys on_ok_simps
      h2_def [symmetric] cp prod.case h3_def [symmetric] h4_def
    using c(3) d(4) ver open3 by (simp del: crypto_tag_values)
  have handle: "client_handle cl cm cenv (Message m) c = (Inr (), h4)" by (simp add: client_handle_def d(1) shlo)
  have a4: "csc_aeads h4 = (csc_aeads c)\<lparr>ae_forwardSecure := Some a\<rparr>" "csc_aeadClosed h4"
    by (simp_all add: h4_def h3_def h2_def h1_def client_set_forwardSecure_def)
  obtain b where b: "ae_secure (csc_aeads h4) = Some b" using c(4) a4(1) by auto
  have "maybeUpgradeCrypto cl h4 = (Inr (), h4)" by (simp add: maybeUpgradeCrypto_def b)
  then have "client_turn cl cm cenv (Message m) c = (Inr [], h4)"
    unfolding client_turn_def handle Let_def prod.case on_ok_simps client_loop_top_def by (simp add: b)
  with a4 shlo show ?thesis by blast
qed

subsection \<open>Levels of encryption\<close>

lemma opened_secure:
  assumes "aead_pair a b" "ae_secure h = Some b" "ae_forwardSecure h = None"
  shows "client_Open (se_Seal a src pn ad) pn ad h = (Inr (src, EncryptionSecure), h\<lparr>ae_receivedSecurePacket := True\<rparr>)"
  using assms aead_pair.open_seal [OF assms(1)] by (simp add: client_Open_def open_secure_def)

lemma opened_forwardSecure:
  assumes "aead_pair a b" "ae_forwardSecure h = Some b"
  shows "fst (client_Open (se_Seal a src pn ad) pn ad h) = Inr (src, EncryptionForwardSecure)"
    "fst (server_Open (se_Seal a src pn ad) pn ad h) = Inr (src, EncryptionForwardSecure)"
  using assms aead_pair.open_seal [OF assms(1)] by (simp_all add: client_Open_def server_Open_def)

text \<open>Client and server understand each other with forward-secure keys.\<close>

definition forward_secure :: "aeads \<Rightarrow> aeads \<Rightarrow> bool" where
  "forward_secure c s \<longleftrightarrow>
     (\<exists>a b. client_GetSealer c = (EncryptionForwardSecure, a) \<and> server_GetSealer s = (EncryptionForwardSecure, b) \<and>
        se_Overhead a = 12 \<and> se_Overhead b = 12 \<and> aead_pair a b \<and> aead_pair b a \<and>
        (\<forall>src pn ad. fst (server_Open (se_Seal a src pn ad) pn ad s) = Inr (src, EncryptionForwardSecure)) \<and>
        (\<forall>src pn ad. fst (client_Open (se_Seal b src pn ad) pn ad c) = Inr (src, EncryptionForwardSecure)))"

lemma handshake_last_round:
  assumes cr: "crypto_ok cl" and ready: "client_ready cl cm sv cert c s" and sready: "server_ready cl env c s"
    and vs: "\<forall>v\<in>set (css_supportedVersions s). 0 \<le> v \<and> v < 1000"
      "csc_negotiatedVersions c = [] \<or> csc_negotiatedVersions c = map version_seen (css_supportedVersions s)"
    and fs0: "ae_forwardSecure (csc_aeads c) = None"
  shows "\<exists>chlo c1 shlo s1 c2 m c3.
    client_loop_top cl cm c = (Inr chlo, c1) \<and>
    server_HandleCryptoStream cl sv env chlo s = (Inr (True, shlo), [], s1) \<and>
    client_turn cl cm cenv (DivNonce (css_diversificationNonce s1)) c1 = (Inr [], c2) \<and>
    (\<forall>src pn ad. client_Open (se_Seal (snd (server_GetSealerForCryptoStream (css_aeads s1))) src pn ad) pn ad (csc_aeads c2) =
      (Inr (src, EncryptionSecure), (csc_aeads c2)\<lparr>ae_receivedSecurePacket := True\<rparr>)) \<and>
    ParseHandshakeMessage shlo = Inr (m, []) \<and>
    client_turn cl cm cenv (Message m) (c2\<lparr>csc_aeads := (csc_aeads c2)\<lparr>ae_receivedSecurePacket := True\<rparr>\<rparr>) = (Inr [], c3) \<and>
    css_sentSHLO s1 \<and> csc_aeadClosed c3 \<and> forward_secure (csc_aeads c3) (css_aeads s1)"
proof -
  note r = ready [unfolded client_ready_def] and sr = sready [unfolded server_ready_def]
  obtain sc where sc: "csc_serverConfig c = Some sc" "config_of (cl_curve cl) (css_scfg s) sc" using r by blast
  obtain serverNonce where sn: "sn_serverNonce env = Some serverNonce" "length serverNonce = 32" using sr by blast
  obtain divNonce where dn: "sn_divNonce env = Some divNonce" "length divNonce = 32" using sr by blast
  obtain chlo c1 where chlo: "client_loop_top cl cm c = (Inr chlo, c1)" and
    c1: "c1 = c\<lparr>csc_clientHelloCounter := csc_clientHelloCounter c + 1, csc_lastSentCHLO := chlo\<rparr>"
    using client_sends_CHLO [OF ready] by (auto simp: Let_def)
  have gcm: "gcm_ok (cl_gcm cl)" and curve: "curve_ok (cl_curve cl)" using cr by (simp_all add: crypto_ok_def)
  obtain a1 b1 where k1: "initial_keys cl (scc_sharedSecret sc) chlo cert divNonce c s PerspectiveServer = Inr a1"
    "initial_keys cl (scc_sharedSecret sc) chlo cert divNonce c s PerspectiveClient = Inr b1" "aead_pair a1 b1"
    using DeriveQuicCryptoAESKeys_pair [OF gcm, where p = PerspectiveServer] unfolding initial_keys_def keyDerivation_def
    by (metis other_side_simps(1))
  obtain secret where secret: "CalculateSharedKey (cl_curve cl) (sn_ephermalKex env) (kx_public (scc_kex sc)) = Inr secret"
    "CalculateSharedKey (cl_curve cl) (scc_kex sc) (kx_public (sn_ephermalKex env)) = Inr secret"
    using CalculateSharedKey_agree [OF curve, of "sn_ephermalKex env" "scc_kex sc"] sr sc(2) by (auto simp: config_of_def)
  obtain a2 b2 where k2: "final_keys cl secret chlo cert serverNonce c s PerspectiveServer = Inr a2"
    "final_keys cl secret chlo cert serverNonce c s PerspectiveClient = Inr b2" "aead_pair a2 b2" "aead_pair b2 a2"
    "se_Overhead a2 = 12" "se_Overhead b2 = 12"
    using DeriveQuicCryptoAESKeys_pair [OF gcm, where p = PerspectiveServer] unfolding final_keys_def keyDerivation_def
    by (metis other_side_simps(1))
  obtain cp hello s1 where s1: "server_HandleCryptoStream cl sv env chlo s = (Inr (True, written (HandshakeMessage_Write
        (SHLO_message hello (kx_public (sn_ephermalKex env)) serverNonce (css_supportedVersions s)))), [], s1)"
    "cp_GetHelloMap cp = Inr hello" "css_diversificationNonce s1 = divNonce" "css_sentSHLO s1"
    "css_aeads s1 = (css_aeads s)\<lparr>ae_secure := Some a1, ae_forwardSecure := Some a2\<rparr>"
    using server_answers [OF cr ready sready sc chlo sn(1) dn(1) k1(1) secret(1) k2(1)] by blast
  have ss: "length (scc_sharedSecret sc) = 32"
    using CalculateSharedKey_length [OF curve, of "scc_kex sc" "kx_public (sc_kex (css_scfg s))"] sc(2) by (simp add: config_of_def)
  define c2 where "c2 = (client_set_secure (Some b1) (c1\<lparr>csc_diversificationNonce := divNonce\<rparr>))
    \<lparr>csc_aeadChanged := csc_aeadChanged c1 @ [EncryptionSecure]\<rparr>"
  have turn: "client_turn cl cm cenv (DivNonce divNonce) c1 = (Inr [], c2)"
    unfolding c2_def by (rule client_takes_divNonce [OF ready sc chlo _ _ k1(2)]) (use dn ss in auto)
  have pub: "length (kx_public (sn_ephermalKex env)) = 32" using sr curve by (simp add: kex_ok_def curve_ok_def)
  obtain d where d: "ParseHandshakeMessage (written (HandshakeMessage_Write
        (SHLO_message hello (kx_public (sn_ephermalKex env)) serverNonce (css_supportedVersions s)))) =
      Inr (\<lparr> hm_Tag = TagSHLO, hm_Data = d \<rparr>, [])"
    "map_of d TagSNO = Some serverNonce" "map_of d TagPUBS = Some (kx_public (sn_ephermalKex env))"
    "map_of d TagVER = Some (version_list (css_supportedVersions s))"
    "\<And>t v. map_of d t = Some v \<Longrightarrow> hello_tag t \<or> t = TagTCID \<Longrightarrow> length v = 4"
    using SHLO_read [OF s1(2) pub sn(2), of "css_supportedVersions s"] sr by blast
  let ?m = "\<lparr> hm_Tag = TagSHLO, hm_Data = d \<rparr>"
  let ?c = "c2\<lparr>csc_aeads := (csc_aeads c2)\<lparr>ae_receivedSecurePacket := True\<rparr>\<rparr>"
  have f: "csc_serverConfig ?c = Some sc" "csc_sno ?c = None" "ae_receivedSecurePacket (csc_aeads ?c)" "ae_secure (csc_aeads ?c) \<noteq> None"
    "\<not> cp_flowControlNegotiated (csc_connectionParameters ?c)" "csc_negotiatedVersions ?c = csc_negotiatedVersions c"
    "csc_nonc ?c = csc_nonc c" "csc_connID ?c = csc_connID c" "csc_lastSentCHLO ?c = chlo" "leaf_bytes ?c = cert"
    "\<not> csc_aeadClosed ?c"
    using r sc(1) by (simp_all add: c2_def c1 client_set_secure_def leaf_bytes_def)
  have key: "keyDerivation cl True secret (csc_nonc ?c @ serverNonce) (csc_connID ?c) (csc_lastSentCHLO ?c) (scc_raw sc) (leaf_bytes ?c) []
      PerspectiveClient = Inr b2"
    using k2(2) sc(2) unfolding f(7-10) by (simp add: final_keys_def config_of_def)
  have m: "hm_Tag ?m = TagSHLO" "map_of (hm_Data ?m) TagSNO = Some serverNonce" "map_of (hm_Data ?m) TagPUBS = Some (kx_public (sn_ephermalKex env))"
    "map_of (hm_Data ?m) TagVER = Some (version_list (css_supportedVersions s))"
    "\<And>t v. map_of (hm_Data ?m) t = Some v \<Longrightarrow> hello_tag t \<or> t = TagTCID \<Longrightarrow> length v = 4"
    using d(2-5) by (simp_all only: HandshakeMessage.simps)
  have vs': "csc_negotiatedVersions ?c = [] \<or> csc_negotiatedVersions ?c = map version_seen (css_supportedVersions s)"
    using vs(2) f(6) by simp
  obtain c3 where c3: "client_turn cl cm cenv (Message ?m) ?c = (Inr [], c3)" "csc_aeads c3 = (csc_aeads ?c)\<lparr>ae_forwardSecure := Some b2\<rparr>"
    "csc_aeadClosed c3"
    using client_takes_SHLO [OF f(1-5) m(1-4) _ vs(1) vs' secret(2) key f(11)] m(5) by metis
  have ae: "csc_aeads c2 = (csc_aeads c)\<lparr>ae_secure := Some b1\<rparr>" by (simp add: c2_def c1 client_set_secure_def)
  have crypto: "client_Open (se_Seal (snd (server_GetSealerForCryptoStream (css_aeads s1))) src pn ad) pn ad (csc_aeads c2) =
      (Inr (src, EncryptionSecure), (csc_aeads c2)\<lparr>ae_receivedSecurePacket := True\<rparr>)" for src pn ad
    using opened_secure [OF k1(3)] fs0 ae by (simp add: s1(5) server_GetSealerForCryptoStream_def)
  have "forward_secure (csc_aeads c3) (css_aeads s1)"
    unfolding forward_secure_def
    by (intro exI [of _ b2] exI [of _ a2])
      (use k2 opened_forwardSecure in \<open>simp add: c3(2) s1(5) client_GetSealer_def server_GetSealer_def\<close>)
  then show ?thesis using chlo s1 turn crypto d(1) c3 by blast
qed


text \<open>A version list is accepted only when it is the negotiated one.\<close>

lemma handleSHLOMessage_versions:
  assumes "handleSHLOMessage cl d c = (Inr (), c')"
  shows "\<exists>v. map_of d TagVER = Some v \<and> validateVersionList v c"
proof -
  let ?h = "case map_of d TagSNO of None \<Rightarrow> c | Some sno \<Rightarrow> c\<lparr>csc_sno := Some sno\<rparr>"
  have "csc_negotiatedVersions ?h = csc_negotiatedVersions c" by (simp split: option.split)
  then have same: "validateVersionList v ?h = validateVersionList v c" for v by (simp only: validateVersionList_def)
  obtain v where v: "map_of d TagVER = Some v" "validateVersionList (tag_get d TagVER) ?h"
    using assms unfolding handleSHLOMessage_def Let_def
    by (auto split: if_splits option.splits simp del: crypto_tag_values)
  then show ?thesis by (auto simp: same tag_get_def simp del: crypto_tag_values)
qed

subsection \<open>The levels never fall\<close>

text \<open>What a side goes through: keys are installed, packets are opened or dropped. The list has the levels of the opened packets.\<close>

definition side_Open :: "Perspective \<Rightarrow> u8 list \<Rightarrow> PacketNumber \<Rightarrow> u8 list \<Rightarrow> aeads \<Rightarrow> opened \<times> aeads" where
  "side_Open p src pn ad h =
     (case p of PerspectiveClient \<Rightarrow> client_Open src pn ad h
      | PerspectiveServer \<Rightarrow> (let (r, h1, done) = server_Open src pn ad h in (r, h1)))"

inductive crypto_run :: "Perspective \<Rightarrow> aeads \<Rightarrow> EncryptionLevel list \<Rightarrow> aeads \<Rightarrow> bool" for p h where
  start: "crypto_run p h [] h"
| secure_key: "crypto_run p h ls h1 \<Longrightarrow> crypto_run p h ls (h1\<lparr>ae_secure := Some a\<rparr>)"
| forward_key: "crypto_run p h ls h1 \<Longrightarrow> crypto_run p h ls (h1\<lparr>ae_forwardSecure := Some a\<rparr>)"
| opened: "crypto_run p h ls h1 \<Longrightarrow> side_Open p src pn ad h1 = (Inr (d, l), h2) \<Longrightarrow> crypto_run p h (ls @ [l]) h2"
| dropped: "crypto_run p h ls h1 \<Longrightarrow> side_Open p src pn ad h1 = (Inl e, h2) \<Longrightarrow> crypto_run p h ls h2"

inductive_cases crypto_run_nilE: "crypto_run p h [] h'"

text \<open>The lowest level a side still opens.\<close>

definition level_floor :: "Perspective \<Rightarrow> aeads \<Rightarrow> EncryptionLevel" where
  "level_floor p h =
     (if ae_forwardSecure h \<noteq> None \<and> (p = PerspectiveClient \<or> ae_receivedForwardSecurePacket h) then EncryptionForwardSecure
      else if ae_secure h \<noteq> None \<and> ae_receivedSecurePacket h then EncryptionSecure else EncryptionUnencrypted)"

lemma open_secure_floor:
  assumes "open_secure src pn ad h = (Inr (d, l), h2)"
  shows "(if ae_secure h \<noteq> None \<and> ae_receivedSecurePacket h then EncryptionSecure else EncryptionUnencrypted) \<le> l"
    "l \<le> (if ae_secure h2 \<noteq> None \<and> ae_receivedSecurePacket h2 then EncryptionSecure else EncryptionUnencrypted)"
    "l \<le> EncryptionSecure" "ae_forwardSecure h2 = ae_forwardSecure h"
    "ae_receivedForwardSecurePacket h2 = ae_receivedForwardSecurePacket h"
  using assms
  by (auto simp: open_secure_def open_null_def less_eq_EncryptionLevel_def split: option.splits sum.splits if_splits)

lemma open_secure_dropped: "open_secure src pn ad h = (Inl e, h2) \<Longrightarrow> h2 = h"
  by (auto simp: open_secure_def open_null_def split: option.splits sum.splits if_splits)

lemma side_Open_floor:
  assumes "side_Open p src pn ad h = (Inr (d, l), h2)"
  shows "level_floor p h \<le> l \<and> l \<le> level_floor p h2"
  using assms open_secure_floor [of src pn ad h d l h2]
  by (cases p)
    (auto simp: side_Open_def client_Open_def server_Open_def level_floor_def less_eq_EncryptionLevel_def Let_def case_prod_beta
      prod_eq_iff split: option.splits sum.splits if_splits)

lemma side_Open_dropped: "side_Open p src pn ad h = (Inl e, h2) \<Longrightarrow> h2 = h"
  using open_secure_dropped [of src pn ad h e h2]
  by (cases p)
    (auto simp: side_Open_def client_Open_def server_Open_def Let_def case_prod_beta prod_eq_iff split: option.splits sum.splits if_splits)

lemma level_floor_keys: "level_floor p h \<le> level_floor p (h\<lparr>ae_secure := Some a\<rparr>)" "level_floor p h \<le> level_floor p (h\<lparr>ae_forwardSecure := Some a\<rparr>)"
  by (auto simp: level_floor_def less_eq_EncryptionLevel_def)

lemma crypto_run_levels:
  assumes "crypto_run p h ls h'"
  shows "sorted ls \<and> (\<forall>l\<in>set ls. l \<le> level_floor p h')"
  using assms
proof induction
  case (secure_key ls h1 a)
  then show ?case using level_floor_keys(1) [of p h1 a] by (meson order_trans)
next
  case (forward_key ls h1 a)
  then show ?case using level_floor_keys(2) [of p h1 a] by (meson order_trans)
next
  case (opened ls h1 src pn ad d l h2)
  then show ?case using side_Open_floor [OF opened(2)] by (auto simp: sorted_append intro: order_trans)
qed (auto dest: side_Open_dropped)

subsection \<open>The client gives up\<close>

text \<open>The client's loop over the events it gets, with everything it writes, until an error ends it.\<close>

fun client_turns :: "crypto_lib \<Rightarrow> cert_lib \<Rightarrow> (client_env \<times> client_event) list \<Rightarrow> cryptoSetupClient \<Rightarrow> u8 list list \<times> cryptoSetupClient" where
  "client_turns cl cm [] c = ([], c)"
| "client_turns cl cm ((env, ev) # evs) c =
     (case client_turn cl cm env ev c of
        (Inl e, c1) \<Rightarrow> ([], c1)
      | (Inr b, c1) \<Rightarrow> (let (bs, c2) = client_turns cl cm evs c1 in (b # bs, c2)))"

lemma on_ok_Inr: "on_ok r h f = (Inr b, h') \<longleftrightarrow> (\<exists>x. r = Inr x \<and> f x = (Inr b, h'))"
  by (cases r) auto

lemma generateClientNonce_counter: "generateClientNonce env c = (r, c') \<Longrightarrow> csc_clientHelloCounter c' = csc_clientHelloCounter c"
  by (auto simp: generateClientNonce_def on_ok_def split: if_splits option.splits sum.splits)

lemma REJ_counter:
  "REJ_scfg cl env d c = (r, c') \<Longrightarrow> csc_clientHelloCounter c' = csc_clientHelloCounter c"
  "REJ_cert cm d c = (r, c') \<Longrightarrow> csc_clientHelloCounter c' = csc_clientHelloCounter c"
  "REJ_proof cm c = (r, c') \<Longrightarrow> csc_clientHelloCounter c' = csc_clientHelloCounter c"
  by (auto simp: REJ_scfg_def REJ_cert_def REJ_proof_def on_ok_def Let_def split: if_splits option.splits sum.splits
      dest!: generateClientNonce_counter)

lemma handleREJMessage_counter:
  assumes "handleREJMessage cl cm env d c = (r, c')"
  shows "csc_clientHelloCounter c' = csc_clientHelloCounter c"
proof -
  define h2 where "h2 = (case map_of d TagSNO of None \<Rightarrow> (case map_of d TagSTK of None \<Rightarrow> c | Some stk \<Rightarrow> c\<lparr>csc_stk := stk\<rparr>)
    | Some sno \<Rightarrow> (case map_of d TagSTK of None \<Rightarrow> c | Some stk \<Rightarrow> c\<lparr>csc_stk := stk\<rparr>)\<lparr>csc_sno := Some sno\<rparr>)"
  have h2: "csc_clientHelloCounter h2 = csc_clientHelloCounter c" by (simp add: h2_def split: option.split)
  obtain r3 h3 where h3: "REJ_scfg cl env d h2 = (r3, h3)" by fastforce
  define h4 where "h4 = (case map_of d TagPROF of None \<Rightarrow> h3
    | Some proof \<Rightarrow> h3\<lparr>csc_proof := proof, csc_chloForSignature := csc_lastSentCHLO h3\<rparr>)"
  have h4: "csc_clientHelloCounter h4 = csc_clientHelloCounter h3" by (simp add: h4_def split: option.split)
  obtain r5 h5 where h5: "REJ_cert cm d h4 = (r5, h5)" by fastforce
  have "handleREJMessage cl cm env d c = on_ok r3 h3 (\<lambda>_. on_ok r5 h5 (\<lambda>_. REJ_proof cm h5))"
    unfolding handleREJMessage_def Let_def h2_def [symmetric] h3 prod.case h4_def [symmetric] h5 by (rule refl)
  then show ?thesis using assms h2 h4 REJ_counter(1) [OF h3] REJ_counter(2) [OF h5]
    by (auto simp: on_ok_def split: sum.splits dest: REJ_counter(3) [OF sym])
qed

lemma handleSHLOMessage_counter:
  "handleSHLOMessage cl d c = (r, c') \<Longrightarrow> csc_clientHelloCounter c' = csc_clientHelloCounter c"
  by (auto simp: handleSHLOMessage_def on_ok_def Let_def client_set_forwardSecure_def case_prod_beta
      simp del: crypto_tag_values split: if_splits option.splits sum.splits)

lemma handle_counter: "client_handle cl cm env ev c = (r, c') \<Longrightarrow> csc_clientHelloCounter c' = csc_clientHelloCounter c"
  by (auto simp: client_handle_def split: client_event.splits if_splits dest: handleREJMessage_counter handleSHLOMessage_counter)

lemma maybeUpgradeCrypto_counter: "maybeUpgradeCrypto cl c = (r, c') \<Longrightarrow> csc_clientHelloCounter c' = csc_clientHelloCounter c"
  by (auto simp: maybeUpgradeCrypto_def on_ok_def client_set_secure_def split: if_splits option.splits sum.splits)

lemma client_turn_counter:
  assumes "client_turn cl cm env ev c = (Inr b, c')"
  shows "csc_clientHelloCounter c' = csc_clientHelloCounter c + (if b = [] then 0 else 1) \<and>
    (b \<noteq> [] \<longrightarrow> csc_clientHelloCounter c' \<le> MaxClientHellos)"
proof -
  obtain c1 c2 where c: "client_handle cl cm env ev c = (Inr (), c1)" "maybeUpgradeCrypto cl c1 = (Inr (), c2)"
    and b: "(if ae_secure (csc_aeads c2) = None then sendCHLO cm c2 else (Inr [], c2)) = (Inr b, c')"
    using assms unfolding client_turn_def client_loop_top_def Let_def case_prod_beta on_ok_Inr
    by (metis (full_types) old.unit.exhaust prod.collapse)
  have n: "csc_clientHelloCounter c2 = csc_clientHelloCounter c"
    using handle_counter [OF c(1)] maybeUpgradeCrypto_counter [OF c(2)] by simp
  show ?thesis
  proof (cases "ae_secure (csc_aeads c2) = None")
    case True
    then have "sendCHLO cm c2 = (Inr b, c')" using b by simp
    then show ?thesis using n by (auto simp: sendCHLO_def Let_def on_ok_Inr written_nonempty split: if_splits)
  qed (use b n in auto)
qed

lemma client_turns_counter:
  assumes "client_turns cl cm evs c = (bs, c')" "csc_clientHelloCounter c \<le> MaxClientHellos"
  shows "length (filter (\<lambda>b. b \<noteq> []) bs) + csc_clientHelloCounter c \<le> MaxClientHellos"
  using assms
proof (induction cl cm evs c arbitrary: bs rule: client_turns.induct)
  case (2 cl cm env ev evs c)
  show ?case
  proof (cases "client_turn cl cm env ev c")
    case (Pair r c1)
    show ?thesis
    proof (cases r)
      case (Inl e)
      then show ?thesis using 2 Pair by auto
    next
      case (Inr b)
      note t = client_turn_counter [OF Pair [unfolded Inr]]
      obtain bs' where bs': "client_turns cl cm evs c1 = (bs', c')" "bs = b # bs'"
        using 2(2) Pair Inr by (auto split: prod.splits)
      have "csc_clientHelloCounter c1 \<le> MaxClientHellos" using t 2(3) by (cases "b = []") auto
      then show ?thesis using 2(1) [OF Pair [symmetric] Inr bs'(1)] t bs'(2) by auto
    qed
  qed
qed simp

subsection \<open>The properties\<close>

text \<open>A concrete library, client and server for the witnesses.\<close>

definition byte_at :: "u8 list \<Rightarrow> nat \<Rightarrow> u8" where
  "byte_at xs i = (if i < length xs then xs ! i else 0)"

definition sum_bytes :: "nat \<Rightarrow> u8 list \<Rightarrow> u8 list \<Rightarrow> u8 list" where
  "sum_bytes n a b = map (\<lambda>i. byte_at a i + byte_at b i) [0..<n]"

definition example_gcm :: gcm_lib where
  "example_gcm =
     \<lparr> gcm_Seal = (\<lambda>key nonce src ad. src @ sum_bytes 12 key (sum_bytes 12 nonce ad)),
       gcm_Open = (\<lambda>key nonce c ad.
         if 12 \<le> length c \<and> drop (length c - 12) c = sum_bytes 12 key (sum_bytes 12 nonce ad)
         then Inr (take (length c - 12) c) else Inl (GoErr ''cipher: message authentication failed'')) \<rparr>"

definition example_crypto :: crypto_lib where
  "example_crypto =
     \<lparr> cl_hash128 = (\<lambda>bs. (of_nat (length bs), 0)), cl_kdf = (\<lambda>secret salt info i. sum_list secret + of_nat i),
       cl_gcm = example_gcm, cl_curve = \<lparr> cv_ScalarMult = sum_bytes 32, cv_Base = [9] \<rparr> \<rparr>"

definition example_kex :: "u8 \<Rightarrow> curve25519KEX" where
  "example_kex n = \<lparr> kx_secret = [n], kx_public = sum_bytes 32 [n] [9] \<rparr>"

definition example_scfg :: ServerConfig where
  "example_scfg = \<lparr> sc_kex = example_kex 7, sc_ID = replicate 16 1, sc_obit = replicate 8 2 \<rparr>"

definition example_config :: serverConfigClient where
  "example_config =
     \<lparr> scc_raw = ServerConfig_Get example_scfg, scc_ID = replicate 16 1, scc_obit = replicate 8 2, scc_expiry = MaxExpiry,
       scc_kex = example_kex 5, scc_sharedSecret = sum_bytes 32 [5] (sum_bytes 32 [7] [9]) \<rparr>"

definition example_certs :: cert_lib where
  "example_certs =
     \<lparr> cm_decompress = (\<lambda>c. Inr [c]), cm_Verify = (\<lambda>name chain. None), cm_VerifyServerProof = (\<lambda>proof chlo scfg chain. True),
       cm_CommonHashes = [] \<rparr>"

definition example_server_lib :: server_lib where
  "example_server_lib =
     \<lparr> sv_GetLeafCert = (\<lambda>sni. Inr [3, 4]), sv_SignServerProof = (\<lambda>sni chlo scfg. Inr [1]),
       sv_GetCertsCompressed = (\<lambda>sni a b. Inr [3, 4]), sv_NewToken = Inr [8], sv_DecodeToken = (\<lambda>t. Inr \<lparr> ck_RemoteAddr = [], ck_SentTime = 0 \<rparr>),
       sv_acceptSTK = (\<lambda>c. True) \<rparr>"

definition example_client :: cryptoSetupClient where
  "example_client =
     (NewCryptoSetupClient example_crypto (map of_char ''host'') 5 Version39
        (NewConnectionParamatersManager PerspectiveClient Version39 1000 1000 (30 * Second)) False [Version39])
     \<lparr> csc_serverConfig := Some example_config, csc_chain := [[3, 4]], csc_nonc := replicate 4 0 @ replicate 8 2 @ replicate 20 6,
       csc_serverVerified := True \<rparr>"

definition example_server :: cryptoSetupServer where
  "example_server = NewCryptoSetup example_crypto 5 Version39 example_scfg
     (NewConnectionParamatersManager PerspectiveServer Version39 1000 1000 (30 * Second)) [Version39]"

definition example_server_env :: server_env where
  "example_server_env =
     \<lparr> sn_serverNonce = Some (replicate 32 4), sn_divNonce = Some (replicate 32 5), sn_ephermalKex = example_kex 11 \<rparr>"

lemma sum_bytes_length [simp]: "length (sum_bytes n a b) = n"
  by (simp add: sum_bytes_def)

lemma example_crypto_ok: "crypto_ok example_crypto"
proof -
  have "gcm_ok example_gcm" by (simp add: gcm_ok_def example_gcm_def)
  moreover have "sum_bytes 32 a (sum_bytes 32 b [9]) = sum_bytes 32 b (sum_bytes 32 a [9])" for a b
    by (simp add: sum_bytes_def byte_at_def)
  ultimately show ?thesis by (simp add: crypto_ok_def curve_ok_def example_crypto_def)
qed

lemma example_kex_ok: "kex_ok (cl_curve example_crypto) (example_kex n)"
  by (simp add: kex_ok_def example_crypto_def example_kex_def)

lemma example_client_ready: "client_ready example_crypto example_certs example_server_lib [3, 4] example_client example_server"
proof -
  have "config_of (cl_curve example_crypto) example_scfg example_config"
    using example_kex_ok [of 5]
    by (simp add: config_of_def example_config_def example_scfg_def CalculateSharedKey_def)
      (simp add: example_crypto_def example_kex_def)
  moreover have "client_wf example_certs example_client"
    by (simp add: client_wf_def example_client_def NewCryptoSetupClient_def example_certs_def sno_bytes_def example_config_def
        example_kex_def)
  ultimately show ?thesis
    by (simp add: client_ready_def example_server_def NewCryptoSetup_def)
      (simp add: example_client_def NewCryptoSetupClient_def cm_GetLeafCert_def example_server_lib_def acceptSTK_def DecodeToken_def
        example_scfg_def MaxClientHellos_def aeads_new_def NewConnectionParamatersManager_def)
qed

lemma example_server_ready: "server_ready example_crypto example_server_env example_client example_server"
  by (simp add: server_ready_def example_server_def NewCryptoSetup_def example_server_env_def example_kex_ok example_client_def
      NewCryptoSetupClient_def config_wf_def example_scfg_def example_kex_def NewConnectionParamatersManager_def Version_defs
      kex_ok_def example_crypto_def)

lemmas example_ready = example_crypto_ok example_client_ready example_server_ready

lemma example_versions:
  "\<forall>v\<in>set (css_supportedVersions example_server). 0 \<le> v \<and> v < 1000"
  "csc_negotiatedVersions example_client = map version_seen (css_supportedVersions example_server)"
  "ae_forwardSecure (csc_aeads example_client) = None"
  by (simp_all add: example_server_def NewCryptoSetup_def example_client_def NewCryptoSetupClient_def version_seen_def
      Version_defs SupportedVersions_def IsSupportedVersion_iff aeads_new_def)

text \<open>
  C13. The last round of the handshake ends with both sides on forward-secure keys. When the client knows the server's configuration and
  certificate, it sends a hello the server accepts; the server's reply, sealed with the keys it derived, is opened by the client at the
  secure level as soon as it has the diversification nonce; the reply parses and is accepted, and then either side opens
  what the other one seals, at the forward-secure level.
\<close>
theorem handshake_completes:
  assumes "crypto_ok cl" "client_ready cl cm sv cert c s" "server_ready cl env c s"
    and "\<forall>v\<in>set (css_supportedVersions s). 0 \<le> v \<and> v < 1000"
    and "csc_negotiatedVersions c = [] \<or> csc_negotiatedVersions c = map version_seen (css_supportedVersions s)"
    and "ae_forwardSecure (csc_aeads c) = None"
  shows "\<exists>chlo c1 shlo s1 c2 m c3.
    client_loop_top cl cm c = (Inr chlo, c1) \<and>
    server_HandleCryptoStream cl sv env chlo s = (Inr (True, shlo), [], s1) \<and>
    client_turn cl cm cenv (DivNonce (css_diversificationNonce s1)) c1 = (Inr [], c2) \<and>
    (\<forall>src pn ad. client_Open (se_Seal (snd (server_GetSealerForCryptoStream (css_aeads s1))) src pn ad) pn ad (csc_aeads c2) =
      (Inr (src, EncryptionSecure), (csc_aeads c2)\<lparr>ae_receivedSecurePacket := True\<rparr>)) \<and>
    ParseHandshakeMessage shlo = Inr (m, []) \<and>
    client_turn cl cm cenv (Message m) (c2\<lparr>csc_aeads := (csc_aeads c2)\<lparr>ae_receivedSecurePacket := True\<rparr>\<rparr>) = (Inr [], c3) \<and>
    css_sentSHLO s1 \<and> csc_aeadClosed c3 \<and> forward_secure (csc_aeads c3) (css_aeads s1)"
  by (rule handshake_last_round [OF assms])

theorem handshake_completes_witness:
  "\<exists>chlo c1 shlo s1. client_loop_top example_crypto example_certs example_client = (Inr chlo, c1) \<and>
     server_HandleCryptoStream example_crypto example_server_lib example_server_env chlo example_server = (Inr (True, shlo), [], s1) \<and>
     css_sentSHLO s1"
  using handshake_completes [OF example_ready example_versions(1) _ example_versions(3),
      of "\<lparr> cn_now = 0, cn_nonce = None, cn_kex = None \<rparr>"] example_versions(2)
  by blast

text \<open>
  C16. The level of encryption never falls. Whatever packets arrive and whenever keys are installed, the levels at which a side
  opens packets, one after the other, are sorted: once it has opened a forward-secure packet (a client: once it has the keys),
  no unencrypted or secure packet is taken any more, and none without encryption once a secure one was opened.
\<close>
theorem levels_never_fall:
  assumes "crypto_run p h ls h'"
  shows "sorted ls"
  using crypto_run_levels [OF assms] by blast

theorem levels_never_fall_witness: "sorted [EncryptionUnencrypted, EncryptionSecure, EncryptionForwardSecure]"
proof -
  define a where "a = \<lparr> se_Overhead = 0, se_Seal = (\<lambda>src pn ad. src), ae_Open = (\<lambda>src pn ad. Inr src) \<rparr>"
  define h where "h = \<lparr> ae_null = a, ae_secure = None, ae_forwardSecure = None, ae_receivedSecurePacket = False,
    ae_receivedForwardSecurePacket = False \<rparr>"
  have 1: "crypto_run PerspectiveServer h ([] @ [EncryptionUnencrypted]) h"
    by (rule crypto_run.opened [OF crypto_run.start, where src = "[]" and pn = 0 and ad = "[]"])
      (simp add: side_Open_def server_Open_def open_secure_def open_null_def h_def a_def)
  note 2 = crypto_run.secure_key [OF 1, of a]
  have 3: "crypto_run PerspectiveServer h (([] @ [EncryptionUnencrypted]) @ [EncryptionSecure]) (h\<lparr>ae_secure := Some a, ae_receivedSecurePacket := True\<rparr>)"
    by (rule crypto_run.opened [OF 2, where src = "[]" and pn = 0 and ad = "[]"]) (simp add: side_Open_def server_Open_def open_secure_def h_def a_def)
  note 4 = crypto_run.forward_key [OF 3, of a]
  have "\<exists>h2. crypto_run PerspectiveServer h ((([] @ [EncryptionUnencrypted]) @ [EncryptionSecure]) @ [EncryptionForwardSecure]) h2"
    by (rule exI, rule crypto_run.opened [OF 4, where src = "[]" and pn = 0 and ad = "[]"]) (simp add: side_Open_def server_Open_def h_def a_def)
  then show ?thesis using levels_never_fall by fastforce
qed

text \<open>
  C36. The client gives up: however the server answers, a client that starts writes at most three hellos; with the next reject it
  fails with an error.
\<close>
theorem client_gives_up:
  assumes "client_turns cl cm evs (NewCryptoSetupClient cl name connID v cp trunc vs) = (bs, c')"
  shows "length (filter (\<lambda>b. b \<noteq> []) bs) \<le> 3"
  using client_turns_counter [OF assms] by (simp add: MaxClientHellos_def NewCryptoSetupClient_def)

theorem client_gives_up_witness:
  "\<exists>bs c'. client_turns example_crypto example_certs
      (replicate 2 (\<lparr> cn_now = 0, cn_nonce = None, cn_kex = None \<rparr>, Message \<lparr> hm_Tag = TagREJ, hm_Data = [] \<rparr>))
      (NewCryptoSetupClient example_crypto [] 5 Version39
        (NewConnectionParamatersManager PerspectiveClient Version39 1000 1000 (30 * Second)) False []) = (bs, c') \<and>
     length (filter (\<lambda>b. b \<noteq> []) bs) \<le> 3"
  using client_gives_up by (metis prod.collapse)

end
