(* ===== verification/Client.thy ===== *)
theory Client
  imports Handshake Path
begin

section \<open>The client and its version: \<open>client.go\<close>\<close>

text \<open>
  The client makes a session, gives it the packets it receives, and makes a new one with another version when the server
  does not have the first one. Of a session it is the crypto setup that matters here, beside the address of the server: it is a
  field of the client, and what the client does to the session (close it, give it a packet) is the result of a step.
\<close>

record Config =
  cf_Versions :: "VersionNumber list"
  cf_RequestConnectionIDTruncation :: bool
  cf_HandshakeTimeout :: Duration
  cf_IdleTimeout :: Duration
  cf_MaxReceiveStreamFlowControlWindow :: u64
  cf_MaxReceiveConnectionFlowControlWindow :: u64
  cf_KeepAlive :: bool
  cf_CacheHandshake :: bool
  cf_CreatePaths :: bool

definition DefaultHandshakeTimeout :: Duration where "DefaultHandshakeTimeout = 10 * Second"
definition DefaultIdleTimeout :: Duration where "DefaultIdleTimeout = 30 * Second"
definition DefaultMaxReceiveStreamFlowControlWindowClient :: u64 where
  "DefaultMaxReceiveStreamFlowControlWindowClient = 16 * 2 ^ 20"
definition DefaultMaxReceiveConnectionFlowControlWindowClient :: u64 where
  "DefaultMaxReceiveConnectionFlowControlWindowClient = 24 * 2 ^ 20"

text \<open>\<open>&Config{}\<close>, and the configuration with the defaults for what is not set.\<close>

definition empty_Config :: Config where
  "empty_Config = \<lparr> cf_Versions = [], cf_RequestConnectionIDTruncation = False, cf_HandshakeTimeout = 0, cf_IdleTimeout = 0,
     cf_MaxReceiveStreamFlowControlWindow = 0, cf_MaxReceiveConnectionFlowControlWindow = 0, cf_KeepAlive = False,
     cf_CacheHandshake = False, cf_CreatePaths = False \<rparr>"

definition populateClientConfig :: "Config option \<Rightarrow> Config" where
  "populateClientConfig config =
     (let c = (case config of None \<Rightarrow> empty_Config | Some c \<Rightarrow> c)
      in c\<lparr>cf_Versions := if length (cf_Versions c) = 0 then SupportedVersions else cf_Versions c,
           cf_HandshakeTimeout := if cf_HandshakeTimeout c \<noteq> 0 then cf_HandshakeTimeout c else DefaultHandshakeTimeout,
           cf_IdleTimeout := if cf_IdleTimeout c \<noteq> 0 then cf_IdleTimeout c else DefaultIdleTimeout,
           cf_MaxReceiveStreamFlowControlWindow :=
             if cf_MaxReceiveStreamFlowControlWindow c = 0 then DefaultMaxReceiveStreamFlowControlWindowClient
             else cf_MaxReceiveStreamFlowControlWindow c,
           cf_MaxReceiveConnectionFlowControlWindow :=
             if cf_MaxReceiveConnectionFlowControlWindow c = 0 then DefaultMaxReceiveConnectionFlowControlWindowClient
             else cf_MaxReceiveConnectionFlowControlWindow c\<rparr>)"

record client =
  ct_hostname :: "u8 list"
  ct_versionNegotiated :: bool
  ct_receivedVersionNegotiationPacket :: bool
  ct_config :: Config
  ct_connectionID :: ConnectionID
  ct_version :: VersionNumber
  ct_session :: cryptoSetupClient
  ct_remoteAddr :: net_addr

text \<open>What happens to the session: the old one is closed in the case \<open>NewSession\<close>.\<close>

datatype client_action = Ignored | CloseSession go_error | CloseRemote go_error | NewSession | HandlePacket receivedPacket

text \<open>The crypto setup that \<open>newClientSession\<close> makes, with the parameters of \<open>session.setup\<close>.\<close>

definition newClientSession ::
    "crypto_lib \<Rightarrow> u8 list \<Rightarrow> VersionNumber \<Rightarrow> ConnectionID \<Rightarrow> Config \<Rightarrow> VersionNumber list \<Rightarrow> cryptoSetupClient" where
  "newClientSession cl hostname v connectionID config negotiatedVersions =
     NewCryptoSetupClient cl hostname connectionID v
       (NewConnectionParamatersManager PerspectiveClient v (cf_MaxReceiveStreamFlowControlWindow config)
          (cf_MaxReceiveConnectionFlowControlWindow config) (cf_IdleTimeout config))
       (cf_RequestConnectionIDTruncation config) negotiatedVersions"

definition createNewSession :: "crypto_lib \<Rightarrow> VersionNumber list \<Rightarrow> net_addr \<Rightarrow> client \<Rightarrow> client" where
  "createNewSession cl negotiatedVersions addr c =
     c\<lparr>ct_session := newClientSession cl (ct_hostname c) (ct_version c) (ct_connectionID c) (ct_config c) negotiatedVersions,
       ct_remoteAddr := addr\<rparr>"

text \<open>The client as \<open>DialNonFWSecure\<close> begins, with the first of its versions; the connection ID is random.\<close>

definition DialNonFWSecure :: "crypto_lib \<Rightarrow> Config option \<Rightarrow> u8 list \<Rightarrow> ConnectionID \<Rightarrow> net_addr \<Rightarrow> client" where
  "DialNonFWSecure cl config hostname connID addr =
     (let clientConfig = populateClientConfig config; v = hd (cf_Versions clientConfig)
      in createNewSession cl [] addr
           \<lparr> ct_hostname = hostname, ct_versionNegotiated = False, ct_receivedVersionNegotiationPacket = False,
             ct_config = clientConfig, ct_connectionID = connID, ct_version = v,
             ct_session = newClientSession cl hostname v connID clientConfig [], ct_remoteAddr = addr \<rparr>)"

text \<open>\<open>rand\<close> are eight random bytes, if there are any; without them the connection ID is 0 and the old session stays.\<close>

definition handlePacketWithVersionFlag ::
    "crypto_lib \<Rightarrow> u8 list option \<Rightarrow> PublicHeader \<Rightarrow> net_addr \<Rightarrow> client \<Rightarrow> client_action \<times> client" where
  "handlePacketWithVersionFlag cl rand hdr addr c =
     (if ct_version c \<in> set (ph_SupportedVersions hdr) then (Ignored, c)
      else let c1 = c\<lparr>ct_receivedVersionNegotiationPacket := True\<rparr>;
               newVersion = ChooseSupportedVersion (cf_Versions (ct_config c1)) (ph_SupportedVersions hdr)
      in if newVersion = VersionUnsupported then (CloseSession (QErr ''InvalidVersion''), c1)
      else case of_rand rand of
        Inl e \<Rightarrow> (CloseSession e, c1\<lparr>ct_version := newVersion, ct_connectionID := 0\<rparr>)
      | Inr bs \<Rightarrow> (NewSession, createNewSession cl (ph_SupportedVersions hdr) addr
          (c1\<lparr>ct_version := newVersion, ct_connectionID := le_val bs\<rparr>)))"

definition client_handlePacket ::
    "crypto_lib \<Rightarrow> u8 list option \<Rightarrow> int option \<Rightarrow> net_addr \<Rightarrow> u8 list \<Rightarrow> client \<Rightarrow> client_action \<times> client" where
  "client_handlePacket cl rand rcvTime addr packet c =
     (case ParsePublicHeader PerspectiveServer (ct_version c) packet of
        Inl e \<Rightarrow> (Ignored, c)
      | Inr (hdr0, r) \<Rightarrow>
          let hdr = hdr0\<lparr>ph_Raw := take (length packet - length r) packet\<rparr>
          in if ph_TruncateConnectionID hdr \<and> \<not> cf_RequestConnectionIDTruncation (ct_config c) then (Ignored, c)
          else if \<not> ph_TruncateConnectionID hdr \<and> ph_ConnectionID hdr \<noteq> ct_connectionID c then (Ignored, c)
          else if ph_ResetFlag hdr
          then if ct_remoteAddr c \<noteq> addr \<or> ph_ConnectionID hdr \<noteq> ct_connectionID c then (Ignored, c)
               else case ParsePublicReset r of
                 Inl e \<Rightarrow> (Ignored, c)
               | Inr pr \<Rightarrow> (CloseRemote (QErr ''PublicReset''), c)
          else if (ct_receivedVersionNegotiationPacket c \<or> ct_versionNegotiated c) \<and> ph_VersionFlag hdr then (Ignored, c)
          else let c1 = (if \<not> ph_VersionFlag hdr \<and> \<not> ct_versionNegotiated c then c\<lparr>ct_versionNegotiated := True\<rparr> else c)
          in if ph_VersionFlag hdr then handlePacketWithVersionFlag cl rand hdr addr c1
             else (HandlePacket \<lparr> rc_remoteAddr = addr, rc_publicHeader = hdr, rc_data = r, rc_rcvTime = rcvTime \<rparr>, c1))"

section \<open>Runs of a client\<close>

text \<open>
  Whatever datagrams arrive, from the server or from anyone else; the goroutine of the handshake takes its steps in between, with
  whatever messages it reads, and packets that are opened change the keys of the session in any way.
\<close>

inductive client_run :: "crypto_lib \<Rightarrow> cert_lib \<Rightarrow> Config option \<Rightarrow> client \<Rightarrow> bool" for cl cm config where
  cr_dial: "client_run cl cm config (DialNonFWSecure cl config hostname connID addr)"
| cr_packet: "client_run cl cm config c \<Longrightarrow> client_handlePacket cl rand rcvTime addr packet c = (a, c') \<Longrightarrow>
    client_run cl cm config c'"
| cr_top: "client_run cl cm config c \<Longrightarrow> client_loop_top cl cm (ct_session c) = (r, s) \<Longrightarrow>
    client_run cl cm config (c\<lparr>ct_session := s\<rparr>)"
| cr_event: "client_run cl cm config c \<Longrightarrow> client_handle cl cm env ev (ct_session c) = (r, s) \<Longrightarrow>
    client_run cl cm config (c\<lparr>ct_session := s\<rparr>)"
| cr_aeads: "client_run cl cm config c \<Longrightarrow>
    client_run cl cm config (c\<lparr>ct_session := (ct_session c)\<lparr>csc_aeads := a\<rparr>\<rparr>)"

subsection \<open>The handshake keeps the versions\<close>

definition same_versions :: "cryptoSetupClient \<Rightarrow> cryptoSetupClient \<Rightarrow> bool" where
  "same_versions c c' \<longleftrightarrow> csc_version c' = csc_version c \<and> csc_negotiatedVersions c' = csc_negotiatedVersions c"

lemma same_versions_simps [simp]:
  "same_versions c c" "same_versions c (c'\<lparr>csc_stk := x1\<rparr>) = same_versions c c'" "same_versions c (c'\<lparr>csc_sno := x2\<rparr>) = same_versions c c'"
  "same_versions c (c'\<lparr>csc_serverConfig := x3\<rparr>) = same_versions c c'" "same_versions c (c'\<lparr>csc_nonc := x4\<rparr>) = same_versions c c'"
  "same_versions c (c'\<lparr>csc_proof := x5\<rparr>) = same_versions c c'" "same_versions c (c'\<lparr>csc_chloForSignature := x6\<rparr>) = same_versions c c'"
  "same_versions c (c'\<lparr>csc_chain := x7\<rparr>) = same_versions c c'" "same_versions c (c'\<lparr>csc_serverVerified := x8\<rparr>) = same_versions c c'"
  "same_versions c (c'\<lparr>csc_aeads := x9\<rparr>) = same_versions c c'" "same_versions c (c'\<lparr>csc_aeadChanged := x10\<rparr>) = same_versions c c'"
  "same_versions c (c'\<lparr>csc_aeadClosed := x11\<rparr>) = same_versions c c'" "same_versions c (c'\<lparr>csc_connectionParameters := x12\<rparr>) = same_versions c c'"
  "same_versions c (c'\<lparr>csc_lastSentCHLO := x13\<rparr>) = same_versions c c'" "same_versions c (c'\<lparr>csc_clientHelloCounter := x14\<rparr>) = same_versions c c'"
  "same_versions c (c'\<lparr>csc_diversificationNonce := x15\<rparr>) = same_versions c c'"
  by (simp_all add: same_versions_def)

lemma same_versions_trans: "same_versions a b \<Longrightarrow> same_versions b c \<Longrightarrow> same_versions a c"
  by (simp add: same_versions_def)

lemma on_ok_same: "same_versions c h \<Longrightarrow> (\<And>x. same_versions c (snd (f x))) \<Longrightarrow> same_versions c (snd (on_ok r h f))"
  by (cases r) simp_all

lemma generateClientNonce_same: "same_versions c (snd (generateClientNonce env c))"
  by (auto simp: generateClientNonce_def intro!: on_ok_same split: option.split)

lemma REJ_scfg_same: "same_versions c (snd (REJ_scfg cl env d c))"
proof -
  have "same_versions c (snd (generateClientNonce env (c\<lparr>csc_serverConfig := x\<rparr>)))" for x
    by (rule same_versions_trans [OF _ generateClientNonce_same]) simp
  then show ?thesis by (auto simp: REJ_scfg_def Let_def intro!: on_ok_same split: option.split)
qed

lemma REJ_cert_same: "same_versions c (snd (REJ_cert cm d c))"
  by (auto simp: REJ_cert_def Let_def split: option.split sum.split)

lemma REJ_proof_same: "same_versions c (snd (REJ_proof cm c))"
  by (auto simp: REJ_proof_def split: option.split)

lemma handleREJMessage_same: "same_versions c (snd (handleREJMessage cl cm env d c))"
  unfolding handleREJMessage_def Let_def case_prod_beta
  by (intro on_ok_same same_versions_trans [OF _ REJ_proof_same] same_versions_trans [OF _ REJ_cert_same])
    (auto intro: same_versions_trans [OF _ REJ_scfg_same] split: option.split)

lemma handleSHLOMessage_same: "same_versions c (snd (handleSHLOMessage cl d c))"
  by (auto simp: handleSHLOMessage_def Let_def case_prod_beta client_set_forwardSecure_def simp del: crypto_tag_values
      intro!: on_ok_same split: option.split)

lemma client_handle_same: "same_versions c (snd (client_handle cl cm env ev c))"
  by (auto simp: client_handle_def intro: handleREJMessage_same handleSHLOMessage_same split: client_event.split)

lemma client_loop_top_same: "same_versions c (snd (client_loop_top cl cm c))"
proof -
  have "same_versions c (snd (maybeUpgradeCrypto cl c))"
    by (auto simp: maybeUpgradeCrypto_def client_set_secure_def intro!: on_ok_same split: option.split)
  moreover have "same_versions h (snd (sendCHLO cm h))" for h by (auto simp: sendCHLO_def Let_def intro!: on_ok_same)
  ultimately show ?thesis
    unfolding client_loop_top_def Let_def case_prod_beta by (auto intro!: on_ok_same intro: same_versions_trans)
qed

subsection \<open>The version of a session\<close>

lemma ChooseSupportedVersion_first:
  assumes "ChooseSupportedVersion ours theirs = v" "v \<noteq> VersionUnsupported"
  shows "v \<in> set ours" "v \<in> set theirs" "\<forall>w\<in>set (takeWhile (\<lambda>w. w \<noteq> v) ours). w \<notin> set theirs"
  using assms by (induction ours) (auto split: if_splits)

text \<open>Its session has the first version, or the first one that a version negotiation packet had.\<close>

definition versions_inv :: "client \<Rightarrow> bool" where
  "versions_inv c \<longleftrightarrow>
     (let vs = cf_Versions (ct_config c); s = ct_session c in
      vs \<noteq> [] \<and>
      (csc_negotiatedVersions s = [] \<and> csc_version s = hd vs \<or>
       csc_negotiatedVersions s \<noteq> [] \<and> csc_version s \<noteq> VersionUnsupported \<and>
       csc_version s = ChooseSupportedVersion vs (csc_negotiatedVersions s)))"

lemma versions_inv_session: "versions_inv c \<Longrightarrow> same_versions (ct_session c) s \<Longrightarrow> versions_inv (c\<lparr>ct_session := s\<rparr>)"
  by (auto simp: versions_inv_def same_versions_def Let_def)

lemma newClientSession_versions:
  "csc_version (newClientSession cl h v i cfg vs) = v" "csc_negotiatedVersions (newClientSession cl h v i cfg vs) = vs"
  by (simp_all add: newClientSession_def NewCryptoSetupClient_def)

lemma handlePacketWithVersionFlag_inv:
  assumes "versions_inv c" "handlePacketWithVersionFlag cl rand hdr addr c = (a, c')"
  shows "versions_inv c' \<and> ct_config c' = ct_config c"
proof -
  let ?vs = "cf_Versions (ct_config c)"
  have "ph_SupportedVersions hdr \<noteq> []" if "ChooseSupportedVersion ?vs (ph_SupportedVersions hdr) \<noteq> VersionUnsupported"
    using ChooseSupportedVersion_first(2) [OF refl that] by auto
  then show ?thesis
    using assms by (auto simp: handlePacketWithVersionFlag_def Let_def createNewSession_def versions_inv_def newClientSession_versions
        split: if_splits sum.splits)
qed

lemma client_handlePacket_inv:
  assumes "versions_inv c" "client_handlePacket cl rand t addr packet c = (a, c')"
  shows "versions_inv c' \<and> ct_config c' = ct_config c"
proof -
  have "versions_inv (c\<lparr>ct_versionNegotiated := True\<rparr>)" using assms(1) by (simp add: versions_inv_def)
  moreover have "c' = c \<or> c' = c\<lparr>ct_versionNegotiated := True\<rparr> \<or> (\<exists>hdr. handlePacketWithVersionFlag cl rand hdr addr c = (a, c'))"
    using assms(2) unfolding client_handlePacket_def Let_def by (auto split: sum.splits prod.splits if_splits)
  ultimately show ?thesis using assms(1) handlePacketWithVersionFlag_inv by auto
qed

lemma client_run_inv:
  assumes "client_run cl cm config c"
  shows "versions_inv c \<and> ct_config c = populateClientConfig config"
  using assms
proof induction
  case (cr_dial hostname connID addr)
  have "cf_Versions (populateClientConfig config) \<noteq> []" by (simp add: populateClientConfig_def Let_def SupportedVersions_def)
  then show ?case
    by (simp add: DialNonFWSecure_def Let_def createNewSession_def versions_inv_def newClientSession_versions)
next
  case (cr_packet c rand rcvTime addr packet a c')
  then show ?case using client_handlePacket_inv [OF _ cr_packet.hyps(2)] by simp
next
  case (cr_top c r s)
  have "same_versions (ct_session c) s" using client_loop_top_same [of "ct_session c" cl cm] cr_top.hyps(2) by simp
  then show ?case using versions_inv_session cr_top.IH by simp
next
  case (cr_event c env ev r s)
  have "same_versions (ct_session c) s" using client_handle_same [of "ct_session c" cl cm env ev] cr_event.hyps(2) by simp
  then show ?case using versions_inv_session cr_event.IH by simp
next
  case (cr_aeads c a)
  then show ?case using versions_inv_session [of c] by simp
qed

section \<open>No downgrade\<close>

text \<open>The server's hello is accepted by a client that knows the configuration of the server of the examples.\<close>

lemma example_SHLO:
  assumes c: "csc_serverConfig c = Some sc" "config_of (cl_curve example_crypto) example_scfg sc" "csc_sno c = None"
      "ae_receivedSecurePacket (csc_aeads c)" "ae_secure (csc_aeads c) \<noteq> None" "\<not> cp_flowControlNegotiated (csc_connectionParameters c)"
      "\<not> csc_aeadClosed c"
    and v: "csc_negotiatedVersions c = [] \<or> csc_negotiatedVersions c = map version_seen [v]" "0 \<le> v" "v < 1000"
  shows "\<exists>d c'. handleSHLOMessage example_crypto d c = (Inr (), c') \<and> map_of d TagVER = Some (version_list [v])"
proof -
  obtain hello where hello: "cp_GetHelloMap (css_connectionParameters example_server) = Inr hello" by (simp add: cp_GetHelloMap_eq)
  obtain d where d: "map_of d TagSNO = Some (replicate 32 0)" "map_of d TagPUBS = Some (replicate 32 0)"
    "map_of d TagVER = Some (version_list [v])"
    "\<And>t v. map_of d t = Some v \<Longrightarrow> hello_tag t \<or> t = TagTCID \<Longrightarrow> length v = 4"
    by (rule SHLO_read [OF hello, of "replicate 32 0" "replicate 32 0" "[v]"]) (simp_all only: length_replicate, simp)
  have secret: "CalculateSharedKey (cl_curve example_crypto) (scc_kex sc) (replicate 32 0) =
      Inr (cv_ScalarMult (cl_curve example_crypto) (kx_secret (scc_kex sc)) (replicate 32 0))"
    by (simp add: CalculateSharedKey_def)
  obtain k where key: "keyDerivation example_crypto True (cv_ScalarMult (cl_curve example_crypto) (kx_secret (scc_kex sc)) (replicate 32 0))
      (csc_nonc c @ replicate 32 0) (csc_connID c) (csc_lastSentCHLO c) (scc_raw sc) (leaf_bytes c) [] PerspectiveClient = Inr k"
    using DeriveQuicCryptoAESKeys_pair example_crypto_ok unfolding crypto_ok_def keyDerivation_def by blast
  let ?m = "\<lparr> hm_Tag = TagSHLO, hm_Data = d \<rparr>"
  have m: "hm_Tag ?m = TagSHLO" "map_of (hm_Data ?m) TagSNO = Some (replicate 32 0)" "map_of (hm_Data ?m) TagPUBS = Some (replicate 32 0)"
    "map_of (hm_Data ?m) TagVER = Some (version_list [v])"
    "\<And>t v. map_of (hm_Data ?m) t = Some v \<Longrightarrow> hello_tag t \<or> t = TagTCID \<Longrightarrow> length v = 4"
    using d by (simp_all only: HandshakeMessage.simps)
  have vs: "\<forall>v\<in>set [v]. 0 \<le> v \<and> v < 1000" using v by simp
  have "\<exists>c3. handleSHLOMessage example_crypto (hm_Data ?m) c = (Inr (), c3)"
    using client_takes_SHLO [OF c(1,3-6) m(1-4) _ vs v(1) secret key c(7)] m(5) by metis
  then show ?thesis using d(3) by auto
qed

text \<open>
  C20. No downgrade. Whatever packets an attacker puts in between, also in the version negotiation, and whatever the handshake goes
  through: when a client accepts a server hello that has the versions of the server (the hello is authenticated, so they
  are the server's own), then the version of the session is one of the client's versions, no version the client prefers to it is
  one of the server's, and it is one of the server's unless it is the client's first choice, which was not negotiated.
\<close>
theorem no_downgrade:
  assumes "client_run cl cm config c" "set (cf_Versions (ct_config c)) \<subseteq> set SupportedVersions"
    and "handleSHLOMessage cl d (ct_session c) = (Inr (), s)"
    and "map_of d TagVER = Some (version_list vs)" "\<forall>v\<in>set vs. 0 \<le> v \<and> v < 1000"
  shows "csc_version s \<in> set (cf_Versions (ct_config c)) \<and>
    (\<forall>v\<in>set (takeWhile (\<lambda>v. v \<noteq> csc_version s) (cf_Versions (ct_config c))). v \<notin> set vs) \<and>
    (csc_version s \<in> set vs \<or> csc_version s = hd (cf_Versions (ct_config c)))"
proof -
  let ?vs = "cf_Versions (ct_config c)" and ?c = "ct_session c"
  have inv: "versions_inv c" using client_run_inv [OF assms(1)] by simp
  have ver: "csc_version s = csc_version ?c"
    using handleSHLOMessage_same [of ?c cl d] assms(3) by (simp add: same_versions_def)
  have ok: "csc_negotiatedVersions ?c = [] \<or> csc_negotiatedVersions ?c = map version_seen vs"
    using handleSHLOMessage_versions [OF assms(3)] assms(4) validateVersionList_iff [OF assms(5), of ?c] by auto
  show ?thesis
  proof (cases "csc_negotiatedVersions ?c = []")
    case True
    then have "csc_version ?c = hd ?vs" "?vs \<noteq> []" using inv by (auto simp: versions_inv_def Let_def)
    then show ?thesis unfolding ver by (cases ?vs) auto
  next
    case False
    then have n: "csc_negotiatedVersions ?c = map version_seen vs" using ok by simp
    have v: "ChooseSupportedVersion ?vs (csc_negotiatedVersions ?c) = csc_version ?c" "csc_version ?c \<noteq> VersionUnsupported"
      using inv False by (auto simp: versions_inv_def Let_def)
    note first = ChooseSupportedVersion_first [OF v, unfolded n]
    have seen: "w \<in> version_seen ` set vs" if "w \<in> set vs" "w \<in> set ?vs" for w
    proof -
      have "version_seen w = w" using that(2) assms(2) by (auto simp: version_seen_def IsSupportedVersion_iff)
      then show ?thesis using that(1) by (metis image_eqI)
    qed
    have "csc_version ?c \<in> set vs" using first(2) v(2) by (auto simp: version_seen_def split: if_splits)
    moreover have "w \<notin> set vs" if "w \<in> set (takeWhile (\<lambda>w. w \<noteq> csc_version ?c) ?vs)" for w
      using first(3) seen that set_takeWhileD [OF that] by auto
    ultimately show ?thesis using first(1) unfolding ver by blast
  qed
qed

text \<open>
  A client that prefers the multipath version gets the version negotiation packet of a server with version 39, switches, and reads a REJ
  message with the configuration of the server and then its hello.
\<close>

definition example_config_versions :: Config where
  "example_config_versions = empty_Config\<lparr>cf_Versions := [VersionMP, Version39]\<rparr>"

definition version_packet :: "u8 list" where
  "version_packet = 0x09 # enc_bytes LittleEndian 8 (7 :: u64) @ version_bytes [Version39]"

definition dialed :: client where
  "dialed = DialNonFWSecure example_crypto (Some example_config_versions) (map of_char ''host'') 7 ''server''"

definition switched :: client where
  "switched = createNewSession example_crypto [Version39] ''server''
     (dialed\<lparr>ct_receivedVersionNegotiationPacket := True, ct_version := Version39, ct_connectionID := 5\<rparr>)"

lemma dialed_sel:
  "ct_versionNegotiated dialed = False" "ct_receivedVersionNegotiationPacket dialed = False" "ct_connectionID dialed = 7"
  "ct_version dialed = VersionMP" "cf_Versions (ct_config dialed) = [VersionMP, Version39]"
  by (simp_all add: dialed_def DialNonFWSecure_def Let_def createNewSession_def populateClientConfig_def example_config_versions_def)

lemma dialed_switches:
  "client_handlePacket example_crypto (Some (le_bytes 8 (5 :: u64))) None ''server'' version_packet dialed = (NewSession, switched)"
proof -
  have parse: "ParsePublicHeader PerspectiveServer (ct_version dialed) version_packet =
      Inr (empty_header\<lparr>ph_ConnectionID := 7, ph_VersionFlag := True, ph_SupportedVersions := [Version39]\<rparr>, [])"
    unfolding version_packet_def by (rule ParsePublicHeader_version_negotiation) (simp_all add: Version_defs)
  show ?thesis
    unfolding client_handlePacket_def parse
    by (simp add: dialed_sel empty_header_def handlePacketWithVersionFlag_def Version_defs VersionUnsupported_def of_rand_def
        le_val_8 switched_def del: le_bytes.simps)
qed

text \<open>After the REJ message.\<close>

definition REJ_data :: tag_map where
  "REJ_data = [(TagSCFG, ServerConfig_Get example_scfg)]"

lemma switched_REJ:
  "\<exists>s. client_handle example_crypto example_certs \<lparr> cn_now = 0, cn_nonce = Some (replicate 20 6), cn_kex = Some (replicate 32 3) \<rparr>
       (Message \<lparr> hm_Tag = TagREJ, hm_Data = REJ_data \<rparr>) (ct_session switched) = (Inr (), s) \<and>
     (\<exists>sc. csc_serverConfig s = Some sc \<and> config_of (cl_curve example_crypto) example_scfg sc) \<and> csc_sno s = None \<and>
     \<not> cp_flowControlNegotiated (csc_connectionParameters s) \<and> \<not> csc_aeadClosed s \<and> same_versions (ct_session switched) s"
proof -
  have wf: "config_wf example_scfg" by (simp add: config_wf_def example_scfg_def example_kex_def)
  obtain sc where sc: "parseServerConfig (cl_curve example_crypto) (Some (replicate 32 3)) (ServerConfig_Get example_scfg) = Inr sc"
    "config_of (cl_curve example_crypto) example_scfg sc" using parseServerConfig_Get [OF wf refl] by blast
  have f: "scc_expiry sc = MaxExpiry" "length (scc_obit sc) = 8" "length (scc_obit sc) \<noteq> 0"
    using sc(2) wf by (simp_all add: config_of_def config_wf_def)
  have s: "csc_nonc (ct_session switched) = []" "csc_proof (ct_session switched) = []" "csc_sno (ct_session switched) = None"
    "\<not> cp_flowControlNegotiated (csc_connectionParameters (ct_session switched))" "\<not> csc_aeadClosed (ct_session switched)"
    by (simp_all add: switched_def createNewSession_def newClientSession_def NewCryptoSetupClient_def NewConnectionParamatersManager_def)
  show ?thesis
    using sc f s
    by (simp add: client_handle_def handleREJMessage_def REJ_data_def REJ_scfg_def REJ_cert_def REJ_proof_def Let_def IsExpired_def
        generateClientNonce_def of_rand_def MaxExpiry_def Second_def)
qed

lemma no_downgrade_witness:
  "\<exists>c s d. client_run example_crypto example_certs (Some example_config_versions) c \<and>
     handleSHLOMessage example_crypto d (ct_session c) = (Inr (), s) \<and> csc_version s = Version39 \<and>
     cf_Versions (ct_config c) = [VersionMP, Version39] \<and> VersionMP \<notin> {Version39}"
proof -
  obtain s where s: "client_handle example_crypto example_certs
      \<lparr> cn_now = 0, cn_nonce = Some (replicate 20 6), cn_kex = Some (replicate 32 3) \<rparr>
       (Message \<lparr> hm_Tag = TagREJ, hm_Data = REJ_data \<rparr>) (ct_session switched) = (Inr (), s)"
     "\<exists>sc. csc_serverConfig s = Some sc \<and> config_of (cl_curve example_crypto) example_scfg sc" "csc_sno s = None"
     "\<not> cp_flowControlNegotiated (csc_connectionParameters s)" "\<not> csc_aeadClosed s" "same_versions (ct_session switched) s"
    using switched_REJ by blast
  define a where "a = (csc_aeads s)\<lparr>ae_secure := Some \<lparr> se_Overhead = 0, se_Seal = (\<lambda>src pn ad. src), ae_Open = (\<lambda>src pn ad. Inr src) \<rparr>,
    ae_receivedSecurePacket := True\<rparr>"
  define c where "c = switched\<lparr>ct_session := s\<lparr>csc_aeads := a\<rparr>\<rparr>"
  have "client_run example_crypto example_certs (Some example_config_versions) switched"
    using client_run.cr_packet [OF client_run.cr_dial] dialed_switches unfolding dialed_def by blast
  from client_run.cr_aeads [OF client_run.cr_event [OF this s(1)], of a]
  have run: "client_run example_crypto example_certs (Some example_config_versions) c" by (simp add: c_def)
  have neg: "csc_negotiatedVersions (ct_session c) = map version_seen [Version39]"
    using s(6) by (simp add: c_def same_versions_def switched_def createNewSession_def newClientSession_versions version_seen_def
        IsSupportedVersion_iff SupportedVersions_def)
  obtain d s' where d: "handleSHLOMessage example_crypto d (ct_session c) = (Inr (), s')" "map_of d TagVER = Some (version_list [Version39])"
    using example_SHLO [of "ct_session c" _ Version39] s(2-5) neg by (auto simp: c_def a_def Version_defs)
  have cfg: "cf_Versions (ct_config c) = [VersionMP, Version39]"
    by (simp add: c_def switched_def createNewSession_def dialed_sel)
  have sup: "set (cf_Versions (ct_config c)) \<subseteq> set SupportedVersions" by (simp add: cfg SupportedVersions_def)
  have "csc_version s' = Version39"
    using no_downgrade [OF run sup d] handleSHLOMessage_same [of "ct_session c" example_crypto d] d(1) s(6)
    by (simp add: cfg Version_defs same_versions_def c_def switched_def createNewSession_def newClientSession_versions)
  then show ?thesis using run d(1) cfg by (auto simp: Version_defs)
qed

text \<open>
  C35. A client cannot negotiate with a server that has a version it does not know. The parser of version negotiation packets keeps
  unknown versions, but the check of the server hello takes every unknown version for \<open>VersionUnsupported\<close>: when the client
  has switched because of an honest version negotiation packet, and later, after whatever steps of the handshake, accepts a hello with
  the same versions, then it knows all of them; with any other version in the list the handshake fails as a downgrade attack.
\<close>
theorem negotiation_needs_known_versions:
  assumes "ComposeVersionNegotiation (ct_connectionID c) vs = Inr packet" "ct_connectionID c \<noteq> 0" "\<forall>v\<in>set vs. 0 \<le> v \<and> v < 1000"
    and "client_handlePacket cl rand rcvTime addr packet c = (NewSession, c')"
    and "same_versions (ct_session c') h" "map_of d TagVER = Some (version_list vs)"
  shows "csc_version h \<in> set vs \<and> (fst (handleSHLOMessage cl d h) = Inr () \<longrightarrow> set vs \<subseteq> set SupportedVersions)"
proof -
  have packet: "packet = 0x09 # enc_bytes LittleEndian 8 (ct_connectionID c) @ version_bytes vs"
    using assms(1) by (simp add: ComposeVersionNegotiation_eq)
  have "handlePacketWithVersionFlag cl rand
      ((empty_header\<lparr>ph_ConnectionID := ct_connectionID c, ph_VersionFlag := True, ph_SupportedVersions := vs\<rparr>)\<lparr>ph_Raw := packet\<rparr>) addr c =
      (NewSession, c')"
    using assms(4) unfolding client_handlePacket_def packet ParsePublicHeader_version_negotiation [OF assms(2,3)]
    by (simp add: empty_header_def Let_def split: if_splits)
  then have n: "csc_negotiatedVersions (ct_session c') = vs" "csc_version (ct_session c') \<in> set vs"
    by (auto simp: handlePacketWithVersionFlag_def Let_def createNewSession_def newClientSession_versions
        split: if_splits sum.splits dest: ChooseSupportedVersion_first(2) [OF refl])
  have "set vs \<subseteq> set SupportedVersions" if acc: "fst (handleSHLOMessage cl d h) = Inr ()"
  proof -
    have "handleSHLOMessage cl d h = (Inr (), snd (handleSHLOMessage cl d h))" using acc by (simp add: prod_eq_iff)
    then have "validateVersionList (version_list vs) h" using handleSHLOMessage_versions assms(6) by fastforce
    then have eq: "vs = map version_seen vs" using validateVersionList_iff [OF assms(3), of h] n(1) assms(5) by (auto simp: same_versions_def)
    show ?thesis
    proof
      fix v assume v: "v \<in> set vs"
      then have "version_seen v = v" using eq by (metis in_set_conv_nth nth_map)
      then show "v \<in> set SupportedVersions" using v assms(3) by (auto simp: version_seen_def IsSupportedVersion_iff VersionUnsupported_def split: if_splits)
    qed
  qed
  then show ?thesis using n assms(5) by (simp add: same_versions_def)
qed

lemma negotiation_needs_known_versions_witness:
  "csc_version (ct_session switched) = Version39 \<and> Version39 \<in> set [Version39]"
proof -
  have "ComposeVersionNegotiation (ct_connectionID dialed) [Version39] = Inr version_packet"
    by (simp add: ComposeVersionNegotiation_eq version_packet_def dialed_sel)
  from negotiation_needs_known_versions [OF this _ _ dialed_switches, of "ct_session switched" "[(TagVER, version_list [Version39])]"]
  show ?thesis by (simp add: dialed_sel Version_defs)
qed

end
