(* ===== verification/Slow_Start.thy ===== *)
theory Slow_Start
  imports Rtt_Stats
begin

section \<open>Parts of the congestion controllers: \<open>congestion\<close>\<close>

text \<open>
  What the two controllers share: hybrid slow start, proportional rate reduction, the statistics of slow start and the
  estimate of the bandwidth.
\<close>

definition DefaultTCPMSS :: ByteCount where "DefaultTCPMSS = 1460"
definition InitialCongestionWindow :: PacketNumber where "InitialCongestionWindow = 32"
definition maxBurstBytes :: ByteCount where "maxBurstBytes = 3 * DefaultTCPMSS"
definition defaultMinimumCongestionWindow :: PacketNumber where "defaultMinimumCongestionWindow = 2"

subsection \<open>\<open>hybrid_slow_start.go\<close>\<close>

definition hybridStartLowWindow :: ByteCount where "hybridStartLowWindow = 16"
definition hybridStartMinSamples :: u32 where "hybridStartMinSamples = 8"
definition hybridStartDelayFactorExp :: nat where "hybridStartDelayFactorExp = 3"
definition hybridStartDelayMinThresholdUs :: int where "hybridStartDelayMinThresholdUs = 4000"
definition hybridStartDelayMaxThresholdUs :: int where "hybridStartDelayMaxThresholdUs = 16000"

record HybridSlowStart =
  hs_endPacketNumber :: PacketNumber
  hs_lastSentPacketNumber :: PacketNumber
  hs_started :: bool
  hs_currentMinRTT :: Duration
  hs_rttSampleCount :: u32
  hs_hystartFound :: bool

definition zeroHybridSlowStart :: HybridSlowStart where
  "zeroHybridSlowStart =
     \<lparr> hs_endPacketNumber = 0, hs_lastSentPacketNumber = 0, hs_started = False, hs_currentMinRTT = 0, hs_rttSampleCount = 0,
       hs_hystartFound = False \<rparr>"

definition StartReceiveRound :: "PacketNumber \<Rightarrow> HybridSlowStart \<Rightarrow> HybridSlowStart" where
  "StartReceiveRound lastSent s =
     s\<lparr>hs_endPacketNumber := lastSent, hs_currentMinRTT := 0, hs_rttSampleCount := 0, hs_started := True\<rparr>"

definition IsEndOfRound :: "PacketNumber \<Rightarrow> HybridSlowStart \<Rightarrow> bool" where
  "IsEndOfRound ack s \<longleftrightarrow> hs_endPacketNumber s < ack"

text \<open>The threshold for the increase of the delay: an eighth of the minimal RTT in whole microseconds, between 4 and 16 milliseconds.\<close>

definition minRTTincreaseThreshold :: "Duration \<Rightarrow> Duration" where
  "minRTTincreaseThreshold minRTT =
     (let us = min (go_div minRTT Microsecond div 2 ^ hybridStartDelayFactorExp) hybridStartDelayMaxThresholdUs
      in max us hybridStartDelayMinThresholdUs * Microsecond)"

definition ShouldExitSlowStart :: "Duration \<Rightarrow> Duration \<Rightarrow> ByteCount \<Rightarrow> HybridSlowStart \<Rightarrow> bool \<times> HybridSlowStart" where
  "ShouldExitSlowStart latestRTT minRTT congestionWindow s =
     (let s1 = (if \<not> hs_started s then StartReceiveRound (hs_lastSentPacketNumber s) s else s)
      in if hs_hystartFound s1 then (True, s1)
         else
           let s2 = s1\<lparr>hs_rttSampleCount := hs_rttSampleCount s1 + 1\<rparr>;
               s3 = (if hs_rttSampleCount s2 \<le> hybridStartMinSamples \<and> (hs_currentMinRTT s2 = 0 \<or> hs_currentMinRTT s2 > latestRTT)
                     then s2\<lparr>hs_currentMinRTT := latestRTT\<rparr> else s2);
               s4 = (if hs_rttSampleCount s3 = hybridStartMinSamples \<and> hs_currentMinRTT s3 > minRTT + minRTTincreaseThreshold minRTT
                     then s3\<lparr>hs_hystartFound := True\<rparr> else s3)
           in (congestionWindow \<ge> hybridStartLowWindow \<and> hs_hystartFound s4, s4))"

definition hs_OnPacketSent :: "PacketNumber \<Rightarrow> HybridSlowStart \<Rightarrow> HybridSlowStart" where
  "hs_OnPacketSent packetNumber s = s\<lparr>hs_lastSentPacketNumber := packetNumber\<rparr>"

definition hs_OnPacketAcked :: "PacketNumber \<Rightarrow> HybridSlowStart \<Rightarrow> HybridSlowStart" where
  "hs_OnPacketAcked ackedPacketNumber s = (if IsEndOfRound ackedPacketNumber s then s\<lparr>hs_started := False\<rparr> else s)"

definition hs_Restart :: "HybridSlowStart \<Rightarrow> HybridSlowStart" where
  "hs_Restart s = s\<lparr>hs_started := False, hs_hystartFound := False\<rparr>"

subsection \<open>\<open>prr_sender.go\<close>\<close>

record PrrSender =
  prr_bytesSentSinceLoss :: ByteCount
  prr_bytesDeliveredSinceLoss :: ByteCount
  prr_ackCountSinceLoss :: ByteCount
  prr_bytesInFlightBeforeLoss :: ByteCount

definition zeroPrrSender :: PrrSender where
  "zeroPrrSender =
     \<lparr> prr_bytesSentSinceLoss = 0, prr_bytesDeliveredSinceLoss = 0, prr_ackCountSinceLoss = 0, prr_bytesInFlightBeforeLoss = 0 \<rparr>"

definition prr_OnPacketSent :: "ByteCount \<Rightarrow> PrrSender \<Rightarrow> PrrSender" where
  "prr_OnPacketSent sentBytes p = p\<lparr>prr_bytesSentSinceLoss := prr_bytesSentSinceLoss p + sentBytes\<rparr>"

definition prr_OnPacketLost :: "ByteCount \<Rightarrow> PrrSender \<Rightarrow> PrrSender" where
  "prr_OnPacketLost bytesInFlight p =
     p\<lparr>prr_bytesSentSinceLoss := 0, prr_bytesInFlightBeforeLoss := bytesInFlight, prr_bytesDeliveredSinceLoss := 0,
       prr_ackCountSinceLoss := 0\<rparr>"

definition prr_OnPacketAcked :: "ByteCount \<Rightarrow> PrrSender \<Rightarrow> PrrSender" where
  "prr_OnPacketAcked ackedBytes p =
     p\<lparr>prr_bytesDeliveredSinceLoss := prr_bytesDeliveredSinceLoss p + ackedBytes,
       prr_ackCountSinceLoss := prr_ackCountSinceLoss p + 1\<rparr>"

definition prr_TimeUntilSend :: "ByteCount \<Rightarrow> ByteCount \<Rightarrow> ByteCount \<Rightarrow> PrrSender \<Rightarrow> Duration" where
  "prr_TimeUntilSend congestionWindow bytesInFlight slowstartThreshold p =
     (if prr_bytesSentSinceLoss p = 0 \<or> bytesInFlight < DefaultTCPMSS then 0
      else if congestionWindow > bytesInFlight
      then if prr_bytesDeliveredSinceLoss p + prr_ackCountSinceLoss p * DefaultTCPMSS \<le> prr_bytesSentSinceLoss p
           then InfDuration else 0
      else if prr_bytesDeliveredSinceLoss p * slowstartThreshold > prr_bytesSentSinceLoss p * prr_bytesInFlightBeforeLoss p
      then 0 else InfDuration)"

subsection \<open>\<open>stats.go\<close>, \<open>bandwidth.go\<close>\<close>

record connectionStats =
  cs_slowstartPacketsLost :: PacketNumber
  cs_slowstartBytesLost :: ByteCount

text \<open>\<open>time.Duration\<close> is converted to \<open>uint64\<close>; a division by zero panics in Go and does not happen here, a zero RTT is caught before.\<close>

definition BytesPerSecond :: u64 where "BytesPerSecond = 8"

definition BandwidthFromDelta :: "ByteCount \<Rightarrow> Duration \<Rightarrow> u64" where
  "BandwidthFromDelta bytes dt = bytes * word_of_int Second div word_of_int dt * BytesPerSecond"

section \<open>What the parts promise\<close>

text \<open>Within one round, slow start is left only when eight samples were all above the threshold.\<close>

lemma minRTTincreaseThreshold_bounds:
  "4 * Millisecond \<le> minRTTincreaseThreshold minRTT" "minRTTincreaseThreshold minRTT \<le> 16 * Millisecond"
  by (simp_all add: minRTTincreaseThreshold_def Let_def hybridStartDelayMaxThresholdUs_def hybridStartDelayMinThresholdUs_def
      Microsecond_def Millisecond_def)

end
