(* ===== verification/Go_Rat.thy ===== *)
theory Go_Rat
  imports Go_Float Complex_Main
begin

section \<open>Single precision numbers as fractions\<close>

text \<open>
  The congestion controllers compute with \<open>float32\<close> values that are no multiples of a fixed unit. A finite value is the rational
  number it stands for, and every operation rounds its exact result to the nearest number with 24 significant bits, ties to
  even, as Go does on amd64. All values here are positive and far from the bounds of the exponent.
\<close>

definition pow2 :: "int \<Rightarrow> rat" where
  "pow2 k = (if 0 \<le> k then 2 ^ nat k else 1 / 2 ^ nat (- k))"

definition round_even :: "rat \<Rightarrow> int" where
  "round_even x =
     (let f = \<lfloor>x\<rfloor>; r = x - of_int f in if r > 1 / 2 \<or> (r = 1 / 2 \<and> odd f) then f + 1 else f)"

text \<open>The exponent of the last of the 24 bits.\<close>

definition ulp_exponent :: "rat \<Rightarrow> int" where
  "ulp_exponent x =
     (let (n, d) = quotient_of x; k = int (bitlen (nat n)) - int (bitlen (nat d)) - 24
      in if x \<ge> pow2 (k + 24) then k + 1 else k)"

definition go32 :: "rat \<Rightarrow> rat" where
  "go32 x = (if x \<le> 0 then 0 else of_int (round_even (x / pow2 (ulp_exponent x))) * pow2 (ulp_exponent x))"

text \<open>The conversion of a float to an unsigned integer cuts the fraction.\<close>

definition trunc64 :: "rat \<Rightarrow> u64" where
  "trunc64 x = word_of_int \<lfloor>x\<rfloor>"

lemma pow2_pos [simp]: "0 < pow2 k"
  by (simp add: pow2_def)

lemma pow2_nonzero [simp]: "pow2 k \<noteq> 0"
  by (metis pow2_pos less_irrefl)

lemma pow2_powi: "pow2 k = 2 powi k"
  by (simp add: pow2_def power_int_def power_one_over)

lemma pow2_add: "pow2 (a + b) = pow2 a * pow2 b"
  by (simp add: pow2_powi power_int_add)

lemma pow2_nat: "pow2 (int n) = 2 ^ n"
  by (simp add: pow2_def)

lemma bitlen_bounds:
  assumes "0 < n"
  shows "n < 2 ^ bitlen n" "2 ^ (bitlen n - 1) \<le> n" "0 < bitlen n"
proof -
  show "n < 2 ^ bitlen n" using bitlen_le_iff [of n "bitlen n"] by simp
  show pos: "0 < bitlen n" using assms by (simp add: bitlen.simps [of n])
  have "\<not> bitlen n \<le> bitlen n - 1" using pos by simp
  then show "2 ^ (bitlen n - 1) \<le> n" unfolding bitlen_le_iff by simp
qed

lemma bitlen_pow2:
  assumes "0 < n"
  shows "of_nat n < pow2 (int (bitlen n))" "pow2 (int (bitlen n) - 1) \<le> of_nat n"
proof -
  show "of_nat n < pow2 (int (bitlen n))"
    using bitlen_bounds(1) [OF assms] by (metis of_nat_less_iff of_nat_numeral of_nat_power pow2_nat)
  have "int (bitlen n) - 1 = int (bitlen n - 1)" using bitlen_bounds(3) [OF assms] by simp
  then show "pow2 (int (bitlen n) - 1) \<le> of_nat n"
    using bitlen_bounds(2) [OF assms] by (metis of_nat_le_iff of_nat_numeral of_nat_power pow2_nat)
qed

lemma ulp_exponent_bounds:
  assumes "0 < x"
  shows "pow2 (ulp_exponent x) * 2 ^ 23 \<le> x" "x < pow2 (ulp_exponent x) * 2 ^ 24"
proof -
  obtain a b where q: "quotient_of x = (a, b)" by fastforce
  have x: "x = of_int a / of_int b" and b: "0 < b" using quotient_of_div [OF q] quotient_of_denom_pos [OF q] by auto
  have a: "0 < a" using assms b by (simp add: x zero_less_divide_iff)
  define n d where "n = nat a" and "d = nat b"
  have nd: "0 < n" "0 < d" "x = of_nat n / of_nat d" using a b by (simp_all add: n_def d_def x)
  define k where "k = int (bitlen n) - int (bitlen d) - 24"
  have e: "ulp_exponent x = (if x \<ge> pow2 (k + 24) then k + 1 else k)"
    by (simp add: ulp_exponent_def q k_def n_def d_def)
  note bn = bitlen_pow2 [OF nd(1)] and bd = bitlen_pow2 [OF nd(2)]
  have "x < pow2 (int (bitlen n)) / pow2 (int (bitlen d) - 1)"
    unfolding nd(3) using bn(1) bd(2) nd(2) by (intro frac_less) auto
  also have "\<dots> = pow2 (k + 25)"
    using pow2_add [of "k + 25" "int (bitlen d) - 1"] by (simp add: k_def nonzero_divide_eq_eq mult.commute)
  finally have upper: "x < pow2 (k + 25)" .
  have "pow2 (k + 23) = pow2 (int (bitlen n) - 1) / pow2 (int (bitlen d))"
    using pow2_add [of "k + 23" "int (bitlen d)"] by (simp add: k_def nonzero_eq_divide_eq)
  also have "\<dots> \<le> x" unfolding nd(3) using bn(2) bd(1) nd(2) by (intro frac_le) auto
  finally have lower: "pow2 (k + 23) \<le> x" .
  have p: "pow2 (k + 23) = pow2 k * 2 ^ 23" "pow2 (k + 24) = pow2 k * 2 ^ 24" "pow2 (k + 25) = pow2 (k + 1) * 2 ^ 24"
    "pow2 (k + 24) = pow2 (k + 1) * 2 ^ 23"
    using pow2_nat [of 23] pow2_nat [of 24] pow2_add [of k 23] pow2_add [of k 24] pow2_add [of "k + 1" 24] pow2_add [of "k + 1" 23]
    by (simp_all add: add.assoc)
  show "pow2 (ulp_exponent x) * 2 ^ 23 \<le> x" "x < pow2 (ulp_exponent x) * 2 ^ 24"
    using lower upper p by (auto simp: e)
qed

lemma round_even_error: "\<bar>of_int (round_even x) - x\<bar> \<le> 1 / 2"
proof -
  define r where "r = x - of_int \<lfloor>x\<rfloor>"
  have "0 \<le> r" "r < 1" unfolding r_def by linarith+
  then show ?thesis unfolding round_even_def Let_def r_def [symmetric] using r_def by auto
qed

lemma round_even_of_int [simp]: "round_even (of_int i) = i"
  by (simp add: round_even_def)

text \<open>The relative error is at most \<open>2^-24\<close>, and whole numbers with 24 bits are exact.\<close>

lemma go32_error:
  assumes "0 < x"
  shows "\<bar>go32 x - x\<bar> \<le> x / 2 ^ 24"
proof -
  define u where "u = pow2 (ulp_exponent x)"
  have u: "0 < u" "u * 2 ^ 23 \<le> x" using ulp_exponent_bounds [OF assms] by (simp_all add: u_def)
  have "go32 x - x = (of_int (round_even (x / u)) - x / u) * u"
    using assms u(1) by (simp add: go32_def u_def [symmetric] algebra_simps)
  then have "\<bar>go32 x - x\<bar> = \<bar>of_int (round_even (x / u)) - x / u\<bar> * u" using u(1) by (simp add: abs_mult)
  also have "\<dots> \<le> 1 / 2 * u" using round_even_error [of "x / u"] u(1) by (intro mult_right_mono) auto
  also have "\<dots> \<le> x / 2 ^ 24" using u(2) by simp
  finally show ?thesis .
qed

lemma go32_exact:
  assumes "n < 2 ^ 24"
  shows "go32 (of_nat n) = of_nat n"
proof (cases "n = 0")
  case False
  define e where "e = ulp_exponent (of_nat n)"
  have "pow2 e * 2 ^ 23 \<le> of_nat n" using ulp_exponent_bounds(1) [of "of_nat n"] False by (simp add: e_def)
  also have "of_nat n < (2 ^ 24 :: rat)" using assms by (metis of_nat_less_iff of_nat_numeral of_nat_power)
  finally have "pow2 e < 2" by simp
  have "e \<le> 0"
  proof (rule ccontr)
    assume "\<not> e \<le> 0"
    then have "1 \<le> nat e" "pow2 e = 2 ^ nat e" by (simp_all add: pow2_def)
    moreover have "(2::rat) ^ 1 \<le> 2 ^ nat e" using \<open>1 \<le> nat e\<close> by (rule power_increasing) simp
    ultimately show False using \<open>pow2 e < 2\<close> by simp
  qed
  then have p: "pow2 e = 1 / 2 ^ nat (- e)" by (cases "e = 0") (simp_all add: pow2_def)
  have "of_nat n / pow2 e = of_int (int n * 2 ^ nat (- e))" by (simp add: p)
  then have "go32 (of_nat n) = of_int (int n * 2 ^ nat (- e)) * pow2 e"
    using False unfolding go32_def e_def [symmetric] by (simp only: round_even_of_int) simp
  then show ?thesis by (simp add: p)
qed (simp add: go32_def)

lemma go32_ge:
  assumes "0 < x" "lo \<le> x * (1 - 1 / 2 ^ 24)"
  shows "lo \<le> go32 x"
proof -
  have "x * (1 - 1 / 2 ^ 24) = x - x / 2 ^ 24" by (simp add: algebra_simps)
  then show ?thesis using go32_error [OF assms(1)] assms(2) by linarith
qed

lemma go32_le:
  assumes "0 < x" "x * (1 + 1 / 2 ^ 24) \<le> hi"
  shows "go32 x \<le> hi"
proof -
  have "x * (1 + 1 / 2 ^ 24) = x + x / 2 ^ 24" by (simp add: algebra_simps)
  then show ?thesis using go32_error [OF assms(1)] assms(2) by linarith
qed

lemma go32_nonneg: "0 \<le> go32 x"
proof (cases "0 < x")
  case True
  then have "x / 2 ^ 24 \<le> x" by simp
  then show ?thesis using go32_error [OF True] by linarith
qed (simp add: go32_def)

end
