(* ===== verification/Cubic.thy ===== *)
theory Cubic
  imports Slow_Start Go_Rat
begin

section \<open>CUBIC: \<open>congestion/cubic.go\<close>, \<open>cubic_sender.go\<close>\<close>

text \<open>
  The congestion controller of the first path. The clock a controller holds is the time it shows; 0 is the zero time. The
  RTT statistics, which the sender shares with the handler of sent packets, are an argument. \<open>cbrt n\<close> stands for
  \<open>uint32(math.Cbrt(float64(n)))\<close>.
\<close>

subsection \<open>The window function\<close>

definition cubeScale :: nat where "cubeScale = 40"
definition cubeCongestionWindowScale :: int where "cubeCongestionWindowScale = 410"
definition cubeFactor :: PacketNumber where "cubeFactor = 2 ^ cubeScale div 410"
definition defaultNumConnections :: int where "defaultNumConnections = 2"
definition beta32 :: rat where "beta32 = go32 (7 / 10)"
definition betaLastMax :: rat where "betaLastMax = go32 (85 / 100)"
definition maxCubicTimeInterval :: Duration where "maxCubicTimeInterval = 30 * Millisecond"

record Cubic =
  cu_clock :: int
  cu_numConnections :: int
  cu_epoch :: int
  cu_appLimitedStartTime :: int
  cu_lastUpdateTime :: int
  cu_lastCongestionWindow :: PacketNumber
  cu_lastMaxCongestionWindow :: PacketNumber
  cu_ackedPacketsCount :: PacketNumber
  cu_estimatedTCPcongestionWindow :: PacketNumber
  cu_originPointCongestionWindow :: PacketNumber
  cu_timeToOriginPoint :: u32
  cu_lastTargetCongestionWindow :: PacketNumber

definition cu_Reset :: "Cubic \<Rightarrow> Cubic" where
  "cu_Reset c =
     c\<lparr>cu_epoch := 0, cu_appLimitedStartTime := 0, cu_lastUpdateTime := 0, cu_lastCongestionWindow := 0,
       cu_lastMaxCongestionWindow := 0, cu_ackedPacketsCount := 0, cu_estimatedTCPcongestionWindow := 0,
       cu_originPointCongestionWindow := 0, cu_timeToOriginPoint := 0, cu_lastTargetCongestionWindow := 0\<rparr>"

definition NewCubic :: "int \<Rightarrow> Cubic" where
  "NewCubic clock =
     \<lparr> cu_clock = clock, cu_numConnections = defaultNumConnections, cu_epoch = 0, cu_appLimitedStartTime = 0, cu_lastUpdateTime = 0,
       cu_lastCongestionWindow = 0, cu_lastMaxCongestionWindow = 0, cu_ackedPacketsCount = 0, cu_estimatedTCPcongestionWindow = 0,
       cu_originPointCongestionWindow = 0, cu_timeToOriginPoint = 0, cu_lastTargetCongestionWindow = 0 \<rparr>"

text \<open>\<open>beta\<close> of CUBIC, which is \<open>RenoBeta\<close> of both senders as well, for \<open>n\<close> emulated connections.\<close>

definition RenoBeta :: "int \<Rightarrow> rat" where
  "RenoBeta n = go32 (go32 (go32 (go32 (of_int n) - 1) + beta32) / go32 (of_int n))"

definition cu_alpha :: "int \<Rightarrow> rat" where
  "cu_alpha n =
     (let b = RenoBeta n
      in go32 (go32 (go32 (go32 (3 * go32 (of_int n)) * go32 (of_int n)) * go32 (1 - b)) / go32 (1 + b)))"

definition OnApplicationLimited :: "Cubic \<Rightarrow> Cubic" where
  "OnApplicationLimited c = (if cu_appLimitedStartTime c = 0 then c\<lparr>cu_appLimitedStartTime := cu_clock c\<rparr> else c)"

definition float32_of :: "u64 \<Rightarrow> rat" where
  "float32_of n = go32 (of_nat (unat n))"

definition CongestionWindowAfterPacketLoss :: "PacketNumber \<Rightarrow> Cubic \<Rightarrow> PacketNumber \<times> Cubic" where
  "CongestionWindowAfterPacketLoss cur c =
     (let c1 = (if cur < cu_lastMaxCongestionWindow c
                then c\<lparr>cu_lastMaxCongestionWindow := trunc64 (go32 (betaLastMax * float32_of cur))\<rparr>
                else c\<lparr>cu_lastMaxCongestionWindow := cur\<rparr>)
      in (trunc64 (go32 (float32_of cur * RenoBeta (cu_numConnections c1))), c1\<lparr>cu_epoch := 0\<rparr>))"

text \<open>The start of an epoch at the first ACK after a loss, or its shift by the time the sender was limited by the application.\<close>

definition cubic_epoch :: "(u64 \<Rightarrow> u32) \<Rightarrow> PacketNumber \<Rightarrow> Cubic \<Rightarrow> Cubic" where
  "cubic_epoch cbrt cur c =
     (if cu_epoch c = 0
      then let c1 = c\<lparr>cu_epoch := cu_clock c, cu_ackedPacketsCount := 1, cu_estimatedTCPcongestionWindow := cur\<rparr>
           in if cu_lastMaxCongestionWindow c1 \<le> cur
              then c1\<lparr>cu_timeToOriginPoint := 0, cu_originPointCongestionWindow := cur\<rparr>
              else c1\<lparr>cu_timeToOriginPoint := cbrt (cubeFactor * (cu_lastMaxCongestionWindow c1 - cur)),
                      cu_originPointCongestionWindow := cu_lastMaxCongestionWindow c1\<rparr>
      else if cu_appLimitedStartTime c \<noteq> 0
      then c\<lparr>cu_epoch := cu_epoch c + (cu_clock c - cu_appLimitedStartTime c), cu_appLimitedStartTime := 0\<rparr>
      else c)"

text \<open>The time since the start of the epoch in \<open>2^10\<close> fractions of a second, and the cubic function of it.\<close>

definition cubic_elapsed :: "Duration \<Rightarrow> Cubic \<Rightarrow> int" where
  "cubic_elapsed delayMin c = go_div (wrap64 (go_div (cu_clock c + delayMin - cu_epoch c) Microsecond * 2 ^ 10)) 1000000"

definition cubic_target :: "Duration \<Rightarrow> Cubic \<Rightarrow> PacketNumber" where
  "cubic_target delayMin c =
     (let elapsedTime = cubic_elapsed delayMin c; off0 = wrap64 (uint (cu_timeToOriginPoint c) - elapsedTime);
          off = (if off0 < 0 then wrap64 (- off0) else off0);
          d = word_of_int (wrap64 (cubeCongestionWindowScale * off * off * off) div 2 ^ cubeScale)
      in if elapsedTime > uint (cu_timeToOriginPoint c) then cu_originPointCongestionWindow c + d
         else cu_originPointCongestionWindow c - d)"

text \<open>The loop that updates the window a TCP Reno connection would have: the counter of packets and the window.\<close>

definition requiredAckCount :: "rat \<Rightarrow> PacketNumber \<Rightarrow> PacketNumber" where
  "requiredAckCount alpha est = trunc64 (go32 (float32_of est / alpha))"

partial_function (option) tcp_friendly :: "rat \<Rightarrow> PacketNumber \<Rightarrow> PacketNumber \<Rightarrow> (PacketNumber \<times> PacketNumber) option" where
  "tcp_friendly alpha acked est =
     (if acked < requiredAckCount alpha est then Some (acked, est)
      else tcp_friendly alpha (acked - requiredAckCount alpha est) (est + 1))"

definition CongestionWindowAfterAck :: "(u64 \<Rightarrow> u32) \<Rightarrow> PacketNumber \<Rightarrow> Duration \<Rightarrow> Cubic \<Rightarrow> (PacketNumber \<times> Cubic) option" where
  "CongestionWindowAfterAck cbrt cur delayMin c =
     (let c1 = c\<lparr>cu_ackedPacketsCount := cu_ackedPacketsCount c + 1\<rparr>; now = cu_clock c1
      in if cu_lastCongestionWindow c1 = cur \<and> now - cu_lastUpdateTime c1 \<le> maxCubicTimeInterval
         then Some (MaxPacketNumber (cu_lastTargetCongestionWindow c1) (cu_estimatedTCPcongestionWindow c1), c1)
         else
           let c2 = cubic_epoch cbrt cur (c1\<lparr>cu_lastCongestionWindow := cur, cu_lastUpdateTime := now\<rparr>);
               target = cubic_target delayMin c2
           in case tcp_friendly (cu_alpha (cu_numConnections c2)) (cu_ackedPacketsCount c2) (cu_estimatedTCPcongestionWindow c2) of
                None \<Rightarrow> None
              | Some (acked, est) \<Rightarrow>
                  Some (if target < est then est else target,
                    c2\<lparr>cu_ackedPacketsCount := acked, cu_estimatedTCPcongestionWindow := est,
                       cu_lastTargetCongestionWindow := target\<rparr>))"

subsection \<open>The sender\<close>

record cubicSender =
  cb_hybridSlowStart :: HybridSlowStart
  cb_prr :: PrrSender
  cb_stats :: connectionStats
  cb_cubic :: Cubic
  cb_reno :: bool
  cb_largestSentPacketNumber :: PacketNumber
  cb_largestAckedPacketNumber :: PacketNumber
  cb_largestSentAtLastCutback :: PacketNumber
  cb_congestionWindow :: PacketNumber
  cb_slowstartThreshold :: PacketNumber
  cb_lastCutbackExitedSlowstart :: bool
  cb_slowStartLargeReduction :: bool
  cb_minCongestionWindow :: PacketNumber
  cb_maxTCPCongestionWindow :: PacketNumber
  cb_numConnections :: int
  cb_congestionWindowCount :: ByteCount
  cb_initialCongestionWindow :: PacketNumber
  cb_initialMaxCongestionWindow :: PacketNumber

definition NewCubicSender :: "int \<Rightarrow> bool \<Rightarrow> PacketNumber \<Rightarrow> PacketNumber \<Rightarrow> cubicSender" where
  "NewCubicSender clock reno initial maximal =
     \<lparr> cb_hybridSlowStart = zeroHybridSlowStart, cb_prr = zeroPrrSender,
       cb_stats = \<lparr> cs_slowstartPacketsLost = 0, cs_slowstartBytesLost = 0 \<rparr>, cb_cubic = NewCubic clock, cb_reno = reno,
       cb_largestSentPacketNumber = 0, cb_largestAckedPacketNumber = 0, cb_largestSentAtLastCutback = 0,
       cb_congestionWindow = initial, cb_slowstartThreshold = maximal, cb_lastCutbackExitedSlowstart = False,
       cb_slowStartLargeReduction = False, cb_minCongestionWindow = defaultMinimumCongestionWindow,
       cb_maxTCPCongestionWindow = maximal, cb_numConnections = defaultNumConnections, cb_congestionWindowCount = 0,
       cb_initialCongestionWindow = initial, cb_initialMaxCongestionWindow = maximal \<rparr>"

definition cb_GetCongestionWindow :: "cubicSender \<Rightarrow> ByteCount" where
  "cb_GetCongestionWindow c = cb_congestionWindow c * DefaultTCPMSS"

definition cb_GetSlowStartThreshold :: "cubicSender \<Rightarrow> ByteCount" where
  "cb_GetSlowStartThreshold c = cb_slowstartThreshold c * DefaultTCPMSS"

definition cb_InRecovery :: "cubicSender \<Rightarrow> bool" where
  "cb_InRecovery c \<longleftrightarrow> cb_largestAckedPacketNumber c \<le> cb_largestSentAtLastCutback c \<and> cb_largestAckedPacketNumber c \<noteq> 0"

definition cb_InSlowStart :: "cubicSender \<Rightarrow> bool" where
  "cb_InSlowStart c \<longleftrightarrow> cb_GetCongestionWindow c < cb_GetSlowStartThreshold c"

definition cb_TimeUntilSend :: "ByteCount \<Rightarrow> cubicSender \<Rightarrow> Duration" where
  "cb_TimeUntilSend bytesInFlight c =
     (if cb_InRecovery c
      then prr_TimeUntilSend (cb_GetCongestionWindow c) bytesInFlight (cb_GetSlowStartThreshold c) (cb_prr c)
      else if cb_GetCongestionWindow c > bytesInFlight then 0 else InfDuration)"

definition cb_OnPacketSent :: "PacketNumber \<Rightarrow> ByteCount \<Rightarrow> bool \<Rightarrow> cubicSender \<Rightarrow> bool \<times> cubicSender" where
  "cb_OnPacketSent packetNumber bytes isRetransmittable c =
     (if \<not> isRetransmittable then (False, c)
      else let c1 = (if cb_InRecovery c then c\<lparr>cb_prr := prr_OnPacketSent bytes (cb_prr c)\<rparr> else c)
        in (True, c1\<lparr>cb_largestSentPacketNumber := packetNumber,
                     cb_hybridSlowStart := hs_OnPacketSent packetNumber (cb_hybridSlowStart c1)\<rparr>))"

definition cb_ExitSlowstart :: "cubicSender \<Rightarrow> cubicSender" where
  "cb_ExitSlowstart c = c\<lparr>cb_slowstartThreshold := cb_congestionWindow c\<rparr>"

definition cb_MaybeExitSlowStart :: "RTTStats \<Rightarrow> cubicSender \<Rightarrow> cubicSender" where
  "cb_MaybeExitSlowStart rtt c =
     (if \<not> cb_InSlowStart c then c
      else let (exit, h) = ShouldExitSlowStart (rt_latestRTT rtt) (rt_minRTT rtt) (cb_GetCongestionWindow c div DefaultTCPMSS)
             (cb_hybridSlowStart c); c1 = c\<lparr>cb_hybridSlowStart := h\<rparr>
        in if exit then cb_ExitSlowstart c1 else c1)"

definition cb_isCwndLimited :: "ByteCount \<Rightarrow> cubicSender \<Rightarrow> bool" where
  "cb_isCwndLimited bytesInFlight c =
     (let congestionWindow = cb_GetCongestionWindow c
      in if bytesInFlight \<ge> congestionWindow then True
         else let availableBytes = congestionWindow - bytesInFlight;
                  slowStartLimited = (cb_InSlowStart c \<and> bytesInFlight > congestionWindow div 2)
              in slowStartLimited \<or> availableBytes \<le> maxBurstBytes)"

definition cb_maybeIncreaseCwnd :: "(u64 \<Rightarrow> u32) \<Rightarrow> RTTStats \<Rightarrow> ByteCount \<Rightarrow> cubicSender \<Rightarrow> cubicSender option" where
  "cb_maybeIncreaseCwnd cbrt rtt bytesInFlight c =
     (if \<not> cb_isCwndLimited bytesInFlight c then Some (c\<lparr>cb_cubic := OnApplicationLimited (cb_cubic c)\<rparr>)
      else if cb_congestionWindow c \<ge> cb_maxTCPCongestionWindow c then Some c
      else if cb_InSlowStart c then Some (c\<lparr>cb_congestionWindow := cb_congestionWindow c + 1\<rparr>)
      else if cb_reno c
      then let c1 = c\<lparr>cb_congestionWindowCount := cb_congestionWindowCount c + 1\<rparr>
           in Some (if cb_congestionWindowCount c1 * word_of_int (cb_numConnections c1) \<ge> cb_congestionWindow c1
                then c1\<lparr>cb_congestionWindow := cb_congestionWindow c1 + 1, cb_congestionWindowCount := 0\<rparr> else c1)
      else case CongestionWindowAfterAck cbrt (cb_congestionWindow c) (rt_minRTT rtt) (cb_cubic c) of
             None \<Rightarrow> None
           | Some (w, cu) \<Rightarrow> Some (c\<lparr>cb_cubic := cu, cb_congestionWindow := MinPacketNumber (cb_maxTCPCongestionWindow c) w\<rparr>))"

definition cb_OnPacketAcked ::
    "(u64 \<Rightarrow> u32) \<Rightarrow> RTTStats \<Rightarrow> PacketNumber \<Rightarrow> ByteCount \<Rightarrow> ByteCount \<Rightarrow> cubicSender \<Rightarrow> cubicSender option" where
  "cb_OnPacketAcked cbrt rtt ackedPacketNumber ackedBytes bytesInFlight c =
     (let c1 = c\<lparr>cb_largestAckedPacketNumber := MaxPacketNumber ackedPacketNumber (cb_largestAckedPacketNumber c)\<rparr>
      in if cb_InRecovery c1 then Some (c1\<lparr>cb_prr := prr_OnPacketAcked ackedBytes (cb_prr c1)\<rparr>)
         else case cb_maybeIncreaseCwnd cbrt rtt bytesInFlight c1 of
                None \<Rightarrow> None
              | Some c2 \<Rightarrow>
                  Some (if cb_InSlowStart c2
                    then c2\<lparr>cb_hybridSlowStart := hs_OnPacketAcked ackedPacketNumber (cb_hybridSlowStart c2)\<rparr> else c2))"

text \<open>A loss of a packet that was sent before the last cutback: counted, and a reduction by one packet with the experiment for it.\<close>

definition slowstart_lost :: "ByteCount \<Rightarrow> connectionStats \<Rightarrow> connectionStats" where
  "slowstart_lost lostBytes s =
     s\<lparr>cs_slowstartPacketsLost := cs_slowstartPacketsLost s + 1, cs_slowstartBytesLost := cs_slowstartBytesLost s + lostBytes\<rparr>"

definition large_reduction_due :: "ByteCount \<Rightarrow> connectionStats \<Rightarrow> bool" where
  "large_reduction_due lostBytes s \<longleftrightarrow> cs_slowstartPacketsLost s = 1 \<or>
     cs_slowstartBytesLost s div DefaultTCPMSS > (cs_slowstartBytesLost s - lostBytes) div DefaultTCPMSS"

definition cb_lost_again :: "ByteCount \<Rightarrow> cubicSender \<Rightarrow> cubicSender" where
  "cb_lost_again lostBytes c =
     (if \<not> cb_lastCutbackExitedSlowstart c then c
      else
        let c1 = c\<lparr>cb_stats := slowstart_lost lostBytes (cb_stats c)\<rparr>
        in if \<not> cb_slowStartLargeReduction c1 then c1
           else
             let c2 = (if large_reduction_due lostBytes (cb_stats c1)
                       then c1\<lparr>cb_congestionWindow := MaxPacketNumber (cb_congestionWindow c1 - 1) (cb_minCongestionWindow c1)\<rparr>
                       else c1)
             in c2\<lparr>cb_slowstartThreshold := cb_congestionWindow c2\<rparr>)"

definition cb_cut :: "cubicSender \<Rightarrow> cubicSender" where
  "cb_cut c =
     (if cb_slowStartLargeReduction c \<and> cb_InSlowStart c then c\<lparr>cb_congestionWindow := cb_congestionWindow c - 1\<rparr>
      else if cb_reno c
      then c\<lparr>cb_congestionWindow := trunc64 (go32 (float32_of (cb_congestionWindow c) * RenoBeta (cb_numConnections c)))\<rparr>
      else let (w, cu) = CongestionWindowAfterPacketLoss (cb_congestionWindow c) (cb_cubic c)
           in c\<lparr>cb_cubic := cu, cb_congestionWindow := w\<rparr>)"

definition cb_OnPacketLost :: "PacketNumber \<Rightarrow> ByteCount \<Rightarrow> ByteCount \<Rightarrow> cubicSender \<Rightarrow> cubicSender" where
  "cb_OnPacketLost packetNumber lostBytes bytesInFlight c =
     (if packetNumber \<le> cb_largestSentAtLastCutback c then cb_lost_again lostBytes c
      else
        let c1 = c\<lparr>cb_lastCutbackExitedSlowstart := cb_InSlowStart c\<rparr>;
            c2 = (if cb_InSlowStart c1
                  then c1\<lparr>cb_stats := (cb_stats c1)\<lparr>cs_slowstartPacketsLost := cs_slowstartPacketsLost (cb_stats c1) + 1\<rparr>\<rparr> else c1);
            c3 = cb_cut (c2\<lparr>cb_prr := prr_OnPacketLost bytesInFlight (cb_prr c2)\<rparr>);
            c4 = (if cb_congestionWindow c3 < cb_minCongestionWindow c3
                  then c3\<lparr>cb_congestionWindow := cb_minCongestionWindow c3\<rparr> else c3)
        in c4\<lparr>cb_slowstartThreshold := cb_congestionWindow c4, cb_largestSentAtLastCutback := cb_largestSentPacketNumber c4,
              cb_congestionWindowCount := 0\<rparr>)"

definition cb_OnRetransmissionTimeout :: "bool \<Rightarrow> cubicSender \<Rightarrow> cubicSender" where
  "cb_OnRetransmissionTimeout packetsRetransmitted c =
     (let c1 = c\<lparr>cb_largestSentAtLastCutback := 0\<rparr>
      in if \<not> packetsRetransmitted then c1
         else c1\<lparr>cb_hybridSlowStart := hs_Restart (cb_hybridSlowStart c1), cb_cubic := cu_Reset (cb_cubic c1),
                 cb_slowstartThreshold := cb_congestionWindow c1 div 2, cb_congestionWindow := cb_minCongestionWindow c1\<rparr>)"

definition cb_OnConnectionMigration :: "cubicSender \<Rightarrow> cubicSender" where
  "cb_OnConnectionMigration c =
     c\<lparr>cb_hybridSlowStart := hs_Restart (cb_hybridSlowStart c), cb_prr := zeroPrrSender, cb_largestSentPacketNumber := 0,
       cb_largestAckedPacketNumber := 0, cb_largestSentAtLastCutback := 0, cb_lastCutbackExitedSlowstart := False,
       cb_cubic := cu_Reset (cb_cubic c), cb_congestionWindowCount := 0, cb_congestionWindow := cb_initialCongestionWindow c,
       cb_slowstartThreshold := cb_initialMaxCongestionWindow c, cb_maxTCPCongestionWindow := cb_initialMaxCongestionWindow c\<rparr>"

definition cb_SetSlowStartLargeReduction :: "bool \<Rightarrow> cubicSender \<Rightarrow> cubicSender" where
  "cb_SetSlowStartLargeReduction enabled c = c\<lparr>cb_slowStartLargeReduction := enabled\<rparr>"

definition cb_SetNumEmulatedConnections :: "int \<Rightarrow> cubicSender \<Rightarrow> cubicSender" where
  "cb_SetNumEmulatedConnections n c =
     (let m = max n 1 in c\<lparr>cb_numConnections := m, cb_cubic := (cb_cubic c)\<lparr>cu_numConnections := m\<rparr>\<rparr>)"

definition RetransmissionDelay :: "RTTStats \<Rightarrow> Duration" where
  "RetransmissionDelay rtt = (if rt_smoothedRTT rtt = 0 then 0 else rt_smoothedRTT rtt + rt_meanDeviation rtt * 4)"

definition cb_BandwidthEstimate :: "RTTStats \<Rightarrow> cubicSender \<Rightarrow> u64" where
  "cb_BandwidthEstimate rtt c =
     (if rt_smoothedRTT rtt = 0 then 0 else BandwidthFromDelta (cb_GetCongestionWindow c) (rt_smoothedRTT rtt))"

section \<open>The window stays in its bounds\<close>

subsection \<open>The factors\<close>

lemma RenoBeta_2: "8499 / 10000 \<le> RenoBeta 2" "RenoBeta 2 \<le> 8501 / 10000"
proof -
  have b: "69999 / 100000 \<le> beta32" "beta32 \<le> 70001 / 100000"
    unfolding beta32_def by (rule go32_ge go32_le; simp)+
  have n: "go32 2 = 2" "go32 1 = 1" using go32_exact [of 2] go32_exact [of 1] by simp_all
  define s where "s = go32 (1 + beta32)"
  have s: "16999 / 10000 \<le> s" "s \<le> 17001 / 10000"
    unfolding s_def by (rule go32_ge go32_le; use b in simp)+
  have "8499 / 10000 \<le> go32 (s / 2)" "go32 (s / 2) \<le> 8501 / 10000"
    by (rule go32_ge go32_le; use s in simp)+
  then show "8499 / 10000 \<le> RenoBeta 2" "RenoBeta 2 \<le> 8501 / 10000" by (simp_all add: RenoBeta_def n s_def)
qed

lemma cu_alpha_2: "9 / 10 \<le> cu_alpha 2" "cu_alpha 2 \<le> 99 / 100"
proof -
  define b where "b = RenoBeta 2"
  have b: "8499 / 10000 \<le> b" "b \<le> 8501 / 10000" using RenoBeta_2 by (simp_all add: b_def)
  have n: "go32 2 = 2" "go32 6 = 6" "go32 12 = 12" using go32_exact [of 2] go32_exact [of 6] go32_exact [of 12] by simp_all
  define p q where "p = go32 (1 - b)" and "q = go32 (1 + b)"
  have pq: "1489 / 10000 \<le> p" "p \<le> 1511 / 10000" "18480 / 10000 \<le> q" "q \<le> 18520 / 10000"
    unfolding p_def q_def by (rule go32_ge go32_le; use b in simp)+
  define r where "r = go32 (12 * p)"
  have r: "17 / 10 \<le> r" "r \<le> 1815 / 1000" unfolding r_def by (rule go32_ge go32_le; use pq in simp)+
  have pos: "0 < r" "0 < q" using r pq by simp_all
  have "r \<le> 984 / 1000 * q" "91 / 100 * q \<le> r" using r pq by simp_all
  then have rq: "r / q \<le> 984 / 1000" "91 / 100 \<le> r / q" "0 < r / q" 
    using mult_imp_div_pos_le [OF pos(2)] mult_imp_le_div_pos [OF pos(2)] divide_pos_pos [OF pos] by blast+
  define z where "z = r / q"
  have z: "z \<le> 984 / 1000" "91 / 100 \<le> z" "0 < z" using rq by (simp_all only: z_def)
  have "9 / 10 \<le> go32 z" "go32 z \<le> 99 / 100"
    by (rule go32_ge go32_le; use z in simp)+
  then show "9 / 10 \<le> cu_alpha 2" "cu_alpha 2 \<le> 99 / 100"
    by (simp_all add: cu_alpha_def Let_def n b_def p_def q_def r_def z_def)
qed

text \<open>Conversion of a fraction in the range of the words.\<close>

lemma trunc64_bounds:
  assumes "of_nat a \<le> x" "x < of_nat b" "b \<le> 2 ^ 64"
  shows "a \<le> unat (trunc64 x)" "unat (trunc64 x) < b"
proof -
  have "(of_int (int a) :: rat) \<le> x" using assms(1) by simp
  then have f: "int a \<le> \<lfloor>x\<rfloor>" by (simp add: le_floor_iff)
  have "x < of_int (int b)" using assms(2) by simp
  then have g: "\<lfloor>x\<rfloor> < int b" by (simp add: floor_less_iff)
  have "int b \<le> 2 ^ 64" using assms(3) by (metis of_nat_le_iff of_nat_numeral of_nat_power)
  then have lim: "\<lfloor>x\<rfloor> < 2 ^ 64" "0 \<le> \<lfloor>x\<rfloor>" using f g by linarith+
  then have "uint (trunc64 x) = \<lfloor>x\<rfloor>" using take_bit_int_eq_self [OF lim(2,1)] by (simp add: trunc64_def unsigned_of_int)
  then have "int (unat (trunc64 x)) = \<lfloor>x\<rfloor>" by simp
  then show "a \<le> unat (trunc64 x)" "unat (trunc64 x) < b" using f g by linarith+
qed

lemma float32_of_exact: "unat n < 2 ^ 24 \<Longrightarrow> float32_of n = of_nat (unat n)"
  using go32_exact [of "unat n"] by (simp add: float32_of_def)

lemma back_off:
  assumes "unat w < 2 ^ 24" "0 < w"
  shows "unat (trunc64 (go32 (float32_of w * RenoBeta 2))) \<le> unat w * 86 div 100"
    "unat w * 84 div 100 \<le> unat (trunc64 (go32 (float32_of w * RenoBeta 2)))"
proof -
  define n where "n = unat w"
  have n: "n < 2 ^ 24" "0 < n" using assms by (simp_all add: n_def unat_gt_0 word_greater_zero_iff)
  define x :: rat where "x = of_nat n * RenoBeta 2"
  have x: "of_nat n * (8499 / 10000) \<le> x" "x \<le> of_nat n * (8501 / 10000)"
    unfolding x_def by (intro mult_left_mono RenoBeta_2; simp)+
  have pos: "0 < x" unfolding x_def using n(2) RenoBeta_2(1) by (intro mult_pos_pos) auto
  have g: "of_nat n * (84 / 100) \<le> go32 x" "go32 x \<le> of_nat n * (86 / 100)"
    by (rule go32_ge [OF pos] go32_le [OF pos]; use x in \<open>simp add: field_simps\<close>)+
  have "(of_nat (n * 84 div 100) :: rat) \<le> of_nat n * (84 / 100)"
    using of_nat_mono [OF div_times_less_eq_dividend [of "n * 84" 100], where 'a = rat] by simp
  then have lo: "of_nat (n * 84 div 100) \<le> go32 x" using g(1) by linarith
  have "n * 86 < (n * 86 div 100 + 1) * 100" using dividend_less_div_times [of 100 "n * 86"] by simp
  then have "(of_nat (n * 86) :: rat) < of_nat ((n * 86 div 100 + 1) * 100)" by (simp only: of_nat_less_iff)
  then have "of_nat n * (86 / 100) < (of_nat (n * 86 div 100 + 1) :: rat)" by simp
  then have hi: "go32 x < of_nat (n * 86 div 100 + 1)" using g(2) by linarith
  have lim: "n * 86 div 100 + 1 \<le> 2 ^ 64" using n(1) by simp
  have f: "float32_of w * RenoBeta 2 = x" using n by (simp add: float32_of_exact n_def x_def)
  show "unat (trunc64 (go32 (float32_of w * RenoBeta 2))) \<le> unat w * 86 div 100"
    "unat w * 84 div 100 \<le> unat (trunc64 (go32 (float32_of w * RenoBeta 2)))"
    using trunc64_bounds [OF lo hi lim] unfolding f n_def by simp_all
qed

lemma cut_of_32: "trunc64 (go32 (float32_of 32 * RenoBeta 2)) = 27"
proof -
  define x where "x = go32 (32 * RenoBeta 2)"
  have pos: "0 < 32 * RenoBeta 2" using RenoBeta_2(1) by simp
  have "of_nat 27 \<le> x" "x < of_nat 28"
    using go32_ge [OF pos, of 27] go32_le [OF pos, of "279 / 10"] RenoBeta_2 by (simp_all add: x_def)
  from trunc64_bounds [OF this] have "unat (trunc64 x) = 27" by simp
  then have "trunc64 x = 27" by (simp add: word_unat_eq_iff)
  then show ?thesis using float32_of_exact [of 32] by (simp add: x_def)
qed

subsection \<open>The loop of the TCP window ends\<close>

lemma requiredAckCount_pos:
  assumes alpha: "9 / 10 \<le> alpha" "alpha \<le> 99 / 100" and est: "2 \<le> unat est" "unat est < 2 ^ 63"
  shows "1 \<le> unat (requiredAckCount alpha est)" "unat est < 2 ^ 24 \<Longrightarrow> unat est \<le> unat (requiredAckCount alpha est)"
proof -
  define n where "n = unat est"
  define x where "x = go32 (of_nat n)"
  have n: "(2::rat) \<le> of_nat n" "(of_nat n :: rat) < 2 ^ 63"
    using est by (metis n_def of_nat_le_iff of_nat_numeral, metis n_def of_nat_less_iff of_nat_numeral of_nat_power)
  have pos: "0 < (of_nat n :: rat)" using n(1) by simp
  have x: "3 / 2 \<le> x" "x \<le> of_nat n * (101 / 100)"
    unfolding x_def by (rule go32_ge [OF pos] go32_le [OF pos]; use n in simp)+
  have a: "0 < alpha" using alpha by simp
  have y: "3 / 2 \<le> x / alpha" "x / alpha \<le> of_nat n * (12 / 10)"
  proof (rule mult_imp_le_div_pos [OF a])
    show "3 / 2 * alpha \<le> x" using alpha x by simp
    have "of_nat n * (101 / 100) \<le> of_nat n * (12 / 10) * (9 / 10 :: rat)" using pos by simp
    also have "\<dots> \<le> of_nat n * (12 / 10) * alpha" using alpha(1) pos by (intro mult_left_mono) auto
    finally show "x / alpha \<le> of_nat n * (12 / 10)" using x(2) by (intro mult_imp_div_pos_le [OF a]) linarith
  qed
  have ypos: "0 < x / alpha" using x(1) a by (intro divide_pos_pos) auto
  have z: "1 \<le> go32 (x / alpha)" "go32 (x / alpha) \<le> of_nat n * (13 / 10)"
    by (rule go32_ge [OF ypos] go32_le [OF ypos]; use y n in simp)+
  have lim: "of_nat 1 \<le> go32 (x / alpha)" "go32 (x / alpha) < of_nat (2 ^ 64)" using z n by simp_all
  from trunc64_bounds(1) [OF this] show "1 \<le> unat (requiredAckCount alpha est)"
    by (simp add: requiredAckCount_def float32_of_def x_def n_def)
  show "unat est \<le> unat (requiredAckCount alpha est)" if "unat est < 2 ^ 24"
  proof -
    have "x = of_nat n" using go32_exact [OF that] by (simp add: x_def n_def)
    moreover have "of_nat n * (101 / 100) * alpha \<le> of_nat n" using alpha(2) pos by (simp add: mult.assoc)
    ultimately have "of_nat n * (101 / 100) \<le> x / alpha" by (intro mult_imp_le_div_pos [OF a]) simp
    then have "of_nat n \<le> go32 (x / alpha)" by (intro go32_ge [OF ypos]) simp
    from trunc64_bounds(1) [OF this lim(2)] show ?thesis by (simp add: requiredAckCount_def float32_of_def x_def n_def)
  qed
qed

lemma tcp_friendly_waits:
  assumes "2 \<le> unat est" "unat est < 2 ^ 24" "acked < est"
  shows "tcp_friendly (cu_alpha 2) acked est = Some (acked, est)"
proof -
  have "unat est < 2 ^ 63" using assms(2) by simp
  then have "acked < requiredAckCount (cu_alpha 2) est"
    using requiredAckCount_pos(2) [OF cu_alpha_2 assms(1) _ assms(2)] assms(3) by (simp add: word_less_nat_alt)
  then show ?thesis by (simp add: tcp_friendly.simps)
qed

lemma tcp_friendly_returns:
  assumes alpha: "9 / 10 \<le> alpha" "alpha \<le> 99 / 100" and est: "2 \<le> unat est" "unat est + unat acked < 2 ^ 63"
  shows "\<exists>a e. tcp_friendly alpha acked est = Some (a, e) \<and> unat a + unat e \<le> unat acked + unat est \<and> unat est \<le> unat e"
  using est
proof (induction "unat acked" arbitrary: acked est rule: less_induct)
  case less
  let ?r = "requiredAckCount alpha est"
  show ?case
  proof (cases "acked < ?r")
    case True
    then show ?thesis by (simp add: tcp_friendly.simps)
  next
    case False
    have r: "1 \<le> unat ?r" using requiredAckCount_pos [OF alpha less(2)] less(3) by simp
    have sub: "unat (acked - ?r) = unat acked - unat ?r" "unat ?r \<le> unat acked"
      using False by (simp_all add: unat_sub word_le_nat_alt not_less)
    have add: "unat (est + 1) = unat est + 1" using less(3) by (simp add: unat_word_ariths)
    have pre: "unat (acked - ?r) < unat acked" "2 \<le> unat (est + 1)" "unat (est + 1) + unat (acked - ?r) < 2 ^ 63"
      using sub add r less(2,3) by simp_all
    obtain a e where "tcp_friendly alpha (acked - ?r) (est + 1) = Some (a, e)"
      "unat a + unat e \<le> unat (acked - ?r) + unat (est + 1)" "unat (est + 1) \<le> unat e"
      using less(1) [OF pre] by blast
    then show ?thesis using False sub add r by (subst tcp_friendly.simps) auto
  qed
qed

subsection \<open>The invariant\<close>

text \<open>After \<open>n\<close> events: two emulated connections, and a window of TCP that is not empty once it is used.\<close>

definition cubic_wf :: "nat \<Rightarrow> Cubic \<Rightarrow> bool" where
  "cubic_wf n c \<longleftrightarrow> cu_numConnections c = 2 \<and>
     unat (cu_ackedPacketsCount c) + unat (cu_estimatedTCPcongestionWindow c) \<le> 2 ^ 24 + n \<and>
     (cu_epoch c \<noteq> 0 \<or> cu_lastCongestionWindow c \<noteq> 0 \<longrightarrow> 2 \<le> unat (cu_estimatedTCPcongestionWindow c))"

definition cb_wf :: "PacketNumber \<Rightarrow> nat \<Rightarrow> cubicSender \<Rightarrow> bool" where
  "cb_wf maximal n c \<longleftrightarrow> cubic_wf n (cb_cubic c) \<and> cb_numConnections c = 2 \<and> cb_minCongestionWindow c = 2 \<and>
     cb_maxTCPCongestionWindow c = maximal \<and> cb_initialMaxCongestionWindow c = maximal \<and> unat maximal < 2 ^ 24 \<and>
     2 \<le> cb_initialCongestionWindow c \<and> cb_initialCongestionWindow c \<le> maximal \<and>
     2 \<le> cb_congestionWindow c \<and> cb_congestionWindow c \<le> maximal"

lemma cubic_wf_Suc: "cubic_wf n c \<Longrightarrow> cubic_wf (Suc n) c"
  by (auto simp: cubic_wf_def)

lemma cubic_epoch_fields [simp]:
  "cu_numConnections (cubic_epoch cbrt cur c) = cu_numConnections c"
  "cu_lastCongestionWindow (cubic_epoch cbrt cur c) = cu_lastCongestionWindow c"
  by (simp_all add: cubic_epoch_def Let_def)

lemma cubic_epoch_counts:
  "cu_ackedPacketsCount (cubic_epoch cbrt cur c) = (if cu_epoch c = 0 then 1 else cu_ackedPacketsCount c)"
  "cu_estimatedTCPcongestionWindow (cubic_epoch cbrt cur c) = (if cu_epoch c = 0 then cur else cu_estimatedTCPcongestionWindow c)"
  by (simp_all add: cubic_epoch_def Let_def)

lemma CongestionWindowAfterAck_ok:
  assumes wf: "cubic_wf n c" and n: "n < 2 ^ 62" and cur: "2 \<le> unat cur" "unat cur < 2 ^ 24"
  shows "\<exists>w c'. CongestionWindowAfterAck cbrt cur delayMin c = Some (w, c') \<and> 2 \<le> unat w \<and> cubic_wf (Suc n) c'"
proof -
  note f = wf [unfolded cubic_wf_def]
  define c1 where "c1 = c\<lparr>cu_ackedPacketsCount := cu_ackedPacketsCount c + 1\<rparr>"
  have acked: "unat (cu_ackedPacketsCount c + 1) = unat (cu_ackedPacketsCount c) + 1"
    using f n by (simp add: unat_word_ariths)
  have wf1: "cubic_wf (Suc n) c1" using f acked by (simp add: cubic_wf_def c1_def)
  show ?thesis
  proof (cases "cu_lastCongestionWindow c1 = cur \<and> cu_clock c1 - cu_lastUpdateTime c1 \<le> maxCubicTimeInterval")
    case True
    have "cur \<noteq> 0" using cur(1) by auto
    then have "2 \<le> unat (cu_estimatedTCPcongestionWindow c1)" using True wf1 by (simp add: cubic_wf_def)
    then show ?thesis using True wf1
      by (auto simp: CongestionWindowAfterAck_def Let_def c1_def MaxPacketNumber_def word_less_nat_alt max_def word_le_nat_alt)
  next
    case False
    define c2 where "c2 = cubic_epoch cbrt cur (c1\<lparr>cu_lastCongestionWindow := cur, cu_lastUpdateTime := cu_clock c1\<rparr>)"
    have c2: "cu_numConnections c2 = 2" "2 \<le> unat (cu_estimatedTCPcongestionWindow c2)"
      "unat (cu_ackedPacketsCount c2) + unat (cu_estimatedTCPcongestionWindow c2) \<le> 2 ^ 24 + Suc n"
      using wf1 cur by (auto simp: c2_def cubic_wf_def cubic_epoch_counts)
    then have "unat (cu_estimatedTCPcongestionWindow c2) + unat (cu_ackedPacketsCount c2) < 2 ^ 63" using n by simp
    from tcp_friendly_returns [OF cu_alpha_2 c2(2) this]
    obtain a e where t: "tcp_friendly (cu_alpha (cu_numConnections c2)) (cu_ackedPacketsCount c2) (cu_estimatedTCPcongestionWindow c2) = Some (a, e)"
      "unat a + unat e \<le> unat (cu_ackedPacketsCount c2) + unat (cu_estimatedTCPcongestionWindow c2)"
      "unat (cu_estimatedTCPcongestionWindow c2) \<le> unat e" using c2(1) by auto
    let ?t = "cubic_target delayMin c2"
    have "CongestionWindowAfterAck cbrt cur delayMin c = Some (if ?t < e then e else ?t, c2\<lparr>cu_ackedPacketsCount := a,
        cu_estimatedTCPcongestionWindow := e, cu_lastTargetCongestionWindow := ?t\<rparr>)"
      unfolding CongestionWindowAfterAck_def Let_def c1_def [symmetric] if_not_P [OF False] c2_def [symmetric] t(1) by simp
    moreover have "2 \<le> unat (if ?t < e then e else ?t)" using c2(2) t(3) by (auto simp: word_less_nat_alt)
    moreover have "cubic_wf (Suc n) (c2\<lparr>cu_ackedPacketsCount := a, cu_estimatedTCPcongestionWindow := e, cu_lastTargetCongestionWindow := ?t\<rparr>)"
      using c2 t(2,3) by (simp add: cubic_wf_def)
    ultimately show ?thesis by blast
  qed
qed

lemma cb_wf_Suc: "cb_wf m n c \<Longrightarrow> cb_wf m (Suc n) c"
  by (simp add: cb_wf_def cubic_wf_Suc)

lemma window_small: "cb_wf m n c \<Longrightarrow> 2 \<le> unat (cb_congestionWindow c) \<and> unat (cb_congestionWindow c) < 2 ^ 24"
  by (auto simp: cb_wf_def word_le_nat_alt)

lemma maybeIncreaseCwnd_ok:
  assumes wf: "cb_wf m n c" and n: "n < 2 ^ 62"
  shows "\<exists>c'. cb_maybeIncreaseCwnd cbrt rtt bytesInFlight c = Some c' \<and> cb_wf m (Suc n) c'"
proof -
  note f = wf [unfolded cb_wf_def]
  have inc: "2 \<le> cb_congestionWindow c + 1 \<and> cb_congestionWindow c + 1 \<le> m" if "\<not> cb_maxTCPCongestionWindow c \<le> cb_congestionWindow c"
  proof -
    have "unat (cb_congestionWindow c + 1) = unat (cb_congestionWindow c) + 1" using window_small [OF wf] by (simp add: unat_word_ariths)
    then show ?thesis using f that by (auto simp: word_le_nat_alt)
  qed
  obtain w cu where a: "CongestionWindowAfterAck cbrt (cb_congestionWindow c) (rt_minRTT rtt) (cb_cubic c) = Some (w, cu)"
    "2 \<le> unat w" "cubic_wf (Suc n) cu"
    using CongestionWindowAfterAck_ok [of n "cb_cubic c" "cb_congestionWindow c" cbrt "rt_minRTT rtt"] window_small [OF wf] f n by blast
  have cu: "cubic_wf (Suc n) (OnApplicationLimited (cb_cubic c))" using f by (auto simp: OnApplicationLimited_def cubic_wf_def)
  show ?thesis
    using f inc a cu cubic_wf_Suc [of n "cb_cubic c"] unfolding cb_maybeIncreaseCwnd_def
    by (auto simp: cb_wf_def Let_def MinPacketNumber_def word_le_nat_alt min_def)
qed

lemma cb_OnPacketAcked_ok:
  assumes wf: "cb_wf m n c" and n: "n < 2 ^ 62"
  shows "\<exists>c'. cb_OnPacketAcked cbrt rtt pn ackedBytes bytesInFlight c = Some c' \<and> cb_wf m (Suc n) c'"
proof -
  define c1 where "c1 = c\<lparr>cb_largestAckedPacketNumber := MaxPacketNumber pn (cb_largestAckedPacketNumber c)\<rparr>"
  have wf1: "cb_wf m n c1" using wf by (simp add: c1_def cb_wf_def)
  obtain c2 where "cb_maybeIncreaseCwnd cbrt rtt bytesInFlight c1 = Some c2" "cb_wf m (Suc n) c2"
    using maybeIncreaseCwnd_ok [OF wf1 n] by blast
  then show ?thesis using cb_wf_Suc [OF wf1]
    unfolding cb_OnPacketAcked_def Let_def c1_def [symmetric] by (auto simp: cb_wf_def)
qed

lemma cb_cut_eq:
  assumes wf: "cb_wf m n c"
  shows "\<exists>w cu. cb_cut c = c\<lparr>cb_cubic := cu, cb_congestionWindow := w\<rparr> \<and> w \<le> m \<and> cubic_wf n cu"
proof -
  note f = wf [unfolded cb_wf_def] and w = window_small [OF wf]
  have pos: "0 < cb_congestionWindow c" using w by (auto simp: word_less_nat_alt)
  have "unat (cb_congestionWindow c) * 86 div 100 \<le> unat (cb_congestionWindow c)" by linarith
  then have cut: "trunc64 (go32 (float32_of (cb_congestionWindow c) * RenoBeta 2)) \<le> m"
    using back_off(1) [OF _ pos] w f by (simp add: word_le_nat_alt)
  have "unat (cb_congestionWindow c - 1) = unat (cb_congestionWindow c) - 1" using w by (simp add: unat_sub word_le_nat_alt)
  then have "unat (cb_congestionWindow c - 1) \<le> unat m" using f by (simp add: word_le_nat_alt le_diff_conv)
  then have dec: "cb_congestionWindow c - 1 \<le> m" by (simp add: word_le_nat_alt)
  have n2: "cb_numConnections c = 2" using f by blast
  have same: "c\<lparr>cb_congestionWindow := x\<rparr> = c\<lparr>cb_cubic := cb_cubic c, cb_congestionWindow := x\<rparr>" for x by simp
  show ?thesis
  proof (cases "cb_slowStartLargeReduction c \<and> cb_InSlowStart c")
    case True
    then show ?thesis unfolding cb_cut_def if_P [OF True] same using dec f by blast
  next
    case large: False
    show ?thesis
    proof (cases "cb_reno c")
      case True
      then show ?thesis unfolding cb_cut_def if_not_P [OF large] if_P [OF True] same n2 using cut f by blast
    next
      case False
      obtain cu where cu: "CongestionWindowAfterPacketLoss (cb_congestionWindow c) (cb_cubic c) =
          (trunc64 (go32 (float32_of (cb_congestionWindow c) * RenoBeta 2)), cu)" "cubic_wf n cu"
        using f by (auto simp: CongestionWindowAfterPacketLoss_def Let_def cubic_wf_def)
      then show ?thesis unfolding cb_cut_def if_not_P [OF large] if_not_P [OF False] cu(1) Let_def prod.case using cut by blast
    qed
  qed
qed

lemma cb_OnPacketLost_ok:
  assumes wf: "cb_wf m n c"
  shows "cb_wf m n (cb_OnPacketLost pn lostBytes bytesInFlight c)"
proof (cases "pn \<le> cb_largestSentAtLastCutback c")
  case True
  note f = wf [unfolded cb_wf_def]
  have "2 \<le> MaxPacketNumber (cb_congestionWindow c - 1) 2" "MaxPacketNumber (cb_congestionWindow c - 1) 2 \<le> m"
    using window_small [OF wf] f by (auto simp: MaxPacketNumber_def word_le_nat_alt max_def unat_sub)
  then show ?thesis using True f by (auto simp: cb_OnPacketLost_def cb_lost_again_def Let_def cb_wf_def)
next
  case False
  define c1 where "c1 = c\<lparr>cb_lastCutbackExitedSlowstart := cb_InSlowStart c\<rparr>"
  define c2 where "c2 = (if cb_InSlowStart c1
    then c1\<lparr>cb_stats := (cb_stats c1)\<lparr>cs_slowstartPacketsLost := cs_slowstartPacketsLost (cb_stats c1) + 1\<rparr>\<rparr> else c1)"
  define c3 where "c3 = c2\<lparr>cb_prr := prr_OnPacketLost bytesInFlight (cb_prr c2)\<rparr>"
  have wf3: "cb_wf m n c3" using wf by (simp add: c3_def c2_def c1_def cb_wf_def)
  obtain w cu where cut: "cb_cut c3 = c3\<lparr>cb_cubic := cu, cb_congestionWindow := w\<rparr>" "w \<le> m" "cubic_wf n cu"
    using cb_cut_eq [OF wf3] by blast
  have m: "2 \<le> m" using wf by (auto simp: cb_wf_def intro: order_trans)
  define w' where "w' = (if w < cb_minCongestionWindow c3 then cb_minCongestionWindow c3 else w)"
  have w': "2 \<le> w'" "w' \<le> m" using cut(2) wf3 m by (simp_all add: w'_def cb_wf_def not_less)
  have "cb_OnPacketLost pn lostBytes bytesInFlight c = c3\<lparr>cb_cubic := cu, cb_congestionWindow := w', cb_slowstartThreshold := w',
      cb_largestSentAtLastCutback := cb_largestSentPacketNumber c3, cb_congestionWindowCount := 0\<rparr>"
    using False unfolding cb_OnPacketLost_def Let_def c1_def [symmetric] c2_def [symmetric] c3_def [symmetric] cut(1)
    by (simp add: w'_def)
  then show ?thesis using wf3 cut(3) w' by (simp add: cb_wf_def)
qed

subsection \<open>Runs of the sender\<close>

text \<open>What can happen to a sender, with the time its clock shows then. Nobody changes the number of emulated connections.\<close>

datatype cubic_event =
    PacketSent PacketNumber ByteCount bool
  | PacketAcked RTTStats PacketNumber ByteCount ByteCount
  | PacketLost PacketNumber ByteCount ByteCount
  | RetransmissionTimeout bool
  | SlowStartCheck RTTStats
  | Migration
  | LargeReduction bool

definition cb_set_clock :: "int \<Rightarrow> cubicSender \<Rightarrow> cubicSender" where
  "cb_set_clock now c = c\<lparr>cb_cubic := (cb_cubic c)\<lparr>cu_clock := now\<rparr>\<rparr>"

fun cubic_event_step :: "(u64 \<Rightarrow> u32) \<Rightarrow> cubic_event \<Rightarrow> cubicSender \<Rightarrow> cubicSender option" where
  "cubic_event_step cbrt (PacketSent pn bytes r) c = Some (snd (cb_OnPacketSent pn bytes r c))"
| "cubic_event_step cbrt (PacketAcked rtt pn bytes fl) c = cb_OnPacketAcked cbrt rtt pn bytes fl c"
| "cubic_event_step cbrt (PacketLost pn bytes fl) c = Some (cb_OnPacketLost pn bytes fl c)"
| "cubic_event_step cbrt (RetransmissionTimeout r) c = Some (cb_OnRetransmissionTimeout r c)"
| "cubic_event_step cbrt (SlowStartCheck rtt) c = Some (cb_MaybeExitSlowStart rtt c)"
| "cubic_event_step cbrt Migration c = Some (cb_OnConnectionMigration c)"
| "cubic_event_step cbrt (LargeReduction b) c = Some (cb_SetSlowStartLargeReduction b c)"

fun cubic_run :: "(u64 \<Rightarrow> u32) \<Rightarrow> (int \<times> cubic_event) list \<Rightarrow> cubicSender \<Rightarrow> cubicSender option" where
  "cubic_run cbrt [] c = Some c"
| "cubic_run cbrt ((now, ev) # evs) c =
     (case cubic_event_step cbrt ev (cb_set_clock now c) of None \<Rightarrow> None | Some c1 \<Rightarrow> cubic_run cbrt evs c1)"

lemma cubic_wf_Reset: "cubic_wf n c \<Longrightarrow> cubic_wf n (cu_Reset c)"
  by (simp add: cubic_wf_def cu_Reset_def)

lemma cubic_event_ok:
  assumes wf: "cb_wf m n c" and n: "n < 2 ^ 62"
  shows "\<exists>c'. cubic_event_step cbrt ev c = Some c' \<and> cb_wf m (Suc n) c'"
proof (cases ev)
  case (PacketSent pn bytes r)
  then show ?thesis using cb_wf_Suc [OF wf] by (auto simp: cb_OnPacketSent_def Let_def cb_wf_def)
next
  case (PacketAcked rtt pn bytes fl)
  then show ?thesis using cb_OnPacketAcked_ok [OF wf n] by simp
next
  case (PacketLost pn bytes fl)
  then show ?thesis using cb_wf_Suc [OF cb_OnPacketLost_ok [OF wf]] by simp
next
  case (RetransmissionTimeout r)
  have "2 \<le> m" using wf by (auto simp: cb_wf_def intro: order_trans)
  then show ?thesis using cb_wf_Suc [OF wf] RetransmissionTimeout cubic_wf_Reset
    by (auto simp: cb_OnRetransmissionTimeout_def Let_def cb_wf_def)
next
  case (SlowStartCheck rtt)
  then show ?thesis using cb_wf_Suc [OF wf]
    by (auto simp: cb_MaybeExitSlowStart_def cb_ExitSlowstart_def cb_wf_def Let_def case_prod_beta)
next
  case Migration
  then show ?thesis using cb_wf_Suc [OF wf] cubic_wf_Reset by (auto simp: cb_OnConnectionMigration_def cb_wf_def)
next
  case (LargeReduction b)
  then show ?thesis using cb_wf_Suc [OF wf] by (auto simp: cb_SetSlowStartLargeReduction_def cb_wf_def)
qed

lemma cubic_run_ok:
  assumes "cb_wf m n c" "n + length evs < 2 ^ 62"
  shows "\<exists>c'. cubic_run cbrt evs c = Some c' \<and> cb_wf m (n + length evs) c'"
  using assms
proof (induction evs arbitrary: n c)
  case (Cons e evs)
  obtain now ev where e: "e = (now, ev)" by fastforce
  have "cb_wf m n (cb_set_clock now c)" using Cons.prems(1) by (simp add: cb_set_clock_def cb_wf_def cubic_wf_def)
  then obtain c1 where "cubic_event_step cbrt ev (cb_set_clock now c) = Some c1" "cb_wf m (Suc n) c1"
    using cubic_event_ok Cons.prems(2) by fastforce
  then show ?case using Cons.IH [of "Suc n" c1] Cons.prems(2) by (simp add: e)
qed simp

lemma NewCubicSender_wf:
  assumes "2 \<le> initial" "initial \<le> maximal" "unat maximal < 2 ^ 24"
  shows "cb_wf maximal 0 (NewCubicSender clock reno initial maximal)"
  using assms
  by (simp add: cb_wf_def NewCubicSender_def cubic_wf_def NewCubic_def defaultNumConnections_def defaultMinimumCongestionWindow_def)

lemma same_stats: "\<exists>st. c = c\<lparr>cb_stats := st\<rparr>" for c :: cubicSender
  by (rule exI [of _ "cb_stats c"]) simp

lemma lost_again_fields:
  assumes "pn \<le> cb_largestSentAtLastCutback c" "\<not> cb_slowStartLargeReduction c"
  shows "\<exists>st. cb_OnPacketLost pn b fl c = c\<lparr>cb_stats := st\<rparr>"
  using assms same_stats [of c] by (auto simp: cb_OnPacketLost_def cb_lost_again_def Let_def)

lemma burst_fields:
  assumes "\<forall>(q, b, fl)\<in>set ps. q \<le> cb_largestSentAtLastCutback c" "\<not> cb_slowStartLargeReduction c"
  shows "\<exists>st. fold (\<lambda>(q, b, fl). cb_OnPacketLost q b fl) ps c = c\<lparr>cb_stats := st\<rparr>"
  using assms
proof (induction ps arbitrary: c)
  case Nil
  then show ?case using same_stats [of c] by simp
next
  case (Cons p ps)
  obtain q b fl where p: "p = (q, b, fl)" by (cases p) auto
  obtain st where st: "cb_OnPacketLost q b fl c = c\<lparr>cb_stats := st\<rparr>" using lost_again_fields [of q c b fl] Cons.prems p by auto
  have "\<forall>(q, b, fl)\<in>set ps. q \<le> cb_largestSentAtLastCutback (c\<lparr>cb_stats := st\<rparr>)" "\<not> cb_slowStartLargeReduction (c\<lparr>cb_stats := st\<rparr>)"
    using Cons.prems by auto
  from Cons.IH [OF this] show ?case by (auto simp: p st)
qed

lemma first_loss:
  assumes wf: "cb_wf m n c" and loss: "cb_largestSentAtLastCutback c < pn" "\<not> cb_slowStartLargeReduction c"
    and c1: "c1 = cb_OnPacketLost pn lost flight c"
  shows "max 2 (unat (cb_congestionWindow c) * 84 div 100) \<le> unat (cb_congestionWindow c1)"
    "unat (cb_congestionWindow c1) \<le> max 2 (unat (cb_congestionWindow c) * 86 div 100)"
    "cb_slowstartThreshold c1 = cb_congestionWindow c1" "cb_largestSentAtLastCutback c1 = cb_largestSentPacketNumber c"
    "\<not> cb_slowStartLargeReduction c1"
proof -
  note f = wf [unfolded cb_wf_def] and w = window_small [OF wf]
  have pos: "0 < cb_congestionWindow c" using w by (auto simp: word_less_nat_alt)
  define v where "v = trunc64 (go32 (float32_of (cb_congestionWindow c) * RenoBeta 2))"
  have v: "unat v \<le> unat (cb_congestionWindow c) * 86 div 100" "unat (cb_congestionWindow c) * 84 div 100 \<le> unat v"
    using back_off [OF _ pos] w by (simp_all add: v_def)
  have n2: "cb_numConnections c = 2" "cu_numConnections (cb_cubic c) = 2" "cb_minCongestionWindow c = 2"
    using f by (auto simp: cubic_wf_def)
  have c1': "cb_congestionWindow c1 = (if v < 2 then 2 else v)" "cb_slowstartThreshold c1 = cb_congestionWindow c1"
    "cb_largestSentAtLastCutback c1 = cb_largestSentPacketNumber c" "\<not> cb_slowStartLargeReduction c1"
    using loss n2 by (auto simp: c1 cb_OnPacketLost_def cb_cut_def Let_def CongestionWindowAfterPacketLoss_def v_def)
  show "cb_slowstartThreshold c1 = cb_congestionWindow c1" "cb_largestSentAtLastCutback c1 = cb_largestSentPacketNumber c"
    "\<not> cb_slowStartLargeReduction c1" using c1' by simp_all
  show "max 2 (unat (cb_congestionWindow c) * 84 div 100) \<le> unat (cb_congestionWindow c1)"
    "unat (cb_congestionWindow c1) \<le> max 2 (unat (cb_congestionWindow c) * 86 div 100)"
    using v by (auto simp: c1'(1) word_less_nat_alt)
qed

section \<open>The properties\<close>

text \<open>
  C19. The congestion window of CUBIC and Reno stays in its bounds. Whatever packets are sent, acked and lost, and whatever
  the clock, the RTT and the cube root give, every event returns (the loop of the TCP window ends) and the window is never below
  two packets nor above the maximum.
\<close>
theorem cubic_window_bounds:
  assumes "2 \<le> initial" "initial \<le> maximal" "unat maximal < 2 ^ 24" "length evs < 2 ^ 62"
  shows "\<exists>c. cubic_run cbrt evs (NewCubicSender clock reno initial maximal) = Some c \<and>
    2 \<le> cb_congestionWindow c \<and> cb_congestionWindow c \<le> maximal"
  using cubic_run_ok [OF NewCubicSender_wf [OF assms(1-3)], of evs cbrt clock reno] assms(4) by (auto simp: cb_wf_def)

theorem cubic_window_bounds_witness:
  "\<exists>c. cubic_run (\<lambda>n. 0) [(10, PacketSent 1 1350 True), (20, PacketLost 1 1350 1350)]
     (NewCubicSender 5 False InitialCongestionWindow DefaultMaxCongestionWindow) = Some c \<and>
     2 \<le> cb_congestionWindow c \<and> cb_congestionWindow c \<le> 2500"
  using cubic_window_bounds [of InitialCongestionWindow DefaultMaxCongestionWindow "[(10, PacketSent 1 1350 True), (20, PacketLost 1 1350 1350)]"
      "\<lambda>n. 0" 5 False]
  by (simp add: InitialCongestionWindow_def DefaultMaxCongestionWindow_def)


lemmas cubic_consts = InitialCongestionWindow_def DefaultMaxCongestionWindow_def DefaultTCPMSS_def maxBurstBytes_def defaultNumConnections_def
  defaultMinimumCongestionWindow_def cubeScale_def cubeCongestionWindowScale_def maxCubicTimeInterval_def

text \<open>
  After a pause the window jumps to the maximum. The time since which the application limits the sender is not forgotten when a loss
  starts a new epoch; the second ACK after the loss shifts the new epoch by all of it, into the future, the cubic function
  is evaluated at a negative time and its result falls below zero, where the unsigned number wraps. Here a window of 32 packets,
  cut to 27 by a loss nine seconds after the last time the window was not used up, becomes the 2500 packets of the maximum.
\<close>
theorem cubic_jump_after_pause:
  "\<exists>c1 c2. cubic_run (\<lambda>n. 2375)
      [(1 * Second, PacketAcked zeroRTTStats 1 1350 0), (10 * Second, PacketSent 2 1350 True),
       (10 * Second, PacketLost 2 1350 46720)]
      (NewCubicSender 0 False InitialCongestionWindow DefaultMaxCongestionWindow) = Some c1 \<and>
     cb_congestionWindow c1 = 27 \<and>
     cubic_run (\<lambda>n. 2375)
      [(10 * Second + 100 * Millisecond, PacketAcked zeroRTTStats 3 1350 100000),
       (10 * Second + 200 * Millisecond, PacketAcked zeroRTTStats 4 1350 100000)] c1 = Some c2 \<and>
     cb_congestionWindow c2 = 2500"
proof -
  define c0 where "c0 = NewCubicSender 0 False InitialCongestionWindow DefaultMaxCongestionWindow"
  define c1 where "c1 = cb_OnPacketLost 2 1350 46720 (cb_set_clock (10 * Second)
    (snd (cb_OnPacketSent 2 1350 True (cb_set_clock (10 * Second)
      (c0\<lparr>cb_largestAckedPacketNumber := 1, cb_cubic := (cb_cubic c0)\<lparr>cu_clock := Second, cu_appLimitedStartTime := Second\<rparr>\<rparr>)))))"
  have 1: "cubic_run (\<lambda>n. 2375)
      [(1 * Second, PacketAcked zeroRTTStats 1 1350 0), (10 * Second, PacketSent 2 1350 True),
       (10 * Second, PacketLost 2 1350 46720)] c0 = Some c1"
    by (simp add: c1_def c0_def NewCubicSender_def NewCubic_def cb_set_clock_def cb_OnPacketAcked_def MaxPacketNumber_def cb_InRecovery_def
        cb_maybeIncreaseCwnd_def cb_isCwndLimited_def cb_GetCongestionWindow_def cb_InSlowStart_def cb_GetSlowStartThreshold_def
        cubic_consts OnApplicationLimited_def hs_OnPacketAcked_def zeroHybridSlowStart_def IsEndOfRound_def Second_def)
  have f: "cb_congestionWindow c1 = 27" "cb_slowstartThreshold c1 = 27" "cb_largestSentAtLastCutback c1 = 2" "cb_reno c1 = False"
    "cb_maxTCPCongestionWindow c1 = 2500" "cu_epoch (cb_cubic c1) = 0" "cu_appLimitedStartTime (cb_cubic c1) = Second"
    "cu_lastMaxCongestionWindow (cb_cubic c1) = 32" "cu_lastCongestionWindow (cb_cubic c1) = 0" "cu_numConnections (cb_cubic c1) = 2"
    "cb_largestAckedPacketNumber c1 = 1"
    by (simp_all add: c1_def c0_def NewCubicSender_def NewCubic_def cb_set_clock_def cb_InRecovery_def
        cb_GetCongestionWindow_def cb_InSlowStart_def cb_GetSlowStartThreshold_def cb_OnPacketSent_def cb_OnPacketLost_def cb_cut_def
        CongestionWindowAfterPacketLoss_def cut_of_32 cubic_consts Let_def)
  define c2 where "c2 = c1\<lparr>cb_largestAckedPacketNumber := 3, cb_congestionWindow := 28, cb_cubic := (cb_cubic c1)\<lparr>cu_clock := 10100000000,
        cu_lastCongestionWindow := 27, cu_lastUpdateTime := 10100000000, cu_epoch := 10100000000, cu_ackedPacketsCount := 1,
        cu_estimatedTCPcongestionWindow := 27, cu_timeToOriginPoint := 2375, cu_originPointCongestionWindow := 32,
        cu_lastTargetCongestionWindow := 28\<rparr>\<rparr>"
  have 2: "cubic_event_step (\<lambda>n. 2375) (PacketAcked zeroRTTStats 3 1350 100000) (cb_set_clock (10 * Second + 100 * Millisecond) c1) = Some c2"
    by (simp add: f c2_def cb_set_clock_def cb_OnPacketAcked_def MaxPacketNumber_def cb_InRecovery_def
        cb_maybeIncreaseCwnd_def cb_isCwndLimited_def cb_GetCongestionWindow_def cb_InSlowStart_def cb_GetSlowStartThreshold_def
        cubic_consts Second_def Millisecond_def zeroRTTStats_def CongestionWindowAfterAck_def cubic_epoch_def cubic_target_def cubic_elapsed_def
        tcp_friendly_waits MinPacketNumber_def go_div_def wrap64_def Microsecond_def Let_def)
  have 3: "\<exists>c3. cubic_event_step (\<lambda>n. 2375) (PacketAcked zeroRTTStats 4 1350 100000) (cb_set_clock (10 * Second + 200 * Millisecond) c2) = Some c3 \<and>
      cb_congestionWindow c3 = 2500"
    by (simp add: f c2_def cb_set_clock_def cb_OnPacketAcked_def MaxPacketNumber_def cb_InRecovery_def
        cb_maybeIncreaseCwnd_def cb_isCwndLimited_def cb_GetCongestionWindow_def cb_InSlowStart_def cb_GetSlowStartThreshold_def
        cubic_consts Second_def Millisecond_def zeroRTTStats_def CongestionWindowAfterAck_def cubic_epoch_def cubic_target_def cubic_elapsed_def
        tcp_friendly_waits MinPacketNumber_def go_div_def wrap64_def Microsecond_def Let_def)
  show ?thesis using 1 f(1) 2 3 unfolding c0_def by auto
qed

text \<open>
  C26. A burst of losses counts once. The first loss of a packet sent after the last cutback cuts the window to between 84 and 86 percent, but not
  below two packets, and ends slow start; losses of packets that were sent before that cut change nothing any more.
\<close>
theorem cubic_one_cut:
  assumes run: "cubic_run cbrt evs (NewCubicSender clock reno initial maximal) = Some c" "length evs < 2 ^ 62"
    and bounds: "2 \<le> initial" "initial \<le> maximal" "unat maximal < 2 ^ 24"
    and loss: "cb_largestSentAtLastCutback c < pn" "\<not> cb_slowStartLargeReduction c"
    and burst: "\<forall>(q, b, fl)\<in>set ps. q \<le> cb_largestSentPacketNumber c"
  shows "let w = unat (cb_congestionWindow c); c1 = cb_OnPacketLost pn lost flight c; c2 = fold (\<lambda>(q, b, fl). cb_OnPacketLost q b fl) ps c1 in
    max 2 (w * 84 div 100) \<le> unat (cb_congestionWindow c2) \<and> unat (cb_congestionWindow c2) \<le> max 2 (w * 86 div 100) \<and>
    \<not> cb_InSlowStart c2 \<and> cb_congestionWindow c2 = cb_congestionWindow c1"
proof -
  have wf: "cb_wf maximal (length evs) c"
    using cubic_run_ok [OF NewCubicSender_wf [OF bounds], of evs cbrt clock reno] run by simp
  define c1 where "c1 = cb_OnPacketLost pn lost flight c"
  note f = first_loss [OF wf loss c1_def]
  have "\<forall>(q, b, fl)\<in>set ps. q \<le> cb_largestSentAtLastCutback c1" using burst f(4) by auto
  then obtain st where "fold (\<lambda>(q, b, fl). cb_OnPacketLost q b fl) ps c1 = c1\<lparr>cb_stats := st\<rparr>" using burst_fields f(5) by blast
  then show ?thesis using f unfolding Let_def c1_def [symmetric]
    by (simp add: cb_InSlowStart_def cb_GetCongestionWindow_def cb_GetSlowStartThreshold_def)
qed

theorem cubic_one_cut_witness:
  "\<exists>c. cubic_run (\<lambda>n. 0) [(10, PacketSent 1 1350 True), (20, PacketSent 2 1350 True)]
     (NewCubicSender 5 False InitialCongestionWindow DefaultMaxCongestionWindow) = Some c \<and>
     unat (cb_congestionWindow (cb_OnPacketLost 2 1350 0 (cb_OnPacketLost 1 1350 1350 c))) \<le> 27"
proof -
  let ?run = "cubic_run (\<lambda>n. 0) [(10, PacketSent 1 1350 True), (20, PacketSent 2 1350 True)]
     (NewCubicSender 5 False InitialCongestionWindow DefaultMaxCongestionWindow)"
  obtain c where c: "?run = Some c" "cb_largestSentAtLastCutback c = 0" "\<not> cb_slowStartLargeReduction c" "cb_largestSentPacketNumber c = 2"
    "cb_congestionWindow c = 32"
    by (simp add: NewCubicSender_def cb_set_clock_def cb_OnPacketSent_def cb_InRecovery_def cubic_consts)
  have "let w = unat (cb_congestionWindow c); c1 = cb_OnPacketLost 1 1350 1350 c; c2 = fold (\<lambda>(q, b, fl). cb_OnPacketLost q b fl) [(2, 1350, 0)] c1 in
    max 2 (w * 84 div 100) \<le> unat (cb_congestionWindow c2) \<and> unat (cb_congestionWindow c2) \<le> max 2 (w * 86 div 100) \<and>
    \<not> cb_InSlowStart c2 \<and> cb_congestionWindow c2 = cb_congestionWindow c1"
    by (rule cubic_one_cut [OF c(1)]) (use c in \<open>simp_all add: cubic_consts\<close>)
  then show ?thesis using c(1,5) by (auto simp: Let_def)
qed

end
