(* ===== verification/Olia.thy ===== *)
theory Olia
  imports Cubic "HOL-Library.AList"
begin

section \<open>OLIA with groups: \<open>congestion/olia.go\<close>, \<open>olia_sender.go\<close>\<close>

text \<open>
  The congestion controller of all paths but the first. The senders of a connection know each other by the map \<open>oliaSenders\<close>;
  it is the list of the paths and their senders here, in the order of an iteration, and an operation that looks at the other
  senders takes the map and the path. A sender holds the RTT statistics of its path. SBD tells for each epoch which group
  of paths shares a bottleneck, group 0 being the paths that are not congested; a path couples its window to its group.
\<close>

subsection \<open>\<open>olia.go\<close>\<close>

definition scale :: nat where "scale = 10"

record Olia =
  ol_loss1 :: ByteCount
  ol_loss2 :: ByteCount
  ol_loss3 :: ByteCount
  ol_epsilonNum :: int
  ol_epsilonDen :: u32
  ol_sndCwndCnt :: int

definition NewOlia :: "ByteCount \<Rightarrow> Olia" where
  "NewOlia ackedBytes =
     \<lparr> ol_loss1 = ackedBytes, ol_loss2 = ackedBytes, ol_loss3 = ackedBytes, ol_epsilonNum = 0, ol_epsilonDen = 1, ol_sndCwndCnt = 0 \<rparr>"

definition oliaScale :: "u64 \<Rightarrow> u64" where
  "oliaScale val = push_bit scale val"

definition ol_Reset :: "Olia \<Rightarrow> Olia" where
  "ol_Reset o' = o'\<lparr>ol_loss1 := 0, ol_loss2 := 0, ol_loss3 := 0, ol_epsilonNum := 0, ol_epsilonDen := 1, ol_sndCwndCnt := 0\<rparr>"

definition SmoothedBytesBetweenLosses :: "Olia \<Rightarrow> ByteCount" where
  "SmoothedBytesBetweenLosses o' = max (ol_loss3 o' - ol_loss2 o') (ol_loss2 o' - ol_loss1 o')"

definition UpdateAckedSinceLastLoss :: "ByteCount \<Rightarrow> Olia \<Rightarrow> Olia" where
  "UpdateAckedSinceLastLoss ackedBytes o' = o'\<lparr>ol_loss3 := ol_loss3 o' + ackedBytes\<rparr>"

definition ol_OnPacketLost :: "Olia \<Rightarrow> Olia" where
  "ol_OnPacketLost o' = o'\<lparr>ol_loss1 := ol_loss2 o', ol_loss2 := ol_loss3 o'\<rparr>"

text \<open>The counter after the increasing or decreasing term, in the 64 bits of an \<open>int\<close>.\<close>

definition olia_count :: "PacketNumber \<Rightarrow> ByteCount \<Rightarrow> u64 \<Rightarrow> Olia \<Rightarrow> int" where
  "olia_count cur rate cwndScaled o' =
     (let den0 = ucast (ol_epsilonDen o') * cur * rate; incDen = (if den0 = 0 then 1 else den0);
          sq = ucast (ol_epsilonDen o') * cwndScaled * cwndScaled;
          term = (\<lambda>incNum. sint (oliaScale incNum div incDen))
      in if ol_epsilonNum o' = -1
         then if sq < rate then wrap64 (ol_sndCwndCnt o' - term (rate - sq)) else wrap64 (ol_sndCwndCnt o' + term (sq - rate))
         else wrap64 (ol_sndCwndCnt o' + term (word_of_int (ol_epsilonNum o') * rate + sq)))"

definition ol_CongestionWindowAfterAck :: "PacketNumber \<Rightarrow> ByteCount \<Rightarrow> u64 \<Rightarrow> Olia \<Rightarrow> PacketNumber \<times> Olia" where
  "ol_CongestionWindowAfterAck cur rate cwndScaled o' =
     (let n = olia_count cur rate cwndScaled o'
      in if n \<ge> 2 ^ scale - 1 then (cur + 1, o'\<lparr>ol_sndCwndCnt := 0\<rparr>)
         else if n \<le> 0 - 2 ^ scale + 1 then (MaxPacketNumber 1 (cur - 1), o'\<lparr>ol_sndCwndCnt := 0\<rparr>)
         else (cur, o'\<lparr>ol_sndCwndCnt := n\<rparr>))"

subsection \<open>The sender and its groups\<close>

definition GROUP_HISTORY_SIZE :: u8 where "GROUP_HISTORY_SIZE = 20"

record GroupItem =
  gi_group :: u8
  gi_epoch :: u16

record OliaSender =
  os_hybridSlowStart :: HybridSlowStart
  os_prr :: PrrSender
  os_rttStats :: RTTStats
  os_stats :: connectionStats
  os_olia :: Olia
  os_groupHistory :: "GroupItem list"
  os_groupHistoryNext :: u8
  os_largestSentPacketNumber :: PacketNumber
  os_largestAckedPacketNumber :: PacketNumber
  os_largestSentAtLastCutback :: PacketNumber
  os_congestionWindow :: PacketNumber
  os_slowstartThreshold :: PacketNumber
  os_lastCutbackExitedSlowstart :: bool
  os_slowStartLargeReduction :: bool
  os_minCongestionWindow :: PacketNumber
  os_maxTCPCongestionWindow :: PacketNumber
  os_numConnections :: int
  os_congestionWindowCount :: ByteCount
  os_initialCongestionWindow :: PacketNumber
  os_initialMaxCongestionWindow :: PacketNumber

type_synonym olia_map = "(PathID \<times> OliaSender) list"

definition NewOliaSender :: "RTTStats \<Rightarrow> PacketNumber \<Rightarrow> PacketNumber \<Rightarrow> OliaSender" where
  "NewOliaSender rtt initial maximal =
     \<lparr> os_hybridSlowStart = zeroHybridSlowStart, os_prr = zeroPrrSender, os_rttStats = rtt,
       os_stats = \<lparr> cs_slowstartPacketsLost = 0, cs_slowstartBytesLost = 0 \<rparr>, os_olia = NewOlia 0,
       os_groupHistory = replicate (unat GROUP_HISTORY_SIZE) \<lparr> gi_group = 0, gi_epoch = 0 \<rparr>, os_groupHistoryNext = 0,
       os_largestSentPacketNumber = 0, os_largestAckedPacketNumber = 0, os_largestSentAtLastCutback = 0,
       os_congestionWindow = initial, os_slowstartThreshold = maximal, os_lastCutbackExitedSlowstart = False,
       os_slowStartLargeReduction = False, os_minCongestionWindow = defaultMinimumCongestionWindow,
       os_maxTCPCongestionWindow = maximal, os_numConnections = defaultNumConnections, os_congestionWindowCount = 0,
       os_initialCongestionWindow = initial, os_initialMaxCongestionWindow = maximal \<rparr>"

definition UpdateGroupEpoch :: "u8 \<Rightarrow> u16 \<Rightarrow> OliaSender \<Rightarrow> OliaSender" where
  "UpdateGroupEpoch grp epoch o' =
     (if \<exists>gh\<in>set (os_groupHistory o'). gi_epoch gh = epoch then o'
      else let dest = os_groupHistoryNext o'
        in o'\<lparr>os_groupHistory := (os_groupHistory o')[unat dest := \<lparr> gi_group = grp, gi_epoch = epoch \<rparr>],
              os_groupHistoryNext := (dest + 1) mod GROUP_HISTORY_SIZE\<rparr>)"

text \<open>The epoch of the latest item.\<close>

definition latest_item_epoch :: "OliaSender \<Rightarrow> u16" where
  "latest_item_epoch o' =
     gi_epoch (os_groupHistory o' ! unat ((os_groupHistoryNext o' - 1 + GROUP_HISTORY_SIZE) mod GROUP_HISTORY_SIZE))"

definition getLatestEpoch :: "olia_map \<Rightarrow> u16" where
  "getLatestEpoch m = fold (\<lambda>(i, s) latest. if latest_item_epoch s > latest then latest_item_epoch s else latest) m 0"

definition hasGroupEpochs :: "OliaSender \<Rightarrow> bool" where
  "hasGroupEpochs o' \<longleftrightarrow> latest_item_epoch o' > 0"

definition getGroupNoFilter :: "u16 \<Rightarrow> OliaSender \<Rightarrow> int" where
  "getGroupNoFilter epoch o' =
     (case List.find (\<lambda>gh. gi_epoch gh = epoch) (take (unat GROUP_HISTORY_SIZE) (os_groupHistory o')) of
        None \<Rightarrow> -1 | Some gh \<Rightarrow> uint (gi_group gh))"

text \<open>The search goes back from the latest epoch until no sender has group 0 there; it ends at epoch 0, the invalid one.\<close>

definition allHaveEpoch :: "olia_map \<Rightarrow> u16 \<Rightarrow> bool" where
  "allHaveEpoch m epoch \<longleftrightarrow> list_all (\<lambda>(i, s). hasGroupEpochs s \<longrightarrow> getGroupNoFilter epoch s \<noteq> 0) m"

definition getEpoch :: "olia_map \<Rightarrow> u16" where
  "getEpoch m =
     (let latest = getLatestEpoch m
      in if latest = 0 then 0
         else case List.find (allHaveEpoch m)
             (takeWhile (\<lambda>e. e \<noteq> 0) (map (\<lambda>i. latest - of_nat i) [0..<unat GROUP_HISTORY_SIZE])) of
           None \<Rightarrow> 0 | Some e \<Rightarrow> e)"

definition getGroup :: "u16 \<Rightarrow> OliaSender \<Rightarrow> int" where
  "getGroup epoch o' = getGroupNoFilter epoch o'"

definition canBeSent :: "u8 \<Rightarrow> u16 \<Rightarrow> OliaSender \<Rightarrow> bool" where
  "canBeSent grp epoch o' \<longleftrightarrow> getGroup epoch o' = 0 \<or> getGroup epoch o' = uint grp"

subsection \<open>Coupling\<close>

definition os_GetCongestionWindow :: "OliaSender \<Rightarrow> ByteCount" where
  "os_GetCongestionWindow o' = os_congestionWindow o' * DefaultTCPMSS"

definition os_GetSlowStartThreshold :: "OliaSender \<Rightarrow> ByteCount" where
  "os_GetSlowStartThreshold o' = os_slowstartThreshold o' * DefaultTCPMSS"

definition os_InRecovery :: "OliaSender \<Rightarrow> bool" where
  "os_InRecovery o' \<longleftrightarrow> os_largestAckedPacketNumber o' \<le> os_largestSentAtLastCutback o' \<and> os_largestAckedPacketNumber o' \<noteq> 0"

definition os_InSlowStart :: "OliaSender \<Rightarrow> bool" where
  "os_InSlowStart o' \<longleftrightarrow> os_GetCongestionWindow o' < os_GetSlowStartThreshold o'"

definition os_isCwndLimited :: "ByteCount \<Rightarrow> OliaSender \<Rightarrow> bool" where
  "os_isCwndLimited bytesInFlight o' =
     (let congestionWindow = os_GetCongestionWindow o'
      in if bytesInFlight \<ge> congestionWindow then True
         else let availableBytes = congestionWindow - bytesInFlight;
                  slowStartLimited = (os_InSlowStart o' \<and> bytesInFlight > congestionWindow div 2)
              in slowStartLimited \<or> availableBytes \<le> maxBurstBytes)"

definition getMaxCwnd :: "u8 \<Rightarrow> u16 \<Rightarrow> olia_map \<Rightarrow> PacketNumber" where
  "getMaxCwnd grp epoch m =
     fold (\<lambda>(i, s) best. if \<not> canBeSent grp epoch s then best else MaxPacketNumber best (os_congestionWindow s)) m 0"

definition getRate :: "Duration \<Rightarrow> u8 \<Rightarrow> u16 \<Rightarrow> olia_map \<Rightarrow> ByteCount" where
  "getRate pathRTT grp epoch m =
     (let rate = fold (\<lambda>(i, s) rate.
          if \<not> canBeSent grp epoch s then rate
          else let scaledNum = oliaScale (os_congestionWindow s) * word_of_int pathRTT; srtt = rt_smoothedRTT (os_rttStats s)
            in if srtt \<noteq> 0 then rate + scaledNum div word_of_int srtt else rate) m 1
      in rate * rate)"

text \<open>The square of the RTT and the bytes between losses of a sender, and the test whether it is as good as the best.\<close>

definition rtt_squared :: "OliaSender \<Rightarrow> int" where
  "rtt_squared s = wrap64 (rt_smoothedRTT (os_rttStats s) * rt_smoothedRTT (os_rttStats s))"

definition as_good_as :: "int \<times> ByteCount \<Rightarrow> OliaSender \<Rightarrow> bool" where
  "as_good_as best s \<longleftrightarrow>
     wrap64 (sint (SmoothedBytesBetweenLosses (os_olia s)) * fst best) \<ge> wrap64 (sint (snd best) * rtt_squared s)"

definition best_path :: "u8 \<Rightarrow> u16 \<Rightarrow> olia_map \<Rightarrow> int \<times> ByteCount" where
  "best_path grp epoch m =
     fold (\<lambda>(i, s) best.
       if \<not> canBeSent grp epoch s then best
       else if as_good_as best s then (rtt_squared s, SmoothedBytesBetweenLosses (os_olia s)) else best) m (0, 0)"

text \<open>The sizes of the group, of the set \<open>M\<close> of its largest windows and of the best paths outside of it.\<close>

definition count_senders :: "(OliaSender \<Rightarrow> bool) \<Rightarrow> olia_map \<Rightarrow> u8" where
  "count_senders P m = fold (\<lambda>(i, s) n. if P s then n + 1 else n) m 0"

definition set_epsilon :: "int \<Rightarrow> u32 \<Rightarrow> OliaSender \<Rightarrow> OliaSender" where
  "set_epsilon num den s = s\<lparr>os_olia := (os_olia s)\<lparr>ol_epsilonNum := num, ol_epsilonDen := den\<rparr>\<rparr>"

definition getEpsilon :: "u8 \<Rightarrow> u16 \<Rightarrow> olia_map \<Rightarrow> olia_map" where
  "getEpsilon grp epoch m =
     (let maxCwnd = getMaxCwnd grp epoch m; best = best_path grp epoch m; member = canBeSent grp epoch;
          groupCnt = count_senders member m;
          M = count_senders (\<lambda>s. member s \<and> os_congestionWindow s = maxCwnd) m;
          BNotM = count_senders (\<lambda>s. member s \<and> os_congestionWindow s \<noteq> maxCwnd \<and> as_good_as best s) m
      in map (\<lambda>(i, s). (i,
           if \<not> member s then s
           else if BNotM = 0 then set_epsilon 0 1 s
           else if os_congestionWindow s < maxCwnd \<and> as_good_as best s then set_epsilon 1 (ucast groupCnt * ucast BNotM) s
           else if os_congestionWindow s = maxCwnd then set_epsilon (-1) (ucast groupCnt * ucast M) s
           else set_epsilon 0 1 s)) m)"

text \<open>The sender of a path in the map.\<close>

definition upd_sender :: "PathID \<Rightarrow> (OliaSender \<Rightarrow> OliaSender) \<Rightarrow> olia_map \<Rightarrow> olia_map" where
  "upd_sender i f m = map (\<lambda>(j, s). (j, if j = i then f s else s)) m"

definition os_maybeIncreaseCwnd :: "PathID \<Rightarrow> ByteCount \<Rightarrow> olia_map \<Rightarrow> olia_map" where
  "os_maybeIncreaseCwnd i bytesInFlight m =
     (case map_of m i of
        None \<Rightarrow> m
      | Some o' \<Rightarrow>
          if \<not> os_isCwndLimited bytesInFlight o' then m
          else if os_congestionWindow o' \<ge> os_maxTCPCongestionWindow o' then m
          else if os_InSlowStart o' then upd_sender i (\<lambda>s. s\<lparr>os_congestionWindow := os_congestionWindow s + 1\<rparr>) m
          else
            let epoch = getEpoch m; grp = word_of_int (getGroup epoch o'); m1 = getEpsilon grp epoch m;
                rate = getRate (rt_smoothedRTT (os_rttStats o')) grp epoch m1;
                cwndScaled = oliaScale (os_congestionWindow o')
            in upd_sender i (\<lambda>s. let (w, ol) = ol_CongestionWindowAfterAck (os_congestionWindow s) rate cwndScaled (os_olia s)
                 in s\<lparr>os_olia := ol, os_congestionWindow := MinPacketNumber (os_maxTCPCongestionWindow s) w\<rparr>) m1)"

subsection \<open>The methods of a controller\<close>

definition os_TimeUntilSend :: "ByteCount \<Rightarrow> OliaSender \<Rightarrow> Duration" where
  "os_TimeUntilSend bytesInFlight o' =
     (if os_InRecovery o'
      then prr_TimeUntilSend (os_GetCongestionWindow o') bytesInFlight (os_GetSlowStartThreshold o') (os_prr o')
      else if os_GetCongestionWindow o' > bytesInFlight then 0 else InfDuration)"

definition os_OnPacketSent :: "PacketNumber \<Rightarrow> ByteCount \<Rightarrow> bool \<Rightarrow> OliaSender \<Rightarrow> bool \<times> OliaSender" where
  "os_OnPacketSent packetNumber bytes isRetransmittable o' =
     (if \<not> isRetransmittable then (False, o')
      else let o1 = (if os_InRecovery o' then o'\<lparr>os_prr := prr_OnPacketSent bytes (os_prr o')\<rparr> else o')
        in (True, o1\<lparr>os_largestSentPacketNumber := packetNumber,
                     os_hybridSlowStart := hs_OnPacketSent packetNumber (os_hybridSlowStart o1)\<rparr>))"

definition os_ExitSlowstart :: "OliaSender \<Rightarrow> OliaSender" where
  "os_ExitSlowstart o' = o'\<lparr>os_slowstartThreshold := os_congestionWindow o'\<rparr>"

definition os_MaybeExitSlowStart :: "OliaSender \<Rightarrow> OliaSender" where
  "os_MaybeExitSlowStart o' =
     (if \<not> os_InSlowStart o' then o'
      else let (exit, h) = ShouldExitSlowStart (rt_latestRTT (os_rttStats o')) (rt_minRTT (os_rttStats o'))
             (os_GetCongestionWindow o' div DefaultTCPMSS) (os_hybridSlowStart o'); o1 = o'\<lparr>os_hybridSlowStart := h\<rparr>
        in if exit then os_ExitSlowstart o1 else o1)"

definition os_OnPacketAcked :: "PathID \<Rightarrow> PacketNumber \<Rightarrow> ByteCount \<Rightarrow> ByteCount \<Rightarrow> olia_map \<Rightarrow> olia_map" where
  "os_OnPacketAcked i ackedPacketNumber ackedBytes bytesInFlight m =
     (let m1 = upd_sender i (\<lambda>s. s\<lparr>os_largestAckedPacketNumber := MaxPacketNumber ackedPacketNumber (os_largestAckedPacketNumber s)\<rparr>) m
      in case map_of m1 i of
           None \<Rightarrow> m1
         | Some o1 \<Rightarrow>
             if os_InRecovery o1 then upd_sender i (\<lambda>s. s\<lparr>os_prr := prr_OnPacketAcked ackedBytes (os_prr s)\<rparr>) m1
             else
               let m2 = upd_sender i (\<lambda>s. s\<lparr>os_olia := UpdateAckedSinceLastLoss ackedBytes (os_olia s)\<rparr>) m1;
                   m3 = os_maybeIncreaseCwnd i bytesInFlight m2
               in upd_sender i (\<lambda>s. if os_InSlowStart s
                    then s\<lparr>os_hybridSlowStart := hs_OnPacketAcked ackedPacketNumber (os_hybridSlowStart s)\<rparr> else s) m3)"

definition os_lost_again :: "ByteCount \<Rightarrow> OliaSender \<Rightarrow> OliaSender" where
  "os_lost_again lostBytes o' =
     (if \<not> os_lastCutbackExitedSlowstart o' then o'
      else
        let o1 = o'\<lparr>os_stats := slowstart_lost lostBytes (os_stats o')\<rparr>
        in if \<not> os_slowStartLargeReduction o1 then o1
           else
             let o2 = (if large_reduction_due lostBytes (os_stats o1)
                       then o1\<lparr>os_congestionWindow := MaxPacketNumber (os_congestionWindow o1 - 1) (os_minCongestionWindow o1)\<rparr>
                       else o1)
             in o2\<lparr>os_slowstartThreshold := os_congestionWindow o2\<rparr>)"

definition os_OnPacketLost :: "PacketNumber \<Rightarrow> ByteCount \<Rightarrow> ByteCount \<Rightarrow> OliaSender \<Rightarrow> OliaSender" where
  "os_OnPacketLost packetNumber lostBytes bytesInFlight o' =
     (if packetNumber \<le> os_largestSentAtLastCutback o' then os_lost_again lostBytes o'
      else
        let o1 = o'\<lparr>os_lastCutbackExitedSlowstart := os_InSlowStart o'\<rparr>;
            o2 = (if os_InSlowStart o1
                  then o1\<lparr>os_stats := (os_stats o1)\<lparr>cs_slowstartPacketsLost := cs_slowstartPacketsLost (os_stats o1) + 1\<rparr>\<rparr> else o1);
            o3 = o2\<lparr>os_prr := prr_OnPacketLost bytesInFlight (os_prr o2), os_olia := ol_OnPacketLost (os_olia o2)\<rparr>;
            o4 = (if os_slowStartLargeReduction o3 \<and> os_InSlowStart o3
                  then o3\<lparr>os_congestionWindow := os_congestionWindow o3 - 1\<rparr>
                  else o3\<lparr>os_congestionWindow := trunc64 (go32 (float32_of (os_congestionWindow o3) * RenoBeta (os_numConnections o3)))\<rparr>);
            o5 = (if os_congestionWindow o4 < os_minCongestionWindow o4
                  then o4\<lparr>os_congestionWindow := os_minCongestionWindow o4\<rparr> else o4)
        in o5\<lparr>os_slowstartThreshold := os_congestionWindow o5, os_largestSentAtLastCutback := os_largestSentPacketNumber o5,
              os_congestionWindowCount := 0\<rparr>)"

definition os_SetNumEmulatedConnections :: "int \<Rightarrow> OliaSender \<Rightarrow> OliaSender" where
  "os_SetNumEmulatedConnections n o' = o'\<lparr>os_numConnections := max n 1\<rparr>"

definition os_OnRetransmissionTimeout :: "bool \<Rightarrow> OliaSender \<Rightarrow> OliaSender" where
  "os_OnRetransmissionTimeout packetsRetransmitted o' =
     (let o1 = o'\<lparr>os_largestSentAtLastCutback := 0\<rparr>
      in if \<not> packetsRetransmitted then o1
         else o1\<lparr>os_hybridSlowStart := hs_Restart (os_hybridSlowStart o1), os_olia := ol_Reset (os_olia o1),
                 os_slowstartThreshold := os_congestionWindow o1 div 2, os_congestionWindow := os_minCongestionWindow o1\<rparr>)"

definition os_OnConnectionMigration :: "OliaSender \<Rightarrow> OliaSender" where
  "os_OnConnectionMigration o' =
     o'\<lparr>os_hybridSlowStart := hs_Restart (os_hybridSlowStart o'), os_prr := zeroPrrSender, os_largestSentPacketNumber := 0,
       os_largestAckedPacketNumber := 0, os_largestSentAtLastCutback := 0, os_lastCutbackExitedSlowstart := False,
       os_olia := ol_Reset (os_olia o'), os_congestionWindowCount := 0, os_congestionWindow := os_initialCongestionWindow o',
       os_slowstartThreshold := os_initialMaxCongestionWindow o', os_maxTCPCongestionWindow := os_initialMaxCongestionWindow o'\<rparr>"

definition os_SetSlowStartLargeReduction :: "bool \<Rightarrow> OliaSender \<Rightarrow> OliaSender" where
  "os_SetSlowStartLargeReduction enabled o' = o'\<lparr>os_slowStartLargeReduction := enabled\<rparr>"

definition os_BandwidthEstimate :: "OliaSender \<Rightarrow> u64" where
  "os_BandwidthEstimate o' =
     (if rt_smoothedRTT (os_rttStats o') = 0 then 0
      else BandwidthFromDelta (os_GetCongestionWindow o') (rt_smoothedRTT (os_rttStats o')))"

section \<open>The terms of a group add up to nothing\<close>

definition epsilon :: "OliaSender \<Rightarrow> rat" where
  "epsilon s = of_int (ol_epsilonNum (os_olia s)) / of_nat (unat (ol_epsilonDen (os_olia s)))"

lemma count_senders_length: "count_senders P m = of_nat (length (filter (\<lambda>(i, s). P s) m))"
proof -
  have "fold (\<lambda>(i, s) n. if P s then n + 1 else n) m n = n + of_nat (length (filter (\<lambda>(i, s). P s) m))" for n :: u8
    by (induction m arbitrary: n) (auto simp: algebra_simps)
  then show ?thesis by (simp add: count_senders_def)
qed

lemma unat_count_senders:
  assumes "length m < 256"
  shows "unat (count_senders P m) = length (filter (\<lambda>(i, s). P s) m)"
proof -
  have "length (filter (\<lambda>(i, s). P s) m) < 2 ^ 8" using le_less_trans [OF length_filter_le assms] by simp
  then show ?thesis by (simp add: count_senders_length unsigned_of_nat take_bit_nat_eq_self)
qed

definition max_member :: "u8 \<Rightarrow> u16 \<Rightarrow> olia_map \<Rightarrow> PacketNumber \<Rightarrow> PacketNumber" where
  "max_member grp epoch =
     fold (\<lambda>(i, s) best. if \<not> canBeSent grp epoch s then best else MaxPacketNumber best (os_congestionWindow s))"

lemma max_member_ge: "w \<le> max_member grp epoch m w"
proof (induction m arbitrary: w)
  case (Cons p m)
  obtain j t where p: "p = (j, t)" by fastforce
  let ?w = "if \<not> canBeSent grp epoch t then w else MaxPacketNumber w (os_congestionWindow t)"
  have "w \<le> ?w" by (simp add: MaxPacketNumber_def)
  then show ?case using Cons.IH [of ?w] using order_trans by (auto simp only: max_member_def p fold_simps o_apply prod.case)
qed (simp add: max_member_def)

lemma max_member_bound:
  "(i, s) \<in> set m \<Longrightarrow> canBeSent grp epoch s \<Longrightarrow> os_congestionWindow s \<le> max_member grp epoch m w"
proof (induction m arbitrary: w)
  case (Cons p m)
  show ?case
  proof (cases "p = (i, s)")
    case True
    have "os_congestionWindow s \<le> max_member grp epoch m (MaxPacketNumber w (os_congestionWindow s))"
      by (rule order_trans [OF _ max_member_ge]) (simp add: MaxPacketNumber_def)
    then show ?thesis using True Cons.prems(2) by (simp add: max_member_def)
  next
    case False
    then have "(i, s) \<in> set m" using Cons.prems(1) by simp
    then show ?thesis using Cons.IH Cons.prems(2) by (cases p) (simp add: max_member_def)
  qed
qed simp

lemma max_member_attained:
  "max_member grp epoch m w = w \<or> (\<exists>(i, s)\<in>set m. canBeSent grp epoch s \<and> os_congestionWindow s = max_member grp epoch m w)"
proof (induction m arbitrary: w)
  case (Cons p m)
  obtain j t where p: "p = (j, t)" by fastforce
  let ?w = "if \<not> canBeSent grp epoch t then w else MaxPacketNumber w (os_congestionWindow t)"
  have f: "max_member grp epoch (p # m) w = max_member grp epoch m ?w" by (simp add: max_member_def p)
  show ?case using Cons.IH [of ?w] unfolding f by (auto simp: p MaxPacketNumber_def max_def split: if_splits)
qed (simp add: max_member_def)

lemma sum_of_cases:
  fixes c d :: rat
  shows "(\<Sum>x\<leftarrow>xs. if P x then c else if Q x then d else 0) =
    of_nat (length (filter P xs)) * c + of_nat (length (filter (\<lambda>x. \<not> P x \<and> Q x) xs)) * d"
  by (induction xs) (auto simp: algebra_simps)

lemma ucast_product:
  fixes a b :: u8
  shows "unat (ucast a * ucast b :: u32) = unat a * unat b"
proof -
  have "unat a < 256" "unat b < 256" using unsigned_less [of a] unsigned_less [of b] by simp_all
  then have "unat a * unat b < 256 * 256" by (intro mult_strict_mono) auto
  then show ?thesis by (simp add: unat_word_ariths is_up unat_ucast_wide)
qed

lemma epsilon_set [simp]: "epsilon (set_epsilon num den s) = of_int num / of_nat (unat den)"
  by (simp add: epsilon_def set_epsilon_def)

lemma epsilon_neg: "epsilon s < 0 \<Longrightarrow> ol_epsilonNum (os_olia s) < 0"
proof (rule ccontr)
  assume neg: "epsilon s < 0" and "\<not> ol_epsilonNum (os_olia s) < 0"
  then have "(0 :: rat) \<le> of_int (ol_epsilonNum (os_olia s))" by simp
  then have "0 \<le> epsilon s" unfolding epsilon_def by (intro divide_nonneg_nonneg) (simp_all only: of_nat_0_le_iff)
  then show False using neg by simp
qed

lemma canBeSent_set_epsilon [simp]: "canBeSent grp epoch (set_epsilon num den s) = canBeSent grp epoch s"
  by (simp add: canBeSent_def getGroup_def getGroupNoFilter_def set_epsilon_def)

section \<open>The windows stay in their bounds\<close>

definition os_wf :: "PacketNumber \<Rightarrow> OliaSender \<Rightarrow> bool" where
  "os_wf maximal s \<longleftrightarrow> os_numConnections s = 2 \<and> os_minCongestionWindow s = 2 \<and> os_maxTCPCongestionWindow s = maximal \<and>
     os_initialMaxCongestionWindow s = maximal \<and> unat maximal < 2 ^ 24 \<and> 2 \<le> maximal \<and>
     2 \<le> os_initialCongestionWindow s \<and> os_initialCongestionWindow s \<le> maximal \<and>
     1 \<le> os_congestionWindow s \<and> os_congestionWindow s \<le> maximal"

definition olia_wf :: "PacketNumber \<Rightarrow> olia_map \<Rightarrow> bool" where
  "olia_wf maximal m \<longleftrightarrow> distinct (map fst m) \<and> (\<forall>(i, s)\<in>set m. os_wf maximal s)"

lemma upd_sender_keys [simp]: "map fst (upd_sender i f m) = map fst m" "map fst (getEpsilon grp epoch m) = map fst m"
  by (auto simp: upd_sender_def getEpsilon_def Let_def)

lemma olia_wf_upd:
  assumes "olia_wf maximal m" "\<And>s. (i, s) \<in> set m \<Longrightarrow> os_wf maximal s \<Longrightarrow> os_wf maximal (f s)"
  shows "olia_wf maximal (upd_sender i f m)"
proof -
  have "\<forall>(j, s)\<in>set (upd_sender i f m). os_wf maximal s"
    using assms unfolding olia_wf_def upd_sender_def by fastforce
  then show ?thesis using assms(1) by (simp add: olia_wf_def)
qed

lemma os_wf_set_epsilon [simp]: "os_wf maximal (set_epsilon num den s) = os_wf maximal s"
  by (simp add: os_wf_def set_epsilon_def)

lemma olia_wf_getEpsilon: "olia_wf maximal m \<Longrightarrow> olia_wf maximal (getEpsilon grp epoch m)"
  unfolding olia_wf_def upd_sender_keys by (fastforce simp: getEpsilon_def Let_def)

lemma ol_window:
  assumes "ol_CongestionWindowAfterAck cur rate cs ol = (w, ol')" "1 \<le> cur" "unat cur < 2 ^ 24"
  shows "1 \<le> w"
proof -
  have "unat (cur + 1) = unat cur + 1" using assms(3) by (simp add: unat_word_ariths)
  then have "1 \<le> cur + 1" by (simp add: word_le_nat_alt)
  moreover have "1 \<le> MaxPacketNumber 1 (cur - 1)" by (simp add: MaxPacketNumber_def)
  ultimately show ?thesis using assms(1,2) by (auto simp: ol_CongestionWindowAfterAck_def Let_def split: if_splits)
qed

lemma os_small: "os_wf maximal s \<Longrightarrow> unat (os_congestionWindow s) < 2 ^ 24"
  by (auto simp: os_wf_def word_le_nat_alt)

lemma olia_wf_increase:
  assumes wf: "olia_wf maximal m"
  shows "olia_wf maximal (os_maybeIncreaseCwnd i fl m)"
proof (cases "map_of m i")
  case (Some o')
  have o': "os_wf maximal o'" using wf map_of_SomeD [OF Some] by (auto simp: olia_wf_def)
  show ?thesis
  proof (cases "\<not> os_isCwndLimited fl o' \<or> os_maxTCPCongestionWindow o' \<le> os_congestionWindow o'")
    case True
    then have "os_maybeIncreaseCwnd i fl m = m" by (auto simp: os_maybeIncreaseCwnd_def Some)
    then show ?thesis using wf by simp
  next
    case False
    show ?thesis
    proof (cases "os_InSlowStart o'")
      case True
      then have eq: "os_maybeIncreaseCwnd i fl m = upd_sender i (\<lambda>s. s\<lparr>os_congestionWindow := os_congestionWindow s + 1\<rparr>) m"
        using False by (simp add: os_maybeIncreaseCwnd_def Some)
      have "os_wf maximal (s\<lparr>os_congestionWindow := os_congestionWindow s + 1\<rparr>)" if s: "(i, s) \<in> set m" "os_wf maximal s" for s
      proof -
        have "s = o'" using s(1) Some wf by (simp add: olia_wf_def)
        then have less: "os_congestionWindow s < os_maxTCPCongestionWindow s" using False by (simp add: not_le)
        have "unat (os_congestionWindow s + 1) = unat (os_congestionWindow s) + 1" using os_small [OF s(2)] by (simp add: unat_word_ariths)
        then show ?thesis using s(2) less by (auto simp: os_wf_def word_le_nat_alt word_less_nat_alt)
      qed
      then show ?thesis unfolding eq by (rule olia_wf_upd [OF wf])
    next
      case slow: False
      obtain grp epoch rate cs where eq: "os_maybeIncreaseCwnd i fl m = upd_sender i (\<lambda>s. let (w, ol) = ol_CongestionWindowAfterAck
        (os_congestionWindow s) rate cs (os_olia s) in s\<lparr>os_olia := ol, os_congestionWindow := MinPacketNumber (os_maxTCPCongestionWindow s) w\<rparr>)
        (getEpsilon grp epoch m)"
        using False slow by (simp add: os_maybeIncreaseCwnd_def Some Let_def)
      show ?thesis unfolding eq
      proof (rule olia_wf_upd [OF olia_wf_getEpsilon [OF wf]])
        fix s assume s: "os_wf maximal s"
        obtain w ol where w: "ol_CongestionWindowAfterAck (os_congestionWindow s) rate cs (os_olia s) = (w, ol)" by fastforce
        have "1 \<le> w" using ol_window [OF w] s os_small [OF s] by (simp add: os_wf_def)
        moreover have "1 \<le> maximal" using s by (auto simp: os_wf_def intro: order_trans)
        ultimately show "os_wf maximal (let (w, ol) = ol_CongestionWindowAfterAck (os_congestionWindow s) rate cs (os_olia s)
            in s\<lparr>os_olia := ol, os_congestionWindow := MinPacketNumber (os_maxTCPCongestionWindow s) w\<rparr>)"
          using s by (simp add: w os_wf_def MinPacketNumber_def)
      qed
    qed
  qed
qed (simp add: os_maybeIncreaseCwnd_def wf)

lemma olia_wf_acked:
  assumes "olia_wf maximal m"
  shows "olia_wf maximal (os_OnPacketAcked i pn bytes fl m)"
proof -
  define m1 where "m1 = upd_sender i (\<lambda>s. s\<lparr>os_largestAckedPacketNumber := MaxPacketNumber pn (os_largestAckedPacketNumber s)\<rparr>) m"
  have wf1: "olia_wf maximal m1" unfolding m1_def by (rule olia_wf_upd [OF assms]) (simp add: os_wf_def)
  show ?thesis
  proof (cases "map_of m1 i")
    case (Some o1)
    define m3 where "m3 = os_maybeIncreaseCwnd i fl (upd_sender i (\<lambda>s. s\<lparr>os_olia := UpdateAckedSinceLastLoss bytes (os_olia s)\<rparr>) m1)"
    have wf3: "olia_wf maximal m3" unfolding m3_def by (intro olia_wf_increase olia_wf_upd [OF wf1]) (simp add: os_wf_def)
    have "olia_wf maximal (upd_sender i (\<lambda>s. s\<lparr>os_prr := prr_OnPacketAcked bytes (os_prr s)\<rparr>) m1)"
      "olia_wf maximal (upd_sender i (\<lambda>s. if os_InSlowStart s
        then s\<lparr>os_hybridSlowStart := hs_OnPacketAcked pn (os_hybridSlowStart s)\<rparr> else s) m3)"
      by (rule olia_wf_upd [OF wf1], simp add: os_wf_def) (rule olia_wf_upd [OF wf3], simp add: os_wf_def)
    then show ?thesis unfolding os_OnPacketAcked_def Let_def m1_def [symmetric] Some option.case m3_def [symmetric] by simp
  next
    case None
    show ?thesis unfolding os_OnPacketAcked_def Let_def m1_def [symmetric] None option.case by (rule wf1)
  qed
qed

lemma os_wf_lost:
  assumes wf: "os_wf maximal s"
  shows "os_wf maximal (os_OnPacketLost pn bytes fl s)"
proof (cases "pn \<le> os_largestSentAtLastCutback s")
  case True
  note f = wf [unfolded os_wf_def]
  have dec: "unat (os_congestionWindow s - 1) = unat (os_congestionWindow s) - 1" using f by (simp add: unat_sub word_le_nat_alt)
  then have "os_congestionWindow s - 1 \<le> os_congestionWindow s" by (simp add: word_le_nat_alt)
  then have "1 \<le> MaxPacketNumber (os_congestionWindow s - 1) 2" "MaxPacketNumber (os_congestionWindow s - 1) 2 \<le> maximal"
    using f by (auto simp: MaxPacketNumber_def max_def word_le_nat_alt)
  then show ?thesis using True f by (auto simp: os_OnPacketLost_def os_lost_again_def Let_def os_wf_def)
next
  case False
  note f = wf [unfolded os_wf_def]
  define o1 where "o1 = s\<lparr>os_lastCutbackExitedSlowstart := os_InSlowStart s\<rparr>"
  define o2 where "o2 = (if os_InSlowStart o1
    then o1\<lparr>os_stats := (os_stats o1)\<lparr>cs_slowstartPacketsLost := cs_slowstartPacketsLost (os_stats o1) + 1\<rparr>\<rparr> else o1)"
  define o3 where "o3 = o2\<lparr>os_prr := prr_OnPacketLost fl (os_prr o2), os_olia := ol_OnPacketLost (os_olia o2)\<rparr>"
  have wf3: "os_wf maximal o3" using f by (simp add: o3_def o2_def o1_def os_wf_def)
  note f3 = wf3 [unfolded os_wf_def]
  define w where "w = (if os_slowStartLargeReduction o3 \<and> os_InSlowStart o3 then os_congestionWindow o3 - 1
    else trunc64 (go32 (float32_of (os_congestionWindow o3) * RenoBeta (os_numConnections o3))))"
  have pos: "0 < os_congestionWindow o3" using f3 by (auto simp: word_less_nat_alt word_le_nat_alt)
  have "unat (os_congestionWindow o3) * 86 div 100 \<le> unat (os_congestionWindow o3)" by linarith
  then have "unat (trunc64 (go32 (float32_of (os_congestionWindow o3) * RenoBeta 2))) \<le> unat maximal"
    using back_off(1) [OF os_small [OF wf3] pos] f3 by (auto simp: word_le_nat_alt)
  moreover have "unat (os_congestionWindow o3 - 1) = unat (os_congestionWindow o3) - 1" using f3 by (simp add: unat_sub word_le_nat_alt)
  ultimately have w: "w \<le> maximal" using f3 by (auto simp: w_def word_le_nat_alt)
  define w' where "w' = (if w < os_minCongestionWindow o3 then os_minCongestionWindow o3 else w)"
  have w': "1 \<le> w'" "w' \<le> maximal" using f3 w by (auto simp: w'_def not_less word_le_nat_alt)
  have "os_OnPacketLost pn bytes fl s = o3\<lparr>os_congestionWindow := w', os_slowstartThreshold := w',
      os_largestSentAtLastCutback := os_largestSentPacketNumber o3, os_congestionWindowCount := 0\<rparr>"
    using False unfolding os_OnPacketLost_def Let_def o1_def [symmetric] o2_def [symmetric] o3_def [symmetric] by (simp add: w'_def w_def)
  then show ?thesis using f3 w' by (simp add: os_wf_def)
qed

subsection \<open>Runs of a connection\<close>

datatype olia_event =
    OliaAdd PathID RTTStats
  | OliaRTT PathID RTTStats
  | OliaGroup PathID u8 u16
  | OliaSent PathID PacketNumber ByteCount bool
  | OliaAcked PathID PacketNumber ByteCount ByteCount
  | OliaLost PathID PacketNumber ByteCount ByteCount
  | OliaTimeout PathID bool
  | OliaSlowStartCheck PathID
  | OliaMigration PathID
  | OliaLargeReduction PathID bool

fun olia_step :: "PacketNumber \<Rightarrow> PacketNumber \<Rightarrow> olia_event \<Rightarrow> olia_map \<Rightarrow> olia_map" where
  "olia_step initial maximal (OliaAdd i rtt) m = AList.update i (NewOliaSender rtt initial maximal) m"
| "olia_step initial maximal (OliaRTT i rtt) m = upd_sender i (\<lambda>s. s\<lparr>os_rttStats := rtt\<rparr>) m"
| "olia_step initial maximal (OliaGroup i g e) m = upd_sender i (UpdateGroupEpoch g e) m"
| "olia_step initial maximal (OliaSent i pn bytes r) m = upd_sender i (\<lambda>s. snd (os_OnPacketSent pn bytes r s)) m"
| "olia_step initial maximal (OliaAcked i pn bytes fl) m = os_OnPacketAcked i pn bytes fl m"
| "olia_step initial maximal (OliaLost i pn bytes fl) m = upd_sender i (os_OnPacketLost pn bytes fl) m"
| "olia_step initial maximal (OliaTimeout i r) m = upd_sender i (os_OnRetransmissionTimeout r) m"
| "olia_step initial maximal (OliaSlowStartCheck i) m = upd_sender i os_MaybeExitSlowStart m"
| "olia_step initial maximal (OliaMigration i) m = upd_sender i os_OnConnectionMigration m"
| "olia_step initial maximal (OliaLargeReduction i b) m = upd_sender i (os_SetSlowStartLargeReduction b) m"

lemma set_update_insert: "set (AList.update i s m) \<subseteq> insert (i, s) (set m)" for m :: olia_map
  by (induction m) auto

lemma one_le_if_two_le: "2 \<le> (x :: u64) \<Longrightarrow> 1 \<le> x"
  by (rule order_trans [of _ 2]) simp

lemma olia_step_wf:
  assumes b: "2 \<le> initial" "initial \<le> maximal" "unat maximal < 2 ^ 24" and wf: "olia_wf maximal m"
  shows "olia_wf maximal (olia_step initial maximal ev m)"
proof (cases ev)
  case (OliaAdd i rtt)
  have "os_wf maximal (NewOliaSender rtt initial maximal)" using b
    by (auto simp: os_wf_def NewOliaSender_def defaultNumConnections_def defaultMinimumCongestionWindow_def intro: order_trans
        simp: word_le_nat_alt)
  then show ?thesis using wf OliaAdd set_update_insert [of i _ m]
    by (fastforce simp: olia_wf_def distinct_update)
next
  case (OliaAcked i pn bytes fl)
  then show ?thesis using olia_wf_acked [OF wf] by simp
next
  case (OliaLost i pn bytes fl)
  then show ?thesis using olia_wf_upd [OF wf] os_wf_lost by simp
next
  case (OliaRTT i rtt)
  then show ?thesis by (auto intro!: olia_wf_upd [OF wf] simp: os_wf_def)
next
  case (OliaGroup i g e)
  then show ?thesis by (auto intro!: olia_wf_upd [OF wf] simp: os_wf_def UpdateGroupEpoch_def Let_def)
next
  case (OliaSent i pn bytes r)
  have "os_wf maximal (snd (os_OnPacketSent pn bytes r s))" if "os_wf maximal s" for s
    using that by (simp add: os_OnPacketSent_def os_wf_def Let_def)
  then show ?thesis using olia_wf_upd [OF wf] OliaSent by simp
next
  case (OliaTimeout i r)
  have "os_wf maximal (os_OnRetransmissionTimeout r s)" if "os_wf maximal s" for s
    using that one_le_if_two_le by (simp add: os_OnRetransmissionTimeout_def os_wf_def Let_def)
  then show ?thesis using olia_wf_upd [OF wf] OliaTimeout by simp
next
  case (OliaSlowStartCheck i)
  have "os_wf maximal (os_MaybeExitSlowStart s)" if "os_wf maximal s" for s
    using that by (simp add: os_MaybeExitSlowStart_def os_ExitSlowstart_def os_wf_def Let_def case_prod_beta)
  then show ?thesis using olia_wf_upd [OF wf] OliaSlowStartCheck by simp
next
  case (OliaMigration i)
  have "os_wf maximal (os_OnConnectionMigration s)" if "os_wf maximal s" for s
    using that one_le_if_two_le by (simp add: os_OnConnectionMigration_def os_wf_def)
  then show ?thesis using olia_wf_upd [OF wf] OliaMigration by simp
next
  case (OliaLargeReduction i b)
  then show ?thesis by (auto intro!: olia_wf_upd [OF wf] simp: os_wf_def os_SetSlowStartLargeReduction_def)
qed

section \<open>No congestion anywhere\<close>

text \<open>What the history of a sender is after twenty epochs, from \<open>e + 1\<close> on, in which its path was not congested.\<close>

definition quiet_history :: "nat \<Rightarrow> GroupItem list" where
  "quiet_history e = map (\<lambda>k. \<lparr> gi_group = 0, gi_epoch = of_nat (e + k + 1) \<rparr>) [0..<20]"

definition quiet :: "nat \<Rightarrow> OliaSender \<Rightarrow> bool" where
  "quiet e s \<longleftrightarrow> os_groupHistory s = quiet_history e \<and> os_groupHistoryNext s = 0"

lemma of_nat_epoch: "n < 65536 \<Longrightarrow> (of_nat n :: u16) = of_nat m \<longleftrightarrow> n = m mod 65536"
  by (simp add: word_unat_eq_iff unsigned_of_nat take_bit_nat_def)

lemma quiet_latest:
  assumes "quiet e s"
  shows "latest_item_epoch s = of_nat (e + 20)"
  using assms by (simp add: quiet_def latest_item_epoch_def quiet_history_def GROUP_HISTORY_SIZE_def)

lemma quiet_group:
  assumes q: "quiet e s" and e: "e < 65000"
  shows "i < 20 \<Longrightarrow> getGroupNoFilter (of_nat (e + 20) - of_nat i) s = 0" "getGroupNoFilter 0 s = -1"
proof -
  have h: "take (unat GROUP_HISTORY_SIZE) (os_groupHistory s) = quiet_history e"
    using q by (simp add: quiet_def quiet_history_def GROUP_HISTORY_SIZE_def)
  show "getGroupNoFilter (of_nat (e + 20) - of_nat i) s = 0" if i: "i < 20"
  proof -
    have eq: "(of_nat (e + 20) - of_nat i :: u16) = of_nat (e + (19 - i) + 1)" using i by (simp add: of_nat_diff)
    obtain gh where gh: "List.find (\<lambda>gh. gi_epoch gh = of_nat (e + (19 - i) + 1)) (quiet_history e) = Some gh"
    proof (cases "List.find (\<lambda>gh. gi_epoch gh = of_nat (e + (19 - i) + 1)) (quiet_history e)")
      case None
      have "\<lparr> gi_group = 0, gi_epoch = of_nat (e + (19 - i) + 1) \<rparr> \<in> set (quiet_history e)"
        using i unfolding quiet_history_def set_map by (intro image_eqI [of _ _ "19 - i"]) auto
      then show ?thesis using None by (fastforce simp: find_None_iff)
    qed auto
    then have "gh \<in> set (quiet_history e)" by (metis find_Some_iff nth_mem)
    then have "gi_group gh = 0" by (auto simp: quiet_history_def)
    then show ?thesis unfolding eq getGroupNoFilter_def h gh by simp
  qed
  have "List.find (\<lambda>gh. gi_epoch gh = 0) (quiet_history e) = None"
    unfolding find_None_iff quiet_history_def using e of_nat_epoch [of "e + k + 1" 0 for k] by auto
  then show "getGroupNoFilter 0 s = -1" by (simp add: getGroupNoFilter_def h)
qed

lemma fold_fixpoint: "(\<And>p. p \<in> set m \<Longrightarrow> f p x = x) \<Longrightarrow> fold f m x = x"
  by (induction m) auto

lemma quiet_epoch:
  assumes q: "\<forall>(j, s)\<in>set m. quiet e s" and e: "e < 65000" and m: "m \<noteq> []"
  shows "getEpoch m = 0"
proof -
  have pos: "(of_nat (e + 20) :: u16) \<noteq> 0" using of_nat_epoch [of "e + 20" 0] e by auto
  obtain j s where s: "(j, s) \<in> set m" using m by (cases m) auto
  define L :: u16 where "L = of_nat (e + 20)"
  have "fold (\<lambda>(i, s) latest. if latest_item_epoch s > latest then latest_item_epoch s else latest) m x =
      (if m = [] then x else L)" if "x \<le> L" for x
    using q that
  proof (induction m arbitrary: x)
    case (Cons p m)
    then have "latest_item_epoch (snd p) = L" by (auto simp: quiet_latest L_def)
    then have "(if latest_item_epoch (snd p) > x then latest_item_epoch (snd p) else x) = L" using Cons.prems(2) by auto
    then show ?case using Cons by (simp add: case_prod_beta)
  qed simp
  then have l: "getLatestEpoch m = of_nat (e + 20)" using m by (simp add: getLatestEpoch_def L_def)
  have "\<not> allHaveEpoch m (of_nat (e + 20) - of_nat i)" if "i < 20" for i
  proof -
    have "quiet e s" using q s by auto
    then have "hasGroupEpochs s" "getGroupNoFilter (of_nat (e + 20) - of_nat i) s = 0"
      using pos quiet_group(1) [OF _ e that] by (simp_all add: hasGroupEpochs_def quiet_latest word_gt_0)
    then show ?thesis using s by (auto simp: allHaveEpoch_def list_all_iff)
  qed
  then have "\<not> allHaveEpoch m x" if "x \<in> set (map (\<lambda>i. of_nat (e + 20) - of_nat i) [0..<unat GROUP_HISTORY_SIZE])" for x
    using that by (auto simp: GROUP_HISTORY_SIZE_def)
  then have "List.find (allHaveEpoch m) (takeWhile (\<lambda>e. e \<noteq> 0)
      (map (\<lambda>i. of_nat (e + 20) - of_nat i) [0..<unat GROUP_HISTORY_SIZE])) = None"
    unfolding find_None_iff by (meson set_takeWhileD)
  then show ?thesis by (simp add: getEpoch_def Let_def l)
qed

lemma unat_oliaScale:
  assumes "unat x * 1024 < 2 ^ 64"
  shows "unat (oliaScale x) = unat x * 1024"
proof -
  have "oliaScale x = x * 1024" by (simp add: oliaScale_def scale_def push_bit_eq_mult)
  then show ?thesis using assms by (simp add: unat_mult_lem [THEN iffD1])
qed

lemma lonely_window:
  assumes cur: "1 \<le> unat cur" "unat cur \<le> 2500" and ol: "ol_epsilonNum ol = 0" "ol_epsilonDen ol = 1" "\<bar>ol_sndCwndCnt ol\<bar> < 1024"
  shows "ol_CongestionWindowAfterAck cur 1 (oliaScale cur) ol = (cur + 1, ol\<lparr>ol_sndCwndCnt := 0\<rparr>)"
proof -
  define n where "n = unat cur"
  have n: "1 \<le> n" "n \<le> 2500" using cur by (simp_all add: n_def)
  have lim: "n * n \<le> 2500 * 2500" using n by (intro mult_mono) auto
  have scaled: "unat (oliaScale cur) = n * 1024"
    using n unat_oliaScale [of cur] by (simp add: n_def)
  have sq: "unat (oliaScale cur * oliaScale cur) = n * n * 1048576"
    using lim by (simp only: unat_word_ariths scaled) simp
  have num: "unat (oliaScale (oliaScale cur * oliaScale cur)) = n * n * 1073741824"
    using lim unat_oliaScale [of "oliaScale cur * oliaScale cur"] unfolding sq by simp
  have v: "unat (oliaScale (oliaScale cur * oliaScale cur) div cur) = n * 1073741824"
    using n by (simp add: unat_div_distrib num n_def [symmetric])
  then have u: "uint (oliaScale (oliaScale cur * oliaScale cur) div cur) = int (n * 1073741824)" by (metis uint_nat)
  then have t: "sint (oliaScale (oliaScale cur * oliaScale cur) div cur) = int (n * 1073741824)"
    using n v by (subst sint_small) simp_all
  have nz: "cur \<noteq> 0" using cur(1) by auto
  have "olia_count cur 1 (oliaScale cur) ol = wrap64 (ol_sndCwndCnt ol + int (n * 1073741824))"
    using nz by (simp add: olia_count_def Let_def ol t)
  also have "\<dots> = ol_sndCwndCnt ol + int (n * 1073741824)" using n ol(3) by (intro wrap64_id) auto
  finally have "olia_count cur 1 (oliaScale cur) ol \<ge> 2 ^ scale - 1" using n ol(3) by (simp add: scale_def)
  then show ?thesis by (simp add: ol_CongestionWindowAfterAck_def Let_def)
qed

section \<open>The properties\<close>

text \<open>
  C22. The terms by which OLIA moves traffic add up to nothing. For the senders that share a bottleneck, the fractions \<open>epsilon\<close>
  that \<open>getEpsilon\<close> sets sum to zero, for any windows, round-trip times and losses: what the best paths with small windows gain,
  the paths with the largest windows lose; and only a path with the largest window loses.
\<close>
theorem epsilon_balanced:
  assumes "length m < 256"
  shows "(\<Sum>(i, s)\<leftarrow>filter (\<lambda>(i, s). canBeSent grp epoch s) (getEpsilon grp epoch m). epsilon s) = 0 \<and>
    (\<forall>(i, s)\<in>set (getEpsilon grp epoch m). canBeSent grp epoch s \<and> epsilon s < 0 \<longrightarrow>
       (\<forall>(j, t)\<in>set m. canBeSent grp epoch t \<longrightarrow> os_congestionWindow t \<le> os_congestionWindow s))"
proof -
  define top best member where "top = getMaxCwnd grp epoch m" and "best = best_path grp epoch m" and "member = canBeSent grp epoch"
  define G where "G = filter (\<lambda>(i, s). member s) m"
  define g M B where "g = count_senders member m" and "M = count_senders (\<lambda>s. member s \<and> os_congestionWindow s = top) m"
    and "B = count_senders (\<lambda>s. member s \<and> os_congestionWindow s \<noteq> top \<and> as_good_as best s) m"
  define P Q where "P = (\<lambda>(i :: PathID, s :: OliaSender). os_congestionWindow s < top \<and> as_good_as best s)"
    and "Q = (\<lambda>(i :: PathID, s :: OliaSender). os_congestionWindow s = top)"
  define u where "u = (\<lambda>s. if B = 0 then set_epsilon 0 1 s
    else if os_congestionWindow s < top \<and> as_good_as best s then set_epsilon 1 (ucast g * ucast B) s
    else if os_congestionWindow s = top then set_epsilon (-1) (ucast g * ucast M) s else set_epsilon 0 1 s)"
  have E: "getEpsilon grp epoch m = map (\<lambda>(i, s). (i, if \<not> member s then s else u s)) m"
    unfolding getEpsilon_def Let_def u_def top_def best_def member_def g_def M_def B_def by (rule refl)
  have member_u [simp]: "member (u s) = member s" for s by (simp add: u_def member_def)
  have le: "os_congestionWindow s \<le> top" if "(i, s) \<in> set m" "member s" for i s
    using max_member_bound [of i s m grp epoch 0] that by (simp add: top_def getMaxCwnd_def max_member_def member_def)
  have at: "top = 0 \<or> (\<exists>(i, s)\<in>set m. member s \<and> os_congestionWindow s = top)"
    using max_member_attained [of grp epoch m 0] by (simp add: top_def getMaxCwnd_def max_member_def member_def)
  have filt: "filter (\<lambda>(i, s). member s) (map (\<lambda>(i, s). (i, if \<not> member s then s else u s)) m) = map (\<lambda>(i, s). (i, u s)) G"
    unfolding G_def by (induction m) auto
  have sum: "(\<Sum>(i, s)\<leftarrow>map (\<lambda>(i, s). (i, u s)) G. epsilon s) = (\<Sum>x\<leftarrow>G. epsilon (u (snd x)))"
    by (simp add: case_prod_beta o_def)
  have cg: "unat g = length G" and cM: "unat M = length (filter Q G)" and cB: "unat B = length (filter P G)"
  proof -
    show "unat g = length G" using assms by (simp add: g_def G_def unat_count_senders)
    have "filter (\<lambda>(i, s). member s \<and> os_congestionWindow s = top) m = filter Q G"
      unfolding G_def filter_filter Q_def by (rule filter_cong [OF refl]) auto
    then show "unat M = length (filter Q G)" using assms by (simp add: M_def unat_count_senders)
    have "filter (\<lambda>(i, s). member s \<and> os_congestionWindow s \<noteq> top \<and> as_good_as best s) m = filter P G"
      unfolding G_def filter_filter P_def by (rule filter_cong [OF refl]) (use le in fastforce)
    then show "unat B = length (filter P G)" using assms by (simp add: B_def unat_count_senders)
  qed
  have zero: "(\<Sum>x\<leftarrow>G. epsilon (u (snd x))) = 0"
  proof (cases "B = 0")
    case True
    then have "epsilon (u s) = 0" for s by (simp add: u_def)
    then show ?thesis by simp
  next
    case False
    then have b: "0 < length (filter P G)" using cB by (metis gr0I unat_eq_zero)
    then obtain p where p: "p \<in> set G" "P p" by (metis filter_empty_conv length_greater_0_conv)
    have "0 < length G" using p(1) by (cases G) auto
    moreover have "0 < length (filter Q G)"
    proof -
      have "top \<noteq> 0" using p(2) by (auto simp: P_def)
      then obtain i s where "(i, s) \<in> set m" "member s" "os_congestionWindow s = top" using at by auto
      then have "(i, s) \<in> set (filter Q G)" by (simp add: G_def Q_def)
      then show ?thesis by (metis length_pos_if_in_set)
    qed
    moreover have "epsilon (u (snd x)) = (if P x then 1 / (of_nat (length G) * of_nat (length (filter P G)))
        else if Q x then - 1 / (of_nat (length G) * of_nat (length (filter Q G))) else 0)" for x
      using False by (simp add: u_def P_def Q_def case_prod_beta ucast_product cg cM cB)
    moreover have "filter (\<lambda>x. \<not> P x \<and> Q x) G = filter Q G" by (rule filter_cong) (auto simp: P_def Q_def)
    ultimately show ?thesis using b by (simp add: sum_of_cases)
  qed
  have neg: "os_congestionWindow s = top" if "epsilon (u s) < 0" for s
  proof -
    have "ol_epsilonNum (os_olia (u s)) < 0" using epsilon_neg [OF that] .
    then show ?thesis by (auto simp: u_def set_epsilon_def split: if_splits)
  qed
  have cw: "os_congestionWindow (u s) = os_congestionWindow s" for s by (simp add: u_def set_epsilon_def)
  have "\<forall>(i, s)\<in>set (getEpsilon grp epoch m). canBeSent grp epoch s \<and> epsilon s < 0 \<longrightarrow>
       (\<forall>(j, t)\<in>set m. canBeSent grp epoch t \<longrightarrow> os_congestionWindow t \<le> os_congestionWindow s)"
    unfolding E using neg cw le by (fastforce simp: member_def [symmetric])
  then show ?thesis using zero unfolding E member_def [symmetric] filt sum by blast
qed

theorem epsilon_balanced_witness:
  "(\<Sum>(i, s)\<leftarrow>filter (\<lambda>(i, s). canBeSent 0 0 s) (getEpsilon 0 0
      [(1, NewOliaSender zeroRTTStats 10 2500), (3, NewOliaSender zeroRTTStats 20 2500)]). epsilon s) = 0"
  using epsilon_balanced [of "[(1, NewOliaSender zeroRTTStats 10 2500), (3, NewOliaSender zeroRTTStats 20 2500)]" 0 0] by simp

text \<open>
  C27. The windows of OLIA stay in their bounds: for any senders that are added, and any packets sent, acked and lost, any RTTs and groups on
  any of the paths, no window is ever zero or above the maximum. (The minimum of two packets is not kept: the decreasing
  term takes the window down to one.)
\<close>
theorem olia_window_bounds:
  assumes "2 \<le> initial" "initial \<le> maximal" "unat maximal < 2 ^ 24"
    and "(i, s) \<in> set (fold (olia_step initial maximal) evs [])"
  shows "1 \<le> os_congestionWindow s \<and> os_congestionWindow s \<le> maximal"
proof -
  have "olia_wf maximal m \<Longrightarrow> olia_wf maximal (fold (olia_step initial maximal) evs m)" for m
    by (induction evs arbitrary: m) (simp_all add: olia_step_wf [OF assms(1-3)])
  from this [of "[]"] have "olia_wf maximal (fold (olia_step initial maximal) evs [])" by (simp add: olia_wf_def)
  then show ?thesis using assms(4) by (auto simp: olia_wf_def os_wf_def)
qed

theorem olia_window_bounds_witness:
  "\<exists>s. (1, s) \<in> set (fold (olia_step 32 2500) [OliaAdd 1 zeroRTTStats, OliaSent 1 5 1350 True, OliaTimeout 1 True] []) \<and>
     1 \<le> os_congestionWindow s \<and> os_congestionWindow s \<le> 2500"
proof -
  let ?m = "fold (olia_step 32 2500) [OliaAdd 1 zeroRTTStats, OliaSent 1 5 1350 True, OliaTimeout 1 True] []"
  obtain s where s: "(1, s) \<in> set ?m" by (simp add: upd_sender_def)
  then show ?thesis using olia_window_bounds [of 32 2500 1 s "[OliaAdd 1 zeroRTTStats, OliaSent 1 5 1350 True, OliaTimeout 1 True]"] by auto
qed



text \<open>
  The comparison of two paths overflows. The bytes between losses are multiplied by the square of an RTT in nanoseconds, in 64 bits: a path
  that delivers a million bytes between losses at 50 milliseconds is taken to be worse than one with 2000 bytes at 100
  milliseconds, and is not among the best paths.
\<close>
theorem olia_comparison_overflows:
  "\<not> as_good_as (wrap64 ((100 * Millisecond) * (100 * Millisecond)), 2000)
     ((NewOliaSender (zeroRTTStats\<lparr>rt_smoothedRTT := 50 * Millisecond\<rparr>) 32 2500)\<lparr>os_olia := (NewOlia 0)\<lparr>ol_loss3 := 1000000\<rparr>\<rparr>)"
  by (simp add: as_good_as_def rtt_squared_def NewOliaSender_def NewOlia_def SmoothedBytesBetweenLosses_def Millisecond_def wrap64_def)

end
