(* ===== verification/Spec2Isabelle.thy ===== *)
theory Spec2Isabelle
  imports Float16 Packet_Unpacker Recv_Handler Frame_Sorter Flow_Control Sent_Correct Packet_Packer Client Olia
begin

text \<open>
  \<^bold>\<open>A model of the MPQUIC fork of quic-go.\<close>

  The repository extends the QUIC implementation of \<open>src/src/quic-go\<close> by several paths per connection (MPQUIC), by the detection
  of shared bottlenecks (SBD) and by a congestion control that couples the paths of a bottleneck. All file names below are
  relative to that directory; \<open>internal/\<close> is left out of them. The Go code is the part that is modelled; the web server Caddy, the
  DASH client and the emulation scripts beside it are not.

  \<^bold>\<open>How the parts work together.\<close> An application writes to a stream (\<open>stream.go\<close>); the framer (\<open>stream_framer.go\<close>) goes round the
  open streams (\<open>streams_map.go\<close>), cuts what waits into STREAM frames within the windows of flow control (\<open>flowcontrol\<close>), and the
  packer (\<open>packet_packer.go\<close>) puts them with the control frames into packets, which it seals with the keys the handshake has set up
  (\<open>handshake\<close>, \<open>crypto\<close>). The handler of sent packets of a path (\<open>ackhandler\<close>, \<open>path.go\<close>) keeps a packet until it is acknowledged
  or lost, asks the congestion controller (\<open>congestion\<close>) whether more may be sent, and hands back what must be sent again. At the other end
  the unpacker (\<open>packet_unpacker.go\<close>) opens the packet and parses its frames (\<open>wire\<close>), the handler of received packets keeps the numbers
  to be acknowledged, and the sorter (\<open>stream_frame_sorter.go\<close>) gives the bytes to the reader in order.

  \<^bold>\<open>The theories\<close>, in the order of their imports.

  \<^item> \<open>Prelude\<close>: Go's integer types as words, errors and panics as the left side of a sum, parsers over the bytes of a reader, and
    the lemma collections. \<open>Go_Float\<close>, \<open>Go_Rat\<close>: rounding of \<open>float32\<close>, on integers and on rational numbers.
  \<^item> \<open>Protocol\<close> (\<open>protocol/\<close>, \<open>utils/minmax.go\<close>): packet numbers on the wire, versions and their choice. \<open>Byte_Order\<close>
    (\<open>utils/byteorder*.go\<close>) and \<open>Float16\<close> (\<open>utils/float16.go\<close>): numbers on the wire.
  \<^item> \<open>Wire_Basic\<close>, \<open>Wire_Stream\<close>, \<open>Ack_Ranges\<close>, \<open>Wire_Ack\<close>, \<open>Wire_ClosePath\<close>, \<open>Wire_Header\<close> (\<open>wire/\<close>): writer, length and parser
    of every frame and of the public header. \<open>Packet_Unpacker\<close>: the sum of the frames, and the loop that parses a packet. The lemmas
    are round trips, lengths, and what holds of everything a parser accepts.
  \<^item> \<open>Recv_History\<close>, \<open>Recv_Handler\<close> (\<open>ackhandler/received_packet_*.go\<close>): the intervals of received numbers as a refinement of a
    set; the ACK frame and its alarm over runs.
  \<^item> \<open>Frame_Sorter\<close>: the gaps of a stream as a refinement of the received positions; what is read is a prefix of what was sent.
  \<^item> \<open>Handshake_Msg\<close>, \<open>Conn_Params\<close>: the tag-value messages, and the parameters of a connection with their negotiation.
  \<^item> \<open>Flow_Control\<close>: windows of streams and of the connection, over runs of the manager at both ends.
  \<^item> \<open>Rtt_Stats\<close>, \<open>Sent_Handler\<close>, \<open>Sent_Correct\<close> (\<open>congestion/rtt_stats.go\<close>, \<open>ackhandler/sent_packet_handler.go\<close> and the files it
    uses): the operations over any congestion controller, and that every packet sent is at one place until it is acknowledged.
    \<open>Packet_Number_Gen\<close>: the numbers of the packets.
  \<^item> \<open>Stream\<close>, \<open>Streams_Map\<close>, \<open>Stream_Framer\<close>, \<open>Stream_Transfer\<close>: the two sides of a stream, limits and round robin, the cutting of
    frames; \<open>Stream_Transfer\<close> puts both ends together and shows that what was written is what is read.
  \<^item> \<open>Path\<close>, \<open>Packet_Packer\<close>: a path with its handlers; the packing of packets, with what happens to each frame that waits.
  \<^item> \<open>Aead\<close>, \<open>Crypto_Setup\<close>, \<open>Handshake\<close>, \<open>Client\<close>: authenticated encryption, the states of client and server of the handshake, their
    composition, and the choice of the version by the client (\<open>client.go\<close>).
  \<^item> \<open>Slow_Start\<close>, \<open>Cubic\<close>, \<open>Olia\<close> (\<open>congestion/\<close>): the two congestion controllers, with the bounds of their windows, and the
    coupling of the paths of a group.

  \<^bold>\<open>State and operations.\<close> A struct is a record with a prefix for its fields, a method a function from the record to the changed
  record and its result; definitions have the names of the code where HOL does not have them. Interfaces between components are
  locales (a frame on the wire, a byte order, a pair of AEADs, the history of packets, a counter of flow control), interpreted on the
  model; a congestion controller and a sealer are records of functions. A Go map is a
  list in the order of an iteration, or a map where the order does not matter. Times are nanoseconds.

  \<^bold>\<open>Bounds.\<close> Offsets, windows and sizes of streams stay below \<open>2^62\<close>, packets below 1350 bytes, as everywhere in the code;
  then \<open>uint64\<close> sums do not wrap. Round trip times below two seconds are exact in \<open>float32\<close>; the round robin is fair below
  \<open>2^30\<close> streams, as its index is \<open>uint32\<close>; a client opens fewer than \<open>2^31\<close> streams; a run of CUBIC has fewer than \<open>2^62\<close>
  events and its window fewer than \<open>2^24\<close> packets, so that \<open>float32\<close> is exact on it; OLIA counts fewer than 256 paths in a
  \<open>uint8\<close>. These are hypotheses of the theorems that need them. Durations and times are unbounded integers, where the code has
  \<open>int64\<close> nanoseconds; they do not come near its bounds but where a finding says so. Loops that may not end are
  \<open>partial_function\<close>s, and the theorems show that they return; there is no fuel.

  \<^bold>\<open>Not modelled.\<close> The goroutines and the select loops of session, path, server and client, which run the operations in any order:
  the runs of the theorems are over any order. Timers, sockets, logging, the pool of buffers. AES, HKDF, the curve, certificates and
  signatures, cookies, clock and random bytes are parameters; what the theorems need of them are hypotheses, which an instance
  satisfies. The cache of handshakes on disk is left out. The error of a message that does not parse only ends the loop
  of the client's \<open>HandleCryptoStream\<close>; the first turn of that loop, which sends the first hello, is the event \<open>DivNonce []\<close>.
\<close>

end
